(* ===== verification/Prelude.thy ===== *)
theory Prelude
  imports
    Main
    "HOL-Library.AList"
    "HOL-Library.Char_ord"
    "HOL-Library.List_Lexorder"
    "HOL-Library.Multiset"
begin

text \<open>
  Shared vocabulary of the topograph development: Go maps, Go strings, the 64-bit \<open>int\<close> of Go,
  decimal conversion, the packages \<open>strings\<close>, \<open>sort\<close> and \<open>strconv\<close> as far as the sources use
  them, and HTTP errors (\<open>internal/httperr\<close>).

  \<^item> A Go map is an association list with distinct keys. The order of the list is the order in
    which a \<open>range\<close> loop visits the map: Go leaves that order open, so a theorem about every
    list is a theorem about every iteration order, and a lemma that relates two permutations of
    a list says that a result does not depend on it.
  \<^item> A Go string is a list of bytes (\<open>string\<close>); \<open><\<close> on strings is the bytewise lexicographic
    order of Go, which \<open>List_Lexorder\<close> and \<open>Char_ord\<close> provide.
  \<^item> A Go \<open>int\<close> is an \<open>int\<close> with \<open>wrap64\<close> written where an operation can overflow.
\<close>

named_theorems go_simps \<open>unfolding rules for the models of Go library functions\<close>

section \<open>Go maps\<close>

type_synonym ('k, 'v) gomap = "('k \<times> 'v) list"

abbreviation gm_get :: "('k, 'v) gomap \<Rightarrow> 'k \<Rightarrow> 'v option" where
  "gm_get \<equiv> map_of"

abbreviation gm_put :: "'k \<Rightarrow> 'v \<Rightarrow> ('k, 'v) gomap \<Rightarrow> ('k, 'v) gomap" where
  "gm_put \<equiv> AList.update"

abbreviation gm_del :: "'k \<Rightarrow> ('k, 'v) gomap \<Rightarrow> ('k, 'v) gomap" where
  "gm_del \<equiv> AList.delete"

abbreviation gm_keys :: "('k, 'v) gomap \<Rightarrow> 'k list" where
  "gm_keys m \<equiv> map fst m"

abbreviation gm_vals :: "('k, 'v) gomap \<Rightarrow> 'v list" where
  "gm_vals m \<equiv> map snd m"

definition gm_wf :: "('k, 'v) gomap \<Rightarrow> bool" where
  "gm_wf m \<longleftrightarrow> distinct (gm_keys m)"

text \<open>\<open>maps.Copy(dst, src)\<close>: every entry of \<open>src\<close> is stored in \<open>dst\<close>.\<close>

definition gm_copy :: "('k, 'v) gomap \<Rightarrow> ('k, 'v) gomap \<Rightarrow> ('k, 'v) gomap" where
  "gm_copy dst src = fold (\<lambda>(k, v). gm_put k v) src dst"

text \<open>
  What the components rely on when they use a map: the laws of lookup after a store or a delete,
  and that both keep the keys distinct. The facts about sequences of stores are proved once here.
\<close>

locale go_map =
  fixes empty :: "'m"
    and put :: "'k \<Rightarrow> 'v \<Rightarrow> 'm \<Rightarrow> 'm"
    and del :: "'k \<Rightarrow> 'm \<Rightarrow> 'm"
    and get :: "'m \<Rightarrow> 'k \<Rightarrow> 'v option"
    and wf :: "'m \<Rightarrow> bool"
  assumes get_empty: "get empty k = None"
    and get_put: "get (put k v m) k' = (if k' = k then Some v else get m k')"
    and get_del: "get (del k m) k' = (if k' = k then None else get m k')"
    and wf_empty: "wf empty"
    and wf_put: "wf m \<Longrightarrow> wf (put k v m)"
    and wf_del: "wf m \<Longrightarrow> wf (del k m)"
begin

lemma wf_puts: "wf m \<Longrightarrow> wf (fold (\<lambda>(k, v). put k v) kvs m)"
  by (induction kvs arbitrary: m) (auto simp: wf_put)

lemma get_puts:
  "get (fold (\<lambda>(k, v). put k v) kvs m) k =
     (case map_of (rev kvs) k of Some v \<Rightarrow> Some v | None \<Rightarrow> get m k)"
  by (induction kvs arbitrary: m) (auto simp: get_put map_add_def split: option.splits)

lemma get_puts_distinct:
  assumes "distinct (map fst kvs)"
  shows "get (fold (\<lambda>(k, v). put k v) kvs m) k =
    (case map_of kvs k of Some v \<Rightarrow> Some v | None \<Rightarrow> get m k)"
proof -
  have "map_of (rev kvs) = map_of kvs"
    using assms by (intro map_of_inject_set [THEN iffD2]) (simp_all add: rev_map [symmetric])
  then show ?thesis by (simp add: get_puts)
qed

lemma get_dels: "get (fold del ks m) k = (if k \<in> set ks then None else get m k)"
  by (induction ks arbitrary: m) (auto simp: get_del)

lemma put_idem: "get (put k v (put k v m)) = get (put k v m)"
  by (auto simp: get_put)

lemma put_swap: "k \<noteq> k' \<Longrightarrow> get (put k v (put k' v' m)) = get (put k' v' (put k v m))"
  by (auto simp: get_put)

end

interpretation gm: go_map "[]" gm_put gm_del gm_get gm_wf
proof
  show "gm_get (gm_put k v m) k' = (if k' = k then Some v else gm_get m k')"
    for k k' and v :: 'v and m :: "('k, 'v) gomap"
    by (simp add: update_conv')
  show "gm_get (gm_del k m) k' = (if k' = k then None else gm_get m k')"
    for k k' and m :: "('k, 'v) gomap"
    by (simp add: delete_conv')
  show "gm_wf (gm_put k v m)" if "gm_wf m" for k and v :: 'v and m :: "('k, 'v) gomap"
    using that by (simp add: gm_wf_def distinct_update)
  show "gm_wf (gm_del k m)" if "gm_wf m" for k and m :: "('k, 'v) gomap"
    using that by (simp add: gm_wf_def distinct_delete)
qed (simp_all add: gm_wf_def)

lemmas gm_get_simps [simp] = gm.get_put gm.get_del

lemma gm_get_copy:
  "gm_wf src \<Longrightarrow> gm_get (gm_copy dst src) k =
     (case gm_get src k of Some v \<Rightarrow> Some v | None \<Rightarrow> gm_get dst k)"
  unfolding gm_copy_def gm_wf_def by (rule gm.get_puts_distinct)

lemma gm_wf_copy: "gm_wf dst \<Longrightarrow> gm_wf (gm_copy dst src)"
  unfolding gm_copy_def by (rule gm.wf_puts)

lemma gm_wf_Nil [simp]: "gm_wf []"
  by (rule gm.wf_empty)

lemma gm_wf_put [intro]: "gm_wf m \<Longrightarrow> gm_wf (gm_put k v m)"
  by (rule gm.wf_put)

lemma gm_wf_Cons [simp]: "gm_wf ((k, v) # m) \<longleftrightarrow> k \<notin> set (gm_keys m) \<and> gm_wf m"
  by (simp add: gm_wf_def)

lemma gm_put_fresh: "k \<notin> set (gm_keys m) \<Longrightarrow> gm_put k v m = m @ [(k, v)]"
  by (induction m) auto

lemma gm_put_present_keys: "k \<in> set (gm_keys m) \<Longrightarrow> gm_keys (gm_put k v m) = gm_keys m"
  by (simp add: update_keys)

lemma gm_get_Some_mem: "gm_wf m \<Longrightarrow> gm_get m k = Some v \<longleftrightarrow> (k, v) \<in> set m"
  by (simp add: gm_wf_def map_of_eq_Some_iff)

lemma gm_get_map:
  "gm_get (map (\<lambda>(k, v). (k, f k v)) m) k = map_option (f k) (gm_get m k)"
  by (induction m) auto

lemma gm_key_get: "k \<in> set (gm_keys m) \<longleftrightarrow> (\<exists>v. gm_get m k = Some v)"
  using map_of_eq_None_iff [of m k] by auto

text \<open>Two lists that are permutations of each other are the same map.\<close>

lemma gm_get_perm:
  assumes "gm_wf m" and "mset m = mset m'"
  shows "gm_get m' = gm_get m"
proof -
  have "distinct (map fst m')"
    using assms by (metis gm_wf_def mset_eq_imp_distinct_iff mset_map)
  moreover have "set m' = set m" using assms(2) by (metis set_mset_mset)
  ultimately show ?thesis
    using assms(1) by (simp add: gm_wf_def map_of_inject_set)
qed

lemma gm_wf_perm: "mset m = mset m' \<Longrightarrow> gm_wf m = gm_wf m'"
  unfolding gm_wf_def by (metis mset_eq_imp_distinct_iff mset_map)

section \<open>Sorting\<close>

text \<open>
  \<open>sort.Strings\<close> is \<open>sort\<close>. \<open>sort.Slice\<close> with a key is \<open>sort_key\<close>: Go's routine is not stable,
  so results that depend on the order of elements with equal keys are stated with keys that are
  distinct, or whose ties are equal elements.
\<close>

definition sorted_keys :: "('k::linorder, 'v) gomap \<Rightarrow> 'k list" where
  "sorted_keys m = sort (gm_keys m)"

lemma sort_perm_eq: "mset xs = mset ys \<Longrightarrow> sort xs = sort (ys :: 'a::linorder list)"
  by (metis mset_sort properties_for_sort sorted_sort)

lemma sort_key_perm_eq:
  assumes "mset xs = mset ys" and "inj_on f (set xs)"
  shows "sort_key f xs = sort_key (f :: 'a \<Rightarrow> 'b::linorder) ys"
proof (rule sort_key_inj_key_eq [OF _ assms(2)])
  show "mset xs = mset (sort_key f ys)" using assms(1) by simp
  show "sorted (map f (sort_key f ys))" by simp
qed

lemma sorted_keys_perm: "mset m = mset m' \<Longrightarrow> sorted_keys m = sorted_keys m'"
  unfolding sorted_keys_def by (rule sort_perm_eq) (metis mset_map)

lemma set_sorted_keys [simp]: "set (sorted_keys m) = set (gm_keys m)"
  by (simp add: sorted_keys_def)

lemma distinct_sorted_keys: "gm_wf m \<Longrightarrow> distinct (sorted_keys m)"
  by (simp add: sorted_keys_def gm_wf_def)

lemma mset_concat_map: "mset (concat (map f xs)) = (\<Sum>x \<in># mset xs. mset (f x))"
  by (induction xs) auto

lemma concat_map_concat_map:
  "concat (map f (concat (map g xs))) = concat (map (\<lambda>x. concat (map f (g x))) xs)"
  by (induction xs) auto

lemma visit_mem:
  assumes "b \<in> set (concat (map (\<lambda>k. case gm_get m k of None \<Rightarrow> [] | Some v \<Rightarrow> f k v) ks))"
  obtains k v where "k \<in> set ks" and "gm_get m k = Some v" and "b \<in> set (f k v)"
proof -
  from assms obtain k where k: "k \<in> set ks" "b \<in> set (case gm_get m k of None \<Rightarrow> [] | Some v \<Rightarrow> f k v)"
    by auto
  then obtain v where "gm_get m k = Some v" by (cases "gm_get m k") auto
  with k show thesis using that by simp
qed

text \<open>Visiting a map by its sorted keys visits every entry once.\<close>

lemma mset_sorted_keys_visit:
  assumes "gm_wf m"
  shows "mset (concat (map (\<lambda>k. case gm_get m k of None \<Rightarrow> [] | Some v \<Rightarrow> f k v) (sorted_keys m))) =
    (\<Sum>(k, v) \<in># mset m. mset (f k v))"
proof -
  have "mset (concat (map (\<lambda>k. case gm_get m k of None \<Rightarrow> [] | Some v \<Rightarrow> f k v) (sorted_keys m))) =
      (\<Sum>k \<in># mset (gm_keys m). mset (case gm_get m k of None \<Rightarrow> [] | Some v \<Rightarrow> f k v))"
    by (simp add: mset_concat_map sorted_keys_def)
  also have "\<dots> = (\<Sum>(k, v) \<in># mset m. mset (f k v))"
    by (auto simp: gm_get_Some_mem [OF assms, THEN iffD2] image_mset.compositionality comp_def
        intro!: arg_cong [where f = sum_mset] image_mset_cong)
  finally show ?thesis .
qed

section \<open>Go int and decimal strings\<close>

definition maxInt :: int where
  "maxInt = 9223372036854775807"

definition wrap64 :: "int \<Rightarrow> int" where
  "wrap64 x = (x + 9223372036854775808) mod 18446744073709551616 - 9223372036854775808"

lemma wrap64_id: "- maxInt - 1 \<le> x \<Longrightarrow> x \<le> maxInt \<Longrightarrow> wrap64 x = x"
  by (simp add: wrap64_def maxInt_def)

lemma wrap64_range: "- maxInt - 1 \<le> wrap64 x" "wrap64 x \<le> maxInt"
  using pos_mod_bound [of "18446744073709551616" "x + 9223372036854775808"]
  by (auto simp: wrap64_def maxInt_def)

lemma wrap64_overflow: "wrap64 (maxInt + 1) = - maxInt - 1"
  by (simp add: wrap64_def maxInt_def)

definition is_digit :: "char \<Rightarrow> bool" where
  "is_digit c \<longleftrightarrow> 48 \<le> (of_char c :: nat) \<and> (of_char c :: nat) \<le> 57"

definition digit_val :: "char \<Rightarrow> nat" where
  "digit_val c = of_char c - 48"

definition digit_char :: "nat \<Rightarrow> char" where
  "digit_char d = char_of (48 + d)"

text \<open>\<open>strconv.Itoa\<close> on a natural number.\<close>

fun itoa :: "nat \<Rightarrow> string" where
  "itoa n = (if n < 10 then [digit_char n] else itoa (n div 10) @ [digit_char (n mod 10)])"

declare itoa.simps [simp del]

text \<open>\<open>fmt\<close>'s \<open>%0*d\<close>: zero padding to a width; a width above one million is refused by \<open>fmt\<close>.\<close>

definition pad0 :: "nat \<Rightarrow> nat \<Rightarrow> string" where
  "pad0 w n =
     (if int w > 1000000 then ''%!(BADWIDTH)'' @ itoa n
      else replicate (w - length (itoa n)) (CHR ''0'') @ itoa n)"

text \<open>
  The value of \<open>strconv.Atoi\<close>, errors included: the digit loop of \<open>ParseUint\<close> stops at the first
  byte that is not a digit (a syntax error, value 0) or at the first overflow of 64 bits (a range
  error, the value is clamped).
\<close>

fun parse_uint :: "int \<Rightarrow> string \<Rightarrow> int option" where
  "parse_uint n [] = Some n"
| "parse_uint n (c # cs) =
     (if \<not> is_digit c then None
      else let n1 = n * 10 + int (digit_val c) in
        if n1 \<ge> 18446744073709551616 then Some 18446744073709551615 else parse_uint n1 cs)"

definition atoi :: "string \<Rightarrow> int" where
  "atoi s =
     (let neg = (case s of c # _ \<Rightarrow> c = CHR ''-'' | [] \<Rightarrow> False);
          ds = (case s of c # cs \<Rightarrow> if c = CHR ''-'' \<or> c = CHR ''+'' then cs else s | [] \<Rightarrow> [])
      in if ds = [] then 0
         else case parse_uint 0 ds of
           None \<Rightarrow> 0
         | Some un \<Rightarrow> if neg then - min un (maxInt + 1) else min un maxInt)"

text \<open>The value of a digit string, and how \<open>itoa\<close>, \<open>pad0\<close> and \<open>atoi\<close> relate to it.\<close>

definition dec_val :: "nat \<Rightarrow> string \<Rightarrow> nat" where
  "dec_val n ds = foldl (\<lambda>a c. a * 10 + digit_val c) n ds"

lemma is_digit_digit_char [simp]: "d < 10 \<Longrightarrow> is_digit (digit_char d)"
  by (simp add: is_digit_def digit_char_def)

lemma digit_val_digit_char [simp]: "d < 10 \<Longrightarrow> digit_val (digit_char d) = d"
  by (simp add: digit_val_def digit_char_def)

lemma digit_char_digit_val [simp]: "is_digit c \<Longrightarrow> digit_char (digit_val c) = c"
  by (simp add: is_digit_def digit_val_def digit_char_def)

lemma digit_val_lt: "is_digit c \<Longrightarrow> digit_val c < 10"
  by (auto simp: is_digit_def digit_val_def)

lemma is_digit_zero [simp]: "is_digit (CHR ''0'')"
  by (simp add: is_digit_def)

lemma digit_val_zero [simp]: "digit_val (CHR ''0'') = 0"
  by (simp add: digit_val_def)

lemma digit_char_zero: "digit_char 0 = CHR ''0''"
  using digit_char_digit_val [OF is_digit_zero] by simp

lemma itoa_nonempty [simp]: "itoa n \<noteq> []"
  by (subst itoa.simps) simp

lemma itoa_digits: "\<forall>c \<in> set (itoa n). is_digit c"
proof (induction n rule: itoa.induct)
  case (1 n)
  then show ?case by (subst itoa.simps) auto
qed

lemma dec_val_append: "dec_val n (xs @ ys) = dec_val (dec_val n xs) ys"
  by (simp add: dec_val_def)

lemma dec_val_itoa [simp]: "dec_val 0 (itoa n) = n"
proof (induction n rule: itoa.induct)
  case (1 n)
  show ?case
  proof (cases "n < 10")
    case True
    then show ?thesis by (subst itoa.simps) (simp add: dec_val_def)
  next
    case False
    with "1.IH" have "dec_val 0 (itoa (n div 10)) = n div 10" by simp
    with False show ?thesis
      by (subst itoa.simps) (simp add: dec_val_append, simp add: dec_val_def)
  qed
qed

lemma dec_val_zeros [simp]: "dec_val 0 (replicate k (CHR ''0'') @ s) = dec_val 0 s"
  by (induction k) (simp_all add: dec_val_def)

lemma dec_val_mono: "n \<le> dec_val n ds"
proof (induction ds arbitrary: n)
  case (Cons c ds)
  have "n \<le> n * 10 + digit_val c" by simp
  also have "\<dots> \<le> dec_val (n * 10 + digit_val c) ds" by (rule Cons.IH)
  finally show ?case by (simp add: dec_val_def)
qed (simp add: dec_val_def)

lemma parse_uint_dec_val:
  assumes "\<forall>c \<in> set ds. is_digit c" and "int (dec_val n ds) < 18446744073709551616"
  shows "parse_uint (int n) ds = Some (int (dec_val n ds))"
  using assms
proof (induction ds arbitrary: n)
  case (Cons c ds)
  have "int (n * 10 + digit_val c) \<le> int (dec_val (n * 10 + digit_val c) ds)"
    by (rule zle_int [THEN iffD2]) (rule dec_val_mono)
  with Cons.prems(2) have "int (n * 10 + digit_val c) < 18446744073709551616"
    by (simp add: dec_val_def)
  with Cons.prems Cons.IH [of "n * 10 + digit_val c"] show ?case
    by (simp add: dec_val_def ac_simps)
qed (simp add: dec_val_def)

lemma parse_uint_nonneg: "0 \<le> n \<Longrightarrow> parse_uint n ds = Some m \<Longrightarrow> 0 \<le> m"
  by (induction n ds rule: parse_uint.induct) (auto simp: Let_def split: if_splits)

lemma not_digit_sign [simp]: "\<not> is_digit (CHR ''-'')" "\<not> is_digit (CHR ''+'')"
  by (simp_all add: is_digit_def)

lemma atoi_dec_val:
  assumes "\<forall>c \<in> set ds. is_digit c" and "ds \<noteq> []" and "int (dec_val 0 ds) \<le> maxInt"
  shows "atoi ds = int (dec_val 0 ds)"
proof -
  have "hd ds \<noteq> CHR ''-''" "hd ds \<noteq> CHR ''+''"
    using assms(1,2) not_digit_sign by (metis hd_in_set)+
  moreover have "parse_uint 0 ds = Some (int (dec_val 0 ds))"
    using assms parse_uint_dec_val [of ds 0] by (simp add: maxInt_def)
  ultimately show ?thesis
    using assms(2,3) by (auto simp: atoi_def split: list.splits)
qed

lemma pad0_digits: "int w \<le> 1000000 \<Longrightarrow> \<forall>c \<in> set (pad0 w n). is_digit c"
  using itoa_digits [of n] by (auto simp: pad0_def)

lemma pad0_nonempty [simp]: "pad0 w n \<noteq> []"
  by (simp add: pad0_def)

lemma dec_val_pad0: "int w \<le> 1000000 \<Longrightarrow> dec_val 0 (pad0 w n) = n"
  by (simp add: pad0_def)

lemma atoi_pad0: "int w \<le> 1000000 \<Longrightarrow> int n \<le> maxInt \<Longrightarrow> atoi (pad0 w n) = int n"
  by (simp add: atoi_dec_val pad0_digits dec_val_pad0)

lemma itoa_inj: "itoa a = itoa b \<Longrightarrow> a = b"
  by (metis dec_val_itoa)

lemma parse_uint_nonneg0: "parse_uint 0 ds = Some m \<Longrightarrow> 0 \<le> m"
  by (rule parse_uint_nonneg [of 0]) simp

lemma atoi_nonneg: "CHR ''-'' \<notin> set s \<Longrightarrow> 0 \<le> atoi s"
  by (cases s)
    (auto simp: atoi_def maxInt_def Let_def simp del: parse_uint.simps
      split: option.splits dest: parse_uint_nonneg0)

lemma atoi_le_maxInt: "atoi s \<le> maxInt"
  by (cases s)
    (auto simp: atoi_def maxInt_def Let_def min_def simp del: parse_uint.simps
      split: option.splits dest!: parse_uint_nonneg0)

section \<open>Go strings\<close>

abbreviation newline :: char where
  "newline \<equiv> CHR 0x0A"

abbreviation carriage :: char where
  "carriage \<equiv> CHR 0x0D"

abbreviation backslash :: char where
  "backslash \<equiv> CHR 0x5C"

text \<open>\<open>strings.ReplaceAll\<close> with a one-byte pattern.\<close>

definition replace_char :: "char \<Rightarrow> string \<Rightarrow> string \<Rightarrow> string" where
  "replace_char c by s = concat (map (\<lambda>x. if x = c then by else [x]) s)"

lemma replace_char_removes: "c \<notin> set by \<Longrightarrow> c \<notin> set (replace_char c by s)"
  by (auto simp: replace_char_def)

lemma replace_char_avoids: "d \<notin> set s \<Longrightarrow> d \<notin> set by \<Longrightarrow> d \<notin> set (replace_char c by s)"
  by (auto simp: replace_char_def split: if_splits)

lemma replace_char_absent: "c \<notin> set s \<Longrightarrow> replace_char c by s = s"
  by (induction s) (auto simp: replace_char_def)

text \<open>\<open>strings.Join\<close> and \<open>strings.Split\<close> with a one-byte separator.\<close>

fun join :: "string \<Rightarrow> string list \<Rightarrow> string" where
  "join sep [] = []"
| "join sep [x] = x"
| "join sep (x # xs) = x @ sep @ join sep xs"

fun split_on :: "char \<Rightarrow> string \<Rightarrow> string list" where
  "split_on c [] = [[]]"
| "split_on c (x # xs) =
     (if x = c then [] # split_on c xs
      else case split_on c xs of [] \<Rightarrow> [[x]] | y # ys \<Rightarrow> (x # y) # ys)"

lemma split_on_nonempty [simp]: "split_on c s \<noteq> []"
  by (induction s) (auto split: list.splits)

lemma split_on_absent: "c \<notin> set s \<Longrightarrow> split_on c s = [s]"
  by (induction s) auto

lemma split_on_append_sep: "c \<notin> set x \<Longrightarrow> split_on c (x @ c # s) = x # split_on c s"
  by (induction x) auto

lemma split_on_no_sep: "y \<in> set (split_on c s) \<Longrightarrow> c \<notin> set y"
  by (induction s arbitrary: y) (auto split: list.splits if_splits)

lemma join_Cons: "xs \<noteq> [] \<Longrightarrow> join sep (x # xs) = x @ sep @ join sep xs"
  by (cases xs) auto

lemma count_list_join:
  "c \<notin> set sep \<Longrightarrow> count_list (join sep xs) c = sum_list (map (\<lambda>x. count_list x c) xs)"
proof (induction xs)
  case (Cons x xs)
  then show ?case by (cases "xs = []") (auto simp: join_Cons)
qed simp

lemma split_join:
  assumes "xs \<noteq> []" and "\<forall>x \<in> set xs. c \<notin> set x"
  shows "split_on c (join [c] xs) = xs"
  using assms
proof (induction xs)
  case (Cons x xs)
  then show ?case
    by (cases "xs = []") (auto simp: split_on_absent join_Cons split_on_append_sep)
qed simp

text \<open>
  \<open>strings.TrimSpace\<close>: white space in the sense of Unicode is dropped at both ends. The string is a
  list of bytes, so the white space characters are given by their UTF-8 encodings; no encoding is a
  proper prefix or suffix of another one, so the order of the list does not matter.
\<close>

definition spaceRunes :: "string list" where
  "spaceRunes =
     [[CHR 0x09], [CHR 0x0A], [CHR 0x0B], [CHR 0x0C], [CHR 0x0D], [CHR 0x20], [CHR 0xC2, CHR 0x85],
      [CHR 0xC2, CHR 0xA0], [CHR 0xE1, CHR 0x9A, CHR 0x80], [CHR 0xE2, CHR 0x80, CHR 0x80],
      [CHR 0xE2, CHR 0x80, CHR 0x81], [CHR 0xE2, CHR 0x80, CHR 0x82],
      [CHR 0xE2, CHR 0x80, CHR 0x83], [CHR 0xE2, CHR 0x80, CHR 0x84],
      [CHR 0xE2, CHR 0x80, CHR 0x85], [CHR 0xE2, CHR 0x80, CHR 0x86],
      [CHR 0xE2, CHR 0x80, CHR 0x87], [CHR 0xE2, CHR 0x80, CHR 0x88],
      [CHR 0xE2, CHR 0x80, CHR 0x89], [CHR 0xE2, CHR 0x80, CHR 0x8A],
      [CHR 0xE2, CHR 0x80, CHR 0xA8], [CHR 0xE2, CHR 0x80, CHR 0xA9],
      [CHR 0xE2, CHR 0x80, CHR 0xAF], [CHR 0xE2, CHR 0x81, CHR 0x9F],
      [CHR 0xE3, CHR 0x80, CHR 0x80]]"

function trimLeft :: "string list \<Rightarrow> string \<Rightarrow> string" where
  "trimLeft rs s =
     (case find (\<lambda>r. r \<noteq> [] \<and> take (length r) s = r) rs of
        None \<Rightarrow> s
      | Some r \<Rightarrow> trimLeft rs (drop (length r) s))"
  by pat_completeness auto
termination
proof (relation "measure (\<lambda>(rs, s). length s)")
  show "((rs, drop (length r) s), (rs, s)) \<in> measure (\<lambda>(rs, s). length s)"
    if "find (\<lambda>r. r \<noteq> [] \<and> take (length r) s = r) rs = Some r" for rs s r
  proof -
    have "r \<noteq> []" "take (length r) s = r" using that by (auto simp: find_Some_iff)
    then show ?thesis by (cases s; cases r) auto
  qed
qed simp

declare trimLeft.simps [simp del]

definition TrimSpace :: "string \<Rightarrow> string" where
  "TrimSpace s = rev (trimLeft (map rev spaceRunes) (rev (trimLeft spaceRunes s)))"

lemma TrimSpace_Nil [simp]: "TrimSpace [] = []"
proof -
  have "find (\<lambda>r. r \<noteq> [] \<and> take (length r) [] = r) rs = None" for rs :: "string list"
    by (auto simp: find_None_iff)
  then show ?thesis by (simp add: TrimSpace_def trimLeft.simps)
qed

text \<open>A byte that white space can begin or end with; the space byte is one of them.\<close>

definition is_space :: "char \<Rightarrow> bool" where
  "is_space c \<longleftrightarrow> (\<exists>r \<in> set spaceRunes. c = hd r \<or> c = last r)"

lemma spaceRunes_nonempty: "r \<in> set spaceRunes \<Longrightarrow> r \<noteq> []"
  by (auto simp: spaceRunes_def)

lemma trimLeft_id:
  assumes "\<forall>r \<in> set rs. s = [] \<or> hd r \<noteq> hd s"
  shows "trimLeft rs s = s"
proof -
  have "take (length r) s \<noteq> r" if "r \<in> set rs" "r \<noteq> []" for r
    using assms that by (cases r; cases s) auto
  then have "find (\<lambda>r. r \<noteq> [] \<and> take (length r) s = r) rs = None" by (auto simp: find_None_iff)
  then show ?thesis by (simp add: trimLeft.simps)
qed

lemma TrimSpace_id:
  assumes "s \<noteq> []" and "\<not> is_space (hd s)" and "\<not> is_space (last s)"
  shows "TrimSpace s = s"
proof -
  have "trimLeft spaceRunes s = s"
    using assms by (intro trimLeft_id) (auto simp: is_space_def)
  moreover have "trimLeft (map rev spaceRunes) (rev s) = rev s"
    using assms by (intro trimLeft_id) (auto simp: is_space_def hd_rev)
  ultimately show ?thesis by (simp add: TrimSpace_def)
qed

section \<open>Results\<close>

lemma map_sum_eq_Inr: "map_sum f g x = Inr y \<longleftrightarrow> (\<exists>z. x = Inr z \<and> y = g z)"
  by (cases x) auto

lemma map_sum_eq_Inl: "map_sum f g x = Inl y \<longleftrightarrow> (\<exists>z. x = Inl z \<and> y = f z)"
  by (cases x) auto

lemma Inr_eq_map_sum: "Inr y = map_sum f g x \<longleftrightarrow> (\<exists>z. x = Inr z \<and> y = g z)"
  by (cases x) auto

lemma Inl_eq_map_sum: "Inl y = map_sum f g x \<longleftrightarrow> (\<exists>z. x = Inl z \<and> y = f z)"
  by (cases x) auto

lemmas map_sum_eqs = map_sum_eq_Inr map_sum_eq_Inl Inr_eq_map_sum Inl_eq_map_sum

text \<open>
  A loop whose body may return an error: the rest of the loop is skipped then. A map is visited in
  the order of its list.
\<close>

fun foldE :: "('a \<Rightarrow> 's \<Rightarrow> 'e + 's) \<Rightarrow> 'a list \<Rightarrow> 's \<Rightarrow> 'e + 's" where
  "foldE f [] s = Inr s"
| "foldE f (x # xs) s = (case f x s of Inl err \<Rightarrow> Inl err | Inr s' \<Rightarrow> foldE f xs s')"

lemma foldE_append:
  "foldE f (xs @ ys) s = (case foldE f xs s of Inl err \<Rightarrow> Inl err | Inr s' \<Rightarrow> foldE f ys s')"
  by (induction xs arbitrary: s) (auto split: sum.splits)

lemma foldE_concat: "foldE (\<lambda>x. foldE f (g x)) xs s = foldE f (concat (map g xs)) s"
  by (induction xs arbitrary: s) (auto simp: foldE_append split: sum.splits)

lemma foldE_map: "foldE f (map g xs) s = foldE (f \<circ> g) xs s"
  by (induction xs arbitrary: s) (auto split: sum.splits)

lemma foldE_inv:
  assumes "foldE f xs s = Inr s'" and "I s"
    and step: "\<And>x t t'. x \<in> set xs \<Longrightarrow> I t \<Longrightarrow> f x t = Inr t' \<Longrightarrow> I t'"
  shows "I s'"
  using assms
proof (induction xs arbitrary: s)
  case (Cons x xs)
  from Cons.prems(1) obtain t where t: "f x s = Inr t" "foldE f xs t = Inr s'" by (auto split: sum.splits)
  have "I t" using Cons.prems(2,3) t(1) by (metis list.set_intros(1))
  then show ?case using Cons.IH [OF t(2)] Cons.prems(3) by (metis list.set_intros(2))
qed simp

lemma foldE_error:
  assumes "foldE f xs s = Inl err" and "I s"
    and "\<And>x t t'. x \<in> set xs \<Longrightarrow> I t \<Longrightarrow> f x t = Inr t' \<Longrightarrow> I t'"
  shows "\<exists>x t. x \<in> set xs \<and> I t \<and> f x t = Inl err"
  using assms
proof (induction xs arbitrary: s)
  case (Cons x xs)
  show ?case
  proof (cases "f x s")
    case (Inl e)
    then show ?thesis using Cons.prems(1,2) by auto
  next
    case (Inr t)
    then have "foldE f xs t = Inl err" using Cons.prems(1) by simp
    moreover have "I t" by (rule Cons.prems(3) [OF _ Cons.prems(2) Inr]) simp
    ultimately have "\<exists>x t. x \<in> set xs \<and> I t \<and> f x t = Inl err"
      using Cons.IH Cons.prems(3) by (metis list.set_intros(2))
    then show ?thesis by auto
  qed
qed simp

lemma foldE_total:
  assumes "\<And>x t. x \<in> set xs \<Longrightarrow> f x t = Inr (g x t)"
  shows "foldE f xs s = Inr (fold g xs s)"
  using assms by (induction xs arbitrary: s) auto

section \<open>Integer division\<close>

text \<open>Go's \<open>/\<close> and \<open>%\<close> truncate towards zero; division by zero panics, so callers test for it.\<close>

datatype go_panic = DivideByZero | NilDereference | IndexOutOfRange | ExplicitPanic string

definition goDiv :: "int \<Rightarrow> int \<Rightarrow> int" where
  "goDiv a b = sgn a * sgn b * (\<bar>a\<bar> div \<bar>b\<bar>)"

definition goMod :: "int \<Rightarrow> int \<Rightarrow> int" where
  "goMod a b = sgn a * (\<bar>a\<bar> mod \<bar>b\<bar>)"

lemma goDiv_nonneg [simp]: "0 \<le> a \<Longrightarrow> 0 \<le> b \<Longrightarrow> goDiv a b = a div b"
  by (cases "a = 0"; cases "b = 0") (simp_all add: goDiv_def)

lemma goMod_nonneg [simp]: "0 \<le> a \<Longrightarrow> 0 \<le> b \<Longrightarrow> goMod a b = a mod b"
  by (cases "a = 0") (simp_all add: goMod_def)

section \<open>HTTP errors\<close>

text \<open>\<open>httperr.Error\<close>: a status code and a message. A successful call returns \<open>nil\<close>.\<close>

record httperr =
  code :: int
  msg :: string

definition NewError :: "int \<Rightarrow> string \<Rightarrow> httperr" where
  "NewError c m = \<lparr>code = c, msg = m\<rparr>"

abbreviation StatusOK :: int where "StatusOK \<equiv> 200"
abbreviation StatusAccepted :: int where "StatusAccepted \<equiv> 202"
abbreviation StatusBadRequest :: int where "StatusBadRequest \<equiv> 400"
abbreviation StatusNotFound :: int where "StatusNotFound \<equiv> 404"
abbreviation StatusMethodNotAllowed :: int where "StatusMethodNotAllowed \<equiv> 405"
abbreviation StatusInternalServerError :: int where "StatusInternalServerError \<equiv> 500"
abbreviation StatusBadGateway :: int where "StatusBadGateway \<equiv> 502"

end
