(* ===== verification/Domains.thy ===== *)
theory Domains
  imports Prelude
begin

text \<open>
  Component \<open>pkg/topology/domain.go\<close>: accelerator domains. A \<open>DomainMap\<close> maps a domain name to
  its hosts; \<open>AddHostInfo\<close> fills it, \<open>InferTwoLevelBlockSizes\<close> derives block sizes from it and
  \<open>GetDomainTree\<close> turns it into a one- or two-level tree of \<open>BlockVertex\<close> values.

  Pointers to \<open>HostInfo\<close> inside a map are never nil in this package (\<open>AddHostInfo\<close> rejects nil), so
  a map holds the records themselves. Counts are lengths of Go maps and fit an \<open>int\<close>.
\<close>

section \<open>Model\<close>

record HostInfo =
  Domain :: string
  hostInstanceID :: string
  HostName :: string
  SubDomain :: string

type_synonym HostMap = "(string, HostInfo) gomap"
type_synonym DomainMap = "(string, HostMap) gomap"

datatype BlockVertex =
  BlockVertex (bvID: string) (ActualNodeCount: int) (MaxChildNodeCount: int)
    (Hosts: "HostMap option") (Children: "(string \<times> BlockVertex) list")

definition ChildAt :: "BlockVertex option \<Rightarrow> string \<Rightarrow> BlockVertex option" where
  "ChildAt bv name = (case bv of None \<Rightarrow> None | Some v \<Rightarrow> gm_get (Children v) name)"

definition NewDomainMap :: DomainMap where
  "NewDomainMap = []"

definition AddHostInfo :: "HostInfo option \<Rightarrow> DomainMap \<Rightarrow> DomainMap" where
  "AddHostInfo hostInfo m =
     (case hostInfo of
        None \<Rightarrow> m
      | Some h \<Rightarrow>
          if Domain h = [] then m
          else case gm_get m (Domain h) of
            Some hosts \<Rightarrow> gm_put (Domain h) (gm_put (HostName h) h hosts) m
          | None \<Rightarrow> gm_put (Domain h) [(HostName h, h)] m)"

definition AddHost :: "string \<Rightarrow> string \<Rightarrow> string \<Rightarrow> DomainMap \<Rightarrow> DomainMap" where
  "AddHost domain instance' host m =
     AddHostInfo
       (Some \<lparr>Domain = domain, hostInstanceID = instance', HostName = host, SubDomain = []\<rparr>) m"

subsection \<open>Block sizes of two-level maps\<close>

text \<open>
  The loop \<open>for size < target { size *= 2 }\<close>. It is entered with a positive size only; the model
  stops at once otherwise, where the Go loop would not end.
\<close>

function doubleUntil :: "int \<Rightarrow> int \<Rightarrow> int" where
  "doubleUntil sz target = (if 0 < sz \<and> sz < target then doubleUntil (sz * 2) target else sz)"
  by pat_completeness auto
termination
  by (relation "measure (\<lambda>(sz, target). nat (target - sz))") auto

declare doubleUntil.simps [simp del]

definition countSub :: "(string, int) gomap \<Rightarrow> HostInfo \<Rightarrow> (string, int) gomap" where
  "countSub sizes hi =
     (if SubDomain hi \<noteq> []
      then gm_put (SubDomain hi) ((case gm_get sizes (SubDomain hi) of Some n \<Rightarrow> n | None \<Rightarrow> 0) + 1) sizes
      else sizes)"

definition subSizes :: "HostMap \<Rightarrow> (string, int) gomap" where
  "subSizes hosts = foldl countSub [] (gm_vals hosts)"

definition InferTwoLevelBlockSizes :: "DomainMap \<Rightarrow> int list" where
  "InferTwoLevelBlockSizes m =
     (let maxDomainSize = foldl (\<lambda>acc hosts. max acc (int (length hosts))) 0 (gm_vals m);
          maxSubDomainSize =
            foldl (\<lambda>acc hosts. foldl max acc (gm_vals (subSizes hosts))) 0 (gm_vals m);
          hasSubDomains = list_ex (\<lambda>hosts. list_ex (\<lambda>hi. SubDomain hi \<noteq> []) (gm_vals hosts)) (gm_vals m)
      in if \<not> hasSubDomains then []
         else let aggregateSize = doubleUntil maxSubDomainSize maxDomainSize
              in if aggregateSize = maxSubDomainSize then [maxSubDomainSize]
                 else [maxSubDomainSize, aggregateSize])"

subsection \<open>The domain tree\<close>

definition subName :: "string \<Rightarrow> HostInfo \<Rightarrow> string" where
  "subName domain host = (if SubDomain host = [] then domain else SubDomain host)"

text \<open>One iteration of the placement loop of \<open>GetDomainTree\<close>.\<close>

definition placeHost ::
  "string \<Rightarrow> (string \<times> BlockVertex) list \<Rightarrow> HostInfo \<Rightarrow> (string \<times> BlockVertex) list" where
  "placeHost domain children host =
     (let gn = subName domain host;
          sub = (case gm_get children gn of Some v \<Rightarrow> v | None \<Rightarrow> BlockVertex gn 0 0 (Some []) []);
          hosts = (case Hosts sub of Some hs \<Rightarrow> hs | None \<Rightarrow> [])
      in gm_put gn
           (BlockVertex (bvID sub) (ActualNodeCount sub + 1) (MaxChildNodeCount sub)
              (Some (gm_put (HostName host) host hosts)) (Children sub))
           children)"

definition domainVertex :: "string \<Rightarrow> HostMap \<Rightarrow> BlockVertex" where
  "domainVertex domain hosts =
     (if \<not> list_ex (\<lambda>host. SubDomain host \<noteq> []) (gm_vals hosts)
      then BlockVertex domain (int (length hosts)) 0 (Some (gm_copy [] hosts)) []
      else
        (let children = foldl (placeHost domain) [] (gm_vals hosts)
         in BlockVertex domain (int (length hosts))
              (foldl (\<lambda>acc sub. max acc (ActualNodeCount sub)) 0 (gm_vals children)) None children))"

definition GetDomainTree :: "DomainMap \<Rightarrow> BlockVertex" where
  "GetDomainTree m =
     (let children = gm_copy [] (map (\<lambda>(domain, hosts). (domain, domainVertex domain hosts)) m)
      in BlockVertex [] 0 (foldl (\<lambda>acc v. max acc (ActualNodeCount v)) 0 (gm_vals children)) None
           children)"

section \<open>Well-formed domain maps\<close>

text \<open>
  What \<open>AddHostInfo\<close> maintains: domain names are distinct and not empty, no domain is empty, a host
  is stored under its own name in its own domain.
\<close>

definition hostsOk :: "string \<Rightarrow> HostMap \<Rightarrow> bool" where
  "hostsOk domain hosts \<longleftrightarrow>
     gm_wf hosts \<and> hosts \<noteq> [] \<and> (\<forall>(k, h) \<in> set hosts. HostName h = k \<and> Domain h = domain)"

definition domainsOk :: "DomainMap \<Rightarrow> bool" where
  "domainsOk m \<longleftrightarrow> gm_wf m \<and> (\<forall>(d, hosts) \<in> set m. d \<noteq> [] \<and> hostsOk d hosts)"

lemma set_gm_put_subset: "set (gm_put k v m) \<subseteq> insert (k, v) (set m)"
  by (induction m) auto

lemma hostsOk_put:
  assumes "hostsOk d hosts" and "Domain h = d"
  shows "hostsOk d (gm_put (HostName h) h hosts)"
proof -
  have "gm_put (HostName h) h hosts \<noteq> []" by (cases hosts) auto
  then show ?thesis
    using assms set_gm_put_subset [of "HostName h" h hosts] by (auto simp: hostsOk_def)
qed

lemma domainsOk_put:
  assumes "domainsOk m" and "d \<noteq> []" and "hostsOk d hosts"
  shows "domainsOk (gm_put d hosts m)"
  using assms set_gm_put_subset [of d hosts m] by (auto simp: domainsOk_def)

lemma domainsOk_get: "domainsOk m \<Longrightarrow> gm_get m d = Some hosts \<Longrightarrow> d \<noteq> [] \<and> hostsOk d hosts"
  by (auto simp: domainsOk_def dest: map_of_SomeD)

lemma domainsOk_empty: "domainsOk NewDomainMap"
  by (simp add: domainsOk_def NewDomainMap_def)

lemma domainsOk_AddHostInfo: "domainsOk m \<Longrightarrow> domainsOk (AddHostInfo h m)"
  by (auto simp: AddHostInfo_def hostsOk_def [of _ "[(_, _)]"]
      split: option.splits intro!: domainsOk_put hostsOk_put dest: domainsOk_get)

text \<open>The host records of a map, in the order of iteration.\<close>

definition allHosts :: "DomainMap \<Rightarrow> HostInfo list" where
  "allHosts m = concat (map gm_vals (gm_vals m))"

definition lookupHost :: "DomainMap \<Rightarrow> string \<Rightarrow> string \<Rightarrow> HostInfo option" where
  "lookupHost m d n = (case gm_get m d of None \<Rightarrow> None | Some hosts \<Rightarrow> gm_get hosts n)"

lemma lookupHost_AddHostInfo:
  "lookupHost (AddHostInfo (Some h) m) d n =
     (if Domain h \<noteq> [] \<and> d = Domain h \<and> n = HostName h then Some h else lookupHost m d n)"
  by (auto simp: AddHostInfo_def lookupHost_def split: option.splits)

text \<open>Hosts with different names that are added one after the other are all found, and no others.\<close>

lemma find_HostName:
  assumes "distinct (map HostName hs)"
  shows "find (\<lambda>h. Domain h = d \<and> HostName h = n) hs = Some h \<longleftrightarrow> h \<in> set hs \<and> Domain h = d \<and> HostName h = n"
proof
  assume h: "h \<in> set hs \<and> Domain h = d \<and> HostName h = n"
  then obtain k where k: "find (\<lambda>h. Domain h = d \<and> HostName h = n) hs = Some k"
    by (cases "find (\<lambda>h. Domain h = d \<and> HostName h = n) hs") (auto simp: find_None_iff)
  then have "k \<in> set hs" "HostName k = n" by (auto simp: find_Some_iff)
  moreover have "inj_on HostName (set hs)" using assms by (simp add: distinct_map)
  ultimately have "k = h" using h by (auto dest: inj_onD)
  then show "find (\<lambda>h. Domain h = d \<and> HostName h = n) hs = Some h" using k by simp
qed (auto simp: find_Some_iff)

lemma fold_AddHostInfo_find:
  assumes "distinct (map HostName hs)" and "\<forall>h \<in> set hs. Domain h \<noteq> []"
  shows "lookupHost (fold (AddHostInfo \<circ> Some) hs m) d n =
    (case find (\<lambda>h. Domain h = d \<and> HostName h = n) hs of Some h \<Rightarrow> Some h | None \<Rightarrow> lookupHost m d n)"
  using assms
proof (induction hs arbitrary: m)
  case (Cons h hs)
  have "find (\<lambda>k. Domain k = d \<and> HostName k = n) hs = None" if "Domain h = d" "HostName h = n"
    using Cons.prems(1) that by (auto simp: find_None_iff image_iff)
  then show ?case using Cons by (auto simp: lookupHost_AddHostInfo split: option.splits)
qed simp

lemma fold_AddHostInfo_exact:
  assumes "distinct (map HostName hs)" and "\<forall>h \<in> set hs. Domain h \<noteq> []"
  shows "lookupHost (fold (AddHostInfo \<circ> Some) hs []) d n = Some h \<longleftrightarrow> h \<in> set hs \<and> Domain h = d \<and> HostName h = n"
  unfolding fold_AddHostInfo_find [OF assms] find_HostName [OF assms(1), symmetric]
  by (simp add: lookupHost_def [of "[]"] split: option.splits)

lemma fold_AddHostInfo_filter:
  "fold (AddHostInfo \<circ> f) xs m = fold (AddHostInfo \<circ> Some) (List.map_filter f xs) m"
  by (induction xs arbitrary: m) (auto simp: List.map_filter_simps AddHostInfo_def [of None] split: option.splits)

lemma AddHostInfo_nonempty: "Domain h \<noteq> [] \<Longrightarrow> AddHostInfo (Some h) m \<noteq> []"
  by (auto simp: AddHostInfo_def split: option.splits dest: arg_cong [of _ "[]" "\<lambda>m. gm_get m (Domain h)"])

lemma fold_AddHostInfo_Nil:
  "\<forall>h \<in> set hs. Domain h \<noteq> [] \<Longrightarrow> fold (AddHostInfo \<circ> Some) hs m = [] \<longleftrightarrow> m = [] \<and> hs = []"
  by (induction hs arbitrary: m) (simp_all add: AddHostInfo_nonempty)

section \<open>Facts about doubling and maxima\<close>

lemma doubleUntil_ge: "0 < sz \<Longrightarrow> target \<le> doubleUntil sz target"
proof (induction sz target rule: doubleUntil.induct)
  case (1 sz target)
  then show ?case by (subst doubleUntil.simps) auto
qed

lemma doubleUntil_power:
  "0 < sz \<Longrightarrow> \<exists>k. doubleUntil sz target = sz * 2 ^ k \<and> (k = 0 \<or> sz * 2 ^ (k - 1) < target)"
proof (induction sz target rule: doubleUntil.induct)
  case (1 sz target)
  show ?case
  proof (cases "sz < target")
    case True
    with "1.IH" "1.prems" obtain k where
      k: "doubleUntil (sz * 2) target = sz * 2 * 2 ^ k" "k = 0 \<or> sz * 2 * 2 ^ (k - 1) < target"
      by auto
    have "doubleUntil sz target = sz * 2 ^ Suc k"
      using k(1) True "1.prems" by (simp add: doubleUntil.simps [of sz target])
    moreover have "sz * 2 ^ (Suc k - 1) < target"
      using k(2) True by (cases k) (auto simp: mult.assoc)
    ultimately show ?thesis by blast
  next
    case False
    then have "doubleUntil sz target = sz * 2 ^ 0" by (subst doubleUntil.simps) simp
    then show ?thesis by blast
  qed
qed

lemma doubleUntil_pos: "0 < sz \<Longrightarrow> 0 < doubleUntil sz target"
  using doubleUntil_power [of sz target] by auto

lemma doubleUntil_dvd: "0 < sz \<Longrightarrow> sz dvd doubleUntil sz target"
  using doubleUntil_power [of sz target] by auto

lemma foldl_max_ge: "(a::int) \<le> foldl (\<lambda>acc x. max acc (f x)) a xs"
  by (induction xs arbitrary: a) (auto intro: order_trans [OF max.cobounded1])

lemma foldl_max_mem: "x \<in> set xs \<Longrightarrow> (f x::int) \<le> foldl (\<lambda>acc x. max acc (f x)) a xs"
proof (induction xs arbitrary: a)
  case (Cons y ys)
  then show ?case
    using foldl_max_ge [of "max a (f y)" f ys] by auto
qed simp

lemma foldl_max_cases: "foldl (\<lambda>acc x. max acc (f x)) (a::int) xs \<in> insert a (f ` set xs)"
  by (induction xs arbitrary: a) (force simp: max_def)+

lemma foldl_max_Max:
  "foldl (\<lambda>acc x. max acc (f x)) (a::int) xs = Max (insert a (f ` set xs))"
  by (rule Max_eqI [symmetric]) (use foldl_max_cases in \<open>auto simp: foldl_max_ge foldl_max_mem\<close>)

lemma foldl_max_perm:
  "set xs = set ys \<Longrightarrow> foldl (\<lambda>acc x. max acc (f x)) (a::int) xs = foldl (\<lambda>acc x. max acc (f x)) a ys"
  by (simp add: foldl_max_Max)

section \<open>Structure of the domain tree\<close>

definition keyed :: "HostInfo list \<Rightarrow> HostMap" where
  "keyed hs = map (\<lambda>h. (HostName h, h)) hs"

lemma hostsOk_keyed: "hostsOk d hosts \<Longrightarrow> hosts = keyed (gm_vals hosts)"
  unfolding hostsOk_def keyed_def by (auto simp: comp_def intro!: map_idI [symmetric])

lemma hostsOk_distinct:
  assumes "hostsOk d hosts"
  shows "distinct (map HostName (gm_vals hosts))"
proof -
  have "map HostName (gm_vals hosts) = gm_keys hosts"
    using assms by (auto simp: hostsOk_def)
  moreover have "distinct (gm_keys hosts)" using assms by (simp add: hostsOk_def gm_wf_def)
  ultimately show ?thesis by metis
qed

lemma keyed_snoc_put:
  "HostName h \<notin> HostName ` set hs \<Longrightarrow> gm_put (HostName h) h (keyed hs) = keyed (hs @ [h])"
  by (subst gm_put_fresh) (auto simp: keyed_def)

definition subHosts :: "string \<Rightarrow> HostInfo list \<Rightarrow> string \<Rightarrow> HostInfo list" where
  "subHosts domain hs gn = filter (\<lambda>h. subName domain h = gn) hs"

definition subVertex :: "string \<Rightarrow> HostInfo list \<Rightarrow> string \<Rightarrow> BlockVertex" where
  "subVertex domain hs gn =
     BlockVertex gn (int (length (subHosts domain hs gn))) 0 (Some (keyed (subHosts domain hs gn))) []"

lemma placeHosts_get:
  "distinct (map HostName hs) \<Longrightarrow>
     gm_get (foldl (placeHost d) [] hs) gn =
       (if subHosts d hs gn = [] then None else Some (subVertex d hs gn))"
proof (induction hs arbitrary: gn rule: rev_induct)
  case Nil
  then show ?case by (simp add: subHosts_def)
next
  case (snoc h hs)
  let ?gn = "subName d h"
  have fresh: "HostName h \<notin> HostName ` set (subHosts d hs ?gn)"
    using snoc.prems by (auto simp: subHosts_def)
  have IH: "gm_get (foldl (placeHost d) [] hs) ?gn =
      (if subHosts d hs ?gn = [] then None else Some (subVertex d hs ?gn))"
    using snoc by simp
  have "subHosts d (hs @ [h]) ?gn = subHosts d hs ?gn @ [h]" by (simp add: subHosts_def)
  then have "gm_get (foldl (placeHost d) [] (hs @ [h])) ?gn = Some (subVertex d (hs @ [h]) ?gn)"
    using IH keyed_snoc_put [OF fresh]
    by (auto simp: placeHost_def Let_def subVertex_def keyed_def)
  moreover have "gm_get (foldl (placeHost d) [] (hs @ [h])) gn =
      gm_get (foldl (placeHost d) [] hs) gn" if "gn \<noteq> ?gn"
    using that by (simp add: placeHost_def Let_def)
  ultimately show ?case
    using snoc by (cases "gn = ?gn") (auto simp: subHosts_def subVertex_def)
qed

lemma placeHosts_wf: "gm_wf (foldl (placeHost d) [] hs)"
  by (induction hs rule: rev_induct) (auto simp: placeHost_def Let_def)

lemma placeHosts_keys:
  "distinct (map HostName hs) \<Longrightarrow> set (gm_keys (foldl (placeHost d) [] hs)) = subName d ` set hs"
proof -
  assume "distinct (map HostName hs)"
  then have "gn \<in> set (gm_keys (foldl (placeHost d) [] hs)) \<longleftrightarrow> gn \<in> subName d ` set hs" for gn
    by (auto simp: gm_key_get placeHosts_get subHosts_def filter_empty_conv simp del: set_map)
  then show ?thesis by blast
qed

lemma gm_copy_fresh: "gm_wf m \<Longrightarrow> gm_copy [] m = m"
proof (induction m rule: rev_induct)
  case (snoc kv m)
  then show ?case
    by (cases kv) (auto simp: gm_copy_def gm_wf_def gm_put_fresh)
qed (simp add: gm_copy_def)

lemma GetDomainTree_children:
  assumes "gm_wf m"
  shows "Children (GetDomainTree m) = map (\<lambda>(d, hosts). (d, domainVertex d hosts)) m"
proof -
  have "gm_wf (map (\<lambda>(d, hosts). (d, domainVertex d hosts)) m)"
    using assms by (simp add: gm_wf_def case_prod_unfold comp_def)
  then show ?thesis by (simp add: GetDomainTree_def Let_def gm_copy_fresh)
qed

lemma GetDomainTree_get:
  "gm_wf m \<Longrightarrow> gm_get (Children (GetDomainTree m)) d = map_option (domainVertex d) (gm_get m d)"
  by (simp add: GetDomainTree_children gm_get_map)

lemma domainVertex_count [simp]: "ActualNodeCount (domainVertex d hosts) = int (length hosts)"
  by (simp add: domainVertex_def Let_def)

lemma GetDomainTree_maxChild:
  "gm_wf m \<Longrightarrow> MaxChildNodeCount (GetDomainTree m) =
     foldl (\<lambda>acc hosts. max acc (int (length hosts))) 0 (gm_vals m)"
proof -
  assume wf: "gm_wf m"
  have "foldl (\<lambda>acc v. max acc (ActualNodeCount v)) 0
      (map snd (map (\<lambda>(d, hosts). (d, domainVertex d hosts)) m)) =
    foldl (\<lambda>acc hosts. max acc (int (length hosts))) 0 (map snd m)"
    by (induction m rule: rev_induct) auto
  then show ?thesis
    using GetDomainTree_children [OF wf] by (simp add: GetDomainTree_def Let_def)
qed

end
