(* ===== verification/Request.thy ===== *)
theory Request
  imports Prelude "HOL-Library.Word"
begin

text \<open>
  Component \<open>pkg/topology/request.go\<close> and \<open>instances.go\<close>: the topology request of a client, its
  printed form for the log, its hash, and the instance records of the instance-oriented output.

  A JSON value (\<open>any\<close>) is a value of a type parameter; how \<open>fmt\<close> prints it with \<open>%v\<close>
  (\<open>showv\<close>) and how \<open>encoding/json\<close> encodes a request (\<open>marshal\<close>) are arguments, so a theorem
  holds for every rendering.
\<close>

unbundle bit_operations_syntax

section \<open>Model\<close>

record 'a Provider =
  pName :: string
  Creds :: "(string, 'a) gomap"
  pParams :: "(string, 'a) gomap"

record 'a Engine =
  eName :: string
  eParams :: "(string, 'a) gomap"

record ComputeInstances =
  Region :: string
  Instances :: "(string, string) gomap"

record 'a Request =
  rProvider :: "'a Provider"
  rEngine :: "'a Engine"
  Nodes :: "ComputeInstances list"

definition NewRequest :: "'a Provider \<Rightarrow> 'a Engine \<Rightarrow> 'a Request" where
  "NewRequest prv eng = \<lparr>rProvider = prv, rEngine = eng, Nodes = []\<rparr>"

definition spacer :: "string \<Rightarrow> string" where
  "spacer v = (if v \<noteq> [] then '' '' @ v else [])"

definition escapeLineBreaks :: "string \<Rightarrow> string" where
  "escapeLineBreaks s =
     replace_char carriage [backslash, CHR ''r''] (replace_char newline [backslash, CHR ''n''] s)"

definition mapTerm :: "('v \<Rightarrow> string) \<Rightarrow> (string, 'v) gomap \<Rightarrow> bool \<Rightarrow> string \<Rightarrow> string" where
  "mapTerm showv m hide key =
     (if hide then escapeLineBreaks key @ '':***''
      else escapeLineBreaks (key @ '':'' @ (case gm_get m key of Some v \<Rightarrow> showv v | None \<Rightarrow> [])))"

definition map2string :: "('v \<Rightarrow> string) \<Rightarrow> (string, 'v) gomap \<Rightarrow> string \<Rightarrow> bool \<Rightarrow> string \<Rightarrow> string" where
  "map2string showv m prefix hide suffix =
     escapeLineBreaks prefix @ '': ['' @
     (if m \<noteq> [] then join '' '' (map (mapTerm showv m hide) (sorted_keys m)) else []) @
     '']'' @ suffix"

definition requestString :: "('a \<Rightarrow> string) \<Rightarrow> 'a Request \<Rightarrow> string" where
  "requestString showv p =
     ''TopologyRequest:'' @ [newline] @
     ''  Provider:'' @ spacer (escapeLineBreaks (pName (rProvider p))) @ [newline] @
     map2string showv (Creds (rProvider p)) ''  Credentials'' True [newline] @
     map2string showv (pParams (rProvider p)) ''  Parameters'' False [newline] @
     ''  Engine:'' @ spacer (escapeLineBreaks (eName (rEngine p))) @ [newline] @
     map2string showv (eParams (rEngine p)) ''  Parameters'' False [newline] @
     ''  Nodes:'' @
     concat (map (\<lambda>n. '' '' @ map2string id (Instances n) (Region n) False []) (Nodes p)) @
     [newline]"

text \<open>\<open>GetTopologyRequest\<close>, given \<open>json.Unmarshal\<close>; an empty body is the zero request.\<close>

datatype request_error = ParsePayload string | MarshalRequest string

definition emptyRequest :: "'a Request" where
  "emptyRequest = NewRequest \<lparr>pName = [], Creds = [], pParams = []\<rparr> \<lparr>eName = [], eParams = []\<rparr>"

definition GetTopologyRequest ::
  "(string \<Rightarrow> string + 'a Request) \<Rightarrow> string \<Rightarrow> request_error + 'a Request" where
  "GetTopologyRequest unmarshal body =
     (if body = [] then Inr emptyRequest
      else case unmarshal body of
        Inl err \<Rightarrow> Inl (ParsePayload err)
      | Inr payload \<Rightarrow> Inr payload)"

definition GetNodeNameList :: "ComputeInstances list \<Rightarrow> string list" where
  "GetNodeNameList cis = concat (map (\<lambda>ci. gm_vals (Instances ci)) cis)"

definition GetNodeNameMap :: "ComputeInstances list \<Rightarrow> (string, bool) gomap" where
  "GetNodeNameMap cis =
     foldl (\<lambda>nodes ci. foldl (\<lambda>nodes node. gm_put node True nodes) nodes (gm_vals (Instances ci))) [] cis"

text \<open>The hash: 64-bit FNV-1a of the encoded request without credentials and nodes, in hex.\<close>

definition fnv64a :: "string \<Rightarrow> 64 word" where
  "fnv64a s = foldl (\<lambda>h c. (h XOR of_nat (of_char c)) * 1099511628211) 14695981039346656037 s"

fun hexn :: "nat \<Rightarrow> string" where
  "hexn n = (if n < 16 then [''0123456789abcdef'' ! n] else hexn (n div 16) @ [''0123456789abcdef'' ! (n mod 16)])"

declare hexn.simps [simp del]

definition GetHash :: "('r \<Rightarrow> string + string) \<Rightarrow> 'r \<Rightarrow> request_error + string" where
  "GetHash marshal obj =
     (case marshal obj of
        Inl err \<Rightarrow> Inl (MarshalRequest err)
      | Inr data \<Rightarrow> Inr (hexn (unat (fnv64a data))))"

definition requestHash :: "('a Request \<Rightarrow> string + string) \<Rightarrow> 'a Request \<Rightarrow> request_error + string" where
  "requestHash marshal p =
     GetHash marshal
       \<lparr>rProvider = \<lparr>pName = pName (rProvider p), Creds = [], pParams = pParams (rProvider p)\<rparr>,
        rEngine = \<lparr>eName = eName (rEngine p), eParams = eParams (rEngine p)\<rparr>, Nodes = []\<rparr>"

subsection \<open>Instances\<close>

text \<open>A nil label map is the empty map: reading, and the JSON output with \<open>omitempty\<close>, agree on both.\<close>

record Instance =
  instID :: string
  NetworkLayers :: "string list"
  Labels :: "(string, string) gomap"
  NetLayers :: "string list"

definition KeyFabricTierPrefix :: string where
  "KeyFabricTierPrefix = ''fabric.topograph.run/tier-''"

definition KeyTopologyXclrDomain :: string where
  "KeyTopologyXclrDomain = ''accelerator.topograph.run/domain''"

definition KeyTopologyXclrSubDomain :: string where
  "KeyTopologyXclrSubDomain = ''accelerator.topograph.run/sub-domain''"

definition FabricTierKey :: "nat \<Rightarrow> string" where
  "FabricTierKey tier = KeyFabricTierPrefix @ itoa tier"

definition cloneStringMap :: "(string, string) gomap \<Rightarrow> (string, string) gomap" where
  "cloneStringMap values = (if values = [] then [] else gm_copy [] values)"

definition CloneForTopology :: "Instance \<Rightarrow> Instance" where
  "CloneForTopology inst =
     \<lparr>instID = instID inst, NetworkLayers = NetLayers inst, Labels = cloneStringMap (Labels inst),
      NetLayers = []\<rparr>"

section \<open>The printed request\<close>

lemma escape_no_breaks: "newline \<notin> set (escapeLineBreaks s)" "carriage \<notin> set (escapeLineBreaks s)"
  unfolding escapeLineBreaks_def
  by (intro replace_char_avoids replace_char_removes; simp)+

lemma escape_count [simp]:
  "count_list (escapeLineBreaks s) newline = 0" "count_list (escapeLineBreaks s) carriage = 0"
  using escape_no_breaks by (simp_all add: count_list_0_iff)

lemma mapTerm_count:
  "c = newline \<or> c = carriage \<Longrightarrow> count_list (mapTerm showv m hide key) c = 0"
  by (auto simp: mapTerm_def)

lemma map2string_count:
  assumes "c = newline \<or> c = carriage"
  shows "count_list (map2string showv m prefix hide suffix) c = count_list suffix c"
proof -
  have "count_list (join '' '' (map (mapTerm showv m hide) (sorted_keys m))) c = 0"
    using assms mapTerm_count [OF assms] by (subst count_list_join) (auto simp: comp_def)
  then show ?thesis using assms by (auto simp: map2string_def)
qed

lemma spacer_count:
  "c = newline \<or> c = carriage \<Longrightarrow> count_list (spacer (escapeLineBreaks s)) c = 0"
  by (auto simp: spacer_def)

lemma nodes_count:
  "c = newline \<or> c = carriage \<Longrightarrow>
     count_list (concat (map (\<lambda>n. CHR '' '' # map2string id (Instances n) (Region n) False []) ns)) c = 0"
  by (induction ns) (auto simp: map2string_count)

text \<open>
  C27. The printed form of a request cannot forge log lines: whatever the client puts into names,
  keys, values, regions and node maps, the text has exactly the seven line breaks the format has,
  and no carriage return.
\<close>

theorem requestString_no_forged_lines:
  "count_list (requestString showv p) newline = 7 \<and> carriage \<notin> set (requestString showv p)"
proof -
  have "count_list (requestString showv p) newline = 7"
    by (simp add: requestString_def map2string_count spacer_count nodes_count)
  moreover have "count_list (requestString showv p) carriage = 0"
    by (simp add: requestString_def map2string_count spacer_count nodes_count)
  ultimately show ?thesis by (simp add: count_list_0_iff)
qed

definition setCreds :: "(string, 'a) gomap \<Rightarrow> 'a Request \<Rightarrow> 'a Request" where
  "setCreds c p = p\<lparr>rProvider := (rProvider p)\<lparr>Creds := c\<rparr>\<rparr>"

lemma mapTerm_hidden: "mapTerm showv m True = mapTerm showv' m' True"
  by (simp add: mapTerm_def fun_eq_iff)

lemma map2string_hidden:
  "mset (gm_keys m) = mset (gm_keys m') \<Longrightarrow>
     map2string showv m prefix True suffix = map2string showv m' prefix True suffix"
  using mapTerm_hidden [of showv m showv m'] sort_perm_eq [of "gm_keys m" "gm_keys m'"]
  by (cases m; cases m') (simp_all add: map2string_def sorted_keys_def)

text \<open>
  C28. Credentials do not leak into the log: two requests that differ only in the values of their
  credentials (the same keys, any values, any order) print the same text.
\<close>

theorem requestString_hides_credentials:
  assumes "mset (gm_keys c) = mset (gm_keys c')"
  shows "requestString showv (setCreds c p) = requestString showv (setCreds c' p)"
  using map2string_hidden [OF assms] by (simp add: requestString_def setCreds_def)

theorem requestString_hides_credentials_witness:
  "requestString id (setCreds [(''key'', ''secret''), (''id'', ''me'')] emptyRequest) =
   requestString id (setCreds [(''id'', ''x''), (''key'', ''other'')] emptyRequest)"
  by (rule requestString_hides_credentials) simp

text \<open>
  The hash that identifies a request depends on the names and parameters of provider and engine only:
  credentials and node lists do not take part.
\<close>

lemma requestHash_ignores_creds_nodes [simp]:
  "requestHash marshal (setCreds c (p\<lparr>Nodes := ns\<rparr>)) = requestHash marshal p"
  by (simp add: requestHash_def setCreds_def)

section \<open>Instances\<close>

lemma FabricTierKey_inj: "FabricTierKey a = FabricTierKey b \<longleftrightarrow> a = b"
  by (auto simp: FabricTierKey_def itoa_inj)

lemma CloneForTopology_lookup:
  "gm_wf (Labels inst) \<Longrightarrow> gm_get (Labels (CloneForTopology inst)) k = gm_get (Labels inst) k"
  by (auto simp: CloneForTopology_def cloneStringMap_def gm_get_copy split: option.splits)

lemma GetNodeNameMap_get:
  "gm_get (GetNodeNameMap cis) n = (if n \<in> set (GetNodeNameList cis) then Some True else None)"
proof -
  have inner: "gm_get (foldl (\<lambda>nodes node. gm_put node True nodes) m xs) n =
      (if n \<in> set xs then Some True else gm_get m n)" for m xs
    by (induction xs arbitrary: m) (auto simp: update_conv)
  have "gm_get (foldl (\<lambda>nodes ci. foldl (\<lambda>nodes node. gm_put node True nodes) nodes (gm_vals (Instances ci))) m cis) n =
      (if n \<in> set (GetNodeNameList cis) then Some True else gm_get m n)" for m
    by (induction cis arbitrary: m) (auto simp: GetNodeNameList_def inner)
  then show ?thesis by (simp add: GetNodeNameMap_def)
qed

end
