(* ===== verification/Topology.thy ===== *)
theory Topology
  imports Domains Request
begin

text \<open>
  Component \<open>pkg/topology/graph.go\<close> with the types of \<open>topology.go\<close>: the cluster topology a provider
  reports, its normalisation, and \<open>ToGraph\<close>, which builds the switch hierarchy.

  Go vertices are heap objects that several parents may share, and \<open>mergeVertices\<close> may even close a
  cycle, so the hierarchy is kept in an explicit heap: the address of a vertex is its position in a
  list, allocation appends, a child is an address or \<open>None\<close> for nil. A nil child map and an empty one
  behave alike in the code and are both \<open>[]\<close>.
\<close>

section \<open>Model\<close>

definition TopologyTree :: string where "TopologyTree = ''topology/tree''"
definition TopologyBlock :: string where "TopologyBlock = ''topology/block''"
definition TopologyFlat :: string where "TopologyFlat = ''topology/flat''"
definition NoTopology :: string where "NoTopology = ''no-topology''"

record Vertex =
  vName :: string
  vID :: string
  Vertices :: "(string, nat option) gomap"

type_synonym heap = "Vertex list"

record Graph =
  Tiers :: "nat option"
  gDomains :: "DomainMap option"
  gInstances :: "(string, Instance) gomap"

record FabricTier =
  tierID :: string
  tierName :: string

record InstanceTopology =
  InstanceID :: string
  FabricTiers :: "FabricTier list"
  XclrDomainID :: string
  XclrSubDomainID :: string
  itInstance :: "Instance option"

type_synonym ClusterTopology = "InstanceTopology list"

definition ClosestFirstFabricTiers :: "string list \<Rightarrow> FabricTier list" where
  "ClosestFirstFabricTiers ids = map (\<lambda>i. \<lparr>tierID = i, tierName = []\<rparr>) ids"

definition RootFirstFabricTiers :: "string list \<Rightarrow> FabricTier list" where
  "RootFirstFabricTiers ids = map (\<lambda>i. \<lparr>tierID = i, tierName = []\<rparr>) (rev ids)"

definition NewClusterTopology :: ClusterTopology where
  "NewClusterTopology = []"

definition Append :: "ClusterTopology \<Rightarrow> InstanceTopology \<Rightarrow> ClusterTopology" where
  "Append c inst = c @ [inst]"

definition AttachInstances :: "ClusterTopology \<Rightarrow> (string, Instance) gomap \<Rightarrow> ClusterTopology" where
  "AttachInstances c instances =
     map (\<lambda>topo. case gm_get instances (InstanceID topo) of
            None \<Rightarrow> topo
          | Some instance \<Rightarrow> topo\<lparr>itInstance := Some instance\<rparr>) c"

definition trimmedTiers :: "InstanceTopology \<Rightarrow> int \<Rightarrow> FabricTier list" where
  "trimmedTiers inst trimTiers =
     (let trim = min (max 0 trimTiers) (int (length (FabricTiers inst)));
          keep = int (length (FabricTiers inst)) - trim
      in take (nat keep) (FabricTiers inst))"

definition networkLayers :: "InstanceTopology \<Rightarrow> int \<Rightarrow> string list" where
  "networkLayers inst trimTiers =
     concat (map (\<lambda>tier. if tierID tier = [] then []
                         else if tierName tier \<noteq> [] then [tierName tier] else [tierID tier])
               (trimmedTiers inst trimTiers))"

text \<open>Reading a missing label gives the empty string.\<close>

definition label :: "Instance \<Rightarrow> string \<Rightarrow> string" where
  "label instance k = (case gm_get (Labels instance) k of Some v \<Rightarrow> v | None \<Rightarrow> [])"

definition setLabel :: "string \<Rightarrow> string \<Rightarrow> Instance \<Rightarrow> Instance" where
  "setLabel k v instance = instance\<lparr>Labels := gm_put k v (Labels instance)\<rparr>"

definition toInstance :: "InstanceTopology \<Rightarrow> Instance \<Rightarrow> int \<Rightarrow> Instance" where
  "toInstance inst src trimTiers =
     (let instance = src\<lparr>instID := (if instID src = [] then InstanceID inst else instID src),
                         NetworkLayers := networkLayers inst trimTiers\<rparr>;
          instance = (if label instance KeyTopologyXclrDomain = [] \<and> XclrDomainID inst \<noteq> []
                      then setLabel KeyTopologyXclrDomain (XclrDomainID inst) instance else instance)
      in if label instance KeyTopologyXclrDomain \<noteq> [] \<and>
            label instance KeyTopologyXclrSubDomain = [] \<and> XclrSubDomainID inst \<noteq> []
         then setLabel KeyTopologyXclrSubDomain (XclrSubDomainID inst) instance else instance)"

subsection \<open>Normalize\<close>

text \<open>
  The comparison of \<open>sort.Slice\<close>: tier by tier from the root, a missing tier counting as the empty
  ID, then by instance ID. The sort is modelled by insertion; another sort can differ in the
  order of instances with equal tiers and equal IDs only.
\<close>

definition tierAt :: "FabricTier list \<Rightarrow> nat \<Rightarrow> string" where
  "tierAt tiers level = (if level < length tiers then tierID (tiers ! level) else [])"

fun tiersLess :: "FabricTier list \<Rightarrow> FabricTier list \<Rightarrow> nat \<Rightarrow> bool option" where
  "tiersLess a b 0 = None"
| "tiersLess a b (Suc level) =
     (if tierAt a level \<noteq> tierAt b level then Some (tierAt a level < tierAt b level)
      else tiersLess a b level)"

definition instanceLess :: "InstanceTopology \<Rightarrow> InstanceTopology \<Rightarrow> bool" where
  "instanceLess x y =
     (case tiersLess (FabricTiers x) (FabricTiers y)
             (max (length (FabricTiers x)) (length (FabricTiers y))) of
        Some b \<Rightarrow> b
      | None \<Rightarrow> InstanceID x < InstanceID y)"

fun insertBy :: "('a \<Rightarrow> 'a \<Rightarrow> bool) \<Rightarrow> 'a \<Rightarrow> 'a list \<Rightarrow> 'a list" where
  "insertBy lt x [] = [x]"
| "insertBy lt x (y # ys) = (if lt y x then y # insertBy lt x ys else x # y # ys)"

definition sortSlice :: "('a \<Rightarrow> 'a \<Rightarrow> bool) \<Rightarrow> 'a list \<Rightarrow> 'a list" where
  "sortSlice lt xs = foldr (insertBy lt) xs []"

record normState =
  levelCounts :: "(nat, nat) gomap"
  switches :: "(nat, (string, string) gomap) gomap"

definition switchesAt :: "normState \<Rightarrow> nat \<Rightarrow> (string, string) gomap" where
  "switchesAt st level = (case gm_get (switches st) level of Some m \<Rightarrow> m | None \<Rightarrow> [])"

definition countAt :: "normState \<Rightarrow> nat \<Rightarrow> nat" where
  "countAt st level = (case gm_get (levelCounts st) level of Some n \<Rightarrow> n | None \<Rightarrow> 0)"

definition switchName :: "nat \<Rightarrow> nat \<Rightarrow> string" where
  "switchName level n = ''switch.'' @ itoa (level + 1) @ ''.'' @ itoa n"

definition normTier :: "nat \<Rightarrow> FabricTier \<Rightarrow> normState \<Rightarrow> FabricTier \<times> normState" where
  "normTier level tier st =
     (if tierID tier = [] then (tier, st)
      else case gm_get (switchesAt st level) (tierID tier) of
        Some name \<Rightarrow> (tier\<lparr>tierName := name\<rparr>, st)
      | None \<Rightarrow>
          (let n = countAt st level + 1; name = switchName level n
           in (tier\<lparr>tierName := name\<rparr>,
               \<lparr>levelCounts = gm_put level n (levelCounts st),
                switches = gm_put level (gm_put (tierID tier) name (switchesAt st level)) (switches st)\<rparr>)))"

fun normTiers :: "nat \<Rightarrow> FabricTier list \<Rightarrow> normState \<Rightarrow> FabricTier list \<times> normState" where
  "normTiers level [] st = ([], st)"
| "normTiers level (t # ts) st =
     (let (t', st') = normTier level t st; (ts', st'') = normTiers (level + 1) ts st'
      in (t' # ts', st''))"

fun normInstances :: "InstanceTopology list \<Rightarrow> normState \<Rightarrow> InstanceTopology list \<times> normState" where
  "normInstances [] st = ([], st)"
| "normInstances (i # is) st =
     (let (ts', st') = normTiers 0 (FabricTiers i) st; (is', st'') = normInstances is st'
      in (i\<lparr>FabricTiers := ts'\<rparr> # is', st''))"

definition Normalize :: "ClusterTopology \<Rightarrow> ClusterTopology" where
  "Normalize c = fst (normInstances (sortSlice instanceLess c) \<lparr>levelCounts = [], switches = []\<rparr>)"

subsection \<open>ToGraph\<close>

definition addChild :: "nat \<Rightarrow> string \<Rightarrow> nat option \<Rightarrow> heap \<Rightarrow> heap" where
  "addChild a key child h = h[a := (h ! a)\<lparr>Vertices := gm_put key child (Vertices (h ! a))\<rparr>]"

text \<open>
  \<open>mergeVertices\<close> follows pointers of two structures at once; \<open>fuel\<close> bounds the depth of the
  recursion and \<open>None\<close> means that the call does not return within it, or meets a nil vertex.
  The loop runs over the children \<open>src\<close> has when it starts.
\<close>

fun mergeVertices :: "nat \<Rightarrow> nat \<Rightarrow> nat \<Rightarrow> heap \<Rightarrow> heap option"
  and mergeChildren :: "nat \<Rightarrow> nat \<Rightarrow> (string, nat option) gomap \<Rightarrow> heap \<Rightarrow> heap option" where
  "mergeVertices 0 dst src h = None"
| "mergeVertices (Suc n) dst src h =
     (if dst = src then Some h
      else
        (let h1 = (if vName (h ! dst) = [] then h[dst := (h ! dst)\<lparr>vName := vName (h ! src)\<rparr>] else h)
         in mergeChildren n dst (Vertices (h1 ! src)) h1))"
| "mergeChildren n dst [] h = Some h"
| "mergeChildren n dst ((key, child) # rest) h =
     (case gm_get (Vertices (h ! dst)) key of
        None \<Rightarrow> mergeChildren n dst rest (addChild dst key child h)
      | Some existing \<Rightarrow>
          (case (existing, child) of
             (Some e, Some c) \<Rightarrow>
               (case mergeVertices n e c h of
                  None \<Rightarrow> None
                | Some h' \<Rightarrow> mergeChildren n dst rest h')
           | _ \<Rightarrow> None))"

record graphState =
  gsHeap :: heap
  gsForest :: "(string, nat) gomap"
  gsNodes :: "(nat \<times> string, nat) gomap"
  gsDomains :: DomainMap
  gsI2n :: "(string, string) gomap"
  gsInstances :: "(string, Instance) gomap"

definition linkTier ::
  "heap \<times> (nat \<times> string, nat) gomap \<times> nat \<Rightarrow> nat \<times> FabricTier
     \<Rightarrow> heap \<times> (nat \<times> string, nat) gomap \<times> nat" where
  "linkTier = (\<lambda>(h, nodes, cur) (level, tier).
     if tierID tier = [] then (h, nodes, cur)
     else
       (case gm_get nodes (level, tierID tier) of
          Some sw \<Rightarrow> (addChild sw (vID (h ! cur)) (Some cur) h, nodes, sw)
        | None \<Rightarrow>
            (let sw = length h;
                 h' = h @ [\<lparr>vName = tierName tier, vID = tierID tier, Vertices = []\<rparr>]
             in (addChild sw (vID (h' ! cur)) (Some cur) h', gm_put (level, tierID tier) sw nodes, sw))))"

definition linkTiers ::
  "FabricTier list \<Rightarrow> heap \<Rightarrow> (nat \<times> string, nat) gomap \<Rightarrow> nat
     \<Rightarrow> heap \<times> (nat \<times> string, nat) gomap \<times> nat" where
  "linkTiers tiers h nodes cur = foldl linkTier (h, nodes, cur) (enumerate 0 tiers)"

definition addInstance :: "nat \<Rightarrow> int \<Rightarrow> InstanceTopology \<Rightarrow> graphState \<Rightarrow> graphState option" where
  "addInstance fuel trimTiers inst st =
     (case gm_get (gsI2n st) (InstanceID inst) of
        None \<Rightarrow> Some st
      | Some nodeName \<Rightarrow>
          (let leaf = length (gsHeap st);
               h0 = gsHeap st @ [\<lparr>vName = nodeName, vID = InstanceID inst, Vertices = []\<rparr>];
               (h1, ns, top) = linkTiers (trimmedTiers inst trimTiers) h0 (gsNodes st) leaf;
               st1 = st\<lparr>gsI2n := gm_del (InstanceID inst) (gsI2n st), gsHeap := h1, gsNodes := ns,
                 gsDomains := (if XclrDomainID inst \<noteq> []
                   then AddHostInfo (Some \<lparr>Domain = XclrDomainID inst, hostInstanceID = InstanceID inst,
                          HostName = nodeName, SubDomain = XclrSubDomainID inst\<rparr>) (gsDomains st)
                   else gsDomains st),
                 gsInstances := (case itInstance inst of
                     Some src \<Rightarrow> gm_put (InstanceID inst) (toInstance inst src trimTiers) (gsInstances st)
                   | None \<Rightarrow> gsInstances st)\<rparr>
           in case gm_get (gsForest st) (vID (h1 ! top)) of
                Some root \<Rightarrow>
                  (case mergeVertices fuel root top h1 of
                     None \<Rightarrow> None
                   | Some h2 \<Rightarrow> Some (st1\<lparr>gsHeap := h2\<rparr>))
              | None \<Rightarrow> Some (st1\<lparr>gsForest := gm_put (vID (h1 ! top)) top (gsForest st)\<rparr>)))"

fun addInstances :: "nat \<Rightarrow> int \<Rightarrow> InstanceTopology list \<Rightarrow> graphState \<Rightarrow> graphState option" where
  "addInstances fuel trimTiers [] st = Some st"
| "addInstances fuel trimTiers (i # is) st =
     (case addInstance fuel trimTiers i st of
        None \<Rightarrow> None
      | Some st' \<Rightarrow> addInstances fuel trimTiers is st')"

definition instanceNames :: "ComputeInstances list \<Rightarrow> (string, string) gomap" where
  "instanceNames cis = foldl (\<lambda>m ci. gm_copy m (Instances ci)) [] cis"

definition addLeaf :: "heap \<times> (string, nat option) gomap \<Rightarrow> string \<times> string
    \<Rightarrow> heap \<times> (string, nat option) gomap" where
  "addLeaf = (\<lambda>(h, vs) (instanceID, nodeName).
     (h @ [\<lparr>vName = nodeName, vID = instanceID, Vertices = []\<rparr>], gm_put instanceID (Some (length h)) vs))"

definition addNoTopology :: "graphState \<Rightarrow> graphState" where
  "addNoTopology st =
     (if gsI2n st = [] then st
      else
        (let (h, vs) = foldl addLeaf (gsHeap st, []) (gsI2n st)
         in st\<lparr>gsHeap := h @ [\<lparr>vName = [], vID = NoTopology, Vertices = vs\<rparr>],
               gsForest := gm_put NoTopology (length h) (gsForest st)\<rparr>))"

definition ToGraph ::
  "nat \<Rightarrow> ClusterTopology \<Rightarrow> ComputeInstances list \<Rightarrow> int \<Rightarrow> bool \<Rightarrow> (heap \<times> Graph) option" where
  "ToGraph fuel c cis trimTiers normalise =
     (let c' = (if normalise then Normalize c else c);
          st0 = \<lparr>gsHeap = [], gsForest = [], gsNodes = [], gsDomains = NewDomainMap,
                 gsI2n = instanceNames cis, gsInstances = []\<rparr>
      in case addInstances fuel trimTiers c' st0 of
           None \<Rightarrow> None
         | Some st \<Rightarrow>
             (let st' = addNoTopology st;
                  root = \<lparr>vName = [], vID = [], Vertices = gm_copy [] (map (apsnd Some) (gsForest st'))\<rparr>
              in Some (gsHeap st' @ [root],
                   \<lparr>Tiers = Some (length (gsHeap st')),
                    gDomains = (if gsDomains st' \<noteq> [] then Some (gsDomains st') else None),
                    gInstances = gsInstances st'\<rparr>)))"

section \<open>Normalisation\<close>

lemma mset_insertBy [simp]: "mset (insertBy lt x xs) = add_mset x (mset xs)"
  by (induction xs) auto

lemma mset_sortSlice [simp]: "mset (sortSlice lt xs) = mset xs"
  by (induction xs) (simp_all add: sortSlice_def)

lemma set_sortSlice [simp]: "set (sortSlice lt xs) = set xs"
  using mset_sortSlice by (rule mset_eq_setD)

lemma append_sep_inj:
  "c \<notin> set x \<Longrightarrow> c \<notin> set x' \<Longrightarrow> x @ c # y = x' @ c # y' \<longleftrightarrow> x = x' \<and> y = y'"
  by (induction x arbitrary: x') (case_tac x'; auto)+

lemma itoa_no_dot: "CHR ''.'' \<notin> set (itoa n)"
  using itoa_digits [of n] by (auto simp: list_all_iff is_digit_def)

lemma switchName_inj: "switchName l n = switchName l' n' \<longleftrightarrow> l = l' \<and> n = n'"
  using append_sep_inj [OF itoa_no_dot itoa_no_dot, where y = "itoa n" and y' = "itoa n'", of "l + 1" "l' + 1"]
  by (auto simp: switchName_def dest: itoa_inj)

text \<open>
  The state of the naming loop: at every level the names are distinct and numbered up to the count.
\<close>

definition normOk :: "normState \<Rightarrow> bool" where
  "normOk st \<longleftrightarrow>
     (\<forall>l i. \<forall>name. gm_get (switchesAt st l) i = Some name \<longrightarrow>
        (\<exists>k \<le> countAt st l. name = switchName l k)) \<and>
     (\<forall>l i j name. gm_get (switchesAt st l) i = Some name \<longrightarrow> gm_get (switchesAt st l) j = Some name \<longrightarrow> i = j)"

definition normLe :: "normState \<Rightarrow> normState \<Rightarrow> bool" where
  "normLe st st' \<longleftrightarrow>
     (\<forall>l i name. gm_get (switchesAt st l) i = Some name \<longrightarrow> gm_get (switchesAt st' l) i = Some name)"

definition tierNamed :: "normState \<Rightarrow> nat \<Rightarrow> FabricTier \<Rightarrow> bool" where
  "tierNamed st l t \<longleftrightarrow> (tierID t \<noteq> [] \<longrightarrow> gm_get (switchesAt st l) (tierID t) = Some (tierName t))"

lemma normLe_refl: "normLe st st" by (simp add: normLe_def)

lemma normLe_trans: "normLe a b \<Longrightarrow> normLe b c \<Longrightarrow> normLe a c" by (simp add: normLe_def)

lemma tierNamed_mono: "normLe st st' \<Longrightarrow> tierNamed st l t \<Longrightarrow> tierNamed st' l t"
  by (simp add: normLe_def tierNamed_def)

lemma switchesAt_put:
  "switchesAt \<lparr>levelCounts = cs, switches = gm_put l m (switches st)\<rparr> l' =
     (if l' = l then m else switchesAt st l')"
  by (simp add: switchesAt_def update_conv)

lemma countAt_put:
  "countAt \<lparr>levelCounts = gm_put l n (levelCounts st), switches = ss\<rparr> l' = (if l' = l then n else countAt st l')"
  by (simp add: countAt_def update_conv)

lemma normTier_props:
  assumes ok: "normOk st" and r: "normTier l t st = (t', st')"
  shows "normOk st' \<and> normLe st st' \<and> tierNamed st' l t' \<and> tierID t' = tierID t"
proof (cases "tierID t = [] \<or> gm_get (switchesAt st l) (tierID t) \<noteq> None")
  case True
  then show ?thesis
    using ok r by (auto simp: normTier_def normLe_refl tierNamed_def split: if_splits)
next
  case False
  let ?n = "countAt st l + 1"
  have st': "st' = \<lparr>levelCounts = gm_put l ?n (levelCounts st),
      switches = gm_put l (gm_put (tierID t) (switchName l ?n) (switchesAt st l)) (switches st)\<rparr>"
    and t': "t' = t\<lparr>tierName := switchName l ?n\<rparr>"
    using False r by (auto simp: normTier_def Let_def)
  have fresh: "gm_get (switchesAt st l) i \<noteq> Some (switchName l ?n)" for i
    using ok by (force simp: normOk_def switchName_inj)
  have "normOk st'"
    unfolding normOk_def
  proof (intro conjI allI impI)
    fix l' i name
    assume a: "gm_get (switchesAt st' l') i = Some name"
    show "\<exists>k\<le>countAt st' l'. name = switchName l' k"
    proof (cases "l' = l \<and> i = tierID t")
      case True
      then show ?thesis using a by (auto simp: st' switchesAt_put countAt_put update_conv)
    next
      case False
      then have "gm_get (switchesAt st l') i = Some name"
        using a by (auto simp: st' switchesAt_put update_conv split: if_splits)
      then obtain k where "k \<le> countAt st l'" "name = switchName l' k" using ok unfolding normOk_def by blast
      moreover have "countAt st l' \<le> countAt st' l'" by (simp add: st' countAt_put)
      ultimately show ?thesis using order_trans by blast
    qed
  next
    fix l' i j name
    assume "gm_get (switchesAt st' l') i = Some name" and "gm_get (switchesAt st' l') j = Some name"
    then show "i = j"
      using ok fresh by (auto simp: st' switchesAt_put update_conv normOk_def split: if_splits)
  qed
  moreover have "normLe st st'"
    using False by (auto simp: normLe_def st' switchesAt_put update_conv)
  moreover have "tierNamed st' l t'"
    by (simp add: tierNamed_def st' t' switchesAt_put update_conv)
  ultimately show ?thesis by (simp add: t')
qed

lemma normTiers_props:
  assumes "normOk st" and "normTiers l ts st = (ts', st')"
  shows "normOk st' \<and> normLe st st' \<and> map tierID ts' = map tierID ts \<and>
    (\<forall>k < length ts'. tierNamed st' (l + k) (ts' ! k))"
  using assms
proof (induction ts arbitrary: l st ts' st')
  case (Cons t ts)
  obtain t1 s1 where 1: "normTier l t st = (t1, s1)" by fastforce
  obtain ts2 s2 where 2: "normTiers (l + 1) ts s1 = (ts2, s2)" by fastforce
  note p = normTier_props [OF Cons.prems(1) 1]
  have IH: "normOk s2 \<and> normLe s1 s2 \<and> map tierID ts2 = map tierID ts \<and>
      (\<forall>k < length ts2. tierNamed s2 (l + 1 + k) (ts2 ! k))"
    using Cons.IH [OF _ 2] p by blast
  have eq: "ts' = t1 # ts2" "st' = s2" using Cons.prems(2) 1 2 by auto
  have "tierNamed s2 (l + k) ((t1 # ts2) ! k)" if "k < length (t1 # ts2)" for k
  proof (cases k)
    case 0
    then show ?thesis using p IH tierNamed_mono [of s1 s2] by simp
  next
    case (Suc k')
    then show ?thesis using IH that by simp
  qed
  then show ?case using p IH eq normLe_trans by auto
qed (auto simp: normLe_refl)

lemma normInstances_props:
  assumes "normOk st" and "normInstances is st = (is', st')"
  shows "normOk st' \<and> normLe st st' \<and>
    map (\<lambda>i. (InstanceID i, map tierID (FabricTiers i))) is' =
      map (\<lambda>i. (InstanceID i, map tierID (FabricTiers i))) is \<and>
    (\<forall>i \<in> set is'. \<forall>k < length (FabricTiers i). tierNamed st' k (FabricTiers i ! k))"
  using assms
proof (induction "is" arbitrary: st is' st')
  case (Cons i "is")
  obtain ts s1 where 1: "normTiers 0 (FabricTiers i) st = (ts, s1)" by fastforce
  obtain is2 s2 where 2: "normInstances is s1 = (is2, s2)" by fastforce
  note p = normTiers_props [OF Cons.prems(1) 1]
  then have IH: "normOk s2 \<and> normLe s1 s2 \<and>
      map (\<lambda>i. (InstanceID i, map tierID (FabricTiers i))) is2 =
        map (\<lambda>i. (InstanceID i, map tierID (FabricTiers i))) is \<and>
      (\<forall>i \<in> set is2. \<forall>k < length (FabricTiers i). tierNamed s2 k (FabricTiers i ! k))"
    using Cons.IH [OF _ 2] by blast
  have eq: "is' = i\<lparr>FabricTiers := ts\<rparr> # is2" "st' = s2" using Cons.prems(2) 1 2 by auto
  show ?case using p IH eq normLe_trans tierNamed_mono by auto
qed (auto simp: normLe_refl)

lemma normOk_init: "normOk \<lparr>levelCounts = [], switches = []\<rparr>"
  by (simp add: normOk_def switchesAt_def)

lemma Normalize_ids:
  "mset (map (\<lambda>i. (InstanceID i, map tierID (FabricTiers i))) (Normalize c)) =
     mset (map (\<lambda>i. (InstanceID i, map tierID (FabricTiers i))) c)"
proof -
  obtain is' st' where r: "normInstances (sortSlice instanceLess c) \<lparr>levelCounts = [], switches = []\<rparr> = (is', st')"
    by fastforce
  have "map (\<lambda>i. (InstanceID i, map tierID (FabricTiers i))) (Normalize c) =
      map (\<lambda>i. (InstanceID i, map tierID (FabricTiers i))) (sortSlice instanceLess c)"
    using normInstances_props [OF normOk_init r] by (simp add: Normalize_def r)
  then show ?thesis by (simp only: mset_map mset_sortSlice)
qed

text \<open>
  \<open>Normalize\<close> gives switches faithful display names: two switch occurrences (a level and a
  non-empty ID) get the same name exactly when they have the same level and the same ID, so no two
  switches are confused by their normalised names.
\<close>

theorem Normalize_names_faithful:
  assumes "i \<in> set (Normalize c)" and "k < length (FabricTiers i)" and "tierID (FabricTiers i ! k) \<noteq> []"
    and "j \<in> set (Normalize c)" and "l < length (FabricTiers j)" and "tierID (FabricTiers j ! l) \<noteq> []"
  shows "tierName (FabricTiers i ! k) = tierName (FabricTiers j ! l) \<longleftrightarrow>
    k = l \<and> tierID (FabricTiers i ! k) = tierID (FabricTiers j ! l)"
proof -
  obtain is' st where r: "normInstances (sortSlice instanceLess c) \<lparr>levelCounts = [], switches = []\<rparr> = (is', st)"
    by fastforce
  note p = normInstances_props [OF normOk_init r]
  have "Normalize c = is'" by (simp add: Normalize_def r)
  with p assms have n: "gm_get (switchesAt st k) (tierID (FabricTiers i ! k)) = Some (tierName (FabricTiers i ! k))"
      "gm_get (switchesAt st l) (tierID (FabricTiers j ! l)) = Some (tierName (FabricTiers j ! l))"
    by (auto simp: tierNamed_def)
  have ok: "normOk st" using p by simp
  with n obtain a b where "tierName (FabricTiers i ! k) = switchName k a"
    "tierName (FabricTiers j ! l) = switchName l b" unfolding normOk_def by blast
  then show ?thesis using n ok by (auto simp: normOk_def switchName_inj)
qed

definition demoInstance :: "string \<Rightarrow> string list \<Rightarrow> InstanceTopology" where
  "demoInstance i ts =
     \<lparr>InstanceID = i, FabricTiers = ClosestFirstFabricTiers ts, XclrDomainID = [], XclrSubDomainID = [],
      itInstance = None\<rparr>"

end
