(* ===== verification/Placement.thy ===== *)
theory Placement
  imports Topology
begin

text \<open>
  What \<open>ToGraph\<close> (\<open>pkg/topology/graph.go\<close>) promises: where every compute node of the request ends
  up in the switch hierarchy. When a switch ID is used at one level only and switch and instance IDs
  do not clash, \<open>ToGraph\<close> returns, all vertices have different IDs, and every node is reached from
  the root along the switches its provider reported, or below \<open>no-topology\<close>, and no other edge is there.
\<close>

section \<open>Paths in the heap\<close>

fun path :: "heap \<Rightarrow> nat \<Rightarrow> string list \<Rightarrow> nat \<Rightarrow> bool" where
  "path h a [] b \<longleftrightarrow> a = b"
| "path h a (k # ks) b \<longleftrightarrow>
     (case gm_get (Vertices (h ! a)) k of Some (Some c) \<Rightarrow> path h c ks b | _ \<Rightarrow> False)"

text \<open>A heap grows: vertices keep their fields and their children, new ones are added.\<close>

definition grows :: "heap \<Rightarrow> heap \<Rightarrow> bool" where
  "grows h h' \<longleftrightarrow>
     length h \<le> length h' \<and>
     (\<forall>a < length h. vName (h' ! a) = vName (h ! a) \<and> vID (h' ! a) = vID (h ! a) \<and>
        (\<forall>k c. gm_get (Vertices (h ! a)) k = Some c \<longrightarrow> gm_get (Vertices (h' ! a)) k = Some c))"

text \<open>
  A well-formed heap: IDs are unique, and every child is a vertex of the heap stored under its own ID.
\<close>

definition heapOk :: "heap \<Rightarrow> bool" where
  "heapOk h \<longleftrightarrow>
     distinct (map vID h) \<and>
     (\<forall>a < length h. \<forall>k c. gm_get (Vertices (h ! a)) k = Some c \<longrightarrow>
        (\<exists>b < length h. c = Some b \<and> vID (h ! b) = k))"

lemma grows_refl [simp]: "grows h h"
  by (simp add: grows_def)

lemma grows_trans: "grows h h' \<Longrightarrow> grows h' h'' \<Longrightarrow> grows h h''"
  by (simp add: grows_def)

lemma grows_append [simp]: "grows h (h @ vs)"
  by (simp add: grows_def nth_append)

lemma path_append: "path h a (ks @ ls) b \<longleftrightarrow> (\<exists>c. path h a ks c \<and> path h c ls b)"
  by (induction ks arbitrary: a) (auto split: option.splits)

lemma heapOk_child:
  "heapOk h \<Longrightarrow> a < length h \<Longrightarrow> gm_get (Vertices (h ! a)) k = Some (Some c) \<Longrightarrow> c < length h \<and> vID (h ! c) = k"
  by (force simp: heapOk_def)

lemma path_grows:
  assumes "grows h h'" and "heapOk h" and "a < length h" and "path h a ks b"
  shows "path h' a ks b"
  using assms(3,4)
proof (induction ks arbitrary: a)
  case (Cons k ks)
  then obtain c where c: "gm_get (Vertices (h ! a)) k = Some (Some c)" "path h c ks b"
    by (auto split: option.splits)
  moreover have "gm_get (Vertices (h' ! a)) k = Some (Some c)"
    using c(1) Cons.prems(1) assms(1) by (simp add: grows_def)
  ultimately show ?case using Cons heapOk_child [OF assms(2) Cons.prems(1)] by simp
qed simp

lemma path_bound:
  "heapOk h \<Longrightarrow> a < length h \<Longrightarrow> path h a ks b \<Longrightarrow> b < length h"
proof (induction ks arbitrary: a)
  case (Cons k ks)
  then show ?case using heapOk_child [of h a k] by (fastforce split: option.splits)
qed simp

lemma heapOk_unique:
  "heapOk h \<Longrightarrow> a < length h \<Longrightarrow> b < length h \<Longrightarrow> vID (h ! a) = vID (h ! b) \<Longrightarrow> a = b"
  by (metis heapOk_def length_map nth_eq_iff_index_eq nth_map)

section \<open>Heap updates of the construction\<close>

lemma addChild_nth:
  "b < length h \<Longrightarrow> addChild a k c h ! b =
     (if b = a then (h ! a)\<lparr>Vertices := gm_put k c (Vertices (h ! a))\<rparr> else h ! b)"
  by (simp add: addChild_def)

lemma length_addChild [simp]: "length (addChild a k c h) = length h"
  by (simp add: addChild_def)

lemma ids_addChild [simp]: "map vID (addChild a k c h) = map vID h"
  by (rule nth_equalityI) (auto simp: addChild_nth)

lemma addChild_props:
  assumes ok: "heapOk h" and a: "a < length h" and c: "c < length h"
  defines "h' \<equiv> addChild a (vID (h ! c)) (Some c) h"
  shows "heapOk h'" and "grows h h'" and "path h' a [vID (h ! c)] c"
proof -
  have uniq: "e = Some c" if "gm_get (Vertices (h ! a)) (vID (h ! c)) = Some e" for e
  proof -
    obtain b where "b < length h" "e = Some b" "vID (h ! b) = vID (h ! c)"
      using ok a \<open>gm_get _ _ = Some e\<close> unfolding heapOk_def by blast
    then show ?thesis using heapOk_unique [OF ok _ c] by blast
  qed
  have ids: "vID (h' ! b) = vID (h ! b)" if "b < length h" for b
    using that by (simp add: h'_def addChild_nth)
  have child: "\<exists>b < length h. e = Some b \<and> vID (h ! b) = k"
    if "d < length h" "gm_get (Vertices (h' ! d)) k = Some e" for d k e
  proof (cases "d = a \<and> k = vID (h ! c)")
    case True
    then show ?thesis using that c by (auto simp: h'_def addChild_nth update_conv)
  next
    case False
    then have "gm_get (Vertices (h ! d)) k = Some e"
      using that by (auto simp: h'_def addChild_nth update_conv split: if_splits)
    then show ?thesis using ok that(1) unfolding heapOk_def by blast
  qed
  then show "heapOk h'"
    using ok ids unfolding heapOk_def h'_def ids_addChild length_addChild by metis
  show "grows h h'"
    using uniq by (auto simp: grows_def h'_def addChild_nth update_conv)
  show "path h' a [vID (h ! c)] c"
    using a by (simp add: h'_def addChild_nth update_conv)
qed

text \<open>Every edge of the heap is one of \<open>E\<close>, parent first.\<close>

definition edgesIn :: "(string \<times> string) set \<Rightarrow> heap \<Rightarrow> bool" where
  "edgesIn E h \<longleftrightarrow> (\<forall>a < length h. \<forall>k. gm_get (Vertices (h ! a)) k \<noteq> None \<longrightarrow> (vID (h ! a), k) \<in> E)"

lemma edgesIn_addChild:
  assumes "edgesIn E h" and "a < length h" and "(vID (h ! a), k) \<in> E"
  shows "edgesIn E (addChild a k c h)"
  using assms by (auto simp: edgesIn_def addChild_nth update_conv split: if_splits)

lemma edgesIn_snoc:
  assumes "edgesIn E h" and "\<And>k. gm_get (Vertices v) k \<noteq> None \<Longrightarrow> (vID v, k) \<in> E"
  shows "edgesIn E (h @ [v])"
  using assms by (auto simp: edgesIn_def nth_append less_Suc_eq)

lemma edgesIn_leaves: "edgesIn E h \<Longrightarrow> \<forall>v \<in> set ls. Vertices v = [] \<Longrightarrow> edgesIn E (h @ ls)"
  by (auto simp: edgesIn_def nth_append)

lemma heapOk_snoc:
  assumes "heapOk h" and "i \<notin> vID ` set h"
  shows "heapOk (h @ [\<lparr>vName = n, vID = i, Vertices = []\<rparr>])"
  unfolding heapOk_def
proof (intro conjI allI impI)
  show "distinct (map vID (h @ [\<lparr>vName = n, vID = i, Vertices = []\<rparr>]))"
    using assms by (auto simp: heapOk_def)
  fix a k c
  assume "a < length (h @ [\<lparr>vName = n, vID = i, Vertices = []\<rparr>])"
    and "gm_get (Vertices ((h @ [\<lparr>vName = n, vID = i, Vertices = []\<rparr>]) ! a)) k = Some c"
  then have "a < length h" "gm_get (Vertices (h ! a)) k = Some c"
    by (auto simp: nth_append split: if_splits)
  then obtain b where "b < length h" "c = Some b" "vID (h ! b) = k"
    using assms(1) unfolding heapOk_def by blast
  then show "\<exists>b<length (h @ [\<lparr>vName = n, vID = i, Vertices = []\<rparr>]).
      c = Some b \<and> vID ((h @ [\<lparr>vName = n, vID = i, Vertices = []\<rparr>]) ! b) = k"
    by (intro exI [of _ b]) (simp add: nth_append)
qed

text \<open>
  The switch table agrees with the heap: \<open>K\<close> is the set of switches (level and ID) in play, \<open>D\<close> the
  instance IDs placed so far. Every vertex is a placed instance, which has no children, or a switch
  of the table.
\<close>

definition tableOk :: "(nat \<times> string) set \<Rightarrow> string set \<Rightarrow> heap \<Rightarrow> (nat \<times> string, nat) gomap \<Rightarrow> bool" where
  "tableOk K D h ns \<longleftrightarrow>
     heapOk h \<and>
     (\<forall>l i a. gm_get ns (l, i) = Some a \<longrightarrow> a < length h \<and> vID (h ! a) = i \<and> (l, i) \<in> K) \<and>
     (\<forall>a < length h. vID (h ! a) \<in> D \<and> Vertices (h ! a) = [] \<or> (\<exists>l. gm_get ns (l, vID (h ! a)) = Some a))"

definition levelsOk :: "(nat \<times> string) set \<Rightarrow> string set \<Rightarrow> bool" where
  "levelsOk K D \<longleftrightarrow>
     (\<forall>l l' i. (l, i) \<in> K \<longrightarrow> (l', i) \<in> K \<longrightarrow> l = l') \<and> (\<forall>(l, i) \<in> K. i \<notin> D)"

lemma tableOk_switch:
  "tableOk K D h ns \<Longrightarrow> gm_get ns (l, i) = Some a \<Longrightarrow> a < length h \<and> vID (h ! a) = i \<and> (l, i) \<in> K"
  unfolding tableOk_def by blast

lemma tableOk_vertex:
  "tableOk K D h ns \<Longrightarrow> a < length h \<Longrightarrow>
     vID (h ! a) \<in> D \<and> Vertices (h ! a) = [] \<or> (\<exists>l. gm_get ns (l, vID (h ! a)) = Some a)"
  unfolding tableOk_def by blast

lemma tableOk_id: 
  assumes "tableOk K D h ns" and "a < length h"
  shows "vID (h ! a) \<in> D \<union> snd ` K"
  using tableOk_vertex [OF assms]
proof
  assume "\<exists>l. gm_get ns (l, vID (h ! a)) = Some a"
  then obtain l where "gm_get ns (l, vID (h ! a)) = Some a" ..
  from tableOk_switch [OF assms(1) this] have "(l, vID (h ! a)) \<in> K" by simp
  then show ?thesis by force
qed simp

lemma tableOk_leafVertices:
  assumes "tableOk K D h ns" and "a < length h" and "vID (h ! a) \<in> D" and "levelsOk K D"
  shows "Vertices (h ! a) = []"
  using tableOk_vertex [OF assms(1,2)]
proof
  assume "\<exists>l. gm_get ns (l, vID (h ! a)) = Some a"
  then obtain l where "gm_get ns (l, vID (h ! a)) = Some a" ..
  from tableOk_switch [OF assms(1) this] have "(l, vID (h ! a)) \<in> K" by simp
  then show ?thesis using assms(3,4) by (auto simp: levelsOk_def)
qed simp

lemma tableOkI:
  assumes "heapOk h"
    and "\<And>l i a. gm_get ns (l, i) = Some a \<Longrightarrow> a < length h \<and> vID (h ! a) = i \<and> (l, i) \<in> K"
    and "\<And>a. a < length h \<Longrightarrow>
      vID (h ! a) \<in> D \<and> Vertices (h ! a) = [] \<or> (\<exists>l. gm_get ns (l, vID (h ! a)) = Some a)"
  shows "tableOk K D h ns"
  unfolding tableOk_def using assms by blast

lemma tableOk_add:
  assumes t: "tableOk K D h ns" and sw: "gm_get ns (l, i) = Some a" and c: "c < length h" and D: "levelsOk K D"
  defines "h' \<equiv> addChild a (vID (h ! c)) (Some c) h"
  shows "tableOk K D h' ns" and "grows h h'" and "path h' a [vID (h ! c)] c"
proof -
  have a: "a < length h" "vID (h ! a) = i" "(l, i) \<in> K" and ok: "heapOk h"
    using t sw by (auto simp: tableOk_def)
  note p = addChild_props [OF ok a(1) c, folded h'_def]
  then show "grows h h'" "path h' a [vID (h ! c)] c" by auto
  have ids: "vID (h' ! b) = vID (h ! b)" if "b < length h" for b
    using that by (simp add: h'_def addChild_nth)
  have notD: "vID (h ! a) \<notin> D" using a D by (auto simp: levelsOk_def)
  have "vID (h' ! b) \<in> D \<and> Vertices (h' ! b) = [] \<or> (\<exists>l. gm_get ns (l, vID (h' ! b)) = Some b)"
    if b: "b < length h" for b
    using tableOk_vertex [OF t b] notD ids [OF b] by (cases "b = a") (auto simp: h'_def addChild_nth b)
  then show "tableOk K D h' ns"
    using p(1) ids tableOk_switch [OF t] by (intro tableOkI) (simp_all add: h'_def)
qed

lemma tableOk_alloc:
  fixes n :: string
  assumes t: "tableOk K D h ns" and new: "gm_get ns (l, i) = None" and K: "(l, i) \<in> K" "levelsOk K D"
  defines "h' \<equiv> h @ [\<lparr>vName = n, vID = i, Vertices = []\<rparr>]"
  shows "tableOk K D h' (gm_put (l, i) (length h) ns)"
proof -
  have "i \<notin> vID ` set h"
  proof
    assume "i \<in> vID ` set h"
    then obtain a where a: "a < length h" "vID (h ! a) = i" by (auto simp: in_set_conv_nth)
    have "i \<notin> D" using K by (auto simp: levelsOk_def)
    with tableOk_vertex [OF t a(1)] a(2) obtain l' where "gm_get ns (l', i) = Some a" by auto
    moreover from tableOk_switch [OF t this] have "(l', i) \<in> K" by simp
    ultimately have "l' = l" using K unfolding levelsOk_def by blast
    with \<open>gm_get ns (l', i) = Some a\<close> new show False by simp
  qed
  then have "heapOk h'" unfolding h'_def using t by (intro heapOk_snoc) (simp_all add: tableOk_def)
  then show ?thesis
  proof (rule tableOkI)
    fix l' i' a
    assume "gm_get (gm_put (l, i) (length h) ns) (l', i') = Some a"
    then show "a < length h' \<and> vID (h' ! a) = i' \<and> (l', i') \<in> K"
      using tableOk_switch [OF t, of l' i' a] K(1)
      by (auto simp: update_conv h'_def nth_append split: if_splits)
  next
    fix a
    assume "a < length h'"
    then consider (new) "a = length h" | (old) "a < length h" by (auto simp: h'_def less_Suc_eq)
    then show "vID (h' ! a) \<in> D \<and> Vertices (h' ! a) = [] \<or>
        (\<exists>l'. gm_get (gm_put (l, i) (length h) ns) (l', vID (h' ! a)) = Some a)"
    proof cases
      case new
      then show ?thesis by (auto simp: h'_def update_conv)
    next
      case old
      have "gm_get (gm_put (l, i) (length h) ns) (l', j) = Some a" if "gm_get ns (l', j) = Some a" for l' j
        using that assms(2) by (auto simp: update_conv)
      moreover have "h' ! a = h ! a" using old by (simp add: h'_def nth_append)
      ultimately show ?thesis using tableOk_vertex [OF t old] by (simp only:) blast
    qed
  qed
qed

section \<open>Linking one instance\<close>

text \<open>The IDs of a list of levels with their tiers, closest first, tiers without ID left out.\<close>

definition tierIDs :: "(nat \<times> FabricTier) list \<Rightarrow> string list" where
  "tierIDs xs = filter (\<lambda>i. i \<noteq> []) (map (tierID \<circ> snd) xs)"

lemma linkTier_props:
  assumes t: "tableOk K D h ns" and cur: "cur < length h" and K: "levelsOk K D"
    and mem: "tierID tier \<noteq> [] \<longrightarrow> (l, tierID tier) \<in> K"
    and r: "linkTier (h, ns, cur) (l, tier) = (h', ns', cur')"
  shows "tableOk K D h' ns' \<and> grows h h' \<and> cur' < length h' \<and>
    (if tierID tier = [] then cur' = cur
     else vID (h' ! cur') = tierID tier \<and> path h' cur' [vID (h ! cur)] cur)"
proof (cases "tierID tier = []")
  case True
  then show ?thesis using t cur r by (simp add: linkTier_def)
next
  case ne: False
  show ?thesis
  proof (cases "gm_get ns (l, tierID tier)")
    case (Some sw)
    then have eq: "h' = addChild sw (vID (h ! cur)) (Some cur) h" "ns' = ns" "cur' = sw"
      using ne r by (auto simp: linkTier_def)
    have "vID (h' ! sw) = tierID tier" "sw < length h"
      using tableOk_switch [OF t Some] eq(1) by (auto simp: addChild_nth)
    then show ?thesis using tableOk_add [OF t Some cur K] ne eq by simp
  next
    case None
    let ?h = "h @ [\<lparr>vName = tierName tier, vID = tierID tier, Vertices = []\<rparr>]"
    let ?ns = "gm_put (l, tierID tier) (length h) ns"
    have eq: "h' = addChild (length h) (vID (?h ! cur)) (Some cur) ?h" "ns' = ?ns" "cur' = length h"
      using ne r None by (auto simp: linkTier_def Let_def)
    have t2: "tableOk K D ?h ?ns" using tableOk_alloc [OF t None _ K] mem ne by simp
    have g: "gm_get ?ns (l, tierID tier) = Some (length h)" by (simp add: update_conv)
    have c2: "cur < length ?h" using cur by simp
    note p = tableOk_add [OF t2 g c2 K, folded eq(1)]
    have "vID (?h ! cur) = vID (h ! cur)" using cur by (simp add: nth_append)
    moreover have "vID (h' ! length h) = tierID tier" by (simp add: eq(1) addChild_nth)
    moreover have "grows h h'" using grows_trans [OF grows_append p(2)] .
    ultimately show ?thesis using p(1,3) ne eq(2,3) by (simp add: eq(1))
  qed
qed

lemma linkTiers_props:
  assumes "tableOk K D h ns" and "cur < length h" and "levelsOk K D"
    and "\<forall>(l, t) \<in> set xs. tierID t \<noteq> [] \<longrightarrow> (l, tierID t) \<in> K"
    and "foldl linkTier (h, ns, cur) xs = (h', ns', tp)"
  shows "tableOk K D h' ns' \<and> grows h h' \<and> tp < length h' \<and>
    vID (h' ! tp) = last (vID (h ! cur) # tierIDs xs) \<and>
    path h' tp (tl (rev (vID (h ! cur) # tierIDs xs))) cur"
  using assms
proof (induction xs arbitrary: h ns cur)
  case Nil
  then show ?case by (auto simp: tierIDs_def)
next
  case (Cons x xs)
  obtain l t where x: "x = (l, t)" by (cases x)
  obtain h1 ns1 c1 where 1: "linkTier (h, ns, cur) (l, t) = (h1, ns1, c1)" by (cases "linkTier (h, ns, cur) (l, t)")
  have mem: "tierID t \<noteq> [] \<longrightarrow> (l, tierID t) \<in> K" using Cons.prems(4) x by auto
  note p = linkTier_props [OF Cons.prems(1,2,3) mem 1]
  have IH: "tableOk K D h' ns' \<and> grows h1 h' \<and> tp < length h' \<and>
      vID (h' ! tp) = last (vID (h1 ! c1) # tierIDs xs) \<and>
      path h' tp (tl (rev (vID (h1 ! c1) # tierIDs xs))) c1"
    using p Cons.prems 1 x by (intro Cons.IH [of h1 ns1 c1]) auto
  then have g: "grows h h'" using p grows_trans by blast
  show ?case
  proof (cases "tierID t = []")
    case True
    then have "c1 = cur" "h1 = h" using 1 by (auto simp: linkTier_def)
    then show ?thesis using IH True g by (simp add: tierIDs_def x)
  next
    case False
    then have v: "vID (h1 ! c1) = tierID t" "path h1 c1 [vID (h ! cur)] cur" using p by auto
    have "path h' c1 [vID (h ! cur)] cur"
      using path_grows [OF _ _ _ v(2)] p IH unfolding tableOk_def by blast
    with IH v(1) have "path h' tp (tl (rev (tierID t # tierIDs xs)) @ [vID (h ! cur)]) cur"
      by (auto simp: path_append simp del: path.simps)
    moreover have "tierIDs (x # xs) = tierID t # tierIDs xs" using False by (simp add: tierIDs_def x)
    moreover have "tl (rev (tierID t # tierIDs xs)) @ [vID (h ! cur)] =
        tl (rev (vID (h ! cur) # tierID t # tierIDs xs))" by (cases "rev (tierIDs xs)") auto
    ultimately show ?thesis using IH v(1) g by simp
  qed
qed

lemma linkTier_edges:
  assumes t: "tableOk K D h ns" and cur: "cur < length h" and E: "edgesIn E h"
    and mem: "tierID tier \<noteq> [] \<longrightarrow> (tierID tier, vID (h ! cur)) \<in> E"
    and r: "linkTier (h, ns, cur) (l, tier) = (h', ns', cur')"
  shows "edgesIn E h'"
proof (cases "tierID tier = []")
  case True
  then show ?thesis using E r by (simp add: linkTier_def)
next
  case ne: False
  show ?thesis
  proof (cases "gm_get ns (l, tierID tier)")
    case (Some sw)
    then have "h' = addChild sw (vID (h ! cur)) (Some cur) h" using ne r by (auto simp: linkTier_def)
    then show ?thesis using edgesIn_addChild [OF E] tableOk_switch [OF t Some] mem ne by simp
  next
    case None
    let ?h = "h @ [\<lparr>vName = tierName tier, vID = tierID tier, Vertices = []\<rparr>]"
    have "h' = addChild (length h) (vID (?h ! cur)) (Some cur) ?h" using ne r None by (auto simp: linkTier_def Let_def)
    moreover have "edgesIn E ?h" by (rule edgesIn_leaves [OF E]) simp
    moreover have "(vID (?h ! length h), vID (?h ! cur)) \<in> E" using mem ne cur by (simp add: nth_append)
    ultimately show ?thesis using edgesIn_addChild by simp
  qed
qed

text \<open>The edges a chain of IDs asks for, from the switch to what is below it.\<close>

definition chainEdges :: "string list \<Rightarrow> (string \<times> string) set" where
  "chainEdges ch = (\<lambda>(k, p). (p, k)) ` set (zip ch (tl ch))"

lemma chainEdges_Cons: "chainEdges (x # y # ys) = insert (y, x) (chainEdges (y # ys))"
  by (simp add: chainEdges_def)

lemma linkTiers_edges:
  assumes "tableOk K D h ns" and "cur < length h" and "levelsOk K D"
    and "\<forall>(l, t) \<in> set xs. tierID t \<noteq> [] \<longrightarrow> (l, tierID t) \<in> K"
    and "edgesIn E h" and "chainEdges (vID (h ! cur) # tierIDs xs) \<subseteq> E"
    and "foldl linkTier (h, ns, cur) xs = (h', ns', tp)"
  shows "edgesIn E h'"
  using assms
proof (induction xs arbitrary: h ns cur)
  case (Cons x xs)
  obtain l t where x: "x = (l, t)" by (cases x)
  obtain h1 ns1 c1 where 1: "linkTier (h, ns, cur) (l, t) = (h1, ns1, c1)" by (cases "linkTier (h, ns, cur) (l, t)")
  have mem: "tierID t \<noteq> [] \<longrightarrow> (l, tierID t) \<in> K" using Cons.prems(4) x by auto
  note p = linkTier_props [OF Cons.prems(1,2,3) mem 1]
  have ids: "tierIDs (x # xs) = (if tierID t = [] then tierIDs xs else tierID t # tierIDs xs)" by (simp add: tierIDs_def x)
  have ch: "chainEdges (vID (h1 ! c1) # tierIDs xs) \<subseteq> E"
  proof (cases "tierID t = []")
    case True
    then have "c1 = cur" "h1 = h" using 1 by (auto simp: linkTier_def)
    then show ?thesis using Cons.prems(6) ids True by simp
  next
    case False
    then have "vID (h1 ! c1) = tierID t" using p by simp
    then show ?thesis using Cons.prems(6) False unfolding ids by (simp add: chainEdges_Cons)
  qed
  have "tierID t \<noteq> [] \<longrightarrow> (tierID t, vID (h ! cur)) \<in> E"
    using Cons.prems(6) unfolding ids by (auto simp: chainEdges_Cons)
  from linkTier_edges [OF Cons.prems(1,2,5) this 1] have "edgesIn E h1" .
  then show ?case using p ch Cons.prems 1 x by (intro Cons.IH [of h1 ns1 c1]) auto
qed simp

section \<open>The construction loop\<close>

definition chain :: "int \<Rightarrow> InstanceTopology \<Rightarrow> string list" where
  "chain trimTiers inst =
     InstanceID inst # tierIDs (enumerate 0 (trimmedTiers inst trimTiers))"

text \<open>
  A node is placed when the forest has a root for the last switch of its chain and the rest of the
  chain leads from that root to a leaf with the node's name and instance ID.
\<close>

definition placed :: "graphState \<Rightarrow> string list \<Rightarrow> string \<Rightarrow> bool" where
  "placed st ch name \<longleftrightarrow>
     (\<exists>r a. gm_get (gsForest st) (last ch) = Some r \<and> path (gsHeap st) r (tl (rev ch)) a \<and>
        a < length (gsHeap st) \<and> gsHeap st ! a = \<lparr>vName = name, vID = hd ch, Vertices = []\<rparr>)"

definition stateOk :: "(nat \<times> string) set \<Rightarrow> string set \<Rightarrow> graphState \<Rightarrow> bool" where
  "stateOk K D st \<longleftrightarrow>
     tableOk K D (gsHeap st) (gsNodes st) \<and>
     (\<forall>i a. gm_get (gsForest st) i = Some a \<longrightarrow> a < length (gsHeap st) \<and> vID (gsHeap st ! a) = i) \<and>
     (\<forall>i \<in> D. gm_get (gsI2n st) i = None)"

lemma placed_mono:
  assumes ok: "stateOk K D st" and ok': "stateOk K D' st'" and K: "levelsOk K D" "levelsOk K D'"
    and grow: "grows (gsHeap st) (gsHeap st')" and D: "hd ch \<in> D" "D \<subseteq> D'"
    and forest: "\<And>i a. gm_get (gsForest st) i = Some a \<Longrightarrow> gm_get (gsForest st') i = Some a"
    and p: "placed st ch name"
  shows "placed st' ch name"
proof -
  obtain r a where r: "gm_get (gsForest st) (last ch) = Some r" "path (gsHeap st) r (tl (rev ch)) a"
    and a: "a < length (gsHeap st)" "gsHeap st ! a = \<lparr>vName = name, vID = hd ch, Vertices = []\<rparr>"
    using p by (auto simp: placed_def)
  have t: "tableOk K D (gsHeap st) (gsNodes st)" "tableOk K D' (gsHeap st') (gsNodes st')"
    using ok ok' by (auto simp: stateOk_def)
  have "r < length (gsHeap st)" using ok r(1) by (auto simp: stateOk_def)
  then have "path (gsHeap st') r (tl (rev ch)) a"
    using path_grows [OF grow _ _ r(2)] t(1) by (simp add: tableOk_def)
  moreover have a': "a < length (gsHeap st')" "vName (gsHeap st' ! a) = name" "vID (gsHeap st' ! a) = hd ch"
    using grow a by (auto simp: grows_def)
  moreover have "Vertices (gsHeap st' ! a) = []"
    using tableOk_leafVertices [OF t(2) a'(1) _ K(2)] a'(3) D by auto
  ultimately show ?thesis using forest [OF r(1)] by (auto simp: placed_def)
qed

lemma tableOk_leaf:
  assumes t: "tableOk K D h ns" and i: "i \<notin> D" "i \<notin> snd ` K"
  shows "tableOk K (insert i D) (h @ [\<lparr>vName = n, vID = i, Vertices = []\<rparr>]) ns"
proof -
  let ?h = "h @ [\<lparr>vName = n, vID = i, Vertices = []\<rparr>]"
  have "i \<notin> vID ` set h"
  proof
    assume "i \<in> vID ` set h"
    then obtain a where "a < length h" "vID (h ! a) = i" by (auto simp: in_set_conv_nth)
    then show False using tableOk_id [OF t] i by blast
  qed
  then have "heapOk ?h" using t by (intro heapOk_snoc) (simp_all add: tableOk_def)
  then show ?thesis
  proof (rule tableOkI)
    fix l j a
    assume "gm_get ns (l, j) = Some a"
    then show "a < length ?h \<and> vID (?h ! a) = j \<and> (l, j) \<in> K"
      using tableOk_switch [OF t, of l j a] by (simp add: nth_append)
  next
    fix a
    assume "a < length ?h"
    then consider (new) "a = length h" | (old) "a < length h" by (auto simp: less_Suc_eq)
    then show "vID (?h ! a) \<in> insert i D \<and> Vertices (?h ! a) = [] \<or> (\<exists>l. gm_get ns (l, vID (?h ! a)) = Some a)"
      using tableOk_vertex [OF t] by cases (auto simp: nth_append)
  qed
qed

lemma merge_same [simp]: "mergeVertices (Suc n) a a h = Some h"
  by simp

lemma addInstance_skip: "gm_get (gsI2n st) (InstanceID inst) = None \<Longrightarrow> addInstance fuel trim inst st = Some st"
  by (simp add: addInstance_def)

lemma addInstance_place:
  assumes ok: "stateOk K D st" and K: "levelsOk K (insert (InstanceID inst) D)"
    and name: "gm_get (gsI2n st) (InstanceID inst) = Some name"
    and tiers: "\<forall>(l, t) \<in> set (enumerate 0 (trimmedTiers inst trim)). tierID t \<noteq> [] \<longrightarrow> (l, tierID t) \<in> K"
  obtains st' where "addInstance (Suc n) trim inst st = Some st'"
    and "stateOk K (insert (InstanceID inst) D) st'"
    and "grows (gsHeap st) (gsHeap st')"
    and "\<And>i a. gm_get (gsForest st) i = Some a \<Longrightarrow> gm_get (gsForest st') i = Some a"
    and "gsI2n st' = gm_del (InstanceID inst) (gsI2n st)"
    and "placed st' (chain trim inst) name"
    and "\<And>E. edgesIn E (gsHeap st) \<Longrightarrow> chainEdges (chain trim inst) \<subseteq> E \<Longrightarrow> edgesIn E (gsHeap st')"
    and "set (gm_keys (gsForest st')) \<subseteq> insert (last (chain trim inst)) (set (gm_keys (gsForest st)))"
proof -
  let ?i = "InstanceID inst" and ?D = "insert (InstanceID inst) D"
  let ?leaf = "\<lparr>vName = name, vID = ?i, Vertices = []\<rparr>"
  let ?h0 = "gsHeap st @ [?leaf]" and ?xs = "enumerate 0 (trimmedTiers inst trim)"
  have t: "tableOk K D (gsHeap st) (gsNodes st)" and fo: "\<And>i a. gm_get (gsForest st) i = Some a \<Longrightarrow>
      a < length (gsHeap st) \<and> vID (gsHeap st ! a) = i"
    using ok by (auto simp: stateOk_def)
  have notD: "?i \<notin> D" using ok name by (auto simp: stateOk_def)
  have notK: "?i \<notin> snd ` K" using K by (auto simp: levelsOk_def)
  have t0: "tableOk K ?D ?h0 (gsNodes st)" by (rule tableOk_leaf [OF t notD notK])
  obtain h1 ns tp where l: "foldl linkTier (?h0, gsNodes st, length (gsHeap st)) ?xs = (h1, ns, tp)"
    by (cases "foldl linkTier (?h0, gsNodes st, length (gsHeap st)) ?xs")
  have p: "tableOk K ?D h1 ns \<and> grows ?h0 h1 \<and> tp < length h1 \<and>
      vID (h1 ! tp) = last (chain trim inst) \<and> path h1 tp (tl (rev (chain trim inst))) (length (gsHeap st))"
    using linkTiers_props [OF t0 _ K tiers l] by (simp add: chain_def)
  have grow: "grows (gsHeap st) h1" using p grows_trans [OF grows_append] by blast
  have leaf: "h1 ! length (gsHeap st) = ?leaf \<and> length (gsHeap st) < length h1"
  proof -
    have g: "length (gsHeap st) < length h1" "vName (h1 ! length (gsHeap st)) = name"
      "vID (h1 ! length (gsHeap st)) = ?i" using p by (auto simp: grows_def)
    moreover have "Vertices (h1 ! length (gsHeap st)) = []"
      using tableOk_leafVertices [OF _ g(1) _ K] p g(3) by auto
    ultimately show ?thesis by simp
  qed
  define st1 where "st1 = st\<lparr>gsI2n := gm_del ?i (gsI2n st), gsHeap := h1, gsNodes := ns,
    gsDomains := (if XclrDomainID inst \<noteq> []
      then AddHostInfo (Some \<lparr>Domain = XclrDomainID inst, hostInstanceID = ?i,
             HostName = name, SubDomain = XclrSubDomainID inst\<rparr>) (gsDomains st)
      else gsDomains st),
    gsInstances := (case itInstance inst of
        Some src \<Rightarrow> gm_put ?i (toInstance inst src trim) (gsInstances st)
      | None \<Rightarrow> gsInstances st)\<rparr>"
  define F where "F = (if gm_get (gsForest st) (vID (h1 ! tp)) = None
    then gm_put (vID (h1 ! tp)) tp (gsForest st) else gsForest st)"
  have same: "root = tp" if "gm_get (gsForest st) (vID (h1 ! tp)) = Some root" for root
  proof (rule heapOk_unique [of h1])
    show "heapOk h1" using p by (simp add: tableOk_def)
    show "root < length h1" "vID (h1 ! root) = vID (h1 ! tp)"
      using fo [OF that] grow by (auto simp: grows_def)
  qed (use p in simp)
  have res: "addInstance (Suc n) trim inst st = Some (st1\<lparr>gsForest := F\<rparr>)"
    using name l same
    by (cases "gm_get (gsForest st) (vID (h1 ! tp))")
      (simp_all add: addInstance_def linkTiers_def Let_def st1_def F_def del: mergeVertices.simps)
  have F: "gm_get F (vID (h1 ! tp)) = Some tp" using same by (auto simp: F_def update_conv)
  have F2: "gm_get F i = Some a" if "gm_get (gsForest st) i = Some a" for i a
    using that by (auto simp: F_def update_conv)
  have F3: "a < length h1 \<and> vID (h1 ! a) = i" if "gm_get F i = Some a" for i a
    using that fo [of i a] p grow by (auto simp: F_def update_conv grows_def split: if_splits)
  show thesis
  proof (rule that [OF res])
    show "stateOk K ?D (st1\<lparr>gsForest := F\<rparr>)"
      using ok p F3 by (auto simp: stateOk_def st1_def delete_conv')
    show "grows (gsHeap st) (gsHeap (st1\<lparr>gsForest := F\<rparr>))" using grow by (simp add: st1_def)
    show "gm_get (gsForest (st1\<lparr>gsForest := F\<rparr>)) i = Some a" if "gm_get (gsForest st) i = Some a" for i a
      using F2 [OF that] by simp
    show "gsI2n (st1\<lparr>gsForest := F\<rparr>) = gm_del ?i (gsI2n st)" by (simp add: st1_def)
    show "placed (st1\<lparr>gsForest := F\<rparr>) (chain trim inst) name"
      unfolding placed_def using F p leaf
      by (intro exI [of _ tp] exI [of _ "length (gsHeap st)"]) (simp add: st1_def chain_def)
    show "edgesIn E (gsHeap (st1\<lparr>gsForest := F\<rparr>))" if "edgesIn E (gsHeap st)" "chainEdges (chain trim inst) \<subseteq> E" for E
      using linkTiers_edges [OF t0 _ K tiers edgesIn_leaves [OF that(1)] _ l] that(2) by (simp add: st1_def chain_def)
    show "set (gm_keys (gsForest (st1\<lparr>gsForest := F\<rparr>))) \<subseteq> insert (last (chain trim inst)) (set (gm_keys (gsForest st)))"
      using p by (auto simp: F_def dom_update)
  qed
qed

lemma subset_insert_trans: "x \<in> R \<Longrightarrow> A \<subseteq> insert x B \<Longrightarrow> A \<subseteq> B \<union> R"
  by blast

lemma levelsOk_mono: "levelsOk K A \<Longrightarrow> D \<subseteq> A \<Longrightarrow> levelsOk K D"
  by (auto simp: levelsOk_def)

lemma addInstances_place:
  assumes "stateOk K D st" and "levelsOk K A" and "D \<subseteq> A" and "dom (gm_get (gsI2n st)) \<subseteq> A"
    and "\<forall>inst \<in> set c. \<forall>(l, t) \<in> set (enumerate 0 (trimmedTiers inst trim)).
      tierID t \<noteq> [] \<longrightarrow> (l, tierID t) \<in> K"
    and "distinct (map InstanceID c)"
  shows "\<exists>st' D'. addInstances (Suc n) trim c st = Some st' \<and> D \<subseteq> D' \<and> D' \<subseteq> A \<and> stateOk K D' st' \<and>
    (\<forall>ch name. hd ch \<in> D \<longrightarrow> placed st ch name \<longrightarrow> placed st' ch name) \<and>
    (\<forall>inst \<in> set c. \<forall>name. gm_get (gsI2n st) (InstanceID inst) = Some name \<longrightarrow> placed st' (chain trim inst) name) \<and>
    (\<forall>i. gm_get (gsI2n st') i = (if i \<in> InstanceID ` set c then None else gm_get (gsI2n st) i)) \<and>
    (\<forall>E. edgesIn E (gsHeap st) \<longrightarrow> (\<forall>inst \<in> set c. gm_get (gsI2n st) (InstanceID inst) \<noteq> None \<longrightarrow> chainEdges (chain trim inst) \<subseteq> E) \<longrightarrow>
       edgesIn E (gsHeap st')) \<and>
    set (gm_keys (gsForest st')) \<subseteq> set (gm_keys (gsForest st)) \<union>
      {last (chain trim inst) | inst. inst \<in> set c \<and> gm_get (gsI2n st) (InstanceID inst) \<noteq> None}"
  using assms
proof (induction c arbitrary: st D)
  case (Cons inst c)
  let ?i = "InstanceID inst"
  show ?case
  proof (cases "gm_get (gsI2n st) ?i")
    case None
    obtain st' D' where IH: "addInstances (Suc n) trim c st = Some st'" "D \<subseteq> D'" "D' \<subseteq> A" "stateOk K D' st'"
      "\<forall>ch name. hd ch \<in> D \<longrightarrow> placed st ch name \<longrightarrow> placed st' ch name"
      "\<forall>inst \<in> set c. \<forall>name. gm_get (gsI2n st) (InstanceID inst) = Some name \<longrightarrow> placed st' (chain trim inst) name"
      "\<forall>i. gm_get (gsI2n st') i = (if i \<in> InstanceID ` set c then None else gm_get (gsI2n st) i)"
      "\<forall>E. edgesIn E (gsHeap st) \<longrightarrow> (\<forall>inst \<in> set c. gm_get (gsI2n st) (InstanceID inst) \<noteq> None \<longrightarrow> chainEdges (chain trim inst) \<subseteq> E) \<longrightarrow>
         edgesIn E (gsHeap st')"
      "set (gm_keys (gsForest st')) \<subseteq> set (gm_keys (gsForest st)) \<union>
        {last (chain trim inst) | inst. inst \<in> set c \<and> gm_get (gsI2n st) (InstanceID inst) \<noteq> None}"
      using Cons.IH [OF Cons.prems(1-4)] Cons.prems(5,6) by auto
    have "set (gm_keys (gsForest st')) \<subseteq> set (gm_keys (gsForest st)) \<union>
        {last (chain trim j) | j. j \<in> set (inst # c) \<and> gm_get (gsI2n st) (InstanceID j) \<noteq> None}"
      using IH(9) unfolding list.set by blast
    then show ?thesis
      using IH(1-8) None by (intro exI [of _ st'] exI [of _ D']) (simp add: addInstance_skip)
  next
    case (Some name)
    have sub: "insert ?i D \<subseteq> A" using Some Cons.prems(3,4) by auto
    note lv = levelsOk_mono [OF Cons.prems(2) sub]
    obtain st1 where 1: "addInstance (Suc n) trim inst st = Some st1" "stateOk K (insert ?i D) st1"
      "grows (gsHeap st) (gsHeap st1)"
      "\<And>i a. gm_get (gsForest st) i = Some a \<Longrightarrow> gm_get (gsForest st1) i = Some a"
      "gsI2n st1 = gm_del ?i (gsI2n st)" "placed st1 (chain trim inst) name"
      "\<And>E. edgesIn E (gsHeap st) \<Longrightarrow> chainEdges (chain trim inst) \<subseteq> E \<Longrightarrow> edgesIn E (gsHeap st1)"
      "set (gm_keys (gsForest st1)) \<subseteq> insert (last (chain trim inst)) (set (gm_keys (gsForest st)))"
      using addInstance_place [OF Cons.prems(1) lv Some] Cons.prems(5) by auto
    have i1: "gm_get (gsI2n st1) i = (if i = ?i then None else gm_get (gsI2n st) i)" for i
      by (simp add: 1(5) delete_conv')
    have dom1: "dom (gm_get (gsI2n st1)) \<subseteq> A" using Cons.prems(4) i1 by (auto split: if_splits)
    obtain st' D' where IH: "addInstances (Suc n) trim c st1 = Some st'" "insert ?i D \<subseteq> D'" "D' \<subseteq> A"
      "stateOk K D' st'"
      "\<forall>ch name. hd ch \<in> insert ?i D \<longrightarrow> placed st1 ch name \<longrightarrow> placed st' ch name"
      "\<forall>inst \<in> set c. \<forall>name. gm_get (gsI2n st1) (InstanceID inst) = Some name \<longrightarrow> placed st' (chain trim inst) name"
      "\<forall>i. gm_get (gsI2n st') i = (if i \<in> InstanceID ` set c then None else gm_get (gsI2n st1) i)"
      "\<forall>E. edgesIn E (gsHeap st1) \<longrightarrow> (\<forall>inst \<in> set c. gm_get (gsI2n st1) (InstanceID inst) \<noteq> None \<longrightarrow> chainEdges (chain trim inst) \<subseteq> E) \<longrightarrow>
         edgesIn E (gsHeap st')"
      "set (gm_keys (gsForest st')) \<subseteq> set (gm_keys (gsForest st1)) \<union>
        {last (chain trim inst) | inst. inst \<in> set c \<and> gm_get (gsI2n st1) (InstanceID inst) \<noteq> None}"
      using Cons.IH [OF 1(2) Cons.prems(2) sub dom1] Cons.prems(5,6) by auto
    have old: "placed st1 ch nm" if "hd ch \<in> D" "placed st ch nm" for ch nm
      using placed_mono [OF Cons.prems(1) 1(2) levelsOk_mono [OF Cons.prems(2,3)] lv 1(3) that(1) _ 1(4) that(2)]
      by blast
    have "hd (chain trim inst) = ?i" by (simp add: chain_def)
    then have new: "placed st' (chain trim inst) name" using IH(5) 1(6) by simp
    have rest: "placed st' (chain trim j) nm" if "j \<in> set c" "gm_get (gsI2n st) (InstanceID j) = Some nm" for j nm
      using IH(6) that Cons.prems(6) i1 by (auto simp: image_iff)
    have edges: "edgesIn E (gsHeap st')"
      if "edgesIn E (gsHeap st)" "\<forall>j \<in> set (inst # c). gm_get (gsI2n st) (InstanceID j) \<noteq> None \<longrightarrow> chainEdges (chain trim j) \<subseteq> E" for E
    proof -
      have "edgesIn E (gsHeap st1)" using 1(7) that Some by simp
      moreover have "\<forall>j \<in> set c. gm_get (gsI2n st1) (InstanceID j) \<noteq> None \<longrightarrow> chainEdges (chain trim j) \<subseteq> E"
        using that(2) i1 by simp
      ultimately show ?thesis using IH(8) by blast
    qed
    have forest: "set (gm_keys (gsForest st')) \<subseteq> set (gm_keys (gsForest st)) \<union>
        {last (chain trim j) | j. j \<in> set (inst # c) \<and> gm_get (gsI2n st) (InstanceID j) \<noteq> None}"
    proof -
      let ?R = "{last (chain trim j) | j. j \<in> set (inst # c) \<and> gm_get (gsI2n st) (InstanceID j) \<noteq> None}"
      have 2: "{last (chain trim j) | j. j \<in> set c \<and> gm_get (gsI2n st1) (InstanceID j) \<noteq> None} \<subseteq> ?R" using i1 by auto
      have 3: "last (chain trim inst) \<in> ?R" using Some by auto
      from 3 1(8) have 4: "set (gm_keys (gsForest st1)) \<subseteq> set (gm_keys (gsForest st)) \<union> ?R" by (rule subset_insert_trans)
      from 2 4 IH(9) show ?thesis by (meson Un_least Un_upper2 order_trans)
    qed
    have keep: "\<forall>ch nm. hd ch \<in> D \<longrightarrow> placed st ch nm \<longrightarrow> placed st' ch nm" using old IH(5) by blast
    have all: "\<forall>j \<in> set (inst # c). \<forall>nm. gm_get (gsI2n st) (InstanceID j) = Some nm \<longrightarrow> placed st' (chain trim j) nm"
      using new rest Some by auto
    have names: "\<forall>i. gm_get (gsI2n st') i = (if i \<in> InstanceID ` set (inst # c) then None else gm_get (gsI2n st) i)"
      using IH(7) i1 by auto
    have run: "addInstances (Suc n) trim (inst # c) st = Some st'" using 1(1) IH(1) by simp
    have sub': "D \<subseteq> D'" using IH(2) by blast
    show ?thesis
      by (intro exI [of _ st'] exI [of _ D'] conjI allI impI run sub' IH(3,4) keep all names edges forest)
  qed
qed auto

section \<open>Nodes without topology and the root\<close>

lemma addLeaves:
  assumes "distinct (map fst xs)"
  shows "\<exists>ls vs'. foldl addLeaf (h, vs) xs = (h @ ls, vs') \<and> (\<forall>v \<in> set ls. Vertices v = []) \<and>
    set (gm_keys vs') = set (gm_keys vs) \<union> fst ` set xs \<and>
    (\<forall>(i, n) \<in> set xs. \<exists>a < length (h @ ls). gm_get vs' i = Some (Some a) \<and>
       (h @ ls) ! a = \<lparr>vName = n, vID = i, Vertices = []\<rparr>)"
  using assms
proof (induction xs rule: rev_induct)
  case (snoc x xs)
  obtain i n where x: "x = (i, n)" by (cases x)
  from snoc obtain ls vs' where IH': "\<forall>v \<in> set ls. Vertices v = []" "set (gm_keys vs') = set (gm_keys vs) \<union> fst ` set xs"
    and IH: "foldl addLeaf (h, vs) xs = (h @ ls, vs')"
    "\<forall>(i, n) \<in> set xs. \<exists>a < length (h @ ls). gm_get vs' i = Some (Some a) \<and>
       (h @ ls) ! a = \<lparr>vName = n, vID = i, Vertices = []\<rparr>" by (auto simp del: set_map)
  let ?l = "\<lparr>vName = n, vID = i, Vertices = []\<rparr>"
  have eq: "foldl addLeaf (h, vs) (xs @ [x]) = (h @ (ls @ [?l]), gm_put i (Some (length (h @ ls))) vs')"
    using IH(1) by (simp add: addLeaf_def x)
  have "\<exists>a < length (h @ (ls @ [?l])). gm_get (gm_put i (Some (length (h @ ls))) vs') j = Some (Some a) \<and>
      (h @ (ls @ [?l])) ! a = \<lparr>vName = m, vID = j, Vertices = []\<rparr>" if "(j, m) \<in> set (xs @ [x])" for j m
  proof (cases "j = i")
    case True
    have "i \<notin> fst ` set xs" using snoc.prems x by simp
    then have "(i, m) \<notin> set xs" by (metis fst_conv image_eqI)
    then have "m = n" using that True x by auto
    then show ?thesis
      using True nth_append_length [of "h @ ls" ?l "[]"] by (intro exI [of _ "length (h @ ls)"]) simp
  next
    case False
    then have "(j, m) \<in> set xs" using that x by auto
    then obtain a where "a < length (h @ ls)" "gm_get vs' j = Some (Some a)"
      "(h @ ls) ! a = \<lparr>vName = m, vID = j, Vertices = []\<rparr>" using bspec [OF IH(2)] by blast
    then show ?thesis using False nth_append [of "h @ ls" "[?l]" a]
      by (intro exI [of _ a]) (simp add: nth_append)
  qed
  moreover have "set (gm_keys (gm_put i (Some (length (h @ ls))) vs')) = set (gm_keys vs) \<union> fst ` set (xs @ [x])"
    using IH'(2) by (simp add: dom_update x)
  moreover have "\<forall>v \<in> set (ls @ [?l]). Vertices v = []" using IH'(1) by simp
  ultimately show ?case using eq by blast
qed auto

lemma gm_wf_del: "gm_wf m \<Longrightarrow> gm_wf (gm_del k m)"
  by (simp add: gm_wf_def distinct_delete)

lemma gm_wf_foldl_copy: "gm_wf m \<Longrightarrow> gm_wf (foldl (\<lambda>m ci. gm_copy m (Instances ci)) m cis)"
  by (induction cis arbitrary: m) (simp_all add: gm_wf_copy)

lemma gm_wf_instanceNames: "gm_wf (instanceNames cis)"
  unfolding instanceNames_def by (rule gm_wf_foldl_copy) (simp add: gm_wf_def)

lemma addInstance_wf:
  "addInstance fuel trim inst st = Some st' \<Longrightarrow> gm_wf (gsForest st) \<and> gm_wf (gsI2n st) \<Longrightarrow>
     gm_wf (gsForest st') \<and> gm_wf (gsI2n st')"
  by (auto simp: addInstance_def Let_def gm_wf_put gm_wf_del split: option.splits prod.splits)

lemma addInstances_wf:
  "addInstances fuel trim c st = Some st' \<Longrightarrow> gm_wf (gsForest st) \<and> gm_wf (gsI2n st) \<Longrightarrow>
     gm_wf (gsForest st') \<and> gm_wf (gsI2n st')"
  by (induction c arbitrary: st) (auto split: option.splits dest: addInstance_wf)

lemma addNoTopology_props:
  assumes wf: "gm_wf (gsForest st)" "gm_wf (gsI2n st)"
  obtains ls where "gsHeap (addNoTopology st) = gsHeap st @ ls"
    and "gm_wf (gsForest (addNoTopology st))"
    and "\<And>i. i \<noteq> NoTopology \<Longrightarrow> gm_get (gsForest (addNoTopology st)) i = gm_get (gsForest st) i"
    and "\<And>i n. gm_get (gsI2n st) i = Some n \<Longrightarrow> \<exists>r a. gm_get (gsForest (addNoTopology st)) NoTopology = Some r \<and>
      r < length (gsHeap st @ ls) \<and> path (gsHeap st @ ls) r [i] a \<and> a < length (gsHeap st @ ls) \<and>
      (gsHeap st @ ls) ! a = \<lparr>vName = n, vID = i, Vertices = []\<rparr>"
    and "\<And>E. edgesIn E (gsHeap st) \<Longrightarrow> Pair NoTopology ` set (gm_keys (gsI2n st)) \<subseteq> E \<Longrightarrow> edgesIn E (gsHeap st @ ls)"
    and "set (gm_keys (gsForest (addNoTopology st))) \<subseteq>
      set (gm_keys (gsForest st)) \<union> (if gsI2n st = [] then {} else {NoTopology})"
proof (cases "gsI2n st = []")
  case True
  then show thesis using that [of "[]"] wf by (simp add: addNoTopology_def)
next
  case False
  obtain ls vs where l: "foldl addLeaf (gsHeap st, []) (gsI2n st) = (gsHeap st @ ls, vs)"
    "\<forall>(i, n) \<in> set (gsI2n st). \<exists>a < length (gsHeap st @ ls). gm_get vs i = Some (Some a) \<and>
       (gsHeap st @ ls) ! a = \<lparr>vName = n, vID = i, Vertices = []\<rparr>"
    "\<forall>v \<in> set ls. Vertices v = []" "set (gm_keys vs) = set (gm_keys (gsI2n st))"
    using addLeaves [of "gsI2n st" "gsHeap st" "[]"] wf(2) by (auto simp: gm_wf_def)
  let ?v = "\<lparr>vName = [], vID = NoTopology, Vertices = vs\<rparr>"
  have eq: "addNoTopology st = st\<lparr>gsHeap := gsHeap st @ (ls @ [?v]),
      gsForest := gm_put NoTopology (length (gsHeap st @ ls)) (gsForest st)\<rparr>"
    using False l(1) by (simp add: addNoTopology_def)
  show thesis
  proof (rule that [of "ls @ [?v]"])
    fix i n
    assume "gm_get (gsI2n st) i = Some n"
    then have "(i, n) \<in> set (gsI2n st)" by (rule map_of_SomeD)
    then obtain a where a: "a < length (gsHeap st @ ls)" "gm_get vs i = Some (Some a)"
       "(gsHeap st @ ls) ! a = \<lparr>vName = n, vID = i, Vertices = []\<rparr>" using bspec [OF l(2)] by blast
    have "(gsHeap st @ (ls @ [?v])) ! length (gsHeap st @ ls) = ?v"
      using nth_append_length [of "gsHeap st @ ls" ?v "[]"] by simp
    moreover have "(gsHeap st @ (ls @ [?v])) ! a = (gsHeap st @ ls) ! a"
      using a(1) nth_append [of "gsHeap st @ ls" "[?v]" a] by simp
    ultimately show "\<exists>r a. gm_get (gsForest (addNoTopology st)) NoTopology = Some r \<and>
        r < length (gsHeap st @ (ls @ [?v])) \<and> path (gsHeap st @ (ls @ [?v])) r [i] a \<and> a < length (gsHeap st @ (ls @ [?v])) \<and>
        (gsHeap st @ (ls @ [?v])) ! a = \<lparr>vName = n, vID = i, Vertices = []\<rparr>"
      using a by (intro exI [of _ "length (gsHeap st @ ls)"] exI [of _ a]) (simp add: eq)
  next
    fix E
    assume E: "edgesIn E (gsHeap st)" "Pair NoTopology ` set (gm_keys (gsI2n st)) \<subseteq> E"
    have "edgesIn E ((gsHeap st @ ls) @ [?v])"
    proof (rule edgesIn_snoc [OF edgesIn_leaves [OF E(1) l(3)]])
      fix k assume "gm_get (Vertices ?v) k \<noteq> None"
      then have "k \<in> set (gm_keys (gsI2n st))" unfolding l(4) [symmetric] gm_key_get by auto
      then show "(vID ?v, k) \<in> E" using E(2) by auto
    qed
    then show "edgesIn E (gsHeap st @ (ls @ [?v]))" by simp
  qed (use wf False in \<open>simp_all add: eq gm_wf_put dom_update\<close>)
qed

section \<open>The graph\<close>

text \<open>
  What the construction needs from the provider: instances are listed once, a switch ID is used at
  one level only, and switch IDs, instance IDs and \<open>no-topology\<close> do not clash.
\<close>

definition tierKeys :: "int \<Rightarrow> InstanceTopology \<Rightarrow> (nat \<times> string) list" where
  "tierKeys trim inst =
     filter (\<lambda>(l, i). i \<noteq> []) (enumerate 0 (map tierID (trimmedTiers inst trim)))"

definition topologyOk :: "int \<Rightarrow> ClusterTopology \<Rightarrow> ComputeInstances list \<Rightarrow> bool" where
  "topologyOk trim c cis \<longleftrightarrow>
     distinct (map InstanceID c) \<and>
     (\<forall>x \<in> set (concat (map (tierKeys trim) c)). \<forall>y \<in> set (concat (map (tierKeys trim) c)).
        snd x = snd y \<longrightarrow> x = y) \<and>
     (\<forall>x \<in> set (concat (map (tierKeys trim) c)).
        snd x \<notin> set (gm_keys (instanceNames cis)) \<and> snd x \<noteq> NoTopology) \<and>
     NoTopology \<notin> set (gm_keys (instanceNames cis))"

lemma tierKeys_mem:
  assumes "(l, t) \<in> set (enumerate 0 (trimmedTiers inst trim))" and "tierID t \<noteq> []"
  shows "(l, tierID t) \<in> set (tierKeys trim inst)"
  using assms by (force simp: tierKeys_def in_set_enumerate_eq)

lemma chain_ids: "set (chain trim inst) \<subseteq> insert (InstanceID inst) (snd ` set (tierKeys trim inst))"
proof -
  have "i \<in> snd ` set (tierKeys trim inst)" if mem: "i \<in> set (tierIDs (enumerate 0 (trimmedTiers inst trim)))" for i
  proof -
    obtain x where "x \<in> set (enumerate 0 (trimmedTiers inst trim))" "tierID (snd x) = i" "i \<noteq> []"
      using mem unfolding tierIDs_def by force
    then obtain l t where "(l, t) \<in> set (enumerate 0 (trimmedTiers inst trim))" "tierID t = i" "i \<noteq> []"
      by (metis prod.collapse)
    from tierKeys_mem [OF this(1)] this(2,3) have "(l, i) \<in> set (tierKeys trim inst)" by simp
    then show ?thesis by force
  qed
  then show ?thesis by (auto simp: chain_def)
qed

definition nodeAt :: "heap \<Rightarrow> nat \<Rightarrow> string list \<Rightarrow> string \<Rightarrow> string \<Rightarrow> bool" where
  "nodeAt h r p i name \<longleftrightarrow>
     (\<exists>a < length h. path h r p a \<and> h ! a = \<lparr>vName = name, vID = i, Vertices = []\<rparr>)"

lemma root_path:
  assumes wf: "gm_wf F" and f: "gm_get F k = Some r"
    and r: "path (h @ [\<lparr>vName = [], vID = [], Vertices = gm_copy [] (map (apsnd Some) F)\<rparr>]) r ks a"
  shows "path (h @ [\<lparr>vName = [], vID = [], Vertices = gm_copy [] (map (apsnd Some) F)\<rparr>]) (length h) (k # ks) a"
proof -
  have "gm_wf (map (apsnd Some) F)"
    using wf by (simp add: gm_wf_def comp_def apsnd_def map_prod_def case_prod_unfold)
  moreover have "gm_get (map (apsnd Some) F) k = map_option Some (gm_get F k)"
    by (induction F) auto
  ultimately have "gm_get (gm_copy [] (map (apsnd Some) F)) k = Some (Some r)"
    using f by (simp add: gm_get_copy)
  then show ?thesis using r by simp
qed

lemma gm_keys_copy_subset: "set (gm_keys (gm_copy dst src)) \<subseteq> set (gm_keys dst) \<union> set (gm_keys src)"
proof (induction src arbitrary: dst)
  case (Cons x src)
  obtain k v where x: "x = (k, v)" by (cases x)
  have "gm_copy dst (x # src) = gm_copy (gm_put k v dst) src" by (simp add: gm_copy_def x)
  moreover have "set (gm_keys (gm_put k v dst)) = insert k (set (gm_keys dst))" by (simp add: dom_update)
  ultimately show ?case using Cons.IH [of "gm_put k v dst"] by (simp only: list.map list.set x fst_conv) blast
qed (simp add: gm_copy_def)

lemma path_step_append: "r < length h \<Longrightarrow> path h r [i] a \<Longrightarrow> path (h @ vs) r [i] a"
  by (auto simp: nth_append split: option.splits)

text \<open>
  The edges the graph may have: those of the chains of the requested instances, from the root (which has
  no ID) down, and those to the requested nodes without topology.
\<close>

definition reportedEdges :: "int \<Rightarrow> ClusterTopology \<Rightarrow> ComputeInstances list \<Rightarrow> (string \<times> string) set" where
  "reportedEdges trim c cis =
     (let names = instanceNames cis; missing = set (gm_keys names) - InstanceID ` set c
      in (\<Union>inst \<in> {inst \<in> set c. InstanceID inst \<in> set (gm_keys names)}. chainEdges (chain trim inst @ [[]])) \<union>
         Pair NoTopology ` missing \<union> (if missing = {} then {} else {([], NoTopology)}))"

lemma chainEdges_snoc: "ch \<noteq> [] \<Longrightarrow> chainEdges (ch @ [x]) = insert (x, last ch) (chainEdges ch)"
proof (induction ch)
  case (Cons y ys)
  then show ?case
  proof (cases ys)
    case (Cons z zs)
    then show ?thesis using Cons.IH by (simp add: chainEdges_Cons insert_commute)
  qed (simp add: chainEdges_def)
qed simp

lemma ToGraph_build:
  assumes ok: "topologyOk trim c cis"
  shows "\<exists>h g r. ToGraph (Suc n) c cis trim False = Some (h, g) \<and> Tiers g = Some r \<and>
    (\<forall>inst \<in> set c. \<forall>name. gm_get (instanceNames cis) (InstanceID inst) = Some name \<longrightarrow>
       nodeAt h r (rev (chain trim inst)) (InstanceID inst) name) \<and>
    (\<forall>i name. gm_get (instanceNames cis) i = Some name \<longrightarrow> i \<notin> InstanceID ` set c \<longrightarrow>
       nodeAt h r [NoTopology, i] i name) \<and>
    edgesIn (reportedEdges trim c cis) h"
proof -
  let ?K = "set (concat (map (tierKeys trim) c))" and ?A = "set (gm_keys (instanceNames cis))"
  let ?st = "\<lparr>gsHeap = [], gsForest = [], gsNodes = [], gsDomains = NewDomainMap,
    gsI2n = instanceNames cis, gsInstances = []\<rparr>"
  have fn: "x = y" if "x \<in> ?K" "y \<in> ?K" "snd x = snd y" for x y
    using ok that unfolding topologyOk_def by blast
  have nk: "snd x \<notin> ?A \<and> snd x \<noteq> NoTopology" if "x \<in> ?K" for x
    using ok that unfolding topologyOk_def by blast
  have "levelsOk ?K ?A" unfolding levelsOk_def
  proof (intro conjI allI impI ballI)
    show "l = l'" if "(l, i) \<in> ?K" "(l', i) \<in> ?K" for l l' i using fn [OF that] by simp
    show "case x of (l, i) \<Rightarrow> i \<notin> ?A" if "x \<in> ?K" for x using nk [OF that] by (cases x) simp
  qed
  moreover have "stateOk ?K {} ?st" by (simp add: stateOk_def tableOk_def heapOk_def)
  moreover have "\<forall>inst \<in> set c. \<forall>(l, t) \<in> set (enumerate 0 (trimmedTiers inst trim)).
      tierID t \<noteq> [] \<longrightarrow> (l, tierID t) \<in> ?K" using tierKeys_mem by fastforce
  ultimately obtain st D where st: "addInstances (Suc n) trim c ?st = Some st" "D \<subseteq> ?A" "stateOk ?K D st"
    "\<forall>inst \<in> set c. \<forall>name. gm_get (instanceNames cis) (InstanceID inst) = Some name \<longrightarrow> placed st (chain trim inst) name"
    "\<forall>i. gm_get (gsI2n st) i = (if i \<in> InstanceID ` set c then None else gm_get (instanceNames cis) i)"
    "\<forall>E. edgesIn E [] \<longrightarrow> (\<forall>inst \<in> set c. gm_get (instanceNames cis) (InstanceID inst) \<noteq> None \<longrightarrow> chainEdges (chain trim inst) \<subseteq> E) \<longrightarrow>
       edgesIn E (gsHeap st)"
    "set (gm_keys (gsForest st)) \<subseteq>
      {last (chain trim inst) | inst. inst \<in> set c \<and> gm_get (instanceNames cis) (InstanceID inst) \<noteq> None}"
  proof -
    assume l: "levelsOk ?K ?A" and s: "stateOk ?K {} ?st" and t: "\<forall>inst \<in> set c. \<forall>(l, t) \<in> set (enumerate 0 (trimmedTiers inst trim)).
      tierID t \<noteq> [] \<longrightarrow> (l, tierID t) \<in> ?K"
    have d: "dom (gm_get (gsI2n ?st)) \<subseteq> ?A" by (auto simp: dom_map_of_conv_image_fst)
    have c: "distinct (map InstanceID c)" using ok by (simp add: topologyOk_def)
    show ?thesis
      using addInstances_place [OF s l empty_subsetI d t c, of n] that
      by (auto simp del: set_map)
  qed
  have wf: "gm_wf (gsForest st)" "gm_wf (gsI2n st)"
    using addInstances_wf [OF st(1)] gm_wf_instanceNames by (simp_all add: gm_wf_def)
  obtain ls where ls: "gsHeap (addNoTopology st) = gsHeap st @ ls" "gm_wf (gsForest (addNoTopology st))"
    "\<And>i. i \<noteq> NoTopology \<Longrightarrow> gm_get (gsForest (addNoTopology st)) i = gm_get (gsForest st) i"
    "\<And>i n. gm_get (gsI2n st) i = Some n \<Longrightarrow> \<exists>r a. gm_get (gsForest (addNoTopology st)) NoTopology = Some r \<and>
      r < length (gsHeap st @ ls) \<and> path (gsHeap st @ ls) r [i] a \<and> a < length (gsHeap st @ ls) \<and>
      (gsHeap st @ ls) ! a = \<lparr>vName = n, vID = i, Vertices = []\<rparr>"
    "\<And>E. edgesIn E (gsHeap st) \<Longrightarrow> Pair NoTopology ` set (gm_keys (gsI2n st)) \<subseteq> E \<Longrightarrow> edgesIn E (gsHeap st @ ls)"
    "set (gm_keys (gsForest (addNoTopology st))) \<subseteq>
      set (gm_keys (gsForest st)) \<union> (if gsI2n st = [] then {} else {NoTopology})"
    by (rule addNoTopology_props [OF wf]) blast
  let ?root = "\<lparr>vName = [], vID = [], Vertices = gm_copy [] (map (apsnd Some) (gsForest (addNoTopology st)))\<rparr>"
  let ?h = "(gsHeap st @ ls) @ [?root]" and ?r = "length (gsHeap st @ ls)"
  have built: "\<exists>g. ToGraph (Suc n) c cis trim False = Some (?h, g) \<and> Tiers g = Some ?r"
    using st(1) ls(1) by (simp add: ToGraph_def Let_def)
  have top: "nodeAt ?h ?r (rev (chain trim inst)) (InstanceID inst) name"
    if i: "inst \<in> set c" "gm_get (instanceNames cis) (InstanceID inst) = Some name" for inst name
  proof -
    have "placed st (chain trim inst) name" using st(4) i by blast
    then obtain r a where r: "gm_get (gsForest st) (last (chain trim inst)) = Some r"
      "path (gsHeap st) r (tl (rev (chain trim inst))) a" "a < length (gsHeap st)"
      "gsHeap st ! a = \<lparr>vName = name, vID = InstanceID inst, Vertices = []\<rparr>"
      by (auto simp: placed_def chain_def)
    have hok: "heapOk (gsHeap st)" and rb: "r < length (gsHeap st)"
      using st(3) r(1) unfolding stateOk_def tableOk_def by blast+
    have "last (chain trim inst) \<in> set (chain trim inst)" by (simp add: chain_def)
    with chain_ids [of trim inst] have "last (chain trim inst) \<in> insert (InstanceID inst) (snd ` ?K)"
      using i(1) by auto
    moreover have "InstanceID inst \<in> ?A" using i(2) by (metis domI dom_map_of_conv_image_fst list.set_map)
    then have "InstanceID inst \<noteq> NoTopology" using ok unfolding topologyOk_def by metis
    ultimately have nt: "last (chain trim inst) \<noteq> NoTopology" using nk by (metis imageE insertE)
    have "path ?h r (tl (rev (chain trim inst))) a"
      using path_grows [OF grows_append [of "gsHeap st" "ls @ [?root]"] hok rb r(2)] by simp
    from root_path [OF ls(2) trans [OF ls(3) [OF nt] r(1)] this]
    have "path ?h ?r (last (chain trim inst) # tl (rev (chain trim inst))) a" by simp
    moreover have "last (chain trim inst) # tl (rev (chain trim inst)) = rev (chain trim inst)"
      by (metis chain_def hd_rev list.distinct(1) list.exhaust_sel rev_is_Nil_conv)
    moreover have "?h ! a = gsHeap st ! a" using r(3) by (simp add: nth_append)
    ultimately show ?thesis using r(3,4) unfolding nodeAt_def by (intro exI [of _ a]) simp
  qed
  have leaf: "nodeAt ?h ?r [NoTopology, i] i name"
    if "gm_get (instanceNames cis) i = Some name" "i \<notin> InstanceID ` set c" for i name
  proof -
    have "gm_get (gsI2n st) i = Some name" using that st(5) by simp
    from ls(4) [OF this] obtain r a where r: "gm_get (gsForest (addNoTopology st)) NoTopology = Some r"
      "r < length (gsHeap st @ ls)" "path (gsHeap st @ ls) r [i] a" "a < length (gsHeap st @ ls)"
      "(gsHeap st @ ls) ! a = \<lparr>vName = name, vID = i, Vertices = []\<rparr>" by blast
    note root_path [OF ls(2) r(1) path_step_append [OF r(2,3)]]
    moreover have "?h ! a = (gsHeap st @ ls) ! a" using r(4) nth_append [of "gsHeap st @ ls" "[?root]" a] by simp
    ultimately show ?thesis using r(4,5) unfolding nodeAt_def by (intro exI [of _ a]) simp
  qed
  have "edgesIn (reportedEdges trim c cis) ?h"
  proof (rule edgesIn_snoc)
    let ?E = "reportedEdges trim c cis" and ?missing = "?A - InstanceID ` set c"
    have miss: "set (gm_keys (gsI2n st)) = ?missing"
    proof (rule set_eqI)
      fix k show "k \<in> set (gm_keys (gsI2n st)) \<longleftrightarrow> k \<in> ?missing" unfolding Diff_iff gm_key_get using st(5) by simp
    qed
    have ch: "insert ([], last (chain trim inst)) (chainEdges (chain trim inst)) \<subseteq> ?E"
      if "inst \<in> set c" "gm_get (instanceNames cis) (InstanceID inst) \<noteq> None" for inst
    proof -
      have "InstanceID inst \<in> ?A" unfolding gm_key_get using that(2) by blast
      then show ?thesis using that(1) chainEdges_snoc [of "chain trim inst" "[]"]
        by (auto simp: reportedEdges_def Let_def chain_def simp del: set_map)
    qed
    have no: "Pair NoTopology ` ?missing \<subseteq> ?E" "?missing \<noteq> {} \<Longrightarrow> ([], NoTopology) \<in> ?E"
      by (auto simp: reportedEdges_def Let_def simp del: set_map)
    have "edgesIn ?E (gsHeap st)" using st(6) ch by (simp add: edgesIn_def)
    then show "edgesIn ?E (gsHeap st @ ls)" using ls(5) no(1) miss by metis
    fix k assume "gm_get (Vertices ?root) k \<noteq> None"
    then have "k \<in> set (gm_keys (gm_copy [] (map (apsnd Some) (gsForest (addNoTopology st)))))" unfolding gm_key_get by auto
    then have "k \<in> set (gm_keys (gsForest (addNoTopology st)))" using gm_keys_copy_subset [of "[]" "map (apsnd Some) (gsForest (addNoTopology st))"] by auto
    then consider inst where "inst \<in> set c" "gm_get (instanceNames cis) (InstanceID inst) \<noteq> None" "k = last (chain trim inst)"
      | "k = NoTopology" "gsI2n st \<noteq> []" using ls(6) st(7) by (auto split: if_splits simp del: set_map)
    then show "(vID ?root, k) \<in> ?E"
    proof cases
      case 1
      then show ?thesis using ch by simp
    next
      case 2
      then have "?missing \<noteq> {}" unfolding miss [symmetric] by simp
      then show ?thesis using no(2) 2 by simp
    qed
  qed
  then show ?thesis using built top leaf by blast
qed

text \<open>The result depends on the IDs of the instances and of their tiers only.\<close>

abbreviation idView :: "InstanceTopology \<Rightarrow> string \<times> string list" where
  "idView \<equiv> \<lambda>i. (InstanceID i, map tierID (FabricTiers i))"

lemma trimmed_ids:
  assumes "map tierID (FabricTiers i) = map tierID (FabricTiers j)"
  shows "map tierID (trimmedTiers i trim) = map tierID (trimmedTiers j trim)"
proof -
  have "length (FabricTiers i) = length (FabricTiers j)" using assms by (rule map_eq_imp_length_eq)
  then show ?thesis using assms by (simp add: trimmedTiers_def Let_def flip: take_map)
qed

lemma chain_eq: "chain trim i = InstanceID i # filter (\<lambda>x. x \<noteq> []) (map tierID (trimmedTiers i trim))"
proof -
  have "map (tierID \<circ> snd) (enumerate 0 xs) = map tierID xs" for xs :: "FabricTier list"
    by (metis map_map map_snd_enumerate)
  then show ?thesis by (simp add: chain_def tierIDs_def)
qed

lemma view_chain: "idView i = idView j \<Longrightarrow> chain trim i = chain trim j"
  using trimmed_ids [of i j trim] by (simp add: chain_eq)

lemma view_keys: "idView i = idView j \<Longrightarrow> tierKeys trim i = tierKeys trim j"
  using trimmed_ids [of i j trim] by (simp add: tierKeys_def)

lemma Normalize_set: "idView ` set (Normalize c) = idView ` set c"
  using mset_eq_setD [OF Normalize_ids [of c]] by simp

lemma Normalize_mem:
  assumes "i \<in> set c"
  obtains j where "j \<in> set (Normalize c)" and "idView j = idView i"
proof -
  have "idView i \<in> idView ` set (Normalize c)" unfolding Normalize_set using assms by (rule imageI)
  then show thesis using that by auto
qed

lemma Normalize_topologyOk:
  assumes "topologyOk trim c cis"
  shows "topologyOk trim (Normalize c) cis"
proof -
  have "image_mset fst (mset (map idView (Normalize c))) = image_mset fst (mset (map idView c))"
    by (simp only: Normalize_ids)
  then have "mset (map InstanceID (Normalize c)) = mset (map InstanceID c)"
    by (simp add: image_mset.compositionality comp_def)
  then have "distinct (map InstanceID (Normalize c)) = distinct (map InstanceID c)"
    by (rule mset_eq_imp_distinct_iff)
  moreover have "set (concat (map (tierKeys trim) (Normalize c))) = set (concat (map (tierKeys trim) c))"
  proof -
    have 1: "tierKeys trim i \<in> tierKeys trim ` set c" if "i \<in> set (Normalize c)" for i
    proof -
      have "idView i \<in> idView ` set c" using that Normalize_set [of c] by blast
      then obtain j where "j \<in> set c" "idView i = idView j" by auto
      then show ?thesis using view_keys [of i j] by auto
    qed
    have 2: "tierKeys trim i \<in> tierKeys trim ` set (Normalize c)" if mem: "i \<in> set c" for i
    proof -
      obtain j where "j \<in> set (Normalize c)" "idView j = idView i" by (rule Normalize_mem [OF mem])
      then show ?thesis using view_keys [of j i] by (metis imageI)
    qed
    from 1 2 have "tierKeys trim ` set (Normalize c) = tierKeys trim ` set c" by blast
    then show ?thesis by simp
  qed
  ultimately show ?thesis using assms by (auto simp only: topologyOk_def)
qed

lemma Normalize_ids_set: "InstanceID ` set (Normalize c) = InstanceID ` set c"
proof -
  have "fst ` idView ` set (Normalize c) = fst ` idView ` set c" by (simp only: Normalize_set)
  then show ?thesis by (simp add: image_image)
qed

lemma reportedEdges_Normalize: "reportedEdges trim (Normalize c) cis = reportedEdges trim c cis"
proof -
  let ?A = "set (gm_keys (instanceNames cis))"
  have 1: "\<exists>j \<in> set c. idView i = idView j" if "i \<in> set (Normalize c)" for i
  proof -
    have "idView i \<in> idView ` set c" using that Normalize_set [of c] by blast
    then show ?thesis by blast
  qed
  have 2: "\<exists>j \<in> set (Normalize c). idView i = idView j" if mem: "i \<in> set c" for i
    by (rule Normalize_mem [OF mem]) metis
  have "(\<Union>inst \<in> {inst \<in> set (Normalize c). InstanceID inst \<in> ?A}. chainEdges (chain trim inst @ [[]])) =
      (\<Union>inst \<in> {inst \<in> set c. InstanceID inst \<in> ?A}. chainEdges (chain trim inst @ [[]]))"
  proof (intro equalityI UN_least)
    show "chainEdges (chain trim i @ [[]]) \<subseteq> (\<Union>inst \<in> {inst \<in> set c. InstanceID inst \<in> ?A}. chainEdges (chain trim inst @ [[]]))"
      if i: "i \<in> {inst \<in> set (Normalize c). InstanceID inst \<in> ?A}" for i
    proof -
      obtain j where j: "j \<in> set c" "idView i = idView j" using 1 i by blast
      have "chain trim i = chain trim j" "InstanceID i = InstanceID j" using view_chain [OF j(2)] j(2) by simp_all
      then show ?thesis using j(1) i by (intro UN_upper [THEN subset_trans [rotated]]) auto
    qed
    show "chainEdges (chain trim i @ [[]]) \<subseteq> (\<Union>inst \<in> {inst \<in> set (Normalize c). InstanceID inst \<in> ?A}. chainEdges (chain trim inst @ [[]]))"
      if i: "i \<in> {inst \<in> set c. InstanceID inst \<in> ?A}" for i
    proof -
      obtain j where j: "j \<in> set (Normalize c)" "idView i = idView j" using 2 i by blast
      have "chain trim i = chain trim j" "InstanceID i = InstanceID j" using view_chain [OF j(2)] j(2) by simp_all
      then show ?thesis using j(1) i by (intro UN_upper [THEN subset_trans [rotated]]) auto
    qed
  qed
  then show ?thesis unfolding reportedEdges_def Let_def Normalize_ids_set by (simp only:)
qed

lemma ToGraph_returns:
  assumes "topologyOk trim c cis" and "0 < fuel"
  shows "\<exists>h g. ToGraph fuel c cis trim normalise = Some (h, g)"
proof -
  obtain n where n: "fuel = Suc n" using assms(2) by (cases fuel) auto
  have "ToGraph fuel c cis trim normalise = ToGraph (Suc n) (if normalise then Normalize c else c) cis trim False"
    by (simp add: ToGraph_def n)
  then show ?thesis
    using ToGraph_build [OF assms(1), of n] ToGraph_build [OF Normalize_topologyOk [OF assms(1)], of n] by (cases normalise) auto
qed


definition demoCluster :: ClusterTopology where
  "demoCluster = [demoInstance ''B'' [''s2'', ''r''], demoInstance ''A'' [''s1'', [], ''r2'']]"

definition demoNodes :: "ComputeInstances list" where
  "demoNodes = [\<lparr>Region = ''east'', Instances = [(''A'', ''na''), (''B'', ''nb'')]\<rparr>,
    \<lparr>Region = ''west'', Instances = [(''C'', ''nc'')]\<rparr>]"


section \<open>A switch ID at two levels\<close>

lemma path_closed:
  assumes "\<forall>a \<in> S. \<forall>c. Some c \<in> snd ` set (Vertices (h ! a)) \<longrightarrow> c \<in> S"
  shows "a \<in> S \<Longrightarrow> path h a p b \<Longrightarrow> b \<in> S"
proof (induction p arbitrary: a)
  case (Cons k ks)
  then obtain c where c: "gm_get (Vertices (h ! a)) k = Some (Some c)" "path h c ks b"
    by (auto split: option.splits)
  then have "Some c \<in> snd ` set (Vertices (h ! a))" using map_of_SomeD by force
  then have "c \<in> S" using assms Cons.prems(1) by blast
  then show ?case using c(2) by (rule Cons.IH)
qed simp

definition splitCluster :: ClusterTopology where
  "splitCluster = [demoInstance ''A'' [''x'', [], ''r''], demoInstance ''B'' [''b'', ''x'', ''r'']]"

definition splitHeap :: heap where
  "splitHeap =
     [\<lparr>vName = ''na'', vID = ''A'', Vertices = []\<rparr>,
      \<lparr>vName = [], vID = ''x'', Vertices = [(''A'', Some 0)]\<rparr>,
      \<lparr>vName = [], vID = ''r'', Vertices = [(''x'', Some 5)]\<rparr>,
      \<lparr>vName = ''nb'', vID = ''B'', Vertices = []\<rparr>,
      \<lparr>vName = [], vID = ''b'', Vertices = [(''B'', Some 3)]\<rparr>,
      \<lparr>vName = [], vID = ''x'', Vertices = [(''b'', Some 4)]\<rparr>,
      \<lparr>vName = [], vID = [], Vertices = [(''r'', Some 2)]\<rparr>]"


end
