(* ===== verification/BlockTree.thy ===== *)
theory BlockTree
  imports Domains
begin

text \<open>
  Component \<open>pkg/translate/block_tree.go\<close>: the tree of base blocks behind Slurm's
  \<open>topology/block\<close> output. \<open>buildBlockTree\<close> turns a domain map and the \<open>BlockSizes\<close> list into an
  aggregate tree: every accelerator domain is packed into base blocks of \<open>blockSizes[0]\<close> host slots,
  unused slots are placeholders, and empty blocks are added until the total is a multiple of the
  largest block size.

  A nil \<open>*hostNode.host\<close> is \<open>None\<close>. The three node types behind the Go interface
  \<open>blockTreeNode\<close> are the constructors of one datatype. Vertices of a domain tree are never nil.
\<close>

section \<open>Model\<close>

record baseBlockNode =
  bbId :: string
  bbDomain :: string
  bbLeaves :: "HostInfo option list"
  bbNodeCount :: int

datatype blockTreeNode =
    HostNode "HostInfo option"
  | BaseBlock baseBlockNode
  | Aggregate (aggId: string) (aggChildren: "blockTreeNode list") (aggNodeCount: int)

fun levelIdentifier :: "blockTreeNode \<Rightarrow> string" where
  "levelIdentifier (HostNode None) = []"
| "levelIdentifier (HostNode (Some h)) = HostName h"
| "levelIdentifier (BaseBlock b) = bbDomain b"
| "levelIdentifier (Aggregate i cs n) = i"

subsection \<open>Base blocks\<close>

definition extractDomainID :: "string \<Rightarrow> string" where
  "extractDomainID i = takeWhile (\<lambda>r. r \<notin> {CHR ''/'', CHR ''#'', CHR ''+''}) i"

definition newBaseBlock :: "string \<Rightarrow> HostInfo list \<Rightarrow> int \<Rightarrow> baseBlockNode" where
  "newBaseBlock i hosts baseBlockSize =
     (let placed = take (nat baseBlockSize) hosts
      in \<lparr>bbId = i, bbDomain = extractDomainID i,
          bbLeaves = map Some placed @ replicate (nat baseBlockSize - length placed) None,
          bbNodeCount = int (length (filter (\<lambda>h. HostName h \<noteq> []) placed))\<rparr>)"

definition newEmptyBaseBlock :: "int \<Rightarrow> baseBlockNode" where
  "newEmptyBaseBlock baseBlockSize =
     \<lparr>bbId = [], bbDomain = [],
      bbLeaves = (if baseBlockSize \<le> 0 then [] else replicate (nat baseBlockSize) None),
      bbNodeCount = 0\<rparr>"

text \<open>
  The loop of \<open>splitIntoBaseBlocks\<close>, with the number of blocks made so far and the hosts that
  remain. The base block size is positive in every call (\<open>buildBlockTree\<close> checks it).
\<close>

function splitBlocks :: "string \<Rightarrow> int \<Rightarrow> nat \<Rightarrow> HostInfo list \<Rightarrow> baseBlockNode list" where
  "splitBlocks i baseBlockSize n hosts =
     (if hosts = [] \<or> baseBlockSize \<le> 0 then []
      else
        newBaseBlock (if 0 < n then i @ ''#'' @ itoa (n + 1) else i)
          (take (nat baseBlockSize) hosts) baseBlockSize
        # splitBlocks i baseBlockSize (n + 1) (drop (nat baseBlockSize) hosts))"
  by pat_completeness auto
termination
  by (relation "measure (\<lambda>(i, b, n, hosts). length hosts)") auto

declare splitBlocks.simps [simp del]

definition splitIntoBaseBlocks :: "string \<Rightarrow> HostInfo list \<Rightarrow> int \<Rightarrow> baseBlockNode list" where
  "splitIntoBaseBlocks i hosts baseBlockSize = splitBlocks i baseBlockSize 0 hosts"

definition hostsSorted :: "HostMap \<Rightarrow> HostInfo list" where
  "hostsSorted hosts = sort_key HostName (gm_vals hosts)"

fun collectBaseBlockSlots :: "blockTreeNode \<Rightarrow> baseBlockNode list" where
  "collectBaseBlockSlots (HostNode h) = []"
| "collectBaseBlockSlots (BaseBlock b) = [b]"
| "collectBaseBlockSlots (Aggregate i cs n) = concat (map collectBaseBlockSlots cs)"

subsection \<open>Aggregates\<close>

definition aggregateSlotCapacity :: "int \<Rightarrow> int \<Rightarrow> int" where
  "aggregateSlotCapacity maxSiblingNodes baseBlockSize = doubleUntil baseBlockSize maxSiblingNodes"

function blockTreeGCDLoop :: "int \<Rightarrow> int \<Rightarrow> int" where
  "blockTreeGCDLoop a b = (if b \<noteq> 0 then blockTreeGCDLoop b (goMod a b) else a)"
  by pat_completeness auto
termination
  by (relation "measure (\<lambda>(a, b). nat \<bar>b\<bar>)") (auto simp: goMod_def abs_mult abs_sgn_eq)

declare blockTreeGCDLoop.simps [simp del]

definition blockTreeGCD :: "int \<Rightarrow> int \<Rightarrow> int" where
  "blockTreeGCD a b = (if a = 0 then b else blockTreeGCDLoop a b)"

text \<open>\<open>for len(blocks) < n { append(newEmptyBaseBlock) }\<close>\<close>

definition padBlocks :: "int \<Rightarrow> int \<Rightarrow> baseBlockNode list \<Rightarrow> baseBlockNode list" where
  "padBlocks n baseBlockSize blocks =
     blocks @ replicate (nat n - length blocks) (newEmptyBaseBlock baseBlockSize)"

definition newEmptyChildAggregate :: "int \<Rightarrow> int \<Rightarrow> blockTreeNode" where
  "newEmptyChildAggregate capacity baseBlockSize =
     (let n = nat (goDiv capacity baseBlockSize)
      in Aggregate [] (replicate n (BaseBlock (newEmptyBaseBlock baseBlockSize))) (int n * baseBlockSize))"

definition packHostsIntoAggregate :: "string \<Rightarrow> HostInfo list \<Rightarrow> int \<Rightarrow> int \<Rightarrow> blockTreeNode" where
  "packHostsIntoAggregate i sortedHosts numBaseBlocks baseBlockSize =
     (let blocks = padBlocks numBaseBlocks baseBlockSize
                     (splitIntoBaseBlocks i sortedHosts baseBlockSize)
      in Aggregate i (map BaseBlock blocks) (int (length blocks) * baseBlockSize))"

definition isSingleLevelDomainTree :: "BlockVertex \<Rightarrow> bool" where
  "isSingleLevelDomainTree root =
     (Children root \<noteq> [] \<and> list_all (\<lambda>v. Hosts v \<noteq> None \<and> Children v = []) (gm_vals (Children root)))"

definition vertexHosts :: "BlockVertex \<Rightarrow> HostMap" where
  "vertexHosts v = (case Hosts v of Some hs \<Rightarrow> hs | None \<Rightarrow> [])"

definition toSingleLevelDomainAggregate :: "BlockVertex \<Rightarrow> int \<Rightarrow> int list \<Rightarrow> blockTreeNode" where
  "toSingleLevelDomainAggregate src maxSiblingNodes blockSizes =
     (let baseBlockSize = hd blockSizes;
          numBaseBlocks =
            (if length blockSizes = 1
             then goDiv (ActualNodeCount src + baseBlockSize - 1) baseBlockSize
             else goDiv (aggregateSlotCapacity maxSiblingNodes baseBlockSize) baseBlockSize)
      in packHostsIntoAggregate (bvID src) (hostsSorted (vertexHosts src)) (max numBaseBlocks 1)
           baseBlockSize)"

text \<open>
  Strategy 1 of \<open>toDomainAggregate\<close>, for a vertex with hosts, and the number of base blocks
  strategy 2 starts from.
\<close>

definition leafAggregate :: "BlockVertex \<Rightarrow> HostMap \<Rightarrow> int \<Rightarrow> int list \<Rightarrow> blockTreeNode" where
  "leafAggregate src hosts maxSiblingNodes blockSizes =
     (let baseBlockSize = hd blockSizes;
          numBaseBlocks =
            (if last blockSizes < maxSiblingNodes
             then goDiv (ActualNodeCount src + baseBlockSize - 1) baseBlockSize
             else goDiv (aggregateSlotCapacity maxSiblingNodes baseBlockSize) baseBlockSize)
      in packHostsIntoAggregate (bvID src) (hostsSorted hosts) (max numBaseBlocks 1) baseBlockSize)"

definition interiorBaseBlocks :: "int \<Rightarrow> int list \<Rightarrow> int" where
  "interiorBaseBlocks maxSiblingNodes blockSizes =
     (let baseBlockSize = hd blockSizes;
          nodeCount = aggregateSlotCapacity (min (last blockSizes) maxSiblingNodes) baseBlockSize
      in max (goDiv nodeCount baseBlockSize) 1)"

text \<open>
  The rounding step of \<open>recurseChildrenIntoAggregate\<close>: \<open>actual\<close> base blocks came out of the
  children, \<open>numBaseBlocks\<close> is the lower bound.
\<close>

definition alignedBaseBlocks :: "int \<Rightarrow> int \<Rightarrow> int list \<Rightarrow> int" where
  "alignedBaseBlocks actual numBaseBlocks blockSizes =
     (let baseBlockSize = hd blockSizes
      in if actual > numBaseBlocks \<and> length blockSizes \<ge> 2 then
           (let actualNodes = actual * baseBlockSize;
                alignSize = (case find (\<lambda>bs. bs \<ge> actualNodes) (tl blockSizes) of
                               Some bs \<Rightarrow> bs | None \<Rightarrow> actualNodes);
                aggregateWidth = goDiv (aggregateSlotCapacity alignSize baseBlockSize) baseBlockSize
            in goDiv (actual + aggregateWidth - 1) aggregateWidth * aggregateWidth)
         else numBaseBlocks)"

text \<open>\<open>recurseChildrenIntoAggregate\<close>, given the base blocks its recursive calls returned.\<close>

definition recurseChildrenIntoAggregate ::
  "BlockVertex \<Rightarrow> baseBlockNode list \<Rightarrow> int \<Rightarrow> int list \<Rightarrow> blockTreeNode" where
  "recurseChildrenIntoAggregate src slots numBaseBlocks blockSizes =
     (let n = alignedBaseBlocks (int (length slots)) numBaseBlocks blockSizes;
          blocks = padBlocks n (hd blockSizes) slots
      in Aggregate (bvID src) (map BaseBlock blocks) (int (length blocks) * hd blockSizes))"

lemma child_size:
  "gm_get cs name = Some c \<Longrightarrow> size c < Suc (size_list (size_prod (\<lambda>x. 0) size) cs)"
  by (induction cs) (auto split: if_splits)

function toDomainAggregate :: "BlockVertex \<Rightarrow> int \<Rightarrow> int list \<Rightarrow> blockTreeNode" where
  "toDomainAggregate src maxSiblingNodes blockSizes =
     (case Hosts src of
        Some hosts \<Rightarrow> leafAggregate src hosts maxSiblingNodes blockSizes
      | None \<Rightarrow>
          recurseChildrenIntoAggregate src
            (concat (map (\<lambda>name.
               case gm_get (Children src) name of
                 None \<Rightarrow> []
               | Some child \<Rightarrow>
                   collectBaseBlockSlots (toDomainAggregate child (MaxChildNodeCount src) blockSizes))
               (sorted_keys (Children src))))
            (interiorBaseBlocks maxSiblingNodes blockSizes) blockSizes)"
  by pat_completeness auto
termination
proof (relation "measure (\<lambda>(src, _, _). size src)", goal_cases)
  case (2 src m bs name child)
  then show ?case by (cases src) (auto dest: child_size)
qed simp

declare toDomainAggregate.simps [simp del]

subsection \<open>The root\<close>

text \<open>The padding loop of \<open>toRootAggregate\<close>; it is entered with \<open>childCapacity > 0\<close> only.\<close>

function padRoot :: "int \<Rightarrow> int \<Rightarrow> int \<Rightarrow> blockTreeNode list \<Rightarrow> int \<Rightarrow> blockTreeNode list \<times> int" where
  "padRoot targetCount childCapacity baseBlockSize children nodeCount =
     (if 0 < childCapacity \<and> nodeCount < targetCount
      then padRoot targetCount childCapacity baseBlockSize
             (children @ [newEmptyChildAggregate childCapacity baseBlockSize]) (nodeCount + childCapacity)
      else (children, nodeCount))"
  by pat_completeness auto
termination
  by (relation "measure (\<lambda>(t, c, b, cs, n). nat (t - n))") auto

declare padRoot.simps [simp del]

definition domainAggregate :: "BlockVertex \<Rightarrow> int list \<Rightarrow> BlockVertex \<Rightarrow> blockTreeNode" where
  "domainAggregate root blockSizes domain =
     (if isSingleLevelDomainTree root
      then toSingleLevelDomainAggregate domain (MaxChildNodeCount root) blockSizes
      else toDomainAggregate domain (MaxChildNodeCount root) blockSizes)"

definition rootChildren :: "BlockVertex \<Rightarrow> int list \<Rightarrow> blockTreeNode list" where
  "rootChildren root blockSizes =
     concat (map (\<lambda>name. case ChildAt (Some root) name of
                     None \<Rightarrow> []
                   | Some domain \<Rightarrow> [domainAggregate root blockSizes domain])
               (sorted_keys (Children root)))"

definition childCapacityOf :: "blockTreeNode list \<Rightarrow> int" where
  "childCapacityOf cs =
     foldl (\<lambda>cap c. if cap = 0 then aggNodeCount c else blockTreeGCD cap (aggNodeCount c)) 0 cs"

definition toRootAggregate :: "BlockVertex \<Rightarrow> int list \<Rightarrow> go_panic + blockTreeNode option" where
  "toRootAggregate root blockSizes =
     (if blockSizes = [] \<or> hd blockSizes \<le> 0 then Inr None
      else
        (let baseBlockSize = hd blockSizes;
             rootDesired = last blockSizes;
             children = rootChildren root blockSizes;
             nodeCount = sum_list (map aggNodeCount children);
             childCapacity = childCapacityOf children
         in if nodeCount > 0 \<and> childCapacity > 0 then
              (if rootDesired = 0 then Inl DivideByZero
               else if goMod nodeCount rootDesired \<noteq> 0 then
                 (let g = blockTreeGCD childCapacity rootDesired;
                      step = goDiv childCapacity g * rootDesired;
                      targetCount = goDiv (nodeCount + step - 1) step * step;
                      (cs, n) = padRoot targetCount childCapacity baseBlockSize children nodeCount
                  in Inr (Some (Aggregate (bvID root) cs n)))
               else Inr (Some (Aggregate (bvID root) children nodeCount)))
            else Inr (Some (Aggregate (bvID root) children nodeCount))))"

definition buildBlockTree :: "DomainMap \<Rightarrow> int list \<Rightarrow> go_panic + blockTreeNode option" where
  "buildBlockTree domains blockSizes =
     (if blockSizes = [] \<or> hd blockSizes \<le> 0 then Inr None
      else toRootAggregate (GetDomainTree domains) blockSizes)"

section \<open>Packing hosts into base blocks\<close>

definition blockHosts :: "baseBlockNode \<Rightarrow> HostInfo list" where
  "blockHosts b = List.map_filter id (bbLeaves b)"

definition slotHosts :: "baseBlockNode list \<Rightarrow> HostInfo list" where
  "slotHosts blocks = concat (map blockHosts blocks)"

definition blockOk :: "int \<Rightarrow> baseBlockNode \<Rightarrow> bool" where
  "blockOk base b \<longleftrightarrow>
     length (bbLeaves b) = nat base \<and>
     bbNodeCount b = int (length (filter (\<lambda>h. HostName h \<noteq> []) (blockHosts b)))"

lemma map_filter_id_pad [simp]: "List.map_filter id (map Some xs @ replicate n None) = xs"
  by (induction xs) (induction n, auto simp: List.map_filter_simps)

lemma newBaseBlock_hosts [simp]: "blockHosts (newBaseBlock i hosts base) = take (nat base) hosts"
  by (simp add: newBaseBlock_def blockHosts_def Let_def)

lemma newBaseBlock_ok: "blockOk base (newBaseBlock i hosts base)"
  using newBaseBlock_hosts [of i hosts base] by (simp add: blockOk_def newBaseBlock_def Let_def)

lemma newEmptyBaseBlock_hosts [simp]: "blockHosts (newEmptyBaseBlock base) = []"
  using map_filter_id_pad [of "[]" "nat base"]
  by (auto simp: newEmptyBaseBlock_def blockHosts_def List.map_filter_simps)

lemma newEmptyBaseBlock_ok: "0 < base \<Longrightarrow> blockOk base (newEmptyBaseBlock base)"
  using newEmptyBaseBlock_hosts [of base] by (simp add: blockOk_def newEmptyBaseBlock_def)

lemma ceil_div: "0 < (b::int) \<Longrightarrow> (n + b - 1) div b = 1 + (n - 1) div b"
  using div_add_self2 [of b "n - 1"] by (simp add: algebra_simps)

lemma splitBlocks_props:
  assumes "0 < base"
  shows "slotHosts (splitBlocks i base n hosts) = hosts \<and>
    list_all (blockOk base) (splitBlocks i base n hosts) \<and>
    int (length (splitBlocks i base n hosts)) = (int (length hosts) + base - 1) div base"
  using assms
proof (induction i base n hosts rule: splitBlocks.induct)
  case (1 i base n hosts)
  show ?case
  proof (cases "hosts = []")
    case True
    then show ?thesis using "1.prems" by (simp add: splitBlocks.simps slotHosts_def)
  next
    case False
    let ?rest = "splitBlocks i base (n + 1) (drop (nat base) hosts)"
    have IH: "slotHosts ?rest = drop (nat base) hosts" "list_all (blockOk base) ?rest"
      "int (length ?rest) = (int (length (drop (nat base) hosts)) + base - 1) div base"
      using "1.IH" False "1.prems" by auto
    have "(int (length hosts) + base - 1) div base =
        1 + (int (length (drop (nat base) hosts)) + base - 1) div base"
    proof (cases "base \<le> int (length hosts)")
      case True
      then have "int (length (drop (nat base) hosts)) = int (length hosts) - base"
        using "1.prems" by (simp add: of_nat_diff)
      then show ?thesis using ceil_div [OF "1.prems", of "int (length hosts)"] by simp
    next
      case lt: False
      have "(int (length hosts) + base - 1) div base = 1"
        using lt False "1.prems" by (intro int_div_pos_eq [where r = "int (length hosts) - 1"]) auto
      then show ?thesis using lt "1.prems" by simp
    qed
    then show ?thesis
      using IH False "1.prems" newBaseBlock_ok
      by (simp add: splitBlocks.simps [of i base n hosts] slotHosts_def)
  qed
qed

lemma splitIntoBaseBlocks_props:
  assumes "0 < base"
  shows "slotHosts (splitIntoBaseBlocks i hosts base) = hosts"
    and "\<forall>b \<in> set (splitIntoBaseBlocks i hosts base). blockOk base b"
    and "int (length (splitIntoBaseBlocks i hosts base)) = (int (length hosts) + base - 1) div base"
  using splitBlocks_props [OF assms, of i 0 hosts]
  by (simp_all add: splitIntoBaseBlocks_def list_all_iff)

lemma slotHosts_Nil [simp]: "slotHosts [] = []"
  by (simp add: slotHosts_def)

lemma slotHosts_append [simp]: "slotHosts (xs @ ys) = slotHosts xs @ slotHosts ys"
  by (simp add: slotHosts_def)

lemma slotHosts_empty_blocks [simp]: "slotHosts (replicate n (newEmptyBaseBlock base)) = []"
  by (induction n) (simp_all add: slotHosts_def)

lemma padBlocks_hosts [simp]: "slotHosts (padBlocks n base blocks) = slotHosts blocks"
  by (simp add: padBlocks_def)

lemma padBlocks_length [simp]: "length (padBlocks n base blocks) = max (length blocks) (nat n)"
  by (simp add: padBlocks_def)

lemma padBlocks_ok:
  "0 < base \<Longrightarrow> \<forall>b \<in> set blocks. blockOk base b \<Longrightarrow> \<forall>b \<in> set (padBlocks n base blocks). blockOk base b"
  by (auto simp: padBlocks_def newEmptyBaseBlock_ok)

section \<open>Aggregates\<close>

text \<open>
  An aggregate made by the packing routines: a non-empty list of full-width base blocks whose node
  count is the slot capacity, and which carries exactly the given hosts.
\<close>

definition aggOk :: "int \<Rightarrow> blockTreeNode \<Rightarrow> HostInfo list \<Rightarrow> bool" where
  "aggOk base t hosts \<longleftrightarrow>
     (\<exists>i blocks. t = Aggregate i (map BaseBlock blocks) (int (length blocks) * base) \<and>
        blocks \<noteq> [] \<and> (\<forall>b \<in> set blocks. blockOk base b) \<and> mset (slotHosts blocks) = mset hosts)"

lemma collect_blocks [simp]: "concat (map (collectBaseBlockSlots \<circ> BaseBlock) blocks) = blocks"
  by (induction blocks) auto

lemma aggOk_slots:
  assumes "aggOk base t hosts"
  shows "\<forall>b \<in> set (collectBaseBlockSlots t). blockOk base b"
    and "mset (slotHosts (collectBaseBlockSlots t)) = mset hosts"
    and "aggNodeCount t = int (length (collectBaseBlockSlots t)) * base"
    and "collectBaseBlockSlots t \<noteq> []"
  using assms by (auto simp: aggOk_def)

lemma packHosts_ok:
  assumes "0 < base" and "1 \<le> n"
  shows "aggOk base (packHostsIntoAggregate i hosts n base) hosts"
proof -
  let ?b = "padBlocks n base (splitIntoBaseBlocks i hosts base)"
  have "0 < length ?b" using assms(2) by simp
  then have "?b \<noteq> []" by blast
  then show ?thesis
    using assms padBlocks_ok [OF assms(1) splitIntoBaseBlocks_props(2) [OF assms(1)]]
      splitIntoBaseBlocks_props(1) [OF assms(1)]
    by (auto simp: aggOk_def packHostsIntoAggregate_def Let_def)
qed

lemma mset_hostsSorted [simp]: "mset (hostsSorted hosts) = mset (gm_vals hosts)"
  by (simp add: hostsSorted_def)

lemma aggOk_perm: "mset hs = mset hs' \<Longrightarrow> aggOk base t hs = aggOk base t hs'"
  by (simp add: aggOk_def)

lemma packSorted_ok:
  "0 < base \<Longrightarrow> 1 \<le> n \<Longrightarrow>
     aggOk base (packHostsIntoAggregate i (hostsSorted hosts) n base) (gm_vals hosts)"
  using packHosts_ok [of base n i "hostsSorted hosts"] aggOk_perm [OF mset_hostsSorted] by blast

lemma toSingleLevel_ok:
  "0 < hd bs \<Longrightarrow>
     aggOk (hd bs) (toSingleLevelDomainAggregate src m bs) (gm_vals (vertexHosts src))"
  unfolding toSingleLevelDomainAggregate_def Let_def by (intro packSorted_ok) auto

lemma leafAggregate_ok: "0 < hd bs \<Longrightarrow> aggOk (hd bs) (leafAggregate src hosts m bs) (gm_vals hosts)"
  unfolding leafAggregate_def Let_def by (intro packSorted_ok) auto

text \<open>All hosts under a vertex, and vertices whose child maps have distinct keys.\<close>

primrec vertexAllHosts :: "BlockVertex \<Rightarrow> HostInfo list" where
  "vertexAllHosts (BlockVertex i a m hs cs) =
     (case hs of Some hosts \<Rightarrow> gm_vals hosts
      | None \<Rightarrow> concat (map snd (map (map_prod id vertexAllHosts) cs)))"

primrec vertexOk :: "BlockVertex \<Rightarrow> bool" where
  "vertexOk (BlockVertex i a m hs cs) =
     (gm_wf cs \<and> list_all snd (map (map_prod id vertexOk) cs))"

lemma interiorBaseBlocks_pos: "1 \<le> interiorBaseBlocks m bs"
  by (simp add: interiorBaseBlocks_def Let_def)

lemma alignedBaseBlocks_ge:
  assumes "1 \<le> n" and "0 < hd bs" and "n < actual \<longrightarrow> 0 < actual"
  shows "1 \<le> max actual (alignedBaseBlocks actual n bs)"
  using assms by (auto simp: alignedBaseBlocks_def Let_def)

lemma recurse_ok:
  assumes "0 < hd bs" and "1 \<le> n" and "\<forall>b \<in> set slots. blockOk (hd bs) b"
  shows "aggOk (hd bs) (recurseChildrenIntoAggregate src slots n bs) (slotHosts slots)"
proof -
  let ?n = "alignedBaseBlocks (int (length slots)) n bs"
  have "1 \<le> max (int (length slots)) ?n" using assms by (intro alignedBaseBlocks_ge) auto
  then have "0 < length (padBlocks ?n (hd bs) slots)" by auto
  then have "padBlocks ?n (hd bs) slots \<noteq> []" by blast
  then show ?thesis
    using padBlocks_ok [OF assms(1,3)]
    by (auto simp: aggOk_def recurseChildrenIntoAggregate_def Let_def simp del: padBlocks_length)
qed

lemma toDomainAggregate_leaf:
  "toDomainAggregate (BlockVertex i a k (Some hosts) cs) m bs =
     leafAggregate (BlockVertex i a k (Some hosts) cs) hosts m bs"
  by (subst toDomainAggregate.simps) simp

lemma toDomainAggregate_interior:
  "toDomainAggregate (BlockVertex i a k None cs) m bs =
     recurseChildrenIntoAggregate (BlockVertex i a k None cs)
       (concat (map (\<lambda>name. case gm_get cs name of
            None \<Rightarrow> []
          | Some child \<Rightarrow> collectBaseBlockSlots (toDomainAggregate child k bs)) (sorted_keys cs)))
       (interiorBaseBlocks m bs) bs"
  by (subst toDomainAggregate.simps) (simp only: BlockVertex.sel option.case)

lemma slotHosts_concat: "slotHosts (concat xss) = concat (map slotHosts xss)"
  by (induction xss) (simp_all add: slotHosts_def)

lemma toDomainAggregate_ok:
  "0 < hd bs \<Longrightarrow> vertexOk src \<Longrightarrow> aggOk (hd bs) (toDomainAggregate src m bs) (vertexAllHosts src)"
proof (induction src m bs rule: toDomainAggregate.induct)
  case (1 src m bs)
  obtain i a k hs cs where src: "src = BlockVertex i a k hs cs" by (cases src)
  show ?case
  proof (cases hs)
    case (Some hosts)
    then show ?thesis
      using leafAggregate_ok [OF "1.prems"(1)] src by (simp add: toDomainAggregate_leaf)
  next
    case None
    let ?f = "\<lambda>name c. collectBaseBlockSlots (toDomainAggregate c k bs)"
    let ?slots = "concat (map (\<lambda>name. case gm_get cs name of None \<Rightarrow> [] | Some c \<Rightarrow> ?f name c)
        (sorted_keys cs))"
    have wf: "gm_wf cs" using "1.prems"(2) src by simp
    have ok: "aggOk (hd bs) (toDomainAggregate c k bs) (vertexAllHosts c)"
      if "(name, c) \<in> set cs" for name c
      using that "1.IH" [of name c] "1.prems" src None gm_get_Some_mem [OF wf]
      by (force simp: list_all_iff)
    have "\<forall>b \<in> set ?slots. blockOk (hd bs) b"
    proof
      fix b assume "b \<in> set ?slots"
      then obtain name c where "gm_get cs name = Some c" "b \<in> set (?f name c)"
        by (rule visit_mem)
      then show "blockOk (hd bs) b" using aggOk_slots(1) [OF ok] map_of_SomeD by fastforce
    qed
    then have agg: "aggOk (hd bs) (toDomainAggregate src m bs) (slotHosts ?slots)"
      using recurse_ok [OF "1.prems"(1) interiorBaseBlocks_pos] src None
      by (simp add: toDomainAggregate_interior)
    have "slotHosts ?slots =
        concat (map (\<lambda>name. case gm_get cs name of None \<Rightarrow> [] | Some c \<Rightarrow> slotHosts (?f name c))
          (sorted_keys cs))"
      unfolding slotHosts_concat map_map
      by (intro arg_cong [where f = concat] map_cong) (auto simp: slotHosts_def split: option.splits)
    then have "mset (slotHosts ?slots) = (\<Sum>(name, c) \<in># mset cs. mset (slotHosts (?f name c)))"
      by (simp only: mset_sorted_keys_visit [OF wf])
    also have "\<dots> = (\<Sum>(name, c) \<in># mset cs. mset (vertexAllHosts c))"
      using ok aggOk_slots(2) by (intro arg_cong [where f = sum_mset] image_mset_cong) fastforce
    also have "\<dots> = mset (vertexAllHosts src)"
      using src None by (simp add: mset_concat_map comp_def case_prod_unfold)
    finally show ?thesis using agg aggOk_perm by blast
  qed
qed

section \<open>The root aggregate\<close>

lemma sum_filter_partition:
  "finite A \<Longrightarrow> f ` set_mset M \<subseteq> A \<Longrightarrow> (\<Sum>k \<in> A. {#x \<in># M. f x = k#}) = M"
proof (induction M)
  case (add x M)
  have "(\<Sum>k \<in> A. {#y \<in># add_mset x M. f y = k#}) =
      (\<Sum>k \<in> A. (if f x = k then {#x#} else {#}) + {#y \<in># M. f y = k#})"
    by (intro sum.cong) auto
  also have "\<dots> = (\<Sum>k \<in> A. if f x = k then {#x#} else {#}) + M"
    using add by (simp add: sum.distrib)
  also have "\<dots> = add_mset x M" using add.prems by (simp add: sum.delta)
  finally show ?case .
qed simp

lemma domainVertex_ok: "hostsOk d hosts \<Longrightarrow> vertexOk (domainVertex d hosts)"
proof -
  assume ok: "hostsOk d hosts"
  have "vertexOk c" if "(k, c) \<in> set (foldl (placeHost d) [] (gm_vals hosts))" for k c
    using that placeHosts_get [OF hostsOk_distinct [OF ok], of d k]
      gm_get_Some_mem [OF placeHosts_wf, of d "gm_vals hosts" k c]
    by (auto simp: subVertex_def split: if_splits)
  then show ?thesis by (auto simp: domainVertex_def Let_def placeHosts_wf list_all_iff)
qed

lemma domainVertex_hosts:
  assumes ok: "hostsOk d hosts"
  shows "mset (vertexAllHosts (domainVertex d hosts)) = mset (gm_vals hosts)"
proof (cases "list_ex (\<lambda>host. SubDomain host \<noteq> []) (gm_vals hosts)")
  case False
  then show ?thesis using ok gm_copy_fresh [of hosts] by (simp add: domainVertex_def hostsOk_def)
next
  case True
  let ?hs = "gm_vals hosts"
  let ?cs = "foldl (placeHost d) [] ?hs"
  have wf: "gm_wf ?cs" by (rule placeHosts_wf)
  have child: "vertexAllHosts c = subHosts d ?hs k" if "(k, c) \<in> set ?cs" for k c
    using that placeHosts_get [OF hostsOk_distinct [OF ok], of d k] gm_get_Some_mem [OF wf, of k c]
    by (auto simp: subVertex_def keyed_def comp_def split: if_splits)
  have "mset (vertexAllHosts (domainVertex d hosts)) = (\<Sum>(k, c) \<in># mset ?cs. mset (vertexAllHosts c))"
    using True by (simp add: domainVertex_def Let_def mset_concat_map comp_def case_prod_unfold)
  also have "\<dots> = (\<Sum>(k, c) \<in># mset ?cs. mset (subHosts d ?hs k))"
    using child by (intro arg_cong [where f = sum_mset] image_mset_cong) auto
  also have "\<dots> = (\<Sum>k \<in># mset (gm_keys ?cs). mset (subHosts d ?hs k))"
    by (simp add: image_mset.compositionality comp_def case_prod_unfold)
  also have "\<dots> = (\<Sum>k \<in> set (gm_keys ?cs). mset (subHosts d ?hs k))"
    unfolding sum_unfold_sum_mset using wf by (simp only: gm_wf_def mset_set_set)
  also have "\<dots> = (\<Sum>k \<in> subName d ` set ?hs. {#h \<in># mset ?hs. subName d h = k#})"
    using placeHosts_keys [OF hostsOk_distinct [OF ok], of d] by (simp add: subHosts_def)
  also have "\<dots> = mset ?hs"
    by (rule sum_filter_partition) auto
  finally show ?thesis .
qed

lemma domainAggregate_ok:
  assumes m: "domainsOk m" and mem: "(d, hosts) \<in> set m" and base: "0 < hd bs"
  shows "aggOk (hd bs) (domainAggregate (GetDomainTree m) bs (domainVertex d hosts)) (gm_vals hosts)"
proof (cases "isSingleLevelDomainTree (GetDomainTree m)")
  case True
  have wf: "gm_wf m" "gm_wf hosts" using m mem by (auto simp: domainsOk_def hostsOk_def)
  have "(d, domainVertex d hosts) \<in> set (Children (GetDomainTree m))"
    using GetDomainTree_children [OF wf(1)] mem by auto
  with True have "Hosts (domainVertex d hosts) \<noteq> None"
    by (auto simp: isSingleLevelDomainTree_def list_all_iff)
  then have "vertexHosts (domainVertex d hosts) = hosts"
    using gm_copy_fresh [OF wf(2)] by (auto simp: domainVertex_def vertexHosts_def Let_def split: if_splits)
  then show ?thesis
    using toSingleLevel_ok [OF base, of "domainVertex d hosts"] True by (simp add: domainAggregate_def)
next
  case False
  have ok: "hostsOk d hosts" using m mem by (auto simp: domainsOk_def)
  show ?thesis
    using toDomainAggregate_ok [OF base domainVertex_ok [OF ok]] False
      aggOk_perm [OF domainVertex_hosts [OF ok]] by (simp add: domainAggregate_def)
qed

lemma rootChildren_eq:
  assumes "gm_wf m"
  shows "rootChildren (GetDomainTree m) bs =
    concat (map (\<lambda>d. case gm_get m d of None \<Rightarrow> []
                | Some hosts \<Rightarrow> [domainAggregate (GetDomainTree m) bs (domainVertex d hosts)])
      (sorted_keys m))"
proof -
  have "sorted_keys (Children (GetDomainTree m)) = sorted_keys m"
    using GetDomainTree_children [OF assms] by (simp add: sorted_keys_def comp_def case_prod_unfold)
  then show ?thesis
    unfolding rootChildren_def ChildAt_def
    by (intro arg_cong [where f = concat] map_cong)
      (auto simp: GetDomainTree_get [OF assms] split: option.splits)
qed

lemma rootChildren_ok:
  assumes m: "domainsOk m" and base: "0 < hd bs"
  shows "\<forall>c \<in> set (rootChildren (GetDomainTree m) bs). \<exists>hosts. aggOk (hd bs) c hosts"
    and "mset (slotHosts (concat (map collectBaseBlockSlots (rootChildren (GetDomainTree m) bs)))) =
      mset (allHosts m)"
proof -
  have wf: "gm_wf m" using m by (simp add: domainsOk_def)
  let ?agg = "\<lambda>d hosts. domainAggregate (GetDomainTree m) bs (domainVertex d hosts)"
  show "\<forall>c \<in> set (rootChildren (GetDomainTree m) bs). \<exists>hosts. aggOk (hd bs) c hosts"
    unfolding rootChildren_eq [OF wf]
    by (fastforce elim!: visit_mem dest: domainAggregate_ok [OF m map_of_SomeD base])
  let ?f = "\<lambda>d hosts. slotHosts (collectBaseBlockSlots (?agg d hosts))"
  have "slotHosts (concat (map collectBaseBlockSlots (rootChildren (GetDomainTree m) bs))) =
      concat (map (\<lambda>d. case gm_get m d of None \<Rightarrow> [] | Some hosts \<Rightarrow> ?f d hosts) (sorted_keys m))"
    unfolding rootChildren_eq [OF wf] slotHosts_concat map_map concat_map_concat_map
    by (intro arg_cong [where f = concat] map_cong) (auto split: option.splits)
  then have "mset (slotHosts (concat (map collectBaseBlockSlots (rootChildren (GetDomainTree m) bs)))) =
      (\<Sum>(d, hosts) \<in># mset m. mset (?f d hosts))"
    by (simp only: mset_sorted_keys_visit [OF wf])
  also have "\<dots> = (\<Sum>(d, hosts) \<in># mset m. mset (gm_vals hosts))"
    using aggOk_slots(2) [OF domainAggregate_ok [OF m _ base]]
    by (intro arg_cong [where f = sum_mset] image_mset_cong) auto
  also have "\<dots> = mset (allHosts m)"
    by (simp add: allHosts_def mset_concat_map comp_def case_prod_unfold image_mset.compositionality)
  finally show "mset (slotHosts (concat (map collectBaseBlockSlots (rootChildren (GetDomainTree m) bs)))) =
      mset (allHosts m)" .
qed

lemma blockTreeGCDLoop_gcd: "0 \<le> a \<Longrightarrow> 0 \<le> b \<Longrightarrow> blockTreeGCDLoop a b = gcd a b"
proof (induction a b rule: blockTreeGCDLoop.induct)
  case (1 a b)
  show ?case
  proof (cases "b = 0")
    case True
    with 1 show ?thesis by (subst blockTreeGCDLoop.simps) simp
  next
    case False
    with 1 show ?thesis by (subst blockTreeGCDLoop.simps) (simp add: gcd_red_int [of a b])
  qed
qed

lemma blockTreeGCD_gcd: "0 \<le> a \<Longrightarrow> 0 \<le> b \<Longrightarrow> blockTreeGCD a b = gcd a b"
  by (simp add: blockTreeGCD_def blockTreeGCDLoop_gcd)

lemma childCapacityOf_snoc:
  "childCapacityOf (cs @ [c]) =
     (if childCapacityOf cs = 0 then aggNodeCount c else blockTreeGCD (childCapacityOf cs) (aggNodeCount c))"
  by (simp add: childCapacityOf_def)

lemma childCapacityOf_gcd:
  assumes "\<forall>c \<in> set cs. 0 < aggNodeCount c \<and> base dvd aggNodeCount c"
  shows "0 \<le> childCapacityOf cs \<and> (cs \<noteq> [] \<longrightarrow> 0 < childCapacityOf cs) \<and>
    base dvd childCapacityOf cs \<and> (\<forall>c \<in> set cs. childCapacityOf cs dvd aggNodeCount c)"
  using assms
proof (induction cs rule: rev_induct)
  case (snoc c cs)
  then show ?case
    by (auto simp: childCapacityOf_snoc blockTreeGCD_gcd intro: dvd_trans [OF gcd_dvd1])
qed (simp add: childCapacityOf_def)

lemma padRoot_eq:
  assumes "0 < cap" and "n \<le> target" and "cap dvd target - n"
  shows "padRoot target cap base cs n =
    (cs @ replicate (nat ((target - n) div cap)) (newEmptyChildAggregate cap base), target)"
  using assms
proof (induction target cap base cs n rule: padRoot.induct)
  case (1 target cap base cs n)
  show ?case
  proof (cases "n < target")
    case True
    then have le: "n + cap \<le> target"
      using "1.prems" zdvd_imp_le [of cap "target - n"] by simp
    have dvd: "cap dvd target - (n + cap)"
      using dvd_diff [OF "1.prems"(3) dvd_refl] by (simp add: algebra_simps)
    have "(target - n) div cap = 1 + (target - (n + cap)) div cap"
      using "1.prems"(1) div_add_self2 [of cap "target - (n + cap)"] by simp
    moreover have "0 \<le> (target - (n + cap)) div cap"
      using le "1.prems"(1) by (simp add: pos_imp_zdiv_nonneg_iff)
    ultimately have "nat ((target - n) div cap) = Suc (nat ((target - (n + cap)) div cap))" by simp
    then show ?thesis
      using "1.IH" [OF conjI [OF "1.prems"(1) True] "1.prems"(1) le dvd] True "1.prems"(1)
      by (simp add: padRoot.simps [of target cap base cs n] replicate_append_same)
  next
    case False
    then show ?thesis using "1.prems" by (subst padRoot.simps) simp
  qed
qed

text \<open>The result of the padding step: the target is reached exactly.\<close>

definition treeOk :: "int \<Rightarrow> blockTreeNode \<Rightarrow> HostInfo list \<Rightarrow> bool" where
  "treeOk base t hosts \<longleftrightarrow>
     (\<forall>b \<in> set (collectBaseBlockSlots t). blockOk base b) \<and>
     mset (slotHosts (collectBaseBlockSlots t)) = mset hosts \<and>
     aggNodeCount t = int (length (collectBaseBlockSlots t)) * base"

lemma emptyChild_slots:
  assumes "0 < base" and "base dvd cap" and "0 < cap"
  shows "collectBaseBlockSlots (newEmptyChildAggregate cap base) =
      replicate (nat (cap div base)) (newEmptyBaseBlock base)"
    and "aggNodeCount (newEmptyChildAggregate cap base) = cap"
proof -
  have "concat (replicate n [x]) = replicate n x" for n and x :: baseBlockNode
    by (induction n) auto
  then show "collectBaseBlockSlots (newEmptyChildAggregate cap base) =
      replicate (nat (cap div base)) (newEmptyBaseBlock base)"
    using assms by (simp add: newEmptyChildAggregate_def Let_def)
  show "aggNodeCount (newEmptyChildAggregate cap base) = cap"
    using assms by (simp add: newEmptyChildAggregate_def Let_def pos_imp_zdiv_nonneg_iff)
qed

lemma concat_replicate_length: "length (concat (replicate n xs)) = n * length xs"
  by (induction n) auto

lemma treeOk_padded:
  assumes cs: "\<forall>c \<in> set cs. \<exists>hosts. aggOk base c hosts"
    and hosts: "mset (slotHosts (concat (map collectBaseBlockSlots cs))) = mset hosts"
    and cap: "0 < base" "base dvd cap" "0 < cap"
  shows "treeOk base (Aggregate i (cs @ replicate k (newEmptyChildAggregate cap base))
    (sum_list (map aggNodeCount cs) + int k * cap)) hosts"
proof -
  let ?e = "newEmptyBaseBlock base"
  let ?pad = "concat (replicate k (replicate (nat (cap div base)) ?e))"
  let ?slots = "concat (map collectBaseBlockSlots cs)"
  have slots: "collectBaseBlockSlots (Aggregate i (cs @ replicate k (newEmptyChildAggregate cap base)) n) =
      ?slots @ ?pad" for n
    by (simp add: emptyChild_slots [OF cap])
  have len: "int (length ?slots) * base = sum_list (map aggNodeCount cs)"
    using cs
  proof (induction cs)
    case (Cons c cs)
    then obtain hs where "aggOk base c hs" by auto
    with Cons show ?case using aggOk_slots(3) by (auto simp: distrib_right)
  qed simp
  have "int (length ?pad) * base = int k * cap"
    using cap by (simp add: concat_replicate_length pos_imp_zdiv_nonneg_iff mult.assoc)
  moreover have "set ?pad \<subseteq> {?e}" by auto
  moreover have "slotHosts ?pad = []" by (simp add: slotHosts_concat)
  moreover have "\<forall>b \<in> set ?slots. blockOk base b" using cs aggOk_slots(1) by fastforce
  ultimately show ?thesis
    using hosts len newEmptyBaseBlock_ok [OF cap(1)]
    by (auto simp: treeOk_def slots distrib_right simp del: collectBaseBlockSlots.simps)
qed

lemma dvd_sum_list: "\<forall>x \<in> set xs. (d::int) dvd f x \<Longrightarrow> d dvd sum_list (map f xs)"
  by (induction xs) auto

lemma target_props:
  assumes "0 < cap" and "0 < (rd::int)" and "cap dvd n"
  defines "st \<equiv> cap div gcd cap rd * rd"
  defines "target \<equiv> (n + st - 1) div st * st"
  shows "0 < st" "n \<le> target" "cap dvd target - n" "rd dvd target"
proof -
  have g: "gcd cap rd dvd cap" "gcd cap rd dvd rd" "0 < gcd cap rd" using assms(1) by auto
  then have "0 < cap div gcd cap rd" using assms(1) by (simp add: zdvd_imp_le pos_imp_zdiv_pos_iff)
  then show pos: "0 < st" using assms(2) by (simp add: st_def)
  have "cap div gcd cap rd * rd = cap * (rd div gcd cap rd)"
    using g by (metis dvd_div_mult div_mult_swap mult.commute)
  then have "cap dvd st" by (simp add: st_def)
  moreover have "rd dvd st" by (simp add: st_def)
  moreover have "st dvd target" by (simp add: target_def)
  ultimately show "rd dvd target" "cap dvd target - n"
    using assms(3) by (auto intro: dvd_trans dvd_diff)
  have "target = st + (n - 1) div st * st"
    using ceil_div [OF pos, of n] by (simp add: target_def distrib_right)
  moreover have "n - 1 = (n - 1) div st * st + (n - 1) mod st" by simp
  moreover have "(n - 1) mod st < st" using pos by simp
  ultimately show "n \<le> target" by linarith
qed

lemma treeOk_unpadded:
  assumes "\<forall>c \<in> set cs. \<exists>hosts. aggOk base c hosts"
    and "mset (slotHosts (concat (map collectBaseBlockSlots cs))) = mset hosts" and "0 < base"
  shows "treeOk base (Aggregate i cs (sum_list (map aggNodeCount cs))) hosts"
  using treeOk_padded [OF assms(1,2,3), of base i 0] assms(3) by simp

lemma buildBlockTree_ok:
  assumes m: "domainsOk m" and bs: "bs \<noteq> []" "0 < hd bs" "0 < last bs"
  obtains t k where "buildBlockTree m bs = Inr (Some t)" and "treeOk (hd bs) t (allHosts m)"
    and "last bs dvd aggNodeCount t"
    and "t = Aggregate (bvID (GetDomainTree m)) (rootChildren (GetDomainTree m) bs @
      replicate k (newEmptyChildAggregate (childCapacityOf (rootChildren (GetDomainTree m) bs)) (hd bs)))
      (aggNodeCount t)"
proof -
  define cs where "cs = rootChildren (GetDomainTree m) bs"
  define n where "n = sum_list (map aggNodeCount cs)"
  define cap where "cap = childCapacityOf cs"
  let ?i = "bvID (GetDomainTree m)"
  note ch = rootChildren_ok [OF m bs(2), folded cs_def]
  have pos: "\<forall>c \<in> set cs. 0 < aggNodeCount c \<and> hd bs dvd aggNodeCount c"
    using ch(1) aggOk_slots(3,4) bs(2) by fastforce
  note cap = childCapacityOf_gcd [OF pos, folded cap_def]
  have capn: "cap dvd n" unfolding n_def using cap by (intro dvd_sum_list) blast
  have n0: "0 \<le> n" unfolding n_def using pos by (intro sum_list_nonneg) auto
  show thesis
  proof (cases "n > 0 \<and> cap > 0 \<and> goMod n (last bs) \<noteq> 0")
    case True
    let ?st = "cap div gcd cap (last bs) * last bs"
    let ?target = "(n + ?st - 1) div ?st * ?st"
    note t = target_props [OF _ bs(3) capn]
    let ?k = "nat ((?target - n) div cap)"
    have st: "0 < ?st" using t(1) True by blast
    have "goDiv cap (blockTreeGCD cap (last bs)) * last bs = ?st"
      using True bs(3) by (simp add: blockTreeGCD_gcd)
    moreover have "goDiv (n + ?st - 1) ?st = (n + ?st - 1) div ?st"
      using True st by (intro goDiv_nonneg) auto
    ultimately have built: "buildBlockTree m bs =
        Inr (Some (Aggregate ?i (cs @ replicate ?k (newEmptyChildAggregate cap (hd bs))) ?target))"
      using True bs padRoot_eq [OF _ t(2) t(3), of "hd bs" cs]
      by (simp add: buildBlockTree_def toRootAggregate_def Let_def
          flip: cs_def n_def cap_def del: goMod_nonneg)
    have tree: "treeOk (hd bs)
        (Aggregate ?i (cs @ replicate ?k (newEmptyChildAggregate cap (hd bs))) (n + int ?k * cap))
        (allHosts m)"
      using treeOk_padded [OF ch bs(2), of cap ?i ?k] cap True by (simp add: n_def)
    have reached: "n + int ?k * cap = ?target"
      using t(2,3) True by (simp add: pos_imp_zdiv_nonneg_iff)
    show thesis
      by (rule that [OF built tree [unfolded reached], of ?k]) (use t(4) True in \<open>simp_all add: cs_def cap_def\<close>)
  next
    case False
    have "last bs dvd n"
    proof (cases "n = 0")
      case nz: False
      then have "cs \<noteq> []" by (auto simp: n_def)
      with False nz n0 cap have "goMod n (last bs) = 0" by auto
      then show ?thesis using n0 bs(3) by (simp add: dvd_eq_mod_eq_0)
    qed simp
    moreover have "buildBlockTree m bs = Inr (Some (Aggregate ?i cs n))"
      using False bs by (auto simp: buildBlockTree_def toRootAggregate_def Let_def
          simp flip: cs_def n_def cap_def)
    ultimately show thesis
      using that [of _ 0] treeOk_unpadded [OF ch bs(2), of ?i] by (simp add: n_def cs_def)
  qed
qed

lemma buildBlockTree_slots:
  assumes m: "domainsOk m" and bs: "bs \<noteq> []" "0 < hd bs" "0 < last bs"
    and t: "buildBlockTree m bs = Inr (Some t)" and b: "b \<in> set (collectBaseBlockSlots t)"
  obtains (pad) "blockHosts b = []"
    | (host) d hosts where "(d, hosts) \<in> set m" and "set (blockHosts b) \<subseteq> set (gm_vals hosts)"
proof -
  obtain u k where u: "buildBlockTree m bs = Inr (Some u)"
    and cs: "u = Aggregate (bvID (GetDomainTree m)) (rootChildren (GetDomainTree m) bs @
      replicate k (newEmptyChildAggregate (childCapacityOf (rootChildren (GetDomainTree m) bs)) (hd bs)))
      (aggNodeCount u)"
    by (rule buildBlockTree_ok [OF m bs])
  have tu: "t = u" using t u by simp
  obtain i cs' n where ua: "u = Aggregate i cs' n" using cs by blast
  then obtain c where c: "c \<in> set (aggChildren u)" "b \<in> set (collectBaseBlockSlots c)"
    using b tu by auto
  have wf: "gm_wf m" using m by (simp add: domainsOk_def)
  from c(1) arg_cong [OF cs, of aggChildren] consider (emp) "c = newEmptyChildAggregate
      (childCapacityOf (rootChildren (GetDomainTree m) bs)) (hd bs)"
    | (dom) "c \<in> set (rootChildren (GetDomainTree m) bs)"
    by auto
  then show thesis
  proof cases
    case emp
    with c(2) have "b = newEmptyBaseBlock (hd bs)"
      by (auto simp: newEmptyChildAggregate_def Let_def)
    then show thesis using pad by simp
  next
    case dom
    then obtain d hosts where d: "(d, hosts) \<in> set m"
      "c = domainAggregate (GetDomainTree m) bs (domainVertex d hosts)"
      unfolding rootChildren_eq [OF wf] by (rule visit_mem) (auto dest: map_of_SomeD)
    have "mset (slotHosts (collectBaseBlockSlots c)) = mset (gm_vals hosts)"
      using aggOk_slots(2) [OF domainAggregate_ok [OF m d(1) bs(2)]] d(2) by simp
    then have "set (slotHosts (collectBaseBlockSlots c)) = set (gm_vals hosts)" by (rule mset_eq_setD)
    with c(2) have "set (blockHosts b) \<subseteq> set (gm_vals hosts)" by (auto simp: slotHosts_def)
    with d(1) show thesis by (rule host)
  qed
qed

section \<open>Independence of the iteration order\<close>

text \<open>Two representations of the same domain map, which differ in the order of iteration only.\<close>

definition sameDomains :: "DomainMap \<Rightarrow> DomainMap \<Rightarrow> bool" where
  "sameDomains m m' \<longleftrightarrow>
     mset (gm_keys m) = mset (gm_keys m') \<and>
     (\<forall>d. rel_option (\<lambda>hs hs'. mset hs = mset hs') (gm_get m d) (gm_get m' d))"

lemma hostsSorted_perm:
  assumes "mset (gm_vals hs) = mset (gm_vals hs')" and "distinct (map HostName (gm_vals hs))"
  shows "hostsSorted hs = hostsSorted hs'"
  unfolding hostsSorted_def
  by (rule sort_key_perm_eq [OF assms(1)]) (use assms(2) in \<open>simp only: distinct_map\<close>)

lemma hostsOk_perm:
  assumes "hostsOk d hs" and "mset hs = mset hs'"
  shows "hostsOk d hs'"
  using assms gm_wf_perm [OF assms(2)] mset_eq_setD [OF assms(2)]
  by (auto simp: hostsOk_def dest: mset_eq_length)

lemma vals_perm: "mset hs = mset hs' \<Longrightarrow> mset (gm_vals hs) = mset (gm_vals hs')"
  by simp

lemma hasSub_perm:
  "mset hs = mset hs' \<Longrightarrow>
     list_ex (\<lambda>h. SubDomain h \<noteq> []) (gm_vals hs) = list_ex (\<lambda>h. SubDomain h \<noteq> []) (gm_vals hs')"
  by (drule mset_eq_setD) (auto simp: list_ex_iff)

lemma subVertex_perm:
  assumes "mset hs = mset hs'" and "distinct (map HostName hs)"
  shows "leafAggregate (subVertex d hs gn) (keyed (subHosts d hs gn)) k bs =
    leafAggregate (subVertex d hs' gn) (keyed (subHosts d hs' gn)) k bs"
    and "length (subHosts d hs gn) = length (subHosts d hs' gn)"
proof -
  have eq: "mset (subHosts d hs gn) = mset (subHosts d hs' gn)" using assms(1) by (simp add: subHosts_def)
  then show len: "length (subHosts d hs gn) = length (subHosts d hs' gn)" by (rule mset_eq_length)
  have "distinct (map HostName (subHosts d hs gn))"
    using assms(2) by (auto simp: subHosts_def distinct_map inj_on_def)
  then have "hostsSorted (keyed (subHosts d hs gn)) = hostsSorted (keyed (subHosts d hs' gn))"
    using eq by (intro hostsSorted_perm) (simp_all add: keyed_def comp_def)
  then show "leafAggregate (subVertex d hs gn) (keyed (subHosts d hs gn)) k bs =
      leafAggregate (subVertex d hs' gn) (keyed (subHosts d hs' gn)) k bs"
    using len by (simp add: leafAggregate_def subVertex_def Let_def)
qed

lemma placed_counts:
  assumes "distinct (map HostName hs)"
  shows "foldl (\<lambda>acc sub. max acc (ActualNodeCount sub)) 0 (gm_vals (foldl (placeHost d) [] hs)) =
    Max (insert 0 ((\<lambda>gn. int (length (subHosts d hs gn))) ` subName d ` set hs))"
proof -
  let ?cs = "foldl (placeHost d) [] hs"
  have "c = subVertex d hs gn" if "(gn, c) \<in> set ?cs" for gn c
    using that placeHosts_get [OF assms, of d gn] gm_get_Some_mem [OF placeHosts_wf, of d hs gn c]
    by (auto split: if_splits)
  then have "ActualNodeCount ` set (gm_vals ?cs) =
      (\<lambda>gn. int (length (subHosts d hs gn))) ` set (gm_keys ?cs)"
    by (force simp: subVertex_def)
  then show ?thesis
    using placeHosts_keys [OF assms, of d] by (simp only: foldl_max_Max)
qed

lemma toDomainAggregate_perm:
  assumes ok: "hostsOk d hs" and p: "mset hs = mset hs'"
  shows "toDomainAggregate (domainVertex d hs) m bs = toDomainAggregate (domainVertex d hs') m bs"
proof (cases "list_ex (\<lambda>h. SubDomain h \<noteq> []) (gm_vals hs)")
  case False
  note ok' = hostsOk_perm [OF ok p]
  have "hostsSorted hs = hostsSorted hs'"
    using hostsSorted_perm [OF vals_perm [OF p] hostsOk_distinct [OF ok]] .
  moreover have "length hs = length hs'" using p by (rule mset_eq_length)
  ultimately show ?thesis
    using False hasSub_perm [OF p] ok ok' gm_copy_fresh [of hs] gm_copy_fresh [of hs']
    by (simp add: domainVertex_def toDomainAggregate_leaf leafAggregate_def hostsOk_def Let_def)
next
  case True
  let ?v = "gm_vals hs" and ?v' = "gm_vals hs'"
  let ?c = "foldl (placeHost d) [] ?v" and ?c' = "foldl (placeHost d) [] ?v'"
  note dv = hostsOk_distinct [OF ok] and dv' = hostsOk_distinct [OF hostsOk_perm [OF ok p]]
  note sv = subVertex_perm [OF vals_perm [OF p] dv]
  have sets: "set ?v = set ?v'" using vals_perm [OF p] by (rule mset_eq_setD)
  have "set (gm_keys ?c) = set (gm_keys ?c')"
    by (simp only: placeHosts_keys [OF dv] placeHosts_keys [OF dv'] sets)
  moreover have "distinct (gm_keys ?c)" "distinct (gm_keys ?c')"
    using placeHosts_wf [of d ?v] placeHosts_wf [of d ?v'] by (simp_all only: gm_wf_def)
  ultimately have "mset (gm_keys ?c) = mset (gm_keys ?c')"
    by (simp only: set_eq_iff_mset_eq_distinct)
  then have keys: "sorted_keys ?c = sorted_keys ?c'"
    unfolding sorted_keys_def by (rule sort_perm_eq)
  have "int (length (subHosts d ?v gn)) = int (length (subHosts d ?v' gn))" for gn
    using sv(2) by simp
  then have mx: "foldl (\<lambda>acc sub. max acc (ActualNodeCount sub)) 0 (gm_vals ?c) =
      foldl (\<lambda>acc sub. max acc (ActualNodeCount sub)) 0 (gm_vals ?c')"
    unfolding placed_counts [OF dv] placed_counts [OF dv'] using sets by (simp only:)
  have child: "(case gm_get ?c gn of None \<Rightarrow> []
        | Some c \<Rightarrow> collectBaseBlockSlots (toDomainAggregate c k bs)) =
      (case gm_get ?c' gn of None \<Rightarrow> []
        | Some c \<Rightarrow> collectBaseBlockSlots (toDomainAggregate c k bs))" for gn k
  proof -
    have "subHosts d ?v gn = [] \<longleftrightarrow> subHosts d ?v' gn = []" using sv(2) by (metis length_0_conv)
    moreover have "toDomainAggregate (subVertex d ?v gn) k bs = toDomainAggregate (subVertex d ?v' gn) k bs"
      using sv(1) [of d gn k bs] by (simp only: subVertex_def toDomainAggregate_leaf)
    ultimately show ?thesis using placeHosts_get [OF dv, of d gn] placeHosts_get [OF dv', of d gn] by simp
  qed
  show ?thesis
    using True hasSub_perm [OF p] mset_eq_length [OF p] mx
    by (simp add: domainVertex_def Let_def toDomainAggregate_interior keys child
        recurseChildrenIntoAggregate_def)
qed

lemma domainAggregate_perm:
  assumes ok: "hostsOk d hs" and p: "mset hs = mset hs'"
    and "isSingleLevelDomainTree r = isSingleLevelDomainTree r'"
    and "MaxChildNodeCount r = MaxChildNodeCount r'"
  shows "domainAggregate r bs (domainVertex d hs) = domainAggregate r' bs (domainVertex d hs')"
proof -
  have "hostsSorted (vertexHosts (domainVertex d hs)) = hostsSorted (vertexHosts (domainVertex d hs'))"
    using hostsSorted_perm [OF vals_perm [OF p] hostsOk_distinct [OF ok]] hasSub_perm [OF p]
      ok hostsOk_perm [OF ok p] gm_copy_fresh [of hs] gm_copy_fresh [of hs']
    by (simp add: domainVertex_def vertexHosts_def Let_def hostsOk_def hostsSorted_def)
  moreover have "bvID (domainVertex d hs) = d" for hs by (simp add: domainVertex_def Let_def)
  ultimately show ?thesis
    using assms(3,4) toDomainAggregate_perm [OF ok p] mset_eq_length [OF p]
    by (simp add: domainAggregate_def toSingleLevelDomainAggregate_def Let_def)
qed

lemma sameDomains_get:
  assumes "sameDomains m m'" and "gm_get m d = Some hs"
  obtains hs' where "gm_get m' d = Some hs'" and "mset hs = mset hs'"
proof -
  have "rel_option (\<lambda>hs hs'. mset hs = mset hs') (gm_get m d) (gm_get m' d)"
    using assms(1) by (simp add: sameDomains_def)
  with assms(2) that show thesis by (auto simp: option_rel_Some1)
qed

lemma sameDomains_sym: "sameDomains m m' \<Longrightarrow> sameDomains m' m"
proof -
  assume s: "sameDomains m m'"
  have "rel_option (\<lambda>hs hs'. mset hs = mset hs') (gm_get m' d) (gm_get m d)" for d
    using s by (cases "gm_get m d"; cases "gm_get m' d")
      (auto simp: sameDomains_def dest: spec [where x = d])
  then show "sameDomains m' m" using s by (simp add: sameDomains_def)
qed

lemma sameDomains_ok:
  assumes "domainsOk m" and "sameDomains m m'"
  shows "domainsOk m'"
proof -
  have wf: "gm_wf m'"
    using assms mset_eq_imp_distinct_iff [of "gm_keys m" "gm_keys m'"]
    by (simp add: domainsOk_def gm_wf_def sameDomains_def)
  have "d \<noteq> [] \<and> hostsOk d hs'" if "(d, hs') \<in> set m'" for d hs'
  proof -
    have "gm_get m' d = Some hs'" using that gm_get_Some_mem [OF wf] by blast
    then obtain hs where "gm_get m d = Some hs" "mset hs' = mset hs"
      by (rule sameDomains_get [OF sameDomains_sym [OF assms(2)]])
    then show ?thesis using domainsOk_get [OF assms(1)] hostsOk_perm by metis
  qed
  with wf show ?thesis by (auto simp: domainsOk_def)
qed

lemma sameDomains_vals:
  assumes "sameDomains m m'" and "gm_wf m" and "hs \<in> set (gm_vals m)"
  shows "\<exists>hs' \<in> set (gm_vals m'). mset hs = mset hs'"
proof -
  from assms(3) obtain d where "(d, hs) \<in> set m" by auto
  then have "gm_get m d = Some hs" using gm_get_Some_mem [OF assms(2)] by blast
  then obtain hs' where "gm_get m' d = Some hs'" "mset hs = mset hs'"
    by (rule sameDomains_get [OF assms(1)])
  then show ?thesis by (force dest: map_of_SomeD)
qed

lemma sameDomains_lengths:
  assumes "sameDomains m m'" and "gm_wf m"
  shows "(\<lambda>hs. int (length hs)) ` set (gm_vals m) \<subseteq> (\<lambda>hs. int (length hs)) ` set (gm_vals m')"
proof
  fix n assume "n \<in> (\<lambda>hs. int (length hs)) ` set (gm_vals m)"
  then obtain hs where hs: "hs \<in> set (gm_vals m)" "n = int (length hs)" by blast
  then obtain hs' where hs': "hs' \<in> set (gm_vals m')" "mset hs = mset hs'"
    using sameDomains_vals [OF assms] by blast
  then have "n = int (length hs')" using hs(2) mset_eq_length by metis
  with hs'(1) show "n \<in> (\<lambda>hs. int (length hs)) ` set (gm_vals m')" by blast
qed

lemma singleLevel_iff:
  assumes "gm_wf m"
  shows "isSingleLevelDomainTree (GetDomainTree m) \<longleftrightarrow>
    m \<noteq> [] \<and> (\<forall>hs \<in> set (gm_vals m). \<not> list_ex (\<lambda>h. SubDomain h \<noteq> []) (gm_vals hs))"
  unfolding isSingleLevelDomainTree_def GetDomainTree_children [OF assms]
  by (force simp: list_all_iff domainVertex_def Let_def split: if_splits)

lemma singleLevel_perm:
  assumes "sameDomains m m'" and "gm_wf m" and "gm_wf m'"
  shows "isSingleLevelDomainTree (GetDomainTree m) = isSingleLevelDomainTree (GetDomainTree m')"
proof -
  have "m = [] \<longleftrightarrow> m' = []"
    using assms(1) by (auto simp: sameDomains_def)
  moreover have "(\<forall>hs \<in> set (gm_vals m). \<not> list_ex (\<lambda>h. SubDomain h \<noteq> []) (gm_vals hs)) \<longleftrightarrow>
      (\<forall>hs \<in> set (gm_vals m'). \<not> list_ex (\<lambda>h. SubDomain h \<noteq> []) (gm_vals hs))"
    using sameDomains_vals [OF assms(1,2)] sameDomains_vals [OF sameDomains_sym [OF assms(1)] assms(3)]
      hasSub_perm by metis
  ultimately show ?thesis unfolding singleLevel_iff [OF assms(2)] singleLevel_iff [OF assms(3)] by blast
qed

lemma rootChildren_perm:
  assumes ok: "domainsOk m" and s: "sameDomains m m'"
  shows "rootChildren (GetDomainTree m) bs = rootChildren (GetDomainTree m') bs"
proof -
  note ok' = sameDomains_ok [OF ok s]
  have wf: "gm_wf m" "gm_wf m'" using ok ok' by (simp_all add: domainsOk_def)
  have max: "MaxChildNodeCount (GetDomainTree m) = MaxChildNodeCount (GetDomainTree m')"
    unfolding GetDomainTree_maxChild [OF wf(1)] GetDomainTree_maxChild [OF wf(2)] foldl_max_Max
    using sameDomains_lengths [OF s wf(1)] sameDomains_lengths [OF sameDomains_sym [OF s] wf(2)]
    by (metis subset_antisym)
  have keys: "sorted_keys m = sorted_keys m'"
    using s unfolding sorted_keys_def by (intro sort_perm_eq) (simp add: sameDomains_def)
  have "(case gm_get m d of None \<Rightarrow> []
        | Some hs \<Rightarrow> [domainAggregate (GetDomainTree m) bs (domainVertex d hs)]) =
      (case gm_get m' d of None \<Rightarrow> []
        | Some hs \<Rightarrow> [domainAggregate (GetDomainTree m') bs (domainVertex d hs)])" for d
  proof (cases "gm_get m d")
    case None
    then have "gm_get m' d = None"
      using s by (auto simp: sameDomains_def dest: spec [where x = d])
    with None show ?thesis by simp
  next
    case (Some hs)
    then obtain hs' where hs': "gm_get m' d = Some hs'" "mset hs = mset hs'"
      by (rule sameDomains_get [OF s])
    have "hostsOk d hs" using domainsOk_get [OF ok Some] by simp
    then show ?thesis
      using domainAggregate_perm [OF _ hs'(2) singleLevel_perm [OF s wf] max] Some hs'(1) by simp
  qed
  then show ?thesis unfolding rootChildren_eq [OF wf(1)] rootChildren_eq [OF wf(2)] keys by simp
qed

section \<open>Properties\<close>

lemmas tree_defs = treeOk_def blockOk_def

definition demoDomains :: DomainMap where
  "demoDomains =
     foldl (\<lambda>m h. AddHostInfo (Some h) m) NewDomainMap
       [\<lparr>Domain = ''d2'', hostInstanceID = ''i3'', HostName = ''n3'', SubDomain = []\<rparr>,
        \<lparr>Domain = ''d1'', hostInstanceID = ''i2'', HostName = ''n2'', SubDomain = []\<rparr>,
        \<lparr>Domain = ''d1'', hostInstanceID = ''i1'', HostName = ''n1'', SubDomain = []\<rparr>,
        \<lparr>Domain = ''d1'', hostInstanceID = ''i4'', HostName = ''n4'', SubDomain = []\<rparr>]"

lemma demoDomains_ok: "domainsOk demoDomains"
  unfolding demoDomains_def foldl.simps by (intro domainsOk_AddHostInfo domainsOk_empty)

text \<open>
  C16. \<open>buildBlockTree\<close> loses no host and invents none: for a well-formed domain map and positive
  first and last block sizes it returns a tree (it does not panic), the host slots of the tree's
  base blocks hold exactly the hosts of the map, each once, and every base block has exactly
  \<open>blockSizes[0]\<close> slots.
\<close>

theorem buildBlockTree_hosts:
  assumes "domainsOk m" and "bs \<noteq> []" and "0 < hd bs" and "0 < last bs"
  shows "\<exists>t. buildBlockTree m bs = Inr (Some t) \<and>
    mset (slotHosts (collectBaseBlockSlots t)) = mset (allHosts m) \<and>
    (\<forall>b \<in> set (collectBaseBlockSlots t). length (bbLeaves b) = nat (hd bs))"
  using buildBlockTree_ok [OF assms] by (metis tree_defs)

theorem buildBlockTree_hosts_witness:
  "\<exists>t. buildBlockTree demoDomains [2, 4] = Inr (Some t) \<and>
    mset (slotHosts (collectBaseBlockSlots t)) = mset (allHosts demoDomains) \<and>
    (\<forall>b \<in> set (collectBaseBlockSlots t). length (bbLeaves b) = 2)"
  using buildBlockTree_hosts [OF demoDomains_ok, of "[2, 4]"] by simp

text \<open>
  The capacity of the tree is whole: the node count of the root is the number of base blocks
  times the base block size, and it is a multiple of the largest block size, so the root can be
  divided into whole aggregates of the last level.
\<close>

theorem buildBlockTree_aligned:
  assumes "domainsOk m" and "bs \<noteq> []" and "0 < hd bs" and "0 < last bs"
    and "buildBlockTree m bs = Inr (Some t)"
  shows "aggNodeCount t = int (length (collectBaseBlockSlots t)) * hd bs \<and> last bs dvd aggNodeCount t"
  using buildBlockTree_ok [OF assms(1-4)] assms(5) by (metis tree_defs sum.inject(2) option.inject)

definition demoTree :: "int list \<Rightarrow> blockTreeNode" where
  "demoTree bs = (case buildBlockTree demoDomains bs of Inr (Some t) \<Rightarrow> t | _ \<Rightarrow> HostNode None)"

lemma demoTree_built: "buildBlockTree demoDomains [2, 4] = Inr (Some (demoTree [2, 4]))"
  using buildBlockTree_ok [OF demoDomains_ok, of "[2, 4]"] by (force simp: demoTree_def)

text \<open>
  C17. A base block never mixes accelerator domains: all hosts in the slots of one base block belong
  to the same domain of the map.
\<close>

theorem buildBlockTree_one_domain:
  assumes "domainsOk m" and "bs \<noteq> []" and "0 < hd bs" and "0 < last bs"
    and "buildBlockTree m bs = Inr (Some t)" and "b \<in> set (collectBaseBlockSlots t)"
    and "h \<in> set (blockHosts b)" and "h' \<in> set (blockHosts b)"
  shows "Domain h = Domain h'"
proof (rule buildBlockTree_slots [OF assms(1-6)])
  fix d hosts
  assume "(d, hosts) \<in> set m" and "set (blockHosts b) \<subseteq> set (gm_vals hosts)"
  then have "hostsOk d hosts" and "h \<in> snd ` set hosts" and "h' \<in> snd ` set hosts"
    using assms(1,7,8) by (auto simp: domainsOk_def)
  then have "Domain h = d" and "Domain h' = d" unfolding hostsOk_def by force+
  then show ?thesis by simp
qed (use assms(7) in simp)

theorem buildBlockTree_one_domain_witness:
  "list_all (\<lambda>b. blockHosts b \<noteq> [] \<longrightarrow> Domain (hd (blockHosts b)) = Domain (last (blockHosts b)))
     (collectBaseBlockSlots (demoTree [2, 4]))"
  unfolding list_all_iff
proof (intro ballI impI)
  fix b
  assume "b \<in> set (collectBaseBlockSlots (demoTree [2, 4]))" and "blockHosts b \<noteq> []"
  then show "Domain (hd (blockHosts b)) = Domain (last (blockHosts b))"
    using buildBlockTree_one_domain [OF demoDomains_ok _ _ _ demoTree_built, of b] hd_in_set last_in_set
    by simp
qed

text \<open>
  C18. The output is deterministic: two domain maps with the same entries give the same tree,
  whatever order their keys are iterated in.
\<close>

theorem buildBlockTree_order:
  assumes "domainsOk m" and "sameDomains m m'"
  shows "buildBlockTree m bs = buildBlockTree m' bs"
  using rootChildren_perm [OF assms]
  by (simp add: buildBlockTree_def toRootAggregate_def GetDomainTree_def Let_def)

theorem buildBlockTree_order_witness:
  "buildBlockTree demoDomains [2, 4] = buildBlockTree (rev demoDomains) [2, 4]"
proof (rule buildBlockTree_order [OF demoDomains_ok])
  have "gm_get (rev demoDomains) = gm_get demoDomains"
    using demoDomains_ok by (intro gm_get_perm) (simp_all add: domainsOk_def)
  then show "sameDomains demoDomains (rev demoDomains)" by (simp add: sameDomains_def option.rel_refl)
qed

text \<open>
  \<open>aggregateSlotCapacity\<close> is the least power-of-two multiple of the base block size that covers
  the largest sibling.
\<close>

theorem aggregateSlotCapacity_least:
  assumes "0 < base"
  shows "\<exists>k. aggregateSlotCapacity n base = base * 2 ^ k \<and> n \<le> base * 2 ^ k \<and>
    (\<forall>j. n \<le> base * 2 ^ j \<longrightarrow> k \<le> j)"
proof -
  obtain k where k: "doubleUntil base n = base * 2 ^ k" "k = 0 \<or> base * 2 ^ (k - 1) < n"
    using doubleUntil_power [OF assms] by blast
  have "k \<le> j" if "n \<le> base * 2 ^ j" for j
  proof (rule ccontr)
    assume "\<not> k \<le> j"
    then have "base * 2 ^ j \<le> base * 2 ^ (k - 1)" using assms by (intro mult_left_mono power_increasing) auto
    with k(2) that \<open>\<not> k \<le> j\<close> show False by auto
  qed
  then show ?thesis using k(1) doubleUntil_ge [OF assms, of n] by (auto simp: aggregateSlotCapacity_def)
qed

end
