(* ===== verification/NetTopology.thy ===== *)
theory NetTopology
  imports Placement BlockTree
begin

text \<open>
  Component \<open>pkg/translate/topology.go\<close>: the configuration of the Slurm translation and its
  validation, block names derived from node names, and \<open>NewNetworkTopology\<close>, which checks that the
  graph is a tree (\<open>initTree\<close>) and orders the accelerator domains by the position of their nodes
  in the tree (\<open>initBlocks\<close>).

  Regular expressions are the client's, so the regexp package is an argument: \<open>compile\<close> takes a
  pattern to the function that maps a format and a node name to the expanded name, if the name
  matches. Error messages are the constructors of \<open>terror\<close>.
\<close>

section \<open>Model\<close>

type_synonym regex = "string \<Rightarrow> string \<Rightarrow> string option"

record BlockNameConfig =
  NodeNameRegexp :: string
  Format :: string
  compiledRegexp :: "(string \<times> regex) option"

record TopologySpec =
  sPlugin :: string
  sBlockSizes :: "int list"
  sBlockName :: "BlockNameConfig option"
  ClusterDefault :: bool
  sNodes :: "string list"

record Config =
  Plugin :: string
  BlockSizes :: "int list"
  BlockName :: "BlockNameConfig option"
  Topologies :: "(string, TopologySpec) gomap"

record blockInfo =
  biId :: string
  biName :: string
  biIndx :: int
  biNodes :: "string list"

record nodeInfo =
  niInstanceID :: string
  niBlockID :: string
  niBlockIndx :: "int option"
  niSwitches :: "string list"

record NetworkTopology =
  ntConfig :: Config
  ntTree :: "(string, string list) gomap"
  ntDomains :: "DomainMap option"
  ntBlocks :: "blockInfo list"
  ntVertices :: "(string, nat) gomap"
  ntNodeInfo :: "(string, nodeInfo) gomap"

datatype terror =
    BlockNameUnsupported
  | EmptyRegexp
  | EmptyFormat
  | InvalidRegexp string
  | PluginAndTopologies
  | MissingTree
  | MissingBlocks
  | NoDomains
  | UnsupportedPlugin string
  | NoNodes
  | InTopology string terror
  | NilChild string string
  | SelfEdge string
  | ReachableTwice string
  | NameMismatch string string
  | EmptyBlockName string string
  | DifferentNames string string string
  | DuplicateBlockName string string string
  | NilRegexp
  | NoBlocks
  | Expansion string
  | AllBlocksDropped
  | MissingVertex string
  | EncodingFailed string

subsection \<open>Block names\<close>

record blockNameFormatter =
  fRe :: "(string \<times> regex) option"
  fFormat :: string

definition compileBlockNameFormatter :: "BlockNameConfig option \<Rightarrow> blockNameFormatter option" where
  "compileBlockNameFormatter config =
     map_option (\<lambda>c. \<lparr>fRe = compiledRegexp c, fFormat = Format c\<rparr>) config"

text \<open>The loop of \<open>formatBlockName\<close> over the nodes; a nil regexp is dereferenced and panics.\<close>

fun formatLoop :: "blockNameFormatter \<Rightarrow> string \<Rightarrow> string \<Rightarrow> string list \<Rightarrow> terror + string" where
  "formatLoop f dflt blockName [] = Inr blockName"
| "formatLoop f dflt blockName (node # nodes) =
     (case fRe f of
        None \<Rightarrow> Inl NilRegexp
      | Some (pattern, re) \<Rightarrow>
          (case re (fFormat f) node of
             None \<Rightarrow> Inl (NameMismatch node dflt)
           | Some nodeBlockName \<Rightarrow>
               if nodeBlockName = [] then Inl (EmptyBlockName node dflt)
               else if blockName = [] then formatLoop f dflt nodeBlockName nodes
               else if nodeBlockName \<noteq> blockName then Inl (DifferentNames dflt blockName nodeBlockName)
               else formatLoop f dflt blockName nodes))"

definition formatBlockName :: "blockNameFormatter option \<Rightarrow> string \<Rightarrow> string list \<Rightarrow> terror + string" where
  "formatBlockName f defaultName nodes =
     (case f of
        None \<Rightarrow> Inr defaultName
      | Some f \<Rightarrow> if nodes = [] then Inr defaultName else formatLoop f defaultName [] nodes)"

record namedBlocks =
  kept :: "blockInfo list"
  names :: "string list"
  dropped :: "blockInfo list"
  seenNames :: "(string, string) gomap"

fun nameLoop :: "blockNameFormatter option \<Rightarrow> blockInfo list \<Rightarrow> namedBlocks \<Rightarrow> terror + namedBlocks" where
  "nameLoop f [] nb = Inr nb"
| "nameLoop f (block # blocks) nb =
     (case formatBlockName f (biId block) (biNodes block) of
        Inl err \<Rightarrow>
          if err = NilRegexp then Inl NilRegexp
          else nameLoop f blocks (nb\<lparr>dropped := dropped nb @ [block]\<rparr>)
      | Inr name \<Rightarrow>
          (case gm_get (seenNames nb) name of
             Some previousBlock \<Rightarrow> Inl (DuplicateBlockName previousBlock (biId block) name)
           | None \<Rightarrow>
               nameLoop f blocks
                 (nb\<lparr>seenNames := gm_put name (biId block) (seenNames nb),
                     kept := kept nb @ [block], names := names nb @ [name]\<rparr>)))"

definition formatBlockNames ::
  "blockInfo list \<Rightarrow> blockNameFormatter option
     \<Rightarrow> terror + (blockInfo list \<times> string list \<times> blockInfo list)" where
  "formatBlockNames blocks formatter =
     (case nameLoop formatter blocks \<lparr>kept = [], names = [], dropped = [], seenNames = []\<rparr> of
        Inl err \<Rightarrow> Inl err
      | Inr nb \<Rightarrow> Inr (kept nb, names nb, dropped nb))"

subsection \<open>Validation\<close>

definition ValidateBlockNameConfig ::
  "(string \<Rightarrow> regex option) \<Rightarrow> BlockNameConfig option \<Rightarrow> terror + BlockNameConfig option" where
  "ValidateBlockNameConfig compile config =
     (case config of
        None \<Rightarrow> Inr None
      | Some c \<Rightarrow>
          if NodeNameRegexp c = [] then Inl EmptyRegexp
          else if Format c = [] then Inl EmptyFormat
          else if map_option fst (compiledRegexp c) = Some (NodeNameRegexp c) then Inr (Some c)
          else
            (case compile (NodeNameRegexp c) of
               None \<Rightarrow> Inl (InvalidRegexp (NodeNameRegexp c))
             | Some re \<Rightarrow> Inr (Some (c\<lparr>compiledRegexp := Some (NodeNameRegexp c, re)\<rparr>))))"

definition checkGraph :: "string \<Rightarrow> Graph option \<Rightarrow> bool \<Rightarrow> terror option" where
  "checkGraph plugin graph flatOk =
     (if plugin = TopologyTree then
        (case graph of
           None \<Rightarrow> Some MissingTree
         | Some g \<Rightarrow> if Tiers g = None then Some MissingTree else None)
      else if plugin = TopologyBlock then
        (case graph of
           None \<Rightarrow> Some MissingBlocks
         | Some g \<Rightarrow>
             (case gDomains g of
                None \<Rightarrow> Some MissingBlocks
              | Some d \<Rightarrow> if d = [] then Some NoDomains else None))
      else if flatOk \<and> plugin = TopologyFlat then None
      else Some (UnsupportedPlugin plugin))"

definition validateSpec ::
  "(string \<Rightarrow> regex option) \<Rightarrow> Graph option \<Rightarrow> TopologySpec \<Rightarrow> terror + TopologySpec" where
  "validateSpec compile graph spec =
     (if sBlockName spec \<noteq> None \<and> sPlugin spec \<noteq> TopologyBlock then Inl BlockNameUnsupported
      else
        (case ValidateBlockNameConfig compile (sBlockName spec) of
           Inl err \<Rightarrow> Inl err
         | Inr bn \<Rightarrow>
             (case checkGraph (sPlugin spec) graph True of
                Some err \<Rightarrow> Inl err
              | None \<Rightarrow>
                  if sNodes spec = [] \<and> sPlugin spec \<noteq> TopologyFlat then Inl NoNodes
                  else Inr (spec\<lparr>sBlockName := bn\<rparr>))))"

fun validateSpecs ::
  "(string \<Rightarrow> regex option) \<Rightarrow> Graph option \<Rightarrow> (string, TopologySpec) gomap
     \<Rightarrow> terror + (string, TopologySpec) gomap" where
  "validateSpecs compile graph [] = Inr []"
| "validateSpecs compile graph ((topo, spec) # rest) =
     (case validateSpec compile graph spec of
        Inl err \<Rightarrow> Inl (InTopology topo err)
      | Inr spec' \<Rightarrow>
          (case validateSpecs compile graph rest of
             Inl err \<Rightarrow> Inl err
           | Inr rest' \<Rightarrow> Inr ((topo, spec') # rest')))"

text \<open>
  \<open>Config.Validate\<close>; it stores the compiled regular expressions in the configuration, so the
  validated configuration is its result.
\<close>

definition Validate :: "(string \<Rightarrow> regex option) \<Rightarrow> Graph option \<Rightarrow> Config \<Rightarrow> terror + Config" where
  "Validate compile graph cfg =
     (if BlockName cfg \<noteq> None \<and> Plugin cfg \<noteq> TopologyBlock then Inl BlockNameUnsupported
      else
        (case ValidateBlockNameConfig compile (BlockName cfg) of
           Inl err \<Rightarrow> Inl err
         | Inr bn \<Rightarrow>
             if Topologies cfg \<noteq> [] then
               (if Plugin cfg \<noteq> [] then Inl PluginAndTopologies
                else
                  (case validateSpecs compile graph (Topologies cfg) of
                     Inl err \<Rightarrow> Inl err
                   | Inr specs \<Rightarrow> Inr (cfg\<lparr>BlockName := bn, Topologies := specs\<rparr>)))
             else
               (case checkGraph (Plugin cfg) graph False of
                  Some err \<Rightarrow> Inl err
                | None \<Rightarrow> Inr (cfg\<lparr>BlockName := bn\<rparr>))))"

subsection \<open>The switch tree\<close>

record treeState =
  tsQueue :: "nat list"
  tsSeen :: "string list"
  tsParents :: "(string, string list) gomap"
  tsTree :: "(string, string list) gomap"
  tsVertices :: "(string, nat) gomap"
  tsNodeInfo :: "(string, nodeInfo) gomap"

definition listAt :: "(string, string list) gomap \<Rightarrow> string \<Rightarrow> string list" where
  "listAt m k = (case gm_get m k of Some xs \<Rightarrow> xs | None \<Rightarrow> [])"

definition enterVertex :: "heap \<Rightarrow> nat \<Rightarrow> treeState \<Rightarrow> treeState" where
  "enterVertex h a ts =
     (let v = h ! a
      in case gm_get (tsTree ts) (vID v) of
           Some _ \<Rightarrow> ts
         | None \<Rightarrow>
             ts\<lparr>tsTree := gm_put (vID v) [] (tsTree ts),
                tsVertices := gm_put (vID v) a (tsVertices ts),
                tsNodeInfo :=
                  (if Vertices v = []
                   then gm_put (vName v)
                          \<lparr>niInstanceID = vID v, niBlockID = [], niBlockIndx = None,
                           niSwitches = listAt (tsParents ts) (vID v)\<rparr> (tsNodeInfo ts)
                   else tsNodeInfo ts)\<rparr>)"

text \<open>The body of the loop over the children. An address outside the heap counts as nil.\<close>

definition visitChild :: "heap \<Rightarrow> nat \<Rightarrow> string \<times> nat option \<Rightarrow> treeState \<Rightarrow> terror + treeState" where
  "visitChild h a = (\<lambda>(key, child) ts.
     let v = h ! a
     in case child of
          None \<Rightarrow> Inl (NilChild (vID v) key)
        | Some c \<Rightarrow>
            if \<not> c < length h then Inl (NilChild (vID v) key)
            else
              (let w = h ! c
               in if key = vID v \<or> vID w = vID v then Inl (SelfEdge (vID v))
                  else if vID w \<in> set (tsSeen ts) then Inl (ReachableTwice (vID w))
                  else Inr (ts\<lparr>
                    tsSeen := vID w # tsSeen ts,
                    tsParents := (if vID v \<noteq> []
                      then gm_put (vID w) (listAt (tsParents ts) (vID v) @ [vID v]) (tsParents ts)
                      else tsParents ts),
                    tsTree := gm_put (vID v) (listAt (tsTree ts) (vID v) @ [key]) (tsTree ts),
                    tsQueue := tsQueue ts @ [c]\<rparr>)))"

fun visitChildren ::
  "heap \<Rightarrow> nat \<Rightarrow> (string \<times> nat option) list \<Rightarrow> treeState \<Rightarrow> terror + treeState" where
  "visitChildren h a [] ts = Inr ts"
| "visitChildren h a (x # xs) ts =
     (case visitChild h a x ts of
        Inl err \<Rightarrow> Inl err
      | Inr ts' \<Rightarrow> visitChildren h a xs ts')"

text \<open>
  Every enqueued vertex has an ID that was not seen before, so the unseen IDs of the heap and the
  queue together shrink by one per round: the loop ends on every graph, cyclic ones included.
\<close>

definition unseen :: "heap \<Rightarrow> treeState \<Rightarrow> nat" where
  "unseen h ts = card (vID ` set h - set (tsSeen ts)) + length (tsQueue ts)"

lemma visitChild_unseen: "visitChild h a x ts = Inr ts' \<Longrightarrow> unseen h ts' = unseen h ts"
proof -
  assume r: "visitChild h a x ts = Inr ts'"
  obtain key child where x: "x = (key, child)" by (cases x)
  from r obtain c where c: "child = Some c" "c < length h" "vID (h ! c) \<notin> set (tsSeen ts)"
    and s: "tsSeen ts' = vID (h ! c) # tsSeen ts" "tsQueue ts' = tsQueue ts @ [c]"
    by (auto simp: visitChild_def x Let_def split: option.splits if_splits)
  have "vID (h ! c) \<in> vID ` set h - set (tsSeen ts)" using c by simp
  moreover have "vID ` set h - set (tsSeen ts') = (vID ` set h - set (tsSeen ts)) - {vID (h ! c)}"
    using s by auto
  ultimately show ?thesis
    using s(2) card_Suc_Diff1 [of "vID ` set h - set (tsSeen ts)" "vID (h ! c)"] by (simp add: unseen_def)
qed

lemma visitChildren_unseen: "visitChildren h a xs ts = Inr ts' \<Longrightarrow> unseen h ts' = unseen h ts"
  by (induction xs arbitrary: ts) (auto split: sum.splits dest: visitChild_unseen)

lemma enterVertex_unseen [simp]: "unseen h (enterVertex h a ts) = unseen h ts"
  by (simp add: enterVertex_def unseen_def Let_def split: option.splits)

lemma unseen_pop: "tsQueue ts = a # q \<Longrightarrow> unseen h (ts\<lparr>tsQueue := q\<rparr>) < unseen h ts"
  by (simp add: unseen_def)

function initLoop :: "heap \<Rightarrow> treeState \<Rightarrow> terror + treeState" where
  "initLoop h ts =
     (case tsQueue ts of
        [] \<Rightarrow> Inr ts
      | a # queue \<Rightarrow>
          (case visitChildren h a (Vertices (h ! a)) (enterVertex h a (ts\<lparr>tsQueue := queue\<rparr>)) of
             Inl err \<Rightarrow> Inl err
           | Inr ts' \<Rightarrow> initLoop h ts'))"
  by pat_completeness auto
termination
  by (relation "measure (\<lambda>(h, ts). unseen h ts)")
    (auto dest!: visitChildren_unseen unseen_pop)

declare initLoop.simps [simp del]

definition initTree :: "heap \<Rightarrow> Graph option \<Rightarrow> NetworkTopology \<Rightarrow> terror + NetworkTopology" where
  "initTree h graph nt =
     (case graph of
        None \<Rightarrow> Inr nt
      | Some g \<Rightarrow>
          (case Tiers g of
             None \<Rightarrow> Inr nt
           | Some root \<Rightarrow>
               (case initLoop h \<lparr>tsQueue = [root], tsSeen = [vID (h ! root)], tsParents = [],
                       tsTree = ntTree nt, tsVertices = ntVertices nt, tsNodeInfo = ntNodeInfo nt\<rparr> of
                  Inl err \<Rightarrow> Inl err
                | Inr ts \<Rightarrow>
                    Inr (nt\<lparr>ntTree := map (apsnd sort) (tsTree ts), ntVertices := tsVertices ts,
                            ntNodeInfo := tsNodeInfo ts\<rparr>))))"

subsection \<open>Blocks\<close>

definition blockID3 :: "nat \<Rightarrow> string" where
  "blockID3 n = ''block'' @ pad0 3 n"

definition toBlockInfos :: "DomainMap \<Rightarrow> blockInfo list" where
  "toBlockInfos domains =
     map (\<lambda>(i, domainName).
            \<lparr>biId = blockID3 (i + 1), biName = domainName, biIndx = 0,
             biNodes = (case gm_get domains domainName of None \<Rightarrow> [] | Some domain \<Rightarrow> sorted_keys domain)\<rparr>)
       (enumerate 0 (sorted_keys domains))"

text \<open>Without a tree the blocks keep the order of their names.\<close>

definition flatNodes :: "DomainMap \<Rightarrow> blockInfo \<Rightarrow> int \<Rightarrow> (string, nodeInfo) gomap \<Rightarrow> (string, nodeInfo) gomap" where
  "flatNodes domains bInfo indx infos =
     foldl (\<lambda>infos node.
         case gm_get domains (biName bInfo) of
           None \<Rightarrow> infos
         | Some domain \<Rightarrow>
             (case gm_get domain node of
                None \<Rightarrow> infos
              | Some hostInfo \<Rightarrow>
                  gm_put node \<lparr>niInstanceID = hostInstanceID hostInfo, niBlockID = biId bInfo,
                    niBlockIndx = Some indx, niSwitches = []\<rparr> infos))
       infos (biNodes bInfo)"

definition flatBlocks :: "DomainMap \<Rightarrow> blockInfo list \<Rightarrow> NetworkTopology \<Rightarrow> NetworkTopology" where
  "flatBlocks domains domainBlocks nt =
     foldl (\<lambda>nt (i, bInfo).
         nt\<lparr>ntNodeInfo := flatNodes domains bInfo (int i) (ntNodeInfo nt),
            ntBlocks := ntBlocks nt @ [bInfo\<lparr>biIndx := int i\<rparr>]\<rparr>)
       nt (enumerate 0 domainBlocks)"

text \<open>With a tree: first the block ID of every node, then the blocks in the order of the leaves.\<close>

definition updateInfo :: "(nodeInfo \<Rightarrow> nodeInfo) \<Rightarrow> (string, nodeInfo) gomap \<Rightarrow> string \<Rightarrow> (string, nodeInfo) gomap" where
  "updateInfo f infos node =
     (case gm_get infos node of None \<Rightarrow> infos | Some info \<Rightarrow> gm_put node (f info) infos)"

definition assignBlockIDs :: "blockInfo list \<Rightarrow> (string, nodeInfo) gomap \<Rightarrow> (string, nodeInfo) gomap" where
  "assignBlockIDs domainBlocks infos =
     foldl (\<lambda>infos block. foldl (updateInfo (niBlockID_update (\<lambda>_. biId block))) infos (biNodes block))
       infos domainBlocks"

definition markBlockNodes :: "blockInfo \<Rightarrow> int \<Rightarrow> NetworkTopology \<Rightarrow> blockInfo \<times> NetworkTopology" where
  "markBlockNodes block indx nt =
     (block\<lparr>biIndx := indx\<rparr>,
      nt\<lparr>ntNodeInfo :=
        foldl (updateInfo (niBlockIndx_update (\<lambda>_. Some indx))) (ntNodeInfo nt) (biNodes block)\<rparr>)"

definition orderLeaf ::
  "heap \<Rightarrow> (string, blockInfo) gomap \<Rightarrow> nat \<Rightarrow> NetworkTopology \<times> int \<Rightarrow> NetworkTopology \<times> int" where
  "orderLeaf h blockMap a = (\<lambda>(nt, indx).
     case gm_get (ntNodeInfo nt) (vName (h ! a)) of
       None \<Rightarrow> (nt, indx)
     | Some nInfo \<Rightarrow>
         if niBlockID nInfo \<noteq> [] \<and> niBlockIndx nInfo = None then
           (case gm_get blockMap (niBlockID nInfo) of
              None \<Rightarrow> (nt, indx)
            | Some block \<Rightarrow>
                (let (bInfo, nt') = markBlockNodes block indx nt
                 in (nt'\<lparr>ntBlocks := ntBlocks nt' @ [bInfo]\<rparr>, indx + 1)))
         else (nt, indx))"

definition sortedKids :: "heap \<Rightarrow> nat \<Rightarrow> nat list" where
  "sortedKids h a =
     concat (map (\<lambda>key. case gm_get (Vertices (h ! a)) key of Some (Some w) \<Rightarrow> [w] | _ \<Rightarrow> [])
       (sorted_keys (Vertices (h ! a))))"

text \<open>
  The breadth-first loop, \<open>None\<close> when more than \<open>fuel\<close> vertices are taken from the queue. It has no
  visited set: it relies on \<open>initTree\<close> having accepted the graph.
\<close>

fun orderBlocks ::
  "nat \<Rightarrow> heap \<Rightarrow> (string, blockInfo) gomap \<Rightarrow> nat list \<Rightarrow> NetworkTopology \<times> int
     \<Rightarrow> (NetworkTopology \<times> int) option" where
  "orderBlocks fuel h blockMap [] st = Some st"
| "orderBlocks 0 h blockMap (a # queue) st = None"
| "orderBlocks (Suc fuel) h blockMap (a # queue) st =
     (if Vertices (h ! a) = [] then orderBlocks fuel h blockMap queue (orderLeaf h blockMap a st)
      else orderBlocks fuel h blockMap (queue @ sortedKids h a) st)"

definition initBlocks :: "nat \<Rightarrow> heap \<Rightarrow> Graph option \<Rightarrow> NetworkTopology \<Rightarrow> NetworkTopology option" where
  "initBlocks fuel h graph nt =
     (case graph of
        None \<Rightarrow> Some nt
      | Some g \<Rightarrow>
          (case gDomains g of
             None \<Rightarrow> Some nt
           | Some domains \<Rightarrow>
               if domains = [] then Some nt
               else
                 (let nt1 = nt\<lparr>ntDomains := Some domains, ntBlocks := []\<rparr>;
                      domainBlocks = toBlockInfos domains
                  in case Tiers g of
                       None \<Rightarrow> Some (flatBlocks domains domainBlocks nt1)
                     | Some root \<Rightarrow>
                         map_option fst
                           (orderBlocks fuel h
                              (foldl (\<lambda>m block. gm_put (biId block) block m) [] domainBlocks) [root]
                              (nt1\<lparr>ntNodeInfo := assignBlockIDs domainBlocks (ntNodeInfo nt1)\<rparr>, 0)))))"

definition newTopology :: "Config \<Rightarrow> NetworkTopology" where
  "newTopology cfg = \<lparr>ntConfig = cfg, ntTree = [], ntDomains = None, ntBlocks = [], ntVertices = [], ntNodeInfo = []\<rparr>"

definition NewNetworkTopology ::
  "(string \<Rightarrow> regex option) \<Rightarrow> heap \<Rightarrow> Graph option \<Rightarrow> Config \<Rightarrow> (terror + NetworkTopology) option" where
  "NewNetworkTopology compile h graph cfg =
     (case Validate compile graph cfg of
        Inl err \<Rightarrow> Some (Inl err)
      | Inr cfg' \<Rightarrow>
          (case initTree h graph (newTopology cfg') of
             Inl err \<Rightarrow> Some (Inl err)
           | Inr nt \<Rightarrow> map_option Inr (initBlocks (length h) h graph nt)))"

section \<open>The tree check\<close>

abbreviation idAt :: "heap \<Rightarrow> nat \<Rightarrow> string" where
  "idAt h a \<equiv> vID (h ! a)"

definition kids :: "heap \<Rightarrow> nat \<Rightarrow> nat list" where
  "kids h a = map (the \<circ> snd) (Vertices (h ! a))"

inductive reach :: "heap \<Rightarrow> nat \<Rightarrow> nat \<Rightarrow> bool" for h r where
  root: "reach h r r"
| child: "reach h r a \<Longrightarrow> b \<in> set (kids h a) \<Longrightarrow> reach h r b"

definition childrenOk :: "heap \<Rightarrow> nat \<Rightarrow> (string \<times> nat option) list \<Rightarrow> bool" where
  "childrenOk h a xs \<longleftrightarrow>
     (\<forall>(k, c) \<in> set xs. \<exists>b < length h. c = Some b \<and> k \<noteq> idAt h a \<and> idAt h b \<noteq> idAt h a)"

lemma gm_put_put [simp]: "gm_put k v2 (gm_put k v1 m) = gm_put k v2 m"
  by (induction m) auto

lemma gm_put_last: "k \<notin> set (gm_keys m) \<Longrightarrow> gm_put k v (m @ [(k, w)]) = m @ [(k, v)]"
  by (induction m) auto

lemma listAt_put [simp]: "listAt (gm_put k v m) i = (if i = k then v else listAt m i)"
  by (simp add: listAt_def)

lemma visitChild_ok:
  assumes "visitChild h a x ts = Inr ts'"
  obtains k c where "x = (k, Some c)" and "c < length h" and "k \<noteq> idAt h a" and "idAt h c \<noteq> idAt h a"
    and "idAt h c \<notin> set (tsSeen ts)"
    and "ts' = ts\<lparr>tsSeen := idAt h c # tsSeen ts,
      tsParents := (if idAt h a \<noteq> []
        then gm_put (idAt h c) (listAt (tsParents ts) (idAt h a) @ [idAt h a]) (tsParents ts)
        else tsParents ts),
      tsTree := gm_put (idAt h a) (listAt (tsTree ts) (idAt h a) @ [k]) (tsTree ts),
      tsQueue := tsQueue ts @ [c]\<rparr>"
  using assms that by (auto simp: visitChild_def Let_def split: prod.splits option.splits if_splits)

lemma visitChildren_ok:
  assumes "visitChildren h a xs ts = Inr ts'"
  shows "childrenOk h a xs \<and> tsQueue ts' = tsQueue ts @ map (the \<circ> snd) xs \<and>
    tsSeen ts' = rev (map (idAt h \<circ> the \<circ> snd) xs) @ tsSeen ts \<and> (distinct (tsSeen ts) \<longrightarrow> distinct (tsSeen ts')) \<and>
    tsTree ts' = (if xs = [] then tsTree ts
      else gm_put (idAt h a) (listAt (tsTree ts) (idAt h a) @ map fst xs) (tsTree ts)) \<and>
    tsVertices ts' = tsVertices ts \<and> tsNodeInfo ts' = tsNodeInfo ts \<and>
    (\<forall>i. listAt (tsParents ts') i =
      (if idAt h a \<noteq> [] \<and> i \<in> set (map (idAt h \<circ> the \<circ> snd) xs)
       then listAt (tsParents ts) (idAt h a) @ [idAt h a] else listAt (tsParents ts) i))"
  using assms
proof (induction xs arbitrary: ts)
  case (Cons x xs)
  from Cons.prems obtain ts1 where 1: "visitChild h a x ts = Inr ts1" and 2: "visitChildren h a xs ts1 = Inr ts'"
    by (auto split: sum.splits)
  obtain k c where x: "x = (k, Some c)" "c < length h" "k \<noteq> idAt h a" "idAt h c \<noteq> idAt h a"
    "idAt h c \<notin> set (tsSeen ts)"
    "ts1 = ts\<lparr>tsSeen := idAt h c # tsSeen ts,
      tsParents := (if idAt h a \<noteq> []
        then gm_put (idAt h c) (listAt (tsParents ts) (idAt h a) @ [idAt h a]) (tsParents ts)
        else tsParents ts),
      tsTree := gm_put (idAt h a) (listAt (tsTree ts) (idAt h a) @ [k]) (tsTree ts),
      tsQueue := tsQueue ts @ [c]\<rparr>"
    by (rule visitChild_ok [OF 1])
  note IH = Cons.IH [OF 2]
  have ok: "childrenOk h a (x # xs)" using IH x(1-4) by (auto simp: childrenOk_def)
  have "tsSeen ts1 = idAt h c # tsSeen ts" using x(6) by simp
  then have "distinct (tsSeen ts) \<longrightarrow> distinct (tsSeen ts')" using IH x(5) by (metis distinct.simps(2))
  moreover have "\<forall>i. listAt (tsParents ts') i =
      (if idAt h a \<noteq> [] \<and> i \<in> set (map (idAt h \<circ> the \<circ> snd) (x # xs))
       then listAt (tsParents ts) (idAt h a) @ [idAt h a] else listAt (tsParents ts) i)"
    using IH x(1,4,6) by auto
  ultimately show ?case using IH x(1,6) ok by simp
qed (auto simp: childrenOk_def)

text \<open>
  The state after some rounds: \<open>P\<close> lists the vertices taken from the queue so far. Taken and waiting
  vertices together are the root followed by the children of the taken ones, in order.
\<close>

definition leafInfo :: "heap \<Rightarrow> (string, string list) gomap \<Rightarrow> (string, nodeInfo) gomap \<Rightarrow> nat \<Rightarrow> (string, nodeInfo) gomap" where
  "leafInfo h parents m a =
     (if Vertices (h ! a) = []
      then gm_put (vName (h ! a))
             \<lparr>niInstanceID = idAt h a, niBlockID = [], niBlockIndx = None, niSwitches = listAt parents (idAt h a)\<rparr> m
      else m)"

definition upOk :: "heap \<Rightarrow> nat \<Rightarrow> nat list \<Rightarrow> (string, string list) gomap \<Rightarrow> nat \<Rightarrow> bool" where
  "upOk h r P parents a \<longleftrightarrow>
     a = r \<and> listAt parents (idAt h a) = [] \<or>
     (\<exists>b \<in> set P. a \<in> set (kids h b) \<and>
        listAt parents (idAt h a) =
          (if idAt h b \<noteq> [] then listAt parents (idAt h b) @ [idAt h b] else []))"

definition loopInv :: "heap \<Rightarrow> nat \<Rightarrow> nat list \<Rightarrow> treeState \<Rightarrow> bool" where
  "loopInv h r P ts \<longleftrightarrow>
     P @ tsQueue ts = r # concat (map (kids h) P) \<and>
     distinct (map (idAt h) (P @ tsQueue ts)) \<and> distinct (tsSeen ts) \<and>
     set (tsSeen ts) = idAt h ` set (P @ tsQueue ts) \<and>
     (\<forall>i. i \<notin> set (tsSeen ts) \<longrightarrow> listAt (tsParents ts) i = []) \<and>
     (\<forall>a \<in> set (P @ tsQueue ts). a < length h \<and> reach h r a \<and> upOk h r P (tsParents ts) a) \<and>
     (\<forall>a \<in> set P. childrenOk h a (Vertices (h ! a))) \<and>
     tsVertices ts = map (\<lambda>a. (idAt h a, a)) P \<and>
     tsTree ts = map (\<lambda>a. (idAt h a, gm_keys (Vertices (h ! a)))) P \<and>
     tsNodeInfo ts = foldl (leafInfo h (tsParents ts)) [] P"

lemma foldl_leafInfo_cong:
  "\<forall>a \<in> set P. listAt p' (idAt h a) = listAt p (idAt h a) \<Longrightarrow> foldl (leafInfo h p') m P = foldl (leafInfo h p) m P"
  by (induction P arbitrary: m) (auto simp: leafInfo_def)

lemma enterVertex_new:
  assumes "idAt h a \<notin> set (gm_keys (tsTree ts))" and "idAt h a \<notin> set (gm_keys (tsVertices ts))"
  shows "enterVertex h a ts = ts\<lparr>tsTree := tsTree ts @ [(idAt h a, [])],
    tsVertices := tsVertices ts @ [(idAt h a, a)], tsNodeInfo := leafInfo h (tsParents ts) (tsNodeInfo ts) a\<rparr>"
proof -
  have "gm_get (tsTree ts) (idAt h a) = None" using assms(1) by (simp add: map_of_eq_None_iff)
  then show ?thesis
    using assms by (simp add: enterVertex_def Let_def leafInfo_def gm_put_fresh)
qed

lemma loop_step:
  assumes inv: "loopInv h r P ts" and q: "tsQueue ts = a # q"
    and vis: "visitChildren h a (Vertices (h ! a)) (enterVertex h a (ts\<lparr>tsQueue := q\<rparr>)) = Inr ts'"
  shows "loopInv h r (P @ [a]) ts'"
proof -
  let ?ts = "ts\<lparr>tsQueue := q\<rparr>"
  note i = inv [unfolded loopInv_def q]
  have P: "P @ a # q = r # concat (map (kids h) P)" and ids: "distinct (map (idAt h) (P @ a # q))"
    and seen: "distinct (tsSeen ts)" "set (tsSeen ts) = idAt h ` set (P @ a # q)"
    and none: "\<And>i. i \<notin> set (tsSeen ts) \<Longrightarrow> listAt (tsParents ts) i = []"
    and up: "\<And>b. b \<in> set (P @ a # q) \<Longrightarrow> b < length h \<and> reach h r b \<and> upOk h r P (tsParents ts) b"
    and ch: "\<And>b. b \<in> set P \<Longrightarrow> childrenOk h b (Vertices (h ! b))"
    and V: "tsVertices ts = map (\<lambda>a. (idAt h a, a)) P"
    and T: "tsTree ts = map (\<lambda>a. (idAt h a, gm_keys (Vertices (h ! a)))) P"
    and N: "tsNodeInfo ts = foldl (leafInfo h (tsParents ts)) [] P"
    using i by blast+
  have fresh: "idAt h a \<notin> idAt h ` set P" using ids by auto
  define ts1 where "ts1 = enterVertex h a ?ts"
  have e: "ts1 = ?ts\<lparr>tsTree := tsTree ts @ [(idAt h a, [])],
      tsVertices := tsVertices ts @ [(idAt h a, a)], tsNodeInfo := leafInfo h (tsParents ts) (tsNodeInfo ts) a\<rparr>"
    unfolding ts1_def using enterVertex_new [of h a ?ts] fresh by (simp add: V T image_image)
  have f: "tsQueue ts1 = q" "tsSeen ts1 = tsSeen ts" "tsParents ts1 = tsParents ts"
    "tsTree ts1 = tsTree ts @ [(idAt h a, [])]" "tsVertices ts1 = tsVertices ts @ [(idAt h a, a)]"
    "tsNodeInfo ts1 = leafInfo h (tsParents ts) (tsNodeInfo ts) a" by (simp_all add: e)
  note v = visitChildren_ok [OF vis [folded ts1_def], unfolded f]
  have k: "map (the \<circ> snd) (Vertices (h ! a)) = kids h a"
    "map (idAt h \<circ> the \<circ> snd) (Vertices (h ! a)) = map (idAt h) (kids h a)" by (simp_all add: kids_def)
  have Q: "tsQueue ts' = q @ kids h a" and S: "tsSeen ts' = rev (map (idAt h) (kids h a)) @ tsSeen ts"
    and SD: "distinct (tsSeen ts')" and C: "childrenOk h a (Vertices (h ! a))"
    and V': "tsVertices ts' = tsVertices ts @ [(idAt h a, a)]"
    and N': "tsNodeInfo ts' = leafInfo h (tsParents ts) (tsNodeInfo ts) a"
    using v seen(1) unfolding k by blast+
  have T': "tsTree ts' = tsTree ts @ [(idAt h a, gm_keys (Vertices (h ! a)))]"
  proof -
    have fr: "idAt h a \<notin> set (gm_keys (tsTree ts))" using fresh by (simp add: T image_image)
    then have "gm_get (tsTree ts) (idAt h a) = None" by (simp add: map_of_eq_None_iff)
    then have "gm_get (tsTree ts @ [(idAt h a, [])]) (idAt h a) = Some []" by (simp add: map_add_def)
    then have "listAt (tsTree ts @ [(idAt h a, [])]) (idAt h a) = []" by (simp add: listAt_def)
    then show ?thesis using v gm_put_last [OF fr] by (cases "Vertices (h ! a)") auto
  qed
  have Pa: "listAt (tsParents ts') i = (if idAt h a \<noteq> [] \<and> i \<in> idAt h ` set (kids h a)
      then listAt (tsParents ts) (idAt h a) @ [idAt h a] else listAt (tsParents ts) i)" for i
    using v unfolding k by simp
  have new: "idAt h c \<notin> set (tsSeen ts)" if "c \<in> set (kids h a)" for c
    using SD that unfolding S by auto
  have same: "listAt (tsParents ts') (idAt h b) = listAt (tsParents ts) (idAt h b)" if "b \<in> set (P @ a # q)" for b
  proof -
    have "idAt h b \<in> set (tsSeen ts)" using that unfolding seen(2) by (rule imageI)
    then have "\<forall>c \<in> set (kids h a). idAt h b \<noteq> idAt h c" using new by metis
    then have "idAt h b \<notin> idAt h ` set (kids h a)" by blast
    then show ?thesis by (simp add: Pa)
  qed
  have up_old: "upOk h r (P @ [a]) (tsParents ts') b" if b: "b \<in> set (P @ a # q)" for b
  proof (cases "b = r \<and> listAt (tsParents ts) (idAt h b) = []")
    case True
    then show ?thesis using same [OF b] unfolding upOk_def by auto
  next
    case False
    then obtain d where d: "d \<in> set P" "b \<in> set (kids h d)" "listAt (tsParents ts) (idAt h b) =
        (if idAt h d \<noteq> [] then listAt (tsParents ts) (idAt h d) @ [idAt h d] else [])"
      using up [OF b] unfolding upOk_def by blast
    have "listAt (tsParents ts') (idAt h d) = listAt (tsParents ts) (idAt h d)" using same [of d] d(1) by simp
    then show ?thesis using d same [OF b] unfolding upOk_def by (intro disjI2 bexI [of _ d]) auto
  qed
  have up_new: "upOk h r (P @ [a]) (tsParents ts') c" if c: "c \<in> set (kids h a)" for c
    using c Pa [of "idAt h c"] none [OF new [OF c]] same [of a] unfolding upOk_def
    by (intro disjI2 bexI [of _ a]) auto
  have len: "c < length h" if "c \<in> set (kids h a)" for c
    using C that by (fastforce simp: childrenOk_def kids_def)
  have N2: "tsNodeInfo ts' = foldl (leafInfo h (tsParents ts')) [] (P @ [a])"
    unfolding N' N using foldl_leafInfo_cong [of "P @ [a]" "tsParents ts'" h "tsParents ts" "[]"] same by simp
  have d1: "distinct (map (idAt h) ((P @ [a]) @ tsQueue ts'))"
    using ids SD seen(2) unfolding Q S by (auto simp: distinct_map)
  show ?thesis
    unfolding loopInv_def
  proof (intro conjI)
    show "(P @ [a]) @ tsQueue ts' = r # concat (map (kids h) (P @ [a]))" using P Q by simp
    show "set (tsSeen ts') = idAt h ` set ((P @ [a]) @ tsQueue ts')" using seen(2) unfolding S Q by auto
    show "\<forall>i. i \<notin> set (tsSeen ts') \<longrightarrow> listAt (tsParents ts') i = []" using none unfolding S Pa by auto
    have "reach h r c" if "c \<in> set (kids h a)" for c using reach.child [of h r a] up [of a] that by simp
    then show "\<forall>b\<in>set ((P @ [a]) @ tsQueue ts'). b < length h \<and> reach h r b \<and> upOk h r (P @ [a]) (tsParents ts') b"
      using up up_old up_new len unfolding Q by auto
  qed (use d1 SD C ch N2 in \<open>auto simp: V' V T' T\<close>)
qed

lemma loop_inv:
  "loopInv h r P ts \<Longrightarrow> initLoop h ts = Inr ts' \<Longrightarrow> \<exists>P'. loopInv h r P' ts' \<and> tsQueue ts' = []"
proof (induction h ts arbitrary: P rule: initLoop.induct)
  case (1 h ts)
  show ?case
  proof (cases "tsQueue ts")
    case Nil
    then show ?thesis using "1.prems" by (auto simp: initLoop.simps [of h ts])
  next
    case (Cons a q)
    then obtain ts1 where "visitChildren h a (Vertices (h ! a)) (enterVertex h a (ts\<lparr>tsQueue := q\<rparr>)) = Inr ts1"
      "initLoop h ts1 = Inr ts'"
      using "1.prems"(2) by (auto simp: initLoop.simps [of h ts] split: sum.splits)
    then show ?thesis using "1.IH" [OF Cons _ loop_step [OF "1.prems"(1) Cons]] by blast
  qed
qed

subsection \<open>Exactly the trees are accepted\<close>

text \<open>
  \<open>T\<close> is a breadth-first enumeration of a tree: reachable vertices only, the root first, then the
  children of every member in turn; all IDs are different and no child is nil.
\<close>

definition treeOrder :: "heap \<Rightarrow> nat \<Rightarrow> nat list \<Rightarrow> bool" where
  "treeOrder h r T \<longleftrightarrow>
     T = r # concat (map (kids h) T) \<and> distinct (map (idAt h) T) \<and>
     (\<forall>a \<in> set T. a < length h \<and> reach h r a \<and> childrenOk h a (Vertices (h ! a)))"

lemma visitChildren_succeeds:
  assumes "childrenOk h a xs" and "distinct (map (idAt h \<circ> the \<circ> snd) xs)"
    and "\<forall>x \<in> set xs. (idAt h \<circ> the \<circ> snd) x \<notin> set (tsSeen ts)"
  shows "\<exists>ts'. visitChildren h a xs ts = Inr ts'"
  using assms
proof (induction xs arbitrary: ts)
  case (Cons x xs)
  obtain k c where x: "x = (k, Some c)" "c < length h" "k \<noteq> idAt h a" "idAt h c \<noteq> idAt h a"
    using Cons.prems(1) by (cases x) (auto simp: childrenOk_def)
  have "idAt h c \<notin> set (tsSeen ts)" using Cons.prems(3) x(1) by simp
  then obtain ts1 where v: "visitChild h a x ts = Inr ts1" and s: "tsSeen ts1 = idAt h c # tsSeen ts"
    using x by (simp add: visitChild_def Let_def)
  have "\<exists>ts'. visitChildren h a xs ts1 = Inr ts'"
  proof (rule Cons.IH)
    show "childrenOk h a xs" using Cons.prems(1) by (simp add: childrenOk_def)
    show "\<forall>y \<in> set xs. (idAt h \<circ> the \<circ> snd) y \<notin> set (tsSeen ts1)"
      using Cons.prems(2,3) x(1) s by (auto simp: image_iff)
  qed (use Cons.prems(2) in simp)
  then show ?case using v by simp
qed simp

lemma loop_complete:
  assumes T: "treeOrder h r T"
  shows "loopInv h r P ts \<Longrightarrow> T = P @ tsQueue ts @ R \<Longrightarrow> \<exists>ts'. initLoop h ts = Inr ts'"
proof (induction "unseen h ts" arbitrary: P ts R rule: less_induct)
  case less
  show ?case
  proof (cases "tsQueue ts")
    case Nil
    then show ?thesis by (simp add: initLoop.simps)
  next
    case (Cons a q)
    have P: "P @ a # q = r # concat (map (kids h) P)" and seen: "set (tsSeen ts) = idAt h ` set (P @ a # q)"
      using less.prems(1) unfolding loopInv_def Cons by blast+
    have a: "a \<in> set T" using less.prems(2) Cons by simp
    have T2: "T = r # concat (map (kids h) P) @ kids h a @ concat (map (kids h) (q @ R))"
      using T less.prems(2) Cons unfolding treeOrder_def by (metis append_Cons append_assoc concat.simps(2) concat_append list.simps(9) map_append)
    then have T3: "T = (P @ a # q) @ kids h a @ concat (map (kids h) (q @ R))" using P by simp
    have d: "distinct (map (idAt h) T)" using T by (simp add: treeOrder_def)
    have k: "map (idAt h \<circ> the \<circ> snd) (Vertices (h ! a)) = map (idAt h) (kids h a)" by (simp add: kids_def)
    let ?ts = "enterVertex h a (ts\<lparr>tsQueue := q\<rparr>)"
    have sv: "tsSeen ?ts = tsSeen ts" by (simp add: enterVertex_def Let_def split: option.splits)
    have "\<exists>ts'. visitChildren h a (Vertices (h ! a)) ?ts = Inr ts'"
    proof (rule visitChildren_succeeds)
      show "childrenOk h a (Vertices (h ! a))" using T a by (simp add: treeOrder_def)
      show "distinct (map (idAt h \<circ> the \<circ> snd) (Vertices (h ! a)))" using d unfolding k T3 by simp
      have "idAt h c \<notin> set (tsSeen ts)" if "c \<in> set (kids h a)" for c
        using d that seen unfolding T3 by (auto simp: image_iff)
      then show "\<forall>x\<in>set (Vertices (h ! a)). (idAt h \<circ> the \<circ> snd) x \<notin> set (tsSeen ?ts)"
        by (simp add: sv kids_def)
    qed
    then obtain ts1 where v: "visitChildren h a (Vertices (h ! a)) ?ts = Inr ts1" by blast
    have "unseen h ts1 < unseen h ts" using visitChildren_unseen [OF v] unseen_pop [OF Cons, of h] by simp
    moreover have "loopInv h r (P @ [a]) ts1" by (rule loop_step [OF less.prems(1) Cons v])
    moreover from this have "(P @ [a]) @ tsQueue ts1 = (P @ a # q) @ kids h a"
      using P unfolding loopInv_def by simp
    then have "T = (P @ [a]) @ tsQueue ts1 @ concat (map (kids h) (q @ R))" using T3 by simp
    ultimately have "\<exists>ts'. initLoop h ts1 = Inr ts'" using less.hyps by blast
    then show ?thesis using v Cons by (simp add: initLoop.simps [of h ts])
  qed
qed

lemma loopInv_init:
  assumes "r < length h"
  shows "loopInv h r [] \<lparr>tsQueue = [r], tsSeen = [idAt h r], tsParents = [], tsTree = [], tsVertices = [],
    tsNodeInfo = []\<rparr>"
  using assms by (simp add: loopInv_def upOk_def listAt_def reach.root)

lemma initTree_loop:
  assumes "Tiers g = Some r" and "r < length h" and "initTree h (Some g) (newTopology cfg) = Inr nt"
  obtains T ts where "loopInv h r T ts" and "tsQueue ts = []" and "treeOrder h r T"
    and "nt = (newTopology cfg)\<lparr>ntTree := map (apsnd sort) (tsTree ts), ntVertices := tsVertices ts,
      ntNodeInfo := tsNodeInfo ts\<rparr>"
proof -
  from assms obtain ts where ts: "initLoop h \<lparr>tsQueue = [r], tsSeen = [idAt h r], tsParents = [], tsTree = [],
      tsVertices = [], tsNodeInfo = []\<rparr> = Inr ts"
    and nt: "nt = (newTopology cfg)\<lparr>ntTree := map (apsnd sort) (tsTree ts), ntVertices := tsVertices ts,
      ntNodeInfo := tsNodeInfo ts\<rparr>"
    by (auto simp: initTree_def newTopology_def split: sum.splits)
  obtain T where T: "loopInv h r T ts" "tsQueue ts = []" using loop_inv [OF loopInv_init [OF assms(2)] ts] by blast
  then have "treeOrder h r T" unfolding loopInv_def treeOrder_def by simp
  then show thesis using that T nt by blast
qed

text \<open>
  C2. \<open>initTree\<close> accepts exactly the trees: it always returns, even on cyclic graphs, and it succeeds
  if and only if the vertices reachable from the root form a tree with pairwise different IDs and
  no nil child.
\<close>

theorem initTree_accepts_trees:
  assumes "Tiers g = Some r" and "r < length h"
  shows "isl (initTree h (Some g) (newTopology cfg)) \<longleftrightarrow> \<not> (\<exists>T. treeOrder h r T)"
proof
  assume err: "isl (initTree h (Some g) (newTopology cfg))"
  show "\<not> (\<exists>T. treeOrder h r T)"
  proof
    assume "\<exists>T. treeOrder h r T"
    then obtain T where T: "treeOrder h r T" ..
    then have eq: "T = r # concat (map (kids h) T)" by (simp add: treeOrder_def)
    obtain ts where "initLoop h \<lparr>tsQueue = [r], tsSeen = [idAt h r], tsParents = [], tsTree = [],
        tsVertices = [], tsNodeInfo = []\<rparr> = Inr ts"
      using loop_complete [OF T loopInv_init [OF assms(2)], of "concat (map (kids h) T)"] eq by auto
    then show False using err assms(1) by (simp add: initTree_def newTopology_def)
  qed
next
  assume "\<not> (\<exists>T. treeOrder h r T)"
  then show "isl (initTree h (Some g) (newTopology cfg))"
    using initTree_loop [OF assms, of cfg] by (cases "initTree h (Some g) (newTopology cfg)") auto
qed

definition demoGraph :: "nat \<Rightarrow> Graph" where
  "demoGraph r = \<lparr>Tiers = Some r, gDomains = Some demoDomains, gInstances = []\<rparr>"

definition demoConfig :: Config where
  "demoConfig = \<lparr>Plugin = TopologyTree, BlockSizes = [], BlockName = None, Topologies = []\<rparr>"

definition cyclicHeap :: heap where
  "cyclicHeap = [\<lparr>vName = [], vID = [], Vertices = [(''a'', Some 1)]\<rparr>,
     \<lparr>vName = [], vID = ''a'', Vertices = [(''b'', Some 2)]\<rparr>,
     \<lparr>vName = [], vID = ''b'', Vertices = [(''a'', Some 1)]\<rparr>]"

theorem initTree_accepts_trees_witness:
  "\<not> (\<exists>T. treeOrder cyclicHeap 0 T) \<and> (\<exists>T. treeOrder splitHeap 6 T)"
proof
  have "isl (initTree cyclicHeap (Some (demoGraph 0)) (newTopology demoConfig))" by code_simp
  then show "\<not> (\<exists>T. treeOrder cyclicHeap 0 T)"
    using initTree_accepts_trees [of "demoGraph 0" 0 cyclicHeap demoConfig]
    by (simp add: demoGraph_def cyclicHeap_def)
  have "\<not> isl (initTree splitHeap (Some (demoGraph 6)) (newTopology demoConfig))" by code_simp
  then show "\<exists>T. treeOrder splitHeap 6 T"
    using initTree_accepts_trees [of "demoGraph 6" 6 splitHeap demoConfig]
    by (simp add: demoGraph_def splitHeap_def)
qed

subsection \<open>The ordering loop ends on an accepted graph\<close>

definition heapWf :: "heap \<Rightarrow> bool" where
  "heapWf h \<longleftrightarrow> list_all (\<lambda>v. gm_wf (Vertices v)) h"

definition rootIn :: "heap \<Rightarrow> Graph option \<Rightarrow> bool" where
  "rootIn h graph =
     (case graph of
        None \<Rightarrow> True
      | Some g \<Rightarrow> (case Tiers g of None \<Rightarrow> True | Some r \<Rightarrow> r < length h))"

lemma mset_sortedKids:
  assumes "heapWf h" and "a < length h" and "childrenOk h a (Vertices (h ! a))"
  shows "mset (sortedKids h a) = mset (kids h a)"
proof -
  let ?V = "Vertices (h ! a)"
  let ?f = "\<lambda>k (c :: nat option). case c of Some w \<Rightarrow> [w] | None \<Rightarrow> []"
  have wf: "gm_wf ?V" using assms(1,2) by (simp add: heapWf_def list_all_length)
  have "sortedKids h a = concat (map (\<lambda>key. case gm_get ?V key of None \<Rightarrow> [] | Some c \<Rightarrow> ?f key c) (sorted_keys ?V))"
    unfolding sortedKids_def by (intro arg_cong [where f = concat] map_cong) (auto split: option.splits)
  then have "mset (sortedKids h a) = (\<Sum>(k, c) \<in># mset ?V. mset (?f k c))"
    by (simp only: mset_sorted_keys_visit [OF wf])
  also have "\<dots> = (\<Sum>x \<in># mset ?V. {#the (snd x)#})"
    using assms(3) by (intro arg_cong [where f = sum_mset] image_mset_cong) (auto simp: childrenOk_def)
  also have "\<dots> = mset (kids h a)" by (simp add: kids_def comp_def)
  finally show ?thesis .
qed

lemma mset_treeOrder:
  assumes "treeOrder h r T"
  shows "mset T = add_mset r (\<Sum>a \<in># mset T. mset (kids h a))"
proof -
  have "mset T = add_mset r (mset (concat (map (kids h) T)))"
    using assms unfolding treeOrder_def by (metis mset.simps(2))
  then show ?thesis by (simp add: mset_concat_map)
qed

lemma orderBlocks_total:
  assumes T: "treeOrder h r T" and wf: "heapWf h"
  shows "mset (P @ q) = add_mset r (\<Sum>a \<in># mset P. mset (kids h a)) \<Longrightarrow> mset (P @ q) \<subseteq># mset T \<Longrightarrow>
    length T \<le> length P + fuel \<Longrightarrow> \<exists>st'. orderBlocks fuel h bm q st = Some st'"
proof (induction fuel arbitrary: P q st)
  case 0
  then have "size (mset (P @ q)) \<le> size (mset T)" by (intro size_mset_mono)
  then show ?case using 0(3) by (cases q) auto
next
  case (Suc fuel)
  show ?case
  proof (cases q)
    case (Cons a q')
    have "mset (P @ [a]) \<subseteq># mset (P @ q)" by (simp add: Cons)
    then have sub: "mset (P @ [a]) \<subseteq># mset T" using Suc.prems(2) by (rule subset_mset.order_trans)
    then have "a \<in> set T" using mset_subset_eqD by fastforce
    then have ok: "a < length h" "childrenOk h a (Vertices (h ! a))" using T by (auto simp: treeOrder_def)
    note k = mset_sortedKids [OF wf ok]
    obtain X where X: "mset T = mset (P @ [a]) + X" using sub by (metis subset_mset.le_iff_add)
    have 1: "mset ((P @ [a]) @ q' @ sortedKids h a) = add_mset r (\<Sum>b \<in># mset (P @ [a]). mset (kids h b))"
      using Suc.prems(1) k by (simp add: Cons)
    moreover have "add_mset r (\<Sum>b \<in># mset (P @ [a]). mset (kids h b)) \<subseteq># mset T"
      by (subst mset_treeOrder [OF T]) (simp add: X)
    ultimately have 2: "mset ((P @ [a]) @ q' @ sortedKids h a) \<subseteq># mset T" by simp
    have 3: "length T \<le> length (P @ [a]) + fuel" using Suc.prems(3) by simp
    show ?thesis
    proof (cases "Vertices (h ! a) = []")
      case True
      then have "sortedKids h a = []" by (simp add: sortedKids_def sorted_keys_def)
      then show ?thesis using Suc.IH [OF _ _ 3, of q'] 1 2 True by (simp add: Cons)
    next
      case False
      then show ?thesis using Suc.IH [OF 1 2 3] by (simp add: Cons)
    qed
  qed simp
qed

lemma treeOrder_length:
  assumes "treeOrder h r T"
  shows "length T \<le> length h"
proof -
  have "distinct T" using assms unfolding treeOrder_def by (metis distinct_map)
  then have "length T = card (set T)" by (simp add: distinct_card)
  also have "\<dots> \<le> card {..<length h}"
    using assms by (intro card_mono) (auto simp: treeOrder_def)
  finally show ?thesis by simp
qed

lemma NewNetworkTopology_total:
  assumes "heapWf h" and "rootIn h graph"
  shows "\<exists>res. NewNetworkTopology compile h graph cfg = Some res"
proof (cases "Validate compile graph cfg")
  case (Inr cfg')
  show ?thesis
  proof (cases "initTree h graph (newTopology cfg')")
    case nt: (Inr nt)
    have "\<exists>nt'. initBlocks (length h) h graph nt = Some nt'"
    proof (cases "\<exists>g r. graph = Some g \<and> Tiers g = Some r")
      case True
      then obtain g r where g: "graph = Some g" "Tiers g = Some r" by blast
      have r: "r < length h" using assms(2) g by (simp add: rootIn_def)
      obtain T where T: "treeOrder h r T" using initTree_loop [OF g(2) r] nt unfolding g(1) by metis
      have "r \<in> set T" using T unfolding treeOrder_def by (metis list.set_intros(1))
      then have "\<exists>st'. orderBlocks (length h) h bm [r] st = Some st'" for bm st
        using orderBlocks_total [OF T assms(1), of "[]" "[r]" "length h"] treeOrder_length [OF T]
          mset_treeOrder [OF T] by (simp add: treeOrder_def)
      then show ?thesis
        using g by (auto simp: initBlocks_def Let_def split: option.splits)
    next
      case False
      then show ?thesis by (auto simp: initBlocks_def Let_def split: option.splits)
    qed
    then show ?thesis using Inr nt by (auto simp: NewNetworkTopology_def)
  qed (use Inr in \<open>simp add: NewNetworkTopology_def\<close>)
qed (simp add: NewNetworkTopology_def)

text \<open>
  C22. \<open>NewNetworkTopology\<close> always returns. The loop that orders the blocks has no visited set, but it
  runs only after \<open>initTree\<close> accepted the graph, and then it takes at most as many vertices
  from its queue as the graph has.
\<close>

theorem NewNetworkTopology_returns:
  assumes "heapWf h" and "rootIn h graph"
  shows "\<exists>res. NewNetworkTopology compile h graph cfg = Some res"
  using assms by (rule NewNetworkTopology_total)

theorem NewNetworkTopology_returns_witness:
  "\<exists>res. NewNetworkTopology (\<lambda>_. None) cyclicHeap (Some (demoGraph 0)) demoConfig = Some res"
  by (rule NewNetworkTopology_returns; code_simp)

subsection \<open>Every node knows the switches above it\<close>

lemma concat_map_unique:
  "distinct (concat (map f xs)) \<Longrightarrow> x \<in> set xs \<Longrightarrow> y \<in> set xs \<Longrightarrow> z \<in> set (f x) \<Longrightarrow> z \<in> set (f y) \<Longrightarrow>
     distinct xs \<Longrightarrow> x = y"
  by (induction xs) auto

definition keysOk :: "heap \<Rightarrow> bool" where
  "keysOk h \<longleftrightarrow>
     (\<forall>a < length h. \<forall>k c. (k, c) \<in> set (Vertices (h ! a)) \<longrightarrow> (\<exists>b < length h. c = Some b \<and> idAt h b = k))"

lemma path_switches:
  assumes T: "treeOrder h r T" and up: "\<forall>a \<in> set T. upOk h r T parents a"
    and keys: "keysOk h" and root: "idAt h r = []"
  shows "path h r p a \<Longrightarrow>
    a \<in> set T \<and> (p \<noteq> [] \<longrightarrow> listAt parents (idAt h a) = butlast p \<and> last p = idAt h a \<and> idAt h a \<noteq> [])"
proof (induction p arbitrary: a rule: rev_induct)
  case Nil
  then show ?case using T unfolding treeOrder_def by (metis list.set_intros(1) path.simps(1))
next
  case (snoc k p)
  have dT: "distinct T" and eq: "T = r # concat (map (kids h) T)"
    using T unfolding treeOrder_def by (metis distinct_map)+
  have dC: "distinct (concat (map (kids h) T))" "r \<notin> set (concat (map (kids h) T))"
    using dT eq by (metis distinct.simps(2))+
  from snoc.prems obtain b where b: "path h r p b" "path h b [k] a" by (auto simp: path_append simp del: path.simps)
  note IH = snoc.IH [OF b(1)]
  from b(2) have g: "gm_get (Vertices (h ! b)) k = Some (Some a)" by (auto split: option.splits)
  then have mem: "(k, Some a) \<in> set (Vertices (h ! b))" by (rule map_of_SomeD)
  have bT: "b \<in> set T" using IH by simp
  have kid: "a \<in> set (kids h b)" using mem by (force simp: kids_def)
  then have aC: "a \<in> set (concat (map (kids h) T))" using bT by auto
  have aT: "a \<in> set T" using aC eq by (metis list.set_intros(2))
  have ka: "k = idAt h a" using keys mem bT T by (fastforce simp: keysOk_def treeOrder_def)
  have "a \<noteq> r" using aC dC(2) by blast
  then obtain b' where b': "b' \<in> set T" "a \<in> set (kids h b')" "listAt parents (idAt h a) =
      (if idAt h b' \<noteq> [] then listAt parents (idAt h b') @ [idAt h b'] else [])"
    using up aT unfolding upOk_def by blast
  have "b' = b" by (rule concat_map_unique [OF dC(1) b'(1) bT b'(2) kid dT])
  with b'(3) have l: "listAt parents (idAt h a) =
      (if idAt h b \<noteq> [] then listAt parents (idAt h b) @ [idAt h b] else [])" by simp
  have "listAt parents (idAt h a) = p"
  proof (cases "p = []")
    case True
    then have "b = r" using b(1) by simp
    then show ?thesis using l root True by simp
  next
    case False
    then have "listAt parents (idAt h b) = butlast p" "last p = idAt h b" "idAt h b \<noteq> []" using IH by auto
    then show ?thesis using l False by (metis append_butlast_last_id)
  qed
  moreover have "idAt h a \<noteq> []"
  proof
    assume "idAt h a = []"
    moreover have "r \<in> set T" using eq by (metis list.set_intros(1))
    ultimately have "a = r" using aT root T unfolding treeOrder_def by (metis distinct_map inj_onD)
    then show False using \<open>a \<noteq> r\<close> by simp
  qed
  ultimately show ?case using aT ka by simp
qed

lemma foldl_leafInfo_get:
  assumes "a \<in> set P" and "Vertices (h ! a) = []"
    and "\<forall>b \<in> set P. Vertices (h ! b) = [] \<longrightarrow> vName (h ! b) = vName (h ! a) \<longrightarrow> b = a"
  shows "gm_get (foldl (leafInfo h p) m P) (vName (h ! a)) =
    Some \<lparr>niInstanceID = idAt h a, niBlockID = [], niBlockIndx = None, niSwitches = listAt p (idAt h a)\<rparr>"
  using assms
proof (induction P rule: rev_induct)
  case (snoc b P)
  show ?case
  proof (cases "b = a")
    case True
    then show ?thesis using snoc.prems by (simp add: leafInfo_def)
  next
    case False
    then show ?thesis using snoc by (auto simp: leafInfo_def)
  qed
qed simp

text \<open>The block phase changes block IDs and indices of known nodes only.\<close>

definition treeView :: "(string, nodeInfo) gomap \<Rightarrow> string \<Rightarrow> (string \<times> string list) option" where
  "treeView infos n = map_option (\<lambda>i. (niInstanceID i, niSwitches i)) (gm_get infos n)"

lemma treeView_update:
  "(\<And>i. niInstanceID (f i) = niInstanceID i \<and> niSwitches (f i) = niSwitches i) \<Longrightarrow>
     treeView (updateInfo f infos node) = treeView infos"
  by (auto simp: treeView_def updateInfo_def fun_eq_iff split: option.splits)

lemma treeView_updates:
  "(\<And>i. niInstanceID (f i) = niInstanceID i \<and> niSwitches (f i) = niSwitches i) \<Longrightarrow>
     treeView (foldl (updateInfo f) infos nodes) = treeView infos"
  by (induction nodes arbitrary: infos) (simp_all add: treeView_update)

lemma treeView_assign [simp]: "treeView (assignBlockIDs bs infos) = treeView infos"
  unfolding assignBlockIDs_def by (induction bs arbitrary: infos) (simp_all add: treeView_updates)

lemma treeView_orderLeaf [simp]: "treeView (ntNodeInfo (fst (orderLeaf h bm a st))) = treeView (ntNodeInfo (fst st))"
  by (auto simp: orderLeaf_def markBlockNodes_def treeView_updates Let_def split: prod.splits option.splits)

lemma treeView_orderBlocks:
  "orderBlocks fuel h bm q st = Some st' \<Longrightarrow> treeView (ntNodeInfo (fst st')) = treeView (ntNodeInfo (fst st))"
  by (induction fuel h bm q st rule: orderBlocks.induct) (auto split: if_splits)

lemma treeView_initBlocks:
  assumes "initBlocks fuel h (Some g) nt = Some nt'" and "Tiers g = Some r"
  shows "treeView (ntNodeInfo nt') = treeView (ntNodeInfo nt)"
  using assms treeView_orderBlocks [where st' = "(nt', _)"]
  by (fastforce simp: initBlocks_def Let_def split: option.splits if_splits)

text \<open>
  C4. After \<open>NewNetworkTopology\<close>, every compute node knows the switches above it: for a leaf at the
  end of a path from the root whose name no other reachable leaf has, the recorded instance ID is
  the leaf's and the recorded switches are exactly the IDs on the path, root first.
\<close>

theorem nodeInfo_switches:
  assumes "NewNetworkTopology compile h (Some g) cfg = Some (Inr nt)"
    and "Tiers g = Some r" and "r < length h" and "idAt h r = []" and "keysOk h"
    and "path h r p a" and "p \<noteq> []" and "Vertices (h ! a) = []"
    and "\<forall>b. reach h r b \<longrightarrow> Vertices (h ! b) = [] \<longrightarrow> vName (h ! b) = vName (h ! a) \<longrightarrow> b = a"
  shows "treeView (ntNodeInfo nt) (vName (h ! a)) = Some (idAt h a, butlast p)"
proof -
  from assms(1) obtain cfg' nt1 where nt1: "initTree h (Some g) (newTopology cfg') = Inr nt1"
    and nt: "initBlocks (length h) h (Some g) nt1 = Some nt"
    by (auto simp: NewNetworkTopology_def split: sum.splits)
  obtain T ts where ts: "loopInv h r T ts" "tsQueue ts = []" "treeOrder h r T"
    and eq: "nt1 = (newTopology cfg')\<lparr>ntTree := map (apsnd sort) (tsTree ts), ntVertices := tsVertices ts,
      ntNodeInfo := tsNodeInfo ts\<rparr>"
    by (rule initTree_loop [OF assms(2,3) nt1])
  have up: "\<forall>a \<in> set T. upOk h r T (tsParents ts) a"
    and N: "tsNodeInfo ts = foldl (leafInfo h (tsParents ts)) [] T"
    using ts(1) unfolding loopInv_def ts(2) by simp_all
  note sw = path_switches [OF ts(3) up assms(5,4)]
  have reach: "reach h r b" if "b \<in> set T" for b using ts(3) that by (simp add: treeOrder_def)
  have "gm_get (tsNodeInfo ts) (vName (h ! a)) =
      Some \<lparr>niInstanceID = idAt h a, niBlockID = [], niBlockIndx = None, niSwitches = listAt (tsParents ts) (idAt h a)\<rparr>"
    unfolding N using sw [OF assms(6)] assms(8,9) reach by (intro foldl_leafInfo_get) blast+
  then have "treeView (ntNodeInfo nt1) (vName (h ! a)) = Some (idAt h a, butlast p)"
    using sw [OF assms(6)] assms(7) by (simp add: treeView_def eq)
  then show ?thesis using treeView_initBlocks [OF nt assms(2)] by simp
qed

lemma reach_closed:
  assumes "reach h r b" and "r \<in> S" and "\<forall>a \<in> S. set (kids h a) \<subseteq> S"
  shows "b \<in> S"
  using assms(1) by induction (use assms(2,3) in auto)

definition resultOf :: "(terror + NetworkTopology) option \<Rightarrow> NetworkTopology" where
  "resultOf res = (case res of Some (Inr nt) \<Rightarrow> nt | _ \<Rightarrow> newTopology demoConfig)"

definition demoTopology :: NetworkTopology where
  "demoTopology = resultOf (NewNetworkTopology (\<lambda>_. None) splitHeap (Some (demoGraph 6)) demoConfig)"

lemma demoTopology_built:
  "NewNetworkTopology (\<lambda>_. None) splitHeap (Some (demoGraph 6)) demoConfig = Some (Inr demoTopology)"
proof -
  have "case NewNetworkTopology (\<lambda>_. None) splitHeap (Some (demoGraph 6)) demoConfig of
      Some (Inr nt) \<Rightarrow> True | _ \<Rightarrow> False" by code_simp
  then show ?thesis by (auto simp: demoTopology_def resultOf_def split: option.splits sum.splits)
qed

theorem nodeInfo_switches_witness:
  "treeView (ntNodeInfo demoTopology) ''nb'' = Some (''B'', [''r'', ''x'', ''b''])"
proof -
  have b: "b \<in> {2, 3, 4, 5, 6}" if "reach splitHeap 6 b" for b
    using reach_closed [OF that, of "{2, 3, 4, 5, 6}"] by (simp add: splitHeap_def kids_def)
  have "b = 3" if "b \<in> {2, 3, 4, 5, 6}" "Vertices (splitHeap ! b) = []" for b
    using that by (auto simp: splitHeap_def)
  with b have 1: "\<forall>b. reach splitHeap 6 b \<longrightarrow> Vertices (splitHeap ! b) = [] \<longrightarrow>
      vName (splitHeap ! b) = vName (splitHeap ! 3) \<longrightarrow> b = 3" by blast
  have 2: "keysOk splitHeap"
    unfolding keysOk_def splitHeap_def by (auto simp: less_Suc_eq numeral_nat)
  have 3: "path splitHeap 6 [''r'', ''x'', ''b'', ''B''] 3" by (simp add: splitHeap_def)
  have 4: "Tiers (demoGraph 6) = Some 6" "6 < length splitHeap" "idAt splitHeap 6 = []"
    "Vertices (splitHeap ! 3) = []" "idAt splitHeap 3 = ''B''" "vName (splitHeap ! 3) = ''nb''"
    by (simp_all add: demoGraph_def splitHeap_def)
  show ?thesis
    using nodeInfo_switches [OF demoTopology_built 4(1-3) 2 3 _ 4(4) 1] by (simp add: 4)
qed

section \<open>The order of the blocks\<close>

text \<open>
  State of the ordering loop: the blocks emitted so far are numbered consecutively, no block is
  emitted twice, and all nodes of an emitted block carry an index.
\<close>

definition orderOk :: "(string, blockInfo) gomap \<Rightarrow> NetworkTopology \<times> int \<Rightarrow> bool" where
  "orderOk bm = (\<lambda>(nt, indx).
     map biIndx (ntBlocks nt) = map int [0..<length (ntBlocks nt)] \<and> indx = int (length (ntBlocks nt)) \<and>
     distinct (map biId (ntBlocks nt)) \<and>
     (\<forall>b \<in> set (ntBlocks nt). \<exists>block. gm_get bm (biId b) = Some block \<and> b = block\<lparr>biIndx := biIndx b\<rparr>) \<and>
     (\<forall>n i block. gm_get (ntNodeInfo nt) n = Some i \<longrightarrow> gm_get bm (niBlockID i) = Some block \<longrightarrow> n \<in> set (biNodes block)) \<and>
     (\<forall>n i. gm_get (ntNodeInfo nt) n = Some i \<longrightarrow> niBlockID i \<in> set (map biId (ntBlocks nt)) \<longrightarrow> niBlockIndx i \<noteq> None))"

lemma get_updates:
  assumes "\<And>i. f (f i) = f i"
  shows "gm_get (foldl (updateInfo f) infos nodes) n =
    map_option (if n \<in> set nodes then f else id) (gm_get infos n)"
proof (induction nodes arbitrary: infos)
  case Nil
  then show ?case by (cases "gm_get infos n") auto
next
  case (Cons x nodes)
  have "gm_get (updateInfo f infos x) n = map_option (if n = x then f else id) (gm_get infos n)"
    by (cases "gm_get infos n"; cases "gm_get infos x") (auto simp: updateInfo_def)
  then show ?case using Cons.IH assms by (cases "gm_get infos n") auto
qed

lemma orderLeaf_ok:
  assumes ok: "orderOk bm st" and bm: "\<forall>i block. gm_get bm i = Some block \<longrightarrow> biId block = i"
  shows "orderOk bm (orderLeaf h bm a st)"
proof -
  obtain nt indx where st: "st = (nt, indx)" by (cases st)
  show ?thesis
  proof (cases "\<exists>nInfo block. gm_get (ntNodeInfo nt) (vName (h ! a)) = Some nInfo \<and> niBlockID nInfo \<noteq> [] \<and>
      niBlockIndx nInfo = None \<and> gm_get bm (niBlockID nInfo) = Some block")
    case False
    then have "orderLeaf h bm a st = st" by (auto simp: orderLeaf_def st split: option.splits)
    then show ?thesis using ok by simp
  next
    case True
    then obtain nInfo block where n: "gm_get (ntNodeInfo nt) (vName (h ! a)) = Some nInfo"
      "niBlockID nInfo \<noteq> []" "niBlockIndx nInfo = None" "gm_get bm (niBlockID nInfo) = Some block" by blast
    let ?f = "niBlockIndx_update (\<lambda>_. Some indx)"
    let ?infos = "foldl (updateInfo ?f) (ntNodeInfo nt) (biNodes block)"
    have eq: "orderLeaf h bm a st =
        (nt\<lparr>ntNodeInfo := ?infos, ntBlocks := ntBlocks nt @ [block\<lparr>biIndx := indx\<rparr>]\<rparr>, indx + 1)"
      using n by (simp add: orderLeaf_def st markBlockNodes_def)
    have get: "gm_get ?infos m = map_option (if m \<in> set (biNodes block) then ?f else id) (gm_get (ntNodeInfo nt) m)" for m
      by (rule get_updates) simp
    note ok' = ok [unfolded orderOk_def st prod.case]
    have id: "biId block = niBlockID nInfo" using bm n(4) by blast
    have new: "biId block \<notin> set (map biId (ntBlocks nt))" using ok' n(1,3) id by metis
    have 1: "m \<in> set (biNodes blk)" if "gm_get ?infos m = Some i" "gm_get bm (niBlockID i) = Some blk" for m i blk
      using that ok' unfolding get by (auto split: if_splits)
    have 2: "niBlockIndx i \<noteq> None"
      if "gm_get ?infos m = Some i" "niBlockID i \<in> set (map biId (ntBlocks nt @ [block\<lparr>biIndx := indx\<rparr>]))" for m i
    proof (cases "m \<in> set (biNodes block)")
      case True
      then show ?thesis using that(1) unfolding get by auto
    next
      case False
      then have i: "gm_get (ntNodeInfo nt) m = Some i" using that(1) unfolding get by (auto simp: option.map_id)
      then have "niBlockID i \<noteq> biId block" using False ok' n(4) id by metis
      then show ?thesis using that(2) i ok' by auto
    qed
    have 3: "\<forall>b \<in> set (ntBlocks nt @ [block\<lparr>biIndx := indx\<rparr>]).
        \<exists>blk. gm_get bm (biId b) = Some blk \<and> b = blk\<lparr>biIndx := biIndx b\<rparr>"
      using ok' n(4) id by auto
    show ?thesis
      unfolding orderOk_def eq prod.case
      using ok' new 1 2 3 by simp
  qed
qed

lemma orderBlocks_ok:
  assumes bm: "\<forall>i block. gm_get bm i = Some block \<longrightarrow> biId block = i"
  shows "orderBlocks fuel h bm q st = Some st' \<Longrightarrow> orderOk bm st \<Longrightarrow> orderOk bm st'"
  using orderLeaf_ok [OF _ bm]
  by (induction fuel h bm q st rule: orderBlocks.induct) (auto split: if_splits)

lemma toBlockInfos_ids: "map biId (toBlockInfos domains) = map (\<lambda>i. blockID3 (i + 1)) [0..<length (sorted_keys domains)]"
  by (rule nth_equalityI) (simp_all add: toBlockInfos_def nth_enumerate_eq)

lemma blockID3_inj: "blockID3 m = blockID3 n \<longleftrightarrow> m = n"
proof
  assume "blockID3 m = blockID3 n"
  then have "pad0 3 m = pad0 3 n" by (simp add: blockID3_def)
  then have "dec_val 0 (pad0 3 m) = dec_val 0 (pad0 3 n)" by simp
  then show "m = n" by (simp add: dec_val_pad0)
qed simp

lemma distinct_blockIDs: "distinct (map biId (toBlockInfos domains))"
  unfolding toBlockInfos_ids by (simp add: distinct_map inj_on_def blockID3_inj)

lemma get_blockMap:
  assumes "distinct (map biId bs)"
  shows "gm_get (foldl (\<lambda>m block. gm_put (biId block) block m) m0 bs) i =
    (case find (\<lambda>b. biId b = i) bs of Some b \<Rightarrow> Some b | None \<Rightarrow> gm_get m0 i)"
  using assms
proof (induction bs arbitrary: m0)
  case (Cons b bs)
  have "find (\<lambda>b'. biId b' = biId b) bs = None" using Cons.prems by (auto simp: find_None_iff image_iff)
  then show ?case using Cons by (auto split: option.splits)
qed simp

lemma assign_get:
  assumes "gm_get (assignBlockIDs bs infos) n = Some i"
  shows "(\<exists>b \<in> set bs. n \<in> set (biNodes b) \<and> niBlockID i = biId b) \<or>
    (\<exists>i0. gm_get infos n = Some i0 \<and> niBlockID i = niBlockID i0)"
  using assms
proof (induction bs arbitrary: infos)
  case (Cons b bs)
  let ?f = "niBlockID_update (\<lambda>_. biId b)"
  have g: "gm_get (foldl (updateInfo ?f) infos (biNodes b)) n =
      map_option (if n \<in> set (biNodes b) then ?f else id) (gm_get infos n)"
    by (rule get_updates) simp
  have "gm_get (assignBlockIDs bs (foldl (updateInfo ?f) infos (biNodes b))) n = Some i"
    using Cons.prems by (simp add: assignBlockIDs_def)
  from Cons.IH [OF this] show ?case using g by (auto split: if_splits)
qed (simp add: assignBlockIDs_def)



section \<open>Block names\<close>

lemma formatLoop_ok:
  assumes "fRe f = Some (pat, re)"
  shows "formatLoop f d b nodes = Inr name \<Longrightarrow>
     (\<forall>n \<in> set nodes. re (fFormat f) n = Some name) \<and> (b \<noteq> [] \<longrightarrow> name = b)"
proof (induction nodes arbitrary: b)
  case (Cons n nodes)
  then obtain m where m: "re (fFormat f) n = Some m" "m \<noteq> []"
    using assms by (auto split: option.splits if_splits)
  then show ?case using Cons assms by (auto split: if_splits)
qed simp

definition namesOk :: "blockNameFormatter option \<Rightarrow> blockInfo list \<Rightarrow> namedBlocks \<Rightarrow> bool" where
  "namesOk f done' nb \<longleftrightarrow>
     distinct (names nb) \<and> length (names nb) = length (kept nb) \<and>
     set (gm_keys (seenNames nb)) = set (names nb) \<and>
     mset (kept nb @ dropped nb) = mset done' \<and>
     list_all2 (\<lambda>b n. formatBlockName f (biId b) (biNodes b) = Inr n) (kept nb) (names nb) \<and>
     list_all (\<lambda>b. isl (formatBlockName f (biId b) (biNodes b))) (dropped nb)"

lemma nameLoop_ok:
  "nameLoop f blocks nb = Inr nb' \<Longrightarrow> namesOk f prev nb \<Longrightarrow> namesOk f (prev @ blocks) nb'"
proof (induction f blocks nb arbitrary: prev rule: nameLoop.induct)
  case (2 f block blocks nb)
  show ?case
  proof (cases "formatBlockName f (biId block) (biNodes block)")
    case (Inl err)
    have "namesOk f (prev @ [block]) (nb\<lparr>dropped := dropped nb @ [block]\<rparr>)"
      using "2.prems"(2) Inl by (simp add: namesOk_def)
    then show ?thesis
      using "2.IH"(1) [OF Inl, of "prev @ [block]"] "2.prems"(1) Inl by (simp split: if_splits)
  next
    case (Inr name)
    then have new: "gm_get (seenNames nb) name = None" using "2.prems"(1) by (auto split: option.splits)
    let ?nb = "nb\<lparr>seenNames := gm_put name (biId block) (seenNames nb), kept := kept nb @ [block],
      names := names nb @ [name]\<rparr>"
    have "name \<notin> set (names nb)"
      using new "2.prems"(2) by (auto simp: namesOk_def map_of_eq_None_iff)
    then have "namesOk f (prev @ [block]) ?nb"
      using "2.prems"(2) Inr by (auto simp: namesOk_def dom_update update_keys list_all2_append)
    then show ?thesis using "2.IH"(2) [OF Inr new, of "prev @ [block]"] "2.prems"(1) Inr new by simp
  qed
qed simp

text \<open>
  Block names are unambiguous: when \<open>formatBlockNames\<close> succeeds, every block is either kept or
  dropped, the kept blocks have pairwise different names, each kept name is the one its nodes agree
  on, and a block is dropped only when naming it failed.
\<close>

theorem formatBlockNames_sound:
  assumes "formatBlockNames blocks f = Inr (ks, ns, ds)"
  shows "distinct ns \<and> mset (ks @ ds) = mset blocks \<and>
    list_all2 (\<lambda>b n. formatBlockName f (biId b) (biNodes b) = Inr n) ks ns \<and>
    list_all (\<lambda>b. isl (formatBlockName f (biId b) (biNodes b))) ds"
proof -
  let ?nb = "\<lparr>kept = [], names = [], dropped = [], seenNames = []\<rparr>"
  from assms obtain nb where nb: "nameLoop f blocks ?nb = Inr nb"
    and "ks = kept nb" "ns = names nb" "ds = dropped nb"
    by (auto simp: formatBlockNames_def split: sum.splits)
  moreover have "namesOk f [] ?nb" by (simp add: namesOk_def)
  ultimately show ?thesis using nameLoop_ok [OF nb] by (auto simp: namesOk_def)
qed

definition demoFormatter :: blockNameFormatter where
  "demoFormatter = \<lparr>fRe = Some (''p'', \<lambda>fmt node. if node = ''bad'' then None else Some (fmt @ take 2 node)), fFormat = ''su''\<rparr>"

end
