(* ===== verification/Cluset.thy ===== *)
theory Cluset
  imports Prelude
begin

text \<open>
  Component \<open>internal/cluset\<close>: node-name lists in the compact range notation of Slurm, e.g.
  \<open>n[01-04,07]\<close>. \<open>Compact\<close> groups names by prefix and compresses the trailing numbers into
  ranges, \<open>Expand\<close> is the inverse, \<open>ExpandWithLimit\<close> is \<open>Expand\<close> with a cap on the number of
  names, and \<open>ExpandList\<close> first splits a comma-separated string outside brackets.

  The two regular expressions of the package are modelled by what they match:
  \<open>^(.*?)(0*\d+)$\<close> splits off the longest run of trailing digits, and \<open>^(.*?)\[(.*?)\]$\<close> splits
  at the first opening bracket of an entry that ends with a closing one; the dot matches no
  newline. Names are ASCII strings.
\<close>

section \<open>Model\<close>

definition compactMatch :: "string \<Rightarrow> (string \<times> string) option" where
  "compactMatch node =
     (let num = rev (takeWhile is_digit (rev node));
          prefix = rev (dropWhile is_digit (rev node))
      in if num = [] \<or> newline \<in> set prefix then None else Some (prefix, num))"

definition expandMatch :: "string \<Rightarrow> (string \<times> string) option" where
  "expandMatch entry =
     (if newline \<in> set entry then None
      else case dropWhile (\<lambda>c. c \<noteq> CHR ''['') entry of
        [] \<Rightarrow> None
      | _ # rest \<Rightarrow>
          if rest \<noteq> [] \<and> last rest = CHR '']''
          then Some (takeWhile (\<lambda>c. c \<noteq> CHR ''['') entry, butlast rest)
          else None)"

subsection \<open>Compact\<close>

definition formatRange :: "string \<Rightarrow> string \<Rightarrow> string" where
  "formatRange start end' = (if start = end' then start else start @ ''-'' @ end')"

text \<open>The loop of \<open>compressRange\<close>, with the current range and the numbers still to visit.\<close>

fun compressLoop :: "string \<Rightarrow> string \<Rightarrow> string list \<Rightarrow> string list" where
  "compressLoop start end' [] = [formatRange start end']"
| "compressLoop start end' (n # ns) =
     (if atoi n = wrap64 (atoi end' + 1) then compressLoop start n ns
      else formatRange start end' # compressLoop n n ns)"

fun compressRange :: "string list \<Rightarrow> string" where
  "compressRange [] = []"
| "compressRange [n] = n"
| "compressRange (n # ns) = ''['' @ join '','' (compressLoop n n ns) @ '']''"

definition addNode :: "(string, string list) gomap \<Rightarrow> string \<Rightarrow> (string, string list) gomap" where
  "addNode groups node =
     (case compactMatch node of
        Some (prefix, num) \<Rightarrow>
          gm_put prefix ((case gm_get groups prefix of Some ns \<Rightarrow> ns | None \<Rightarrow> []) @ [num]) groups
      | None \<Rightarrow> gm_put node [] groups)"

definition compactGroups :: "string list \<Rightarrow> (string, string list) gomap" where
  "compactGroups nodes = foldl addNode [] nodes"

definition compactEntry :: "(string, string list) gomap \<Rightarrow> string \<Rightarrow> string" where
  "compactEntry groups prefix =
     prefix @ compressRange (sort_key atoi (case gm_get groups prefix of Some ns \<Rightarrow> ns | None \<Rightarrow> []))"

definition Compact :: "string list \<Rightarrow> string list" where
  "Compact nodes =
     (let groups = compactGroups nodes in map (compactEntry groups) (sorted_keys groups))"

subsection \<open>Expand\<close>

text \<open>
  The loop \<open>for i := lo; i <= hi; i++\<close> of \<open>Expand\<close>. The counter is a Go \<open>int\<close>: with \<open>hi\<close> at the
  largest value it wraps around and the loop does not end, which is the value \<open>None\<close>.
\<close>

definition rangeName :: "string \<Rightarrow> nat \<Rightarrow> int \<Rightarrow> string" where
  "rangeName prefix width i = prefix @ pad0 width (nat i)"

partial_function (option) expandRange ::
  "string \<Rightarrow> nat \<Rightarrow> int \<Rightarrow> int \<Rightarrow> string list \<Rightarrow> string list option" where
  "expandRange prefix width i hi acc =
     (if i \<le> hi then expandRange prefix width (wrap64 (i + 1)) hi (acc @ [rangeName prefix width i])
      else Some acc)"

definition expandPart :: "string \<Rightarrow> string list \<Rightarrow> string \<Rightarrow> string list option" where
  "expandPart prefix result part =
     (if CHR ''-'' \<in> set part then
        (let bounds = split_on (CHR ''-'') part
         in expandRange prefix (length (bounds ! 0)) (atoi (bounds ! 0)) (atoi (bounds ! 1)) result)
      else Some (result @ [prefix @ part]))"

fun expandParts :: "string \<Rightarrow> string list \<Rightarrow> string list \<Rightarrow> string list option" where
  "expandParts prefix result [] = Some result"
| "expandParts prefix result (p # ps) =
     (case expandPart prefix result p of None \<Rightarrow> None | Some r \<Rightarrow> expandParts prefix r ps)"

fun expandLoop :: "string list \<Rightarrow> string list \<Rightarrow> string list option" where
  "expandLoop result [] = Some result"
| "expandLoop result (entry # es) =
     (case expandMatch entry of
        Some (prefix, ranges) \<Rightarrow>
          (case expandParts prefix result (split_on (CHR '','') ranges) of
             None \<Rightarrow> None
           | Some r \<Rightarrow> expandLoop r es)
      | None \<Rightarrow> expandLoop (result @ [entry]) es)"

definition Expand :: "string list \<Rightarrow> string list option" where
  "Expand compressed = expandLoop [] compressed"

subsection \<open>ExpandWithLimit\<close>

definition maxExpandedNodes :: int where
  "maxExpandedNodes = 500000"

datatype cluset_error = ExceedsLimit int

text \<open>The inner loop of \<open>expandWithLimit\<close> leaves before the counter can wrap.\<close>

function limitRange :: "string \<Rightarrow> nat \<Rightarrow> int \<Rightarrow> int \<Rightarrow> string list \<Rightarrow> string list" where
  "limitRange prefix width i hi acc =
     (if i \<le> hi then
        (let acc' = acc @ [rangeName prefix width i]
         in if i = hi then acc' else limitRange prefix width (i + 1) hi acc')
      else acc)"
  by pat_completeness auto
termination
  by (relation "measure (\<lambda>(p, w, i, hi, acc). nat (hi - i))") auto

declare limitRange.simps [simp del]

definition limitPart :: "int \<Rightarrow> string \<Rightarrow> string list \<Rightarrow> string \<Rightarrow> cluset_error + string list" where
  "limitPart limit prefix result part =
     (if CHR ''-'' \<in> set part then
        (let bounds = split_on (CHR ''-'') part;
             lo = atoi (bounds ! 0); hi = atoi (bounds ! 1); width = length (bounds ! 0)
         in if hi \<ge> lo \<and> hi - lo \<ge> limit - int (length result) then Inl (ExceedsLimit limit)
            else Inr (limitRange prefix width lo hi result))
      else
        (let r = result @ [prefix @ part]
         in if int (length r) > limit then Inl (ExceedsLimit limit) else Inr r))"

fun limitParts :: "int \<Rightarrow> string \<Rightarrow> string list \<Rightarrow> string list \<Rightarrow> cluset_error + string list" where
  "limitParts limit prefix result [] = Inr result"
| "limitParts limit prefix result (p # ps) =
     (case limitPart limit prefix result p of
        Inl e \<Rightarrow> Inl e
      | Inr r \<Rightarrow> limitParts limit prefix r ps)"

fun limitLoop :: "int \<Rightarrow> string list \<Rightarrow> string list \<Rightarrow> cluset_error + string list" where
  "limitLoop limit result [] = Inr result"
| "limitLoop limit result (entry # es) =
     (case expandMatch entry of
        Some (prefix, ranges) \<Rightarrow>
          (case limitParts limit prefix result (split_on (CHR '','') ranges) of
             Inl e \<Rightarrow> Inl e
           | Inr r \<Rightarrow> limitLoop limit r es)
      | None \<Rightarrow>
          (let r = result @ [entry]
           in if int (length r) > limit then Inl (ExceedsLimit limit) else limitLoop limit r es))"

definition expandWithLimit :: "string list \<Rightarrow> int \<Rightarrow> cluset_error + string list" where
  "expandWithLimit compressed limit = limitLoop limit [] compressed"

definition ExpandWithLimit :: "string list \<Rightarrow> cluset_error + string list" where
  "ExpandWithLimit compressed = expandWithLimit compressed maxExpandedNodes"

subsection \<open>splitList and ExpandList\<close>

definition addPart :: "string list \<Rightarrow> string \<Rightarrow> string list" where
  "addPart result current =
     (let part = TrimSpace current in if part \<noteq> [] then result @ [part] else result)"

fun splitLoop :: "string list \<Rightarrow> string \<Rightarrow> nat \<Rightarrow> string \<Rightarrow> string list" where
  "splitLoop result current depth [] = (if current \<noteq> [] then addPart result current else result)"
| "splitLoop result current depth (ch # s) =
     (if ch = CHR ''['' then splitLoop result (current @ [ch]) (depth + 1) s
      else if ch = CHR '']'' then splitLoop result (current @ [ch]) (depth - 1) s
      else if ch = CHR '','' then
        (if depth = 0 then splitLoop (addPart result current) [] depth s
         else splitLoop result (current @ [ch]) depth s)
      else splitLoop result (current @ [ch]) depth s)"

definition splitList :: "string \<Rightarrow> string list" where
  "splitList list = splitLoop [] [] 0 list"

definition ExpandList :: "string \<Rightarrow> string list option" where
  "ExpandList compressed = Expand (splitList compressed)"

section \<open>Ranges\<close>

lemma limitRange_eq: "limitRange prefix width i hi acc = acc @ map (rangeName prefix width) [i..hi]"
proof (induction prefix width i hi acc rule: limitRange.induct)
  case (1 prefix width i hi acc)
  show ?case
  proof (cases "i < hi")
    case True
    with "1.IH" show ?thesis
      by (simp add: limitRange.simps [of prefix width i hi acc] upto_rec1 [of i hi])
  next
    case False
    then show ?thesis
      by (auto simp: limitRange.simps [of prefix width i hi acc] upto_rec1 [of i hi])
  qed
qed

lemma expandRange_eq:
  assumes "0 \<le> i" and "hi < maxInt"
  shows "expandRange prefix width i hi acc = Some (acc @ map (rangeName prefix width) [i..hi])"
  using assms
proof (induction "nat (hi + 1 - i)" arbitrary: i acc)
  case 0
  then show ?case by (subst expandRange.simps) (simp add: upto_rec1)
next
  case (Suc n)
  then have "i \<le> hi" and w: "wrap64 (i + 1) = i + 1"
    by (auto intro!: wrap64_id simp: maxInt_def)
  moreover have "expandRange prefix width (i + 1) hi (acc @ [rangeName prefix width i]) =
      Some ((acc @ [rangeName prefix width i]) @ map (rangeName prefix width) [i + 1..hi])"
    using Suc by (intro Suc.hyps) auto
  ultimately show ?case by (subst expandRange.simps) (simp add: upto_rec1 [of i hi])
qed

text \<open>With the upper bound at the largest \<open>int\<close> the counter wraps and the loop never ends.\<close>

lemma expandRange_diverges:
  assumes "hi = maxInt" and "i \<le> maxInt"
  shows "expandRange prefix width i hi acc = None"
proof (rule ccontr)
  assume "expandRange prefix width i hi acc \<noteq> None"
  then obtain r where ret: "expandRange prefix width i hi acc = Some r" by blast
  have "\<not> (hi = maxInt \<and> i \<le> maxInt)"
  proof (rule expandRange.raw_induct [where P = "\<lambda>p w i hi acc r. \<not> (hi = maxInt \<and> i \<le> maxInt)",
        OF _ ret], goal_cases)
    case (1 f p w i hi acc r)
    show ?case
    proof
      assume a: "hi = maxInt \<and> i \<le> maxInt"
      with 1(2) have "f p w (wrap64 (i + 1)) hi (acc @ [rangeName p w i]) = Some r" by simp
      then have "\<not> (hi = maxInt \<and> wrap64 (i + 1) \<le> maxInt)" by (rule 1(1))
      with a show False by (simp add: wrap64_range)
    qed
  qed
  with assms show False by simp
qed

lemma expandRange_Some_iff:
  assumes "0 \<le> i" and "i \<le> maxInt" and "hi \<le> maxInt"
  shows "expandRange prefix width i hi acc =
    (if hi = maxInt then None else Some (acc @ map (rangeName prefix width) [i..hi]))"
  using assms by (auto simp: expandRange_diverges expandRange_eq)

lemma split_on_two: "c \<in> set s \<Longrightarrow> 2 \<le> length (split_on c s)"
  by (induction s) (auto split: list.splits simp: Suc_le_eq)

lemma split_bound_atoi:
  assumes "CHR ''-'' \<in> set part" and "k < 2"
  shows "0 \<le> atoi (split_on (CHR ''-'') part ! k)" "atoi (split_on (CHR ''-'') part ! k) \<le> maxInt"
proof -
  have "split_on (CHR ''-'') part ! k \<in> set (split_on (CHR ''-'') part)"
    using assms split_on_two [OF assms(1)] by (intro nth_mem) simp
  then show "0 \<le> atoi (split_on (CHR ''-'') part ! k)"
    by (intro atoi_nonneg split_on_no_sep)
  show "atoi (split_on (CHR ''-'') part ! k) \<le> maxInt" by (rule atoi_le_maxInt)
qed

text \<open>What one part of a bracket expression stands for, and the parts whose loop does not end.\<close>

definition partNames :: "string \<Rightarrow> string \<Rightarrow> string list" where
  "partNames prefix part =
     (if CHR ''-'' \<in> set part then
        (let bounds = split_on (CHR ''-'') part
         in map (rangeName prefix (length (bounds ! 0))) [atoi (bounds ! 0)..atoi (bounds ! 1)])
      else [prefix @ part])"

definition endlessPart :: "string \<Rightarrow> bool" where
  "endlessPart part \<longleftrightarrow> CHR ''-'' \<in> set part \<and> atoi (split_on (CHR ''-'') part ! 1) = maxInt"

lemma expandPart_eq:
  "expandPart prefix result part =
     (if endlessPart part then None else Some (result @ partNames prefix part))"
  by (auto simp: expandPart_def endlessPart_def partNames_def Let_def expandRange_Some_iff
      split_bound_atoi)

lemma limitPart_eq:
  assumes "int (length result) \<le> limit"
  shows "limitPart limit prefix result part =
    (if int (length (result @ partNames prefix part)) \<le> limit
     then Inr (result @ partNames prefix part) else Inl (ExceedsLimit limit))"
  using assms by (auto simp: limitPart_def partNames_def Let_def limitRange_eq)

definition entryParts :: "string \<Rightarrow> (string \<times> string list) option" where
  "entryParts entry =
     map_option (\<lambda>(prefix, ranges). (prefix, split_on (CHR '','') ranges)) (expandMatch entry)"

definition entryNames :: "string \<Rightarrow> string list" where
  "entryNames entry =
     (case entryParts entry of
        Some (prefix, parts) \<Rightarrow> concat (map (partNames prefix) parts)
      | None \<Rightarrow> [entry])"

definition endlessEntry :: "string \<Rightarrow> bool" where
  "endlessEntry entry =
     (case entryParts entry of Some (_, parts) \<Rightarrow> list_ex endlessPart parts | None \<Rightarrow> False)"

lemma expandParts_eq:
  "expandParts prefix result parts =
     (if list_ex endlessPart parts then None
      else Some (result @ concat (map (partNames prefix) parts)))"
  by (induction parts arbitrary: result) (auto simp: expandPart_eq)

lemma expandLoop_eq:
  "expandLoop result es =
     (if list_ex endlessEntry es then None else Some (result @ concat (map entryNames es)))"
  by (induction es arbitrary: result)
    (auto simp: expandParts_eq endlessEntry_def entryNames_def entryParts_def split: option.splits)

lemma Expand_eq:
  "Expand es = (if list_ex endlessEntry es then None else Some (concat (map entryNames es)))"
  by (simp add: Expand_def expandLoop_eq)

lemma limitParts_eq:
  assumes "int (length result) \<le> limit"
  shows "limitParts limit prefix result parts =
    (let r = result @ concat (map (partNames prefix) parts)
     in if int (length r) \<le> limit then Inr r else Inl (ExceedsLimit limit))"
  using assms by (induction parts arbitrary: result) (auto simp: limitPart_eq Let_def)

lemma limitLoop_eq:
  assumes "int (length result) \<le> limit"
  shows "limitLoop limit result es =
    (let r = result @ concat (map entryNames es)
     in if int (length r) \<le> limit then Inr r else Inl (ExceedsLimit limit))"
  using assms
proof (induction es arbitrary: result)
  case (Cons e es)
  show ?case
  proof (cases "expandMatch e")
    case None
    then show ?thesis using Cons
      by (auto simp: Let_def entryNames_def entryParts_def)
  next
    case (Some pr)
    then show ?thesis using Cons
      by (cases pr) (auto simp: Let_def entryNames_def entryParts_def limitParts_eq)
  qed
qed simp

section \<open>Compact followed by Expand\<close>

lemma compactMatch_Some:
  assumes "compactMatch node = Some (p, d)"
  shows "node = p @ d" "d \<noteq> []" "\<forall>c \<in> set d. is_digit c" "newline \<notin> set p"
proof -
  have "node = rev (dropWhile is_digit (rev node)) @ rev (takeWhile is_digit (rev node))"
    by (metis rev_append rev_rev_ident takeWhile_dropWhile_id)
  with assms show "node = p @ d"
    by (auto simp: compactMatch_def Let_def split: if_splits)
  show "d \<noteq> []" "newline \<notin> set p"
    using assms by (auto simp: compactMatch_def Let_def split: if_splits)
  show "\<forall>c \<in> set d. is_digit c"
    using assms by (auto simp: compactMatch_def Let_def dest: set_takeWhileD split: if_splits)
qed

text \<open>
  The names a partially built group table stands for: a group without numbers is a plain name.
\<close>

definition groupNames :: "string \<times> string list \<Rightarrow> string list" where
  "groupNames g = (if snd g = [] then [fst g] else map ((@) (fst g)) (snd g))"

definition tableNames :: "(string, string list) gomap \<Rightarrow> string list" where
  "tableNames groups = concat (map groupNames groups)"

lemma tableNames_put_fresh:
  "k \<notin> set (gm_keys m) \<Longrightarrow> tableNames (gm_put k v m) = tableNames m @ groupNames (k, v)"
  by (simp add: tableNames_def gm_put_fresh)

lemma tableNames_put_present:
  "gm_wf m \<Longrightarrow> gm_get m k = Some v \<Longrightarrow>
     mset (tableNames (gm_put k v' m)) + mset (groupNames (k, v)) =
     mset (tableNames m) + mset (groupNames (k, v'))"
  by (induction m) (auto simp: tableNames_def split: if_splits)

text \<open>
  Names \<open>Compact\<close> can represent: all different; no name is the bare prefix of a numbered one;
  numbers below the largest \<open>int\<close>; and within one prefix the numbers are written so that padding
  to the width of a smaller one reproduces the larger (all of one width, or none with leading
  zeros).
\<close>

definition numberedOk :: "string list \<Rightarrow> string \<Rightarrow> string \<Rightarrow> bool" where
  "numberedOk nodes p d \<longleftrightarrow>
     CHR ''['' \<notin> set p \<and> p \<notin> set nodes \<and>
     int (length d) \<le> 1000000 \<and> int (dec_val 0 d) < maxInt \<and>
     (\<forall>m \<in> set nodes. case compactMatch m of
        Some (q, e) \<Rightarrow> q = p \<and> dec_val 0 d \<le> dec_val 0 e \<longrightarrow> e = pad0 (length d) (dec_val 0 e)
      | None \<Rightarrow> True)"

definition compactable :: "string list \<Rightarrow> bool" where
  "compactable nodes \<longleftrightarrow>
     distinct nodes \<and>
     (\<forall>n \<in> set nodes. case compactMatch n of
        Some (p, d) \<Rightarrow> numberedOk nodes p d
      | None \<Rightarrow> expandMatch n = None)"

lemma compactable_numbered:
  "compactable nodes \<Longrightarrow> n \<in> set nodes \<Longrightarrow> compactMatch n = Some (p, d) \<Longrightarrow> numberedOk nodes p d"
  by (auto simp: compactable_def split: option.splits)

lemma compactable_plain:
  "compactable nodes \<Longrightarrow> n \<in> set nodes \<Longrightarrow> compactMatch n = None \<Longrightarrow> expandMatch n = None"
  unfolding compactable_def by (drule conjunct2, drule bspec) auto

text \<open>A table entry of a compactable list: a plain name of the list, or numbers of one prefix.\<close>

definition groupOk :: "string list \<Rightarrow> string \<times> string list \<Rightarrow> bool" where
  "groupOk nodes g \<longleftrightarrow>
     (snd g = [] \<longrightarrow> fst g \<in> set nodes \<and> compactMatch (fst g) = None) \<and>
     (\<forall>d \<in> set (snd g). fst g @ d \<in> set nodes \<and> compactMatch (fst g @ d) = Some (fst g, d))"

definition tableOk :: "string list \<Rightarrow> string list \<Rightarrow> (string, string list) gomap \<Rightarrow> bool" where
  "tableOk nodes seen groups \<longleftrightarrow>
     gm_wf groups \<and> (\<forall>g \<in> set groups. groupOk nodes g) \<and> mset (tableNames groups) = mset seen"

lemma groupOk_put:
  assumes "\<forall>g \<in> set m. groupOk nodes g" and "groupOk nodes (k, v)"
  shows "\<forall>g \<in> set (gm_put k v m). groupOk nodes g"
  using assms by (induction m) auto

lemma key_in_tableNames:
  assumes "(k, []) \<in> set groups"
  shows "k \<in> set (tableNames groups)"
  using assms by (force simp: tableNames_def groupNames_def)

lemma tableOk_get: "tableOk nodes seen groups \<Longrightarrow> gm_get groups k = Some ns \<Longrightarrow> groupOk nodes (k, ns)"
  by (auto simp: tableOk_def dest: map_of_SomeD)

lemma addNode_ok:
  assumes c: "compactable nodes" and n: "n \<in> set nodes" "n \<notin> set seen"
    and ok: "tableOk nodes seen groups"
  shows "tableOk nodes (seen @ [n]) (addNode groups n)"
proof (cases "compactMatch n")
  case None
  have "n \<notin> set (gm_keys groups)"
  proof
    assume "n \<in> set (gm_keys groups)"
    then obtain ns where g: "(n, ns) \<in> set groups" by auto
    have "ns \<noteq> []"
      using key_in_tableNames [of n groups] g ok n(2) mset_eq_setD [of "tableNames groups" seen]
      by (auto simp: tableOk_def)
    then obtain d where "d \<in> set ns" using list.set_sel(1) by blast
    with g ok have "n @ d \<in> set nodes" "compactMatch (n @ d) = Some (n, d)"
      by (auto simp: tableOk_def groupOk_def)
    with c n(1) show False
      by (auto simp: compactable_def numberedOk_def split: option.splits)
  qed
  moreover have "groupOk nodes (n, [])" using None n by (simp add: groupOk_def)
  ultimately show ?thesis
    using ok None gm_wf_put [of groups n "[]"] groupOk_put [of groups nodes n "[]"]
    by (simp add: addNode_def tableOk_def tableNames_put_fresh groupNames_def)
next
  case (Some pd)
  then obtain p d where pd: "compactMatch n = Some (p, d)" by (cases pd) auto
  note m = compactMatch_Some [OF pd]
  let ?old = "case gm_get groups p of Some ns \<Rightarrow> ns | None \<Rightarrow> []"
  have nonempty: "ns \<noteq> []" if "gm_get groups p = Some ns" for ns
  proof
    assume "ns = []"
    with tableOk_get [OF ok that] have "p \<in> set nodes" by (simp add: groupOk_def)
    with c n(1) pd show False by (auto simp: compactable_def numberedOk_def)
  qed
  have "\<forall>e \<in> set ?old. p @ e \<in> set nodes \<and> compactMatch (p @ e) = Some (p, e)"
    using tableOk_get [OF ok, of p] by (cases "gm_get groups p") (simp_all add: groupOk_def)
  then have "groupOk nodes (p, ?old @ [d])"
    using m(1) n(1) pd by (auto simp: groupOk_def)
  moreover have "mset (tableNames (gm_put p (?old @ [d]) groups)) = mset (seen @ [n])"
  proof (cases "gm_get groups p")
    case None
    then have "p \<notin> set (gm_keys groups)" by (simp add: map_of_eq_None_iff)
    with None ok m(1) show ?thesis
      by (simp add: tableOk_def tableNames_put_fresh groupNames_def)
  next
    case (Some ns)
    then show ?thesis
      using ok m(1) nonempty tableNames_put_present [of groups p ns "ns @ [d]"]
      by (simp add: tableOk_def groupNames_def)
  qed
  ultimately show ?thesis
    using ok pd gm_wf_put [of groups p] groupOk_put [of groups nodes p]
    by (simp add: addNode_def tableOk_def)
qed

lemma compactGroups_ok:
  assumes "compactable nodes"
  shows "tableOk nodes nodes (compactGroups nodes)"
proof -
  have "tableOk nodes seen (foldl addNode [] seen)" if "\<exists>rest. nodes = seen @ rest" for seen
    using that
  proof (induction seen rule: rev_induct)
    case Nil
    show ?case by (simp add: tableOk_def tableNames_def)
  next
    case (snoc n ns)
    then have "n \<in> set nodes" "n \<notin> set ns" "tableOk nodes ns (foldl addNode [] ns)"
      using assms by (auto simp: compactable_def)
    then show ?case using addNode_ok [OF assms] by simp
  qed
  then show ?thesis by (simp add: compactGroups_def)
qed

text \<open>Numbers of one group, as the sort of \<open>Compact\<close> leaves them.\<close>

definition numsOk :: "string list \<Rightarrow> bool" where
  "numsOk ns \<longleftrightarrow>
     (\<forall>d \<in> set ns. d \<noteq> [] \<and> (\<forall>c \<in> set d. is_digit c) \<and> int (length d) \<le> 1000000 \<and>
        int (dec_val 0 d) < maxInt) \<and>
     (\<forall>d \<in> set ns. \<forall>e \<in> set ns. dec_val 0 d \<le> dec_val 0 e \<longrightarrow> e = pad0 (length d) (dec_val 0 e))"

lemma numsOk_atoi: "numsOk ns \<Longrightarrow> d \<in> set ns \<Longrightarrow> atoi d = int (dec_val 0 d)"
  by (auto simp: numsOk_def intro!: atoi_dec_val)

lemma numsOk_subset: "numsOk ns \<Longrightarrow> set ms \<subseteq> set ns \<Longrightarrow> numsOk ms"
  unfolding numsOk_def by blast

lemma digits_no_sep:
  assumes "\<forall>c \<in> set d. is_digit c"
  shows "CHR ''-'' \<notin> set d" "CHR '','' \<notin> set d" "newline \<notin> set d"
  using assms by (auto simp: is_digit_def)

lemma partNames_single: "\<forall>c \<in> set d. is_digit c \<Longrightarrow> partNames p d = [p @ d]"
  by (simp add: partNames_def digits_no_sep)

lemma split_range:
  assumes "\<forall>c \<in> set s. is_digit c" and "\<forall>c \<in> set e. is_digit c"
  shows "split_on (CHR ''-'') (s @ ''-'' @ e) = [s, e]"
  using assms by (simp add: digits_no_sep split_on_append_sep split_on_absent)

lemma partNames_formatRange:
  assumes "numsOk [s, e]" and "dec_val 0 s \<le> dec_val 0 e"
  shows "partNames p (formatRange s e) =
    map (\<lambda>i. p @ pad0 (length s) (nat i)) [int (dec_val 0 s)..int (dec_val 0 e)]"
proof -
  have dig: "\<forall>c \<in> set s. is_digit c" "\<forall>c \<in> set e. is_digit c"
    and at: "atoi s = int (dec_val 0 s)" "atoi e = int (dec_val 0 e)"
    using assms(1) numsOk_atoi [OF assms(1)] by (simp_all add: numsOk_def)
  show ?thesis
  proof (cases "s = e")
    case True
    moreover have "s = pad0 (length s) (dec_val 0 s)" using assms(1) by (simp add: numsOk_def)
    ultimately show ?thesis using dig by (simp add: formatRange_def partNames_single)
  next
    case False
    then show ?thesis
      using dig at by (simp add: formatRange_def partNames_def split_range rangeName_def
          split_range [simplified])
  qed
qed

lemma endless_formatRange:
  assumes "numsOk [s, e]"
  shows "\<not> endlessPart (formatRange s e)"
proof -
  have "\<forall>c \<in> set s. is_digit c" "\<forall>c \<in> set e. is_digit c"
    and "atoi s < maxInt" "atoi e < maxInt"
    using assms numsOk_atoi [OF assms] by (simp_all add: numsOk_def)
  then show ?thesis
    by (auto simp: endlessPart_def formatRange_def digits_no_sep split_range [simplified])
qed

lemma compressLoop_names:
  assumes "numsOk (s # e # ns)" and "dec_val 0 s \<le> dec_val 0 e"
    and "sorted (map (dec_val 0) (e # ns))"
  shows "concat (map (partNames p) (compressLoop s e ns)) =
      map (\<lambda>i. p @ pad0 (length s) (nat i)) [int (dec_val 0 s)..int (dec_val 0 e)] @ map ((@) p) ns
    \<and> \<not> list_ex endlessPart (compressLoop s e ns)"
  using assms
proof (induction s e ns rule: compressLoop.induct)
  case (1 s e)
  then show ?case
    using partNames_formatRange [of s e p] endless_formatRange [of s e] by simp
next
  case (2 s e n ns)
  have ok: "numsOk (s # n # ns)" "numsOk (n # n # ns)" "numsOk [s, e]"
    by (rule numsOk_subset [OF "2.prems"(1)], auto)+
  have at: "atoi n = int (dec_val 0 n)" "atoi e = int (dec_val 0 e)"
    using numsOk_atoi [OF "2.prems"(1)] by simp_all
  have lt: "int (dec_val 0 e) < maxInt" using "2.prems"(1) by (simp add: numsOk_def)
  then have w: "wrap64 (atoi e + 1) = int (dec_val 0 e) + 1"
    by (simp add: at wrap64_id maxInt_def)
  have srt: "sorted (map (dec_val 0) (n # ns))" and le: "dec_val 0 e \<le> dec_val 0 n"
    using "2.prems"(3) by simp_all
  show ?case
  proof (cases "atoi n = wrap64 (atoi e + 1)")
    case True
    then have nx: "int (dec_val 0 n) = int (dec_val 0 e) + 1" using w at by simp
    have "n = pad0 (length s) (dec_val 0 n)"
      using "2.prems"(1,2) le by (simp add: numsOk_def)
    then have "[int (dec_val 0 s)..int (dec_val 0 n)] =
        [int (dec_val 0 s)..int (dec_val 0 e)] @ [int (dec_val 0 n)]"
      using "2.prems"(2) nx by (simp add: upto_rec2)
    then show ?thesis
      using True "2.IH"(1) [OF True ok(1) _ srt] "2.prems"(2) le
        \<open>n = pad0 (length s) (dec_val 0 n)\<close> by simp
  next
    case False
    have "n = pad0 (length n) (dec_val 0 n)" using "2.prems"(1) by (simp add: numsOk_def)
    with False show ?thesis
      using "2.IH"(2) [OF False ok(2) _ srt] partNames_formatRange [OF ok(3) "2.prems"(2)]
        endless_formatRange [OF ok(3)] by simp
  qed
qed

lemma compressLoop_chars:
  assumes "\<forall>d \<in> set (s # e # ns). \<forall>c \<in> set d. is_digit c"
  shows "\<forall>part \<in> set (compressLoop s e ns). CHR '','' \<notin> set part \<and> newline \<notin> set part"
  using assms
  by (induction s e ns rule: compressLoop.induct)
    (auto simp: formatRange_def is_digit_def)

lemma compressLoop_nonempty [simp]: "compressLoop s e ns \<noteq> []"
  by (induction s e ns rule: compressLoop.induct) auto

lemma set_join: "set (join sep xs) \<subseteq> set sep \<union> (\<Union>x \<in> set xs. set x)"
  by (induction sep xs rule: join.induct) auto

lemma expandMatch_brackets:
  assumes "CHR ''['' \<notin> set p" and "newline \<notin> set p" and "newline \<notin> set inner"
  shows "expandMatch (p @ ''['' @ inner @ '']'') = Some (p, inner)"
proof -
  have "dropWhile (\<lambda>c. c \<noteq> CHR ''['') (p @ ''['' @ inner @ '']'') = CHR ''['' # inner @ '']''"
    and "takeWhile (\<lambda>c. c \<noteq> CHR ''['') (p @ ''['' @ inner @ '']'') = p"
    using assms(1) by (induction p) auto
  then show ?thesis
    using assms(2,3) by (simp add: expandMatch_def)
qed

lemma expandMatch_digit_end:
  assumes "d \<noteq> []" and "\<forall>c \<in> set d. is_digit c"
  shows "expandMatch (p @ d) = None"
proof -
  have "last rest = last d" if "dropWhile P (p @ d) = x # rest" and "rest \<noteq> []" for P x rest
  proof -
    have "x # rest = drop (length (takeWhile P (p @ d))) (p @ d)"
      using that(1) by (simp add: dropWhile_eq_drop)
    then have "last (x # rest) = last (p @ d)"
      by (metis last_drop drop_all list.distinct(1) not_le)
    with that assms(1) show ?thesis by simp
  qed
  moreover have "is_digit (last d)" using assms by simp
  moreover have "\<not> is_digit (CHR '']'')" by (simp add: is_digit_def)
  ultimately show ?thesis by (auto simp: expandMatch_def split: list.splits)
qed

lemma entryNames_compress:
  assumes "numsOk ns" and "sorted (map (dec_val 0) ns)" and "ns \<noteq> []"
    and "CHR ''['' \<notin> set p" and "newline \<notin> set p"
  shows "entryNames (p @ compressRange ns) = map ((@) p) ns" (is ?names)
    and "\<not> endlessEntry (p @ compressRange ns)" (is ?ends)
proof -
  have dig: "\<forall>d \<in> set ns. d \<noteq> [] \<and> (\<forall>c \<in> set d. is_digit c)" using assms(1) by (simp add: numsOk_def)
  consider (one) n where "ns = [n]" | (more) n m ms where "ns = n # m # ms"
    using assms(3) by (metis list.exhaust)
  then have "?names \<and> ?ends"
  proof cases
    case one
    then show ?thesis using dig
      by (simp add: entryNames_def endlessEntry_def entryParts_def expandMatch_digit_end)
  next
    case more
    let ?parts = "compressLoop n n (m # ms)"
    have ok: "numsOk (n # n # m # ms)" by (rule numsOk_subset [OF assms(1)]) (auto simp: more)
    have chars: "\<forall>part \<in> set ?parts. CHR '','' \<notin> set part \<and> newline \<notin> set part"
      using dig more by (intro compressLoop_chars) auto
    then have "newline \<notin> set (join '','' ?parts)"
      using set_join [of "'',''" ?parts] by auto
    then have match: "expandMatch (p @ compressRange ns) = Some (p, join '','' ?parts)"
      using expandMatch_brackets [OF assms(4,5)] more by simp
    have split: "split_on (CHR '','') (join '','' ?parts) = ?parts"
      using chars by (intro split_join) auto
    have "n = pad0 (length n) (dec_val 0 n)" using ok by (simp add: numsOk_def)
    then have "concat (map (partNames p) ?parts) = map ((@) p) ns \<and> \<not> list_ex endlessPart ?parts"
      using compressLoop_names [OF ok, of p] assms(2) more by simp
    with match split show ?thesis
      by (simp only: entryNames_def endlessEntry_def entryParts_def option.map prod.case option.case
          simp_thms)
  qed
  then show ?names ?ends by blast+
qed

lemma groupOk_numsOk:
  assumes "compactable nodes" and "groupOk nodes (p, ns)"
  shows "numsOk ns"
proof -
  have num: "numberedOk nodes p d \<and> d \<noteq> [] \<and> (\<forall>c \<in> set d. is_digit c)" if "d \<in> set ns" for d
    using assms that compactMatch_Some [of "p @ d" p d] compactable_numbered [of nodes "p @ d" p d]
    by (simp add: groupOk_def)
  have "e = pad0 (length d) (dec_val 0 e)"
    if "d \<in> set ns" "e \<in> set ns" "dec_val 0 d \<le> dec_val 0 e" for d e
    using num [OF that(1)] that assms(2) by (fastforce simp: numberedOk_def groupOk_def)
  with num show ?thesis by (auto simp: numsOk_def numberedOk_def)
qed

lemma sort_nums_ok:
  assumes "numsOk ns"
  shows "numsOk (sort_key atoi ns)" "sorted (map (dec_val 0) (sort_key atoi ns))"
proof -
  show ok: "numsOk (sort_key atoi ns)" by (rule numsOk_subset [OF assms]) simp
  have "sorted_wrt (\<lambda>x y. atoi x \<le> atoi y) (sort_key atoi ns)"
    using sorted_sort_key [of atoi ns] by (simp only: sorted_wrt_map)
  then have "sorted_wrt (\<lambda>x y. dec_val 0 x \<le> dec_val 0 y) (sort_key atoi ns)"
    by (rule sorted_wrt_mono_rel [rotated]) (simp add: numsOk_atoi [OF ok])
  then show "sorted (map (dec_val 0) (sort_key atoi ns))" by (simp only: sorted_wrt_map)
qed

lemma group_entry:
  assumes c: "compactable nodes" and ok: "groupOk nodes (p, ns)"
  shows "mset (entryNames (p @ compressRange (sort_key atoi ns))) = mset (groupNames (p, ns)) \<and>
    \<not> endlessEntry (p @ compressRange (sort_key atoi ns))"
proof (cases "ns = []")
  case True
  with c ok have "expandMatch p = None" by (simp add: True groupOk_def compactable_plain)
  with True show ?thesis by (simp add: groupNames_def entryNames_def endlessEntry_def entryParts_def)
next
  case False
  then obtain d where "d \<in> set ns" using list.set_sel(1) by blast
  with c ok have "numberedOk nodes p d" "newline \<notin> set p"
    using compactMatch_Some [of "p @ d" p d] compactable_numbered [of nodes "p @ d" p d]
    by (simp_all add: groupOk_def)
  then have "CHR ''['' \<notin> set p" "newline \<notin> set p" by (simp_all add: numberedOk_def)
  moreover have "sort_key atoi ns \<noteq> []" using False by (metis sort_key_simps(1) length_0_conv length_sort)
  ultimately show ?thesis
    using entryNames_compress sort_nums_ok [OF groupOk_numsOk [OF c ok]] False
    by (simp add: groupNames_def)
qed

lemma Compact_perm:
  "Compact nodes = map (compactEntry (compactGroups nodes)) (sorted_keys (compactGroups nodes))"
  by (simp add: Compact_def Let_def)

lemma Expand_Compact:
  assumes c: "compactable nodes"
  obtains r where "Expand (Compact nodes) = Some r" and "mset r = mset nodes"
proof -
  let ?g = "compactGroups nodes"
  note t = compactGroups_ok [OF c]
  have wf: "gm_wf ?g" using t by (simp add: tableOk_def)
  have entry: "mset (entryNames (compactEntry ?g p)) = mset (groupNames (p, the (gm_get ?g p))) \<and>
      \<not> endlessEntry (compactEntry ?g p)" if "p \<in> set (gm_keys ?g)" for p
  proof -
    from that obtain ns where ns: "gm_get ?g p = Some ns" by (metis map_of_eq_None_iff not_None_eq list.set_map)
    show ?thesis using group_entry [OF c tableOk_get [OF t ns]] ns by (simp add: compactEntry_def)
  qed
  have "mset (concat (map entryNames (Compact nodes))) =
      (\<Sum>p \<in># mset (gm_keys ?g). mset (entryNames (compactEntry ?g p)))"
    by (simp add: Compact_perm mset_concat_map sorted_keys_def image_mset.compositionality comp_def)
  also have "\<dots> = (\<Sum>p \<in># mset (gm_keys ?g). mset (groupNames (p, the (gm_get ?g p))))"
    using entry by (intro arg_cong [where f = sum_mset] image_mset_cong) auto
  also have "\<dots> = (\<Sum>x \<in># mset ?g. mset (groupNames x))"
    by (auto simp: gm_get_Some_mem [OF wf, THEN iffD2] image_mset.compositionality comp_def
        intro!: arg_cong [where f = sum_mset] image_mset_cong)
  also have "\<dots> = mset (tableNames ?g)"
    by (simp add: tableNames_def mset_concat_map)
  also have "\<dots> = mset nodes" using t by (simp add: tableOk_def)
  finally have "mset (concat (map entryNames (Compact nodes))) = mset nodes" .
  moreover have "\<not> list_ex endlessEntry (Compact nodes)"
    using entry by (auto simp: Compact_perm list_ex_iff)
  ultimately show thesis using that by (simp add: Expand_eq)
qed

section \<open>Comma-separated lists\<close>

text \<open>The bracket depth after a piece of text; \<open>None\<close> when a comma stands outside brackets.\<close>

fun scanDepth :: "nat \<Rightarrow> string \<Rightarrow> nat option" where
  "scanDepth depth [] = Some depth"
| "scanDepth depth (c # s) =
     (if c = CHR ''['' then scanDepth (depth + 1) s
      else if c = CHR '']'' then scanDepth (depth - 1) s
      else if c = CHR '','' \<and> depth = 0 then None else scanDepth depth s)"

definition listEntry :: "string \<Rightarrow> bool" where
  "listEntry e \<longleftrightarrow> e \<noteq> [] \<and> TrimSpace e = e \<and> scanDepth 0 e = Some 0"

lemma scanDepth_append:
  "scanDepth depth (s @ t) = (case scanDepth depth s of None \<Rightarrow> None | Some k \<Rightarrow> scanDepth k t)"
  by (induction depth s rule: scanDepth.induct) auto

lemma splitLoop_scan:
  "scanDepth depth e = Some k \<Longrightarrow> splitLoop res cur depth (e @ s) = splitLoop res (cur @ e) k s"
  by (induction depth e arbitrary: cur rule: scanDepth.induct) (auto split: if_splits)

lemma splitLoop_join:
  "\<forall>e \<in> set es. listEntry e \<Longrightarrow> splitLoop res [] 0 (join '','' es) = res @ es"
proof (induction "'',''" es arbitrary: res rule: join.induct)
  case (2 x)
  then show ?case
    using splitLoop_scan [of 0 x 0 res "[]" "[]"] by (simp add: listEntry_def addPart_def)
next
  case (3 x y ys)
  then have "splitLoop res [] 0 (x @ '','' @ join '','' (y # ys)) =
      splitLoop res x 0 ('','' @ join '','' (y # ys))"
    using splitLoop_scan [of 0 x 0 res "[]"] by (simp add: listEntry_def)
  with 3 show ?case by (simp add: listEntry_def addPart_def)
qed simp

definition plainName :: "string \<Rightarrow> bool" where
  "plainName n \<longleftrightarrow> n \<noteq> [] \<and> (\<forall>c \<in> set n. \<not> is_space c \<and> c \<notin> {CHR ''['', CHR '']'', CHR '',''})"

lemma scanDepth_plain:
  "\<forall>c \<in> set s. c \<notin> {CHR ''['', CHR '']''} \<and> (c = CHR '','' \<longrightarrow> 0 < depth) \<Longrightarrow>
     scanDepth depth s = Some depth"
  by (induction depth s rule: scanDepth.induct) auto

lemma plainName_listEntry:
  assumes "plainName n"
  shows "listEntry n"
proof -
  have "hd n \<in> set n" "last n \<in> set n" "n \<noteq> []" using assms by (simp_all add: plainName_def)
  then have "TrimSpace n = n" using assms by (intro TrimSpace_id) (simp_all add: plainName_def)
  moreover have "scanDepth 0 n = Some 0"
    using assms by (intro scanDepth_plain) (simp add: plainName_def)
  ultimately show ?thesis using assms by (simp add: listEntry_def plainName_def)
qed

lemma not_space_bracket: "\<not> is_space (CHR ''['')" "\<not> is_space (CHR '']'')"
  by code_simp+

lemma compressLoop_no_brackets:
  assumes "\<forall>d \<in> set (s # e # ns). \<forall>c \<in> set d. is_digit c"
  shows "\<forall>part \<in> set (compressLoop s e ns). CHR ''['' \<notin> set part \<and> CHR '']'' \<notin> set part"
  using assms
  by (induction s e ns rule: compressLoop.induct) (auto simp: formatRange_def is_digit_def)

lemma bracketed_listEntry:
  assumes "\<forall>c \<in> set p. \<not> is_space c \<and> c \<notin> {CHR ''['', CHR '']'', CHR '',''}"
    and "CHR ''['' \<notin> set inner" and "CHR '']'' \<notin> set inner"
  shows "listEntry (p @ ''['' @ inner @ '']'')"
proof -
  have "scanDepth 0 p = Some 0" "scanDepth 1 inner = Some 1"
    using assms by (intro scanDepth_plain; auto)+
  then have "scanDepth 0 (p @ ''['' @ inner @ '']'') = Some 0"
    by (simp add: scanDepth_append)
  moreover have "TrimSpace (p @ ''['' @ inner @ '']'') = p @ ''['' @ inner @ '']''"
  proof (rule TrimSpace_id)
    show "\<not> is_space (hd (p @ ''['' @ inner @ '']''))"
      using assms(1) by (cases p) (simp_all add: not_space_bracket)
  qed (simp_all add: not_space_bracket)
  ultimately show ?thesis by (simp add: listEntry_def)
qed

lemma Compact_listEntries:
  assumes c: "compactable nodes" and plain: "\<forall>n \<in> set nodes. plainName n"
  shows "\<forall>e \<in> set (Compact nodes). listEntry e"
proof
  let ?g = "compactGroups nodes"
  fix e assume "e \<in> set (Compact nodes)"
  then obtain p where p: "p \<in> set (gm_keys ?g)" and e: "e = compactEntry ?g p"
    by (auto simp: Compact_perm)
  then obtain ns where ns: "gm_get ?g p = Some ns"
    by (metis map_of_eq_None_iff not_None_eq list.set_map)
  note ok = tableOk_get [OF compactGroups_ok [OF c] ns]
  let ?s = "sort_key atoi ns"
  have mem: "plainName (p @ d) \<and> (\<forall>c \<in> set d. is_digit c)" if "d \<in> set ?s" for d
    using that ok plain compactMatch_Some [of "p @ d" p d] by (auto simp: groupOk_def)
  show "listEntry e"
  proof (cases ?s rule: compressRange.cases)
    case 1
    then have "ns = []" by (metis length_0_conv length_sort)
    with ok plain 1 e ns show ?thesis by (simp add: groupOk_def compactEntry_def plainName_listEntry)
  next
    case (2 n)
    with mem [of n] e ns show ?thesis by (simp add: compactEntry_def plainName_listEntry)
  next
    case (3 n m ms)
    let ?inner = "join '','' (compressLoop n n (m # ms))"
    have "\<forall>part \<in> set (compressLoop n n (m # ms)). CHR ''['' \<notin> set part \<and> CHR '']'' \<notin> set part"
      using mem 3 by (intro compressLoop_no_brackets) auto
    then have "CHR ''['' \<notin> set ?inner" "CHR '']'' \<notin> set ?inner"
      using set_join [of "'',''" "compressLoop n n (m # ms)"] by auto
    moreover have "\<forall>c \<in> set p. \<not> is_space c \<and> c \<notin> {CHR ''['', CHR '']'', CHR '',''}"
      using mem [of n] 3 by (auto simp: plainName_def)
    ultimately show ?thesis
      using bracketed_listEntry [of p ?inner] 3 e ns by (simp add: compactEntry_def)
  qed
qed

section \<open>Properties\<close>



text \<open>\<open>expandWithLimit\<close> is \<open>Expand\<close> under a cap: where \<open>Expand\<close> returns, the limited version
  returns the same names if they are within the limit and the limit error otherwise, although it
  checks a range before allocating it.\<close>

theorem expandWithLimit_Expand:
  assumes "Expand es = Some r" and "0 \<le> limit"
  shows "expandWithLimit es limit =
    (if int (length r) \<le> limit then Inr r else Inl (ExceedsLimit limit))"
  using assms limitLoop_eq [of "[]" limit es]
  by (auto simp: expandWithLimit_def Expand_eq Let_def split: if_splits)

text \<open>\<open>expandWithLimit\<close> always returns, even for inputs on which \<open>Expand\<close> would not, and never
  yields more names than the limit allows: an untrusted node list cannot exhaust memory.\<close>

theorem expandWithLimit_bounded:
  assumes "0 \<le> limit"
  shows "(\<exists>r. expandWithLimit es limit = Inr r \<and> int (length r) \<le> limit) \<or>
    expandWithLimit es limit = Inl (ExceedsLimit limit)"
  using assms limitLoop_eq [of "[]" limit es] by (auto simp: expandWithLimit_def Let_def)

text \<open>C25. \<open>Expand\<close> returns exactly when no range of its input ends at the largest \<open>int\<close>: any other
  input, malformed or not, is expanded; a range up to \<open>math.MaxInt\<close> makes the counter wrap and the
  loop run forever.\<close>

theorem Expand_terminates_iff:
  "(\<exists>r. Expand es = Some r) \<longleftrightarrow> \<not> (\<exists>e \<in> set es. endlessEntry e)"
  by (auto simp: Expand_eq list_ex_iff)

text \<open>
  \<open>Compact\<close> keys its table by prefix, and stores a name without trailing digits under itself: when
  such a name is also the prefix of a numbered one, one of the two is lost, whichever comes first.
\<close>

theorem Compact_drops_node:
  "Compact [''n1'', ''n''] = [''n''] \<and> Compact [''n'', ''n1''] = [''n1'']"
  by code_simp

text \<open>
  Numbers of different widths that are consecutive are joined into one range, whose expansion pads
  to the width of its lower bound: \<open>n02\<close> comes back as \<open>n2\<close>.
\<close>

theorem Compact_mixed_widths:
  "Compact [''n1'', ''n02''] = [''n[1-02]''] \<and> Expand [''n[1-02]''] = Some [''n1'', ''n2'']"
  unfolding Expand_eq by code_simp

end
