(* ===== verification/BlockOutput.thy ===== *)
theory BlockOutput
  imports NetTopology Cluset
begin

text \<open>
  Components \<open>pkg/translate/block.go\<close> and \<open>block_complement.go\<close> with the block-info part of
  \<open>block_tree.go\<close>: the blocks of a topology are complemented to the shape given by \<open>BlockSizes\<close>
  (placeholder blocks included), named, sized, and written in Slurm's \<open>topology/block\<close> format.

  The writer of the source never fails here (it is a buffer), so the output is a string.
\<close>

section \<open>Model\<close>

subsection \<open>From base blocks to block infos\<close>

definition isEmptyBlock :: "blockInfo option \<Rightarrow> bool" where
  "isEmptyBlock b = (case b of None \<Rightarrow> True | Some b \<Rightarrow> biName b = [] \<and> biNodes b = [])"

definition blockDisplayName :: "string \<Rightarrow> string \<Rightarrow> string" where
  "blockDisplayName blockID primarydomain = (if primarydomain \<noteq> [] then primarydomain else blockID)"

fun leafDomains :: "string list \<Rightarrow> HostInfo option list \<Rightarrow> string list" where
  "leafDomains ids [] = ids"
| "leafDomains ids (None # leaves) = leafDomains ids leaves"
| "leafDomains ids (Some h # leaves) =
     (if Domain h = [] \<or> Domain h \<in> set ids then leafDomains ids leaves
      else leafDomains (ids @ [Domain h]) leaves)"

definition domainIDsFromLeaves :: "HostInfo option list \<Rightarrow> string list" where
  "domainIDsFromLeaves leaves = sort (leafDomains [] leaves)"

definition hostNamesFromLeaves :: "HostInfo option list \<Rightarrow> string list" where
  "hostNamesFromLeaves leaves =
     filter (\<lambda>n. n \<noteq> []) (map HostName (List.map_filter id leaves))"

definition baseBlockToBlockInfo :: "baseBlockNode \<Rightarrow> (string, blockInfo) gomap \<Rightarrow> nat \<Rightarrow> blockInfo" where
  "baseBlockToBlockInfo bb byName seq =
     (let i = blockID3 seq;
          domainID = levelIdentifier (BaseBlock bb);
          nodes = hostNamesFromLeaves (bbLeaves bb)
      in if nodes \<noteq> [] then
           \<lparr>biId = i, biName = blockDisplayName (bbId bb) domainID, biIndx = 0, biNodes = nodes\<rparr>
         else
           (case find (\<lambda>d. gm_get byName d \<noteq> None) (domainIDsFromLeaves (bbLeaves bb)) of
              Some d \<Rightarrow>
                \<lparr>biId = i, biName = blockDisplayName (bbId bb) d, biIndx = 0,
                 biNodes = biNodes (the (gm_get byName d))\<rparr>
            | None \<Rightarrow>
                if domainID \<noteq> [] then
                  \<lparr>biId = i, biName = blockDisplayName (bbId bb) domainID, biIndx = 0, biNodes = []\<rparr>
                else \<lparr>biId = i, biName = [], biIndx = 0, biNodes = []\<rparr>))"

subsection \<open>Complementing\<close>

definition addOwned :: "blockInfo \<Rightarrow> DomainMap \<Rightarrow> HostInfo \<Rightarrow> DomainMap" where
  "addOwned b local hi = (if HostName hi \<in> set (biNodes b) then AddHostInfo (Some hi) local else local)"

definition addBlockDomain :: "DomainMap \<Rightarrow> DomainMap \<Rightarrow> blockInfo \<Rightarrow> DomainMap" where
  "addBlockDomain all local b =
     (if biName b = [] then local
      else case gm_get all (biName b) of
        None \<Rightarrow> local
      | Some hosts \<Rightarrow> foldl (addOwned b) local (gm_vals hosts))"

definition domainsForBlocks :: "DomainMap \<Rightarrow> blockInfo list \<Rightarrow> DomainMap" where
  "domainsForBlocks all blocks = foldl (addBlockDomain all) NewDomainMap blocks"

definition blocksByName :: "blockInfo list \<Rightarrow> (string, blockInfo) gomap" where
  "blocksByName blocks =
     foldl (\<lambda>m b. if biName b = [] then m else gm_put (biName b) b m) [] blocks"

definition complementBlocks ::
  "NetworkTopology \<Rightarrow> blockInfo list \<Rightarrow> int list \<Rightarrow> go_panic + (blockInfo list \<times> int list)" where
  "complementBlocks nt blocks blockSizes =
     (case ntDomains nt of
        None \<Rightarrow> Inr (blocks, blockSizes)
      | Some all \<Rightarrow>
          (let domains = domainsForBlocks all blocks
           in if domains = [] then Inr (blocks, blockSizes)
              else
                (let sizes = (if blockSizes = [] then InferTwoLevelBlockSizes domains else blockSizes)
                 in if sizes = [] then Inr (blocks, sizes)
                    else
                      (case buildBlockTree domains sizes of
                         Inl p \<Rightarrow> Inl p
                       | Inr None \<Rightarrow> Inr (blocks, sizes)
                       | Inr (Some actualTree) \<Rightarrow>
                           Inr (map (\<lambda>(i, bb). baseBlockToBlockInfo bb (blocksByName blocks) (i + 1))
                                  (enumerate 0 (collectBaseBlockSlots actualTree)), sizes)))))"

subsection \<open>Block sizes\<close>

definition anyBlockHasNodes :: "blockInfo list \<Rightarrow> bool" where
  "anyBlockHasNodes blocks = list_ex (\<lambda>b. biNodes b \<noteq> []) blocks"

definition findMinDomainSize :: "blockInfo list \<Rightarrow> terror + nat" where
  "findMinDomainSize blocks =
     (case blocks of
        [] \<Rightarrow> Inl NoBlocks
      | b # rest \<Rightarrow>
          Inr (foldl (\<lambda>m block. if m > length (biNodes block) then length (biNodes block) else m)
                 (length (biNodes b)) rest))"

text \<open>\<open>int(math.Log2(float64(n)))\<close> for a positive block count.\<close>

fun ilog2 :: "nat \<Rightarrow> nat" where
  "ilog2 n = (if n < 2 then 0 else Suc (ilog2 (n div 2)))"

declare ilog2.simps [simp del]

definition getBlockSizes :: "blockInfo list \<Rightarrow> int list \<Rightarrow> terror + int list" where
  "getBlockSizes blocks requestedBlockSizes =
     (if requestedBlockSizes \<noteq> [] then Inr requestedBlockSizes
      else
        (case findMinDomainSize blocks of
           Inl err \<Rightarrow> Inl err
         | Inr minDomainSize \<Rightarrow>
             Inr (int minDomainSize #
               map (\<lambda>i. 2 ^ i * int minDomainSize) [1..<ilog2 (length blocks) + 1])))"

subsection \<open>The topology file\<close>

definition setBlockID :: "string \<Rightarrow> string list \<Rightarrow> (string, nodeInfo) gomap \<Rightarrow> (string, nodeInfo) gomap" where
  "setBlockID i nodes infos = foldl (updateInfo (niBlockID_update (\<lambda>_. i))) infos nodes"

definition fmtInt :: "int \<Rightarrow> string" where
  "fmtInt n = (if n < 0 then ''-'' @ itoa (nat (- n)) else itoa (nat n))"

definition writeBlock :: "bool \<Rightarrow> blockInfo \<Rightarrow> string" where
  "writeBlock skeletonOnly bInfo =
     (let comment = (if biName bInfo \<noteq> [] then ''# '' @ biId bInfo @ ''='' @ biName bInfo @ [newline] else [])
      in if skeletonOnly \<or> biNodes bInfo = []
         then comment @ ''BlockName='' @ biId bInfo @ [newline]
         else comment @ ''BlockName='' @ biId bInfo @ '' Nodes='' @ join '','' (Compact (biNodes bInfo)) @ [newline])"

definition toBlockTopology ::
  "NetworkTopology \<Rightarrow> bool \<Rightarrow> go_panic + (NetworkTopology \<times> (int \<times> terror + string))" where
  "toBlockTopology nt skeletonOnly =
     (case complementBlocks nt (ntBlocks nt) (BlockSizes (ntConfig nt)) of
        Inl p \<Rightarrow> Inl p
      | Inr (blocks, effectiveBlockSizes) \<Rightarrow>
          (case formatBlockNames blocks (compileBlockNameFormatter (BlockName (ntConfig nt))) of
             Inl err \<Rightarrow> Inr (nt, Inl (StatusBadRequest, err))
           | Inr (ks, blockNames, ds) \<Rightarrow>
               (let nt1 = nt\<lparr>ntNodeInfo := foldl (\<lambda>infos b. setBlockID [] (biNodes b) infos) (ntNodeInfo nt) ds\<rparr>
                in if anyBlockHasNodes blocks \<and> \<not> anyBlockHasNodes ks
                   then Inr (nt1, Inl (StatusBadRequest, AllBlocksDropped))
                   else
                     (let named = map2 (\<lambda>b n. b\<lparr>biId := n\<rparr>) ks blockNames;
                          nt2 = nt1\<lparr>ntNodeInfo :=
                            foldl (\<lambda>infos b. setBlockID (biId b) (biNodes b) infos) (ntNodeInfo nt1) named\<rparr>
                      in case getBlockSizes named effectiveBlockSizes of
                           Inl err \<Rightarrow> Inr (nt2, Inl (StatusBadRequest, err))
                         | Inr blockSizes \<Rightarrow>
                             Inr (nt2, Inr (concat (map (writeBlock skeletonOnly) named) @
                               ''BlockSizes='' @ join '','' (map fmtInt blockSizes) @ [newline]))))))"

section \<open>Block sizes\<close>

lemma ilog2_bounds: "0 < n \<Longrightarrow> 2 ^ ilog2 n \<le> n \<and> n < 2 ^ (ilog2 n + 1)"
proof (induction n rule: ilog2.induct)
  case (1 n)
  show ?case
  proof (cases "n < 2")
    case True
    then show ?thesis using 1 by (subst (1 2) ilog2.simps) simp
  next
    case False
    then have IH: "2 ^ ilog2 (n div 2) \<le> n div 2" "n div 2 < 2 ^ (ilog2 (n div 2) + 1)" using 1 by auto
    have "ilog2 n = Suc (ilog2 (n div 2))" using False by (subst ilog2.simps) simp
    then show ?thesis using IH by auto
  qed
qed

lemma foldl_min:
  "foldl (\<lambda>m block. if m > f block then f block else m) (a::nat) bs = Min (insert a (f ` set bs))"
proof (induction bs arbitrary: a)
  case (Cons b bs)
  have "foldl (\<lambda>m block. if m > f block then f block else m) a (b # bs) = Min (insert (min a (f b)) (f ` set bs))"
    using Cons by (simp add: min_def)
  also have "\<dots> = Min (insert a (f ` set (b # bs)))" by (cases "bs = []") (simp_all add: min.assoc)
  finally show ?case .
qed simp

lemma findMin_Min: "blocks \<noteq> [] \<Longrightarrow> findMinDomainSize blocks = Inr (Min ((length \<circ> biNodes) ` set blocks))"
  by (cases blocks) (simp_all add: findMinDomainSize_def foldl_min)

text \<open>
  Without requested sizes, \<open>getBlockSizes\<close> starts at the size of the smallest block, doubles at every
  level, and stops at the largest power-of-two multiple that fits the number of blocks.
\<close>

theorem getBlockSizes_inferred:
  assumes "blocks \<noteq> []"
  shows "\<exists>k. getBlockSizes blocks [] =
      Inr (map (\<lambda>i. 2 ^ i * int (Min ((length \<circ> biNodes) ` set blocks))) [0..<k + 1]) \<and>
    2 ^ k \<le> length blocks \<and> length blocks < 2 ^ (k + 1)"
proof -
  let ?k = "ilog2 (length blocks)"
  have "[0..<?k + 1] = 0 # [1..<?k + 1]" by (simp add: upt_conv_Cons)
  then show ?thesis
    using assms ilog2_bounds [of "length blocks"]
    by (intro exI [of _ ?k]) (simp add: getBlockSizes_def findMin_Min)
qed

definition demoBlocks :: "blockInfo list" where
  "demoBlocks = [\<lparr>biId = ''block001'', biName = ''d1'', biIndx = 0, biNodes = [''n1'', ''n2'', ''n4'']\<rparr>,
     \<lparr>biId = ''block002'', biName = ''d2'', biIndx = 1, biNodes = [''n3'']\<rparr>]"

section \<open>Complementing keeps every node\<close>

lemma domainsOk_addOwned: "domainsOk m \<Longrightarrow> domainsOk (addOwned b m h)"
  by (simp add: addOwned_def domainsOk_AddHostInfo)

lemma domainsOk_foldl_owned: "domainsOk m \<Longrightarrow> domainsOk (foldl (addOwned b) m hs)"
  by (induction hs arbitrary: m) (simp_all add: domainsOk_addOwned)

lemma domainsForBlocks_ok: "domainsOk (domainsForBlocks all blocks)"
proof -
  have "domainsOk m \<Longrightarrow> domainsOk (foldl (addBlockDomain all) m blocks)" for m
    by (induction blocks arbitrary: m)
      (auto simp: addBlockDomain_def domainsOk_foldl_owned split: option.splits)
  then show ?thesis by (simp add: domainsForBlocks_def domainsOk_empty)
qed

lemma lookup_owned:
  assumes "\<forall>h \<in> set hs. Domain h = d" and "d \<noteq> []" and "distinct (map HostName hs)"
  shows "lookupHost (foldl (addOwned b) m hs) d' n =
    (if d' = d \<and> n \<in> set (biNodes b) \<and> n \<in> HostName ` set hs
     then find (\<lambda>h. HostName h = n) hs else lookupHost m d' n)"
  using assms
proof (induction hs arbitrary: m)
  case (Cons h hs)
  have l: "lookupHost (addOwned b m h) d' n =
      (if HostName h \<in> set (biNodes b) \<and> d' = d \<and> n = HostName h then Some h else lookupHost m d' n)"
    using Cons.prems by (simp add: addOwned_def lookupHost_AddHostInfo)
  show ?case using Cons l by auto
qed simp

lemma lookup_foldl:
  assumes "\<And>m b. lookupHost (f m b) d n = (if P b then L else lookupHost m d n)"
  shows "lookupHost (foldl f m bs) d n = (if \<exists>b \<in> set bs. P b then L else lookupHost m d n)"
  by (induction bs arbitrary: m) (simp_all add: assms)

text \<open>The restriction of a domain map to the nodes of some blocks.\<close>

lemma lookup_domainsForBlocks:
  assumes "domainsOk all"
  shows "lookupHost (domainsForBlocks all blocks) d n =
    (if d \<noteq> [] \<and> (\<exists>b \<in> set blocks. biName b = d \<and> n \<in> set (biNodes b)) then lookupHost all d n else None)"
proof -
  have step: "lookupHost (addBlockDomain all m b) d n =
      (if d \<noteq> [] \<and> biName b = d \<and> n \<in> set (biNodes b) \<and> lookupHost all d n \<noteq> None
       then lookupHost all d n else lookupHost m d n)" for m b
  proof (cases "biName b = [] \<or> gm_get all (biName b) = None")
    case True
    then show ?thesis by (auto simp: addBlockDomain_def lookupHost_def)
  next
    case False
    then obtain hosts where h: "gm_get all (biName b) = Some hosts" "biName b \<noteq> []" by auto
    have ok: "hostsOk (biName b) hosts" using domainsOk_get [OF assms h(1)] by simp
    have dom: "\<forall>x \<in> set (gm_vals hosts). Domain x = biName b" using ok by (auto simp: hostsOk_def)
    have get: "gm_get hosts n = find (\<lambda>x. HostName x = n) (gm_vals hosts)"
    proof -
      have "\<forall>(k, x) \<in> set hosts. HostName x = k" using ok by (auto simp: hostsOk_def)
      then show ?thesis by (induction hosts) auto
    qed
    have "n \<in> HostName ` set (gm_vals hosts) \<longleftrightarrow> gm_get hosts n \<noteq> None"
      unfolding get by (auto simp: find_None_iff image_iff)
    then show ?thesis
      using h lookup_owned [OF dom h(2) hostsOk_distinct [OF ok], of b m d n] get
      by (auto simp: addBlockDomain_def lookupHost_def)
  qed
  have "lookupHost [] d n = None" by (simp add: lookupHost_def)
  then show ?thesis
    unfolding domainsForBlocks_def NewDomainMap_def lookup_foldl [OF step] by auto
qed

lemma allHosts_lookup:
  assumes "domainsOk m"
  shows "h \<in> set (allHosts m) \<longleftrightarrow> lookupHost m (Domain h) (HostName h) = Some h"
proof
  assume "h \<in> set (allHosts m)"
  then obtain d hs k where m: "(d, hs) \<in> set m" "(k, h) \<in> set hs" by (auto simp: allHosts_def)
  have ok: "gm_wf m" "hostsOk d hs" using assms m(1) by (auto simp: domainsOk_def)
  have "HostName h = k" "Domain h = d" using ok(2) m(2) by (auto simp: hostsOk_def)
  moreover have "gm_get m d = Some hs" using gm_get_Some_mem [OF ok(1)] m(1) by blast
  moreover have "gm_get hs k = Some h"
    using gm_get_Some_mem [of hs k h] m(2) ok(2) by (simp add: hostsOk_def)
  ultimately show "lookupHost m (Domain h) (HostName h) = Some h" by (simp add: lookupHost_def)
next
  assume "lookupHost m (Domain h) (HostName h) = Some h"
  then obtain hs where "gm_get m (Domain h) = Some hs" "gm_get hs (HostName h) = Some h"
    by (auto simp: lookupHost_def split: option.splits)
  then have "(Domain h, hs) \<in> set m" "(HostName h, h) \<in> set hs" by (auto dest: map_of_SomeD)
  then show "h \<in> set (allHosts m)" by (force simp: allHosts_def)
qed

lemma domainsForBlocks_hosts:
  assumes "domainsOk all" and "h \<in> set (allHosts (domainsForBlocks all blocks))"
  shows "h \<in> set (allHosts all)"
  using assms lookup_domainsForBlocks [OF assms(1)]
  by (auto simp: allHosts_lookup domainsForBlocks_ok split: if_splits)

lemma map_filter_id_Nil: "List.map_filter id leaves = [] \<Longrightarrow> leafDomains ids leaves = ids"
  by (induction ids leaves rule: leafDomains.induct) (auto simp: List.map_filter_simps split: if_splits)

lemma blockInfo_nodes:
  assumes "\<forall>h \<in> set (blockHosts bb). HostName h \<noteq> []"
  shows "biNodes (baseBlockToBlockInfo bb byName seq) = map HostName (blockHosts bb)"
    and "biId (baseBlockToBlockInfo bb byName seq) = blockID3 seq"
proof -
  have n: "hostNamesFromLeaves (bbLeaves bb) = map HostName (blockHosts bb)"
    using assms by (auto simp: hostNamesFromLeaves_def blockHosts_def filter_id_conv)
  have "domainIDsFromLeaves (bbLeaves bb) = []" if "blockHosts bb = []"
    using map_filter_id_Nil [of "bbLeaves bb" "[]"] that by (simp add: domainIDsFromLeaves_def blockHosts_def)
  then show "biNodes (baseBlockToBlockInfo bb byName seq) = map HostName (blockHosts bb)"
    by (auto simp: baseBlockToBlockInfo_def Let_def n)
  show "biId (baseBlockToBlockInfo bb byName seq) = blockID3 seq"
    by (auto simp: baseBlockToBlockInfo_def Let_def split: option.splits)
qed

definition sizesOk :: "int list \<Rightarrow> bool" where
  "sizesOk bs \<longleftrightarrow> bs = [] \<or> 0 < hd bs \<and> 0 < last bs"

lemma concat_map_enumerate:
  "concat (map (\<lambda>(i, x). f x) (enumerate n xs)) = concat (map f xs)"
  by (induction xs arbitrary: n) auto

lemma complement_slots:
  assumes m: "domainsOk local" and names: "\<forall>h \<in> set (allHosts local). HostName h \<noteq> []"
    and bs: "bs \<noteq> []" "0 < hd bs" "0 < last bs"
  obtains t where "buildBlockTree local bs = Inr (Some t)"
    and "\<And>out byName. out = map (\<lambda>(i, bb). baseBlockToBlockInfo bb byName (i + 1)) (enumerate 0 (collectBaseBlockSlots t)) \<Longrightarrow>
      mset (concat (map biNodes out)) = mset (map HostName (allHosts local)) \<and>
      last bs dvd int (length out) * hd bs \<and> (\<forall>b \<in> set out. length (biNodes b) \<le> nat (hd bs)) \<and>
      map biId out = map (\<lambda>i. blockID3 (i + 1)) [0..<length out]"
proof -
  obtain t k where t: "buildBlockTree local bs = Inr (Some t)" "treeOk (hd bs) t (allHosts local)"
    "last bs dvd aggNodeCount t" by (rule buildBlockTree_ok [OF m bs])
  let ?slots = "collectBaseBlockSlots t"
  have ms: "mset (slotHosts ?slots) = mset (allHosts local)" and cnt: "aggNodeCount t = int (length ?slots) * hd bs"
    and ok: "\<forall>b \<in> set ?slots. blockOk (hd bs) b" using t(2) by (auto simp: treeOk_def)
  have ne: "\<forall>h \<in> set (blockHosts bb). HostName h \<noteq> []" if "bb \<in> set ?slots" for bb
    using that names mset_eq_setD [OF ms] by (auto simp: slotHosts_def)
  have len: "length (blockHosts bb) \<le> nat (hd bs)" if "bb \<in> set ?slots" for bb
  proof -
    have "length (List.map_filter id xs) \<le> length xs" for xs :: "HostInfo option list"
      by (induction xs) (auto simp: List.map_filter_simps split: option.splits)
    from this [of "bbLeaves bb"] show ?thesis using ok that by (auto simp: blockOk_def blockHosts_def)
  qed
  show thesis
  proof (rule that [OF t(1)])
    fix out byName
    assume out: "out = map (\<lambda>(i, bb). baseBlockToBlockInfo bb byName (i + 1)) (enumerate 0 ?slots)"
    have nodes: "map biNodes out = map (\<lambda>bb. map HostName (blockHosts bb)) ?slots"
      unfolding out by (rule nth_equalityI) (auto simp: nth_enumerate_eq blockInfo_nodes(1) [OF ne])
    then have "concat (map biNodes out) = map HostName (slotHosts ?slots)"
      by (simp add: slotHosts_def map_concat comp_def)
    then have "mset (concat (map biNodes out)) = mset (map HostName (allHosts local))"
      using ms by (simp add: mset_map)
    moreover have "length (biNodes b) \<le> nat (hd bs)" if "b \<in> set out" for b
    proof -
      have "biNodes b \<in> set (map biNodes out)" using that by simp
      then show ?thesis unfolding nodes using len by auto
    qed
    moreover have "map biId out = map (\<lambda>i. blockID3 (i + 1)) [0..<length out]"
      unfolding out by (rule nth_equalityI) (auto simp: nth_enumerate_eq blockInfo_nodes(2) [OF ne])
    moreover have "length out = length ?slots" by (simp add: out)
    ultimately show "mset (concat (map biNodes out)) = mset (map HostName (allHosts local)) \<and>
        last bs dvd int (length out) * hd bs \<and> (\<forall>b \<in> set out. length (biNodes b) \<le> nat (hd bs)) \<and>
        map biId out = map (\<lambda>i. blockID3 (i + 1)) [0..<length out]"
      using t(3) cnt by simp
  qed
qed

definition countsPos :: "(string, int) gomap \<Rightarrow> bool" where
  "countsPos m \<longleftrightarrow> (\<forall>v \<in> set (gm_vals m). 1 \<le> v)"

lemma countsPos_put: "countsPos m \<Longrightarrow> 1 \<le> v \<Longrightarrow> countsPos (gm_put k v m)"
  by (induction m) (auto simp: countsPos_def)

lemma countSub_pos:
  assumes "countsPos m"
  shows "countsPos (countSub m hi)"
proof -
  have "0 \<le> (case gm_get m (SubDomain hi) of Some n \<Rightarrow> n | None \<Rightarrow> 0)"
  proof (cases "gm_get m (SubDomain hi)")
    case (Some n)
    then have "n \<in> set (gm_vals m)" by (metis image_eqI list.set_map map_of_SomeD snd_conv)
    then show ?thesis using assms Some by (auto simp: countsPos_def)
  qed simp
  then show ?thesis using assms by (simp add: countSub_def countsPos_put)
qed

lemma countSubs_pos: "countsPos m \<Longrightarrow> countsPos (foldl countSub m hs)"
  by (induction hs arbitrary: m) (simp_all add: countSub_pos)

lemma countSub_nonempty: "m \<noteq> [] \<or> SubDomain hi \<noteq> [] \<Longrightarrow> countSub m hi \<noteq> []"
  by (cases m) (auto simp: countSub_def)

lemma countSubs_nonempty: "m \<noteq> [] \<or> (\<exists>hi \<in> set hs. SubDomain hi \<noteq> []) \<Longrightarrow> foldl countSub m hs \<noteq> []"
  by (induction hs arbitrary: m) (auto simp: countSub_nonempty)

lemma foldl_max_acc: "(a::int) \<le> foldl max a xs" "x \<in> set xs \<Longrightarrow> x \<le> foldl max a xs"
  by (induction xs arbitrary: a) (auto intro: order_trans [OF max.cobounded1] order_trans [OF max.cobounded2])

lemma foldl_max_nested:
  "(a::int) \<le> foldl (\<lambda>acc x. foldl max acc (f x)) a xs"
  "x \<in> set xs \<Longrightarrow> y \<in> set (f x) \<Longrightarrow> y \<le> foldl (\<lambda>acc x. foldl max acc (f x)) a xs"
proof (induction xs arbitrary: a)
  case (Cons z xs)
  {
    case 1
    then show ?case using Cons.IH(1) [of "foldl max a (f z)"] foldl_max_acc(1) [of a "f z"] by simp
  next
    case 2
    then show ?case
      using Cons.IH [of "foldl max a (f z)"] foldl_max_acc(2) [of y "f z" a] by auto
  }
qed simp_all

lemma Infer_pos: "sizesOk (InferTwoLevelBlockSizes m)"
proof (cases "list_ex (\<lambda>hosts. list_ex (\<lambda>hi. SubDomain hi \<noteq> []) (gm_vals hosts)) (gm_vals m)")
  case True
  then obtain hosts hi where h: "hosts \<in> set (gm_vals m)" "hi \<in> set (gm_vals hosts)" "SubDomain hi \<noteq> []"
    by (auto simp: list_ex_iff)
  have "subSizes hosts \<noteq> []" unfolding subSizes_def using h(2,3) by (intro countSubs_nonempty) blast
  then obtain v where v: "v \<in> set (gm_vals (subSizes hosts))" by (metis hd_in_set list.map_disc_iff)
  moreover have "1 \<le> v" using v countSubs_pos [of "[]" "gm_vals hosts"] unfolding countsPos_def subSizes_def by auto
  ultimately have "1 \<le> foldl (\<lambda>acc hosts. foldl max acc (gm_vals (subSizes hosts))) 0 (gm_vals m)"
    using foldl_max_nested(2) [OF h(1), of v "\<lambda>hosts. gm_vals (subSizes hosts)" 0] by simp
  then show ?thesis using True doubleUntil_pos by (auto simp: sizesOk_def InferTwoLevelBlockSizes_def Let_def)
next
  case False
  then show ?thesis by (simp add: sizesOk_def InferTwoLevelBlockSizes_def Let_def)
qed

text \<open>
  The hosts of the domains that the blocks own, with their domain: a block owns the hosts among its nodes that
  are reported in the domain it is named after.
\<close>

definition ownedHosts :: "DomainMap \<Rightarrow> blockInfo list \<Rightarrow> (string \<times> string) set" where
  "ownedHosts all blocks =
     {(d, n). d \<noteq> [] \<and> lookupHost all d n \<noteq> None \<and> (\<exists>b \<in> set blocks. biName b = d \<and> n \<in> set (biNodes b))}"

lemma distinct_allHosts:
  assumes "domainsOk m"
  shows "distinct (map (\<lambda>h. (Domain h, HostName h)) (allHosts m))"
proof -
  let ?f = "\<lambda>h. (Domain h, HostName h)"
  have "distinct (map ?f (concat (map gm_vals (gm_vals xs)))) \<and> fst ` ?f ` set (concat (map gm_vals (gm_vals xs))) \<subseteq> fst ` set xs"
    if "distinct (gm_keys xs)" "\<forall>(d, hosts) \<in> set xs. hostsOk d hosts" for xs :: DomainMap
    using that
  proof (induction xs)
    case (Cons x xs)
    obtain d hosts where x: "x = (d, hosts)" by (cases x)
    have dom: "\<forall>h \<in> set (gm_vals hosts). Domain h = d" using Cons.prems(2) by (auto simp: x hostsOk_def)
    have "map ?f (gm_vals hosts) = map (Pair d) (map HostName (gm_vals hosts))" using dom by simp
    moreover have "distinct (map HostName (gm_vals hosts))" using Cons.prems(2) by (intro hostsOk_distinct) (auto simp: x)
    ultimately have d1: "distinct (map ?f (gm_vals hosts))" by (simp only: distinct_map [of "Pair d"] inj_on_def) simp
    have IH: "distinct (map ?f (concat (map gm_vals (gm_vals xs))))" "fst ` ?f ` set (concat (map gm_vals (gm_vals xs))) \<subseteq> fst ` set xs"
      using Cons by auto
    have "d \<notin> fst ` set xs" using Cons.prems(1) by (simp add: x)
    have "?f ` set (gm_vals hosts) \<inter> ?f ` set (concat (map gm_vals (gm_vals xs))) = {}"
    proof (rule equals0I)
      fix p assume p: "p \<in> ?f ` set (gm_vals hosts) \<inter> ?f ` set (concat (map gm_vals (gm_vals xs)))"
      then have "fst p = d" using dom by auto
      moreover have "fst p \<in> fst ` set xs" using p IH(2) by blast
      ultimately show False using \<open>d \<notin> fst ` set xs\<close> by simp
    qed
    moreover have "fst ` ?f ` set (concat (map gm_vals (gm_vals (x # xs)))) \<subseteq> fst ` set (x # xs)"
    proof -
      have "fst ` ?f ` set (gm_vals hosts) \<subseteq> {d}" using dom by auto
      moreover have "set (concat (map gm_vals (gm_vals (x # xs)))) = set (gm_vals hosts) \<union> set (concat (map gm_vals (gm_vals xs)))"
        by (simp add: x)
      ultimately show ?thesis using IH(2) by (simp only: image_Un list.set image_insert x fst_conv) blast
    qed
    ultimately show ?case using d1 IH(1) by (simp add: x image_image)
  qed simp
  from this [of m] assms show ?thesis by (auto simp: domainsOk_def gm_wf_def allHosts_def)
qed

lemma allHosts_pairs:
  assumes "domainsOk m"
  shows "mset (map HostName (allHosts m)) = image_mset snd (mset_set {(d, n). lookupHost m d n \<noteq> None})"
proof -
  let ?f = "\<lambda>h. (Domain h, HostName h)"
  have own: "Domain h = d \<and> HostName h = n" if lk: "lookupHost m d n = Some h" for d n h
  proof -
    obtain hosts where h: "gm_get m d = Some hosts" "gm_get hosts n = Some h" using lk by (auto simp: lookupHost_def split: option.splits)
    have "hostsOk d hosts" using domainsOk_get [OF assms h(1)] by simp
    then show ?thesis using map_of_SomeD [OF h(2)] unfolding hostsOk_def by auto
  qed
  have "?f ` set (allHosts m) = {(d, n). lookupHost m d n \<noteq> None}"
  proof (intro equalityI subsetI)
    fix x assume "x \<in> ?f ` set (allHosts m)"
    then show "x \<in> {(d, n). lookupHost m d n \<noteq> None}" using allHosts_lookup [OF assms] by auto
  next
    fix x assume "x \<in> {(d, n). lookupHost m d n \<noteq> None}"
    then obtain d n h where "x = (d, n)" "lookupHost m d n = Some h" by auto
    moreover from this have "h \<in> set (allHosts m)" using own [of d n h] allHosts_lookup [OF assms, of h] by simp
    ultimately show "x \<in> ?f ` set (allHosts m)" using own [of d n h] by force
  qed
  then have "mset (map ?f (allHosts m)) = mset_set {(d, n). lookupHost m d n \<noteq> None}"
    using mset_set_set [OF distinct_allHosts [OF assms]] by simp
  then have "image_mset snd (mset (map ?f (allHosts m))) = image_mset snd (mset_set {(d, n). lookupHost m d n \<noteq> None})" by simp
  then show ?thesis by (simp add: image_mset.compositionality comp_def)
qed

lemma domainsForBlocks_owned:
  assumes "domainsOk all"
  shows "{(d, n). lookupHost (domainsForBlocks all blocks) d n \<noteq> None} = ownedHosts all blocks"
  unfolding lookup_domainsForBlocks [OF assms] ownedHosts_def by auto

lemma mset_set_snd:
  assumes "distinct (map snd xs)"
  shows "image_mset snd (mset_set (set xs)) = mset (map snd xs)"
  using mset_set_set [of xs] assms by (simp add: distinct_map)

text \<open>When the blocks' names are those of their nodes' domains, all nodes are owned.\<close>

lemma owned_all_nodes:
  assumes "\<forall>b \<in> set blocks. biName b \<noteq> [] \<and> (\<forall>n \<in> set (biNodes b). lookupHost all (biName b) n \<noteq> None)"
    and "distinct (concat (map biNodes blocks))"
  shows "image_mset snd (mset_set (ownedHosts all blocks)) = mset (concat (map biNodes blocks))"
proof -
  let ?xs = "concat (map (\<lambda>b. map (Pair (biName b)) (biNodes b)) blocks)"
  have "map snd ?xs = concat (map biNodes blocks)" by (simp add: map_concat comp_def)
  moreover have "set ?xs = ownedHosts all blocks" using assms(1) by (auto simp: ownedHosts_def)
  ultimately show ?thesis using mset_set_snd [of ?xs] assms(2) by simp
qed

text \<open>
  C19. Complementing the block list: whether the sizes are requested or inferred, the result has exactly the
  hosts that the blocks own (those of their nodes that are reported in the domain they are named after), one
  entry for each such host and domain. So it loses and duplicates no node when every block has the name of
  the domain of all its nodes and no node is in two blocks; hosts of other domains are dropped. The blocks
  of the result are numbered in sequence, hold at most a base block of nodes each, and their number fills whole aggregates of the
  largest size.
\<close>

theorem complementBlocks_nodes:
  assumes "ntDomains nt = Some all" and "domainsOk all" and "\<forall>h \<in> set (allHosts all). HostName h \<noteq> []"
    and "sizesOk bs" and "ownedHosts all blocks \<noteq> {}"
    and "eff = (if bs = [] then InferTwoLevelBlockSizes (domainsForBlocks all blocks) else bs)" and "eff \<noteq> []"
  shows "\<exists>out. complementBlocks nt blocks bs = Inr (out, eff) \<and>
    mset (concat (map biNodes out)) = image_mset snd (mset_set (ownedHosts all blocks)) \<and>
    ((\<forall>b \<in> set blocks. biName b \<noteq> [] \<and> (\<forall>n \<in> set (biNodes b). lookupHost all (biName b) n \<noteq> None)) \<and>
       distinct (concat (map biNodes blocks)) \<longrightarrow>
       mset (concat (map biNodes out)) = mset (concat (map biNodes blocks))) \<and>
    last eff dvd int (length out) * hd eff \<and> (\<forall>b \<in> set out. length (biNodes b) \<le> nat (hd eff)) \<and>
    map biId out = map (\<lambda>i. blockID3 (i + 1)) [0..<length out]"
proof -
  let ?local = "domainsForBlocks all blocks"
  have "sizesOk eff" using assms(4,6) Infer_pos by simp
  then have eff: "0 < hd eff" "0 < last eff" using assms(7) by (auto simp: sizesOk_def)
  have "\<forall>h \<in> set (allHosts ?local). HostName h \<noteq> []" using domainsForBlocks_hosts [OF assms(2)] assms(3) by blast
  then obtain t where t: "buildBlockTree ?local eff = Inr (Some t)"
    "\<And>out byName. out = map (\<lambda>(i, bb). baseBlockToBlockInfo bb byName (i + 1)) (enumerate 0 (collectBaseBlockSlots t)) \<Longrightarrow>
      mset (concat (map biNodes out)) = mset (map HostName (allHosts ?local)) \<and>
      last eff dvd int (length out) * hd eff \<and> (\<forall>b \<in> set out. length (biNodes b) \<le> nat (hd eff)) \<and>
      map biId out = map (\<lambda>i. blockID3 (i + 1)) [0..<length out]"
    using complement_slots [OF domainsForBlocks_ok _ assms(7) eff] by blast
  have "?local \<noteq> []" using assms(5) unfolding domainsForBlocks_owned [OF assms(2), symmetric] by (auto simp: lookupHost_def)
  then have "complementBlocks nt blocks bs =
      Inr (map (\<lambda>(i, bb). baseBlockToBlockInfo bb (blocksByName blocks) (i + 1)) (enumerate 0 (collectBaseBlockSlots t)), eff)"
    using assms(1,6,7) t(1) by (simp add: complementBlocks_def Let_def)
  moreover note t(2) [OF refl, of "blocksByName blocks"]
  moreover have "mset (map HostName (allHosts ?local)) = image_mset snd (mset_set (ownedHosts all blocks))"
    unfolding allHosts_pairs [OF domainsForBlocks_ok] domainsForBlocks_owned [OF assms(2)] ..
  ultimately show ?thesis using owned_all_nodes [of blocks all] by auto
qed

definition demoNT :: NetworkTopology where
  "demoNT = (newTopology \<lparr>Plugin = TopologyBlock, BlockSizes = [2, 4], BlockName = None, Topologies = []\<rparr>)
     \<lparr>ntDomains := Some demoDomains, ntBlocks := demoBlocks,
      ntNodeInfo := map (\<lambda>n. (n, \<lparr>niInstanceID = n, niBlockID = [], niBlockIndx = None, niSwitches = []\<rparr>))
        [''n1'', ''n2'', ''n3'', ''n4'']\<rparr>"

theorem complementBlocks_nodes_witness:
  "\<exists>out. complementBlocks demoNT demoBlocks [2, 4] = Inr (out, [2, 4]) \<and>
    mset (concat (map biNodes out)) = mset [''n1'', ''n2'', ''n4'', ''n3''] \<and> 4 dvd int (length out) * 2"
proof -
  have d: "ntDomains demoNT = Some demoDomains" by (simp add: demoNT_def)
  have n: "\<forall>h \<in> set (allHosts demoDomains). HostName h \<noteq> []" by code_simp
  have all: "\<forall>b \<in> set demoBlocks. biName b \<noteq> [] \<and> (\<forall>n \<in> set (biNodes b). lookupHost demoDomains (biName b) n \<noteq> None)"
    "distinct (concat (map biNodes demoBlocks))" "concat (map biNodes demoBlocks) = [''n1'', ''n2'', ''n4'', ''n3'']" by code_simp+
  have "(''d1'', ''n1'') \<in> ownedHosts demoDomains demoBlocks"
    using all(1) unfolding ownedHosts_def by (auto simp: demoBlocks_def)
  then have e: "ownedHosts demoDomains demoBlocks \<noteq> {}" by blast
  have s: "sizesOk [2, 4]" "[2, 4] = (if [2, 4 :: int] = [] then InferTwoLevelBlockSizes (domainsForBlocks demoDomains demoBlocks) else [2, 4])"
    "[2, 4 :: int] \<noteq> []" by (simp_all add: sizesOk_def)
  from complementBlocks_nodes [OF d demoDomains_ok n s(1) e s(2,3)] all show ?thesis by auto
qed

section \<open>The topology file and the node annotations agree\<close>

lemma get_setBlockID:
  "gm_get (setBlockID i nodes infos) n =
     map_option (if n \<in> set nodes then niBlockID_update (\<lambda>_. i) else id) (gm_get infos n)"
  unfolding setBlockID_def by (rule get_updates) simp

lemma foldl_clearBlockID:
  "gm_get (foldl (\<lambda>infos b. setBlockID [] (biNodes b) infos) infos bs) n =
     map_option (if \<exists>b \<in> set bs. n \<in> set (biNodes b) then niBlockID_update (\<lambda>_. []) else id) (gm_get infos n)"
proof (induction bs rule: rev_induct)
  case (snoc b bs)
  then show ?case by (cases "gm_get infos n") (auto simp: get_setBlockID)
qed (cases "gm_get infos n"; simp)

lemma foldl_setBlockID:
  assumes "distinct (concat (map biNodes bs))"
  shows "gm_get (foldl (\<lambda>infos b. setBlockID (biId b) (biNodes b) infos) infos bs) n =
    map_option (case find (\<lambda>b. n \<in> set (biNodes b)) bs of Some b \<Rightarrow> niBlockID_update (\<lambda>_. biId b) | None \<Rightarrow> id) (gm_get infos n)"
  using assms
proof (induction bs arbitrary: infos)
  case (Cons b bs)
  have IH: "gm_get (foldl (\<lambda>infos b. setBlockID (biId b) (biNodes b) infos) (setBlockID (biId b) (biNodes b) infos) bs) n =
      map_option (case find (\<lambda>b. n \<in> set (biNodes b)) bs of Some b \<Rightarrow> niBlockID_update (\<lambda>_. biId b) | None \<Rightarrow> id)
        (gm_get (setBlockID (biId b) (biNodes b) infos) n)" using Cons by simp
  show ?case
  proof (cases "n \<in> set (biNodes b)")
    case True
    then have "find (\<lambda>b. n \<in> set (biNodes b)) bs = None" using Cons.prems by (auto simp: find_None_iff)
    then show ?thesis using IH True by (simp add: get_setBlockID option.map_id)
  next
    case False
    then show ?thesis using IH by (simp add: get_setBlockID option.map_id)
  qed
qed (simp add: option.map_id)

lemma distinct_submset:
  assumes "distinct (concat (map f ys))" and "mset (xs @ zs) = mset ys"
  shows "distinct (concat (map f xs))"
proof -
  have "mset (concat (map f ys)) = mset (concat (map f (xs @ zs)))"
    by (simp only: mset_concat_map assms(2))
  then have "distinct (concat (map f (xs @ zs)))" using assms(1) by (metis mset_eq_imp_distinct_iff)
  then show ?thesis by simp
qed

lemma map2_named:
  assumes "list_all2 P ks ns"
  shows "map biId (map2 (\<lambda>b n. b\<lparr>biId := n\<rparr>) ks ns) = ns"
    and "map biNodes (map2 (\<lambda>b n. b\<lparr>biId := n\<rparr>) ks ns) = map biNodes ks"
  using assms by (induction rule: list_all2_induct) auto

text \<open>
  What the file should contain: the blocks whose name can be formed, in their order and under that name, and the entry
  of each.
\<close>

definition emitted :: "blockNameFormatter option \<Rightarrow> blockInfo list \<Rightarrow> blockInfo list" where
  "emitted f blocks =
     concat (map (\<lambda>b. case formatBlockName f (biId b) (biNodes b) of Inl _ \<Rightarrow> [] | Inr name \<Rightarrow> [b\<lparr>biId := name\<rparr>]) blocks)"

definition blockEntry :: "bool \<Rightarrow> blockInfo \<Rightarrow> string" where
  "blockEntry skeletonOnly b =
     (if biName b = [] then [] else ''# '' @ biId b @ ''='' @ biName b @ [newline]) @ ''BlockName='' @ biId b @
     (if skeletonOnly \<or> biNodes b = [] then [] else '' Nodes='' @ join '','' (Compact (biNodes b))) @ [newline]"

lemma writeBlock_entry: "writeBlock = blockEntry"
  by (intro ext) (simp add: writeBlock_def blockEntry_def Let_def)

lemma nameLoop_exact:
  assumes "nameLoop f bs nb = Inr nb'" and "length (kept nb) = length (names nb)"
  shows "map2 (\<lambda>b n. b\<lparr>biId := n\<rparr>) (kept nb') (names nb') = map2 (\<lambda>b n. b\<lparr>biId := n\<rparr>) (kept nb) (names nb) @ emitted f bs \<and>
    dropped nb' = dropped nb @ filter (\<lambda>b. isl (formatBlockName f (biId b) (biNodes b))) bs"
  using assms
proof (induction f bs nb rule: nameLoop.induct)
  case (2 f b bs nb)
  then show ?case by (auto simp: emitted_def split: sum.splits if_splits option.splits)
qed (simp add: emitted_def)

lemma formatBlockNames_exact:
  assumes "formatBlockNames blocks f = Inr (ks, ns, ds)"
  shows "map2 (\<lambda>b n. b\<lparr>biId := n\<rparr>) ks ns = emitted f blocks"
    and "ds = filter (\<lambda>b. isl (formatBlockName f (biId b) (biNodes b))) blocks"
  using assms nameLoop_exact [of f blocks "\<lparr>kept = [], names = [], dropped = [], seenNames = []\<rparr>"]
  by (auto simp: formatBlockNames_def split: sum.splits)

lemma emitted_all: "emitted None blocks = blocks"
  by (simp add: emitted_def formatBlockName_def)

lemma emitted_nodes: "n \<in> set (biNodes b) \<Longrightarrow> b \<in> set (emitted f blocks) \<Longrightarrow> \<exists>b' \<in> set blocks. n \<in> set (biNodes b')"
  by (auto simp: emitted_def split: sum.splits)

text \<open>
  C20. The block file and the per-node annotations agree, for complemented blocks in which no node is listed twice. When
  \<open>toBlockTopology\<close> succeeds, the file consists of the entries of exactly the blocks whose name can be formed
  (all blocks, when no name format is configured), in their order, followed by the sizes; the
  block names are pairwise different. Afterwards, every known node of an emitted block has that block's name as
  its recorded block, a node of another block has none, and the records of all other nodes are unchanged.
\<close>

theorem toBlockTopology_consistent:
  assumes "complementBlocks nt (ntBlocks nt) (BlockSizes (ntConfig nt)) = Inr (blocks, eff)"
    and "distinct (concat (map biNodes blocks))"
    and "toBlockTopology nt skeletonOnly = Inr (nt', Inr out)"
    and "named = emitted (compileBlockNameFormatter (BlockName (ntConfig nt))) blocks"
  shows "\<exists>sizes. getBlockSizes named eff = Inr sizes \<and>
    out = concat (map (blockEntry skeletonOnly) named) @ ''BlockSizes='' @ join '','' (map fmtInt sizes) @ [newline] \<and>
    distinct (map biId named) \<and> (BlockName (ntConfig nt) = None \<longrightarrow> named = blocks) \<and>
    (\<forall>node. gm_get (ntNodeInfo nt') node =
       map_option (case find (\<lambda>b. node \<in> set (biNodes b)) named of
           Some b \<Rightarrow> niBlockID_update (\<lambda>_. biId b)
         | None \<Rightarrow> if \<exists>b \<in> set blocks. node \<in> set (biNodes b) then niBlockID_update (\<lambda>_. []) else id)
       (gm_get (ntNodeInfo nt) node))"
proof -
  let ?f = "compileBlockNameFormatter (BlockName (ntConfig nt))"
  from assms(1,3) obtain ks ns ds where f: "formatBlockNames blocks ?f = Inr (ks, ns, ds)"
    by (auto simp: toBlockTopology_def split: sum.splits)
  have named: "map2 (\<lambda>b n. b\<lparr>biId := n\<rparr>) ks ns = named" using formatBlockNames_exact(1) [OF f] assms(4) by simp
  let ?i1 = "foldl (\<lambda>infos b. setBlockID [] (biNodes b) infos) (ntNodeInfo nt) ds"
  from assms(1,3) f obtain sizes where s: "getBlockSizes named eff = Inr sizes"
    and nt': "ntNodeInfo nt' = foldl (\<lambda>infos b. setBlockID (biId b) (biNodes b) infos) ?i1 named"
    and out: "out = concat (map (writeBlock skeletonOnly) named) @ ''BlockSizes='' @ join '','' (map fmtInt sizes) @ [newline]"
    unfolding named [symmetric] by (auto simp: toBlockTopology_def Let_def split: sum.splits if_splits)
  note snd = formatBlockNames_sound [OF f]
  then have l: "list_all2 (\<lambda>b n. formatBlockName ?f (biId b) (biNodes b) = Inr n) ks ns"
    and m: "mset (ks @ ds) = mset blocks" and d: "distinct ns" by auto
  have nodes: "map biNodes named = map biNodes ks" and ids: "map biId named = ns"
    unfolding named [symmetric] by (rule map2_named [OF l])+
  have "distinct (concat (map biNodes ks))" by (rule distinct_submset [OF assms(2) m])
  then have dn: "distinct (concat (map biNodes named))" by (simp only: nodes)
  have "gm_get (ntNodeInfo nt') node = map_option (case find (\<lambda>b. node \<in> set (biNodes b)) named of
      Some b \<Rightarrow> niBlockID_update (\<lambda>_. biId b)
    | None \<Rightarrow> if \<exists>b \<in> set blocks. node \<in> set (biNodes b) then niBlockID_update (\<lambda>_. []) else id) (gm_get (ntNodeInfo nt) node)" for node
  proof (cases "find (\<lambda>b. node \<in> set (biNodes b)) named")
    case (Some b)
    then show ?thesis unfolding nt' foldl_setBlockID [OF dn] foldl_clearBlockID
      by (cases "gm_get (ntNodeInfo nt) node") (auto simp: fun_eq_iff)
  next
    case None
    then have "\<forall>x \<in> set (map biNodes named). node \<notin> set x" by (auto simp: find_None_iff)
    then have "\<forall>b \<in> set ks. node \<notin> set (biNodes b)" unfolding nodes by simp
    then have "(\<exists>b \<in> set ds. node \<in> set (biNodes b)) \<longleftrightarrow> (\<exists>b \<in> set blocks. node \<in> set (biNodes b))"
      using mset_eq_setD [OF m] by auto
    then show ?thesis unfolding nt' foldl_setBlockID [OF dn] foldl_clearBlockID None by (simp add: option.map_id)
  qed
  moreover have "BlockName (ntConfig nt) = None \<longrightarrow> named = blocks"
    using assms(4) emitted_all by (auto simp: compileBlockNameFormatter_def)
  ultimately show ?thesis using s out d by (intro exI [of _ sizes]) (simp add: ids writeBlock_entry)
qed

theorem toBlockTopology_consistent_witness:
  "\<exists>blocks nt' out. complementBlocks demoNT demoBlocks [2, 4] = Inr (blocks, [2, 4]) \<and> length blocks = 4 \<and>
     toBlockTopology demoNT False = Inr (nt', Inr out) \<and>
     out = concat (map (blockEntry False) blocks) @ ''BlockSizes=2,4'' @ [newline] \<and> distinct (map biId blocks)"
proof -
  have cfg: "BlockSizes (ntConfig demoNT) = [2, 4]" "ntBlocks demoNT = demoBlocks" "BlockName (ntConfig demoNT) = None"
    by (simp_all add: demoNT_def newTopology_def)
  have "case complementBlocks demoNT demoBlocks [2, 4] of
      Inr (bs, eff) \<Rightarrow> eff = [2, 4] \<and> length bs = 4 \<and> distinct (concat (map biNodes bs)) | Inl _ \<Rightarrow> False" by code_simp
  then obtain blocks where c: "complementBlocks demoNT demoBlocks [2, 4] = Inr (blocks, [2, 4])" "length blocks = 4"
    "distinct (concat (map biNodes blocks))" by (auto split: sum.splits)
  have "case toBlockTopology demoNT False of Inr (nt', res) \<Rightarrow> \<not> isl res | Inl _ \<Rightarrow> False" by code_simp
  then obtain nt' res where "toBlockTopology demoNT False = Inr (nt', res)" "\<not> isl res" by (auto split: sum.splits)
  then obtain out where t: "toBlockTopology demoNT False = Inr (nt', Inr out)" by (cases res) auto
  have "complementBlocks demoNT (ntBlocks demoNT) (BlockSizes (ntConfig demoNT)) = Inr (blocks, [2, 4])"
    using c(1) by (simp only: cfg)
  from toBlockTopology_consistent [OF this c(3) t refl] obtain sizes where
    "getBlockSizes blocks [2, 4] = Inr sizes" "out = concat (map (blockEntry False) blocks) @ ''BlockSizes='' @ join '','' (map fmtInt sizes) @ [newline]"
    "distinct (map biId blocks)" using cfg(3) by auto
  moreover from this(1) have "sizes = [2, 4]" by (simp add: getBlockSizes_def)
  moreover have "join '','' (map fmtInt [2, 4]) = ''2,4''" by code_simp
  ultimately show ?thesis using c t by auto
qed

end
