(* ===== verification/TreeOutput.thy ===== *)
theory TreeOutput
  imports BlockOutput
begin

text \<open>
  Components \<open>pkg/translate/tree.go\<close>, \<open>yaml.go\<close> and the entry points of \<open>topology.go\<close>: the
  cluster-wide \<open>topology/tree\<close> file, the per-partition topology units of the YAML format, the
  restriction of the tree to the nodes of a partition, and the topology annotation of a node.

  The YAML encoder is an argument of the definition that calls it.
\<close>

section \<open>Model\<close>

subsection \<open>The tree file\<close>

definition childAddrs :: "heap \<Rightarrow> nat \<Rightarrow> nat list" where
  "childAddrs h a = List.map_filter id (gm_vals (Vertices (h ! a)))"

definition writeVertex :: "heap \<Rightarrow> nat \<Rightarrow> bool \<Rightarrow> string" where
  "writeVertex h a skeletonOnly =
     (let v = h ! a
      in if vID v = [] then []
         else
           (let (comment, name) =
                  (if vName v = [] then ([], vID v)
                   else (''# '' @ vName v @ ''='' @ vID v @ [newline], vName v))
            in if skeletonOnly then
                 (if Vertices v = [] then [] else comment @ ''SwitchName='' @ name @ [newline])
               else
                 (let ws = map (\<lambda>c. h ! c) (childAddrs h a);
                      nodes = map vName (filter (\<lambda>w. Vertices w = []) ws);
                      switches = map (\<lambda>w. if vName w \<noteq> [] then vName w else vID w)
                                   (filter (\<lambda>w. Vertices w \<noteq> []) ws)
                  in (if switches \<noteq> []
                      then comment @ ''SwitchName='' @ name @ '' Switches='' @ join '','' (Compact switches) @ [newline]
                      else []) @
                     (if nodes \<noteq> []
                      then comment @ ''SwitchName='' @ name @ '' Nodes='' @ join '','' (Compact nodes) @ [newline]
                      else []))))"

function treeLoop ::
  "heap \<Rightarrow> NetworkTopology \<Rightarrow> bool \<Rightarrow> string list \<Rightarrow> string list \<Rightarrow> string \<Rightarrow> int \<times> terror + string" where
  "treeLoop h nt skeletonOnly visited [] out = Inr out"
| "treeLoop h nt skeletonOnly visited (i # queue) out =
     (if i \<in> set visited then treeLoop h nt skeletonOnly visited queue out
      else
        (case gm_get (ntVertices nt) i of
           None \<Rightarrow> Inl (StatusBadGateway, MissingVertex i)
         | Some a \<Rightarrow>
             if skeletonOnly \<and> i \<noteq> []
             then treeLoop h nt skeletonOnly (i # visited) queue (out @ writeVertex h a skeletonOnly)
             else treeLoop h nt skeletonOnly (i # visited) (queue @ listAt (ntTree nt) i)
                    (out @ writeVertex h a skeletonOnly)))"
  by pat_completeness auto

lemma card_visit:
  assumes "gm_get m i = Some a" and "i \<notin> set visited"
  shows "card (set (gm_keys m) - insert i (set visited)) < card (set (gm_keys m) - set visited)"
proof (rule psubset_card_mono)
  have "i \<in> set (gm_keys m)" using assms(1) gm_key_get [of i m] by blast
  then show "set (gm_keys m) - insert i (set visited) \<subset> set (gm_keys m) - set visited"
    using assms(2) by blast
qed simp

lemma card_skip:
  assumes "gm_get m i = None"
  shows "card (set (gm_keys m) - insert i (set visited)) = card (set (gm_keys m) - set visited)"
proof -
  have "i \<notin> set (gm_keys m)" using assms gm_key_get [of i m] by simp
  then have "set (gm_keys m) - insert i (set visited) = set (gm_keys m) - set visited" by blast
  then show ?thesis by simp
qed

termination treeLoop
  by (relation "measures [\<lambda>(h, nt, sk, visited, queue, out). card (set (gm_keys (ntVertices nt)) - set visited),
      \<lambda>(h, nt, sk, visited, queue, out). length queue]") (auto simp: card_visit simp del: set_map)

definition toTreeTopology :: "heap \<Rightarrow> NetworkTopology \<Rightarrow> bool \<Rightarrow> int \<times> terror + string" where
  "toTreeTopology h nt skeletonOnly = treeLoop h nt skeletonOnly [] [[]] []"

subsection \<open>Topology units\<close>

record Switch =
  swName :: string
  swChildren :: string
  swNodes :: string

record TreeTopo =
  Switches :: "Switch list"
  ttParents :: "(string, string list) gomap"
  topLevel :: "string list"

record Block =
  bName :: string
  bNodes :: string

record BlockTopo =
  btSizes :: "int list"
  btBlocks :: "Block list"
  btParents :: "(string, string) gomap"

record TopologyUnit =
  tuName :: string
  tuDefault :: bool
  tuFlat :: bool
  tuTree :: "TreeTopo option"
  tuBlock :: "BlockTopo option"

definition copyUnit :: "TopologyUnit \<Rightarrow> TopologyUnit" where
  "copyUnit tu = tu\<lparr>
     tuTree := map_option (\<lambda>t.
         \<lparr>Switches = map (\<lambda>sw. \<lparr>swName = swName sw, swChildren = [], swNodes = []\<rparr>)
                        (filter (\<lambda>sw. swName sw \<in> set (topLevel t)) (Switches t)),
          ttParents = [], topLevel = []\<rparr>) (tuTree tu),
     tuBlock := map_option (\<lambda>b.
         \<lparr>btSizes = btSizes b, btBlocks = map (\<lambda>x. \<lparr>bName = bName x, bNodes = []\<rparr>) (btBlocks b),
          btParents = []\<rparr>) (tuBlock tu)\<rparr>"

definition copySkeleton :: "TopologyUnit list \<Rightarrow> TopologyUnit list" where
  "copySkeleton topologies = map copyUnit topologies"

subsubsection \<open>Block units\<close>

text \<open>The map from block index to the part of the block that belongs to the partition.\<close>

definition partitionBlock :: "NetworkTopology \<Rightarrow> (int, blockInfo) gomap \<Rightarrow> string \<Rightarrow> (int, blockInfo) gomap" where
  "partitionBlock nt blockMap nodeName =
     (case gm_get (ntNodeInfo nt) nodeName of
        None \<Rightarrow> blockMap
      | Some info \<Rightarrow>
          (case niBlockIndx info of
             None \<Rightarrow> blockMap
           | Some indx \<Rightarrow>
               (case gm_get blockMap indx of
                  None \<Rightarrow>
                    gm_put indx
                      \<lparr>biId = [],
                       biName = (if indx < int (length (ntBlocks nt)) then biName (ntBlocks nt ! nat indx) else []),
                       biIndx = indx, biNodes = [nodeName]\<rparr> blockMap
                | Some bInfo \<Rightarrow> gm_put indx (bInfo\<lparr>biNodes := biNodes bInfo @ [nodeName]\<rparr>) blockMap)))"

definition getBlockTopologyUnit ::
  "NetworkTopology \<Rightarrow> string \<Rightarrow> TopologySpec \<Rightarrow> go_panic + (terror + TopologyUnit)" where
  "getBlockTopologyUnit nt topoName topoSpec =
     (case ExpandWithLimit (sNodes topoSpec) of
        Inl err \<Rightarrow> Inr (Inl (Expansion topoName))
      | Inr nodeNames \<Rightarrow>
          (let blockMap = foldl (partitionBlock nt) [] nodeNames;
               tu = \<lparr>tuName = topoName, tuDefault = ClusterDefault topoSpec, tuFlat = False,
                     tuTree = None, tuBlock = None\<rparr>
           in if blockMap = [] then Inr (Inr (tu\<lparr>tuFlat := True\<rparr>))
              else
                (case complementBlocks nt (sort_key biIndx (gm_vals blockMap)) (sBlockSizes topoSpec) of
                   Inl p \<Rightarrow> Inl p
                 | Inr (bInfos0, effectiveBlockSizes) \<Rightarrow>
                     (let bInfos = map (\<lambda>(i, b). b\<lparr>biId := ''block'' @ itoa (i + 1)\<rparr>) (enumerate 0 bInfos0)
                      in case formatBlockNames bInfos (compileBlockNameFormatter (sBlockName topoSpec)) of
                           Inl err \<Rightarrow> Inr (Inl err)
                         | Inr (ks, blockNames, ds) \<Rightarrow>
                             if anyBlockHasNodes bInfos \<and> \<not> anyBlockHasNodes ks
                             then Inr (Inr (tu\<lparr>tuFlat := True\<rparr>))
                             else
                               (case getBlockSizes ks effectiveBlockSizes of
                                  Inl err \<Rightarrow> Inr (Inl err)
                                | Inr blockSizes \<Rightarrow>
                                    Inr (Inr (tu\<lparr>tuBlock := Some
                                      \<lparr>btSizes = blockSizes,
                                       btBlocks = map2 (\<lambda>b n. \<lparr>bName = n,
                                           bNodes = (if biNodes b \<noteq> [] then join '','' (Compact (biNodes b)) else [])\<rparr>)
                                           ks blockNames,
                                       btParents = foldl (\<lambda>m (b, n). foldl (\<lambda>m node. gm_put node n m) m (biNodes b))
                                           [] (zip ks blockNames)\<rparr>\<rparr>)))))))"

subsubsection \<open>Tree units\<close>

text \<open>
  The depth-first search of \<open>findRequiredNodes\<close> with the set of required vertices as its state;
  \<open>fuel\<close> bounds the depth and \<open>None\<close> means that it was not enough.
\<close>

fun dfs :: "nat \<Rightarrow> (string, string list) gomap \<Rightarrow> string set \<Rightarrow> string \<Rightarrow> string set \<Rightarrow> (bool \<times> string set) option"
  and dfsChildren :: "nat \<Rightarrow> (string, string list) gomap \<Rightarrow> string set \<Rightarrow> string list \<Rightarrow> bool \<Rightarrow> string set
    \<Rightarrow> (bool \<times> string set) option" where
  "dfs 0 tree leaves node required = None"
| "dfs (Suc fuel) tree leaves node required =
     (case dfsChildren fuel tree leaves (listAt tree node) (node \<in> leaves) required of
        None \<Rightarrow> None
      | Some (keep, required') \<Rightarrow>
          Some (keep, if keep then insert node required' else required'))"
| "dfsChildren fuel tree leaves [] keep required = Some (keep, required)"
| "dfsChildren fuel tree leaves (child # rest) keep required =
     (case dfs fuel tree leaves child required of
        None \<Rightarrow> None
      | Some (k, required') \<Rightarrow> dfsChildren fuel tree leaves rest (keep \<or> k) required')"

definition findRequiredNodes :: "nat \<Rightarrow> NetworkTopology \<Rightarrow> string set \<Rightarrow> string set option" where
  "findRequiredNodes fuel nt leaves = map_option snd (dfs fuel (ntTree nt) leaves [] {})"

definition buildSubTree :: "NetworkTopology \<Rightarrow> string set \<Rightarrow> (string, string list) gomap" where
  "buildSubTree nt required =
     concat (map (\<lambda>(parent, children).
         if parent \<in> required \<and> filter (\<lambda>c. c \<in> required) children \<noteq> []
         then [(parent, filter (\<lambda>c. c \<in> required) children)] else []) (ntTree nt))"

definition getPartitionTree :: "nat \<Rightarrow> NetworkTopology \<Rightarrow> string list \<Rightarrow> (string, string list) gomap option" where
  "getPartitionTree fuel nt nodes = map_option (buildSubTree nt) (findRequiredNodes fuel nt (set nodes))"

text \<open>One switch of the unit: its entry and the parents of its children.\<close>

definition unitParents :: "heap \<Rightarrow> nat \<Rightarrow> (string, string list) gomap \<Rightarrow> (string, string list) gomap" where
  "unitParents h a parents =
     foldl (\<lambda>m c. let w = h ! c; key = (if Vertices w = [] then vName w else vID w)
                  in gm_put key (listAt m (vID (h ! a)) @ [vID (h ! a)]) m)
       parents (childAddrs h a)"

definition unitSwitch :: "heap \<Rightarrow> nat \<Rightarrow> string set \<Rightarrow> string list \<Rightarrow> Switch list" where
  "unitSwitch h a nodeSelector connects =
     (let ws = map (\<lambda>c. h ! c) (childAddrs h a);
          leaves = map vName (filter (\<lambda>w. Vertices w = [] \<and> vName w \<in> nodeSelector) ws);
          children = map vID (filter (\<lambda>w. Vertices w \<noteq> [] \<and> vID w \<in> set connects) ws)
      in if children \<noteq> [] \<or> leaves \<noteq> []
         then [\<lparr>swName = vID (h ! a),
                swChildren = (if children \<noteq> [] then join '','' (Compact children) else []),
                swNodes = (if leaves \<noteq> [] then join '','' (Compact leaves) else [])\<rparr>]
         else [])"

function unitLoop ::
  "heap \<Rightarrow> NetworkTopology \<Rightarrow> (string, string list) gomap \<Rightarrow> string set \<Rightarrow> string list \<Rightarrow> string list
     \<Rightarrow> TreeTopo \<Rightarrow> go_panic + TreeTopo" where
  "unitLoop h nt tree nodeSelector visited [] tt = Inr tt"
| "unitLoop h nt tree nodeSelector visited (switchID # queue) tt =
     (if switchID \<in> set visited then unitLoop h nt tree nodeSelector visited queue tt
      else
        (case gm_get tree switchID of
           None \<Rightarrow> unitLoop h nt tree nodeSelector (switchID # visited) queue tt
         | Some connects \<Rightarrow>
             if switchID = [] then
               unitLoop h nt tree nodeSelector (switchID # visited) (queue @ connects)
                 (tt\<lparr>topLevel := topLevel tt @ connects\<rparr>)
             else
               (case gm_get (ntVertices nt) switchID of
                  None \<Rightarrow> Inl NilDereference
                | Some a \<Rightarrow>
                    unitLoop h nt tree nodeSelector (switchID # visited) (queue @ connects)
                      (tt\<lparr>Switches := Switches tt @ unitSwitch h a nodeSelector connects,
                          ttParents := unitParents h a (ttParents tt)\<rparr>))))"
  by pat_completeness auto

termination unitLoop
  by (relation "measures [\<lambda>(h, nt, tree, sel, visited, queue, tt). card (set (gm_keys tree) - set visited),
      \<lambda>(h, nt, tree, sel, visited, queue, tt). length queue]")
    (auto simp: card_visit card_skip simp del: set_map)

definition newSelector :: "string list \<Rightarrow> string set" where
  "newSelector xs = set xs"

definition getTreeTopologyUnit ::
  "nat \<Rightarrow> heap \<Rightarrow> NetworkTopology \<Rightarrow> string \<Rightarrow> TopologySpec \<Rightarrow> (go_panic + (terror + TopologyUnit)) option" where
  "getTreeTopologyUnit fuel h nt topoName topoSpec =
     (let tu = \<lparr>tuName = topoName, tuDefault = ClusterDefault topoSpec, tuFlat = False,
                tuTree = None, tuBlock = None\<rparr>
      in case ExpandWithLimit (sNodes topoSpec) of
           Inl err \<Rightarrow> Some (Inr (Inl (Expansion topoName)))
         | Inr nodeNames \<Rightarrow>
             (let known = filter (\<lambda>n. gm_get (ntNodeInfo nt) n \<noteq> None) nodeNames;
                  nodeSelector = newSelector known;
                  nodeIDs = map (\<lambda>n. niInstanceID (the (gm_get (ntNodeInfo nt) n))) known
              in case getPartitionTree fuel nt nodeIDs of
                   None \<Rightarrow> None
                 | Some tree \<Rightarrow>
                     if tree = [] then Some (Inr (Inr (tu\<lparr>tuFlat := True\<rparr>)))
                     else
                       (case unitLoop h nt tree nodeSelector [] [[]]
                               \<lparr>Switches = [], ttParents = [], topLevel = []\<rparr> of
                          Inl p \<Rightarrow> Some (Inl p)
                        | Inr tt \<Rightarrow> Some (Inr (Inr (tu\<lparr>tuTree := Some tt\<rparr>))))))"

subsubsection \<open>All units\<close>

text \<open>
  The loop over the sorted topology names; an error is returned together with the units built
  before it.
\<close>

definition topologyUnit ::
  "nat \<Rightarrow> heap \<Rightarrow> NetworkTopology \<Rightarrow> string \<Rightarrow> TopologySpec \<Rightarrow> (go_panic + (terror + TopologyUnit)) option" where
  "topologyUnit fuel h nt topoName topoSpec =
     (if sPlugin topoSpec = TopologyTree then
        map_option (map_sum id (map_sum (InTopology topoName) id)) (getTreeTopologyUnit fuel h nt topoName topoSpec)
      else if sPlugin topoSpec = TopologyBlock then
        Some (map_sum id (map_sum (InTopology topoName) id) (getBlockTopologyUnit nt topoName topoSpec))
      else if sPlugin topoSpec = TopologyFlat then
        Some (Inr (Inr \<lparr>tuName = topoName, tuDefault = ClusterDefault topoSpec, tuFlat = True,
                        tuTree = None, tuBlock = None\<rparr>))
      else Some (Inr (Inl (UnsupportedPlugin (sPlugin topoSpec)))))"

fun topologiesLoop ::
  "nat \<Rightarrow> heap \<Rightarrow> NetworkTopology \<Rightarrow> string list \<Rightarrow> TopologyUnit list
     \<Rightarrow> (go_panic + (TopologyUnit list \<times> (int \<times> terror) option)) option" where
  "topologiesLoop fuel h nt [] topologies = Some (Inr (topologies, None))"
| "topologiesLoop fuel h nt (topoName # topoNames) topologies =
     (case topologyUnit fuel h nt topoName (the (gm_get (Topologies (ntConfig nt)) topoName)) of
        None \<Rightarrow> None
      | Some (Inl p) \<Rightarrow> Some (Inl p)
      | Some (Inr (Inl err)) \<Rightarrow> Some (Inr (topologies, Some (StatusBadRequest, err)))
      | Some (Inr (Inr tu)) \<Rightarrow> topologiesLoop fuel h nt topoNames (topologies @ [tu]))"

definition GetTopologies ::
  "nat \<Rightarrow> heap \<Rightarrow> NetworkTopology \<Rightarrow> (go_panic + (TopologyUnit list \<times> (int \<times> terror) option)) option" where
  "GetTopologies fuel h nt = topologiesLoop fuel h nt (sorted_keys (Topologies (ntConfig nt))) []"

definition toYamlTopology ::
  "(TopologyUnit list \<Rightarrow> string + string) \<Rightarrow> TopologyUnit list \<Rightarrow> bool \<Rightarrow> int \<times> terror + string" where
  "toYamlTopology marshal topologies skeletonOnly =
     (case marshal (if skeletonOnly then copySkeleton topologies else topologies) of
        Inl err \<Rightarrow> Inl (StatusInternalServerError, EncodingFailed err)
      | Inr data \<Rightarrow> Inr data)"

subsection \<open>Entry points\<close>

definition GenerateTopologyConfig ::
  "(TopologyUnit list \<Rightarrow> string + string) \<Rightarrow> nat \<Rightarrow> heap \<Rightarrow> NetworkTopology \<Rightarrow> bool
     \<Rightarrow> (go_panic + (NetworkTopology \<times> TopologyUnit list \<times> (int \<times> terror + string))) option" where
  "GenerateTopologyConfig marshal fuel h nt skeletonOnly =
     (case GetTopologies fuel h nt of
        None \<Rightarrow> None
      | Some (Inl p) \<Rightarrow> Some (Inl p)
      | Some (Inr (topologies, Some err)) \<Rightarrow> Some (Inr (nt, topologies, Inl err))
      | Some (Inr (topologies, None)) \<Rightarrow>
          if Topologies (ntConfig nt) \<noteq> []
          then Some (Inr (nt, topologies, toYamlTopology marshal topologies skeletonOnly))
          else if Plugin (ntConfig nt) = TopologyBlock
          then Some (map_sum id (\<lambda>(nt', res). (nt', topologies, res)) (toBlockTopology nt skeletonOnly))
          else Some (Inr (nt, topologies, toTreeTopology h nt skeletonOnly)))"

definition Generate ::
  "(TopologyUnit list \<Rightarrow> string + string) \<Rightarrow> nat \<Rightarrow> heap \<Rightarrow> NetworkTopology
     \<Rightarrow> (go_panic + (NetworkTopology \<times> (int \<times> terror + string))) option" where
  "Generate marshal fuel h nt =
     map_option (map_sum id (\<lambda>(nt', topologies, res). (nt', res))) (GenerateTopologyConfig marshal fuel h nt False)"

definition specParent :: "string \<Rightarrow> TopologyUnit \<Rightarrow> string" where
  "specParent node tu =
     (case tuTree tu of
        Some t \<Rightarrow> (case gm_get (ttParents t) node of Some sws \<Rightarrow> join '':'' sws | None \<Rightarrow> [])
      | None \<Rightarrow>
          (case tuBlock tu of
             Some b \<Rightarrow> (case gm_get (btParents b) node of Some block \<Rightarrow> block | None \<Rightarrow> [])
           | None \<Rightarrow> []))"

definition addSpec :: "string \<Rightarrow> string \<Rightarrow> TopologyUnit \<Rightarrow> string" where
  "addSpec node buf tu =
     (let parent = specParent node tu
      in if parent = [] then buf
         else buf @ (if buf \<noteq> [] then '','' else []) @ tuName tu @ '':'' @ parent)"

definition getTopologySpec :: "string \<Rightarrow> TopologyUnit list \<Rightarrow> string" where
  "getTopologySpec node topologies = foldl (addSpec node) [] topologies"

definition GetNodeTopologySpec :: "NetworkTopology \<Rightarrow> string \<Rightarrow> TopologyUnit list \<Rightarrow> string" where
  "GetNodeTopologySpec nt node topologies =
     (case gm_get (ntNodeInfo nt) node of
        None \<Rightarrow> []
      | Some info \<Rightarrow>
          if Topologies (ntConfig nt) \<noteq> [] then getTopologySpec node topologies
          else if Plugin (ntConfig nt) = TopologyBlock then
            (if niBlockID info = [] then [] else ''default:'' @ niBlockID info)
          else if Plugin (ntConfig nt) = TopologyTree then ''default:'' @ join '':'' (niSwitches info)
          else [])"

section \<open>Network topologies of an accepted graph\<close>

text \<open>
  \<open>built h r nt T\<close>: the maps of \<open>nt\<close> describe the tree below \<open>r\<close>, whose vertices are listed by \<open>T\<close>.
\<close>

definition built :: "heap \<Rightarrow> nat \<Rightarrow> NetworkTopology \<Rightarrow> nat list \<Rightarrow> bool" where
  "built h r nt T \<longleftrightarrow>
     treeOrder h r T \<and> idAt h r = [] \<and> keysOk h \<and>
     ntVertices nt = map (\<lambda>a. (idAt h a, a)) T \<and>
     ntTree nt = map (\<lambda>a. (idAt h a, sort (gm_keys (Vertices (h ! a))))) T"

lemma orderLeaf_maps [simp]:
  "ntTree (fst (orderLeaf h bm a st)) = ntTree (fst st)"
  "ntVertices (fst (orderLeaf h bm a st)) = ntVertices (fst st)"
  "ntConfig (fst (orderLeaf h bm a st)) = ntConfig (fst st)"
  by (auto simp: orderLeaf_def markBlockNodes_def Let_def split: prod.splits option.splits)

lemma orderBlocks_maps:
  "orderBlocks fuel h bm q st = Some st' \<Longrightarrow>
     ntTree (fst st') = ntTree (fst st) \<and> ntVertices (fst st') = ntVertices (fst st) \<and> ntConfig (fst st') = ntConfig (fst st)"
  by (induction fuel h bm q st rule: orderBlocks.induct) (auto split: if_splits)

lemma flatBlocks_maps:
  "ntTree (flatBlocks d bs nt) = ntTree nt \<and> ntVertices (flatBlocks d bs nt) = ntVertices nt \<and>
   ntConfig (flatBlocks d bs nt) = ntConfig nt"
proof -
  have "ntTree (foldl f nt xs) = ntTree nt \<and> ntVertices (foldl f nt xs) = ntVertices nt \<and>
      ntConfig (foldl f nt xs) = ntConfig nt"
    if "\<And>n x. ntTree (f n x) = ntTree n \<and> ntVertices (f n x) = ntVertices n \<and> ntConfig (f n x) = ntConfig n"
    for f and xs :: "(nat \<times> blockInfo) list"
    using that by (induction xs arbitrary: nt) auto
  then show ?thesis unfolding flatBlocks_def Let_def by (auto split: prod.splits)
qed

lemma initBlocks_maps:
  assumes "initBlocks fuel h graph nt = Some nt'"
  shows "ntTree nt' = ntTree nt \<and> ntVertices nt' = ntVertices nt \<and> ntConfig nt' = ntConfig nt"
  using assms orderBlocks_maps [where st' = "(nt', _)"]
  by (fastforce simp: initBlocks_def Let_def flatBlocks_maps split: option.splits if_splits)

lemma NewNetworkTopology_built:
  assumes "NewNetworkTopology compile h (Some g) cfg = Some (Inr nt)"
    and "Tiers g = Some r" and "r < length h" and "idAt h r = []" and "keysOk h"
  obtains T where "built h r nt T"
proof -
  from assms(1) obtain cfg' nt1 where nt1: "initTree h (Some g) (newTopology cfg') = Inr nt1"
    and nt: "initBlocks (length h) h (Some g) nt1 = Some nt"
    by (auto simp: NewNetworkTopology_def split: sum.splits)
  obtain T ts where ts: "loopInv h r T ts" "tsQueue ts = []" "treeOrder h r T"
    and eq: "nt1 = (newTopology cfg')\<lparr>ntTree := map (apsnd sort) (tsTree ts), ntVertices := tsVertices ts,
      ntNodeInfo := tsNodeInfo ts\<rparr>"
    by (rule initTree_loop [OF assms(2,3) nt1])
  have "tsVertices ts = map (\<lambda>a. (idAt h a, a)) T"
    and "tsTree ts = map (\<lambda>a. (idAt h a, gm_keys (Vertices (h ! a)))) T"
    using ts(1) unfolding loopInv_def by simp_all
  then have "built h r nt T"
    using initBlocks_maps [OF nt] ts(3) assms(4,5) by (simp add: built_def eq newTopology_def)
  then show thesis by (rule that)
qed

lemma map_of_ids:
  "distinct (map f T) \<Longrightarrow> a \<in> set T \<Longrightarrow> map_of (map (\<lambda>a. (f a, g a)) T) (f a) = Some (g a)"
  by (induction T) (auto simp: rev_image_eqI)

lemma map_of_ids_None: "k \<notin> f ` set T \<Longrightarrow> map_of (map (\<lambda>a. (f a, g a)) T) k = None"
  by (simp add: map_of_eq_None_iff image_image)

lemma built_root: "built h r nt T \<Longrightarrow> r \<in> set T"
  unfolding built_def treeOrder_def by (metis list.set_intros(1))

lemma built_kids:
  assumes "built h r nt T" and "a \<in> set T" and "b \<in> set (kids h a)"
  shows "b \<in> set T"
proof -
  have "T = r # concat (map (kids h) T)" using assms(1) by (simp add: built_def treeOrder_def)
  moreover have "b \<in> set (concat (map (kids h) T))" using assms(2,3) by auto
  ultimately show ?thesis by (metis list.set_intros(2))
qed

lemma built_reach:
  assumes "built h r nt T"
  shows "reach h r a \<longleftrightarrow> a \<in> set T"
proof
  show "reach h r a \<Longrightarrow> a \<in> set T"
    by (induction rule: reach.induct) (use built_root [OF assms] built_kids [OF assms] in auto)
  show "a \<in> set T \<Longrightarrow> reach h r a" using assms by (simp add: built_def treeOrder_def)
qed

lemma built_inj: "built h r nt T \<Longrightarrow> a \<in> set T \<Longrightarrow> b \<in> set T \<Longrightarrow> idAt h a = idAt h b \<Longrightarrow> a = b"
  by (rule inj_onD [of "idAt h" "set T"]) (simp_all add: built_def treeOrder_def distinct_map)

lemma built_mem:
  assumes "built h r nt T" and "L \<subseteq> set T" and "a \<in> set T" and "idAt h a \<in> idAt h ` L"
  shows "a \<in> L"
proof -
  from assms(4) obtain b where b: "b \<in> L" "idAt h a = idAt h b" by blast
  then have "a = b" using built_inj [OF assms(1,3)] assms(2) by blast
  then show ?thesis using b(1) by simp
qed

lemma built_vertex: "built h r nt T \<Longrightarrow> a \<in> set T \<Longrightarrow> gm_get (ntVertices nt) (idAt h a) = Some a"
  unfolding built_def treeOrder_def using map_of_ids [of "idAt h" T a "\<lambda>a. a"] by simp

lemma built_children:
  assumes "built h r nt T" and "a \<in> set T"
  shows "set (listAt (ntTree nt) (idAt h a)) = idAt h ` set (kids h a)"
proof -
  have a: "a < length h" "keysOk h" using assms by (auto simp: built_def treeOrder_def)
  have "gm_get (ntTree nt) (idAt h a) = Some (sort (gm_keys (Vertices (h ! a))))"
    using assms map_of_ids [of "idAt h" T a "\<lambda>a. sort (gm_keys (Vertices (h ! a)))"]
    unfolding built_def treeOrder_def by simp
  then have "listAt (ntTree nt) (idAt h a) = sort (gm_keys (Vertices (h ! a)))" by (simp add: listAt_def)
  moreover have "fst x = idAt h (the (snd x))" if "x \<in> set (Vertices (h ! a))" for x
    using a that unfolding keysOk_def by (cases x) fastforce
  ultimately show ?thesis by (force simp: kids_def)
qed

section \<open>The tree file lists every vertex once\<close>

lemma treeLoop_complete:
  assumes "built h r nt T" and "\<not> sk" and "set visited \<subseteq> idAt h ` set T" and "set queue \<subseteq> idAt h ` set T"
  shows "\<exists>L. treeLoop h nt sk visited queue out = Inr (out @ concat (map (\<lambda>a. writeVertex h a False) L)) \<and>
      distinct L \<and> set L \<subseteq> set T \<and> idAt h ` set L \<inter> set visited = {} \<and>
      set queue \<subseteq> set visited \<union> idAt h ` set L \<and>
      (\<forall>a \<in> set L. idAt h ` set (kids h a) \<subseteq> set visited \<union> idAt h ` set L)"
  using assms
proof (induction h nt sk visited queue out rule: treeLoop.induct)
  case (1 h nt sk visited out)
  show ?case by (intro exI [of _ "[]"]) simp
next
  case (2 h nt sk visited i queue out)
  note B = "2.prems"(1)
  show ?case
  proof (cases "i \<in> set visited")
    case True
    then show ?thesis using "2.IH"(1) [OF True B "2.prems"(2,3)] "2.prems"(4) by auto
  next
    case False
    obtain a where a: "a \<in> set T" "i = idAt h a" using "2.prems"(4) by auto
    note v = built_vertex [OF B a(1), folded a(2)]
    have ch: "set (listAt (ntTree nt) i) = idAt h ` set (kids h a)" using built_children [OF B a(1)] a(2) by simp
    have sub: "idAt h ` set (kids h a) \<subseteq> idAt h ` set T" using built_kids [OF B a(1)] by auto
    have step: "treeLoop h nt sk visited (i # queue) out =
        treeLoop h nt sk (i # visited) (queue @ listAt (ntTree nt) i) (out @ writeVertex h a False)"
      using False v "2.prems"(2) by simp
    have "set (i # visited) \<subseteq> idAt h ` set T" and "set (queue @ listAt (ntTree nt) i) \<subseteq> idAt h ` set T"
      using "2.prems"(3,4) a sub ch by auto
    from "2.IH"(3) [OF False v _ B "2.prems"(2) this] "2.prems"(2)
    obtain L where L: "treeLoop h nt sk (i # visited) (queue @ listAt (ntTree nt) i) (out @ writeVertex h a False) =
          Inr ((out @ writeVertex h a False) @ concat (map (\<lambda>a. writeVertex h a False) L))"
      "distinct L" "set L \<subseteq> set T" "idAt h ` set L \<inter> set (i # visited) = {}"
      "set (queue @ listAt (ntTree nt) i) \<subseteq> set (i # visited) \<union> idAt h ` set L"
      "\<forall>a \<in> set L. idAt h ` set (kids h a) \<subseteq> set (i # visited) \<union> idAt h ` set L"
      by auto
    have "a \<notin> set L" using L(4) a(2) by auto
    then show ?thesis using L a False ch unfolding step by (intro exI [of _ "a # L"]) auto
  qed
qed

lemma toTreeTopology_all:
  assumes "NewNetworkTopology compile h (Some g) cfg = Some (Inr nt)"
    and "Tiers g = Some r" and "r < length h" and "idAt h r = []" and "keysOk h"
  obtains L T where "built h r nt T" and "distinct L" and "set L = set T"
    and "toTreeTopology h nt False = Inr (concat (map (\<lambda>a. writeVertex h a False) L))"
proof -
  obtain T where B: "built h r nt T" by (rule NewNetworkTopology_built [OF assms])
  have "idAt h ` set [r] \<subseteq> idAt h ` set T" using built_root [OF B] by auto
  then obtain L where L: "toTreeTopology h nt False = Inr (concat (map (\<lambda>a. writeVertex h a False) L))"
    "distinct L" "set L \<subseteq> set T" "[] \<in> idAt h ` set L"
    "\<forall>a \<in> set L. idAt h ` set (kids h a) \<subseteq> idAt h ` set L"
    using treeLoop_complete [OF B, of False "[]" "[[]]" "[]"] assms(4) by (auto simp: toTreeTopology_def)
  have "a \<in> set L" if "reach h r a" for a
    using that
  proof (induction rule: reach.induct)
    case root
    then show ?case using built_mem [OF B L(3) built_root [OF B]] L(4) assms(4) by simp
  next
    case (child a b)
    then have "idAt h b \<in> idAt h ` set L" using L(5) by blast
    moreover have "b \<in> set T" using child L(3) built_kids [OF B] by blast
    ultimately show ?case using built_mem [OF B L(3)] by blast
  qed
  then have "set L = set T" using L(3) built_reach [OF B] by auto
  then show ?thesis using that [OF B L(2) _ L(1)] by blast
qed

text \<open>
  The lines of the file, as Slurm reads them: a switch is called by its name, or by its ID when it has none, and a
  comment gives both; a node is called by its name.
\<close>

definition switchLine :: "Vertex \<Rightarrow> string \<Rightarrow> string list \<Rightarrow> string" where
  "switchLine v keyword below =
     (if below = [] then []
      else (if vName v = [] then [] else ''# '' @ vName v @ ''='' @ vID v @ [newline]) @
        ''SwitchName='' @ (if vName v = [] then vID v else vName v) @ '' '' @ keyword @ ''='' @ join '','' (Compact below) @ [newline])"

definition switchEntry :: "heap \<Rightarrow> nat \<Rightarrow> string" where
  "switchEntry h a =
     switchLine (h ! a) ''Switches'' (map (\<lambda>c. if vName (h ! c) \<noteq> [] then vName (h ! c) else vID (h ! c)) (filter (\<lambda>c. kids h c \<noteq> []) (kids h a))) @
     switchLine (h ! a) ''Nodes'' (map (\<lambda>c. vName (h ! c)) (filter (\<lambda>c. kids h c = []) (kids h a)))"

lemma childAddrs_kids: "keysOk h \<Longrightarrow> a < length h \<Longrightarrow> childAddrs h a = kids h a"
proof -
  assume k: "keysOk h" "a < length h"
  have "List.map_filter id (map snd xs) = map (the \<circ> snd) xs" if "\<forall>(k, c) \<in> set xs. c \<noteq> None" for xs :: "(string, nat option) gomap"
    using that by (induction xs) (auto simp: map_filter_simps split: option.splits)
  moreover have "\<forall>(k, c) \<in> set (Vertices (h ! a)). c \<noteq> None" using k unfolding keysOk_def by blast
  ultimately show ?thesis unfolding childAddrs_def kids_def by blast
qed

lemma writeVertex_entry:
  assumes "keysOk h" and "a < length h" and "idAt h a \<noteq> []"
  shows "writeVertex h a False = switchEntry h a"
proof -
  have inner: "Vertices (h ! c) = [] \<longleftrightarrow> kids h c = []" for c by (simp add: kids_def)
  show ?thesis
    using assms(3) unfolding writeVertex_def switchEntry_def switchLine_def childAddrs_kids [OF assms(1,2)] inner [symmetric]
    by (simp add: Let_def filter_map comp_def filter_empty_conv)
qed


lemma splitHeap_keysOk: "keysOk splitHeap"
  unfolding keysOk_def splitHeap_def by (auto simp: less_Suc_eq numeral_nat)

lemma splitHeap_root: "Tiers (demoGraph 6) = Some 6" "6 < length splitHeap" "idAt splitHeap 6 = []"
  by (simp_all add: demoGraph_def splitHeap_def)


section \<open>The tree of a partition\<close>

lemma map_witnesses:
  "\<forall>y \<in> set ys. \<exists>x \<in> A. y = f x \<Longrightarrow> \<exists>xs. ys = map f xs \<and> set xs \<subseteq> A"
proof (induction ys)
  case (Cons y ys)
  then obtain x xs where "x \<in> A" "y = f x" "ys = map f xs" "set xs \<subseteq> A" by auto
  then show ?case by (intro exI [of _ "x # xs"]) simp
qed simp

lemma reach_trans: "reach h b c \<Longrightarrow> reach h a b \<Longrightarrow> reach h a c"
  by (induction rule: reach.induct) (auto intro: reach.child)

lemma reach_step: "reach h a c \<longleftrightarrow> a = c \<or> (\<exists>b \<in> set (kids h a). reach h b c)"
proof
  show "reach h a c \<Longrightarrow> a = c \<or> (\<exists>b \<in> set (kids h a). reach h b c)"
    by (induction rule: reach.induct) (auto intro: reach.intros)
  have "reach h a b" if "b \<in> set (kids h a)" for b by (rule reach.child [OF reach.root that])
  then show "a = c \<or> (\<exists>b \<in> set (kids h a). reach h b c) \<Longrightarrow> reach h a c"
    by (auto intro: reach.root reach_trans)
qed

lemma built_distinct:
  assumes "built h r nt T"
  shows "distinct T \<and> distinct (concat (map (kids h) T)) \<and> r \<notin> set (concat (map (kids h) T))"
proof -
  have "distinct T" and "T = r # concat (map (kids h) T)"
    using assms unfolding built_def treeOrder_def by (metis distinct_map)+
  then show ?thesis by (metis distinct.simps(2))
qed

lemma built_parent:
  "built h r nt T \<Longrightarrow> a \<in> set T \<Longrightarrow> b \<in> set T \<Longrightarrow> c \<in> set (kids h a) \<Longrightarrow> c \<in> set (kids h b) \<Longrightarrow> a = b"
  using built_distinct [of h r nt T] concat_map_unique [of "kids h" T a b c] by blast

lemma built_no_parent: "built h r nt T \<Longrightarrow> a \<in> set T \<Longrightarrow> r \<notin> set (kids h a)"
  using built_distinct [of h r nt T] by auto

lemma built_below: "built h r nt T \<Longrightarrow> a \<in> set T \<Longrightarrow> reach h a b \<Longrightarrow> b \<in> set T"
  using built_reach reach_trans by metis

lemma built_finite:
  assumes "built h r nt T" and "a \<in> set T"
  shows "finite {c. reach h a c}"
proof (rule finite_subset)
  show "{c. reach h a c} \<subseteq> set T" using built_below [OF assms] by blast
qed simp

lemma built_acyclic:
  assumes "built h r nt T" and "reach h r a" and "b \<in> set (kids h a)"
  shows "\<not> reach h b a"
  using assms(2,3)
proof (induction arbitrary: b rule: reach.induct)
  case root
  note T = built_kids [OF assms(1) built_root [OF assms(1)] root]
  show ?case
  proof
    assume "reach h b r"
    then show False
    proof cases
      case root
      then show ?thesis using \<open>b \<in> set (kids h r)\<close> built_no_parent [OF assms(1) built_root [OF assms(1)]] by simp
    next
      case (child c)
      then show ?thesis using built_no_parent [OF assms(1)] built_below [OF assms(1) T] by blast
    qed
  qed
next
  case (child a a')
  have a: "a \<in> set T" using child.hyps(1) built_reach [OF assms(1)] by simp
  note a' = built_kids [OF assms(1) a child.hyps(2)]
  note b = built_kids [OF assms(1) a' child.prems]
  show ?case
  proof
    assume "reach h b a'"
    then show False
    proof cases
      case root
      then have "a = a'" using built_parent [OF assms(1) a a' child.hyps(2)] child.prems by simp
      then show ?thesis using child.IH [OF child.hyps(2)] reach.root by simp
    next
      case (child c)
      then have "a = c" using built_parent [OF assms(1) a _ \<open>a' \<in> set (kids h a)\<close>] built_below [OF assms(1) b] by blast
      then have "reach h a' a" using child(1) \<open>b \<in> set (kids h a')\<close> reach_step by blast
      then show ?thesis using \<open>\<And>b. b \<in> set (kids h a) \<Longrightarrow> \<not> reach h b a\<close> \<open>a' \<in> set (kids h a)\<close> by blast
    qed
  qed
qed

lemma built_smaller:
  assumes "built h r nt T" and "a \<in> set T" and "b \<in> set (kids h a)"
  shows "card {c. reach h b c} < card {c. reach h a c}"
proof (rule psubset_card_mono)
  have "reach h r a" using assms(1,2) built_reach by blast
  then have "\<not> reach h b a" by (rule built_acyclic [OF assms(1) _ assms(3)])
  moreover have "reach h a c" if "reach h b c" for c
    using reach_trans [OF that] reach.child [OF reach.root assms(3)] by simp
  ultimately show "{c. reach h b c} \<subset> {c. reach h a c}" using reach.root [of h a] by auto
qed (rule built_finite [OF assms(1,2)])

text \<open>The vertices below \<open>a\<close> with a selected vertex at or below them.\<close>

definition needed :: "heap \<Rightarrow> string set \<Rightarrow> nat \<Rightarrow> bool" where
  "needed h leaves a \<longleftrightarrow> (\<exists>b. reach h a b \<and> idAt h b \<in> leaves)"

definition neededIDs :: "heap \<Rightarrow> string set \<Rightarrow> nat \<Rightarrow> string set" where
  "neededIDs h leaves a = {idAt h b | b. reach h a b \<and> needed h leaves b}"

lemma reach_ex: "(\<exists>c. reach h a c \<and> P c) \<longleftrightarrow> P a \<or> (\<exists>b \<in> set (kids h a). \<exists>c. reach h b c \<and> P c)"
  by (simp add: reach_step [of h a] cong: conj_cong) auto

lemma needed_step: "needed h leaves a \<longleftrightarrow> idAt h a \<in> leaves \<or> (\<exists>b \<in> set (kids h a). needed h leaves b)"
  unfolding needed_def by (rule reach_ex)

lemma neededIDs_step:
  "neededIDs h leaves a =
     (if needed h leaves a then {idAt h a} else {}) \<union> (\<Union>b \<in> set (kids h a). neededIDs h leaves b)"
proof -
  have "i \<in> neededIDs h leaves x \<longleftrightarrow> (\<exists>b. reach h x b \<and> i = idAt h b \<and> needed h leaves b)" for i x
    by (auto simp: neededIDs_def)
  note mem = this
  show ?thesis
  proof (rule set_eqI)
    fix i
    show "i \<in> neededIDs h leaves a \<longleftrightarrow>
        i \<in> (if needed h leaves a then {idAt h a} else {}) \<union> (\<Union>b \<in> set (kids h a). neededIDs h leaves b)"
      unfolding mem [of i a] reach_ex [of h a] by (auto simp: mem)
  qed
qed

lemma dfsChildren_needed:
  assumes "\<And>b R. b \<in> B \<Longrightarrow> dfs fuel tree leaves (idAt h b) R = Some (needed h leaves b, R \<union> neededIDs h leaves b)"
  shows "set bs \<subseteq> B \<Longrightarrow> dfsChildren fuel tree leaves (map (idAt h) bs) keep R =
    Some (keep \<or> (\<exists>b \<in> set bs. needed h leaves b), R \<union> (\<Union>b \<in> set bs. neededIDs h leaves b))"
  by (induction bs arbitrary: keep R) (auto simp: assms)

lemma dfs_needed:
  assumes B: "built h r nt T"
  shows "a \<in> set T \<Longrightarrow> card {c. reach h a c} \<le> fuel \<Longrightarrow>
    dfs fuel (ntTree nt) leaves (idAt h a) R = Some (needed h leaves a, R \<union> neededIDs h leaves a)"
proof (induction fuel arbitrary: a R)
  case 0
  then show ?case using built_finite [OF B 0(1)] reach.root [of h a] by auto
next
  case (Suc fuel)
  obtain bs where bs: "listAt (ntTree nt) (idAt h a) = map (idAt h) bs" "set bs = set (kids h a)"
  proof -
    have "\<forall>i \<in> set (listAt (ntTree nt) (idAt h a)). \<exists>b \<in> set (kids h a). i = idAt h b"
      using built_children [OF B Suc.prems(1)] by auto
    then obtain bs where bs: "listAt (ntTree nt) (idAt h a) = map (idAt h) bs" "set bs \<subseteq> set (kids h a)"
      using map_witnesses [of _ "set (kids h a)" "idAt h"] by blast
    moreover have "set (kids h a) \<subseteq> set bs"
    proof
      fix b assume b: "b \<in> set (kids h a)"
      then have "idAt h b \<in> idAt h ` set bs" using built_children [OF B Suc.prems(1)] bs(1) by simp
      then show "b \<in> set bs"
        using built_mem [OF B, of "set bs" b] built_kids [OF B Suc.prems(1)] bs(2) b by blast
    qed
    ultimately show thesis using that by blast
  qed
  have IH: "dfs fuel (ntTree nt) leaves (idAt h b) R = Some (needed h leaves b, R \<union> neededIDs h leaves b)"
    if "b \<in> set (kids h a)" for b R
    using Suc.IH [OF built_kids [OF B Suc.prems(1) that]] built_smaller [OF B Suc.prems(1) that] Suc.prems(2) by simp
  have "dfsChildren fuel (ntTree nt) leaves (listAt (ntTree nt) (idAt h a)) (idAt h a \<in> leaves) R =
      Some (needed h leaves a, R \<union> (\<Union>b \<in> set (kids h a). neededIDs h leaves b))"
    using dfsChildren_needed [of "set (kids h a)", OF IH, of bs] bs needed_step [of h leaves a] by simp
  then show ?case using neededIDs_step [of h leaves a] by (auto simp: insert_commute)
qed

lemma built_small: "built h r nt T \<Longrightarrow> a \<in> set T \<Longrightarrow> card {c. reach h a c} \<le> length h"
proof -
  assume B: "built h r nt T" and a: "a \<in> set T"
  have "{c. reach h a c} \<subseteq> {..<length h}"
    using built_below [OF B a] B by (auto simp: built_def treeOrder_def)
  then show ?thesis using card_mono [of "{..<length h}"] by simp
qed

text \<open>
  C10. The pruned tree of a partition: the recursion of \<open>findRequiredNodes\<close> ends on every accepted
  graph (its depth is at most the number of vertices), and the vertices it keeps are exactly those
  on a path from the root to a selected vertex.
\<close>

theorem findRequiredNodes_exact:
  assumes "NewNetworkTopology compile h (Some g) cfg = Some (Inr nt)"
    and "Tiers g = Some r" and "r < length h" and "idAt h r = []" and "keysOk h"
  shows "findRequiredNodes (length h) nt leaves =
    Some {idAt h a | a. reach h r a \<and> (\<exists>b. reach h a b \<and> idAt h b \<in> leaves)}"
proof -
  obtain T where B: "built h r nt T" by (rule NewNetworkTopology_built [OF assms])
  have "dfs (length h) (ntTree nt) leaves [] {} = Some (needed h leaves r, {} \<union> neededIDs h leaves r)"
    using dfs_needed [OF B built_root [OF B] built_small [OF B built_root [OF B]], of leaves "{}"] assms(4) by simp
  then show ?thesis by (simp add: findRequiredNodes_def neededIDs_def needed_def)
qed

theorem findRequiredNodes_exact_witness:
  "findRequiredNodes (length splitHeap) demoTopology {''B''} =
     Some {idAt splitHeap a | a. reach splitHeap 6 a \<and> (\<exists>b. reach splitHeap a b \<and> idAt splitHeap b \<in> {''B''})}"
  by (rule findRequiredNodes_exact [OF demoTopology_built splitHeap_root splitHeap_keysOk])

subsection \<open>Tree units are always built\<close>

lemma buildSubTree_keys: "set (gm_keys (buildSubTree nt required)) \<subseteq> set (gm_keys (ntTree nt))"
  by (auto simp: buildSubTree_def split: if_splits prod.splits intro: rev_image_eqI)

lemma built_keys: "built h r nt T \<Longrightarrow> set (gm_keys (ntTree nt)) = set (gm_keys (ntVertices nt))"
  by (simp add: built_def comp_def)

lemma unitLoop_total:
  assumes "set (gm_keys tree) \<subseteq> set (gm_keys (ntVertices nt))"
  shows "\<exists>tt'. unitLoop h nt tree nodeSelector visited queue tt = Inr tt'"
  using assms
proof (induction h nt tree nodeSelector visited queue tt rule: unitLoop.induct)
  case (2 h nt tree sel visited i queue tt)
  have v: "gm_get (ntVertices nt) i \<noteq> None" if "gm_get tree i = Some connects" for connects
    using that "2.prems" gm_key_get [of i tree] gm_key_get [of i "ntVertices nt"] by auto
  show ?case
  proof (cases "gm_get tree i")
    case None
    then show ?thesis using "2.IH"(1,2) "2.prems" by simp
  next
    case (Some connects)
    obtain a where "gm_get (ntVertices nt) i = Some a" using v [OF Some] by blast
    then show ?thesis using "2.IH"(1,3,4) Some "2.prems" by auto
  qed
qed simp

lemma getTreeTopologyUnit_total:
  assumes "built h r nt T"
  shows "\<exists>res. getTreeTopologyUnit (length h) h nt topoName topoSpec = Some (Inr res)"
proof -
  have id: "idAt h r = []" using assms by (simp add: built_def)
  have "\<exists>tree. getPartitionTree (length h) nt ids = Some tree \<and> set (gm_keys tree) \<subseteq> set (gm_keys (ntVertices nt))" for ids
    using dfs_needed [OF assms built_root [OF assms] built_small [OF assms built_root [OF assms]], unfolded id]
      buildSubTree_keys [of nt] built_keys [OF assms]
    by (auto simp: getPartitionTree_def findRequiredNodes_def)
  note tree = this
  show ?thesis
  proof (cases "ExpandWithLimit (sNodes topoSpec)")
    case (Inr names)
    let ?known = "filter (\<lambda>n. gm_get (ntNodeInfo nt) n \<noteq> None) names"
    obtain tree where t: "getPartitionTree (length h) nt
        (map (\<lambda>n. niInstanceID (the (gm_get (ntNodeInfo nt) n))) ?known) = Some tree"
      "set (gm_keys tree) \<subseteq> set (gm_keys (ntVertices nt))"
      using tree by blast
    obtain tt where "unitLoop h nt tree (newSelector ?known) [] [[]]
        \<lparr>Switches = [], ttParents = [], topLevel = []\<rparr> = Inr tt"
      using unitLoop_total [OF t(2)] by blast
    then show ?thesis using t(1) Inr by (simp add: getTreeTopologyUnit_def Let_def)
  qed (simp add: getTreeTopologyUnit_def)
qed

end
