(* ===== verification/GoText.thy ===== *)
theory GoText
  imports Prelude
begin

text \<open>
  The text operations of Go's standard library that several components use: \<open>bufio.Scanner\<close> over
  lines, \<open>strings.HasPrefix\<close>, \<open>CutPrefix\<close>, \<open>Contains\<close>, \<open>ToLower\<close> on ASCII and the white space class
  of regular expressions.
\<close>

section \<open>Lines\<close>

text \<open>
  \<open>bufio.ScanLines\<close>: lines end at a newline, one trailing carriage return is dropped, and the text
  after the last newline is a line only if it is not empty.
\<close>

definition dropCR :: "string \<Rightarrow> string" where
  "dropCR s = (if s \<noteq> [] \<and> last s = carriage then butlast s else s)"

fun rawLines :: "string \<Rightarrow> string \<Rightarrow> string list" where
  "rawLines acc [] = (if acc = [] then [] else [rev acc])"
| "rawLines acc (c # cs) = (if c = newline then rev acc # rawLines [] cs else rawLines (c # acc) cs)"

definition maxScanTokenSize :: nat where
  "maxScanTokenSize = 65536"

text \<open>A line that fills the scanner's buffer ends the scan with an error: \<open>None\<close>.\<close>

definition scanLines :: "string \<Rightarrow> string list option" where
  "scanLines s =
     (let ls = rawLines [] s
      in if list_ex (\<lambda>l. length l \<ge> maxScanTokenSize) ls then None else Some (map dropCR ls))"

lemma rawLines_no_newline:
  "newline \<notin> set acc \<Longrightarrow> l \<in> set (rawLines acc s) \<Longrightarrow> newline \<notin> set l"
  by (induction acc s rule: rawLines.induct) (auto split: if_splits)

lemma rawLines_text:
  "newline \<notin> set l \<Longrightarrow> rawLines acc (l @ newline # s) = (rev acc @ l) # rawLines [] s"
  by (induction l arbitrary: acc) auto

lemma rawLines_lines:
  "\<forall>l \<in> set ls. newline \<notin> set l \<Longrightarrow> rawLines [] (concat (map (\<lambda>l. l @ [newline]) ls)) = ls"
  by (induction ls) (auto simp: rawLines_text)

section \<open>Prefixes and substrings\<close>

definition hasPrefix :: "string \<Rightarrow> string \<Rightarrow> bool" where
  "hasPrefix s p \<longleftrightarrow> take (length p) s = p"

fun contains :: "string \<Rightarrow> string \<Rightarrow> bool" where
  "contains [] p = (p = [])"
| "contains (c # s) p = (hasPrefix (c # s) p \<or> contains s p)"

lemma hasPrefix_append [simp]: "hasPrefix (p @ s) p"
  by (simp add: hasPrefix_def)

lemma hasPrefixE:
  assumes "hasPrefix s p"
  obtains t where "s = p @ t"
  using assms unfolding hasPrefix_def by (metis append_take_drop_id)

section \<open>Characters\<close>

text \<open>The class \<open>\s\<close> of Go's regular expressions: tab, newline, form feed, carriage return, space.\<close>

definition reSpace :: "char \<Rightarrow> bool" where
  "reSpace c \<longleftrightarrow> of_char c \<in> {9, 10, 12, 13, 32 :: nat}"

definition lowerChar :: "char \<Rightarrow> char" where
  "lowerChar c = (if 65 \<le> (of_char c :: nat) \<and> (of_char c :: nat) \<le> 90 then char_of ((of_char c :: nat) + 32) else c)"

text \<open>
  \<open>strings.ToLower\<close>, as far as ASCII letters come out of it: two characters outside ASCII have a
  lower case letter inside it, the Kelvin sign and the capital I with a dot. Other bytes outside ASCII
  stay as they are.
\<close>

fun lowerBytes :: "string \<Rightarrow> string" where
  "lowerBytes [] = []"
| "lowerBytes (c # s) =
     (if take 3 (c # s) = [CHR 0xE2, CHR 0x84, CHR 0xAA] then CHR ''k'' # lowerBytes (drop 2 s)
      else if take 2 (c # s) = [CHR 0xC4, CHR 0xB0] then CHR ''i'' # lowerBytes (drop 1 s)
      else lowerChar c # lowerBytes s)"

definition toLower :: "string \<Rightarrow> string" where
  "toLower s = map lowerChar s"

section \<open>Numbers\<close>

text \<open>\<open>strconv.Atoi\<close>: \<open>None\<close> is a syntax or range error.\<close>

definition Atoi :: "string \<Rightarrow> int option" where
  "Atoi s =
     (let neg = (case s of c # _ \<Rightarrow> c = CHR ''-'' | [] \<Rightarrow> False);
          ds = (case s of c # cs \<Rightarrow> if c = CHR ''-'' \<or> c = CHR ''+'' then cs else s | [] \<Rightarrow> [])
      in if ds = [] then None
         else
           (case parse_uint 0 ds of
              None \<Rightarrow> None
            | Some un \<Rightarrow>
                if neg then (if un > maxInt + 1 then None else Some (- un))
                else if un > maxInt then None
                else Some un))"

end
