(* ===== verification/Slurm.thy ===== *)
theory Slurm
  imports TreeOutput GoText
begin

text \<open>
  Component \<open>pkg/engines/slurm/slurm.go\<close>: the Slurm engine. It validates the block sizes of a
  request, builds the translation settings (asking \<open>scontrol\<close> for the nodes of a partition), and
  writes the topology file.

  Outside the model and passed as arguments: the \<open>scontrol\<close> command (\<open>exec.Exec\<close>), the file system
  (\<open>files.Create\<close>), the regular expression compiler and the YAML encoder.
\<close>

unbundle bit_operations_syntax

section \<open>Model\<close>

record BaseParams =
  bpPlugin :: string
  bpBlockSizes :: "int list"
  bpBlockName :: "BlockNameConfig option"

record PartitionTopology =
  ptPartition :: string
  ptPlugin :: string
  ptBlockSizes :: "int list"
  ptBlockName :: "BlockNameConfig option"
  ptNodes :: "string list option"
  ptDefault :: bool

record Params = BaseParams +
  pTopologies :: "(string, PartitionTopology option) gomap"
  pTopoConfigPath :: string
  pReconfigure :: bool

datatype slurm_error =
    TooManyEntries nat
  | NotPositive nat int
  | ExceedsMaximum nat int
  | NotGreater nat int int
  | NotMultiple nat int int
  | NotPowerOfTwo nat int int
  | Translation terror
  | InSection string slurm_error
  | MissingPartitionName
  | PartitionHasNoNodes string
  | CommandFailed string
  | ScanFailed
  | NotAnInstanceMapper

type_synonym serr = "int \<times> slurm_error"

subsection \<open>Block sizes\<close>

definition maxBlockSizesLen :: nat where
  "maxBlockSizesLen = 20"

definition maxBlockSizeValue :: int where
  "maxBlockSizeValue = 65536"

text \<open>The loop over \<open>blockSizes[i:]\<close> with the previous size.\<close>

fun validateRest :: "nat \<Rightarrow> int \<Rightarrow> int list \<Rightarrow> slurm_error option" where
  "validateRest i prev [] = None"
| "validateRest i prev (cur # rest) =
     (if cur \<le> 0 then Some (NotPositive i cur)
      else if cur > maxBlockSizeValue then Some (ExceedsMaximum i cur)
      else if cur \<le> prev then Some (NotGreater i cur prev)
      else if goMod cur prev \<noteq> 0 then Some (NotMultiple i cur prev)
      else
        (let ratio = goDiv cur prev
         in if ratio AND (ratio - 1) \<noteq> 0 then Some (NotPowerOfTwo i cur prev)
            else validateRest (i + 1) cur rest))"

definition validateBlockSizes :: "int list \<Rightarrow> slurm_error option" where
  "validateBlockSizes blockSizes =
     (case blockSizes of
        [] \<Rightarrow> None
      | prev # rest \<Rightarrow>
          if length blockSizes > maxBlockSizesLen then Some (TooManyEntries (length blockSizes))
          else if prev \<le> 0 then Some (NotPositive 0 prev)
          else if prev > maxBlockSizeValue then Some (ExceedsMaximum 0 prev)
          else validateRest 1 prev rest)"

subsection \<open>Nodes of the cluster and of a partition\<close>

text \<open>\<open>scontrol\<close>: the arguments of the command to its output or an error.\<close>

type_synonym command = "string list \<Rightarrow> string + string"

definition nodeOfLine :: "string \<Rightarrow> string list" where
  "nodeOfLine text =
     (let line = hd (split_on CHR '' '' text)
      in if hasPrefix line ''NodeName='' then [drop 9 line] else [])"

definition GetNodeList :: "command \<Rightarrow> slurm_error + string list" where
  "GetNodeList scontrol =
     (case scontrol [''show'', ''nodes'', ''-o''] of
        Inl err \<Rightarrow> Inl (CommandFailed err)
      | Inr stdout \<Rightarrow>
          (case scanLines stdout of
             None \<Rightarrow> Inl ScanFailed
           | Some ls \<Rightarrow> Inr (concat (map nodeOfLine ls))))"

text \<open>\<open>partitionNodesRe\<close>: the first white space followed by \<open>Nodes=\<close> and a non-empty word.\<close>

fun partitionNodesRe :: "string \<Rightarrow> string option" where
  "partitionNodesRe [] = None"
| "partitionNodesRe (c # cs) =
     (let word = takeWhile (\<lambda>c. \<not> reSpace c) (drop 6 cs)
      in if reSpace c \<and> hasPrefix cs ''Nodes='' \<and> word \<noteq> [] then Some word else partitionNodesRe cs)"

text \<open>\<open>None\<close> is a call of \<open>ExpandList\<close> that does not return.\<close>

definition parsePartitionNodes :: "string \<Rightarrow> string \<Rightarrow> (slurm_error + string list) option" where
  "parsePartitionNodes part data =
     (case partitionNodesRe data of
        Some match \<Rightarrow>
          if match = ''NONE'' then Some (Inr [])
          else map_option (Inr \<circ> Compact) (ExpandList match)
      | None \<Rightarrow> Some (Inl (PartitionHasNoNodes part)))"

definition getPartitionNodes :: "command \<Rightarrow> string \<Rightarrow> slurm_error + string" where
  "getPartitionNodes scontrol part =
     map_sum CommandFailed id (scontrol [''show'', ''partition'', part])"

text \<open>\<open>TopologyNodeFinder\<close>: the function that asks for the nodes of a partition.\<close>

type_synonym nodeFinder = "string \<Rightarrow> slurm_error + string"

definition GetPartitionNodes :: "string \<Rightarrow> nodeFinder \<Rightarrow> (slurm_error + string list) option" where
  "GetPartitionNodes part f =
     (if part = [] then Some (Inl MissingPartitionName)
      else
        (case f part of
           Inl err \<Rightarrow> Some (Inl err)
         | Inr out \<Rightarrow> parsePartitionNodes part out))"

definition ResolveComputeInstances ::
  "(string list \<Rightarrow> slurm_error + ComputeInstances list) option \<Rightarrow> command \<Rightarrow> ComputeInstances list
     \<Rightarrow> serr + ComputeInstances list" where
  "ResolveComputeInstances environment scontrol instances =
     (if instances \<noteq> [] then Inr instances
      else
        (case environment of
           None \<Rightarrow> Inl (StatusBadRequest, NotAnInstanceMapper)
         | Some getNodeInstances \<Rightarrow>
             (case GetNodeList scontrol of
                Inl err \<Rightarrow> Inl (StatusInternalServerError, err)
              | Inr nodes \<Rightarrow>
                  if nodes = [] then Inr []
                  else map_sum (\<lambda>err. (StatusInternalServerError, err)) id (getNodeInstances nodes))))"

subsection \<open>Translation settings\<close>

definition sectionNodes :: "nodeFinder \<Rightarrow> PartitionTopology \<Rightarrow> (slurm_error + string list) option" where
  "sectionNodes f sect =
     (case ptNodes sect of
        Some nodes \<Rightarrow> Some (Inr nodes)
      | None \<Rightarrow>
          if ptDefault sect \<and> ptPlugin sect = TopologyFlat \<and> ptPartition sect = [] then Some (Inr [])
          else GetPartitionNodes (ptPartition sect) f)"

definition sectionSpec ::
  "(string \<Rightarrow> regex option) \<Rightarrow> nodeFinder \<Rightarrow> string \<Rightarrow> PartitionTopology \<Rightarrow> (serr + TopologySpec) option" where
  "sectionSpec compile f topo sect =
     (case validateBlockSizes (ptBlockSizes sect) of
        Some err \<Rightarrow> Some (Inl (StatusBadRequest, InSection topo err))
      | None \<Rightarrow>
          (case ValidateBlockNameConfig compile (ptBlockName sect) of
             Inl err \<Rightarrow> Some (Inl (StatusBadRequest, InSection topo (Translation err)))
           | Inr bn \<Rightarrow>
               (case sectionNodes f sect of
                  None \<Rightarrow> None
                | Some (Inl err) \<Rightarrow> Some (Inl (StatusInternalServerError, err))
                | Some (Inr nodes) \<Rightarrow>
                    Some (Inr \<lparr>sPlugin = ptPlugin sect, sBlockSizes = ptBlockSizes sect, sBlockName = bn,
                               ClusterDefault = ptDefault sect, sNodes = nodes\<rparr>))))"

text \<open>
  The loop over the sections, in the order of the map. A section is a pointer: a nil one is
  dereferenced and panics.
\<close>

fun sectionLoop ::
  "(string \<Rightarrow> regex option) \<Rightarrow> nodeFinder \<Rightarrow> (string, PartitionTopology option) gomap
     \<Rightarrow> (string, TopologySpec) gomap \<Rightarrow> (go_panic + (serr + (string, TopologySpec) gomap)) option" where
  "sectionLoop compile f [] specs = Some (Inr (Inr specs))"
| "sectionLoop compile f ((topo, None) # rest) specs = Some (Inl NilDereference)"
| "sectionLoop compile f ((topo, Some sect) # rest) specs =
     (case sectionSpec compile f topo sect of
        None \<Rightarrow> None
      | Some (Inl err) \<Rightarrow> Some (Inr (Inl err))
      | Some (Inr spec) \<Rightarrow> sectionLoop compile f rest (gm_put topo spec specs))"

definition GetTranslateConfig ::
  "(string \<Rightarrow> regex option) \<Rightarrow> 'a BaseParams_scheme \<Rightarrow> (string, PartitionTopology option) gomap \<Rightarrow> nodeFinder
     \<Rightarrow> (go_panic + (serr + Config)) option" where
  "GetTranslateConfig compile params topologies f =
     (case validateBlockSizes (bpBlockSizes params) of
        Some err \<Rightarrow> Some (Inr (Inl (StatusBadRequest, err)))
      | None \<Rightarrow>
          (case ValidateBlockNameConfig compile (bpBlockName params) of
             Inl err \<Rightarrow> Some (Inr (Inl (StatusBadRequest, Translation err)))
           | Inr bn \<Rightarrow>
               map_option (map_sum id (map_sum id (\<lambda>specs.
                   \<lparr>Plugin = bpPlugin params, BlockSizes = bpBlockSizes params, BlockName = bn, Topologies = specs\<rparr>)))
                 (sectionLoop compile f topologies [])))"

subsection \<open>The output\<close>

definition topologyHeader :: "string \<Rightarrow> string" where
  "topologyHeader plugin =
     [newline] @ replicate 63 CHR ''#'' @ [newline] @
     ''# Slurm's network topology configuration file for use with the'' @ [newline] @
     ''# '' @ plugin @ '' plugin'' @ [newline] @
     replicate 63 CHR ''#'' @ [newline]"

text \<open>What the engine does to the outside: it writes a file and reconfigures Slurm.\<close>

datatype effect = CreateFile string string | Reconfigure

record world =
  wScontrol :: command
  wCreate :: "string \<Rightarrow> string \<Rightarrow> string option"
  wCompile :: "string \<Rightarrow> regex option"
  wMarshal :: "TopologyUnit list \<Rightarrow> string + string"

definition defaultPlugin :: "Params \<Rightarrow> Params" where
  "defaultPlugin params =
     (if bpPlugin params = [] \<and> pTopologies params = [] then params\<lparr>bpPlugin := TopologyTree\<rparr> else params)"

definition reconfigure :: "command \<Rightarrow> string option" where
  "reconfigure scontrol = (case scontrol [''reconfigure''] of Inl err \<Rightarrow> Some err | Inr stdout \<Rightarrow> None)"

text \<open>The end of \<open>GenerateOutputParams\<close>: return the text, or write it and reconfigure.\<close>

definition deliver :: "world \<Rightarrow> Params \<Rightarrow> string \<Rightarrow> effect list \<times> (serr + string)" where
  "deliver w params data =
     (let path = pTopoConfigPath params
      in if path = [] then ([], Inr data)
         else
           (case wCreate w path data of
              Some err \<Rightarrow> ([CreateFile path data], Inl (StatusInternalServerError, CommandFailed err))
            | None \<Rightarrow>
                if pReconfigure params then
                  (case reconfigure (wScontrol w) of
                     Some err \<Rightarrow> ([CreateFile path data, Reconfigure], Inl (StatusInternalServerError, CommandFailed err))
                   | None \<Rightarrow> ([CreateFile path data, Reconfigure], Inr (''OK'' @ [newline])))
                else ([CreateFile path data], Inr (''OK'' @ [newline]))))"

definition GenerateOutputParams ::
  "world \<Rightarrow> heap \<Rightarrow> Graph option \<Rightarrow> Params \<Rightarrow> (go_panic + effect list \<times> (serr + string)) option" where
  "GenerateOutputParams w h graph params0 =
     (let params = defaultPlugin params0
      in case GetTranslateConfig (wCompile w) params (pTopologies params) (getPartitionNodes (wScontrol w)) of
           None \<Rightarrow> None
         | Some (Inl p) \<Rightarrow> Some (Inl p)
         | Some (Inr (Inl err)) \<Rightarrow> Some (Inr ([], Inl err))
         | Some (Inr (Inr cfg)) \<Rightarrow>
             (case NewNetworkTopology (wCompile w) h graph cfg of
                None \<Rightarrow> None
              | Some (Inl err) \<Rightarrow> Some (Inr ([], Inl (StatusBadRequest, Translation err)))
              | Some (Inr nt) \<Rightarrow>
                  (case Generate (wMarshal w) (length h) h nt of
                     None \<Rightarrow> None
                   | Some (Inl p) \<Rightarrow> Some (Inl p)
                   | Some (Inr (nt', Inl (status, err))) \<Rightarrow> Some (Inr ([], Inl (status, Translation err)))
                   | Some (Inr (nt', Inr text)) \<Rightarrow>
                       Some (Inr (deliver w params
                         ((if pTopoConfigPath params \<noteq> [] then topologyHeader (bpPlugin params) else []) @ text))))))"

section \<open>Accepted block sizes\<close>

lemma and_pred_zero: "0 < r \<Longrightarrow> r AND (r - 1) = (0 :: int) \<longleftrightarrow> (\<exists>k. r = 2 ^ k)"
proof (induction "nat r" arbitrary: r rule: less_induct)
  case less
  show ?case
  proof (cases "even r")
    case True
    then obtain m where m: "r = 2 * m" by (elim evenE)
    have "(2 * m - 1) div 2 = m - 1" by presburger
    then have "r AND (r - 1) = 2 * (m AND (m - 1))"
      using m and_int_rec [of r "r - 1"] by simp
    moreover have "m AND (m - 1) = 0 \<longleftrightarrow> (\<exists>k. m = 2 ^ k)" using less m by simp
    moreover have "(\<exists>k. r = 2 ^ k) \<longleftrightarrow> (\<exists>k. m = 2 ^ k)"
    proof
      assume "\<exists>k. r = 2 ^ k"
      then obtain k where k: "r = 2 ^ k" by blast
      then have "k \<noteq> 0" using True by (cases k) auto
      then obtain j where "k = Suc j" by (cases k) auto
      then show "\<exists>k. m = 2 ^ k" using k m by auto
    next
      assume "\<exists>k. m = 2 ^ k"
      then obtain k where "m = 2 ^ k" by blast
      then have "r = 2 ^ Suc k" using m by simp
      then show "\<exists>k. r = 2 ^ k" by blast
    qed
    ultimately show ?thesis by simp
  next
    case False
    then obtain m where m: "r = 2 * m + 1" by (elim oddE)
    then have "r AND (r - 1) = 2 * m" using and_int_rec [of r "r - 1"] by simp
    moreover have "(\<exists>k. r = 2 ^ k) \<longleftrightarrow> m = 0"
    proof
      assume "\<exists>k. r = 2 ^ k"
      then obtain k where "r = 2 ^ k" by blast
      then show "m = 0" using m False by (cases k) auto
    next
      assume "m = 0"
      then have "r = 2 ^ 0" using m by simp
      then show "\<exists>k. r = 2 ^ k" by blast
    qed
    ultimately show ?thesis by simp
  qed
qed

definition doubling :: "int \<Rightarrow> int \<Rightarrow> bool" where
  "doubling prev cur \<longleftrightarrow> (\<exists>k. cur = prev * 2 ^ Suc k)"

lemma ratio_doubling:
  assumes "0 < prev" and "0 < cur"
  shows "prev < cur \<and> cur mod prev = 0 \<and> (cur div prev) AND (cur div prev - 1) = 0 \<longleftrightarrow> doubling prev cur"
proof
  assume a: "prev < cur \<and> cur mod prev = 0 \<and> (cur div prev) AND (cur div prev - 1) = 0"
  then have c: "cur = prev * (cur div prev)" by (metis mult_div_mod_eq add_0_right)
  then have pos: "0 < cur div prev" using assms by (metis zero_less_mult_pos)
  then obtain k where k: "cur div prev = 2 ^ k" using a and_pred_zero by blast
  have "k \<noteq> 0" using a c k by (cases k) auto
  then obtain j where "k = Suc j" by (cases k) auto
  then show "doubling prev cur" using c k unfolding doubling_def by metis
next
  assume "doubling prev cur"
  then obtain k where k: "cur = prev * 2 ^ Suc k" by (auto simp: doubling_def)
  have "(1 :: int) < 2 ^ Suc k" by (rule one_less_power) simp_all
  then have "prev * 1 < prev * 2 ^ Suc k" using assms(1) by (intro mult_strict_left_mono)
  moreover have "cur div prev = 2 ^ Suc k" using k assms(1) by simp
  moreover have "(2 ^ Suc k :: int) AND (2 ^ Suc k - 1) = 0" 
    by (subst and_pred_zero) (auto intro: exI [of _ "Suc k"])
  ultimately show "prev < cur \<and> cur mod prev = 0 \<and> (cur div prev) AND (cur div prev - 1) = 0"
    using k by simp
qed

lemma validateRest_iff:
  "0 < prev \<Longrightarrow> validateRest i prev bs = None \<longleftrightarrow>
     (\<forall>b \<in> set bs. 0 < b \<and> b \<le> maxBlockSizeValue) \<and> successively doubling (prev # bs)"
proof (induction bs arbitrary: i prev)
  case (Cons cur bs)
  show ?case
  proof (cases "0 < cur \<and> cur \<le> maxBlockSizeValue")
    case True
    then show ?thesis
      using Cons.IH [of cur "i + 1"] ratio_doubling [OF Cons.prems, of cur] Cons.prems
      by (auto simp: Let_def)
  qed auto
qed simp

text \<open>
  C11. \<open>validateBlockSizes\<close> accepts exactly the lists Slurm can use: at most 20 entries, each between
  1 and 65536, and each a power-of-two multiple (at least double) of the one before it.
\<close>

theorem validateBlockSizes_exact:
  "validateBlockSizes bs = None \<longleftrightarrow>
     length bs \<le> 20 \<and> (\<forall>b \<in> set bs. 0 < b \<and> b \<le> 65536) \<and>
     successively (\<lambda>prev cur. \<exists>k. cur = prev * 2 ^ Suc k) bs"
proof (cases bs)
  case Nil
  then show ?thesis by (simp add: validateBlockSizes_def)
next
  case (Cons prev rest)
  then show ?thesis
    using validateRest_iff [of prev 1 rest]
    by (auto simp: validateBlockSizes_def maxBlockSizesLen_def maxBlockSizeValue_def doubling_def [abs_def])
qed

theorem validateBlockSizes_exact_witness:
  "validateBlockSizes [4, 8, 32] = None \<and> validateBlockSizes [4, 12] \<noteq> None \<and>
   (\<exists>k. (32 :: int) = 8 * 2 ^ Suc k) \<and> \<not> (\<exists>k. (12 :: int) = 4 * 2 ^ Suc k)"
proof -
  have "validateBlockSizes [4, 8, 32] = None" "validateBlockSizes [4, 12] = Some (NotPowerOfTwo 1 12 4)" by code_simp+
  then show ?thesis
    using validateBlockSizes_exact [of "[4, 8, 32]"] validateBlockSizes_exact [of "[4, 12]"] by simp
qed

section \<open>The engine never panics\<close>

text \<open>
  The two ways in which the translation could crash on an accepted request are a division by zero
  while the block tree is built and the use of a regular expression that was never compiled; the
  latter is the error value \<open>NilRegexp\<close>, possibly below the name of a topology.
\<close>

fun nilPanic :: "terror \<Rightarrow> bool" where
  "nilPanic NilRegexp = True"
| "nilPanic (InTopology n e) = nilPanic e"
| "nilPanic e = False"

definition compiledOk :: "BlockNameConfig option \<Rightarrow> bool" where
  "compiledOk bn \<longleftrightarrow> (\<forall>c. bn = Some c \<longrightarrow> compiledRegexp c \<noteq> None)"

definition specOk :: "TopologySpec \<Rightarrow> bool" where
  "specOk spec \<longleftrightarrow> sizesOk (sBlockSizes spec) \<and> compiledOk (sBlockName spec)"

definition cfgOk :: "Config \<Rightarrow> bool" where
  "cfgOk cfg \<longleftrightarrow> sizesOk (BlockSizes cfg) \<and> compiledOk (BlockName cfg) \<and>
     (\<forall>spec \<in> set (gm_vals (Topologies cfg)). specOk spec)"

lemma ValidateBlockNameConfig_no_nil: "ValidateBlockNameConfig compile c = Inl e \<Longrightarrow> \<not> nilPanic e"
  by (auto simp: ValidateBlockNameConfig_def split: option.splits if_splits)

lemma ValidateBlockNameConfig_compiled: "ValidateBlockNameConfig compile c = Inr c' \<Longrightarrow> compiledOk c'"
  by (auto simp: ValidateBlockNameConfig_def compiledOk_def split: option.splits if_splits)

lemma formatLoop_no_nil: "fRe f \<noteq> None \<Longrightarrow> formatLoop f d b ns \<noteq> Inl NilRegexp"
  by (induction f d b ns rule: formatLoop.induct) (auto split: option.splits)

lemma formatBlockName_no_nil:
  "compiledOk c \<Longrightarrow> formatBlockName (compileBlockNameFormatter c) d ns \<noteq> Inl NilRegexp"
  using formatLoop_no_nil
  by (auto simp: formatBlockName_def compileBlockNameFormatter_def compiledOk_def split: option.splits)

lemma nameLoop_no_nil:
  assumes "\<And>d ns. formatBlockName f d ns \<noteq> Inl NilRegexp"
  shows "nameLoop f bs nb = Inl e \<Longrightarrow> \<not> nilPanic e"
  by (induction bs arbitrary: nb) (use assms in \<open>auto split: sum.splits option.splits if_splits\<close>)

lemma formatBlockNames_no_nil:
  "compiledOk c \<Longrightarrow> formatBlockNames bs (compileBlockNameFormatter c) = Inl e \<Longrightarrow> \<not> nilPanic e"
  using nameLoop_no_nil [OF formatBlockName_no_nil] by (auto simp: formatBlockNames_def split: sum.splits)

lemma getBlockSizes_no_nil: "getBlockSizes bs req = Inl e \<Longrightarrow> \<not> nilPanic e"
  by (auto simp: getBlockSizes_def findMinDomainSize_def split: if_splits list.splits)

lemma complementBlocks_total:
  assumes "sizesOk bs"
  shows "\<exists>out eff. complementBlocks nt blocks bs = Inr (out, eff)"
proof -
  have "\<exists>t. buildBlockTree (domainsForBlocks all blocks) sizes = Inr t" if "sizesOk sizes" "sizes \<noteq> []" for all sizes
    using buildBlockTree_ok [OF domainsForBlocks_ok that(2), of all blocks] that by (metis sizesOk_def)
  note tree = this
  show ?thesis
  proof (cases "ntDomains nt")
    case (Some all)
    let ?sizes = "if bs = [] then InferTwoLevelBlockSizes (domainsForBlocks all blocks) else bs"
    have "sizesOk ?sizes" using assms Infer_pos by simp
    then have "?sizes \<noteq> [] \<Longrightarrow> \<exists>t. buildBlockTree (domainsForBlocks all blocks) ?sizes = Inr t" by (rule tree)
    then show ?thesis using Some by (auto simp: complementBlocks_def Let_def split: option.splits)
  qed (simp add: complementBlocks_def)
qed

lemma toBlockTopology_total:
  assumes "sizesOk (BlockSizes (ntConfig nt))" and "compiledOk (BlockName (ntConfig nt))"
  shows "\<exists>nt' res. toBlockTopology nt sk = Inr (nt', res) \<and> (\<forall>st e. res = Inl (st, e) \<longrightarrow> \<not> nilPanic e)"
proof -
  obtain out eff where "complementBlocks nt (ntBlocks nt) (BlockSizes (ntConfig nt)) = Inr (out, eff)"
    using complementBlocks_total [OF assms(1)] by blast
  then show ?thesis
    using formatBlockNames_no_nil [OF assms(2), of out] getBlockSizes_no_nil
    by (auto simp: toBlockTopology_def Let_def split: sum.splits)
qed

lemma getBlockTopologyUnit_total:
  assumes "specOk spec"
  shows "\<exists>res. getBlockTopologyUnit nt name spec = Inr res \<and> (\<forall>e. res = Inl e \<longrightarrow> \<not> nilPanic e)"
proof (cases "ExpandWithLimit (sNodes spec)")
  case (Inr names)
  let ?m = "foldl (partitionBlock nt) [] names"
  obtain out eff where "complementBlocks nt (sort_key biIndx (gm_vals ?m)) (sBlockSizes spec) = Inr (out, eff)"
    using complementBlocks_total [of "sBlockSizes spec"] assms unfolding specOk_def by blast
  then show ?thesis
    using formatBlockNames_no_nil [of "sBlockName spec"] getBlockSizes_no_nil assms Inr
    by (auto simp: getBlockTopologyUnit_def specOk_def Let_def split: sum.splits)
qed (simp add: getBlockTopologyUnit_def)

lemma getTreeTopologyUnit_no_nil:
  "getTreeTopologyUnit fuel h nt name spec = Some (Inr (Inl e)) \<Longrightarrow> \<not> nilPanic e"
  by (auto simp: getTreeTopologyUnit_def Let_def split: sum.splits option.splits if_splits)

lemma topologyUnit_total:
  assumes "built h r nt T" and "specOk spec"
  shows "\<exists>res. topologyUnit (length h) h nt name spec = Some (Inr res) \<and> (\<forall>e. res = Inl e \<longrightarrow> \<not> nilPanic e)"
proof -
  obtain res where t: "getTreeTopologyUnit (length h) h nt name spec = Some (Inr res)"
    using getTreeTopologyUnit_total [OF assms(1)] by blast
  obtain res' where b: "getBlockTopologyUnit nt name spec = Inr res'" "\<forall>e. res' = Inl e \<longrightarrow> \<not> nilPanic e"
    using getBlockTopologyUnit_total [OF assms(2)] by blast
  show ?thesis using t b getTreeTopologyUnit_no_nil [of "length h" h nt name spec]
    by (cases res; cases res') (simp_all add: topologyUnit_def)
qed

lemma topologiesLoop_total:
  assumes "built h r nt T" and "\<forall>spec \<in> set (gm_vals (Topologies (ntConfig nt))). specOk spec"
  shows "set ns \<subseteq> set (gm_keys (Topologies (ntConfig nt))) \<Longrightarrow>
    \<exists>us err. topologiesLoop (length h) h nt ns acc = Some (Inr (us, err)) \<and>
      (\<forall>st e. err = Some (st, e) \<longrightarrow> \<not> nilPanic e)"
proof (induction ns arbitrary: acc)
  case (Cons n ns)
  then obtain spec where spec: "gm_get (Topologies (ntConfig nt)) n = Some spec"
    using gm_key_get [of n "Topologies (ntConfig nt)"] by auto
  then have "specOk spec" using assms(2) by (force dest: map_of_SomeD)
  then obtain res where "topologyUnit (length h) h nt n spec = Some (Inr res)" "\<forall>e. res = Inl e \<longrightarrow> \<not> nilPanic e"
    using topologyUnit_total [OF assms(1)] by blast
  then show ?case using Cons spec by (cases res) simp_all
qed simp

lemma treeLoop_no_nil: "treeLoop h nt sk visited q out = Inl (st, e) \<Longrightarrow> \<not> nilPanic e"
  by (induction h nt sk visited q out rule: treeLoop.induct) (auto split: if_splits option.splits)

lemma Generate_total:
  assumes "built h r nt T" and "cfgOk (ntConfig nt)"
  shows "\<exists>nt' res. Generate marshal (length h) h nt = Some (Inr (nt', res)) \<and> (\<forall>st e. res = Inl (st, e) \<longrightarrow> \<not> nilPanic e)"
proof -
  obtain us err where g: "GetTopologies (length h) h nt = Some (Inr (us, err))"
    "\<forall>st e. err = Some (st, e) \<longrightarrow> \<not> nilPanic e"
    using topologiesLoop_total [OF assms(1), of "sorted_keys (Topologies (ntConfig nt))" "[]"] assms(2)
    by (auto simp: GetTopologies_def cfgOk_def)
  obtain nt' res where b: "toBlockTopology nt False = Inr (nt', res)" "\<forall>st e. res = Inl (st, e) \<longrightarrow> \<not> nilPanic e"
    using toBlockTopology_total assms(2) unfolding cfgOk_def by blast
  show ?thesis
    using g b treeLoop_no_nil [of h nt False "[]" "[[]]" "[]"]
    by (cases err) (auto simp: Generate_def GenerateTopologyConfig_def toYamlTopology_def toTreeTopology_def split: sum.splits)
qed

lemma validateSpecs_ok:
  "validateSpecs compile graph specs = Inr specs' \<Longrightarrow> \<forall>spec \<in> set (gm_vals specs). sizesOk (sBlockSizes spec) \<Longrightarrow>
     \<forall>spec \<in> set (gm_vals specs'). specOk spec"
proof (induction specs arbitrary: specs')
  case (Cons x specs)
  obtain topo spec where x: "x = (topo, spec)" by (cases x)
  from Cons.prems(1) obtain spec' rest' where 1: "validateSpec compile graph spec = Inr spec'"
    "validateSpecs compile graph specs = Inr rest'" "specs' = (topo, spec') # rest'"
    by (auto simp: x split: sum.splits)
  from 1(1) obtain bn where "ValidateBlockNameConfig compile (sBlockName spec) = Inr bn" "spec' = spec\<lparr>sBlockName := bn\<rparr>"
    by (auto simp: validateSpec_def split: if_splits sum.splits option.splits)
  then have "specOk spec'" using ValidateBlockNameConfig_compiled Cons.prems(2) by (simp add: specOk_def x)
  then show ?case using Cons.IH [OF 1(2)] Cons.prems(2) 1(3) by (simp add: x)
qed simp

lemma Validate_ok:
  assumes "Validate compile graph cfg = Inr cfg'" and "sizesOk (BlockSizes cfg)"
    and "\<forall>spec \<in> set (gm_vals (Topologies cfg)). sizesOk (sBlockSizes spec)"
  shows "cfgOk cfg'"
  using assms ValidateBlockNameConfig_compiled validateSpecs_ok
  by (fastforce simp: Validate_def cfgOk_def split: if_splits sum.splits option.splits)

lemma NewNetworkTopology_cfgOk:
  assumes "NewNetworkTopology compile h graph cfg = Some (Inr nt)" and "sizesOk (BlockSizes cfg) \<and>
    (\<forall>spec \<in> set (gm_vals (Topologies cfg)). sizesOk (sBlockSizes spec))"
  shows "cfgOk (ntConfig nt)"
proof -
  from assms(1) obtain cfg' nt1 where 1: "Validate compile graph cfg = Inr cfg'"
    "initTree h graph (newTopology cfg') = Inr nt1" "initBlocks (length h) h graph nt1 = Some nt"
    by (auto simp: NewNetworkTopology_def split: sum.splits)
  have "ntConfig nt1 = cfg'" using 1(2)
    by (auto simp: initTree_def newTopology_def split: option.splits sum.splits)
  then show ?thesis using Validate_ok [OF 1(1)] assms(2) initBlocks_maps [OF 1(3)] by simp
qed

lemma validateBlockSizes_sizesOk:
  assumes "validateBlockSizes bs = None"
  shows "sizesOk bs"
proof (cases bs)
  case (Cons prev rest)
  then have "\<forall>b \<in> set bs. 0 < b" using assms validateRest_iff [of prev 1 rest]
    by (auto simp: validateBlockSizes_def split: if_splits)
  then show ?thesis using Cons by (auto simp: sizesOk_def)
qed (simp add: sizesOk_def)

lemma sectionLoop_sizes:
  "sectionLoop compile f sects specs = Some (Inr (Inr specs')) \<Longrightarrow>
     \<forall>spec \<in> set (gm_vals specs). sizesOk (sBlockSizes spec) \<Longrightarrow>
     \<forall>spec \<in> set (gm_vals specs'). sizesOk (sBlockSizes spec)"
proof (induction compile f sects specs rule: sectionLoop.induct)
  case (3 compile f topo sect rest specs)
  from "3.prems"(1) obtain spec where spec: "sectionSpec compile f topo sect = Some (Inr spec)"
    "sectionLoop compile f rest (gm_put topo spec specs) = Some (Inr (Inr specs'))"
    by (auto split: option.splits sum.splits)
  then have "sizesOk (sBlockSizes spec)"
    using validateBlockSizes_sizesOk by (auto simp: sectionSpec_def split: option.splits sum.splits)
  moreover have "set (gm_vals (gm_put topo spec specs)) \<subseteq> insert spec (set (gm_vals specs))"
    using set_gm_put_subset [of topo spec specs] by force
  ultimately show ?case using "3.IH" [OF spec(1) refl spec(2)] "3.prems"(2) by blast
qed simp_all

lemma sectionLoop_no_panic:
  "None \<notin> set (gm_vals sects) \<Longrightarrow> sectionLoop compile f sects specs \<noteq> Some (Inl p)"
  by (induction compile f sects specs rule: sectionLoop.induct) (auto split: option.splits sum.splits)

lemma GetTranslateConfig_no_panic:
  "None \<notin> set (gm_vals topologies) \<Longrightarrow> GetTranslateConfig compile params topologies f \<noteq> Some (Inl p)"
  using sectionLoop_no_panic [of topologies compile f "[]"]
  by (auto simp: GetTranslateConfig_def map_sum_eqs split: option.splits sum.splits)

lemma GetTranslateConfig_nil_section:
  "validateBlockSizes (bpBlockSizes params) = None \<Longrightarrow> bpBlockName params = None \<Longrightarrow>
     GetTranslateConfig compile params [(topo, None)] f = Some (Inl NilDereference)"
  by (simp add: GetTranslateConfig_def ValidateBlockNameConfig_def)

lemma GetTranslateConfig_sizes:
  assumes "GetTranslateConfig compile params topologies f = Some (Inr (Inr cfg))"
  shows "sizesOk (BlockSizes cfg) \<and> (\<forall>spec \<in> set (gm_vals (Topologies cfg)). sizesOk (sBlockSizes spec))"
proof -
  from assms obtain bn specs where "validateBlockSizes (bpBlockSizes params) = None"
    and loop: "sectionLoop compile f topologies [] = Some (Inr (Inr specs))"
    and "cfg = \<lparr>Plugin = bpPlugin params, BlockSizes = bpBlockSizes params, BlockName = bn, Topologies = specs\<rparr>"
    by (auto simp: GetTranslateConfig_def map_sum_eqs split: option.splits sum.splits)
  then show ?thesis using sectionLoop_sizes [OF loop] validateBlockSizes_sizesOk by simp
qed

lemma checkGraph_no_nil: "checkGraph p graph b = Some e \<Longrightarrow> \<not> nilPanic e"
  by (auto simp: checkGraph_def split: if_splits option.splits)

lemma validateSpecs_no_nil: "validateSpecs compile graph specs = Inl e \<Longrightarrow> \<not> nilPanic e"
proof (induction compile graph specs rule: validateSpecs.induct)
  case (2 compile graph topo spec rest)
  have "\<not> nilPanic err" if "validateSpec compile graph spec = Inl err" for err
    using that checkGraph_no_nil ValidateBlockNameConfig_no_nil
    by (auto simp: validateSpec_def split: if_splits sum.splits option.splits)
  then show ?case using 2 by (auto split: sum.splits)
qed simp

lemma Validate_no_nil: "Validate compile graph cfg = Inl e \<Longrightarrow> \<not> nilPanic e"
  using checkGraph_no_nil ValidateBlockNameConfig_no_nil validateSpecs_no_nil
  by (auto simp: Validate_def split: if_splits sum.splits option.splits)

lemma visitChildren_no_nil: "visitChildren h a xs ts = Inl e \<Longrightarrow> \<not> nilPanic e"
  by (induction xs arbitrary: ts)
    (auto simp: visitChild_def Let_def split: sum.splits prod.splits option.splits if_splits)

lemma initLoop_no_nil: "initLoop h ts = Inl e \<Longrightarrow> \<not> nilPanic e"
proof (induction h ts rule: initLoop.induct)
  case (1 h ts)
  then show ?case
    using visitChildren_no_nil by (subst (asm) (2) initLoop.simps) (auto split: list.splits sum.splits)
qed

lemma validateBlockSizes_no_translation: "validateBlockSizes bs \<noteq> Some (Translation e)"
proof -
  have "validateRest i prev rest \<noteq> Some (Translation e)" for i prev rest
    by (induction i prev rest rule: validateRest.induct) (auto simp: Let_def)
  then show ?thesis by (simp add: validateBlockSizes_def split: list.splits)
qed

lemma GetTranslateConfig_no_nil:
  assumes "GetTranslateConfig compile params topologies (getPartitionNodes scontrol) = Some (Inr (Inl (st, Translation e)))"
  shows "\<not> nilPanic e"
proof -
  have "sectionLoop compile (getPartitionNodes scontrol) sects specs = Some (Inr (Inl (st, Translation e))) \<Longrightarrow> False" for sects specs
  proof (induction compile "getPartitionNodes scontrol" sects specs rule: sectionLoop.induct)
    case (3 compile topo sect rest specs)
    have "sectionSpec compile (getPartitionNodes scontrol) topo sect \<noteq> Some (Inl (st, Translation e))"
      by (auto simp: sectionSpec_def sectionNodes_def GetPartitionNodes_def parsePartitionNodes_def getPartitionNodes_def
        map_sum_eqs split: option.splits sum.splits if_splits)
    then show ?case using 3 by (auto split: option.splits sum.splits)
  qed simp_all
  then show ?thesis
    using assms ValidateBlockNameConfig_no_nil validateBlockSizes_no_translation
    by (auto simp: GetTranslateConfig_def map_sum_eqs split: option.splits sum.splits)
qed

text \<open>
  The only step of a request that may not return: the expansion of the node list that \<open>scontrol\<close> prints for
  the partition of a section, when a range of it ends at the largest \<open>int\<close>.
\<close>

definition endlessSection :: "command \<Rightarrow> PartitionTopology \<Rightarrow> bool" where
  "endlessSection scontrol sect \<longleftrightarrow> ptNodes sect = None \<and>
     (case scontrol [''show'', ''partition'', ptPartition sect] of
        Inl _ \<Rightarrow> False
      | Inr out \<Rightarrow>
          (case partitionNodesRe out of None \<Rightarrow> False | Some match \<Rightarrow> list_ex endlessEntry (splitList match)))"

lemma sectionNodes_endless: "sectionNodes (getPartitionNodes scontrol) sect = None \<Longrightarrow> endlessSection scontrol sect"
  by (auto simp: sectionNodes_def GetPartitionNodes_def parsePartitionNodes_def getPartitionNodes_def endlessSection_def
    ExpandList_def Expand_eq split: option.splits if_splits sum.splits)

lemma sectionLoop_endless:
  "sectionLoop compile (getPartitionNodes scontrol) sects specs = None \<Longrightarrow>
     \<exists>sect. Some sect \<in> set (gm_vals sects) \<and> endlessSection scontrol sect"
proof (induction compile "getPartitionNodes scontrol" sects specs rule: sectionLoop.induct)
  case (3 compile topo sect rest specs)
  show ?case
  proof (cases "sectionSpec compile (getPartitionNodes scontrol) topo sect")
    case None
    then have "sectionNodes (getPartitionNodes scontrol) sect = None" by (auto simp: sectionSpec_def split: option.splits sum.splits)
    then show ?thesis using sectionNodes_endless by auto
  next
    case (Some r)
    then show ?thesis using 3 by (cases r) auto
  qed
qed simp_all

lemma GetTranslateConfig_endless:
  "GetTranslateConfig compile params topologies (getPartitionNodes scontrol) = None \<Longrightarrow>
     \<exists>sect. Some sect \<in> set (gm_vals topologies) \<and> endlessSection scontrol sect"
  using sectionLoop_endless by (auto simp: GetTranslateConfig_def simp del: set_map split: option.splits sum.splits)

lemma GenerateOutputParams_answers:
  assumes "Tiers g = Some r" and "r < length h" and "idAt h r = []" and "keysOk h" and "heapWf h"
    and c: "GetTranslateConfig (wCompile w) (defaultPlugin params) (pTopologies (defaultPlugin params))
      (getPartitionNodes (wScontrol w)) = Some (Inr c)"
  shows "\<exists>eff res. GenerateOutputParams w h (Some g) params = Some (Inr (eff, res)) \<and>
    (\<forall>st e. res = Inl (st, Translation e) \<longrightarrow> \<not> nilPanic e)"
proof (cases c)
  case (Inl err)
  then have "\<not> nilPanic e" if "err = (st, Translation e)" for st e
    using GetTranslateConfig_no_nil c that by blast
  then show ?thesis using c Inl by (auto simp: GenerateOutputParams_def Let_def)
next
  case (Inr cfg)
  have "rootIn h (Some g)" using assms(1,2) by (simp add: rootIn_def)
  then obtain n where n: "NewNetworkTopology (wCompile w) h (Some g) cfg = Some n"
    using NewNetworkTopology_total [OF assms(5)] by blast
  show ?thesis
  proof (cases n)
    case (Inl err)
    then have "\<not> nilPanic err" using n Validate_no_nil initLoop_no_nil assms(1)
      by (auto simp: NewNetworkTopology_def initTree_def newTopology_def split: sum.splits)
    then show ?thesis using c n Inr Inl by (simp add: GenerateOutputParams_def Let_def)
  next
    case nt: (Inr nt)
    obtain T where B: "built h r nt T" using NewNetworkTopology_built [OF _ assms(1-4)] n nt by metis
    have "cfgOk (ntConfig nt)"
      using n nt NewNetworkTopology_cfgOk GetTranslateConfig_sizes c Inr by blast
    then obtain nt' res where "Generate (wMarshal w) (length h) h nt = Some (Inr (nt', res))"
      "\<forall>st e. res = Inl (st, e) \<longrightarrow> \<not> nilPanic e" using Generate_total [OF B] by blast
    then show ?thesis using c n Inr nt
      by (cases res) (auto simp: GenerateOutputParams_def deliver_def Let_def split: option.splits)
  qed
qed


definition demoWorld :: world where
  "demoWorld = \<lparr>wScontrol = (\<lambda>_. Inr []), wCreate = (\<lambda>_ _. None), wCompile = (\<lambda>_. None), wMarshal = (\<lambda>_. Inr [])\<rparr>"

definition demoParams :: Params where
  "demoParams = \<lparr>bpPlugin = [], bpBlockSizes = [2, 4], bpBlockName = None, pTopologies = [],
     pTopoConfigPath = ''/etc/slurm/topology.conf'', pReconfigure = True\<rparr>"


end
