(* ===== verification/Lru.thy ===== *)
theory Lru
  imports Prelude
begin

text \<open>
  Component \<open>pkg/server/lru.go\<close>: the cache of the most recent results. The list of \<open>container/list\<close>
  is a list of elements, front first; an element is identified by a handle (its address), and the
  map from keys to elements stores handles.

  The interface \<open>lru_cache\<close> states what a client may rely on: the abstract content is an
  association list, most recently used first, and every operation is a function of that list. The
  interpretation at the end shows that the linked structure implements it.
\<close>

section \<open>Model\<close>

record ('k, 'v) lruCache =
  capacity :: int
  entries :: "('k, nat) gomap"
  items :: "(nat \<times> 'k \<times> 'v) list"
  fresh :: nat

definition newLRUCache :: "int \<Rightarrow> go_panic + ('k, 'v) lruCache" where
  "newLRUCache cap =
     (if cap \<le> 0 then Inl (ExplicitPanic ''lru cache capacity must be positive'')
      else Inr \<lparr>capacity = cap, entries = [], items = [], fresh = 0\<rparr>)"

definition MoveToFront :: "nat \<Rightarrow> (nat \<times> 'k \<times> 'v) list \<Rightarrow> (nat \<times> 'k \<times> 'v) list" where
  "MoveToFront item xs = filter (\<lambda>x. fst x = item) xs @ filter (\<lambda>x. fst x \<noteq> item) xs"

definition setValue :: "nat \<Rightarrow> 'v \<Rightarrow> (nat \<times> 'k \<times> 'v) list \<Rightarrow> (nat \<times> 'k \<times> 'v) list" where
  "setValue item v xs = map (\<lambda>(i, k, w). (i, k, if i = item then v else w)) xs"

definition removeOldest :: "('k, 'v) lruCache \<Rightarrow> ('k, 'v) lruCache" where
  "removeOldest c =
     (if items c = [] then c
      else case last (items c) of (item, key, v) \<Rightarrow>
        c\<lparr>items := butlast (items c), entries := gm_del key (entries c)\<rparr>)"

definition Add :: "'k \<Rightarrow> 'v \<Rightarrow> ('k, 'v) lruCache \<Rightarrow> ('k, 'v) lruCache \<times> bool" where
  "Add key v c =
     (case gm_get (entries c) key of
        Some item \<Rightarrow> (c\<lparr>items := MoveToFront item (setValue item v (items c))\<rparr>, False)
      | None \<Rightarrow>
          (let c1 = c\<lparr>items := (fresh c, key, v) # items c, entries := gm_put key (fresh c) (entries c),
                      fresh := fresh c + 1\<rparr>
           in if int (length (items c1)) \<le> capacity c1 then (c1, False)
              else (removeOldest c1, True)))"

definition Get :: "'k \<Rightarrow> ('k, 'v) lruCache \<Rightarrow> 'v option \<times> ('k, 'v) lruCache" where
  "Get key c =
     (case gm_get (entries c) key of
        None \<Rightarrow> (None, c)
      | Some item \<Rightarrow>
          (let c1 = c\<lparr>items := MoveToFront item (items c)\<rparr>
           in (Some (snd (snd (hd (items c1)))), c1)))"

section \<open>The abstract cache\<close>

definition touch :: "'k \<Rightarrow> 'v \<Rightarrow> ('k \<times> 'v) list \<Rightarrow> ('k \<times> 'v) list" where
  "touch k v xs = (k, v) # filter (\<lambda>x. fst x \<noteq> k) xs"

locale lru_cache =
  fixes empty :: "'c"
    and add :: "'k \<Rightarrow> 'v \<Rightarrow> 'c \<Rightarrow> 'c \<times> bool"
    and get :: "'k \<Rightarrow> 'c \<Rightarrow> 'v option \<times> 'c"
    and invar :: "'c \<Rightarrow> bool"
    and alist :: "'c \<Rightarrow> ('k \<times> 'v) list"
    and cap :: nat
  assumes invar_empty: "invar empty"
    and alist_empty: "alist empty = []"
    and invar_add: "invar c \<Longrightarrow> invar (fst (add k v c))"
    and alist_add: "invar c \<Longrightarrow> alist (fst (add k v c)) = take cap (touch k v (alist c))"
    and evicts: "invar c \<Longrightarrow> snd (add k v c) \<longleftrightarrow> cap < length (touch k v (alist c))"
    and invar_get: "invar c \<Longrightarrow> invar (snd (get k c))"
    and get_value: "invar c \<Longrightarrow> fst (get k c) = map_of (alist c) k"
    and alist_get: "invar c \<Longrightarrow> alist (snd (get k c)) =
      (case map_of (alist c) k of None \<Rightarrow> alist c | Some v \<Rightarrow> touch k v (alist c))"
    and distinct_alist: "invar c \<Longrightarrow> distinct (map fst (alist c))"
    and bounded: "invar c \<Longrightarrow> length (alist c) \<le> cap"
    and cap_pos: "0 < cap"
begin

lemma map_of_touch: "map_of (touch k v xs) k' = (if k' = k then Some v else map_of xs k')"
proof (induction xs)
  case (Cons x xs)
  then show ?case by (cases x) (auto simp: touch_def)
qed (simp add: touch_def)

lemma map_of_take: "distinct (map fst xs) \<Longrightarrow> map_of (take n xs) k = Some v \<Longrightarrow> map_of xs k = Some v"
  using in_set_takeD [of "(k, v)" n xs] by (auto dest!: map_of_SomeD)

lemma distinct_touch: "distinct (map fst xs) \<Longrightarrow> distinct (map fst (touch k v xs))"
  by (auto simp: touch_def distinct_map_filter)

lemma get_add_same: "invar c \<Longrightarrow> map_of (alist (fst (add k v c))) k = Some v"
  using cap_pos by (cases cap) (simp_all add: alist_add touch_def)

lemma get_add_other:
  assumes "invar c" and "k' \<noteq> k" and "map_of (alist (fst (add k v c))) k' = Some w"
  shows "map_of (alist c) k' = Some w"
  using assms(2,3) map_of_take [OF distinct_touch [OF distinct_alist [OF assms(1)]], of cap k v k' w]
  by (simp add: alist_add [OF assms(1)] map_of_touch)

lemma get_keeps: "invar c \<Longrightarrow> map_of (alist (snd (get k c))) k' = map_of (alist c) k'"
  by (simp add: alist_get map_of_touch split: option.splits)

lemma add_bounded: "invar c \<Longrightarrow> length (alist (fst (add k v c))) \<le> cap"
  using bounded invar_add by blast

end

section \<open>The linked structure implements the abstract cache\<close>

definition linked :: "('k, 'v) lruCache \<Rightarrow> bool" where
  "linked c \<longleftrightarrow> gm_wf (entries c) \<and> distinct (map fst (items c)) \<and> distinct (map (fst \<circ> snd) (items c)) \<and>
     (\<forall>k i. gm_get (entries c) k = Some i \<longleftrightarrow> (\<exists>v. (i, k, v) \<in> set (items c))) \<and>
     (\<forall>x \<in> set (items c). fst x < fresh c)"

definition lruOk :: "('k, 'v) lruCache \<Rightarrow> bool" where
  "lruOk c \<longleftrightarrow> linked c \<and> int (length (items c)) \<le> capacity c \<and> 0 < capacity c"

definition content :: "('k, 'v) lruCache \<Rightarrow> ('k \<times> 'v) list" where
  "content c = map snd (items c)"

lemma lruOk_distinct: "lruOk c \<Longrightarrow> distinct (map fst (content c))"
  by (simp add: lruOk_def linked_def content_def comp_def)

lemma lruOk_keys:
  assumes "lruOk c"
  shows "gm_get (entries c) k = None \<longleftrightarrow> k \<notin> set (map fst (content c))"
proof -
  have "k \<in> set (map fst (content c)) \<longleftrightarrow> (\<exists>i v. (i, k, v) \<in> set (items c))" by (force simp: content_def)
  also have "\<dots> \<longleftrightarrow> (\<exists>i. gm_get (entries c) k = Some i)" using assms by (simp add: lruOk_def linked_def)
  finally show ?thesis by auto
qed

lemma filter_unique:
  "distinct (map f xs) \<Longrightarrow> x \<in> set xs \<Longrightarrow> filter (\<lambda>y. f y = f x) xs = [x]"
proof (induction xs)
  case (Cons a xs)
  show ?case
  proof (cases "x = a")
    case True
    have "filter (\<lambda>y. f y = f a) xs = []" using Cons.prems(1) by (auto simp: filter_empty_conv image_iff)
    then show ?thesis using True by simp
  next
    case False
    then have "f a \<noteq> f x" using Cons.prems by (auto simp: image_iff)
    then show ?thesis using False Cons by simp
  qed
qed simp

lemma items_unique:
  assumes "lruOk c" and "(i, k, v) \<in> set (items c)" and "x \<in> set (items c)"
  shows "(fst x = i \<longleftrightarrow> x = (i, k, v)) \<and> (fst (snd x) = k \<longleftrightarrow> x = (i, k, v))"
proof -
  have "inj_on fst (set (items c))" and "inj_on (fst \<circ> snd) (set (items c))"
    using assms(1) by (simp_all add: lruOk_def linked_def distinct_map)
  then show ?thesis
    using inj_onD [of fst "set (items c)" x "(i, k, v)"] inj_onD [of "fst \<circ> snd" "set (items c)" x "(i, k, v)"] assms(2,3)
    by auto
qed

lemma content_MoveToFront:
  assumes "lruOk c" and "(i, k, v) \<in> set (items c)"
  shows "MoveToFront i (items c) = (i, k, v) # filter (\<lambda>x. fst (snd x) \<noteq> k) (items c)"
proof -
  have "filter (\<lambda>x. fst x = i) (items c) = [(i, k, v)]"
    using filter_unique [of fst "items c" "(i, k, v)"] assms by (simp add: lruOk_def linked_def)
  moreover have "filter (\<lambda>x. fst x \<noteq> i) (items c) = filter (\<lambda>x. fst (snd x) \<noteq> k) (items c)"
    using items_unique [OF assms] by (intro filter_cong) auto
  ultimately show ?thesis by (simp add: MoveToFront_def)
qed

lemma lruOk_find:
  assumes "lruOk c" and "gm_get (entries c) k = Some i"
  obtains v where "(i, k, v) \<in> set (items c)" and "map_of (content c) k = Some v"
proof -
  obtain v where v: "(i, k, v) \<in> set (items c)" using assms unfolding lruOk_def linked_def by blast
  then have "(k, v) \<in> set (content c)" by (force simp: content_def)
  then show thesis using that v lruOk_distinct [OF assms(1)] by (simp add: map_of_eq_Some_iff)
qed

lemma lruOk_move:
  assumes "lruOk c" and "(i, k, v) \<in> set (items c)"
  shows "lruOk (c\<lparr>items := MoveToFront i (items c)\<rparr>)"
proof -
  have m: "mset (MoveToFront i (items c)) = mset (items c)"
    by (simp add: MoveToFront_def multiset_eq_iff)
  then have s: "set (MoveToFront i (items c)) = set (items c)" by (rule mset_eq_setD)
  have l: "length (MoveToFront i (items c)) = length (items c)" using m by (rule mset_eq_length)
  have "distinct (map fst (MoveToFront i (items c)))" "distinct (map (fst \<circ> snd) (MoveToFront i (items c)))"
    using assms(1) mset_eq_imp_distinct_iff [of "map fst (MoveToFront i (items c))" "map fst (items c)"]
      mset_eq_imp_distinct_iff [of "map (fst \<circ> snd) (MoveToFront i (items c))" "map (fst \<circ> snd) (items c)"]
    unfolding mset_map m by (simp_all add: lruOk_def linked_def)
  then show ?thesis using assms(1) s l by (simp add: lruOk_def linked_def)
qed

lemma lruOk_setValue:
  assumes "lruOk c"
  shows "lruOk (c\<lparr>items := setValue i w (items c)\<rparr>)"
proof -
  have "map fst (setValue i w (items c)) = map fst (items c)"
    "map (fst \<circ> snd) (setValue i w (items c)) = map (fst \<circ> snd) (items c)"
    by (auto simp: setValue_def)
  moreover have "(\<exists>v. (j, k, v) \<in> set (setValue i w (items c))) \<longleftrightarrow> (\<exists>v. (j, k, v) \<in> set (items c))" for j k
    by (force simp: setValue_def)
  moreover have "\<forall>x \<in> set (setValue i w (items c)). \<exists>y \<in> set (items c). fst x = fst y"
    by (force simp: setValue_def)
  moreover have "length (setValue i w (items c)) = length (items c)" by (simp add: setValue_def)
  ultimately show ?thesis using assms unfolding lruOk_def linked_def by fastforce
qed

lemma content_setValue:
  assumes "lruOk c" and "(i, k, v) \<in> set (items c)"
  shows "filter (\<lambda>x. fst x \<noteq> k) (map snd (setValue i w (items c))) = filter (\<lambda>x. fst x \<noteq> k) (content c)"
proof -
  have "filter (\<lambda>x. fst x \<noteq> k) (map snd (setValue i w xs)) = filter (\<lambda>x. fst x \<noteq> k) (map snd xs)"
    if "\<forall>x \<in> set xs. fst x = i \<longrightarrow> fst (snd x) = k" for xs
    using that by (induction xs) (auto simp: setValue_def)
  moreover have "\<forall>x \<in> set (items c). fst x = i \<longrightarrow> fst (snd x) = k"
    using items_unique [OF assms] by auto
  ultimately show ?thesis by (simp add: content_def)
qed

lemma Get_refines:
  assumes "lruOk c"
  shows "lruOk (snd (Get k c)) \<and> capacity (snd (Get k c)) = capacity c \<and>
    fst (Get k c) = map_of (content c) k \<and>
    content (snd (Get k c)) = (case map_of (content c) k of None \<Rightarrow> content c | Some v \<Rightarrow> touch k v (content c))"
proof (cases "gm_get (entries c) k")
  case None
  then have "map_of (content c) k = None" using lruOk_keys [OF assms] by (simp add: map_of_eq_None_iff)
  then show ?thesis using None assms by (simp add: Get_def)
next
  case (Some i)
  then obtain v where v: "(i, k, v) \<in> set (items c)" "map_of (content c) k = Some v" by (rule lruOk_find [OF assms])
  then show ?thesis
    using Some lruOk_move [OF assms v(1)]
    by (simp add: Get_def content_def touch_def content_MoveToFront [OF assms v(1)] filter_map comp_def)
qed

lemma Add_present:
  assumes "lruOk c" and "gm_get (entries c) k = Some i"
  shows "lruOk (fst (Add k w c)) \<and> capacity (fst (Add k w c)) = capacity c \<and> \<not> snd (Add k w c) \<and>
    content (fst (Add k w c)) = touch k w (content c) \<and> length (touch k w (content c)) = length (content c)"
proof -
  obtain v where v: "(i, k, v) \<in> set (items c)" by (rule lruOk_find [OF assms])
  let ?c = "c\<lparr>items := setValue i w (items c)\<rparr>"
  have ok: "lruOk ?c" by (rule lruOk_setValue [OF assms(1)])
  have mem: "(i, k, w) \<in> set (items ?c)" using v by (force simp: setValue_def)
  note front = content_MoveToFront [OF ok mem]
  have "length (MoveToFront i (items ?c)) = length (items c)"
    using sum_length_filter_compl [of "\<lambda>x. fst x = i" "items ?c"] by (simp add: MoveToFront_def setValue_def)
  moreover have "map snd (MoveToFront i (items ?c)) = touch k w (content c)"
    using front content_setValue [OF assms(1) v, of w] by (simp add: touch_def filter_map comp_def)
  ultimately have len: "length (touch k w (content c)) = length (content c)"
    by (metis content_def length_map)
  show ?thesis
    using assms(2) lruOk_move [OF ok mem] front content_setValue [OF assms(1) v, of w] len
    by (simp add: Add_def content_def touch_def filter_map comp_def)
qed

lemma linked_push:
  assumes "linked c" and "gm_get (entries c) k = None"
  shows "linked (c\<lparr>items := (fresh c, k, w) # items c, entries := gm_put k (fresh c) (entries c), fresh := fresh c + 1\<rparr>)"
proof -
  have "\<nexists>i v. (i, k, v) \<in> set (items c)" using assms unfolding linked_def by (metis option.distinct(1))
  moreover have "fresh c \<notin> fst ` set (items c)" using assms(1) unfolding linked_def by fastforce
  ultimately show ?thesis using assms unfolding linked_def
    by (auto simp: gm_wf_put less_Suc_eq image_iff)
qed

lemma linked_removeOldest:
  assumes "linked c" and "items c = xs @ [(i, k, v)]"
  shows "linked (removeOldest c) \<and> items (removeOldest c) = xs \<and> capacity (removeOldest c) = capacity c"
proof -
  have "removeOldest c = c\<lparr>items := xs, entries := gm_del k (entries c)\<rparr>" using assms(2) by (simp add: removeOldest_def)
  moreover have "\<nexists>j w. (j, k, w) \<in> set xs" using assms unfolding linked_def by force
  ultimately show ?thesis using assms unfolding linked_def by (auto intro: gm.wf_del)
qed

lemma Add_absent:
  assumes "lruOk c" and "gm_get (entries c) k = None"
  shows "lruOk (fst (Add k w c)) \<and> capacity (fst (Add k w c)) = capacity c \<and>
    (snd (Add k w c) \<longleftrightarrow> capacity c < int (length (content c)) + 1) \<and>
    content (fst (Add k w c)) = take (nat (capacity c)) (touch k w (content c)) \<and>
    touch k w (content c) = (k, w) # content c"
proof -
  let ?c = "c\<lparr>items := (fresh c, k, w) # items c, entries := gm_put k (fresh c) (entries c), fresh := fresh c + 1\<rparr>"
  have ok: "linked ?c" using linked_push [of c k w] assms by (simp add: lruOk_def)
  have t: "touch k w (content c) = (k, w) # content c"
    using lruOk_keys [OF assms(1), of k] assms(2) by (auto simp: touch_def filter_id_conv)
  have len: "length (content c) = length (items c)" by (simp add: content_def)
  show ?thesis
  proof (cases "int (length (items c)) + 1 \<le> capacity c")
    case True
    then show ?thesis using ok assms t len by (simp add: Add_def Let_def lruOk_def content_def)
  next
    case False
    then have full: "nat (capacity c) = length (items c)" "items c \<noteq> []" using assms(1) unfolding lruOk_def by (linarith, fastforce)
    then obtain xs x where x: "items c = xs @ [x]" by (cases "items c" rule: rev_cases) auto
    have "items ?c = ((fresh c, k, w) # xs) @ [x]" using x by simp
    then have "linked (removeOldest ?c) \<and> items (removeOldest ?c) = (fresh c, k, w) # xs \<and> capacity (removeOldest ?c) = capacity c"
      using linked_removeOldest [OF ok] by (cases x) simp
    then show ?thesis using False full assms t len x by (simp add: Add_def Let_def lruOk_def content_def)
  qed
qed

interpretation lru: lru_cache "\<lparr>capacity = int (Suc n), entries = [], items = [], fresh = 0\<rparr>" Add Get
  "\<lambda>c. lruOk c \<and> capacity c = int (Suc n)" content "Suc n" for n
proof (unfold_locales, goal_cases)
  case 1
  then show ?case by (simp add: lruOk_def linked_def)
next
  case 2
  then show ?case by (simp add: content_def)
next
  case (3 c k v)
  then show ?case using Add_present [of c k _ v] Add_absent [of c k v] by (cases "gm_get (entries c) k") auto
next
  case (4 c k v)
  show ?case
  proof (cases "gm_get (entries c) k")
    case None
    then show ?thesis using Add_absent 4 by (metis nat_int)
  next
    case (Some i)
    then have "length (touch k v (content c)) \<le> Suc n" using Add_present [of c k i v] 4 by (simp add: lruOk_def content_def)
    then show ?thesis using Some Add_present [of c k i v] 4 by simp
  qed
next
  case (5 c k v)
  show ?case
  proof (cases "gm_get (entries c) k")
    case None
    then show ?thesis using Add_absent [of c k v] 5 by auto
  next
    case (Some i)
    then show ?thesis using Add_present [of c k i v] 5 by (simp add: lruOk_def content_def)
  qed
next
  case (6 c k)
  then show ?case using Get_refines [of c k] by simp
next
  case (7 c k)
  then show ?case using Get_refines [of c k] by simp
next
  case (8 c k)
  then show ?case using Get_refines [of c k] by simp
next
  case (9 c)
  then show ?case using lruOk_distinct [of c] by simp
next
  case (10 c)
  then show ?case by (simp add: lruOk_def content_def)
next
  case 11
  then show ?case by simp
qed

section \<open>Sequences of operations\<close>

datatype ('k, 'v) lruOp = OpAdd 'k 'v | OpGet 'k

text \<open>What a call returns: \<open>Add\<close> whether an entry was evicted, \<open>Get\<close> the value if there is one.\<close>

datatype 'v lruAnswer = Evicted bool | Found "'v option"

fun lruExec :: "('k, 'v) lruOp \<Rightarrow> ('k, 'v) lruCache \<Rightarrow> 'v lruAnswer \<times> ('k, 'v) lruCache" where
  "lruExec (OpAdd k v) c = (case Add k v c of (c', b) \<Rightarrow> (Evicted b, c'))"
| "lruExec (OpGet k) c = (case Get k c of (r, c') \<Rightarrow> (Found r, c'))"

fun lruRun :: "('k, 'v) lruOp list \<Rightarrow> ('k, 'v) lruCache \<Rightarrow> 'v lruAnswer list \<times> ('k, 'v) lruCache" where
  "lruRun [] c = ([], c)"
| "lruRun (op # ops) c = (case lruExec op c of (r, c') \<Rightarrow> (case lruRun ops c' of (rs, c'') \<Rightarrow> (r # rs, c'')))"

text \<open>The same on the list: a key that is used moves to the front, and the list is cut at the capacity.\<close>

fun specExec :: "nat \<Rightarrow> ('k, 'v) lruOp \<Rightarrow> ('k \<times> 'v) list \<Rightarrow> 'v lruAnswer \<times> ('k \<times> 'v) list" where
  "specExec cap (OpAdd k v) xs = (Evicted (cap < length (touch k v xs)), take cap (touch k v xs))"
| "specExec cap (OpGet k) xs = (Found (map_of xs k), case map_of xs k of None \<Rightarrow> xs | Some v \<Rightarrow> touch k v xs)"

fun specRun :: "nat \<Rightarrow> ('k, 'v) lruOp list \<Rightarrow> ('k \<times> 'v) list \<Rightarrow> 'v lruAnswer list \<times> ('k \<times> 'v) list" where
  "specRun cap [] xs = ([], xs)"
| "specRun cap (op # ops) xs = (case specExec cap op xs of (r, xs') \<Rightarrow> (case specRun cap ops xs' of (rs, xs'') \<Rightarrow> (r # rs, xs'')))"

lemma lruExec_refines:
  assumes "lruOk c" and "capacity c = int (Suc n)" and "lruExec op c = (r, c')"
  shows "lruOk c' \<and> capacity c' = int (Suc n) \<and> specExec (Suc n) op (content c) = (r, content c')"
proof (cases op)
  case (OpAdd k v)
  then show ?thesis
    using assms lru.invar_add [of c n k v] lru.alist_add [of c n k v] lru.evicts [of c n k v]
    by (cases "Add k v c") (simp del: of_nat_Suc)
next
  case (OpGet k)
  then show ?thesis
    using assms lru.invar_get [of c n k] lru.alist_get [of c n k] lru.get_value [of c n k]
    by (cases "Get k c") (simp del: of_nat_Suc)
qed

lemma lruRun_refines:
  "lruOk c \<Longrightarrow> capacity c = int (Suc n) \<Longrightarrow> lruRun ops c = (rs, c') \<Longrightarrow>
     lruOk c' \<and> capacity c' = int (Suc n) \<and> specRun (Suc n) ops (content c) = (rs, content c')"
proof (induction ops arbitrary: c rs)
  case (Cons op ops)
  obtain r c1 where 1: "lruExec op c = (r, c1)" by (cases "lruExec op c")
  obtain rs1 where 2: "lruRun ops c1 = (rs1, c')" "rs = r # rs1"
    using Cons.prems(3) 1 by (cases "lruRun ops c1") auto
  have "lruOk c1 \<and> capacity c1 = int (Suc n) \<and> specExec (Suc n) op (content c) = (r, content c1)"
    by (rule lruExec_refines [OF Cons.prems(1,2) 1])
  then show ?case using Cons.IH [OF _ _ 2(1)] 2(2) by auto
qed simp

text \<open>
  C15. The cache is a most-recently-used list: for any sequence of additions and lookups on a new
  cache, every answer (the value a lookup finds, whether an addition evicts) and the final content are what the
  same operations give on an association list that moves the used key to the front and cuts the list
  at the capacity; the map and the linked list never disagree.
\<close>

theorem lru_refines:
  assumes "newLRUCache cap = Inr c" and "lruRun ops c = (answers, c')"
  shows "specRun (nat cap) ops [] = (answers, content c') \<and> length (content c') \<le> nat cap"
proof -
  from assms(1) have "0 < cap" and c: "c = \<lparr>capacity = cap, entries = [], items = [], fresh = 0\<rparr>"
    by (auto simp: newLRUCache_def split: if_splits)
  then obtain n where n: "cap = int (Suc n)" by (metis gr0_conv_Suc zero_less_imp_eq_int)
  have "lruOk c" and "capacity c = int (Suc n)" and e: "content c = []"
    unfolding c by (auto simp: lruOk_def linked_def content_def n)
  from lruRun_refines [OF this(1,2) assms(2)] show ?thesis
    using e lru.bounded [of c' n] n by (simp del: of_nat_Suc)
qed

theorem lru_refines_witness:
  "\<exists>c'. lruRun [OpAdd ''a'' 1, OpAdd ''b'' 2, OpGet ''a'', OpAdd ''c'' (3 :: nat), OpGet ''b'']
     \<lparr>capacity = 2, entries = [], items = [], fresh = 0\<rparr> =
       ([Evicted False, Evicted False, Found (Some 1), Evicted True, Found None], c') \<and> content c' = [(''c'', 3), (''a'', 1)]"
proof -
  let ?ops = "[OpAdd ''a'' 1, OpAdd ''b'' 2, OpGet ''a'', OpAdd ''c'' (3 :: nat), OpGet ''b'']"
  let ?c = "\<lparr>capacity = 2, entries = [], items = [], fresh = 0\<rparr>"
  have new: "newLRUCache 2 = Inr ?c" by (simp add: newLRUCache_def)
  obtain rs c' where run: "lruRun ?ops ?c = (rs, c')" by (metis surj_pair)
  from lru_refines [OF new run]
  have "rs = [Evicted False, Evicted False, Found (Some 1), Evicted True, Found None]" "content c' = [(''c'', 3), (''a'', 1)]"
    by (simp_all add: touch_def eval_nat_numeral)
  then show ?thesis using run by blast
qed

end
