(* ===== verification/Queue.thy ===== *)
theory Queue
  imports Lru
begin

text \<open>
  Component \<open>pkg/server/trailing_delay_queue.go\<close>: the queue that delays requests, merges repeated
  ones and keeps the results.

  The queue runs in several goroutines: the callers of \<open>Submit\<close> and \<open>Get\<close>, one goroutine per fired
  timer, and the one waiting for the shutdown. The mutex makes each of their critical sections
  atomic, so the queue is a state machine whose steps are those sections: \<open>Submit\<close>, \<open>Get\<close>, the
  start of a timer function, its completion after the handler returned, the close of the shutdown
  channel and the stop of all timers. Completions and timers are shared objects; they live in two
  stores and are referred to by index.

  The handler is outside: a completion step takes an arbitrary result.
\<close>

section \<open>Model\<close>

definition RequestHistorySize :: int where
  "RequestHistorySize = 100"

record 'r Completion =
  Ret :: "'r option"
  Status :: int
  Message :: string

text \<open>
  A timer is waiting, its function is running, it was stopped, or its function has finished. The
  result of a finished one is history: the code does not keep it in the timer.
\<close>

datatype 'r timerState = Pending | Running | Stopped | Finished "httperr + 'r"

record ('i, 'r) timer =
  tHash :: string
  tItem :: 'i
  tEntry :: nat
  tState :: "'r timerState"

record ('i, 'r) queue =
  qEntries :: "'r Completion list"
  qAlloc :: "('i, 'r) timer list"
  qTimers :: "(string, nat) gomap"
  qStore :: "(string, nat) lruCache"
  qShutdown :: bool

definition NewTrailingDelayQueue :: "go_panic + ('i, 'r) queue" where
  "NewTrailingDelayQueue =
     map_sum id (\<lambda>store. \<lparr>qEntries = [], qAlloc = [], qTimers = [], qStore = store, qShutdown = False\<rparr>)
       (newLRUCache RequestHistorySize)"

definition accepted :: "string \<Rightarrow> 'r Completion" where
  "accepted hash = \<lparr>Ret = None, Status = StatusAccepted, Message = ''request ID '' @ hash @ '' has been created''\<rparr>"

definition setTimer :: "nat \<Rightarrow> 'r timerState \<Rightarrow> ('i, 'r) timer list \<Rightarrow> ('i, 'r) timer list" where
  "setTimer t st ts = ts[t := (ts ! t)\<lparr>tState := st\<rparr>]"

text \<open>\<open>timer.Stop()\<close> has no effect on a timer that has fired already.\<close>

definition stopTimer :: "nat \<Rightarrow> ('i, 'r) timer list \<Rightarrow> ('i, 'r) timer list" where
  "stopTimer t ts = (if tState (ts ! t) = Pending then setTimer t Stopped ts else ts)"

definition Submit ::
  "('i \<Rightarrow> string + string) \<Rightarrow> 'i \<Rightarrow> ('i, 'r) queue \<Rightarrow> ('i, 'r) queue \<times> (string + string)" where
  "Submit hashOf item q =
     (case hashOf item of
        Inl err \<Rightarrow> (q, Inl (''failed to hash request: '' @ err))
      | Inr hash \<Rightarrow>
          (let stopped = (case gm_get (qTimers q) hash of
                            Some t \<Rightarrow> stopTimer t (qAlloc q)
                          | None \<Rightarrow> qAlloc q);
               entry = length (qEntries q);
               t = length (qAlloc q)
           in (q\<lparr>qEntries := qEntries q @ [accepted hash],
                 qAlloc := stopped @ [\<lparr>tHash = hash, tItem = item, tEntry = entry, tState = Pending\<rparr>],
                 qTimers := gm_put hash t (qTimers q),
                 qStore := fst (Add hash entry (qStore q))\<rparr>, Inr hash)))"

text \<open>The timer fires: the function starts and calls the handler without the mutex.\<close>

definition fire :: "nat \<Rightarrow> ('i, 'r) queue \<Rightarrow> ('i, 'r) queue" where
  "fire t q = q\<lparr>qAlloc := setTimer t Running (qAlloc q)\<rparr>"

definition record_result :: "httperr + 'r \<Rightarrow> 'r Completion \<Rightarrow> 'r Completion" where
  "record_result res entry =
     (case res of
        Inl err \<Rightarrow> entry\<lparr>Status := code err, Message := msg err\<rparr>
      | Inr data \<Rightarrow> entry\<lparr>Ret := Some data, Status := StatusOK\<rparr>)"

text \<open>The second critical section of the timer function, after the handler returned \<open>res\<close>.\<close>

definition finish :: "nat \<Rightarrow> httperr + 'r \<Rightarrow> ('i, 'r) queue \<Rightarrow> ('i, 'r) queue" where
  "finish t res q =
     (let tm = qAlloc q ! t; hash = tHash tm; entry = tEntry tm;
          (curr, store1) = Get hash (qStore q);
          q1 = (if curr = Some entry
                then q\<lparr>qEntries := (qEntries q)[entry := record_result res (qEntries q ! entry)],
                       qStore := fst (Add hash entry store1)\<rparr>
                else q\<lparr>qStore := store1\<rparr>)
      in q1\<lparr>qTimers := (if gm_get (qTimers q1) hash = Some t then gm_del hash (qTimers q1) else qTimers q1),
            qAlloc := setTimer t (Finished res) (qAlloc q1)\<rparr>)"

definition GetResult :: "string \<Rightarrow> ('i, 'r) queue \<Rightarrow> 'r Completion \<times> ('i, 'r) queue" where
  "GetResult hash q =
     (let (res, store) = Get hash (qStore q); q1 = q\<lparr>qStore := store\<rparr>
      in case res of
           Some entry \<Rightarrow> (qEntries q1 ! entry, q1)
         | None \<Rightarrow> (\<lparr>Ret = None, Status = StatusNotFound, Message = ''request ID '' @ hash @ '' not found''\<rparr>, q1))"

definition Shutdown :: "('i, 'r) queue \<Rightarrow> ('i, 'r) queue" where
  "Shutdown q = q\<lparr>qShutdown := True\<rparr>"

text \<open>The goroutine \<open>run\<close> after the shutdown: it stops every registered timer.\<close>

definition stopAll :: "('i, 'r) queue \<Rightarrow> ('i, 'r) queue" where
  "stopAll q = q\<lparr>qAlloc := foldl (\<lambda>ts t. stopTimer t ts) (qAlloc q) (gm_vals (qTimers q))\<rparr>"

inductive qstep :: "('i \<Rightarrow> string + string) \<Rightarrow> ('i, 'r) queue \<Rightarrow> ('i, 'r) queue \<Rightarrow> bool" for hashOf where
  submit: "qstep hashOf q (fst (Submit hashOf item q))"
| fire: "t < length (qAlloc q) \<Longrightarrow> tState (qAlloc q ! t) = Pending \<Longrightarrow> qstep hashOf q (fire t q)"
| finish: "t < length (qAlloc q) \<Longrightarrow> tState (qAlloc q ! t) = Running \<Longrightarrow> qstep hashOf q (finish t res q)"
| get: "qstep hashOf q (snd (GetResult hash q))"
| close: "\<not> qShutdown q \<Longrightarrow> qstep hashOf q (Shutdown q)"
| stop: "qShutdown q \<Longrightarrow> qstep hashOf q (stopAll q)"

inductive reachable :: "('i \<Rightarrow> string + string) \<Rightarrow> ('i, 'r) queue \<Rightarrow> bool" for hashOf where
  init: "NewTrailingDelayQueue = Inr q \<Longrightarrow> reachable hashOf q"
| step: "reachable hashOf q \<Longrightarrow> qstep hashOf q q' \<Longrightarrow> reachable hashOf q'"

section \<open>Invariant\<close>

text \<open>\<open>t\<close> is the last request submitted under the ID \<open>hash\<close>.\<close>

definition latest :: "('i, 'r) timer list \<Rightarrow> string \<Rightarrow> nat \<Rightarrow> bool" where
  "latest ts hash t \<longleftrightarrow> t < length ts \<and> tHash (ts ! t) = hash \<and>
     (\<forall>t' < length ts. tHash (ts ! t') = hash \<longrightarrow> t' \<le> t)"

text \<open>What a caller should be told about a request.\<close>

definition outcome :: "('i, 'r) timer \<Rightarrow> 'r Completion" where
  "outcome tm =
     (case tState tm of
        Finished res \<Rightarrow> record_result res (accepted (tHash tm))
      | _ \<Rightarrow> accepted (tHash tm))"

abbreviation stored :: "('i, 'r) queue \<Rightarrow> string \<Rightarrow> nat option" where
  "stored q \<equiv> map_of (content (qStore q))"

definition storeOk :: "(string, nat) lruCache \<Rightarrow> bool" where
  "storeOk c \<longleftrightarrow> lruOk c \<and> capacity c = int (Suc 99)"

definition queueOk :: "('i, 'r) queue \<Rightarrow> bool" where
  "queueOk q \<longleftrightarrow>
     storeOk (qStore q) \<and> length (qEntries q) = length (qAlloc q) \<and>
     (\<forall>t < length (qAlloc q). tEntry (qAlloc q ! t) = t) \<and>
     (\<forall>hash e. stored q hash = Some e \<longrightarrow> latest (qAlloc q) hash e \<and> qEntries q ! e = outcome (qAlloc q ! e)) \<and>
     (\<forall>hash t. gm_get (qTimers q) hash = Some t \<longrightarrow> latest (qAlloc q) hash t) \<and>
     (\<forall>t < length (qAlloc q). tState (qAlloc q ! t) = Pending \<longrightarrow> gm_get (qTimers q) (tHash (qAlloc q ! t)) = Some t)"

subsection \<open>The result store\<close>

lemma storeOk_Add: "storeOk c \<Longrightarrow> storeOk (fst (Add k v c))"
  unfolding storeOk_def by (rule lru.invar_add)

lemma storeOk_Get: "storeOk c \<Longrightarrow> storeOk (snd (Get k c))"
  unfolding storeOk_def by (rule lru.invar_get)

lemma Get_result: "storeOk c \<Longrightarrow> fst (Get k c) = map_of (content c) k"
  unfolding storeOk_def by (rule lru.get_value)

lemma Get_keeps: "storeOk c \<Longrightarrow> map_of (content (snd (Get k c))) = map_of (content c)"
  unfolding storeOk_def by (rule ext) (rule lru.get_keeps)

lemma Add_stored: "storeOk c \<Longrightarrow> map_of (content (fst (Add k v c))) k = Some v"
  unfolding storeOk_def by (rule lru.get_add_same)

lemma Add_others: "storeOk c \<Longrightarrow> k' \<noteq> k \<Longrightarrow> map_of (content (fst (Add k v c))) k' = Some w \<Longrightarrow> map_of (content c) k' = Some w"
  unfolding storeOk_def by (rule lru.get_add_other)

subsection \<open>Timers\<close>

lemma length_setTimer [simp]: "length (setTimer t st ts) = length ts"
  by (simp add: setTimer_def)

lemma nth_setTimer [simp]:
  "t' < length ts \<Longrightarrow> setTimer t st ts ! t' = (if t' = t then (ts ! t)\<lparr>tState := st\<rparr> else ts ! t')"
  by (simp add: setTimer_def nth_list_update)

lemma latest_setTimer [simp]: "latest (setTimer t st ts) = latest ts"
  by (auto simp: latest_def fun_eq_iff)

lemma latest_unique: "latest ts hash t \<Longrightarrow> latest ts hash t' \<Longrightarrow> t = t'"
  by (rule le_antisym) (simp_all add: latest_def)

text \<open>Stopping timers changes nothing a caller can see.\<close>

definition stoppedFrom :: "('i, 'r) timer list \<Rightarrow> ('i, 'r) timer list \<Rightarrow> bool" where
  "stoppedFrom ts ts' \<longleftrightarrow> length ts' = length ts \<and>
     (\<forall>t < length ts. ts' ! t = ts ! t \<or> tState (ts ! t) = Pending \<and> ts' ! t = (ts ! t)\<lparr>tState := Stopped\<rparr>)"

lemma stoppedFrom_refl [simp]: "stoppedFrom ts ts"
  by (simp add: stoppedFrom_def)

lemma stoppedFrom_trans: "stoppedFrom ts ts' \<Longrightarrow> stoppedFrom ts' ts'' \<Longrightarrow> stoppedFrom ts ts''"
  unfolding stoppedFrom_def by (metis timer.select_convs(4) timer.surjective timer.update_convs(4) timerState.distinct(3))

lemma stoppedFrom_stopTimer: "stoppedFrom ts (stopTimer t ts)"
  by (auto simp: stoppedFrom_def stopTimer_def)

lemma stoppedFrom_foldl: "stoppedFrom ts (foldl (\<lambda>ts t. stopTimer t ts) ts xs)"
  by (induction xs arbitrary: ts) (auto intro: stoppedFrom_trans stoppedFrom_stopTimer)

lemma stoppedFrom_nth:
  assumes "stoppedFrom ts ts'" and "t < length ts"
  shows "tHash (ts' ! t) = tHash (ts ! t)" and "tEntry (ts' ! t) = tEntry (ts ! t)"
    and "outcome (ts' ! t) = outcome (ts ! t)" and "tState (ts' ! t) = Pending \<Longrightarrow> tState (ts ! t) = Pending"
proof -
  have "ts' ! t = ts ! t \<or> tState (ts ! t) = Pending \<and> ts' ! t = (ts ! t)\<lparr>tState := Stopped\<rparr>"
    using assms by (simp add: stoppedFrom_def)
  then show "tHash (ts' ! t) = tHash (ts ! t)" and "tEntry (ts' ! t) = tEntry (ts ! t)"
    and "outcome (ts' ! t) = outcome (ts ! t)" and "tState (ts' ! t) = Pending \<Longrightarrow> tState (ts ! t) = Pending"
    by (elim disjE conjE; simp add: outcome_def)+
qed

lemma stoppedFrom_latest:
  assumes "stoppedFrom ts ts'"
  shows "latest ts' hash t \<longleftrightarrow> latest ts hash t"
proof -
  have "length ts' = length ts" using assms by (simp add: stoppedFrom_def)
  then show ?thesis using stoppedFrom_nth(1) [OF assms] by (auto simp: latest_def)
qed

lemma stored_valid:
  "queueOk q \<Longrightarrow> stored q hash = Some e \<Longrightarrow>
     e < length (qAlloc q) \<and> latest (qAlloc q) hash e \<and> qEntries q ! e = outcome (qAlloc q ! e)"
  by (auto simp: queueOk_def latest_def)

text \<open>A change of timer states that no stored request can notice keeps the invariant.\<close>

lemma queueOk_timers:
  assumes "queueOk q" and "length ts = length (qAlloc q)" and "latest ts = latest (qAlloc q)"
    and "\<And>t. t < length ts \<Longrightarrow> tHash (ts ! t) = tHash (qAlloc q ! t) \<and> tEntry (ts ! t) = tEntry (qAlloc q ! t) \<and>
      outcome (ts ! t) = outcome (qAlloc q ! t) \<and> (tState (ts ! t) = Pending \<longrightarrow> tState (qAlloc q ! t) = Pending)"
  shows "queueOk (q\<lparr>qAlloc := ts\<rparr>)"
proof -
  have "latest ts hash e \<and> qEntries q ! e = outcome (ts ! e)" if "stored q hash = Some e" for hash e
    using stored_valid [OF assms(1) that] assms(2-4) by simp
  then show ?thesis using assms unfolding queueOk_def by simp
qed

lemma queueOk_stop:
  assumes "queueOk q" and "stoppedFrom (qAlloc q) ts"
  shows "queueOk (q\<lparr>qAlloc := ts\<rparr>)"
proof (rule queueOk_timers [OF assms(1)])
  show l: "length ts = length (qAlloc q)" using assms(2) by (simp add: stoppedFrom_def)
  show "latest ts = latest (qAlloc q)" using stoppedFrom_latest [OF assms(2)] by (simp add: fun_eq_iff)
  show "tHash (ts ! t) = tHash (qAlloc q ! t) \<and> tEntry (ts ! t) = tEntry (qAlloc q ! t) \<and>
      outcome (ts ! t) = outcome (qAlloc q ! t) \<and> (tState (ts ! t) = Pending \<longrightarrow> tState (qAlloc q ! t) = Pending)"
    if "t < length ts" for t
    using stoppedFrom_nth [OF assms(2)] that l by auto
qed

subsection \<open>Every step keeps the invariant\<close>

lemma latest_snoc:
  "latest (ts @ [tm]) hash t \<longleftrightarrow> (if tHash tm = hash then t = length ts else latest ts hash t)"
  by (auto simp: latest_def nth_append less_Suc_eq)

lemma queueOk_push:
  assumes "queueOk q" and "\<forall>t < length (qAlloc q). tHash (qAlloc q ! t) = hash \<longrightarrow> tState (qAlloc q ! t) \<noteq> Pending"
  shows "queueOk (q\<lparr>qEntries := qEntries q @ [accepted hash],
    qAlloc := qAlloc q @ [\<lparr>tHash = hash, tItem = item, tEntry = length (qEntries q), tState = Pending\<rparr>],
    qTimers := gm_put hash (length (qAlloc q)) (qTimers q),
    qStore := fst (Add hash (length (qEntries q)) (qStore q))\<rparr>)" (is "queueOk ?q")
proof -
  let ?n = "length (qAlloc q)"
  have ok: "storeOk (qStore q)" and n: "length (qEntries q) = ?n"
    and st: "\<And>h e. stored q h = Some e \<Longrightarrow> latest (qAlloc q) h e \<and> qEntries q ! e = outcome (qAlloc q ! e)"
    using assms(1) by (simp_all add: queueOk_def)
  have "latest (qAlloc ?q) h e \<and> qEntries ?q ! e = outcome (qAlloc ?q ! e)" if "stored ?q h = Some e" for h e
  proof (cases "h = hash")
    case True
    then have "e = ?n" using that Add_stored [OF ok] n by simp
    then show ?thesis using True n by (simp add: latest_snoc nth_append outcome_def)
  next
    case False
    then have "stored q h = Some e" using that Add_others [OF ok False] by simp
    then have "latest (qAlloc q) h e \<and> qEntries q ! e = outcome (qAlloc q ! e)" by (rule st)
    then show ?thesis using False n by (auto simp: latest_snoc nth_append latest_def)
  qed
  then show ?thesis
    using assms storeOk_Add [OF ok] n unfolding queueOk_def
    by (auto simp: latest_snoc nth_append less_Suc_eq)
qed

lemma queueOk_Submit:
  assumes "queueOk q"
  shows "queueOk (fst (Submit hashOf item q))"
proof (cases "hashOf item")
  case (Inr hash)
  define ts where "ts = (case gm_get (qTimers q) hash of Some t \<Rightarrow> stopTimer t (qAlloc q) | None \<Rightarrow> qAlloc q)"
  have fr: "stoppedFrom (qAlloc q) ts" by (simp add: ts_def stoppedFrom_stopTimer split: option.splits)
  have "tState (ts ! t) \<noteq> Pending" if "t < length ts" "tHash (ts ! t) = hash" for t
  proof
    assume p: "tState (ts ! t) = Pending"
    have t: "t < length (qAlloc q)" using that(1) fr by (simp add: stoppedFrom_def)
    have "tState (qAlloc q ! t) = Pending" "tHash (qAlloc q ! t) = hash"
      using stoppedFrom_nth [OF fr t] p that(2) by simp_all
    then have "gm_get (qTimers q) hash = Some t" using assms t by (auto simp: queueOk_def)
    then show False using p t by (auto simp: ts_def stopTimer_def split: if_splits)
  qed
  then have "queueOk (fst (Submit hashOf item q))"
    using queueOk_push [OF queueOk_stop [OF assms fr], of hash item] Inr fr
    by (simp add: Submit_def Let_def ts_def [symmetric] stoppedFrom_def)
  then show ?thesis .
qed (simp add: Submit_def assms)

lemma queueOk_fire:
  assumes "queueOk q" and "t < length (qAlloc q)" and "tState (qAlloc q ! t) = Pending"
  shows "queueOk (fire t q)"
  unfolding fire_def by (rule queueOk_timers [OF assms(1)]) (use assms(2,3) in \<open>auto simp: outcome_def\<close>)

lemma queueOk_GetResult:
  assumes "queueOk q"
  shows "queueOk (snd (GetResult hash q))"
  using assms storeOk_Get [of "qStore q" hash] Get_keeps [of "qStore q" hash]
  by (auto simp: queueOk_def GetResult_def Let_def split: prod.splits option.splits)

lemma queueOk_finish:
  assumes "queueOk q" and t: "t < length (qAlloc q)" and run: "tState (qAlloc q ! t) = Running"
  shows "queueOk (finish t res q)"
proof -
  let ?hash = "tHash (qAlloc q ! t)"
  have e: "tEntry (qAlloc q ! t) = t" using assms(1) t by (simp add: queueOk_def)
  have ok: "storeOk (qStore q)" and n: "length (qEntries q) = length (qAlloc q)"
    using assms(1) by (simp_all add: queueOk_def)
  obtain curr store1 where g: "Get ?hash (qStore q) = (curr, store1)" by (cases "Get ?hash (qStore q)")
  have curr: "curr = stored q ?hash" and ok1: "storeOk store1" and keep: "map_of (content store1) = stored q"
    using Get_result [OF ok, of ?hash] storeOk_Get [OF ok, of ?hash] Get_keeps [OF ok, of ?hash] g by simp_all
  let ?q = "finish t res q"
  have alloc: "qAlloc ?q = setTimer t (Finished res) (qAlloc q)"
    by (simp add: finish_def Let_def g)
  have timers: "gm_get (qTimers ?q) h = (if h = ?hash \<and> gm_get (qTimers q) h = Some t then None else gm_get (qTimers q) h)" for h
    by (simp add: finish_def Let_def g)
  have store: "storeOk (qStore ?q)" "length (qEntries ?q) = length (qEntries q)"
    using ok1 storeOk_Add [OF ok1] by (simp_all add: finish_def Let_def g)
  have "latest (qAlloc ?q) h a \<and> qEntries ?q ! a = outcome (qAlloc ?q ! a)" if s: "stored ?q h = Some a" for h a
  proof (cases "h = ?hash \<and> stored q ?hash = Some t")
    case True
    then have "a = t" using s Add_stored [OF ok1] by (simp add: finish_def Let_def g curr e)
    moreover have "latest (qAlloc q) ?hash t \<and> qEntries q ! t = accepted ?hash"
      using stored_valid [OF assms(1), of ?hash t] True run by (simp add: outcome_def)
    ultimately show ?thesis using True t n
      by (simp add: alloc outcome_def) (simp add: finish_def Let_def g curr e)
  next
    case False
    have sq: "stored q h = Some a"
    proof (cases "h = ?hash")
      case True
      then show ?thesis using False s by (simp add: finish_def Let_def g curr e keep)
    next
      case other: False
      then show ?thesis
        using s Add_others [OF ok1 other] by (auto simp: finish_def Let_def g curr e keep split: if_splits)
    qed
    note v = stored_valid [OF assms(1) sq]
    have "a \<noteq> t" using v False sq by (auto simp: latest_def)
    then show ?thesis using v by (simp add: alloc) (simp add: finish_def Let_def g curr e)
  qed
  moreover have "gm_get (qTimers ?q) (tHash (qAlloc ?q ! i)) = Some i"
    if "i < length (qAlloc ?q)" "tState (qAlloc ?q ! i) = Pending" for i
    using that assms(1) t unfolding timers alloc by (auto simp: queueOk_def split: if_splits)
  ultimately show ?thesis
    using assms(1) store n t unfolding queueOk_def by (auto simp: alloc timers split: if_splits)
qed

lemma queueOk_step:
  assumes "qstep hashOf q q'" and "queueOk q"
  shows "queueOk q'"
  using assms
proof cases
  case stop
  then show ?thesis using queueOk_stop [OF assms(2) stoppedFrom_foldl] by (simp add: stopAll_def)
next
  case close
  then show ?thesis using assms(2) by (simp add: Shutdown_def queueOk_def)
qed (use assms(2) in \<open>simp_all add: queueOk_Submit queueOk_fire queueOk_finish queueOk_GetResult\<close>)

lemma queueOk_reachable: "reachable hashOf q \<Longrightarrow> queueOk q"
proof (induction rule: reachable.induct)
  case (init q)
  then show ?case
    by (auto simp: NewTrailingDelayQueue_def newLRUCache_def RequestHistorySize_def queueOk_def storeOk_def lruOk_def
      linked_def content_def map_sum_eqs)
qed (rule queueOk_step)

section \<open>Properties\<close>

lemma GetResult_stored:
  assumes "storeOk (qStore q)"
  shows "fst (GetResult hash q) =
    (case stored q hash of
       None \<Rightarrow> \<lparr>Ret = None, Status = StatusNotFound, Message = ''request ID '' @ hash @ '' not found''\<rparr>
     | Some e \<Rightarrow> qEntries q ! e)"
  using Get_result [OF assms, of hash]
  by (cases "Get hash (qStore q)") (auto simp: GetResult_def Let_def split: option.splits)

text \<open>
  C13. The queue never serves a stale result: in every reachable state, however the goroutines
  interleave, a lookup answers either that the ID is not known or with the outcome of the request
  submitted last under that ID: accepted while it waits or runs, its result or its error once it
  has finished. A slower handler of an earlier request cannot overwrite it.
\<close>

theorem queue_answers_latest:
  assumes "reachable hashOf q"
  shows "fst (GetResult hash q) =
      \<lparr>Ret = None, Status = StatusNotFound, Message = ''request ID '' @ hash @ '' not found''\<rparr> \<or>
    (\<exists>t. latest (qAlloc q) hash t \<and> fst (GetResult hash q) = outcome (qAlloc q ! t))"
proof -
  have ok: "queueOk q" by (rule queueOk_reachable [OF assms])
  then have "storeOk (qStore q)" by (simp add: queueOk_def)
  then show ?thesis
    using GetResult_stored [of q hash] stored_valid [OF ok, of hash] by (cases "stored q hash") auto
qed

text \<open>
  Two requests with one ID: the first handler starts, the second request arrives and finishes, and
  then the first handler returns.
\<close>

definition demoHash :: "string \<Rightarrow> string + string" where
  "demoHash item = Inr ''id''"

definition emptyQueue :: "(string, string) queue" where
  "emptyQueue = \<lparr>qEntries = [], qAlloc = [], qTimers = [],
     qStore = \<lparr>capacity = 100, entries = [], items = [], fresh = 0\<rparr>, qShutdown = False\<rparr>"

definition demoQueue :: "(string, string) queue" where
  "demoQueue = finish 0 (Inr ''old'') (finish 1 (Inr ''new'') (fire 1 (fst (Submit demoHash ''b''
     (fire 0 (fst (Submit demoHash ''a'' emptyQueue)))))))"

lemma demoQueue_reachable: "reachable demoHash demoQueue"
proof -
  have "reachable demoHash emptyQueue"
    by (rule reachable.init) (simp add: NewTrailingDelayQueue_def newLRUCache_def RequestHistorySize_def emptyQueue_def)
  then have "reachable demoHash (fst (Submit demoHash ''a'' emptyQueue))" (is "reachable _ ?q1")
    by (rule reachable.step) (rule qstep.submit)
  then have "reachable demoHash (fire 0 ?q1)" (is "reachable _ ?q2")
    by (rule reachable.step) (rule qstep.fire; code_simp)
  then have "reachable demoHash (fst (Submit demoHash ''b'' ?q2))" (is "reachable _ ?q3")
    by (rule reachable.step) (rule qstep.submit)
  then have "reachable demoHash (fire 1 ?q3)" (is "reachable _ ?q4")
    by (rule reachable.step) (rule qstep.fire; code_simp)
  then have "reachable demoHash (finish 1 (Inr ''new'') ?q4)" (is "reachable _ ?q5")
    by (rule reachable.step) (rule qstep.finish; code_simp)
  then have "reachable demoHash (finish 0 (Inr ''old'') ?q5)"
    by (rule reachable.step) (rule qstep.finish; code_simp)
  then show ?thesis by (simp only: demoQueue_def)
qed

theorem queue_answers_latest_witness:
  "fst (GetResult ''id'' demoQueue) = outcome (qAlloc demoQueue ! 1) \<and> Ret (outcome (qAlloc demoQueue ! 1)) = Some ''new''"
proof -
  have l: "latest (qAlloc demoQueue) ''id'' t \<Longrightarrow> t = 1" for t
    by (rule latest_unique [of "qAlloc demoQueue" "''id''"], assumption) code_simp
  have "Status (fst (GetResult ''id'' demoQueue)) = 200" "Ret (outcome (qAlloc demoQueue ! 1)) = Some ''new''" by code_simp+
  with queue_answers_latest [OF demoQueue_reachable, of "''id''"] l show ?thesis by auto
qed

text \<open>
  C14. At most one request per ID is waiting: a pending timer is always the one of the request
  submitted last under its ID, so a burst of requests leads to a single run of the handler.
\<close>

theorem queue_one_pending:
  assumes "reachable hashOf q" and "t < length (qAlloc q)" and "tState (qAlloc q ! t) = Pending"
  shows "latest (qAlloc q) (tHash (qAlloc q ! t)) t"
  using queueOk_reachable [OF assms(1)] assms(2,3) by (simp add: queueOk_def)

theorem queue_one_pending_witness:
  "latest (qAlloc (fst (Submit demoHash ''b'' (fst (Submit demoHash ''a'' emptyQueue))))) ''id'' 1"
proof -
  let ?q = "fst (Submit demoHash ''b'' (fst (Submit demoHash ''a'' emptyQueue)))"
  have "reachable demoHash emptyQueue"
    by (rule reachable.init) (simp add: NewTrailingDelayQueue_def newLRUCache_def RequestHistorySize_def emptyQueue_def)
  then have "reachable demoHash ?q" by (blast intro: reachable.step qstep.submit)
  moreover have "1 < length (qAlloc ?q)" "tState (qAlloc ?q ! 1) = Pending" "tHash (qAlloc ?q ! 1) = ''id''" by code_simp+
  ultimately show ?thesis using queue_one_pending [of demoHash ?q 1] by simp
qed

lemma Submit_result:
  assumes "reachable hashOf q" and "Submit hashOf item q = (q', Inr hash)"
  shows "fst (GetResult hash q') = accepted hash \<and> length (content (qStore q')) \<le> 100"
proof -
  have "queueOk q'" using queueOk_Submit [OF queueOk_reachable [OF assms(1)], of hashOf item] assms(2) by simp
  then have ok': "storeOk (qStore q')" by (simp add: queueOk_def)
  have ok: "queueOk q" by (rule queueOk_reachable [OF assms(1)])
  then have "stored q' hash = Some (length (qEntries q))" "qEntries q' = qEntries q @ [accepted hash]"
    using assms(2) Add_stored [of "qStore q"] by (auto simp: Submit_def Let_def queueOk_def split: sum.splits)
  then have "fst (GetResult hash q') = accepted hash"
    using GetResult_stored [OF ok', of hash] by simp
  moreover have "length (content (qStore q')) \<le> 100"
    using ok' lru.bounded [of "qStore q'" 99] by (simp add: storeOk_def)
  ultimately show ?thesis by blast
qed

text \<open>
  A submitted request can be looked up at once, and the history is bounded: after \<open>Submit\<close>
  the answer for the returned ID is that the request was accepted, and at most 100 results are kept.
\<close>

theorem Submit_accepted:
  assumes "reachable hashOf q" and "Submit hashOf item q = (q', Inr hash)"
  shows "fst (GetResult hash q') = accepted hash \<and> length (content (qStore q')) \<le> 100"
  using assms by (rule Submit_result)

end
