(* ===== verification/HttpReq.thy ===== *)
theory HttpReq
  imports GoText
begin

text \<open>
  Component \<open>internal/httpreq/httpreq.go\<close>: HTTP requests with retries. Durations are nanoseconds.

  The transport is outside the model: what one attempt meets (no request could be built, a
  transport error, a response) is a value of \<open>roundTrip\<close>, and a sequence of attempts is a function
  from the attempt number. The date form of \<open>Retry-After\<close> is an argument: the delay until the date
  that \<open>http.ParseTime\<close> reads and \<open>time.Until\<close> measures. The construction of URLs (\<open>net/url\<close>) is
  not modelled.
\<close>

section \<open>Model\<close>

abbreviation second :: int where "second \<equiv> 1000000000"

definition maxRetries :: nat where
  "maxRetries = 5"

definition backOff :: int where
  "backOff = 500000000"

definition maxRetryAfter :: int where
  "maxRetryAfter = 300 * second"

definition ShouldRetry :: "int \<Rightarrow> bool" where
  "ShouldRetry status \<longleftrightarrow> status \<in> {408, 429, 500, 502, 503, 504}"

record response =
  StatusCode :: int
  RetryAfter :: string

definition ParseRetryAfter :: "(string \<Rightarrow> int option) \<Rightarrow> response option \<Rightarrow> int \<times> bool" where
  "ParseRetryAfter untilDate resp =
     (case resp of
        None \<Rightarrow> (0, False)
      | Some r \<Rightarrow>
          if RetryAfter r = [] then (0, False)
          else
            (case Atoi (RetryAfter r) of
               Some seconds \<Rightarrow>
                 if seconds \<ge> 0 then
                   (if seconds > maxRetryAfter div second then (maxRetryAfter, True) else (seconds * second, True))
                 else
                   (case untilDate (RetryAfter r) of
                      Some delay \<Rightarrow> if delay > 0 then (min delay maxRetryAfter, True) else (0, False)
                    | None \<Rightarrow> (0, False))
             | None \<Rightarrow>
                 (case untilDate (RetryAfter r) of
                    Some delay \<Rightarrow> if delay > 0 then (min delay maxRetryAfter, True) else (0, False)
                  | None \<Rightarrow> (0, False))))"

definition GetNextBackoff :: "(string \<Rightarrow> int option) \<Rightarrow> response option \<Rightarrow> int \<Rightarrow> nat \<Rightarrow> int" where
  "GetNextBackoff untilDate resp initialBackoff attempt =
     (let (wait, valid) = ParseRetryAfter untilDate resp
      in if valid then wait else wrap64 (initialBackoff * 2 ^ attempt))"

text \<open>What one attempt meets: no request, a failed \<open>client.Do\<close>, or a response with its body.\<close>

datatype roundTrip =
    NoRequest httperr
  | TransportError "response option" string
  | Response response "string + string"

definition DoRequest :: "roundTrip \<Rightarrow> response option \<times> string \<times> httperr option" where
  "DoRequest rt =
     (case rt of
        NoRequest err \<Rightarrow> (None, [], Some err)
      | TransportError resp err \<Rightarrow>
          (resp, [], Some (NewError (case resp of Some r \<Rightarrow> StatusCode r | None \<Rightarrow> StatusBadGateway) err))
      | Response resp (Inl err) \<Rightarrow>
          (Some resp, [], Some (NewError StatusInternalServerError (''failed to read HTTP response: '' @ err)))
      | Response resp (Inr body) \<Rightarrow>
          if StatusCode resp \<ge> 200 \<and> StatusCode resp < 300 then (Some resp, body, None)
          else (Some resp, body, Some (NewError (StatusCode resp) body)))"

text \<open>
  One attempt with what the request's context does: whether it is done when the attempt ends, and
  whether it is done before the wait is over. Without a request there is no context.
\<close>

record attempt =
  aTrip :: roundTrip
  aDone :: bool
  aDoneWaiting :: bool

definition hasContext :: "attempt \<Rightarrow> bool" where
  "hasContext a = (case aTrip a of NoRequest err \<Rightarrow> False | _ \<Rightarrow> True)"

definition waitForRetry :: "attempt \<Rightarrow> bool" where
  "waitForRetry a \<longleftrightarrow> \<not> hasContext a \<or> \<not> aDoneWaiting a"

text \<open>The loop: the attempts made, the waits between them, and the result.\<close>

function retryLoop ::
  "(string \<Rightarrow> int option) \<Rightarrow> (nat \<Rightarrow> attempt) \<Rightarrow> nat \<Rightarrow> int list \<Rightarrow> nat \<times> int list \<times> string \<times> httperr option" where
  "retryLoop untilDate f n waits =
     (let a = f (n + 1); (resp, body, err) = DoRequest (aTrip a)
      in if hasContext a \<and> aDone a then (n + 1, waits, body, err)
         else if err = None \<or> n + 1 \<ge> maxRetries \<or> \<not> ShouldRetry (code (the err)) then (n + 1, waits, body, err)
         else
           (let wait = GetNextBackoff untilDate resp backOff n
            in if waitForRetry a then retryLoop untilDate f (n + 1) (waits @ [wait])
               else (n + 1, waits @ [wait], body, err)))"
  by pat_completeness auto
termination
  by (relation "measure (\<lambda>(u, f, n, w). maxRetries - n)") (auto simp: maxRetries_def)

declare retryLoop.simps [simp del]

definition DoRequestWithRetries ::
  "(string \<Rightarrow> int option) \<Rightarrow> (nat \<Rightarrow> attempt) \<Rightarrow> nat \<times> int list \<times> string \<times> httperr option" where
  "DoRequestWithRetries untilDate f = retryLoop untilDate f 0 []"

section \<open>Retries are bounded\<close>

lemma ParseRetryAfter_bound:
  "ParseRetryAfter untilDate resp = (wait, True) \<Longrightarrow> 0 \<le> wait \<and> wait \<le> maxRetryAfter"
  by (auto simp: ParseRetryAfter_def maxRetryAfter_def split: option.splits if_splits)

lemma GetNextBackoff_bound:
  assumes "n < maxRetries"
  shows "0 \<le> GetNextBackoff untilDate resp backOff n \<and> GetNextBackoff untilDate resp backOff n \<le> maxRetryAfter"
proof (cases "ParseRetryAfter untilDate resp")
  case (Pair wait valid)
  have "(2 :: int) ^ n \<le> 2 ^ 4" using assms by (intro power_increasing) (simp_all add: maxRetries_def)
  then have "0 \<le> backOff * 2 ^ n \<and> backOff * 2 ^ n \<le> 8000000000" by (simp add: backOff_def)
  then have "wrap64 (backOff * 2 ^ n) = backOff * 2 ^ n" by (intro wrap64_id) (simp_all add: maxInt_def)
  then show ?thesis
    using ParseRetryAfter_bound [of untilDate resp wait] Pair \<open>0 \<le> backOff * 2 ^ n \<and> _\<close>
    by (cases valid) (auto simp: GetNextBackoff_def maxRetryAfter_def)
qed

definition retryable :: "attempt \<Rightarrow> bool" where
  "retryable a \<longleftrightarrow> (\<exists>e. snd (snd (DoRequest (aTrip a))) = Some e \<and> ShouldRetry (code e))"

lemma retryLoop_bounded:
  assumes "retryLoop untilDate f n waits = (m, waits', body, err)" and "n < maxRetries"
    and "\<forall>w \<in> set waits. 0 \<le> w \<and> w \<le> maxRetryAfter" and "\<forall>k. 1 \<le> k \<and> k \<le> n \<longrightarrow> retryable (f k)"
    and "length waits = n"
  shows "n < m \<and> m \<le> maxRetries \<and> (body, err) = snd (DoRequest (aTrip (f m))) \<and>
    (\<forall>w \<in> set waits'. 0 \<le> w \<and> w \<le> maxRetryAfter) \<and> (\<forall>k. 1 \<le> k \<and> k < m \<longrightarrow> retryable (f k)) \<and>
    length waits' \<le> m"
  using assms
proof (induction untilDate f n waits rule: retryLoop.induct)
  case (1 untilDate f n waits)
  obtain resp b e where d: "DoRequest (aTrip (f (n + 1))) = (resp, b, e)" by (cases "DoRequest (aTrip (f (n + 1)))")
  let ?wait = "GetNextBackoff untilDate resp backOff n"
  have w: "\<forall>w \<in> set (waits @ [?wait]). 0 \<le> w \<and> w \<le> maxRetryAfter"
    using GetNextBackoff_bound [OF "1.prems"(2), of untilDate resp] "1.prems"(3) by auto
  let ?final = "hasContext (f (n + 1)) \<and> aDone (f (n + 1)) \<or> e = None \<or> n + 1 \<ge> maxRetries \<or> \<not> ShouldRetry (code (the e))"
  show ?case
  proof (cases "\<not> ?final \<and> waitForRetry (f (n + 1))")
    case True
    have step: "retryLoop untilDate f n waits = retryLoop untilDate f (n + 1) (waits @ [?wait])"
      using True d by (subst retryLoop.simps) (auto simp: Let_def)
    have r: "retryable (f (n + 1))" using True d by (auto simp: retryable_def)
    have k: "\<forall>k. 1 \<le> k \<and> k \<le> n + 1 \<longrightarrow> retryable (f k)" using "1.prems"(4) r by (auto simp: le_Suc_eq)
    have "n + 1 < m \<and> m \<le> maxRetries \<and> (body, err) = snd (DoRequest (aTrip (f m))) \<and>
        (\<forall>w \<in> set waits'. 0 \<le> w \<and> w \<le> maxRetryAfter) \<and> (\<forall>k. 1 \<le> k \<and> k < m \<longrightarrow> retryable (f k)) \<and>
        length waits' \<le> m"
      by (rule "1.IH" [OF refl refl d [symmetric] refl _ _ refl _ _ _ w k]) (use True "1.prems"(1,5) step in auto)
    then show ?thesis by simp
  next
    case False
    then have "\<exists>ws. retryLoop untilDate f n waits = (n + 1, ws, b, e) \<and> (ws = waits \<or> ws = waits @ [?wait])"
      using d by (subst retryLoop.simps) (auto simp: Let_def)
    then show ?thesis using d "1.prems" w by (auto simp: less_Suc_eq_le)
  qed
qed

text \<open>
  C29. A request is tried at most five times and the caller gets the outcome of the last try; every
  earlier try ended with a retryable status, and no wait between tries is negative or longer than
  five minutes, whatever the server puts in \<open>Retry-After\<close>.
\<close>

theorem DoRequestWithRetries_bounded:
  assumes "DoRequestWithRetries untilDate f = (n, waits, body, err)"
  shows "1 \<le> n \<and> n \<le> 5 \<and> (body, err) = snd (DoRequest (aTrip (f n))) \<and>
    (\<forall>k. 1 \<le> k \<and> k < n \<longrightarrow> retryable (f k)) \<and> length waits \<le> n \<and>
    (\<forall>w \<in> set waits. 0 \<le> w \<and> w \<le> 300 * 1000000000)"
  using retryLoop_bounded [OF assms [unfolded DoRequestWithRetries_def]]
  by (simp add: maxRetries_def maxRetryAfter_def)

definition busyServer :: "nat \<Rightarrow> attempt" where
  "busyServer k = \<lparr>aTrip = Response \<lparr>StatusCode = 503, RetryAfter = ''99999999''\<rparr> (Inr ''busy''),
     aDone = False, aDoneWaiting = False\<rparr>"

theorem DoRequestWithRetries_bounded_witness:
  "DoRequestWithRetries (\<lambda>_. None) busyServer =
     (5, replicate 4 (300 * 1000000000), ''busy'', Some (NewError 503 ''busy'')) \<and> retryable (busyServer 1)"
proof -
  have e: "DoRequestWithRetries (\<lambda>_. None) busyServer =
     (5, replicate 4 (300 * 1000000000), ''busy'', Some (NewError 503 ''busy''))" by code_simp
  from DoRequestWithRetries_bounded [OF e] show ?thesis using e by auto
qed

end
