(* ===== verification/Server.thy ===== *)
theory Server
  imports Queue HttpReq Topology
begin

text \<open>
  Components \<open>pkg/server/engine.go\<close> and \<open>pkg/server/http_server.go\<close>, with the registries of
  \<open>pkg/providers/providers.go\<close> and \<open>pkg/engines/engines.go\<close> and the short cut of
  \<open>pkg/providers/test/test.go\<close>: the handlers of the HTTP API, the defaults taken from the
  configuration, the processing of a request by its provider and engine, and the retries.

  A provider and an engine are records of the methods the server calls. JSON decoding and encoding,
  the decoding of parameters (\<open>internal/config\<close>) and the reading of the body are arguments. The
  handlers return the response they write; logging and metrics are left out.
\<close>

section \<open>Model\<close>

subsection \<open>Providers and engines\<close>

record 'g providerIf =
  GetComputeInstances :: "(httperr + ComputeInstances list) option"
  GenerateGraph :: "int option \<Rightarrow> ComputeInstances list \<Rightarrow> httperr + 'g"

record ('a, 'g) engineIf =
  ResolveInstances :: "ComputeInstances list \<Rightarrow> 'g providerIf \<Rightarrow> httperr + ComputeInstances list"
  EngineOutput :: "'g \<Rightarrow> (string, 'a) gomap \<Rightarrow> httperr + string"

record 'a providerConfig =
  pcCreds :: "(string, 'a) gomap"
  pcParams :: "(string, 'a) gomap"

record ('a, 'g) serverConfig =
  cfgProvider :: string
  cfgEngine :: string
  cfgProviderParams :: "(string, 'a) gomap"
  cfgEngineParams :: "(string, 'a) gomap"
  cfgPageSize :: "int option"
  cfgCredentials :: "(string, 'a) gomap"
  cfgProviders :: "(string, 'a providerConfig \<Rightarrow> httperr + 'g providerIf) gomap"
  cfgEngines :: "(string, (string, 'a) gomap \<Rightarrow> httperr + ('a, 'g) engineIf) gomap"

definition registryGet :: "string \<Rightarrow> (string, 'l) gomap \<Rightarrow> string \<Rightarrow> httperr + 'l" where
  "registryGet kind registry name =
     (case gm_get registry name of
        None \<Rightarrow> Inl (NewError StatusBadRequest (''unsupported '' @ kind @ '' '' @ [CHR 0x22] @ name @ [CHR 0x22]))
      | Some loader \<Rightarrow> Inr loader)"

subsection \<open>Processing a request\<close>

definition checkCredentials :: "(string, 'a) gomap \<Rightarrow> (string, 'a) gomap \<Rightarrow> (string, 'a) gomap" where
  "checkCredentials payloadCreds cfgCreds = (if payloadCreds \<noteq> [] then payloadCreds else cfgCreds)"

definition resolveComputeInstances ::
  "('a, 'g) engineIf \<Rightarrow> 'g providerIf \<Rightarrow> ComputeInstances list \<Rightarrow> httperr + ComputeInstances list" where
  "resolveComputeInstances eng prv requested =
     (if requested \<noteq> [] then ResolveInstances eng requested prv
      else
        (case GetComputeInstances prv of
           Some (Inl err) \<Rightarrow> Inl err
         | Some (Inr instances) \<Rightarrow>
             if instances = [] then Inr instances else ResolveInstances eng instances prv
         | None \<Rightarrow> ResolveInstances eng [] prv))"

definition processTopologyRequest :: "('a, 'g) serverConfig \<Rightarrow> 'a Request \<Rightarrow> httperr + string" where
  "processTopologyRequest cfg tr =
     (case registryGet ''engine'' (cfgEngines cfg) (eName (rEngine tr)) of
        Inl err \<Rightarrow> Inl err
      | Inr engLoader \<Rightarrow>
     (case registryGet ''provider'' (cfgProviders cfg) (pName (rProvider tr)) of
        Inl err \<Rightarrow> Inl err
      | Inr prvLoader \<Rightarrow>
     (case engLoader (eParams (rEngine tr)) of
        Inl err \<Rightarrow> Inl err
      | Inr eng \<Rightarrow>
     (case prvLoader \<lparr>pcCreds = checkCredentials (Creds (rProvider tr)) (cfgCredentials cfg),
                      pcParams = pParams (rProvider tr)\<rparr> of
        Inl err \<Rightarrow> Inl err
      | Inr prv \<Rightarrow>
     (case resolveComputeInstances eng prv (Nodes tr) of
        Inl err \<Rightarrow> Inl err
      | Inr computeInstances \<Rightarrow>
     (case GenerateGraph prv (cfgPageSize cfg) computeInstances of
        Inl err \<Rightarrow> Inl err
      | Inr graph \<Rightarrow> EngineOutput eng graph (eParams (rEngine tr))))))))"

definition defaultBackOff :: int where
  "defaultBackOff = 2 * second"

text \<open>
  \<open>processRequestWithRetries\<close>: the \<open>n\<close>-th call of the function gives \<open>f n\<close>, since providers depend on
  the outside. The result is the number of calls, the waits and the last result.
\<close>

function processLoop :: "(nat \<Rightarrow> httperr + 'r) \<Rightarrow> nat \<Rightarrow> int list \<Rightarrow> nat \<times> int list \<times> (httperr + 'r)" where
  "processLoop f n waits =
     (let res = f (n + 1); status = (case res of Inl err \<Rightarrow> code err | Inr _ \<Rightarrow> StatusOK)
      in if \<not> ShouldRetry status \<or> n + 1 \<ge> maxRetries then (n + 1, waits, res)
         else processLoop f (n + 1) (waits @ [GetNextBackoff (\<lambda>_. None) None defaultBackOff n]))"
  by pat_completeness auto
termination
  by (relation "measure (\<lambda>(f, n, w). maxRetries - n)") (auto simp: maxRetries_def)

declare processLoop.simps [simp del]

definition processRequestWithRetries :: "(nat \<Rightarrow> httperr + 'r) \<Rightarrow> nat \<times> int list \<times> (httperr + 'r)" where
  "processRequestWithRetries f = processLoop f 0 []"

subsection \<open>Reading a request\<close>

record httpRequest =
  rqMethod :: string
  rqBody :: "string + string"
  rqUid :: string

record httpResponse =
  rsStatus :: int
  rsBody :: string

text \<open>\<open>http.Error\<close> ends the message with a newline.\<close>

definition httpError :: "string \<Rightarrow> int \<Rightarrow> httpResponse" where
  "httpError m status = \<lparr>rsStatus = status, rsBody = m @ [newline]\<rparr>"

text \<open>Parameters of the configuration that the payload does not set.\<close>

definition mergeParams :: "(string, 'a) gomap \<Rightarrow> (string, 'a) gomap \<Rightarrow> (string, 'a) gomap" where
  "mergeParams cfgParams params =
     foldl (\<lambda>m (k, v). if gm_get m k = None then gm_put k v m else m) params cfgParams"

definition validate :: "('a, 'g) serverConfig \<Rightarrow> 'a Request \<Rightarrow> string option" where
  "validate cfg tr =
     (if gm_get (cfgProviders cfg) (pName (rProvider tr)) = None then
        (if pName (rProvider tr) = [] then Some ''no provider given for topology request''
         else Some (''unsupported provider '' @ pName (rProvider tr)))
      else if gm_get (cfgEngines cfg) (eName (rEngine tr)) = None then
        (if eName (rEngine tr) = [] then Some ''no engine given for topology request''
         else Some (''unsupported engine '' @ eName (rEngine tr)))
      else None)"

definition withDefaults :: "('a, 'g) serverConfig \<Rightarrow> 'a Request \<Rightarrow> 'a Request" where
  "withDefaults cfg tr =
     tr\<lparr>rProvider := (rProvider tr)\<lparr>
          pName := (if pName (rProvider tr) = [] then cfgProvider cfg else pName (rProvider tr)),
          pParams := mergeParams (cfgProviderParams cfg) (pParams (rProvider tr))\<rparr>,
        rEngine := (rEngine tr)\<lparr>
          eName := (if eName (rEngine tr) = [] then cfgEngine cfg else eName (rEngine tr)),
          eParams := mergeParams (cfgEngineParams cfg) (eParams (rEngine tr))\<rparr>\<rparr>"

definition readRequest ::
  "('a, 'g) serverConfig \<Rightarrow> (string \<Rightarrow> string + 'a Request) \<Rightarrow> httpRequest \<Rightarrow> httpResponse + 'a Request" where
  "readRequest cfg unmarshal r =
     (if rqMethod r \<noteq> ''POST'' then Inl (httpError ''Invalid request method'' StatusMethodNotAllowed)
      else
        (case rqBody r of
           Inl err \<Rightarrow> Inl (httpError ''Unable to read request body'' StatusInternalServerError)
         | Inr body \<Rightarrow>
             (case GetTopologyRequest unmarshal body of
                Inl (ParsePayload err) \<Rightarrow> Inl (httpError (''failed to parse payload: '' @ err) StatusBadRequest)
              | Inl (MarshalRequest err) \<Rightarrow> Inl (httpError err StatusBadRequest)
              | Inr tr0 \<Rightarrow>
                  (let tr = withDefaults cfg tr0
                   in case validate cfg tr of
                        Some err \<Rightarrow> Inl (httpError err StatusBadRequest)
                      | None \<Rightarrow> Inr tr))))"

subsection \<open>The test provider\<close>

record testParams =
  GenerateResponseCode :: int
  TopologyResponseCode :: int
  ErrorMessage :: string

definition NewParams :: testParams where
  "NewParams = \<lparr>GenerateResponseCode = StatusAccepted, TopologyResponseCode = StatusOK, ErrorMessage = []\<rparr>"

definition HandleTestProviderRequest ::
  "((string, 'a) gomap \<Rightarrow> testParams \<Rightarrow> string + testParams) \<Rightarrow> 'a Request \<Rightarrow> httpResponse option" where
  "HandleTestProviderRequest decode tr =
     (if pName (rProvider tr) \<noteq> ''test'' then None
      else
        (case decode (pParams (rProvider tr)) NewParams of
           Inl err \<Rightarrow> Some (httpError (''error decoding params: '' @ err) StatusBadRequest)
         | Inr p \<Rightarrow>
             if 400 \<le> GenerateResponseCode p \<and> GenerateResponseCode p \<le> 599
             then Some (httpError (ErrorMessage p) (GenerateResponseCode p))
             else if GenerateResponseCode p \<noteq> StatusAccepted
             then Some (httpError ''Unsupported response code.'' StatusBadRequest)
             else None))"

subsection \<open>Handlers\<close>

type_synonym 'a requestQueue = "('a Request, string) queue"

definition hashOf :: "('a Request \<Rightarrow> string + string) \<Rightarrow> 'a Request \<Rightarrow> string + string" where
  "hashOf marshal tr =
     (case requestHash marshal tr of
        Inl (ParsePayload err) \<Rightarrow> Inl err
      | Inl (MarshalRequest err) \<Rightarrow> Inl (''failed to marshal request for hashing: '' @ err)
      | Inr h \<Rightarrow> Inr h)"

record ('a, 'g) server =
  svConfig :: "('a, 'g) serverConfig"
  svUnmarshal :: "string \<Rightarrow> string + 'a Request"
  svMarshal :: "'a Request \<Rightarrow> string + string"
  svDecode :: "(string, 'a) gomap \<Rightarrow> testParams \<Rightarrow> string + testParams"

definition writeResultResponse :: "string \<Rightarrow> 'a requestQueue \<Rightarrow> 'a requestQueue \<times> httpResponse" where
  "writeResultResponse uid q =
     (let (res, q') = GetResult uid q
      in (q',
          if Status res = StatusOK then
            (case Ret res of
               None \<Rightarrow> httpError (''request ID '' @ uid @ '' has an unexpected result type <nil>'') StatusInternalServerError
             | Some data \<Rightarrow> \<lparr>rsStatus = Status res, rsBody = data\<rparr>)
          else if Status res = StatusAccepted then \<lparr>rsStatus = Status res, rsBody = Message res\<rparr>
          else httpError (Message res) (Status res)))"

definition healthz :: httpResponse where
  "healthz = \<lparr>rsStatus = StatusOK, rsBody = ''OK'' @ [newline]\<rparr>"

definition generate :: "('a, 'g) server \<Rightarrow> httpRequest \<Rightarrow> 'a requestQueue \<Rightarrow> 'a requestQueue \<times> httpResponse" where
  "generate sv r q =
     (case readRequest (svConfig sv) (svUnmarshal sv) r of
        Inl resp \<Rightarrow> (q, resp)
      | Inr tr \<Rightarrow>
          (case HandleTestProviderRequest (svDecode sv) tr of
             Some resp \<Rightarrow> (q, resp)
           | None \<Rightarrow>
               (case Submit (hashOf (svMarshal sv)) tr q of
                  (q', Inl err) \<Rightarrow> (q', httpError err StatusInternalServerError)
                | (q', Inr uid) \<Rightarrow> (q', \<lparr>rsStatus = StatusAccepted, rsBody = uid\<rparr>))))"

definition getresult :: "httpRequest \<Rightarrow> 'a requestQueue \<Rightarrow> 'a requestQueue \<times> httpResponse" where
  "getresult r q =
     (if rqMethod r \<noteq> ''GET'' then (q, httpError ''invalid request method'' StatusMethodNotAllowed)
      else if rqUid r = [] then (q, httpError ''must specify request uid'' StatusBadRequest)
      else writeResultResponse (rqUid r) q)"

definition lookup :: "('a, 'g) server \<Rightarrow> httpRequest \<Rightarrow> 'a requestQueue \<Rightarrow> 'a requestQueue \<times> httpResponse" where
  "lookup sv r q =
     (case readRequest (svConfig sv) (svUnmarshal sv) r of
        Inl resp \<Rightarrow> (q, resp)
      | Inr tr \<Rightarrow>
          (case hashOf (svMarshal sv) tr of
             Inl err \<Rightarrow> (q, httpError err StatusBadRequest)
           | Inr hash \<Rightarrow> writeResultResponse hash q))"

section \<open>Properties\<close>

lemma processLoop_bounded:
  assumes "processLoop f n waits = (m, waits', res)" and "n < maxRetries"
    and "\<forall>k. 1 \<le> k \<and> k \<le> n \<longrightarrow> (\<exists>e. f k = Inl e \<and> ShouldRetry (code e))"
    and "waits = map (\<lambda>k. defaultBackOff * 2 ^ k) [0..<n]"
  shows "n < m \<and> m \<le> maxRetries \<and> res = f m \<and> waits' = map (\<lambda>k. defaultBackOff * 2 ^ k) [0..<m - 1] \<and>
    (\<forall>k. 1 \<le> k \<and> k < m \<longrightarrow> (\<exists>e. f k = Inl e \<and> ShouldRetry (code e))) \<and>
    (m < maxRetries \<longrightarrow> (\<forall>e. f m = Inl e \<longrightarrow> \<not> ShouldRetry (code e)))"
  using assms
proof (induction f n waits rule: processLoop.induct)
  case (1 f n waits)
  let ?status = "case f (n + 1) of Inl err \<Rightarrow> code err | Inr _ \<Rightarrow> StatusOK"
  show ?case
  proof (cases "ShouldRetry ?status \<and> n + 1 < maxRetries")
    case True
    have "(2 :: int) ^ n \<le> 2 ^ 4" using True by (intro power_increasing) (simp_all add: maxRetries_def)
    moreover have "(0 :: int) \<le> 2 ^ n" by simp
    ultimately have "0 \<le> defaultBackOff * 2 ^ n \<and> defaultBackOff * 2 ^ n \<le> 32000000000" by (simp add: defaultBackOff_def)
    then have "wrap64 (defaultBackOff * 2 ^ n) = defaultBackOff * 2 ^ n"
      by (intro wrap64_id) (simp_all add: maxInt_def)
    then have wait: "GetNextBackoff (\<lambda>_. None) None defaultBackOff n = defaultBackOff * 2 ^ n"
      by (simp add: GetNextBackoff_def ParseRetryAfter_def)
    have step: "processLoop f n waits = processLoop f (n + 1) (waits @ [defaultBackOff * 2 ^ n])"
      using True wait by (subst processLoop.simps) (simp add: Let_def)
    obtain e where e: "f (n + 1) = Inl e" "ShouldRetry (code e)"
      using True by (cases "f (n + 1)") (simp_all add: ShouldRetry_def)
    have k: "\<forall>k. 1 \<le> k \<and> k \<le> n + 1 \<longrightarrow> (\<exists>e. f k = Inl e \<and> ShouldRetry (code e))"
      using "1.prems"(3) e by (auto simp: le_Suc_eq)
    have "n + 1 < m \<and> m \<le> maxRetries \<and> res = f m \<and> waits' = map (\<lambda>k. defaultBackOff * 2 ^ k) [0..<m - 1] \<and>
        (\<forall>k. 1 \<le> k \<and> k < m \<longrightarrow> (\<exists>e. f k = Inl e \<and> ShouldRetry (code e))) \<and>
        (m < maxRetries \<longrightarrow> (\<forall>e. f m = Inl e \<longrightarrow> \<not> ShouldRetry (code e)))"
      by (rule "1.IH" [OF refl refl _ _ _ k]) (use True step wait "1.prems"(1,4) in auto)
    then show ?thesis by simp
  next
    case False
    then have "processLoop f n waits = (n + 1, waits, f (n + 1))"
      by (subst processLoop.simps) (auto simp: Let_def)
    then show ?thesis using False "1.prems" by (auto simp: less_Suc_eq_le)
  qed
qed

text \<open>
  A topology request is processed at most five times, with waits of 2, 4, 8 and 16 seconds; the
  recorded result is the one of the last try, every earlier try failed with a retryable status, and
  the processing stops early only on success or on an error that is not retryable.
\<close>

theorem processRequestWithRetries_bounded:
  assumes "processRequestWithRetries f = (n, waits, res)"
  shows "1 \<le> n \<and> n \<le> 5 \<and> res = f n \<and> waits = map (\<lambda>k. 2000000000 * 2 ^ k) [0..<n - 1] \<and>
    (\<forall>k. 1 \<le> k \<and> k < n \<longrightarrow> (\<exists>e. f k = Inl e \<and> ShouldRetry (code e))) \<and>
    (n < 5 \<longrightarrow> (\<forall>e. f n = Inl e \<longrightarrow> \<not> ShouldRetry (code e)))"
  using processLoop_bounded [OF assms [unfolded processRequestWithRetries_def]]
  by (simp add: maxRetries_def defaultBackOff_def)

lemma mergeParams_get:
  "gm_get (mergeParams cfgParams params) k =
     (case gm_get params k of Some v \<Rightarrow> Some v | None \<Rightarrow> gm_get cfgParams k)"
  unfolding mergeParams_def
proof (induction cfgParams arbitrary: params)
  case Nil
  then show ?case by (simp split: option.splits)
next
  case (Cons x cfgParams)
  obtain k' v where x: "x = (k', v)" by (cases x)
  show ?case using Cons.IH by (auto simp: x split: option.splits)
qed

text \<open>
  C30. An accepted request names a registered provider and engine, those of the payload or, where it
  leaves them out, those of the configuration; and each parameter has the value of the payload or,
  where the payload does not set it, the value of the configuration.
\<close>

theorem readRequest_effective:
  assumes "readRequest cfg unmarshal r = Inr tr"
  shows "\<exists>tr0. rqMethod r = ''POST'' \<and>
    (pName (rProvider tr) = (if pName (rProvider tr0) = [] then cfgProvider cfg else pName (rProvider tr0))) \<and>
    (eName (rEngine tr) = (if eName (rEngine tr0) = [] then cfgEngine cfg else eName (rEngine tr0))) \<and>
    gm_get (cfgProviders cfg) (pName (rProvider tr)) \<noteq> None \<and> gm_get (cfgEngines cfg) (eName (rEngine tr)) \<noteq> None \<and>
    (\<forall>k. gm_get (pParams (rProvider tr)) k =
       (case gm_get (pParams (rProvider tr0)) k of Some v \<Rightarrow> Some v | None \<Rightarrow> gm_get (cfgProviderParams cfg) k)) \<and>
    (\<forall>k. gm_get (eParams (rEngine tr)) k =
       (case gm_get (eParams (rEngine tr0)) k of Some v \<Rightarrow> Some v | None \<Rightarrow> gm_get (cfgEngineParams cfg) k)) \<and>
    Creds (rProvider tr) = Creds (rProvider tr0) \<and> Nodes tr = Nodes tr0 \<and>
    (\<exists>body. rqBody r = Inr body \<and> GetTopologyRequest unmarshal body = Inr tr0)"
proof -
  from assms obtain body tr0 where 1: "rqMethod r = ''POST''" "rqBody r = Inr body"
    "GetTopologyRequest unmarshal body = Inr tr0" "validate cfg (withDefaults cfg tr0) = None" "tr = withDefaults cfg tr0"
    by (auto simp: readRequest_def Let_def split: if_splits sum.splits request_error.splits option.splits)
  then show ?thesis
    by (intro exI [of _ tr0]) (auto simp: withDefaults_def validate_def mergeParams_get split: if_splits)
qed

lemma hexn_nonempty: "hexn n \<noteq> []"
  by (subst hexn.simps) simp

lemma hashOf_nonempty: "hashOf marshal tr = Inr uid \<Longrightarrow> uid \<noteq> []"
  by (auto simp: hashOf_def requestHash_def GetHash_def hexn_nonempty split: sum.splits request_error.splits)

lemma readRequest_status: "readRequest cfg unmarshal r = Inl resp \<Longrightarrow> rsStatus resp \<noteq> StatusAccepted"
  by (auto simp: readRequest_def httpError_def Let_def split: if_splits sum.splits request_error.splits option.splits)

lemma HandleTestProviderRequest_status:
  "HandleTestProviderRequest decode tr = Some resp \<Longrightarrow> rsStatus resp \<noteq> StatusAccepted"
  by (auto simp: HandleTestProviderRequest_def httpError_def split: if_splits sum.splits)

text \<open>
  C24. What \<open>/v1/generate\<close> hands out can be used at once: when it answers 202 with an ID, a GET of
  \<open>/v1/topology\<close> with that ID and a POST of the same request to \<open>/v1/lookup\<close> both find the request and
  answer 202, in whatever state the queue was.
\<close>

theorem generate_then_lookup:
  assumes "reachable (hashOf (svMarshal sv)) q"
    and "generate sv r q = (q', \<lparr>rsStatus = StatusAccepted, rsBody = uid\<rparr>)"
  shows "snd (getresult \<lparr>rqMethod = ''GET'', rqBody = Inr [], rqUid = uid\<rparr> q') =
      \<lparr>rsStatus = StatusAccepted, rsBody = ''request ID '' @ uid @ '' has been created''\<rparr> \<and>
    snd (lookup sv r q') = \<lparr>rsStatus = StatusAccepted, rsBody = ''request ID '' @ uid @ '' has been created''\<rparr>"
proof -
  obtain tr where tr: "readRequest (svConfig sv) (svUnmarshal sv) r = Inr tr"
    "Submit (hashOf (svMarshal sv)) tr q = (q', Inr uid)"
    using assms(2) readRequest_status [of "svConfig sv" "svUnmarshal sv" r]
      HandleTestProviderRequest_status [of "svDecode sv"]
    by (fastforce simp: generate_def httpError_def split: sum.splits option.splits prod.splits)
  then have h: "hashOf (svMarshal sv) tr = Inr uid" by (auto simp: Submit_def Let_def split: sum.splits)
  have "fst (GetResult uid q') = accepted uid" using Submit_result [OF assms(1) tr(2)] by blast
  then have w: "snd (writeResultResponse uid q') =
      \<lparr>rsStatus = StatusAccepted, rsBody = ''request ID '' @ uid @ '' has been created''\<rparr>"
    by (cases "GetResult uid q'") (simp add: writeResultResponse_def accepted_def)
  then show ?thesis using tr(1) h hashOf_nonempty [OF h] by (simp add: getresult_def lookup_def)
qed

text \<open>A server with one provider and one engine, and a request to it.\<close>

definition demoServer :: "(string, unit) server" where
  "demoServer = \<lparr>svConfig = \<lparr>cfgProvider = ''p'', cfgEngine = ''e'', cfgProviderParams = [(''x'', ''1''), (''y'', ''2'')],
       cfgEngineParams = [], cfgPageSize = None, cfgCredentials = [],
       cfgProviders = [(''p'', \<lambda>_. Inl (NewError 400 []))], cfgEngines = [(''e'', \<lambda>_. Inl (NewError 400 []))]\<rparr>,
     svUnmarshal = (\<lambda>body. Inr (NewRequest \<lparr>pName = [], Creds = [], pParams = [(''x'', body)]\<rparr> \<lparr>eName = [], eParams = []\<rparr>)),
     svMarshal = (\<lambda>tr. Inr (concat (gm_vals (pParams (rProvider tr))))), svDecode = (\<lambda>m p. Inr p)\<rparr>"

definition demoPost :: httpRequest where
  "demoPost = \<lparr>rqMethod = ''POST'', rqBody = Inr ''7'', rqUid = []\<rparr>"

theorem readRequest_effective_witness:
  "\<exists>tr. readRequest (svConfig demoServer) (svUnmarshal demoServer) demoPost = Inr tr \<and>
     gm_get (pParams (rProvider tr)) ''x'' = Some ''7'' \<and> gm_get (pParams (rProvider tr)) ''y'' = Some ''2''"
proof -
  have e: "readRequest (svConfig demoServer) (svUnmarshal demoServer) demoPost =
      Inr (withDefaults (svConfig demoServer) (NewRequest \<lparr>pName = [], Creds = [], pParams = [(''x'', ''7'')]\<rparr> \<lparr>eName = [], eParams = []\<rparr>))"
    by (simp add: readRequest_def demoServer_def demoPost_def GetTopologyRequest_def validate_def withDefaults_def NewRequest_def)
  have u: "GetTopologyRequest (svUnmarshal demoServer) ''7'' =
      Inr (NewRequest \<lparr>pName = [], Creds = [], pParams = [(''x'', ''7'')]\<rparr> \<lparr>eName = [], eParams = []\<rparr>)"
    by (simp add: GetTopologyRequest_def demoServer_def)
  have b: "rqBody demoPost = Inr ''7''" by (simp add: demoPost_def)
  obtain tr where tr: "readRequest (svConfig demoServer) (svUnmarshal demoServer) demoPost = Inr tr" using e by blast
  obtain tr0 where "\<And>k. gm_get (pParams (rProvider tr)) k =
      (case gm_get (pParams (rProvider tr0)) k of Some v \<Rightarrow> Some v | None \<Rightarrow> gm_get (cfgProviderParams (svConfig demoServer)) k)"
    and "GetTopologyRequest (svUnmarshal demoServer) ''7'' = Inr tr0"
    using readRequest_effective [OF tr] b by fastforce
  then have "gm_get (pParams (rProvider tr)) ''x'' = Some ''7'' \<and> gm_get (pParams (rProvider tr)) ''y'' = Some ''2''"
    unfolding u by (auto simp: NewRequest_def demoServer_def)
  then show ?thesis using tr by blast
qed

lemma emptyQueue_any: "NewTrailingDelayQueue = Inr \<lparr>qEntries = [], qAlloc = [], qTimers = [],
     qStore = \<lparr>capacity = 100, entries = [], items = [], fresh = 0\<rparr>, qShutdown = False\<rparr>"
  by (simp add: NewTrailingDelayQueue_def newLRUCache_def RequestHistorySize_def)

theorem generate_then_lookup_witness:
  "\<exists>q' uid. generate demoServer demoPost \<lparr>qEntries = [], qAlloc = [], qTimers = [],
       qStore = \<lparr>capacity = 100, entries = [], items = [], fresh = 0\<rparr>, qShutdown = False\<rparr> =
     (q', \<lparr>rsStatus = StatusAccepted, rsBody = uid\<rparr>) \<and>
   rsStatus (snd (lookup demoServer demoPost q')) = StatusAccepted"
proof -
  let ?q = "\<lparr>qEntries = [], qAlloc = [], qTimers = [],
       qStore = \<lparr>capacity = 100, entries = [], items = [], fresh = 0\<rparr>, qShutdown = False\<rparr> :: string requestQueue"
  have r: "reachable (hashOf (svMarshal demoServer)) ?q" by (rule reachable.init [OF emptyQueue_any])
  have "\<exists>q' uid. generate demoServer demoPost ?q = (q', \<lparr>rsStatus = StatusAccepted, rsBody = uid\<rparr>)"
    by (simp add: generate_def readRequest_def demoServer_def demoPost_def GetTopologyRequest_def validate_def
      withDefaults_def NewRequest_def HandleTestProviderRequest_def Submit_def hashOf_def requestHash_def GetHash_def Let_def)
  then obtain q' uid where g: "generate demoServer demoPost ?q = (q', \<lparr>rsStatus = StatusAccepted, rsBody = uid\<rparr>)" by blast
  have "rsStatus (snd (lookup demoServer demoPost q')) = StatusAccepted" using generate_then_lookup [OF r g] by simp
  then show ?thesis using g by blast
qed

end
