(* ===== verification/TreeWalk.thy ===== *)
theory TreeWalk
  imports NetTopology "HOL-Library.Sublist"
begin

text \<open>
  Recursive walks over the switch hierarchy. Several engines descend from the root to the compute
  nodes and carry the switches above the current vertex with them. They share what is proved here:
  on a tree such a walk ends, and it meets exactly the chains that lead from a leaf to the root.

  A chain lists addresses from the current vertex up to the root; \<open>nxt\<close> gives the children of a
  vertex in the order of the walk.
\<close>

section \<open>Chains\<close>

fun isChain :: "(nat \<Rightarrow> nat list) \<Rightarrow> nat \<Rightarrow> nat list \<Rightarrow> bool" where
  "isChain nxt r [] \<longleftrightarrow> False"
| "isChain nxt r [a] \<longleftrightarrow> a = r"
| "isChain nxt r (a # b # p) \<longleftrightarrow> a \<in> set (nxt b) \<and> isChain nxt r (b # p)"

fun walkLeaves :: "(nat \<Rightarrow> nat list) \<Rightarrow> nat \<Rightarrow> nat list \<Rightarrow> nat list list option" where
  "walkLeaves nxt 0 p = None"
| "walkLeaves nxt (Suc n) p =
     (if nxt (hd p) = [] then Some [p]
      else map_option concat (those (map (\<lambda>c. walkLeaves nxt n (c # p)) (nxt (hd p)))))"

text \<open>The children of the vertices of a tree, in any order.\<close>

definition visits :: "(nat \<Rightarrow> nat list) \<Rightarrow> heap \<Rightarrow> nat list \<Rightarrow> bool" where
  "visits nxt h T \<longleftrightarrow> (\<forall>a \<in> set T. set (nxt a) = set (kids h a))"

lemma isChain_Cons: "p \<noteq> [] \<Longrightarrow> isChain nxt r (a # p) \<longleftrightarrow> a \<in> set (nxt (hd p)) \<and> isChain nxt r p"
  by (cases p) auto

lemma isChain_last: "isChain nxt r p \<Longrightarrow> p \<noteq> [] \<and> last p = r"
  by (induction nxt r p rule: isChain.induct) auto

lemma isChain_suffix: "isChain nxt r (s @ p) \<Longrightarrow> p \<noteq> [] \<Longrightarrow> isChain nxt r p"
  by (induction s) (auto simp: isChain_Cons)

lemma those_eq_Some: "those xs = Some ys \<longleftrightarrow> xs = map Some ys"
  by (induction xs arbitrary: ys) (auto split: option.splits)

lemma treeOrder_root: "treeOrder h r T \<Longrightarrow> r \<in> set T"
  unfolding treeOrder_def by (metis list.set_intros(1))

lemma treeOrder_kid: "treeOrder h r T \<Longrightarrow> a \<in> set T \<Longrightarrow> b \<in> set (kids h a) \<Longrightarrow> b \<in> set T"
proof -
  assume T: "treeOrder h r T" and "a \<in> set T" "b \<in> set (kids h a)"
  then have "b \<in> set (concat (map (kids h) T))" by auto
  then show "b \<in> set T" using T unfolding treeOrder_def by (metis list.set_intros(2))
qed

lemma treeOrder_distinct:
  assumes "treeOrder h r T"
  shows "distinct T" and "distinct (concat (map (kids h) T))" and "r \<notin> set (concat (map (kids h) T))"
proof -
  show d: "distinct T" using assms unfolding treeOrder_def by (metis distinct_map)
  have "distinct (r # concat (map (kids h) T))" using assms d unfolding treeOrder_def by metis
  then show "distinct (concat (map (kids h) T))" "r \<notin> set (concat (map (kids h) T))" by simp_all
qed

lemma treeOrder_parent:
  assumes T: "treeOrder h r T" and "a \<in> set T" "b \<in> set T" and "c \<in> set (kids h a)" "c \<in> set (kids h b)"
  shows "a = b"
  using concat_map_unique [OF treeOrder_distinct(2) [OF T]] assms treeOrder_distinct(1) [OF T] by blast

section \<open>Chains in a tree\<close>

lemma chain_in_tree:
  assumes "treeOrder h r T" and "visits nxt h T" and "isChain nxt r p"
  shows "set p \<subseteq> set T"
  using assms(3)
proof (induction p rule: induct_list012)
  case (2 a)
  then show ?case using treeOrder_root [OF assms(1)] by simp
next
  case (3 a b p)
  then have "set (b # p) \<subseteq> set T" "a \<in> set (nxt b)" by auto
  then have "a \<in> set T" using treeOrder_kid [OF assms(1)] assms(2) by (auto simp: visits_def)
  then show ?case using \<open>set (b # p) \<subseteq> set T\<close> by simp
qed simp

text \<open>Every vertex of a tree has one chain.\<close>

lemma chain_unique:
  assumes T: "treeOrder h r T" and v: "visits nxt h T"
  shows "isChain nxt r p \<Longrightarrow> isChain nxt r q \<Longrightarrow> hd p = hd q \<Longrightarrow> p = q"
proof (induction p arbitrary: q rule: induct_list012)
  case (2 a)
  show ?case
  proof (cases q rule: remdups_adj.cases)
    case (3 x y zs)
    then have "y \<in> set T" using chain_in_tree [OF T v 2(2)] by simp
    moreover have "r \<in> set (kids h y)" using 2 3 v \<open>y \<in> set T\<close> by (auto simp: visits_def)
    ultimately show ?thesis using treeOrder_distinct(3) [OF T] by auto
  qed (use 2 in auto)
next
  case (3 a b p)
  have in1: "b \<in> set T" "a \<in> set (kids h b)"
    using chain_in_tree [OF T v "3.prems"(1)] "3.prems"(1) v by (auto simp: visits_def)
  show ?case
  proof (cases q rule: remdups_adj.cases)
    case (2 x)
    then show ?thesis using in1 "3.prems" treeOrder_distinct(3) [OF T] by auto
  next
    case q: (3 x y zs)
    then have "y \<in> set T" "a \<in> set (kids h y)"
      using chain_in_tree [OF T v "3.prems"(2)] "3.prems" v by (auto simp: visits_def)
    then have "y = b" using treeOrder_parent [OF T _ in1(1) _ in1(2)] by blast
    then show ?thesis using "3.IH"(2) [of "y # zs"] "3.prems" q by simp
  qed (use "3.prems" in simp)
qed simp

lemma chain_distinct:
  assumes T: "treeOrder h r T" and v: "visits nxt h T"
  shows "isChain nxt r p \<Longrightarrow> distinct p"
proof (induction p)
  case (Cons a p)
  show ?case
  proof (cases "p = []")
    case False
    have p: "isChain nxt r p" using Cons.prems False by (simp add: isChain_Cons)
    have "a \<notin> set p"
    proof
      assume "a \<in> set p"
      then obtain s t where st: "p = s @ a # t" by (meson split_list)
      then have "isChain nxt r (a # t)" using p isChain_suffix by blast
      then have "a # p = a # t" using chain_unique [OF T v Cons.prems, of "a # t"] by simp
      then show False using st by simp
    qed
    then show ?thesis using Cons.IH [OF p] by simp
  qed simp
qed simp

lemma chain_length:
  assumes "treeOrder h r T" and "visits nxt h T" and "isChain nxt r p"
  shows "length p \<le> length T"
proof -
  have "length p = card (set p)" using chain_distinct [OF assms] by (simp add: distinct_card)
  also have "\<dots> \<le> card (set T)" using chain_in_tree [OF assms] by (intro card_mono) auto
  also have "\<dots> \<le> length T" by (rule card_length)
  finally show ?thesis .
qed

text \<open>With as much fuel as the tree has vertices the walk returns.\<close>

lemma walk_total:
  assumes T: "treeOrder h r T" and v: "visits nxt h T"
  shows "isChain nxt r p \<Longrightarrow> length T < length p + n \<Longrightarrow> \<exists>ps. walkLeaves nxt n p = Some ps"
proof (induction n arbitrary: p)
  case 0
  then show ?case using chain_length [OF T v 0(1)] by simp
next
  case (Suc n)
  have ne: "p \<noteq> []" using Suc.prems(1) by auto
  have "\<exists>ps. walkLeaves nxt n (c # p) = Some ps" if "c \<in> set (nxt (hd p))" for c
    using Suc.IH [of "c # p"] Suc.prems that ne by (simp add: isChain_Cons)
  then obtain f where "\<forall>c \<in> set (nxt (hd p)). walkLeaves nxt n (c # p) = Some (f c)" by metis
  then have "map (\<lambda>c. walkLeaves nxt n (c # p)) (nxt (hd p)) = map Some (map f (nxt (hd p)))" by simp
  then have "those (map (\<lambda>c. walkLeaves nxt n (c # p)) (nxt (hd p))) = Some (map f (nxt (hd p)))"
    by (simp only: those_eq_Some)
  then show ?case by simp
qed

text \<open>It meets exactly the chains of the leaves.\<close>

lemma walk_mem:
  "walkLeaves nxt n p = Some ps \<Longrightarrow> isChain nxt r p \<Longrightarrow>
     q \<in> set ps \<longleftrightarrow> isChain nxt r q \<and> nxt (hd q) = [] \<and> suffix p q"
proof (induction n arbitrary: p ps)
  case (Suc n)
  have ne: "p \<noteq> []" using Suc.prems(2) by auto
  have ext: "\<exists>c \<in> set (nxt (hd p)). suffix (c # p) q"
    if q: "isChain nxt r q" and sq: "suffix p q" and neq: "q \<noteq> p" for q
  proof -
    obtain s where s: "q = s @ p" using sq by (auto simp: suffix_def)
    then obtain s' c where c: "s = s' @ [c]" using neq by (cases s rule: rev_cases) auto
    then have "isChain nxt r (c # p)" using q s isChain_suffix [of nxt r s' "c # p"] by simp
    then show ?thesis using s c ne by (auto simp: isChain_Cons suffix_def)
  qed
  show ?case
  proof (cases "nxt (hd p) = []")
    case True
    then have "isChain nxt r q \<and> nxt (hd q) = [] \<and> suffix p q \<longleftrightarrow> q = p" using ext Suc.prems(2) by auto
    then show ?thesis using Suc.prems(1) True by auto
  next
    case False
    then obtain pss where pss: "map (\<lambda>c. walkLeaves nxt n (c # p)) (nxt (hd p)) = map Some pss" "ps = concat pss"
      using Suc.prems(1) by (auto simp: those_eq_Some)
    have IH: "q \<in> set qs \<longleftrightarrow> isChain nxt r q \<and> nxt (hd q) = [] \<and> suffix (c # p) q"
      if "c \<in> set (nxt (hd p))" "walkLeaves nxt n (c # p) = Some qs" for c qs
      using Suc.IH [OF that(2)] that(1) Suc.prems(2) ne by (simp add: isChain_Cons)
    have img: "Some ` set pss = (\<lambda>c. walkLeaves nxt n (c # p)) ` set (nxt (hd p))"
      using arg_cong [OF pss(1), of set] by simp
    have "q \<in> set ps \<longleftrightarrow> (\<exists>c \<in> set (nxt (hd p)). \<exists>qs. walkLeaves nxt n (c # p) = Some qs \<and> q \<in> set qs)"
    proof -
      have "qs \<in> set pss \<longleftrightarrow> (\<exists>c \<in> set (nxt (hd p)). walkLeaves nxt n (c # p) = Some qs)" for qs
        using img by (metis (no_types, lifting) image_iff option.inject)
      then show ?thesis unfolding pss(2) set_concat by blast
    qed
    moreover have "\<exists>qs. walkLeaves nxt n (c # p) = Some qs" if "c \<in> set (nxt (hd p))" for c
    proof -
      have "walkLeaves nxt n (c # p) \<in> Some ` set pss" unfolding img using that by blast
      then show ?thesis by auto
    qed
    moreover have "suffix p q" if "suffix (c # p) q" for c using that by (metis suffix_ConsD)
    ultimately have "q \<in> set ps \<longleftrightarrow> isChain nxt r q \<and> nxt (hd q) = [] \<and> (\<exists>c \<in> set (nxt (hd p)). suffix (c # p) q)"
      using IH by blast
    also have "\<dots> \<longleftrightarrow> isChain nxt r q \<and> nxt (hd q) = [] \<and> suffix p q"
      using ext suffix_ConsD False by metis
    finally show ?thesis .
  qed
qed simp

text \<open>The order of the children does not matter for the chains.\<close>

lemma chain_order:
  assumes T: "treeOrder h r T" and v: "visits nxt h T"
  shows "isChain nxt r p \<longleftrightarrow> isChain (kids h) r p"
proof (induction p rule: induct_list012)
  case (3 a b p)
  have k: "visits (kids h) h T" by (simp add: visits_def)
  have "b \<in> set T" if "isChain (kids h) r (b # p)" using chain_in_tree [OF T k that] by simp
  then show ?case using 3 v by (auto simp: visits_def)
qed simp_all

lemma visits_sortedKids:
  assumes "treeOrder h r T" and "heapWf h"
  shows "visits (sortedKids h) h T"
  unfolding visits_def
proof
  fix a assume "a \<in> set T"
  then have "mset (sortedKids h a) = mset (kids h a)"
    using assms by (intro mset_sortedKids) (auto simp: treeOrder_def)
  then show "set (sortedKids h a) = set (kids h a)" by (metis set_mset_mset)
qed

section \<open>An example\<close>

text \<open>Two nodes below two switches; the first node is in an accelerator domain.\<close>

definition labelHeap :: heap where
  "labelHeap = [\<lparr>vName = [], vID = [], Vertices = [(''s2'', Some 1)]\<rparr>,
     \<lparr>vName = [], vID = ''s2'', Vertices = [(''s1'', Some 2)]\<rparr>,
     \<lparr>vName = [], vID = ''s1'', Vertices = [(''i1'', Some 3), (''i2'', Some 4)]\<rparr>,
     \<lparr>vName = ''n1'', vID = ''i1'', Vertices = []\<rparr>, \<lparr>vName = ''n2'', vID = ''i2'', Vertices = []\<rparr>]"

definition labelGraph :: Graph where
  "labelGraph = \<lparr>Tiers = Some 0, gDomains = Some (AddHost ''nvl'' ''i1'' ''n1'' []), gInstances = []\<rparr>"

lemma labelHeap_tree: "\<exists>T. treeOrder labelHeap 0 T"
proof -
  have "\<not> isl (initTree labelHeap (Some labelGraph) (newTopology demoConfig))" by code_simp
  then obtain nt where "initTree labelHeap (Some labelGraph) (newTopology demoConfig) = Inr nt"
    by (cases "initTree labelHeap (Some labelGraph) (newTopology demoConfig)") auto
  then show ?thesis
    using initTree_loop [of labelGraph 0 labelHeap demoConfig nt] by (auto simp: labelGraph_def labelHeap_def)
qed

end
