(* ===== verification/KubeNodes.thy ===== *)
theory KubeNodes
  imports Request GoText
begin

text \<open>
  Component \<open>internal/k8s\<close>: the identity of Kubernetes nodes. A request may name a label or an
  annotation as the source of a node's instance ID and region; \<open>resolveNodeMetadata\<close> projects those
  sources onto the canonical annotations of a private copy of the node list, and
  \<open>GetComputeInstances\<close> groups the nodes by region.

  A node is reduced to its name, labels and annotations. The Kubernetes API is outside the model: the
  list a call returns is an argument, and so is \<open>validation.IsQualifiedName\<close>, which lists what is
  wrong with a key. A nil label or annotation map is the empty map.
\<close>

section \<open>Model\<close>

record KNode =
  kName :: string
  kLabels :: "(string, string) gomap"
  kAnnotations :: "(string, string) gomap"

definition KeyNodeInstance :: string where
  "KeyNodeInstance = ''topograph.run/instance''"

definition KeyNodeRegion :: string where
  "KeyNodeRegion = ''topograph.run/region''"

record WatchedNode = KNode +
  deleted :: bool
  nodeConditions :: "(string \<times> string) list"

record MetadataSource =
  srcType :: string
  srcKey :: string

record NodeMetadata =
  nmInstanceID :: "MetadataSource option"
  nmRegion :: "MetadataSource option"

datatype meta_error =
  SourceRequired string
| BadSourceType string
| BadSourceKey string string "string list"
| BadLabelKey string string "string list"
| ListNodes string

subsection \<open>node_metadata.go\<close>

definition validateField ::
  "(string \<Rightarrow> string list) \<Rightarrow> string \<times> MetadataSource option \<Rightarrow> meta_error option" where
  "validateField isQualifiedName = (\<lambda>(name, source).
     case source of
       None \<Rightarrow> Some (SourceRequired name)
     | Some s \<Rightarrow>
         if srcType s \<noteq> ''label'' \<and> srcType s \<noteq> ''annotation'' then Some (BadSourceType name)
         else if isQualifiedName (srcKey s) \<noteq> []
         then Some (BadSourceKey name (srcKey s) (isQualifiedName (srcKey s)))
         else None)"

definition ValidateMetadata :: "(string \<Rightarrow> string list) \<Rightarrow> NodeMetadata option \<Rightarrow> meta_error option" where
  "ValidateMetadata isQualifiedName m =
     (case m of
        None \<Rightarrow> None
      | Some md \<Rightarrow>
          (case validateField isQualifiedName (''instanceID'', nmInstanceID md) of
             Some err \<Rightarrow> Some err
           | None \<Rightarrow> validateField isQualifiedName (''region'', nmRegion md)))"

text \<open>The value under the context key; a nil configuration leaves the context as it is.\<close>

definition WithNodeMetadata :: "NodeMetadata option \<Rightarrow> NodeMetadata option \<Rightarrow> NodeMetadata option" where
  "WithNodeMetadata ctx metadata = (case metadata of None \<Rightarrow> ctx | Some md \<Rightarrow> Some md)"

definition strAt :: "(string, string) gomap \<Rightarrow> string \<Rightarrow> string" where
  "strAt m k = (case gm_get m k of Some v \<Rightarrow> v | None \<Rightarrow> [])"

definition metadataValue :: "'a KNode_scheme \<Rightarrow> MetadataSource option \<Rightarrow> string" where
  "metadataValue node source =
     (case source of
        None \<Rightarrow> []
      | Some s \<Rightarrow>
          if srcType s = ''label'' then TrimSpace (strAt (kLabels node) (srcKey s))
          else TrimSpace (strAt (kAnnotations node) (srcKey s)))"

definition projectField ::
  "MetadataSource option \<times> string \<times> string \<Rightarrow> (string, string) gomap \<Rightarrow> (string, string) gomap" where
  "projectField = (\<lambda>(source, key, val) annotations.
     if source = None then annotations
     else if val = [] then gm_del key annotations
     else gm_put key val annotations)"

definition resolveNode :: "NodeMetadata \<Rightarrow> 'a KNode_scheme \<Rightarrow> 'a KNode_scheme" where
  "resolveNode metadata node =
     (let instance' = metadataValue node (nmInstanceID metadata);
          region = metadataValue node (nmRegion metadata)
      in node\<lparr>kAnnotations :=
           fold projectField
             [(nmInstanceID metadata, KeyNodeInstance, instance'), (nmRegion metadata, KeyNodeRegion, region)]
             (kAnnotations node)\<rparr>)"

definition resolveNodeMetadata :: "NodeMetadata option \<Rightarrow> 'a KNode_scheme list \<Rightarrow> 'a KNode_scheme list" where
  "resolveNodeMetadata ctx nodes =
     (case ctx of None \<Rightarrow> nodes | Some metadata \<Rightarrow> map (resolveNode metadata) nodes)"

subsection \<open>utils.go\<close>

definition GetNodes :: "NodeMetadata option \<Rightarrow> string + 'a KNode_scheme list \<Rightarrow> meta_error + 'a KNode_scheme list" where
  "GetNodes ctx listed =
     (case listed of
        Inl err \<Rightarrow> Inl (ListNodes err)
      | Inr nodes \<Rightarrow> Inr (resolveNodeMetadata ctx nodes))"

record Pod =
  podName :: string
  podNamespace :: string
  podLabels :: "(string, string) gomap"
  podHostname :: string
  podNodeName :: string
  podPhase :: string
  podConditions :: "(string \<times> string) list"

definition IsPodReady :: "'a Pod_scheme \<Rightarrow> bool" where
  "IsPodReady pod \<longleftrightarrow> (''Ready'', ''True'') \<in> set (podConditions pod)"

definition ValidateLabelKey :: "(string \<Rightarrow> string list) \<Rightarrow> string \<Rightarrow> string \<Rightarrow> meta_error option" where
  "ValidateLabelKey isQualifiedName location key =
     (if isQualifiedName key \<noteq> [] then Some (BadLabelKey location key (isQualifiedName key)) else None)"

record regionState =
  rsRegions :: "(string, (string, string) gomap) gomap"
  rsNames :: "string list"

definition regionAt :: "regionState \<Rightarrow> string \<Rightarrow> (string, string) gomap" where
  "regionAt st region = (case gm_get (rsRegions st) region of Some m \<Rightarrow> m | None \<Rightarrow> [])"

definition addNode :: "KNode \<Rightarrow> regionState \<Rightarrow> regionState" where
  "addNode node st =
     (case gm_get (kAnnotations node) KeyNodeInstance of
        None \<Rightarrow> st
      | Some instance' \<Rightarrow>
          (case gm_get (kAnnotations node) KeyNodeRegion of
             None \<Rightarrow> st
           | Some region \<Rightarrow>
               \<lparr>rsRegions = gm_put region (gm_put instance' (kName node) (regionAt st region)) (rsRegions st),
                rsNames = (if gm_get (rsRegions st) region = None then rsNames st @ [region] else rsNames st)\<rparr>))"

definition GetComputeInstances :: "KNode list \<Rightarrow> ComputeInstances list" where
  "GetComputeInstances nodes =
     (let st = fold addNode nodes \<lparr>rsRegions = [], rsNames = []\<rparr>
      in map (\<lambda>region. \<lparr>Region = region, Instances = regionAt st region\<rparr>) (rsNames st))"

subsection \<open>Calls that change the cluster\<close>

text \<open>
  A loop whose body changes the state and may return an error: the changes made before the error
  stay.
\<close>

fun forEach :: "('a \<Rightarrow> 's \<Rightarrow> 'e option \<times> 's) \<Rightarrow> 'a list \<Rightarrow> 's \<Rightarrow> 'e option \<times> 's" where
  "forEach f [] s = (None, s)"
| "forEach f (x # xs) s = (case f x s of (Some err, s') \<Rightarrow> (Some err, s') | (None, s') \<Rightarrow> forEach f xs s')"

text \<open>The documents the engines send; a marshalled value is identified with the document.\<close>

datatype json = JNull | JString string | JObject "(string \<times> json) list"

section \<open>Identity sources\<close>

lemma keys_differ [simp]: "KeyNodeInstance \<noteq> KeyNodeRegion" "KeyNodeRegion \<noteq> KeyNodeInstance"
  by (simp_all add: KeyNodeInstance_def KeyNodeRegion_def)

lemma get_projectField:
  "gm_get (projectField (source, key, val) m) k =
     (if k = key \<and> source \<noteq> None then (if val = [] then None else Some val) else gm_get m k)"
  by (auto simp: projectField_def)

lemma resolveNode_annotation:
  "gm_get (kAnnotations (resolveNode md node)) k =
     (if k = KeyNodeInstance \<and> nmInstanceID md \<noteq> None then
        (if metadataValue node (nmInstanceID md) = [] then None else Some (metadataValue node (nmInstanceID md)))
      else if k = KeyNodeRegion \<and> nmRegion md \<noteq> None then
        (if metadataValue node (nmRegion md) = [] then None else Some (metadataValue node (nmRegion md)))
      else gm_get (kAnnotations node) k)"
  by (auto simp: resolveNode_def Let_def get_projectField simp del: gm_get_simps)

lemma resolveNode_simps [simp]:
  "kName (resolveNode md node) = kName node" "kLabels (resolveNode md node) = kLabels node"
  by (simp_all add: resolveNode_def Let_def)

section \<open>Grouping by region\<close>

text \<open>The identity a node is listed under: region and instance ID.\<close>

definition identity :: "KNode \<Rightarrow> (string \<times> string) option" where
  "identity node =
     (case (gm_get (kAnnotations node) KeyNodeRegion, gm_get (kAnnotations node) KeyNodeInstance) of
        (Some region, Some instance') \<Rightarrow> Some (region, instance')
      | _ \<Rightarrow> None)"

text \<open>What a list of compute instances says about an instance of a region.\<close>

definition nodeOf :: "ComputeInstances list \<Rightarrow> string \<Rightarrow> string \<Rightarrow> string option" where
  "nodeOf cis region instance' =
     (case find (\<lambda>ci. Region ci = region) cis of
        None \<Rightarrow> None
      | Some ci \<Rightarrow> gm_get (Instances ci) instance')"

definition regionsOk :: "regionState \<Rightarrow> bool" where
  "regionsOk st \<longleftrightarrow> distinct (rsNames st) \<and> set (rsNames st) = set (gm_keys (rsRegions st)) \<and>
     (\<forall>(r, m) \<in> set (rsRegions st). gm_wf m)"

lemma addNode_identity:
  "addNode node st =
     (case identity node of
        None \<Rightarrow> st
      | Some (region, instance') \<Rightarrow>
          \<lparr>rsRegions = gm_put region (gm_put instance' (kName node) (regionAt st region)) (rsRegions st),
           rsNames = (if gm_get (rsRegions st) region = None then rsNames st @ [region] else rsNames st)\<rparr>)"
  by (auto simp: addNode_def identity_def split: option.splits)

lemma set_gm_keys_put: "set (gm_keys (gm_put k v m)) = insert k (set (gm_keys m))"
  by (simp add: dom_update)

lemma gm_put_vals:
  "(k', v') \<in> set (gm_put k v m) \<Longrightarrow> (k', v') = (k, v) \<or> (k', v') \<in> set m"
  by (induction m) (auto split: if_splits)

lemma addNode_regions_ok: "regionsOk st \<Longrightarrow> regionsOk (addNode node st)"
proof -
  assume ok: "regionsOk st"
  have wf: "gm_wf (regionAt st r)" for r
    using ok by (auto simp: regionsOk_def regionAt_def split: option.splits dest: map_of_SomeD)
  show ?thesis
  proof (cases "identity node")
    case (Some ri)
    obtain r i where ri: "ri = (r, i)" by (cases ri)
    have "r \<in> set (rsNames st) \<longleftrightarrow> gm_get (rsRegions st) r \<noteq> None"
      using ok by (auto simp: regionsOk_def map_of_eq_None_iff)
    then show ?thesis
      using ok wf [of r] Some ri
      by (auto simp: regionsOk_def addNode_identity set_gm_keys_put
          simp del: set_map dest!: gm_put_vals intro: gm_wf_put)
  qed (simp add: addNode_identity ok)
qed

lemma addNode_at:
  "gm_get (regionAt (addNode node st) r) i =
     (if identity node = Some (r, i) then Some (kName node) else gm_get (regionAt st r) i)"
  by (auto simp: addNode_identity regionAt_def split: option.splits)

lemma find_append: "find P (xs @ ys) = (case find P xs of None \<Rightarrow> find P ys | Some x \<Rightarrow> Some x)"
  by (induction xs) auto

lemma fold_addNode:
  "regionsOk st \<Longrightarrow> regionsOk (fold addNode nodes st) \<and>
     gm_get (regionAt (fold addNode nodes st) r) i =
       (case find (\<lambda>n. identity n = Some (r, i)) (rev nodes) of
          Some n \<Rightarrow> Some (kName n) | None \<Rightarrow> gm_get (regionAt st r) i)"
proof (induction nodes arbitrary: st)
  case (Cons n nodes)
  then show ?case
    using Cons.IH [OF addNode_regions_ok [OF Cons.prems, of n]]
    by (auto simp: find_append addNode_at split: option.splits)
qed simp

lemma find_regions:
  "find (\<lambda>ci. Region ci = r) (map (\<lambda>region. \<lparr>Region = region, Instances = f region\<rparr>) rs) =
     (if r \<in> set rs then Some \<lparr>Region = r, Instances = f r\<rparr> else None)"
  by (induction rs) auto

lemma GetComputeInstances_lookup:
  "nodeOf (GetComputeInstances nodes) r i =
     map_option kName (find (\<lambda>n. identity n = Some (r, i)) (rev nodes))"
proof -
  let ?st = "fold addNode nodes \<lparr>rsRegions = [], rsNames = []\<rparr>"
  have ok: "regionsOk ?st" and get: "gm_get (regionAt ?st r) i =
      map_option kName (find (\<lambda>n. identity n = Some (r, i)) (rev nodes))"
    using fold_addNode [of "\<lparr>rsRegions = [], rsNames = []\<rparr>" nodes r i]
    by (simp_all add: regionsOk_def regionAt_def option.case_eq_if map_option_case)
  have "gm_get (regionAt ?st r) i = None" if "r \<notin> set (rsNames ?st)"
    using that ok by (auto simp: regionsOk_def regionAt_def map_of_eq_None_iff split: option.splits)
      (metis fst_conv image_eqI map_of_SomeD)
  then show ?thesis
    unfolding get [symmetric] nodeOf_def GetComputeInstances_def Let_def find_regions by simp
qed

lemma GetComputeInstances_regions: "distinct (map Region (GetComputeInstances nodes))"
  using fold_addNode [of "\<lparr>rsRegions = [], rsNames = []\<rparr>" nodes]
  by (simp add: GetComputeInstances_def Let_def comp_def regionsOk_def)

end
