(* ===== verification/Labeler.thy ===== *)
theory Labeler
  imports TreeWalk KubeNodes
begin

text \<open>
  Component \<open>pkg/engines/k8s/labeler.go\<close>: the translation of a topology graph into Kubernetes node
  labels, shared by the engines that write labels. Accelerator domains become a domain and a
  sub-domain label, the switches above a node become one label per tier, closest first.

  The hierarchy lives in the heap of \<open>Topology\<close>; \<open>getTierLabels\<close> descends it recursively without a
  visited set, so it has a depth bound and \<open>None\<close> means that the bound was too small. The label cache
  \<open>mapper\<close> is part of the state. A pointer to a nil vertex makes the code panic, which is an error
  value here.
\<close>

section \<open>Model\<close>

subsection \<open>Label keys\<close>

record TopologyLabelKeys =
  Fabric :: "string list"
  XclrDomain :: string
  XclrSubDomain :: string

datatype lerror =
  MultipleAccelerator string string string
| InstanceIDMismatch string string
| InvalidKey meta_error
| DuplicateKey string string string
| LabelPanic go_panic

definition NewTopologyLabelKeys :: "string list \<Rightarrow> string \<Rightarrow> TopologyLabelKeys" where
  "NewTopologyLabelKeys fabric xclrDomain =
     \<lparr>Fabric = fabric, XclrDomain = (if xclrDomain = [] then KeyTopologyXclrDomain else xclrDomain),
      XclrSubDomain = KeyTopologyXclrSubDomain\<rparr>"

definition validateKey ::
  "(string \<Rightarrow> string list) \<Rightarrow> string \<times> string \<Rightarrow> (string, string) gomap \<Rightarrow> lerror + (string, string) gomap" where
  "validateKey isQualifiedName = (\<lambda>(location, key) seen.
     case ValidateLabelKey isQualifiedName location key of
       Some err \<Rightarrow> Inl (InvalidKey err)
     | None \<Rightarrow>
         (case gm_get seen key of
            Some previous \<Rightarrow> Inl (DuplicateKey key previous location)
          | None \<Rightarrow> Inr (gm_put key location seen)))"

definition keyLocations :: "TopologyLabelKeys \<Rightarrow> (string \<times> string) list" where
  "keyLocations keys =
     map (\<lambda>(tier, key). (''fabricLabels['' @ itoa tier @ '']'', key)) (enumerate 0 (Fabric keys)) @
     [(''acceleratorLabel'', XclrDomain keys), (''xclrSubDomainLabel'', XclrSubDomain keys)]"

definition ValidateKeys :: "(string \<Rightarrow> string list) \<Rightarrow> TopologyLabelKeys \<Rightarrow> lerror option" where
  "ValidateKeys isQualifiedName keys =
     (case foldE (validateKey isQualifiedName) (keyLocations keys) [] of Inl err \<Rightarrow> Some err | Inr _ \<Rightarrow> None)"

definition FabricKey :: "TopologyLabelKeys \<Rightarrow> nat \<Rightarrow> string" where
  "FabricKey keys tier =
     (if Fabric keys = [] then FabricTierKey tier
      else if tier < length (Fabric keys) then Fabric keys ! tier
      else [])"

subsection \<open>Labels\<close>

type_synonym labelMap = "(string, string) gomap"
type_synonym NodeLabelMap = "(string, labelMap) gomap"

record topologyLabeler =
  mapper :: "(string, string) gomap"
  nodeMap :: NodeLabelMap

definition checkLabel :: "string \<Rightarrow> (string, string) gomap \<Rightarrow> string \<times> (string, string) gomap" where
  "checkLabel val mp =
     (case gm_get mp val of
        Some v \<Rightarrow> (v, mp)
      | None \<Rightarrow>
          (let v = (if length val \<le> 63 then val else ''x'' @ hexn (unat (fnv64a val)))
           in (v, gm_put val v mp)))"

definition labelsFor :: "NodeLabelMap \<Rightarrow> string \<Rightarrow> labelMap" where
  "labelsFor nm nodeName = (case gm_get nm nodeName of Some labels \<Rightarrow> labels | None \<Rightarrow> [])"

definition ensureNode :: "string \<Rightarrow> topologyLabeler \<Rightarrow> topologyLabeler" where
  "ensureNode nodeName st =
     st\<lparr>nodeMap := (case gm_get (nodeMap st) nodeName of
          Some _ \<Rightarrow> nodeMap st
        | None \<Rightarrow> gm_put nodeName [] (nodeMap st))\<rparr>"

definition storeLabel :: "string \<Rightarrow> string \<Rightarrow> string \<Rightarrow> topologyLabeler \<Rightarrow> topologyLabeler" where
  "storeLabel nodeName key val st =
     (let (v, mp) = checkLabel val (mapper st)
      in \<lparr>mapper = mp,
          nodeMap = gm_put nodeName (gm_put key v (labelsFor (nodeMap st) nodeName)) (nodeMap st)\<rparr>)"

definition domainHost ::
  "TopologyLabelKeys \<Rightarrow> string \<Rightarrow> string \<times> HostInfo \<Rightarrow> topologyLabeler \<Rightarrow> lerror + topologyLabeler" where
  "domainHost keys domainName = (\<lambda>(nodeName, hostInfo) st.
     if nodeName = [] then Inr st
     else
       (let st1 = ensureNode nodeName st
        in case gm_get (labelsFor (nodeMap st1) nodeName) (XclrDomain keys) of
             Some val \<Rightarrow> Inl (MultipleAccelerator val domainName nodeName)
           | None \<Rightarrow>
               (let st2 = storeLabel nodeName (XclrDomain keys) domainName st1
                in Inr (if SubDomain hostInfo \<noteq> []
                        then storeLabel nodeName (XclrSubDomain keys) (SubDomain hostInfo) st2 else st2))))"

definition getDomainLabels ::
  "TopologyLabelKeys \<Rightarrow> DomainMap \<Rightarrow> topologyLabeler \<Rightarrow> lerror + topologyLabeler" where
  "getDomainLabels keys domains =
     foldE (\<lambda>(domainName, domain). foldE (domainHost keys domainName) domain) domains"

fun tierLoop ::
  "TopologyLabelKeys \<Rightarrow> string \<Rightarrow> nat \<Rightarrow> string list \<Rightarrow> topologyLabeler \<Rightarrow> topologyLabeler" where
  "tierLoop keys nodeName i [] st = st"
| "tierLoop keys nodeName i (sw # sws) st =
     (if sw = [] \<or> FabricKey keys i = [] then st
      else tierLoop keys nodeName (i + 1) sws (storeLabel nodeName (FabricKey keys i) sw st))"

definition labelLeaf ::
  "TopologyLabelKeys \<Rightarrow> Vertex \<Rightarrow> string list \<Rightarrow> topologyLabeler \<Rightarrow> lerror + topologyLabeler" where
  "labelLeaf keys v layers st =
     (case layers of
        [] \<Rightarrow> Inr st
      | layer # sws \<Rightarrow>
          if vID v \<noteq> layer then Inl (InstanceIDMismatch (vID v) layer)
          else if vName v = [] then Inr st
          else Inr (tierLoop keys (vName v) 0 sws (ensureNode (vName v) st)))"

fun getTierLabels ::
  "nat \<Rightarrow> heap \<Rightarrow> TopologyLabelKeys \<Rightarrow> nat \<Rightarrow> string list \<Rightarrow> topologyLabeler \<Rightarrow> (lerror + topologyLabeler) option"
  and getTierKids ::
  "nat \<Rightarrow> heap \<Rightarrow> TopologyLabelKeys \<Rightarrow> (string \<times> nat option) list \<Rightarrow> string list \<Rightarrow> topologyLabeler
     \<Rightarrow> (lerror + topologyLabeler) option" where
  "getTierLabels 0 h keys a layers st = None"
| "getTierLabels (Suc n) h keys a layers st =
     (if Vertices (h ! a) = [] then Some (labelLeaf keys (h ! a) layers st)
      else getTierKids n h keys (Vertices (h ! a)) layers st)"
| "getTierKids n h keys [] layers st = Some (Inr st)"
| "getTierKids n h keys ((k, w) # rest) layers st =
     (case w of
        None \<Rightarrow> Some (Inl (LabelPanic NilDereference))
      | Some c \<Rightarrow>
          if \<not> c < length h then Some (Inl (LabelPanic NilDereference))
          else
            (case getTierLabels n h keys c (vID (h ! c) # layers) st of
               None \<Rightarrow> None
             | Some (Inl err) \<Rightarrow> Some (Inl err)
             | Some (Inr st') \<Rightarrow> getTierKids n h keys rest layers st'))"

definition NewTopologyLabeler :: topologyLabeler where
  "NewTopologyLabeler = \<lparr>mapper = [], nodeMap = []\<rparr>"

definition rootLayers :: "Vertex \<Rightarrow> string list" where
  "rootLayers treeRoot = (if vID treeRoot \<noteq> [] then [vID treeRoot] else [])"

text \<open>The labels of a call are the field \<open>nodeMap\<close> of the result; the cache outlives the call.\<close>

definition BuildNodeLabels ::
  "heap \<Rightarrow> TopologyLabelKeys \<Rightarrow> Graph option \<Rightarrow> topologyLabeler \<Rightarrow> (lerror + topologyLabeler) option" where
  "BuildNodeLabels h keys graph l =
     (let st = l\<lparr>nodeMap := []\<rparr>
      in case graph of
           None \<Rightarrow> Some (Inr st)
         | Some g \<Rightarrow>
             (case (case gDomains g of None \<Rightarrow> Inr st | Some domains \<Rightarrow> getDomainLabels keys domains st) of
                Inl err \<Rightarrow> Some (Inl err)
              | Inr st1 \<Rightarrow>
                  (case Tiers g of
                     None \<Rightarrow> Some (Inr st1)
                   | Some root \<Rightarrow> getTierLabels (length h) h keys root (rootLayers (h ! root)) st1)))"

definition ApplyNodeLabels ::
  "heap \<Rightarrow> TopologyLabelKeys \<Rightarrow> Graph option \<Rightarrow> (string \<Rightarrow> labelMap \<Rightarrow> 's \<Rightarrow> lerror + 's) \<Rightarrow> topologyLabeler \<Rightarrow> 's
     \<Rightarrow> (lerror + 's) option" where
  "ApplyNodeLabels h keys graph addNodeLabels l s =
     (case BuildNodeLabels h keys graph l of
        None \<Rightarrow> None
      | Some (Inl err) \<Rightarrow> Some (Inl err)
      | Some (Inr st) \<Rightarrow> Some (foldE (\<lambda>(nodeName, labels). addNodeLabels nodeName labels) (nodeMap st) s))"

section \<open>Label values\<close>

text \<open>The value written for an ID, without the cache.\<close>

definition labelValue :: "string \<Rightarrow> string" where
  "labelValue val = (if length val \<le> 63 then val else ''x'' @ hexn (unat (fnv64a val)))"

definition mapperOk :: "(string, string) gomap \<Rightarrow> bool" where
  "mapperOk mp \<longleftrightarrow> (\<forall>(val, v) \<in> set mp. v = labelValue val)"

lemma checkLabel_value: "mapperOk mp \<Longrightarrow> fst (checkLabel val mp) = labelValue val"
  by (auto simp: checkLabel_def labelValue_def mapperOk_def Let_def split: option.splits dest!: map_of_SomeD)

lemma checkLabel_ok: "mapperOk mp \<Longrightarrow> mapperOk (snd (checkLabel val mp))"
  by (auto simp: checkLabel_def labelValue_def mapperOk_def Let_def split: option.splits dest!: gm_put_vals)

lemma length_hexn: "n < 16 ^ k \<Longrightarrow> 0 < k \<Longrightarrow> length (hexn n) \<le> k"
proof (induction n arbitrary: k rule: hexn.induct)
  case (1 n)
  show ?case
  proof (cases "n < 16")
    case True
    then show ?thesis using 1(3) by (simp add: hexn.simps [of n])
  next
    case False
    then obtain j where j: "k = Suc j" "0 < j" using 1(2,3) by (cases k; cases "k - 1") auto
    have "n div 16 < 16 ^ j" using 1(2) j(1) by (simp add: less_mult_imp_div_less mult.commute)
    then show ?thesis using 1(1) [OF False] j False by (simp add: hexn.simps [of n])
  qed
qed

lemma labelValue_length: "length (labelValue val) \<le> 63"
proof -
  have "unat (fnv64a val) < 2 ^ LENGTH(64)" by (rule unsigned_less)
  then have "unat (fnv64a val) < 16 ^ 16" by simp
  then have "length (hexn (unat (fnv64a val))) \<le> 16" by (intro length_hexn) simp_all
  then show ?thesis by (simp add: labelValue_def)
qed

section \<open>Reading labels\<close>

definition labelOf :: "NodeLabelMap \<Rightarrow> string \<Rightarrow> string \<Rightarrow> string option" where
  "labelOf nm nodeName key = gm_get (labelsFor nm nodeName) key"

lemma labelOf_ensure [simp]: "labelOf (nodeMap (ensureNode m st)) n k = labelOf (nodeMap st) n k"
  by (auto simp: labelOf_def ensureNode_def labelsFor_def split: option.splits)

lemma mapper_ensure [simp]: "mapper (ensureNode m st) = mapper st"
  by (simp add: ensureNode_def)

lemma labelOf_store:
  "mapperOk (mapper st) \<Longrightarrow> labelOf (nodeMap (storeLabel m key val st)) n k =
     (if n = m \<and> k = key then Some (labelValue val) else labelOf (nodeMap st) n k)"
  by (auto simp: labelOf_def storeLabel_def labelsFor_def checkLabel_value [symmetric] split: prod.splits)

lemma mapper_store: "mapperOk (mapper st) \<Longrightarrow> mapperOk (mapper (storeLabel m key val st))"
  using checkLabel_ok [of "mapper st" val] by (auto simp: storeLabel_def split: prod.splits)

section \<open>Accelerator labels\<close>

text \<open>The hosts of all domains, in the order of the two loops.\<close>

definition domainHosts :: "DomainMap \<Rightarrow> (string \<times> string \<times> HostInfo) list" where
  "domainHosts domains = concat (map (\<lambda>(d, hosts). map (Pair d) hosts) domains)"

definition hostStep :: "TopologyLabelKeys \<Rightarrow> string \<times> string \<times> HostInfo \<Rightarrow> topologyLabeler \<Rightarrow> lerror + topologyLabeler" where
  "hostStep keys = (\<lambda>(d, host). domainHost keys d host)"

lemma getDomainLabels_hosts: "getDomainLabels keys domains st = foldE (hostStep keys) (domainHosts domains) st"
proof -
  have "getDomainLabels keys domains st =
      foldE (\<lambda>x. foldE (hostStep keys) (case x of (d, hosts) \<Rightarrow> map (Pair d) hosts)) domains st"
    unfolding getDomainLabels_def
    by (intro arg_cong [where f = "\<lambda>f. foldE f domains st"] ext)
      (auto simp: foldE_map hostStep_def comp_def split: prod.splits)
  then show ?thesis unfolding foldE_concat domainHosts_def .
qed

text \<open>The names that a list of hosts labels.\<close>

definition hostNames :: "(string \<times> string \<times> HostInfo) list \<Rightarrow> string list" where
  "hostNames hosts = filter (\<lambda>n. n \<noteq> []) (map (fst \<circ> snd) hosts)"

definition hostLabelled :: "TopologyLabelKeys \<Rightarrow> NodeLabelMap \<Rightarrow> string \<times> string \<times> HostInfo \<Rightarrow> bool" where
  "hostLabelled keys nm = (\<lambda>(d, n, hi).
     n \<noteq> [] \<longrightarrow> labelOf nm n (XclrDomain keys) = Some (labelValue d) \<and>
       labelOf nm n (XclrSubDomain keys) = (if SubDomain hi = [] then None else Some (labelValue (SubDomain hi))))"

lemma hostStep_result:
  assumes "mapperOk (mapper st)" and "XclrDomain keys \<noteq> XclrSubDomain keys"
  shows "case hostStep keys (d, n, hi) st of
      Inl err \<Rightarrow> n \<noteq> [] \<and> labelOf (nodeMap st) n (XclrDomain keys) \<noteq> None
    | Inr st' \<Rightarrow> mapperOk (mapper st') \<and>
        (n \<noteq> [] \<longrightarrow> labelOf (nodeMap st) n (XclrDomain keys) = None) \<and>
        (\<forall>m k. labelOf (nodeMap st') m k =
          (if n \<noteq> [] \<and> m = n \<and> k = XclrDomain keys then Some (labelValue d)
           else if n \<noteq> [] \<and> m = n \<and> k = XclrSubDomain keys \<and> SubDomain hi \<noteq> [] then Some (labelValue (SubDomain hi))
           else labelOf (nodeMap st) m k))"
proof -
  have e: "gm_get (labelsFor (nodeMap (ensureNode n st)) n) (XclrDomain keys) = labelOf (nodeMap st) n (XclrDomain keys)"
    using labelOf_ensure [of n st n] by (simp add: labelOf_def)
  let ?s1 = "storeLabel n (XclrDomain keys) d (ensureNode n st)"
  have m1: "mapperOk (mapper ?s1)" using assms(1) by (simp add: mapper_store)
  then have m2: "mapperOk (mapper (storeLabel n (XclrSubDomain keys) (SubDomain hi) ?s1))" by (rule mapper_store)
  show ?thesis
    using assms m1 m2
    by (auto simp: hostStep_def domainHost_def Let_def e labelOf_store split: option.splits)
qed

lemma hostSteps_fold:
  assumes "XclrDomain keys \<noteq> XclrSubDomain keys"
  shows "mapperOk (mapper st) \<Longrightarrow> distinct (hostNames hosts) \<Longrightarrow>
    (\<forall>n \<in> set (hostNames hosts). labelOf (nodeMap st) n (XclrDomain keys) = None \<and>
       labelOf (nodeMap st) n (XclrSubDomain keys) = None) \<Longrightarrow>
    \<exists>st'. foldE (hostStep keys) hosts st = Inr st' \<and> mapperOk (mapper st') \<and>
      (\<forall>x \<in> set hosts. hostLabelled keys (nodeMap st') x) \<and>
      (\<forall>m k. (m \<notin> set (hostNames hosts) \<or> k \<notin> {XclrDomain keys, XclrSubDomain keys}) \<longrightarrow>
         labelOf (nodeMap st') m k = labelOf (nodeMap st) m k)"
proof (induction hosts arbitrary: st)
  case (Cons x hosts)
  obtain d n hi where x: "x = (d, n, hi)" by (cases x)
  note r = hostStep_result [OF Cons.prems(1) assms, where d = d and n = n and hi = hi]
  have "n \<noteq> [] \<Longrightarrow> labelOf (nodeMap st) n (XclrDomain keys) = None"
    using Cons.prems(3) by (simp add: hostNames_def x)
  then obtain st1 where st1: "hostStep keys x st = Inr st1"
    using r unfolding x by (cases "hostStep keys (d, n, hi) st") auto
  have m1: "mapperOk (mapper st1)" and l1: "\<And>m k. labelOf (nodeMap st1) m k =
      (if n \<noteq> [] \<and> m = n \<and> k = XclrDomain keys then Some (labelValue d)
       else if n \<noteq> [] \<and> m = n \<and> k = XclrSubDomain keys \<and> SubDomain hi \<noteq> [] then Some (labelValue (SubDomain hi))
       else labelOf (nodeMap st) m k)"
    using r st1 unfolding x by simp_all
  have n: "n \<noteq> [] \<Longrightarrow> n \<notin> set (hostNames hosts)" "distinct (hostNames hosts)"
    using Cons.prems(2) by (auto simp: hostNames_def x split: if_splits)
  have sub: "set (hostNames hosts) \<subseteq> set (hostNames (x # hosts))" by (auto simp: hostNames_def)
  have fresh: "\<forall>m \<in> set (hostNames hosts). labelOf (nodeMap st1) m (XclrDomain keys) = None \<and>
      labelOf (nodeMap st1) m (XclrSubDomain keys) = None"
    using Cons.prems(3) n(1) sub by (auto simp: l1)
  obtain st' where st': "foldE (hostStep keys) hosts st1 = Inr st'" "mapperOk (mapper st')"
      "\<forall>x \<in> set hosts. hostLabelled keys (nodeMap st') x"
      "\<And>m k. m \<notin> set (hostNames hosts) \<or> k \<notin> {XclrDomain keys, XclrSubDomain keys} \<Longrightarrow>
         labelOf (nodeMap st') m k = labelOf (nodeMap st1) m k"
    using Cons.IH [OF m1 n(2) fresh] by blast
  have "hostLabelled keys (nodeMap st') x"
    using st'(4) [of n] n(1) Cons.prems(3) by (auto simp: hostLabelled_def x l1 hostNames_def assms assms [symmetric])
  moreover have "labelOf (nodeMap st') m k = labelOf (nodeMap st) m k"
    if "m \<notin> set (hostNames (x # hosts)) \<or> k \<notin> {XclrDomain keys, XclrSubDomain keys}" for m k
  proof -
    have "labelOf (nodeMap st') m k = labelOf (nodeMap st1) m k" using st'(4) [of m k] that sub by blast
    also have "\<dots> = labelOf (nodeMap st) m k" using that by (auto simp: l1 hostNames_def x)
    finally show ?thesis .
  qed
  ultimately show ?case using st1 st' by auto
qed (simp add: hostNames_def)

section \<open>Tier labels\<close>

fun tierPairs :: "TopologyLabelKeys \<Rightarrow> nat \<Rightarrow> string list \<Rightarrow> (string \<times> string) list" where
  "tierPairs keys i [] = []"
| "tierPairs keys i (sw # sws) =
     (if sw = [] \<or> FabricKey keys i = [] then [] else (FabricKey keys i, labelValue sw) # tierPairs keys (i + 1) sws)"

lemma tierLoop_result:
  "mapperOk (mapper st) \<Longrightarrow> mapperOk (mapper (tierLoop keys n i sws st)) \<and>
     (\<forall>m k. labelOf (nodeMap (tierLoop keys n i sws st)) m k =
        (case map_of (rev (tierPairs keys i sws)) k of
           Some v \<Rightarrow> if m = n then Some v else labelOf (nodeMap st) m k
         | None \<Rightarrow> labelOf (nodeMap st) m k))"
proof (induction sws arbitrary: i st)
  case (Cons sw sws)
  show ?case
  proof (cases "sw = [] \<or> FabricKey keys i = []")
    case False
    then show ?thesis
      using Cons.IH [OF mapper_store [OF Cons.prems, of n "FabricKey keys i" sw], of "i + 1"]
      by (auto simp: labelOf_store [OF Cons.prems] map_add_def split: option.splits)
  qed (use Cons.prems in auto)
qed simp

text \<open>The layers handed down with a chain of addresses, closest first.\<close>

definition layersOf :: "heap \<Rightarrow> nat list \<Rightarrow> string list" where
  "layersOf h p = map (idAt h) (if idAt h (last p) = [] then butlast p else p)"

definition leafStep :: "heap \<Rightarrow> TopologyLabelKeys \<Rightarrow> nat list \<Rightarrow> topologyLabeler \<Rightarrow> topologyLabeler" where
  "leafStep h keys p st =
     (if layersOf h p = [] \<or> vName (h ! hd p) = [] then st
      else tierLoop keys (vName (h ! hd p)) 0 (tl (layersOf h p)) (ensureNode (vName (h ! hd p)) st))"

lemma layersOf_Cons: "p \<noteq> [] \<Longrightarrow> layersOf h (c # p) = idAt h c # layersOf h p"
  by (simp add: layersOf_def)

lemma layersOf_root: "layersOf h [r] = rootLayers (h ! r)"
  by (simp add: layersOf_def rootLayers_def)

lemma labelLeaf_step: "p \<noteq> [] \<Longrightarrow> labelLeaf keys (h ! hd p) (layersOf h p) st = Inr (leafStep h keys p st)"
  by (cases p; cases "idAt h (last p) = []"; cases "tl p")
    (auto simp: labelLeaf_def leafStep_def layersOf_def split: list.splits if_splits)

lemma kids_Nil: "kids h a = [] \<longleftrightarrow> Vertices (h ! a) = []"
  by (simp add: kids_def)

text \<open>On a tree the recursion is a loop over the chains of the leaves; the ID check never fails.\<close>

lemma getTierLabels_walk:
  assumes T: "treeOrder h r T"
  shows "isChain (kids h) r p \<Longrightarrow>
    getTierLabels n h keys (hd p) (layersOf h p) st =
      map_option (\<lambda>ps. Inr (fold (leafStep h keys) ps st)) (walkLeaves (kids h) n p)"
proof (induction n arbitrary: p st)
  case (Suc n)
  have v: "visits (kids h) h T" by (simp add: visits_def)
  have ne: "p \<noteq> []" using Suc.prems by auto
  then have a: "hd p \<in> set T" using chain_in_tree [OF T v Suc.prems] by auto
  then have ok: "childrenOk h (hd p) (Vertices (h ! hd p))" using T by (simp add: treeOrder_def)
  have loop: "getTierKids n h keys xs (layersOf h p) st =
      map_option (\<lambda>pss. Inr (fold (leafStep h keys) (concat pss) st))
        (those (map (\<lambda>c. walkLeaves (kids h) n (c # p)) (map (the \<circ> snd) xs)))"
    if "set xs \<subseteq> set (Vertices (h ! hd p))" for xs st
    using that
  proof (induction xs arbitrary: st)
    case (Cons x xs)
    obtain k c where x: "x = (k, Some c)" "c < length h"
      using ok Cons.prems by (cases x) (auto simp: childrenOk_def)
    have "c \<in> set (kids h (hd p))" using Cons.prems x by (force simp: kids_def)
    then have "isChain (kids h) r (c # p)" using Suc.prems ne by (simp add: isChain_Cons)
    note IH = Suc.IH [OF this]
    show ?case
      using IH [of st] Cons.IH Cons.prems x ne
      by (auto simp: layersOf_Cons map_option_case option.map_comp comp_def split: option.splits)
  qed simp
  show ?case
  proof (cases "Vertices (h ! hd p) = []")
    case True
    then show ?thesis using labelLeaf_step [OF ne] by (simp add: kids_Nil)
  next
    case False
    then show ?thesis using loop [of "Vertices (h ! hd p)" st]
      by (simp add: kids_Nil) (simp add: kids_def option.map_comp comp_def)
  qed
qed simp

section \<open>Validated keys\<close>

lemma validateKeys_distinct:
  "foldE (validateKey isQ) locs seen = Inr seen' \<Longrightarrow>
     distinct (map snd locs) \<and> (\<forall>k \<in> set (map snd locs). isQ k = [] \<and> gm_get seen k = None)"
proof (induction locs arbitrary: seen)
  case (Cons x locs)
  obtain l k where x: "x = (l, k)" by (cases x)
  have v: "isQ k = []" "gm_get seen k = None" "foldE (validateKey isQ) locs (gm_put k l seen) = Inr seen'"
    using Cons.prems by (auto simp: x validateKey_def ValidateLabelKey_def split: sum.splits option.splits if_splits)
  show ?case using Cons.IH [OF v(3)] v(1,2) by (auto simp: x split: if_splits)
qed simp

lemma keyLocations_keys: "map snd (keyLocations keys) = Fabric keys @ [XclrDomain keys, XclrSubDomain keys]"
proof -
  have "map (snd \<circ> (\<lambda>(tier, key). (f tier, key))) (enumerate n xs) = xs" for f :: "nat \<Rightarrow> string" and n and xs :: "string list"
    by (induction xs arbitrary: n) auto
  then show ?thesis by (simp add: keyLocations_def)
qed

lemma ValidateKeys_distinct:
  assumes "ValidateKeys isQ keys = None"
  shows "distinct (Fabric keys @ [XclrDomain keys, XclrSubDomain keys])" and "\<forall>k \<in> set (Fabric keys). isQ k = []"
  using assms validateKeys_distinct [of isQ "keyLocations keys" "[]"] keyLocations_keys [of keys]
  by (auto simp: ValidateKeys_def split: sum.splits)

lemma itoa_inject: "itoa m = itoa n \<longleftrightarrow> m = n"
  by (metis dec_val_itoa)

lemma FabricTierKey_differs: "FabricTierKey i \<noteq> KeyTopologyXclrDomain" "FabricTierKey i \<noteq> KeyTopologyXclrSubDomain"
  by (simp_all add: FabricTierKey_def KeyFabricTierPrefix_def KeyTopologyXclrDomain_def KeyTopologyXclrSubDomain_def)

text \<open>
  What a validated configuration guarantees. The default fabric keys are not part of the check, so a
  custom accelerator key must not be combined with them here.
\<close>

definition keysGood :: "TopologyLabelKeys \<Rightarrow> bool" where
  "keysGood keys \<longleftrightarrow> distinct (Fabric keys @ [XclrDomain keys, XclrSubDomain keys]) \<and> [] \<notin> set (Fabric keys) \<and>
     (Fabric keys = [] \<longrightarrow> XclrDomain keys = KeyTopologyXclrDomain \<and> XclrSubDomain keys = KeyTopologyXclrSubDomain)"

lemma keysGood_validated:
  assumes "ValidateKeys isQ (NewTopologyLabelKeys fabric acc) = None" and "isQ [] \<noteq> []" and "fabric \<noteq> [] \<or> acc = []"
  shows "keysGood (NewTopologyLabelKeys fabric acc)"
  using ValidateKeys_distinct [OF assms(1)] assms(2,3)
  by (auto simp: keysGood_def NewTopologyLabelKeys_def)

lemma FabricKey_inject:
  assumes "keysGood keys" and "FabricKey keys i = FabricKey keys j" and "FabricKey keys i \<noteq> []"
  shows "i = j"
  using assms by (auto simp: keysGood_def FabricKey_def FabricTierKey_def itoa_inject nth_eq_iff_index_eq split: if_splits)

lemma FabricKey_differs:
  assumes "keysGood keys" and "FabricKey keys i \<noteq> []"
  shows "FabricKey keys i \<notin> {XclrDomain keys, XclrSubDomain keys}"
  using assms FabricTierKey_differs by (auto simp: keysGood_def FabricKey_def split: if_splits) (metis nth_mem)+

lemma FabricKey_below:
  assumes "keysGood keys" and "FabricKey keys j \<noteq> []" and "i \<le> j"
  shows "FabricKey keys i \<noteq> []"
  using assms
  by (auto simp: keysGood_def FabricKey_def FabricTierKey_def KeyFabricTierPrefix_def split: if_splits)
    (metis le_less_trans nth_mem)

lemma tierPairs_keys: "k \<in> fst ` set (tierPairs keys i sws) \<Longrightarrow> \<exists>j \<ge> i. k = FabricKey keys j \<and> k \<noteq> []"
proof (induction sws arbitrary: i)
  case (Cons sw sws)
  then show ?case by (auto split: if_splits) (metis Suc_leD image_eqI fst_conv)
qed simp

lemma tierPairs_lookup:
  assumes good: "keysGood keys" and k: "FabricKey keys (i + j) \<noteq> []"
  shows "map_of (tierPairs keys i sws) (FabricKey keys (i + j)) =
    (if j < length (takeWhile (\<lambda>sw. sw \<noteq> []) sws) then Some (labelValue (sws ! j)) else None)"
  using k
proof (induction sws arbitrary: i j)
  case (Cons sw sws)
  have i: "FabricKey keys i \<noteq> []" using FabricKey_below [OF good Cons.prems] by simp
  show ?case
  proof (cases j)
    case 0
    then show ?thesis using i by auto
  next
    case (Suc j')
    have "FabricKey keys (i + j) \<noteq> FabricKey keys i"
      using FabricKey_inject [OF good, of i "i + j"] i Suc by auto
    then show ?thesis using Cons.IH [of "i + 1" j'] Cons.prems i Suc by auto
  qed
qed simp

lemma tierPairs_distinct: "keysGood keys \<Longrightarrow> distinct (map fst (tierPairs keys i sws))"
proof (induction sws arbitrary: i)
  case (Cons sw sws)
  have "FabricKey keys i \<notin> fst ` set (tierPairs keys (Suc i) sws)" if "FabricKey keys i \<noteq> []"
    using tierPairs_keys [of "FabricKey keys i" keys "Suc i" sws] FabricKey_inject [OF Cons.prems] that by force
  then show ?case using Cons by auto
qed simp

lemma map_of_rev_tierPairs: "keysGood keys \<Longrightarrow> map_of (rev (tierPairs keys i sws)) = map_of (tierPairs keys i sws)"
  using tierPairs_distinct [of keys i sws]
  by (intro map_of_inject_set [THEN iffD2]) (simp_all add: rev_map [symmetric])

section \<open>The labels of a graph\<close>

text \<open>The chains of the compute nodes and the IDs of the switches above them, closest first.\<close>

definition leafChain :: "heap \<Rightarrow> nat \<Rightarrow> nat list \<Rightarrow> bool" where
  "leafChain h r p \<longleftrightarrow> isChain (kids h) r p \<and> Vertices (h ! hd p) = []"

definition switchIDs :: "heap \<Rightarrow> nat list \<Rightarrow> string list" where
  "switchIDs h p = tl (layersOf h p)"

abbreviation leafName :: "heap \<Rightarrow> nat list \<Rightarrow> string" where
  "leafName h p \<equiv> vName (h ! hd p)"

lemma leafStep_result:
  assumes "mapperOk (mapper st)" and "keysGood keys"
  shows "mapperOk (mapper (leafStep h keys p st))"
    and "labelOf (nodeMap (leafStep h keys p st)) n k =
      (if n = leafName h p \<and> n \<noteq> [] \<and> k \<in> fst ` set (tierPairs keys 0 (switchIDs h p))
       then map_of (tierPairs keys 0 (switchIDs h p)) k else labelOf (nodeMap st) n k)"
proof -
  have m: "mapperOk (mapper (ensureNode (leafName h p) st))" using assms(1) by simp
  note t = tierLoop_result [OF m, of keys "leafName h p" 0 "switchIDs h p"]
  show "mapperOk (mapper (leafStep h keys p st))"
    using t assms(1) by (simp add: leafStep_def switchIDs_def)
  have "layersOf h p = [] \<Longrightarrow> switchIDs h p = []" by (simp add: switchIDs_def)
  moreover have "k \<in> fst ` set (tierPairs keys 0 (switchIDs h p)) \<longleftrightarrow> map_of (tierPairs keys 0 (switchIDs h p)) k \<noteq> None"
    by (simp add: map_of_eq_None_iff)
  ultimately show "labelOf (nodeMap (leafStep h keys p st)) n k =
      (if n = leafName h p \<and> n \<noteq> [] \<and> k \<in> fst ` set (tierPairs keys 0 (switchIDs h p))
       then map_of (tierPairs keys 0 (switchIDs h p)) k else labelOf (nodeMap st) n k)"
    using t by (auto simp: leafStep_def switchIDs_def [symmetric] map_of_rev_tierPairs [OF assms(2)] split: option.splits)
qed

lemma leafSteps_result:
  assumes "keysGood keys"
  shows "mapperOk (mapper st) \<Longrightarrow> \<forall>q \<in> set ps. leafName h q = n \<longrightarrow> q = p \<Longrightarrow>
    mapperOk (mapper (fold (leafStep h keys) ps st)) \<and>
    labelOf (nodeMap (fold (leafStep h keys) ps st)) n k =
      (if p \<in> set ps \<and> leafName h p = n \<and> n \<noteq> [] \<and> k \<in> fst ` set (tierPairs keys 0 (switchIDs h p))
       then map_of (tierPairs keys 0 (switchIDs h p)) k else labelOf (nodeMap st) n k)"
proof (induction ps arbitrary: st)
  case (Cons q ps)
  let ?C = "leafName h p = n \<and> n \<noteq> [] \<and> k \<in> fst ` set (tierPairs keys 0 (switchIDs h p))"
  note one = leafStep_result [OF Cons.prems(1) assms, of h q]
  have IH: "mapperOk (mapper (fold (leafStep h keys) (q # ps) st))"
      "labelOf (nodeMap (fold (leafStep h keys) (q # ps) st)) n k =
        (if p \<in> set ps \<and> ?C then map_of (tierPairs keys 0 (switchIDs h p)) k
         else labelOf (nodeMap (leafStep h keys q st)) n k)"
    using Cons.IH [OF one(1)] Cons.prems(2) by simp_all
  show ?case
  proof (cases "leafName h q = n")
    case True
    then have "q = p" using Cons.prems(2) by simp
    then show ?thesis using IH one(2) [of n k] True by auto
  next
    case False
    then show ?thesis using IH one(2) [of n k] by auto
  qed
qed simp

definition allDomains :: "Graph \<Rightarrow> DomainMap" where
  "allDomains g = (case gDomains g of None \<Rightarrow> [] | Some domains \<Rightarrow> domains)"

definition namesUnique :: "heap \<Rightarrow> nat \<Rightarrow> bool" where
  "namesUnique h r \<longleftrightarrow>
     (\<forall>p q. leafChain h r p \<longrightarrow> leafChain h r q \<longrightarrow> leafName h p = leafName h q \<longrightarrow> leafName h p \<noteq> [] \<longrightarrow> p = q)"

lemma BuildNodeLabels_tree:
  assumes r: "Tiers g = Some r" and T: "treeOrder h r T" and good: "keysGood keys"
    and d: "distinct (hostNames (domainHosts (allDomains g)))"
  obtains st1 ps where "BuildNodeLabels h keys (Some g) NewTopologyLabeler = Some (Inr (fold (leafStep h keys) ps st1))"
    and "set ps = {p. leafChain h r p}" and "mapperOk (mapper st1)"
    and "\<forall>x \<in> set (domainHosts (allDomains g)). hostLabelled keys (nodeMap st1) x"
    and "\<forall>n k. n \<notin> set (hostNames (domainHosts (allDomains g))) \<or> k \<notin> {XclrDomain keys, XclrSubDomain keys} \<longrightarrow>
      labelOf (nodeMap st1) n k = None"
proof -
  let ?l = "NewTopologyLabeler\<lparr>nodeMap := []\<rparr>"
  have neq: "XclrDomain keys \<noteq> XclrSubDomain keys" using good by (simp add: keysGood_def)
  have empty: "labelOf (nodeMap ?l) n k = None" for n k by (simp add: labelOf_def labelsFor_def)
  have mok: "mapperOk (mapper ?l)" by (simp add: mapperOk_def NewTopologyLabeler_def)
  obtain st1 where st1: "foldE (hostStep keys) (domainHosts (allDomains g)) ?l = Inr st1" "mapperOk (mapper st1)"
      "\<forall>x \<in> set (domainHosts (allDomains g)). hostLabelled keys (nodeMap st1) x"
      "\<And>n k. n \<notin> set (hostNames (domainHosts (allDomains g))) \<or> k \<notin> {XclrDomain keys, XclrSubDomain keys} \<Longrightarrow>
        labelOf (nodeMap st1) n k = None"
    using hostSteps_fold [OF neq mok d] empty by metis
  have dl: "(case gDomains g of None \<Rightarrow> Inr ?l | Some domains \<Rightarrow> getDomainLabels keys domains ?l) = Inr st1"
    using st1(1) by (auto simp: allDomains_def getDomainLabels_hosts domainHosts_def split: option.splits)
  have ch: "isChain (kids h) r [r]" by simp
  obtain ps where ps: "walkLeaves (kids h) (length h) [r] = Some ps"
    using walk_total [OF T, of "kids h" "[r]" "length h"] treeOrder_length [OF T] by (auto simp: visits_def)
  have "q \<in> set ps \<longleftrightarrow> leafChain h r q" for q
    using walk_mem [OF ps ch] isChain_last [of "kids h" r q]
    by (auto simp: leafChain_def kids_Nil suffix_def) (metis append_butlast_last_id)
  then have "set ps = {p. leafChain h r p}" by auto
  moreover have "BuildNodeLabels h keys (Some g) NewTopologyLabeler = Some (Inr (fold (leafStep h keys) ps st1))"
    using getTierLabels_walk [OF T ch, of "length h" keys st1] dl r ps
    by (simp add: BuildNodeLabels_def layersOf_root Let_def)
  ultimately show thesis using that st1 by blast
qed

lemma BuildNodeLabels_labels:
  assumes r: "Tiers g = Some r" and T: "treeOrder h r T" and u: "namesUnique h r" and good: "keysGood keys"
    and d: "distinct (hostNames (domainHosts (allDomains g)))"
  shows "\<exists>st. BuildNodeLabels h keys (Some g) NewTopologyLabeler = Some (Inr st) \<and>
    (\<forall>x \<in> set (domainHosts (allDomains g)). hostLabelled keys (nodeMap st) x) \<and>
    (\<forall>p i. leafChain h r p \<and> leafName h p \<noteq> [] \<and> FabricKey keys i \<noteq> [] \<longrightarrow>
       labelOf (nodeMap st) (leafName h p) (FabricKey keys i) =
         (let shown = takeWhile (\<lambda>sw. sw \<noteq> []) (switchIDs h p)
          in if i < length shown then Some (labelValue (shown ! i)) else None))"
proof -
  obtain st1 ps where b: "BuildNodeLabels h keys (Some g) NewTopologyLabeler = Some (Inr (fold (leafStep h keys) ps st1))"
    and ps: "set ps = {p. leafChain h r p}" and m: "mapperOk (mapper st1)"
    and dom: "\<forall>x \<in> set (domainHosts (allDomains g)). hostLabelled keys (nodeMap st1) x"
    and none: "\<forall>n k. n \<notin> set (hostNames (domainHosts (allDomains g))) \<or> k \<notin> {XclrDomain keys, XclrSubDomain keys} \<longrightarrow>
      labelOf (nodeMap st1) n k = None"
    by (rule BuildNodeLabels_tree [OF r T good d]) (rule that; assumption)
  let ?st = "fold (leafStep h keys) ps st1"
  have acc: "labelOf (nodeMap ?st) n k = labelOf (nodeMap st1) n k" if "k \<in> {XclrDomain keys, XclrSubDomain keys}" "n \<noteq> []" for n k
  proof -
    have nk: "k \<notin> fst ` set (tierPairs keys 0 sws)" for sws
      using tierPairs_keys [of k keys 0 sws] FabricKey_differs [OF good] that(1) by metis
    show ?thesis
    proof (cases "\<exists>p. leafChain h r p \<and> leafName h p = n")
      case True
      then obtain p where "leafChain h r p" "leafName h p = n" by blast
      then have "\<forall>q \<in> set ps. leafName h q = n \<longrightarrow> q = p" using u that(2) unfolding ps namesUnique_def by auto
      from leafSteps_result [OF good m this, of k] show ?thesis using nk by simp
    next
      case False
      then have "\<forall>q \<in> set ps. leafName h q = n \<longrightarrow> q = []" unfolding ps by auto
      from leafSteps_result [OF good m this, of k] show ?thesis using nk by simp
    qed
  qed
  have "hostLabelled keys (nodeMap ?st) x" if "x \<in> set (domainHosts (allDomains g))" for x
    using dom that acc by (auto simp: hostLabelled_def split: prod.splits)
  moreover have "labelOf (nodeMap ?st) (leafName h p) (FabricKey keys i) =
      (let shown = takeWhile (\<lambda>sw. sw \<noteq> []) (switchIDs h p)
       in if i < length shown then Some (labelValue (shown ! i)) else None)"
    if p: "leafChain h r p" "leafName h p \<noteq> []" "FabricKey keys i \<noteq> []" for p i
  proof -
    have "\<forall>q \<in> set ps. leafName h q = leafName h p \<longrightarrow> q = p" using u p unfolding ps namesUnique_def by auto
    note l = leafSteps_result [OF good m this, of "FabricKey keys i"]
    have "labelOf (nodeMap st1) (leafName h p) (FabricKey keys i) = None"
      using none FabricKey_differs [OF good p(3)] by blast
    then have "labelOf (nodeMap ?st) (leafName h p) (FabricKey keys i) = map_of (tierPairs keys 0 (switchIDs h p)) (FabricKey keys i)"
      using l p ps map_of_eq_None_iff [of "tierPairs keys 0 (switchIDs h p)" "FabricKey keys i"] by auto
    then show ?thesis using tierPairs_lookup [OF good, of 0 i "switchIDs h p"] p(3)
      by (simp add: Let_def takeWhile_nth)
  qed
  ultimately show ?thesis using b by blast
qed


lemma inj_on_filter_map:
  assumes "distinct (map f (filter P xs))" and "i < length xs" "j < length xs" and "P (xs ! i)" "P (xs ! j)"
    and "f (xs ! i) = f (xs ! j)"
  shows "i = j"
  using assms
proof (induction xs arbitrary: i j)
  case (Cons x xs)
  have mem: "f (xs ! m) \<in> f ` set (filter P xs)" if "m < length xs" "P (xs ! m)" for m using that by simp
  show ?case
  proof (cases i)
    case 0
    then show ?thesis using Cons.prems mem [of "j - 1"] by (cases j) auto
  next
    case (Suc i')
    then show ?thesis using Cons mem [of i'] by (cases j) (auto split: if_splits)
  qed
qed simp

lemma namesUnique_heap:
  assumes T: "treeOrder h r T" and d: "distinct (map vName (filter (\<lambda>v. Vertices v = [] \<and> vName v \<noteq> []) h))"
  shows "namesUnique h r"
  unfolding namesUnique_def
proof (intro allI impI)
  fix p q assume p: "leafChain h r p" and q: "leafChain h r q" and n: "leafName h p = leafName h q" "leafName h p \<noteq> []"
  have v: "visits (kids h) h T" by (simp add: visits_def)
  have c: "isChain (kids h) r p" "isChain (kids h) r q" using p q by (auto simp: leafChain_def)
  then have "p \<noteq> []" "q \<noteq> []" using isChain_last by blast+
  then have "hd p \<in> set T" "hd q \<in> set T" using chain_in_tree [OF T v] c by (metis hd_in_set subsetD)+
  then have "hd p < length h" "hd q < length h" using T by (auto simp: treeOrder_def)
  then have "hd p = hd q" using inj_on_filter_map [OF d] p q n by (auto simp: leafChain_def)
  then show "p = q" by (rule chain_unique [OF T v c])
qed

definition demoQualified :: "string \<Rightarrow> string list" where
  "demoQualified key = (if key = [] then [''name part must be non-empty''] else [])"

lemma labelHeap_leaf: "leafChain labelHeap 0 [3, 2, 1, 0]"
  by code_simp


text \<open>
  The check of the keys does not look at the default fabric keys: an accelerator label that is the
  default key of tier 0 is accepted, and the domain of a node is then overwritten by its leaf switch.
\<close>

lemma ValidateKeys_default_conflict:
  "ValidateKeys demoQualified (NewTopologyLabelKeys [] ''fabric.topograph.run/tier-0'') = None \<and>
   (case BuildNodeLabels labelHeap (NewTopologyLabelKeys [] ''fabric.topograph.run/tier-0'') (Some labelGraph) NewTopologyLabeler of
      Some (Inr st) \<Rightarrow> labelOf (nodeMap st) ''n1'' ''fabric.topograph.run/tier-0'' = Some ''s1''
    | _ \<Rightarrow> False)"
  by code_simp

end
