(* ===== verification/K8sEngine.thy ===== *)
theory K8sEngine
  imports Labeler
begin

text \<open>
  Component \<open>pkg/engines/k8s\<close> (\<open>engine.go\<close>, \<open>kubernetes.go\<close>): the engine that writes the topology as
  node labels. It keeps a cache of the nodes it is responsible for, computes the complete desired
  label set of each node and sends the difference as a patch.

  The cluster is a state of arbitrary type that only the API changes; \<open>kubeApi\<close> collects the calls
  the engine makes (list, get, patch) and the selector test of \<open>apimachinery\<close>. The decoder of the
  parameters is an argument. Loading the client configuration is left out.
\<close>

section \<open>Model\<close>

subsection \<open>Parameters and state\<close>

record Params =
  NodeSelector :: "(string, string) gomap"
  FabricLabels :: "string list"
  AcceleratorLabel :: string
  AcceleratorDomainSourceLabel :: string
  nodeListOpt :: "(string, string) gomap option"
  labelKeys :: TopologyLabelKeys

record K8sEngine =
  params :: Params
  cachedNodeMap :: "(string, KNode option) gomap option"

datatype kerror =
  DecodeParams string
| LabelsExclusive
| KeyError lerror
| MetaError meta_error
| NodeNotFound string
| GetNodeFailed string string
| PatchFailed string string

datatype get_error = IsNotFound | GetError string

record 'c kubeApi =
  apiList :: "(string, string) gomap option \<Rightarrow> 'c \<Rightarrow> string + KNode list"
  apiGet :: "string \<Rightarrow> 'c \<Rightarrow> get_error + KNode"
  apiPatch :: "string \<Rightarrow> json \<Rightarrow> 'c \<Rightarrow> string + 'c"
  selectorMatches :: "(string, string) gomap \<Rightarrow> labelMap \<Rightarrow> bool"

definition getParameters ::
  "('cfg \<Rightarrow> string + Params) \<Rightarrow> (string \<Rightarrow> string list) \<Rightarrow> 'cfg \<Rightarrow> kerror + Params" where
  "getParameters decode isQualifiedName cfg =
     (case decode cfg of
        Inl err \<Rightarrow> Inl (DecodeParams err)
      | Inr p \<Rightarrow>
          if AcceleratorLabel p \<noteq> [] \<and> AcceleratorDomainSourceLabel p \<noteq> [] then Inl LabelsExclusive
          else
            (case (if AcceleratorDomainSourceLabel p \<noteq> []
                   then ValidateLabelKey isQualifiedName ''acceleratorDomainSourceLabel'' (AcceleratorDomainSourceLabel p)
                   else None) of
               Some err \<Rightarrow> Inl (MetaError err)
             | None \<Rightarrow>
                 (let keys = NewTopologyLabelKeys (FabricLabels p) (AcceleratorLabel p)
                  in case ValidateKeys isQualifiedName keys of
                       Some err \<Rightarrow> Inl (KeyError err)
                     | None \<Rightarrow>
                         Inr (p\<lparr>labelKeys := keys,
                                nodeListOpt := (if NodeSelector p \<noteq> [] then Some (NodeSelector p) else None)\<rparr>))))"

subsection \<open>Desired labels\<close>

definition isManagedLevelLabel :: "string \<Rightarrow> TopologyLabelKeys \<Rightarrow> bool" where
  "isManagedLevelLabel key keys =
     (if key = KeyTopologyXclrDomain \<or> key = KeyTopologyXclrSubDomain then True
      else if list_ex (\<lambda>configured. configured \<noteq> [] \<and> key = configured)
                (Fabric keys @ [XclrDomain keys, XclrSubDomain keys]) then True
      else if hasPrefix key KeyFabricTierPrefix
        then (case Atoi (drop (length KeyFabricTierPrefix) key) of Some level \<Rightarrow> level \<ge> 0 | None \<Rightarrow> False)
      else False)"

definition removeManagedTopologyLabels :: "TopologyLabelKeys \<Rightarrow> string \<Rightarrow> labelMap \<Rightarrow> labelMap" where
  "removeManagedTopologyLabels keys acceleratorDomainSourceLabel labels =
     filter (\<lambda>(key, _).
       if acceleratorDomainSourceLabel \<noteq> [] \<and> key = acceleratorDomainSourceLabel then True
       else \<not> isManagedLevelLabel key keys) labels"

definition skipAcceleratorLabelsWhenSourceExists ::
  "labelMap \<Rightarrow> labelMap \<Rightarrow> TopologyLabelKeys \<Rightarrow> string \<Rightarrow> labelMap" where
  "skipAcceleratorLabelsWhenSourceExists currentLabels labels keys acceleratorDomainSourceLabel =
     (if acceleratorDomainSourceLabel = [] \<or> TrimSpace (strAt currentLabels acceleratorDomainSourceLabel) = []
      then labels
      else gm_del (XclrSubDomain keys) (gm_del (XclrDomain keys) labels))"

definition mergeNodeLabels :: "labelMap \<Rightarrow> labelMap \<Rightarrow> TopologyLabelKeys \<Rightarrow> string \<Rightarrow> labelMap" where
  "mergeNodeLabels current labels keys acceleratorDomainSourceLabel =
     (let labels' = skipAcceleratorLabelsWhenSourceExists current labels keys acceleratorDomainSourceLabel
      in gm_copy (removeManagedTopologyLabels keys acceleratorDomainSourceLabel current) labels')"

subsection \<open>Patches\<close>

definition labelChanges :: "labelMap \<Rightarrow> labelMap \<Rightarrow> (string, json) gomap" where
  "labelChanges current desired =
     (let removed = fold (\<lambda>(key, _) changes. if gm_get desired key = None then gm_put key JNull changes else changes)
            current []
      in fold (\<lambda>(key, val) changes. if gm_get current key \<noteq> Some val then gm_put key (JString val) changes else changes)
           desired removed)"

definition nodeLabelPatch :: "labelMap \<Rightarrow> labelMap \<Rightarrow> json" where
  "nodeLabelPatch current desired =
     JObject [(''metadata'', JObject [(''labels'', JObject (labelChanges current desired))])]"

definition mapsEqual :: "labelMap \<Rightarrow> labelMap \<Rightarrow> bool" where
  "mapsEqual a b \<longleftrightarrow> length a = length b \<and> list_all (\<lambda>(k, v). gm_get b k = Some v) a"

subsection \<open>The node cache\<close>

definition cacheNodes :: "KNode list \<Rightarrow> K8sEngine \<Rightarrow> K8sEngine" where
  "cacheNodes nodes eng =
     eng\<lparr>cachedNodeMap := Some (fold (\<lambda>node m. gm_put (kName node) (Some node) m) nodes [])\<rparr>"

definition cacheRequestedNodes :: "ComputeInstances list \<Rightarrow> KNode list \<Rightarrow> K8sEngine \<Rightarrow> K8sEngine" where
  "cacheRequestedNodes instances nodes eng =
     (let m = fold (\<lambda>region m. fold (\<lambda>nodeName m. gm_put nodeName None m) (gm_vals (Instances region)) m) instances [];
          m' = fold (\<lambda>node m. if gm_get m (kName node) \<noteq> None then gm_put (kName node) (Some node) m else m) nodes m
      in eng\<lparr>cachedNodeMap := Some m'\<rparr>)"

definition ResolveComputeInstances ::
  "'c kubeApi \<Rightarrow> NodeMetadata option \<Rightarrow> ComputeInstances list \<Rightarrow> K8sEngine \<Rightarrow> 'c
     \<Rightarrow> (kerror + ComputeInstances list) \<times> K8sEngine" where
  "ResolveComputeInstances api ctx instances eng c =
     (case GetNodes ctx (apiList api (nodeListOpt (params eng)) c) of
        Inl err \<Rightarrow> (Inl (MetaError err), eng)
      | Inr nodes \<Rightarrow>
          (let instances' = (if instances = [] then GetComputeInstances nodes else instances)
           in (Inr instances', cacheRequestedNodes instances' nodes eng)))"

definition loadNodes ::
  "'c kubeApi \<Rightarrow> NodeMetadata option \<Rightarrow> K8sEngine \<Rightarrow> 'c \<Rightarrow> kerror option \<times> K8sEngine" where
  "loadNodes api ctx eng c =
     (case cachedNodeMap eng of
        Some _ \<Rightarrow> (None, eng)
      | None \<Rightarrow>
          (case GetNodes ctx (apiList api (nodeListOpt (params eng)) c) of
             Inl err \<Rightarrow> (Some (MetaError err), eng)
           | Inr nodes \<Rightarrow> (None, cacheNodes nodes eng)))"

definition matchesNodeSelector :: "'c kubeApi \<Rightarrow> K8sEngine \<Rightarrow> KNode \<Rightarrow> bool" where
  "matchesNodeSelector api eng node =
     (if NodeSelector (params eng) = [] then True
      else selectorMatches api (NodeSelector (params eng)) (kLabels node))"

definition cacheOf :: "K8sEngine \<Rightarrow> (string, KNode option) gomap" where
  "cacheOf eng = (case cachedNodeMap eng of Some m \<Rightarrow> m | None \<Rightarrow> [])"

definition storeNode :: "string \<Rightarrow> KNode \<Rightarrow> K8sEngine \<Rightarrow> K8sEngine" where
  "storeNode nodeName node eng = eng\<lparr>cachedNodeMap := Some (gm_put nodeName (Some node) (cacheOf eng))\<rparr>"

subsection \<open>Updating a node\<close>

definition updateNode ::
  "'c kubeApi \<Rightarrow> string \<Rightarrow> labelMap \<Rightarrow> KNode \<Rightarrow> K8sEngine \<times> 'c \<Rightarrow> kerror option \<times> K8sEngine \<times> 'c" where
  "updateNode api nodeName labels node = (\<lambda>(eng, c).
     if \<not> matchesNodeSelector api eng node then (None, eng, c)
     else
       (let desiredLabels = mergeNodeLabels (kLabels node) labels (labelKeys (params eng))
              (AcceleratorDomainSourceLabel (params eng))
        in if mapsEqual (kLabels node) desiredLabels then (None, eng, c)
           else
             (case apiPatch api nodeName (nodeLabelPatch (kLabels node) desiredLabels) c of
                Inl err \<Rightarrow> (Some (PatchFailed nodeName err), eng, c)
              | Inr c' \<Rightarrow> (None, storeNode nodeName (node\<lparr>kLabels := desiredLabels\<rparr>) eng, c'))))"

definition AddNodeLabels ::
  "'c kubeApi \<Rightarrow> NodeMetadata option \<Rightarrow> string \<Rightarrow> labelMap \<Rightarrow> K8sEngine \<times> 'c \<Rightarrow> kerror option \<times> K8sEngine \<times> 'c" where
  "AddNodeLabels api ctx nodeName labels = (\<lambda>(eng, c).
     case loadNodes api ctx eng c of
       (Some err, eng1) \<Rightarrow> (Some err, eng1, c)
     | (None, eng1) \<Rightarrow>
         (case gm_get (cacheOf eng1) nodeName of
            None \<Rightarrow> (None, eng1, c)
          | Some (Some node) \<Rightarrow> updateNode api nodeName labels node (eng1, c)
          | Some None \<Rightarrow>
              (case apiGet api nodeName c of
                 Inl IsNotFound \<Rightarrow> (Some (NodeNotFound nodeName), eng1, c)
               | Inl (GetError err) \<Rightarrow> (Some (GetNodeFailed nodeName err), eng1, c)
               | Inr node \<Rightarrow> updateNode api nodeName labels node (storeNode nodeName node eng1, c))))"

subsection \<open>Output\<close>

text \<open>The nodes of the cache that the graph does not mention get no desired labels.\<close>

definition withOmitted :: "(string, KNode option) gomap \<Rightarrow> NodeLabelMap \<Rightarrow> NodeLabelMap" where
  "withOmitted cache nodeLabels =
     fold (\<lambda>(nodeName, node) m. if node \<noteq> None \<and> gm_get m nodeName = None then gm_put nodeName [] m else m)
       cache nodeLabels"

text \<open>\<open>None\<close>: the walk over the hierarchy did not end. All errors are reported with status 502.\<close>

definition GenerateOutput ::
  "'c kubeApi \<Rightarrow> NodeMetadata option \<Rightarrow> heap \<Rightarrow> Graph option \<Rightarrow> K8sEngine \<times> 'c
     \<Rightarrow> ((kerror + string) \<times> K8sEngine \<times> 'c) option" where
  "GenerateOutput api ctx h graph = (\<lambda>(eng, c).
     let ok = ''OK'' @ [newline]
     in case graph of
          None \<Rightarrow> Some (Inr ok, eng, c)
        | Some g \<Rightarrow>
            if Tiers g = None \<and> gDomains g = None then Some (Inr ok, eng, c)
            else
              (case BuildNodeLabels h (labelKeys (params eng)) graph NewTopologyLabeler of
                 None \<Rightarrow> None
               | Some (Inl err) \<Rightarrow> Some (Inl (KeyError err), eng, c)
               | Some (Inr l) \<Rightarrow>
                   (case loadNodes api ctx eng c of
                      (Some err, eng1) \<Rightarrow> Some (Inl err, eng1, c)
                    | (None, eng1) \<Rightarrow>
                        (case forEach (\<lambda>(nodeName, labels). AddNodeLabels api ctx nodeName labels)
                                (withOmitted (cacheOf eng1) (nodeMap l)) (eng1, c) of
                           (Some err, s) \<Rightarrow> Some (Inl err, s)
                         | (None, s) \<Rightarrow> Some (Inr ok, s)))))"

section \<open>Desired labels\<close>

lemma gm_get_filter: "gm_get (filter (\<lambda>(k, _). P k) m) k = (if P k then gm_get m k else None)"
  by (induction m) auto

lemma gm_wf_filter: "gm_wf m \<Longrightarrow> gm_wf (filter P m)"
  unfolding gm_wf_def by (rule distinct_map_filter)

lemma gm_wf_skip: "gm_wf labels \<Longrightarrow> gm_wf (skipAcceleratorLabelsWhenSourceExists current labels keys src)"
  by (simp add: skipAcceleratorLabelsWhenSourceExists_def gm.wf_del)

lemma gm_wf_merge: "gm_wf current \<Longrightarrow> gm_wf (mergeNodeLabels current labels keys src)"
  by (simp add: mergeNodeLabels_def gm_wf_copy gm_wf_filter removeManagedTopologyLabels_def)

text \<open>A key the engine may clear: one of its own keys, unless it is the configured source.\<close>

definition clears :: "TopologyLabelKeys \<Rightarrow> string \<Rightarrow> string \<Rightarrow> bool" where
  "clears keys src key \<longleftrightarrow> isManagedLevelLabel key keys \<and> \<not> (src \<noteq> [] \<and> key = src)"

text \<open>A node names its accelerator domain itself.\<close>

definition sourced :: "labelMap \<Rightarrow> string \<Rightarrow> bool" where
  "sourced current src \<longleftrightarrow> src \<noteq> [] \<and> TrimSpace (strAt current src) \<noteq> []"

lemma merge_get:
  assumes "gm_wf labels"
  shows "gm_get (mergeNodeLabels current labels keys src) key =
    (case gm_get labels key of
       Some v \<Rightarrow>
         if sourced current src \<and> key \<in> {XclrDomain keys, XclrSubDomain keys}
         then (if clears keys src key then None else gm_get current key) else Some v
     | None \<Rightarrow> if clears keys src key then None else gm_get current key)"
proof -
  have "removeManagedTopologyLabels keys src current =
      filter (\<lambda>(key, _). \<not> clears keys src key) current"
    unfolding removeManagedTopologyLabels_def clears_def by (intro filter_cong) (auto split: if_splits)
  then show ?thesis
    using gm_get_copy [OF gm_wf_skip [OF assms]]
    by (auto simp: mergeNodeLabels_def Let_def gm_get_filter sourced_def
        skipAcceleratorLabelsWhenSourceExists_def split: option.splits)
qed

lemma merge_cong:
  assumes "gm_wf labels" and "map_of current = map_of current'"
  shows "map_of (mergeNodeLabels current labels keys src) = map_of (mergeNodeLabels current' labels keys src)"
proof -
  have "sourced current src = sourced current' src" by (simp add: sourced_def strAt_def assms(2))
  then show ?thesis by (intro ext) (auto simp: merge_get [OF assms(1)] assms(2) split: option.splits)
qed



text \<open>
  The parameters may name a fabric key as the source of the accelerator domain; nothing refuses
  that, and the source label is then overwritten by the name of a switch.
\<close>

lemma source_label_overwritten:
  "let p = \<lparr>NodeSelector = [], FabricLabels = [''dom''], AcceleratorLabel = [], AcceleratorDomainSourceLabel = ''dom'',
        nodeListOpt = None, labelKeys = NewTopologyLabelKeys [] []\<rparr>
   in case getParameters (\<lambda>cfg. Inr p) demoQualified () of
        Inr p' \<Rightarrow> gm_get (mergeNodeLabels [(''dom'', ''d1'')] [(''dom'', ''switch1'')] (labelKeys p')
          (AcceleratorDomainSourceLabel p')) ''dom'' = Some ''switch1''
      | Inl _ \<Rightarrow> False"
  by code_simp

section \<open>Patches\<close>

text \<open>What a strategic merge patch does to the labels: null removes a key, a string sets it.\<close>

definition applyChanges :: "(string, json) gomap \<Rightarrow> (string \<rightharpoonup> string) \<Rightarrow> (string \<rightharpoonup> string)" where
  "applyChanges changes m = (\<lambda>k. case gm_get changes k of
       Some JNull \<Rightarrow> None
     | Some (JString v) \<Rightarrow> Some v
     | _ \<Rightarrow> m k)"

fun applyPatch :: "json \<Rightarrow> (string \<rightharpoonup> string) \<Rightarrow> (string \<rightharpoonup> string)" where
  "applyPatch (JObject [(_, JObject [(_, JObject changes)])]) m = applyChanges changes m"
| "applyPatch _ m = m"

lemma fold_changes:
  "gm_wf xs \<Longrightarrow> gm_get (fold (\<lambda>(k, v) m. if P k v then gm_put k (f v) m else m) xs m) key =
     (case gm_get xs key of Some v \<Rightarrow> if P key v then Some (f v) else gm_get m key | None \<Rightarrow> gm_get m key)"
proof (induction xs arbitrary: m)
  case (Cons x xs)
  obtain k v where x: "x = (k, v)" by (cases x)
  have "gm_get xs k = None" using Cons.prems by (simp add: x map_of_eq_None_iff)
  then show ?case using Cons by (auto simp: x split: option.splits)
qed simp

lemma labelChanges_get:
  assumes "gm_wf current" and "gm_wf desired"
  shows "gm_get (labelChanges current desired) key =
    (case gm_get desired key of
       Some v \<Rightarrow> if gm_get current key = Some v then None else Some (JString v)
     | None \<Rightarrow> if gm_get current key = None then None else Some JNull)"
  using fold_changes [OF assms(1), of "\<lambda>k _. gm_get desired k = None" "\<lambda>_. JNull" "[]" key]
    fold_changes [OF assms(2), of "\<lambda>k v. gm_get current k \<noteq> Some v" JString _ key]
  by (auto simp: labelChanges_def Let_def split: option.splits)

lemma patch_gives_desired:
  assumes "gm_wf current" and "gm_wf desired"
  shows "applyPatch (nodeLabelPatch current desired) (map_of current) = map_of desired"
  by (rule ext) (simp add: nodeLabelPatch_def applyChanges_def labelChanges_get [OF assms] split: option.splits)

lemma mapsEqual_iff:
  assumes "gm_wf a" and "gm_wf b"
  shows "mapsEqual a b \<longleftrightarrow> map_of a = map_of b"
proof
  assume "mapsEqual a b"
  then have l: "length a = length b" and s: "set a \<subseteq> set b"
    by (auto simp: mapsEqual_def list_all_iff dest!: bspec intro: map_of_SomeD)
  have "card (set a) = length a" "card (set b) = length b"
    using assms by (auto simp: gm_wf_def distinct_map intro: distinct_card)
  then have "set a = set b" using l s by (intro card_seteq) auto
  then show "map_of a = map_of b" using assms by (simp add: gm_wf_def map_of_inject_set)
next
  assume eq: "map_of a = map_of b"
  then have s: "set a = set b" using assms by (simp add: gm_wf_def map_of_inject_set)
  moreover have "distinct a" "distinct b" using assms by (auto simp: gm_wf_def distinct_map)
  ultimately have "length a = length b" by (metis distinct_card)
  then show "mapsEqual a b" using s by (auto simp: mapsEqual_def list_all_iff gm_get_Some_mem [OF assms(2)])
qed

section \<open>The cluster\<close>

text \<open>
  What the API is documented to do, in terms of the node objects of the cluster: a list returns
  nodes that exist, every node once; a get returns the node; a successful patch changes the labels
  of its node as a merge patch does and nothing else.
\<close>

definition listsNodes :: "'c kubeApi \<Rightarrow> ('c \<Rightarrow> string \<Rightarrow> KNode option) \<Rightarrow> bool" where
  "listsNodes api nodeIn \<longleftrightarrow>
     (\<forall>sel c nodes. apiList api sel c = Inr nodes \<longrightarrow>
        distinct (map kName nodes) \<and> (\<forall>n \<in> set nodes. nodeIn c (kName n) = Some n))"

definition getsNode :: "'c kubeApi \<Rightarrow> ('c \<Rightarrow> string \<Rightarrow> KNode option) \<Rightarrow> bool" where
  "getsNode api nodeIn \<longleftrightarrow> (\<forall>name c n. apiGet api name c = Inr n \<longrightarrow> nodeIn c name = Some n)"

definition patchesLabels :: "'c kubeApi \<Rightarrow> ('c \<Rightarrow> string \<Rightarrow> KNode option) \<Rightarrow> bool" where
  "patchesLabels api nodeIn \<longleftrightarrow>
     (\<forall>name body c c'. apiPatch api name body c = Inr c' \<longrightarrow>
        (\<exists>n n'. nodeIn c name = Some n \<and> nodeIn c' name = Some n' \<and>
           map_of (kLabels n') = applyPatch body (map_of (kLabels n))) \<and>
        (\<forall>m. m \<noteq> name \<longrightarrow> nodeIn c' m = nodeIn c m))"

definition labelsWf :: "('c \<Rightarrow> string \<Rightarrow> KNode option) \<Rightarrow> bool" where
  "labelsWf nodeIn \<longleftrightarrow> (\<forall>c name n. nodeIn c name = Some n \<longrightarrow> gm_wf (kLabels n))"

definition selectsByValue :: "'c kubeApi \<Rightarrow> bool" where
  "selectsByValue api \<longleftrightarrow>
     (\<forall>sel l l'. map_of l = map_of l' \<longrightarrow> selectorMatches api sel l = selectorMatches api sel l')"

definition kubeOk :: "'c kubeApi \<Rightarrow> ('c \<Rightarrow> string \<Rightarrow> KNode option) \<Rightarrow> bool" where
  "kubeOk api nodeIn \<longleftrightarrow>
     listsNodes api nodeIn \<and> getsNode api nodeIn \<and> patchesLabels api nodeIn \<and> labelsWf nodeIn \<and> selectsByValue api"

text \<open>The cached copies carry the labels of the cluster.\<close>

definition inCluster :: "('c \<Rightarrow> string \<Rightarrow> KNode option) \<Rightarrow> 'c \<Rightarrow> string \<Rightarrow> KNode \<Rightarrow> bool" where
  "inCluster nodeIn c name nd \<longleftrightarrow>
     gm_wf (kLabels nd) \<and> (\<exists>n. nodeIn c name = Some n \<and> map_of (kLabels n) = map_of (kLabels nd))"

definition cacheOk :: "('c \<Rightarrow> string \<Rightarrow> KNode option) \<Rightarrow> K8sEngine \<Rightarrow> 'c \<Rightarrow> bool" where
  "cacheOk nodeIn eng c \<longleftrightarrow>
     (\<forall>name nd. gm_get (cacheOf eng) name = Some (Some nd) \<longrightarrow> inCluster nodeIn c name nd)"

text \<open>The labels a node of the selection ends up with.\<close>

definition reconciled :: "'c kubeApi \<Rightarrow> K8sEngine \<Rightarrow> labelMap \<Rightarrow> KNode \<Rightarrow> (string \<rightharpoonup> string)" where
  "reconciled api eng labels n =
     (if matchesNodeSelector api eng n
      then map_of (mergeNodeLabels (kLabels n) labels (labelKeys (params eng)) (AcceleratorDomainSourceLabel (params eng)))
      else map_of (kLabels n))"

lemma reconciled_cong:
  assumes "selectsByValue api" and "gm_wf labels" and "map_of (kLabels n) = map_of (kLabels n')"
  shows "reconciled api eng labels n = reconciled api eng labels n'"
proof -
  have "matchesNodeSelector api eng n = matchesNodeSelector api eng n'"
    using assms(1,3) unfolding matchesNodeSelector_def selectsByValue_def by metis
  then show ?thesis using merge_cong [OF assms(2,3)] assms(3) by (simp add: reconciled_def)
qed

lemma updateNode_ok:
  assumes api: "kubeOk api nodeIn" and nd: "inCluster nodeIn c name nd" and wf: "gm_wf labels"
    and res: "updateNode api name labels nd (eng, c) = (err, eng', c')"
  shows "\<forall>m. m \<noteq> name \<longrightarrow> nodeIn c' m = nodeIn c m"
    and "err = None \<Longrightarrow> \<exists>n. nodeIn c' name = Some n \<and> map_of (kLabels n) = reconciled api eng labels nd"
    and "err \<noteq> None \<Longrightarrow> c' = c \<and> eng' = eng"
    and "err = None \<Longrightarrow> (eng' = eng \<and> c' = c) \<or> (\<exists>nd'. eng' = storeNode name nd' eng \<and> inCluster nodeIn c' name nd')"
proof -
  let ?d = "mergeNodeLabels (kLabels nd) labels (labelKeys (params eng)) (AcceleratorDomainSourceLabel (params eng))"
  from nd obtain n where n: "nodeIn c name = Some n" "map_of (kLabels n) = map_of (kLabels nd)" "gm_wf (kLabels nd)"
    by (auto simp: inCluster_def)
  have wd: "gm_wf ?d" using n(3) by (rule gm_wf_merge)
  consider (skip) "\<not> matchesNodeSelector api eng nd" "err = None" "eng' = eng" "c' = c"
    | (same) "matchesNodeSelector api eng nd" "mapsEqual (kLabels nd) ?d" "err = None" "eng' = eng" "c' = c"
    | (fail) "err \<noteq> None" "eng' = eng" "c' = c"
    | (patch) "matchesNodeSelector api eng nd" "err = None" "eng' = storeNode name (nd\<lparr>kLabels := ?d\<rparr>) eng"
        "apiPatch api name (nodeLabelPatch (kLabels nd) ?d) c = Inr c'"
    using res by (auto simp: updateNode_def Let_def split: if_splits sum.splits)
  then have "(\<forall>m. m \<noteq> name \<longrightarrow> nodeIn c' m = nodeIn c m) \<and>
    (err = None \<longrightarrow> (\<exists>n. nodeIn c' name = Some n \<and> map_of (kLabels n) = reconciled api eng labels nd)) \<and>
    (err \<noteq> None \<longrightarrow> c' = c \<and> eng' = eng) \<and>
    (err = None \<longrightarrow> (eng' = eng \<and> c' = c) \<or> (\<exists>nd'. eng' = storeNode name nd' eng \<and> inCluster nodeIn c' name nd'))"
  proof cases
    case skip
    then show ?thesis using n by (simp add: reconciled_def)
  next
    case same
    then show ?thesis using n mapsEqual_iff [OF n(3) wd] by (simp add: reconciled_def)
  next
    case fail
    then show ?thesis by auto
  next
    case patch
    have "patchesLabels api nodeIn" using api by (simp add: kubeOk_def)
    note p = this [unfolded patchesLabels_def, rule_format, OF patch(4)]
    then obtain n' where n': "nodeIn c' name = Some n'" "map_of (kLabels n') = map_of ?d"
        "\<forall>m. m \<noteq> name \<longrightarrow> nodeIn c' m = nodeIn c m"
      using n(1,2) patch_gives_desired [OF n(3) wd] by auto
    then have "inCluster nodeIn c' name (nd\<lparr>kLabels := ?d\<rparr>)" using wd by (simp add: inCluster_def)
    then show ?thesis using patch n' by (auto simp: reconciled_def)
  qed
  then show "\<forall>m. m \<noteq> name \<longrightarrow> nodeIn c' m = nodeIn c m"
    "err = None \<Longrightarrow> \<exists>n. nodeIn c' name = Some n \<and> map_of (kLabels n) = reconciled api eng labels nd"
    "err \<noteq> None \<Longrightarrow> c' = c \<and> eng' = eng"
    "err = None \<Longrightarrow> (eng' = eng \<and> c' = c) \<or> (\<exists>nd'. eng' = storeNode name nd' eng \<and> inCluster nodeIn c' name nd')"
    by blast+
qed

section \<open>Reconciling the selection\<close>

text \<open>How a call may change the engine: parameters and selection stay, known nodes stay known.\<close>

definition sameSelection :: "K8sEngine \<Rightarrow> K8sEngine \<Rightarrow> bool" where
  "sameSelection eng eng' \<longleftrightarrow> params eng' = params eng \<and> cachedNodeMap eng' \<noteq> None \<and>
     (\<forall>m. gm_get (cacheOf eng') m = None \<longleftrightarrow> gm_get (cacheOf eng) m = None)"

lemma sameSelection_refl: "cachedNodeMap eng \<noteq> None \<Longrightarrow> sameSelection eng eng"
  by (simp add: sameSelection_def)

lemma sameSelection_trans: "sameSelection a b \<Longrightarrow> sameSelection b c \<Longrightarrow> sameSelection a c"
  by (simp add: sameSelection_def)

lemma sameSelection_store:
  "gm_get (cacheOf eng) name \<noteq> None \<Longrightarrow> sameSelection eng (storeNode name nd eng)"
  by (auto simp: sameSelection_def storeNode_def cacheOf_def)

lemma cacheOf_store [simp]: "gm_get (cacheOf (storeNode name nd eng)) m =
    (if m = name then Some (Some nd) else gm_get (cacheOf eng) m)"
  by (simp add: storeNode_def cacheOf_def)

lemma params_store [simp]: "params (storeNode name nd eng) = params eng"
  by (simp add: storeNode_def)

lemma reconciled_params: "params eng' = params eng \<Longrightarrow> reconciled api eng' = reconciled api eng"
  by (intro ext) (simp add: reconciled_def matchesNodeSelector_def)

lemma cacheOk_update:
  assumes "cacheOk nodeIn eng c" and "\<forall>m. m \<noteq> name \<longrightarrow> nodeIn c' m = nodeIn c m" and "inCluster nodeIn c' name nd"
  shows "cacheOk nodeIn (storeNode name nd eng) c'"
  using assms by (auto simp: cacheOk_def inCluster_def)

text \<open>One node: its labels are reconciled or, after an error, as they were; no other node changes.\<close>

lemma AddNodeLabels_ok:
  assumes api: "kubeOk api nodeIn" and ok: "cacheOk nodeIn eng c" and load: "cachedNodeMap eng \<noteq> None"
    and wf: "gm_wf labels" and res: "AddNodeLabels api ctx name labels (eng, c) = (err, eng', c')"
  shows "cacheOk nodeIn eng' c' \<and> sameSelection eng eng' \<and> (\<forall>m. m \<noteq> name \<longrightarrow> nodeIn c' m = nodeIn c m) \<and>
    (\<forall>n. nodeIn c name = Some n \<longrightarrow> (\<exists>n'. nodeIn c' name = Some n' \<and> map_of (kLabels n') =
       (if err = None \<and> gm_get (cacheOf eng) name \<noteq> None then reconciled api eng labels n else map_of (kLabels n))))"
proof -
  have l: "loadNodes api ctx eng c = (None, eng)" using load by (auto simp: loadNodes_def)
  have upd: "cacheOk nodeIn eng' c' \<and> sameSelection eng eng' \<and> (\<forall>m. m \<noteq> name \<longrightarrow> nodeIn c' m = nodeIn c m) \<and>
      (\<forall>n. nodeIn c name = Some n \<longrightarrow> (\<exists>n'. nodeIn c' name = Some n' \<and> map_of (kLabels n') =
         (if err = None then reconciled api eng labels n else map_of (kLabels n))))"
    if u: "updateNode api name labels nd (eng1, c) = (err, eng', c')" and nd: "inCluster nodeIn c name nd"
      and e1: "cacheOk nodeIn eng1 c" "sameSelection eng eng1" and k: "gm_get (cacheOf eng1) name \<noteq> None" for nd eng1
  proof -
    note r = updateNode_ok [OF api nd wf u]
    have p: "reconciled api eng1 = reconciled api eng" using e1(2) by (intro reconciled_params) (simp add: sameSelection_def)
    have "cacheOk nodeIn eng' c' \<and> sameSelection eng1 eng'"
    proof (cases "eng' = eng1 \<and> c' = c")
      case True
      then show ?thesis using e1 by (auto simp: sameSelection_def)
    next
      case False
      then obtain nd' where "eng' = storeNode name nd' eng1" "inCluster nodeIn c' name nd'" using r(3,4) by blast
      then show ?thesis using cacheOk_update [OF e1(1) r(1)] sameSelection_store [OF k] by simp
    qed
    moreover have "reconciled api eng labels nd = reconciled api eng labels n" if "nodeIn c name = Some n" for n
      using nd that api by (intro reconciled_cong) (auto simp: kubeOk_def inCluster_def wf)
    ultimately show ?thesis using r(1-3) e1(2) p by (cases "err = None") (auto intro: sameSelection_trans)
  qed
  show ?thesis
  proof (cases "gm_get (cacheOf eng) name")
    case None
    then have "err = None \<and> eng' = eng \<and> c' = c" using res l by (simp add: AddNodeLabels_def)
    then show ?thesis using ok None sameSelection_refl [OF load] by simp
  next
    case (Some entry)
    show ?thesis
    proof (cases entry)
      case (Some nd)
      with \<open>gm_get (cacheOf eng) name = Some entry\<close> have "updateNode api name labels nd (eng, c) = (err, eng', c')"
        "inCluster nodeIn c name nd"
        using res l ok by (auto simp: AddNodeLabels_def cacheOk_def)
      from upd [OF this ok sameSelection_refl [OF load]] show ?thesis using \<open>gm_get (cacheOf eng) name = Some entry\<close> by simp
    next
      case None
      show ?thesis
      proof (cases "apiGet api name c")
        case (Inl e)
        then have "err \<noteq> None \<and> eng' = eng \<and> c' = c"
          using res l None Some by (cases e) (auto simp: AddNodeLabels_def)
        then show ?thesis using ok sameSelection_refl [OF load] by auto
      next
        case (Inr nd)
        then have n: "nodeIn c name = Some nd" using api by (auto simp: kubeOk_def getsNode_def)
        then have ic: "inCluster nodeIn c name nd" using api by (auto simp: inCluster_def kubeOk_def labelsWf_def)
        have "updateNode api name labels nd (storeNode name nd eng, c) = (err, eng', c')"
          using res l None Some Inr by (simp add: AddNodeLabels_def)
        from upd [OF this ic cacheOk_update [OF ok _ ic] sameSelection_store] show ?thesis using Some by simp
      qed
    qed
  qed
qed

text \<open>
  The outcome for a node \<open>n\<close> of the cluster when the updates \<open>xs\<close> are made, \<open>n'\<close> being the node
  afterwards: a node of the selection with an update is reconciled, or possibly untouched when the
  loop ended early; every other node keeps its labels.
\<close>

definition nodeOutcome ::
  "'c kubeApi \<Rightarrow> K8sEngine \<Rightarrow> NodeLabelMap \<Rightarrow> bool \<Rightarrow> string \<Rightarrow> KNode \<Rightarrow> KNode \<Rightarrow> bool" where
  "nodeOutcome api eng xs finished name n n' \<longleftrightarrow>
     (if gm_get xs name \<noteq> None \<and> gm_get (cacheOf eng) name \<noteq> None
      then map_of (kLabels n') = reconciled api eng (labelsFor xs name) n \<or>
        (\<not> finished \<and> map_of (kLabels n') = map_of (kLabels n))
      else map_of (kLabels n') = map_of (kLabels n))"

lemma AddNodeLabels_all:
  assumes api: "kubeOk api nodeIn"
  shows "cacheOk nodeIn eng c \<Longrightarrow> cachedNodeMap eng \<noteq> None \<Longrightarrow> gm_wf xs \<Longrightarrow> \<forall>(n, l) \<in> set xs. gm_wf l \<Longrightarrow>
    forEach (\<lambda>(n, l). AddNodeLabels api ctx n l) xs (eng, c) = (err, eng', c') \<Longrightarrow> nodeIn c name = Some n \<Longrightarrow>
    \<exists>n'. nodeIn c' name = Some n' \<and> nodeOutcome api eng xs (err = None) name n n'"
proof (induction xs arbitrary: eng c n)
  case (Cons x xs)
  obtain m l where x: "x = (m, l)" by (cases x)
  obtain e1 eng1 c1 where s1: "AddNodeLabels api ctx m l (eng, c) = (e1, eng1, c1)" by (cases "AddNodeLabels api ctx m l (eng, c)")
  have wf: "gm_wf l" "gm_wf xs" "gm_get xs m = None" "\<forall>(n, l) \<in> set xs. gm_wf l"
    using Cons.prems(3,4) by (auto simp: x map_of_eq_None_iff)
  note one = AddNodeLabels_ok [OF api Cons.prems(1,2) wf(1) s1]
  have lf: "labelsFor (x # xs) name = (if name = m then l else labelsFor xs name)"
    by (simp add: labelsFor_def x)
  obtain n1 where n1: "nodeIn c1 name = Some n1" "map_of (kLabels n1) =
      (if name = m \<and> e1 = None \<and> gm_get (cacheOf eng) m \<noteq> None then reconciled api eng l n else map_of (kLabels n))"
    using one Cons.prems(6) by (cases "name = m") auto
  show ?case
  proof (cases e1)
    case (Some e)
    then have r: "err = Some e" "c' = c1" using Cons.prems(5) s1 by (simp_all add: x)
    then show ?thesis using n1 Some by (auto simp: nodeOutcome_def)
  next
    case None
    have st: "cacheOk nodeIn eng1 c1" "cachedNodeMap eng1 \<noteq> None" "reconciled api eng1 = reconciled api eng"
        "\<And>m. gm_get (cacheOf eng1) m = None \<longleftrightarrow> gm_get (cacheOf eng) m = None"
      using one by (auto simp: sameSelection_def intro: reconciled_params)
    have "forEach (\<lambda>(n, l). AddNodeLabels api ctx n l) xs (eng1, c1) = (err, eng', c')"
      using Cons.prems(5) s1 None by (simp add: x)
    from Cons.IH [OF st(1,2) wf(2,4) this n1(1)] obtain n' where n': "nodeIn c' name = Some n'"
      "nodeOutcome api eng1 xs (err = None) name n1 n'" by blast
    have "nodeOutcome api eng (x # xs) (err = None) name n n'"
    proof (cases "name = m")
      case True
      then have "map_of (kLabels n') = map_of (kLabels n1)" using n'(2) wf(3) by (simp add: nodeOutcome_def)
      then show ?thesis using n1(2) True None by (simp add: nodeOutcome_def labelsFor_def x)
    next
      case False
      then have "map_of (kLabels n1) = map_of (kLabels n)" using n1(2) by simp
      moreover from this have "reconciled api eng (labelsFor xs name) n1 = reconciled api eng (labelsFor xs name) n"
        if "gm_get xs name \<noteq> None"
      proof (intro reconciled_cong)
        show "gm_wf (labelsFor xs name)"
          using wf(4) that by (fastforce simp: labelsFor_def dest: map_of_SomeD)
      qed (use api in \<open>simp_all add: kubeOk_def\<close>)
      ultimately show ?thesis using n'(2) False unfolding nodeOutcome_def lf by (auto simp: x st(3,4) split: if_splits)
    qed
    then show ?thesis using n'(1) by blast
  qed
qed (simp add: nodeOutcome_def)

subsection \<open>The label map has distinct keys\<close>

definition labelsOk :: "NodeLabelMap \<Rightarrow> bool" where
  "labelsOk nm \<longleftrightarrow> gm_wf nm \<and> (\<forall>(n, l) \<in> set nm. gm_wf l)"

lemma labelsOk_for: "labelsOk nm \<Longrightarrow> gm_wf (labelsFor nm n)"
  by (auto simp: labelsOk_def labelsFor_def split: option.splits dest: map_of_SomeD)

lemma labelsOk_put: "labelsOk nm \<Longrightarrow> gm_wf l \<Longrightarrow> labelsOk (gm_put n l nm)"
  by (auto simp: labelsOk_def dest!: gm_put_vals)

lemma labelsOk_ensure: "labelsOk (nodeMap st) \<Longrightarrow> labelsOk (nodeMap (ensureNode n st))"
  by (simp add: ensureNode_def labelsOk_put split: option.splits)

lemma labelsOk_store: "labelsOk (nodeMap st) \<Longrightarrow> labelsOk (nodeMap (storeLabel n k v st))"
  by (simp add: storeLabel_def labelsOk_put gm_wf_put labelsOk_for split: prod.splits)

lemma labelsOk_tierLoop: "labelsOk (nodeMap st) \<Longrightarrow> labelsOk (nodeMap (tierLoop keys n i sws st))"
  by (induction sws arbitrary: i st) (auto simp: labelsOk_store)

lemma labelsOk_leaf: "labelLeaf keys v layers st = Inr st' \<Longrightarrow> labelsOk (nodeMap st) \<Longrightarrow> labelsOk (nodeMap st')"
  by (auto simp: labelLeaf_def labelsOk_tierLoop labelsOk_ensure split: list.splits if_splits)

lemma labelsOk_tiers:
  "getTierLabels n h keys a layers st = Some (Inr st') \<Longrightarrow> labelsOk (nodeMap st) \<Longrightarrow> labelsOk (nodeMap st')"
  "getTierKids n h keys xs layers st = Some (Inr st') \<Longrightarrow> labelsOk (nodeMap st) \<Longrightarrow> labelsOk (nodeMap st')"
  by (induction n h keys a layers st and n h keys xs layers st arbitrary: st' and st' rule: getTierLabels_getTierKids.induct)
    (auto dest: labelsOk_leaf split: if_splits option.splits sum.splits)

lemma labelsOk_domains:
  assumes "getDomainLabels keys domains st = Inr st'" and "labelsOk (nodeMap st)"
  shows "labelsOk (nodeMap st')"
proof (rule foldE_inv [where I = "\<lambda>st. labelsOk (nodeMap st)"])
  show "foldE (hostStep keys) (domainHosts domains) st = Inr st'" using assms(1) by (simp add: getDomainLabels_hosts)
  show "labelsOk (nodeMap t')" if "labelsOk (nodeMap t)" "hostStep keys x t = Inr t'" for x t t'
    using that by (auto simp: hostStep_def domainHost_def Let_def labelsOk_ensure labelsOk_store split: prod.splits if_splits option.splits)
qed (rule assms(2))

lemma BuildNodeLabels_wf:
  assumes "BuildNodeLabels h keys graph l = Some (Inr st)"
  shows "labelsOk (nodeMap st)"
proof (cases graph)
  case None
  then show ?thesis using assms by (auto simp: BuildNodeLabels_def labelsOk_def)
next
  case (Some g)
  let ?dl = "case gDomains g of None \<Rightarrow> Inr (l\<lparr>nodeMap := []\<rparr>) | Some domains \<Rightarrow> getDomainLabels keys domains (l\<lparr>nodeMap := []\<rparr>)"
  obtain st1 where st1: "?dl = Inr st1" and
    t: "(case Tiers g of None \<Rightarrow> Some (Inr st1) | Some root \<Rightarrow> getTierLabels (length h) h keys root (rootLayers (h ! root)) st1) = Some (Inr st)"
    using assms Some by (auto simp: BuildNodeLabels_def Let_def split: sum.splits)
  have "labelsOk (nodeMap st1)"
    using st1 labelsOk_domains by (cases "gDomains g") (auto simp: labelsOk_def)
  then show ?thesis using t labelsOk_tiers(1) by (cases "Tiers g") auto
qed

lemma withOmitted_result:
  "gm_wf cache \<Longrightarrow> labelsOk nm \<Longrightarrow> labelsOk (withOmitted cache nm) \<and>
     gm_get (withOmitted cache nm) n =
       (case gm_get nm n of
          Some l \<Rightarrow> Some l
        | None \<Rightarrow> (case gm_get cache n of Some (Some _) \<Rightarrow> Some [] | _ \<Rightarrow> None))"
  unfolding withOmitted_def
proof (induction cache arbitrary: nm)
  case (Cons x cache)
  obtain m nd where x: "x = (m, nd)" by (cases x)
  have m: "gm_get cache m = None" using Cons.prems(1) by (simp add: x map_of_eq_None_iff)
  have ok: "labelsOk (gm_put m [] nm)" using Cons.prems(2) by (simp add: labelsOk_put)
  show ?case
    using Cons.IH [of nm] Cons.IH [OF _ ok] Cons.prems m
    by (cases nd) (auto simp: x split: option.splits)
qed (simp split: option.splits)

section \<open>From the request to the cluster\<close>

definition requestedNames :: "ComputeInstances list \<Rightarrow> string set" where
  "requestedNames cis = (\<Union>ci \<in> set cis. snd ` set (Instances ci))"

lemma gm_wf_fold_put:
  "gm_wf m \<Longrightarrow> (\<And>x m. gm_wf m \<Longrightarrow> gm_wf (f x m)) \<Longrightarrow> gm_wf (fold f xs m)"
  by (induction xs arbitrary: m) auto

lemma cacheOf_cached: "cacheOf (eng\<lparr>cachedNodeMap := Some m\<rparr>) = m"
  by (simp add: cacheOf_def)

lemma fold_requested:
  "gm_get (fold (\<lambda>ci m. fold (\<lambda>nodeName m. gm_put nodeName None m) (gm_vals (Instances ci)) m) cis
       (m :: (string, KNode option) gomap)) name =
     (if name \<in> requestedNames cis then Some None else gm_get m name)"
proof (induction cis arbitrary: m)
  case (Cons ci cis)
  have "gm_get (fold (\<lambda>nodeName m. gm_put nodeName None m) ns m) name = (if name \<in> set ns then Some None else gm_get m name)"
    for ns and m :: "(string, KNode option) gomap"
    by (induction ns arbitrary: m) auto
  then show ?case using Cons.IH by (auto simp: requestedNames_def)
qed (simp add: requestedNames_def)

lemma fold_listed:
  "gm_get (fold (\<lambda>node m. if gm_get m (kName node) \<noteq> None then gm_put (kName node) (Some node) m else m) nodes m) name =
     (case gm_get m name of
        None \<Rightarrow> None
      | Some nd \<Rightarrow> (case find (\<lambda>n. kName n = name) (rev nodes) of None \<Rightarrow> Some nd | Some n \<Rightarrow> Some (Some n)))"
  by (induction nodes arbitrary: m) (auto simp: find_append split: option.splits)

lemma find_rev_name:
  "find (\<lambda>n. kName n = name) (rev nodes) = None \<longleftrightarrow> name \<notin> kName ` set nodes"
  by (auto simp: find_None_iff)

lemma resolve_cache:
  assumes "ResolveComputeInstances api ctx instances eng c = (Inr cis, eng1)"
  obtains nodes where "apiList api (nodeListOpt (params eng)) c = Inr nodes"
    and "params eng1 = params eng" and "cachedNodeMap eng1 \<noteq> None" and "gm_wf (cacheOf eng1)"
    and "\<And>name. gm_get (cacheOf eng1) name =
      (if name \<in> requestedNames cis then Some (find (\<lambda>n. kName n = name) (rev (resolveNodeMetadata ctx nodes))) else None)"
proof -
  from assms obtain nodes where nodes: "apiList api (nodeListOpt (params eng)) c = Inr nodes"
    and eng1: "eng1 = cacheRequestedNodes cis (resolveNodeMetadata ctx nodes) eng"
    by (auto simp: ResolveComputeInstances_def GetNodes_def Let_def split: sum.splits)
  have "gm_wf (cacheOf eng1)"
    unfolding eng1 cacheRequestedNodes_def cacheOf_def Let_def
    by (auto intro!: gm_wf_fold_put)
  moreover have "gm_get (cacheOf eng1) name =
      (if name \<in> requestedNames cis then Some (find (\<lambda>n. kName n = name) (rev (resolveNodeMetadata ctx nodes))) else None)" for name
    unfolding eng1 cacheRequestedNodes_def cacheOf_cached Let_def fold_listed fold_requested
    by (simp split: option.splits)
  ultimately show thesis using that [OF nodes] by (simp add: eng1 cacheRequestedNodes_def Let_def)
qed

lemma resolved_node:
  "n \<in> set (resolveNodeMetadata ctx nodes) \<Longrightarrow> \<exists>m \<in> set nodes. kName n = kName m \<and> kLabels n = kLabels m"
  by (auto simp: resolveNodeMetadata_def split: option.splits)

lemma resolved_names: "kName ` set (resolveNodeMetadata ctx nodes) = kName ` set nodes"
  by (force simp: resolveNodeMetadata_def image_comp split: option.splits)

lemma resolve_cacheOk:
  assumes api: "kubeOk api nodeIn" and res: "ResolveComputeInstances api ctx instances eng c = (Inr cis, eng1)"
  shows "cacheOk nodeIn eng1 c"
  unfolding cacheOk_def
proof (intro allI impI)
  fix name nd assume nd: "gm_get (cacheOf eng1) name = Some (Some nd)"
  obtain nodes where nodes: "apiList api (nodeListOpt (params eng)) c = Inr nodes" and
    "\<And>name. gm_get (cacheOf eng1) name = (if name \<in> requestedNames cis
       then Some (find (\<lambda>n. kName n = name) (rev (resolveNodeMetadata ctx nodes))) else None)"
    using resolve_cache [OF res] by metis
  with nd have f: "find (\<lambda>n. kName n = name) (rev (resolveNodeMetadata ctx nodes)) = Some nd" by (auto split: if_splits)
  then have "nd \<in> set (resolveNodeMetadata ctx nodes)" "kName nd = name"
    by (auto simp: find_Some_iff) (metis length_rev nth_mem set_rev)
  then obtain m where "m \<in> set nodes" "kName m = name" "kLabels m = kLabels nd" using resolved_node by metis
  moreover from this have n: "nodeIn c name = Some m" using api nodes by (auto simp: kubeOk_def listsNodes_def)
  moreover have "gm_wf (kLabels m)" using api n unfolding kubeOk_def labelsWf_def by blast
  ultimately show "inCluster nodeIn c name nd" by (simp add: inCluster_def)
qed

lemma GenerateOutput_loop:
  assumes "GenerateOutput api ctx h (Some g) (eng, c) = Some (out, eng', c')"
    and "Tiers g \<noteq> None \<or> gDomains g \<noteq> None" and "cachedNodeMap eng \<noteq> None"
    and "BuildNodeLabels h (labelKeys (params eng)) (Some g) NewTopologyLabeler = Some (Inr l)"
  obtains err where "forEach (\<lambda>(n, l). AddNodeLabels api ctx n l) (withOmitted (cacheOf eng) (nodeMap l)) (eng, c) = (err, eng', c')"
    and "err = None \<longleftrightarrow> \<not> isl out"
proof -
  have "loadNodes api ctx eng c = (None, eng)" using assms(3) by (auto simp: loadNodes_def)
  then show thesis
    using assms that
    by (cases "forEach (\<lambda>(n, l). AddNodeLabels api ctx n l) (withOmitted (cacheOf eng) (nodeMap l)) (eng, c)")
      (auto simp: GenerateOutput_def Let_def split: if_splits option.splits)
qed

text \<open>
  C7. Reconciliation of node labels. After the compute instances of a request were resolved, writing a
  graph changes the labels of requested nodes only, and of those only the ones that the node list
  returned or the graph labels. Each of them ends with the desired labels (those of other owners
  kept, stale topology labels removed, the labels of the graph set); when the call fails, every
  node has either these labels or the ones it had. The calls of the API behave as documented.
\<close>

theorem GenerateOutput_reconciles:
  assumes "kubeOk api nodeIn" and "ResolveComputeInstances api ctx instances eng c = (Inr cis, eng1)"
    and "apiList api (nodeListOpt (params eng)) c = Inr listed"
    and "Tiers g \<noteq> None \<or> gDomains g \<noteq> None"
    and "BuildNodeLabels h (labelKeys (params eng)) (Some g) NewTopologyLabeler = Some (Inr l)"
    and "GenerateOutput api ctx h (Some g) (eng1, c) = Some (out, eng2, c')"
    and "nodeIn c name = Some n"
  shows "\<exists>n'. nodeIn c' name = Some n' \<and>
    (if name \<in> requestedNames cis \<and> (name \<in> kName ` set listed \<or> gm_get (nodeMap l) name \<noteq> None)
     then map_of (kLabels n') = reconciled api eng (labelsFor (nodeMap l) name) n \<or>
       (isl out \<and> map_of (kLabels n') = map_of (kLabels n))
     else map_of (kLabels n') = map_of (kLabels n))"
proof -
  have "\<exists>nodes. apiList api (nodeListOpt (params eng)) c = Inr nodes \<and> params eng1 = params eng \<and>
    cachedNodeMap eng1 \<noteq> None \<and> gm_wf (cacheOf eng1) \<and>
    (\<forall>name. gm_get (cacheOf eng1) name = (if name \<in> requestedNames cis
       then Some (find (\<lambda>n. kName n = name) (rev (resolveNodeMetadata ctx nodes))) else None))"
    by (rule resolve_cache [OF assms(2)]) blast
  then have p: "params eng1 = params eng" and cn: "cachedNodeMap eng1 \<noteq> None" and wf: "gm_wf (cacheOf eng1)"
    and cache: "gm_get (cacheOf eng1) name = (if name \<in> requestedNames cis
       then Some (find (\<lambda>n. kName n = name) (rev (resolveNodeMetadata ctx listed))) else None)"
    using assms(3) by auto
  have ok: "cacheOk nodeIn eng1 c" by (rule resolve_cacheOk [OF assms(1,2)])
  note lok = BuildNodeLabels_wf [OF assms(5)]
  let ?xs = "withOmitted (cacheOf eng1) (nodeMap l)"
  obtain err where err: "forEach (\<lambda>(n, l). AddNodeLabels api ctx n l) ?xs (eng1, c) = (err, eng2, c')" "err = None \<longleftrightarrow> \<not> isl out"
    using GenerateOutput_loop [OF assms(6,4) cn] assms(5) p by auto
  note om = withOmitted_result [OF wf lok, of name]
  have xs: "gm_wf ?xs" "\<forall>(n, l) \<in> set ?xs. gm_wf l" using om by (auto simp: labelsOk_def)
  obtain n' where n': "nodeIn c' name = Some n'" "nodeOutcome api eng1 ?xs (err = None) name n n'"
    using AddNodeLabels_all [OF assms(1) ok cn xs err(1) assms(7)] by blast
  have "labelsFor ?xs name = labelsFor (nodeMap l) name"
    using om by (auto simp: labelsFor_def split: option.splits)
  moreover have "gm_get ?xs name \<noteq> None \<and> gm_get (cacheOf eng1) name \<noteq> None \<longleftrightarrow>
      name \<in> requestedNames cis \<and> (name \<in> kName ` set listed \<or> gm_get (nodeMap l) name \<noteq> None)"
    using om cache find_rev_name [of name "resolveNodeMetadata ctx listed"]
    by (auto simp: resolved_names split: option.splits if_splits)
  moreover have "reconciled api eng1 = reconciled api eng" by (rule reconciled_params [OF p])
  ultimately have "if name \<in> requestedNames cis \<and> (name \<in> kName ` set listed \<or> gm_get (nodeMap l) name \<noteq> None)
     then map_of (kLabels n') = reconciled api eng (labelsFor (nodeMap l) name) n \<or>
       (isl out \<and> map_of (kLabels n') = map_of (kLabels n))
     else map_of (kLabels n') = map_of (kLabels n)"
    using n'(2) err(2) by (simp only: nodeOutcome_def simp_thms)
  then show ?thesis using n'(1) by blast
qed

text \<open>A small cluster that obeys the documented behaviour.\<close>

type_synonym demoCluster = "(string, KNode) gomap"

definition demoNodeIn :: "demoCluster \<Rightarrow> string \<Rightarrow> KNode option" where
  "demoNodeIn c name =
     (case gm_get c name of
        Some n \<Rightarrow> if gm_wf (kLabels n) \<and> kName n = name then Some n else None
      | None \<Rightarrow> None)"

definition tabulate :: "(string \<rightharpoonup> string) \<Rightarrow> string list \<Rightarrow> labelMap" where
  "tabulate f ks = List.map_filter (\<lambda>k. map_option (Pair k) (f k)) (remdups ks)"

fun demoPatch :: "json \<Rightarrow> labelMap \<Rightarrow> labelMap" where
  "demoPatch (JObject [(_, JObject [(_, JObject changes)])]) l =
     tabulate (applyChanges changes (map_of l)) (gm_keys changes @ gm_keys l)"
| "demoPatch _ l = l"

definition demoApi :: "demoCluster kubeApi" where
  "demoApi =
     \<lparr>apiList = (\<lambda>sel c. Inr (List.map_filter (demoNodeIn c) (remdups (gm_keys c)))),
      apiGet = (\<lambda>name c. case demoNodeIn c name of Some n \<Rightarrow> Inr n | None \<Rightarrow> Inl IsNotFound),
      apiPatch = (\<lambda>name body c.
        case demoNodeIn c name of
          None \<Rightarrow> Inl ''not found''
        | Some n \<Rightarrow> Inr (gm_put name (n\<lparr>kLabels := demoPatch body (kLabels n)\<rparr>) c)),
      selectorMatches = (\<lambda>sel l. list_all (\<lambda>(k, v). gm_get l k = Some v) sel)\<rparr>"

lemma map_filter_keys:
  "map_of (List.map_filter (\<lambda>k. map_option (Pair k) (f k)) ks) k = (if k \<in> set ks then f k else None)"
  "set (gm_keys (List.map_filter (\<lambda>k. map_option (Pair k) (f k)) ks)) \<subseteq> set ks"
  "distinct ks \<Longrightarrow> gm_wf (List.map_filter (\<lambda>k. map_option (Pair k) (f k)) ks)"
proof -
  show 1: "set (gm_keys (List.map_filter (\<lambda>k. map_option (Pair k) (f k)) ks)) \<subseteq> set ks" for ks
    by (induction ks) (auto split: option.splits)
  show "map_of (List.map_filter (\<lambda>k. map_option (Pair k) (f k)) ks) k = (if k \<in> set ks then f k else None)"
    by (induction ks) (auto split: option.splits)
  show "distinct ks \<Longrightarrow> gm_wf (List.map_filter (\<lambda>k. map_option (Pair k) (f k)) ks)"
  proof (induction ks)
    case (Cons k ks)
    then show ?case using 1 [of ks] by (auto split: option.splits)
  qed simp
qed

lemma demoPatch_wf: "gm_wf l \<Longrightarrow> gm_wf (demoPatch body l)"
  by (induction body l rule: demoPatch.induct) (auto simp: tabulate_def intro!: map_filter_keys(3))

lemma demoPatch_get: "map_of (demoPatch body l) = applyPatch body (map_of l)"
proof (induction body l rule: demoPatch.induct)
  case (1 a b changes l)
  have "applyChanges changes (map_of l) k = None" if "k \<notin> set (gm_keys changes)" "k \<notin> set (gm_keys l)" for k
    using that map_of_eq_None_iff [of changes k] map_of_eq_None_iff [of l k] by (simp add: applyChanges_def)
  then show ?case by (intro ext) (auto simp: tabulate_def map_filter_keys(1))
qed auto

lemma demoNodeIn_name: "demoNodeIn c name = Some n \<Longrightarrow> kName n = name \<and> gm_wf (kLabels n)"
  by (auto simp: demoNodeIn_def split: option.splits if_splits)

lemma demoApi_ok: "kubeOk demoApi demoNodeIn"
proof -
  have "distinct (map kName (List.map_filter (demoNodeIn c) ks)) \<and> kName ` set (List.map_filter (demoNodeIn c) ks) \<subseteq> set ks"
    if "distinct ks" for c ks
    using that by (induction ks) (auto dest: demoNodeIn_name split: option.splits)
  then have "listsNodes demoApi demoNodeIn"
    by (auto simp: listsNodes_def demoApi_def List.map_filter_def) (metis demoNodeIn_name)
  moreover have "getsNode demoApi demoNodeIn" by (auto simp: getsNode_def demoApi_def split: option.splits)
  moreover have "patchesLabels demoApi demoNodeIn"
    unfolding patchesLabels_def
  proof (intro allI impI conjI)
    fix name body c c' assume "apiPatch demoApi name body c = Inr c'"
    then obtain n where n: "demoNodeIn c name = Some n" "c' = gm_put name (n\<lparr>kLabels := demoPatch body (kLabels n)\<rparr>) c"
      by (auto simp: demoApi_def split: option.splits)
    have "demoNodeIn c' name = Some (n\<lparr>kLabels := demoPatch body (kLabels n)\<rparr>)"
      using demoNodeIn_name [OF n(1)] demoPatch_wf by (simp add: n(2) demoNodeIn_def)
    then show "\<exists>n n'. demoNodeIn c name = Some n \<and> demoNodeIn c' name = Some n' \<and>
        map_of (kLabels n') = applyPatch body (map_of (kLabels n))"
      using n(1) demoPatch_get by auto
    fix m assume "m \<noteq> name"
    then show "demoNodeIn c' m = demoNodeIn c m" by (simp add: n(2) demoNodeIn_def)
  qed
  moreover have "labelsWf demoNodeIn" by (auto simp: labelsWf_def dest: demoNodeIn_name)
  moreover have "selectsByValue demoApi" by (simp add: selectsByValue_def demoApi_def)
  ultimately show ?thesis by (simp add: kubeOk_def)
qed

definition demoEngine :: K8sEngine where
  "demoEngine = \<lparr>params = \<lparr>NodeSelector = [], FabricLabels = [], AcceleratorLabel = [],
     AcceleratorDomainSourceLabel = [], nodeListOpt = None, labelKeys = NewTopologyLabelKeys [] []\<rparr>, cachedNodeMap = None\<rparr>"

definition demoNodes :: demoCluster where
  "demoNodes = map (\<lambda>(n, l). (n, \<lparr>kName = n, kLabels = l, kAnnotations = []\<rparr>))
     [(''n1'', [(''zone'', ''a''), (''fabric.topograph.run/tier-7'', ''old'')]), (''n2'', [(''zone'', ''b'')])]"

definition demoRequest :: "ComputeInstances list" where
  "demoRequest = [\<lparr>Region = ''local'', Instances = [(''i1'', ''n1'')]\<rparr>]"

lemma demoRun_labels:
  "case BuildNodeLabels labelHeap (labelKeys (params demoEngine)) (Some labelGraph) NewTopologyLabeler of
     Some (Inr l) \<Rightarrow>
       map (reconciled demoApi demoEngine (labelsFor (nodeMap l) ''n1'') (the (gm_get demoNodes ''n1'')))
         [''zone'', ''fabric.topograph.run/tier-0'', ''fabric.topograph.run/tier-7''] = [Some ''a'', Some ''s1'', None]
   | _ \<Rightarrow> False"
  by code_simp

theorem GenerateOutput_reconciles_witness:
  "\<exists>eng1 eng2 c' n1 n2. ResolveComputeInstances demoApi None demoRequest demoEngine demoNodes = (Inr demoRequest, eng1) \<and>
     GenerateOutput demoApi None labelHeap (Some labelGraph) (eng1, demoNodes) = Some (Inr (''OK'' @ [newline]), eng2, c') \<and>
     demoNodeIn c' ''n1'' = Some n1 \<and> demoNodeIn c' ''n2'' = Some n2 \<and>
     map (map_of (kLabels n1)) [''zone'', ''fabric.topograph.run/tier-0'', ''fabric.topograph.run/tier-7''] =
       [Some ''a'', Some ''s1'', None] \<and>
     map_of (kLabels n2) = map_of [(''zone'', ''b'')]"
proof -
  let ?R = "ResolveComputeInstances demoApi None demoRequest demoEngine demoNodes"
  have "fst ?R = Inr demoRequest" by code_simp
  then obtain eng1 where R: "?R = (Inr demoRequest, eng1)" by (cases ?R) simp
  let ?G = "GenerateOutput demoApi None labelHeap (Some labelGraph) (eng1, demoNodes)"
  have "map_option fst (GenerateOutput demoApi None labelHeap (Some labelGraph) (snd ?R, demoNodes)) =
      Some (Inr (''OK'' @ [newline]))" by code_simp
  then obtain eng2 c' where G: "?G = Some (Inr (''OK'' @ [newline]), eng2, c')" by (auto simp: R)
  obtain l where l: "BuildNodeLabels labelHeap (labelKeys (params demoEngine)) (Some labelGraph) NewTopologyLabeler = Some (Inr l)"
    and v: "map (reconciled demoApi demoEngine (labelsFor (nodeMap l) ''n1'') (the (gm_get demoNodes ''n1'')))
         [''zone'', ''fabric.topograph.run/tier-0'', ''fabric.topograph.run/tier-7''] = [Some ''a'', Some ''s1'', None]"
    using demoRun_labels by (auto split: option.splits sum.splits)
  have nodes: "apiList demoApi (nodeListOpt (params demoEngine)) demoNodes = Inr (gm_vals demoNodes)"
    "''n1'' \<in> requestedNames demoRequest" "''n2'' \<notin> requestedNames demoRequest" "''n1'' \<in> kName ` set (gm_vals demoNodes)"
    "demoNodeIn demoNodes ''n1'' = gm_get demoNodes ''n1''" "demoNodeIn demoNodes ''n2'' = gm_get demoNodes ''n2''"
    "gm_get demoNodes ''n1'' \<noteq> None" "map_option kLabels (gm_get demoNodes ''n2'') = Some [(''zone'', ''b'')]"
    "Tiers labelGraph \<noteq> None"
    by code_simp+
  note reconciles = GenerateOutput_reconciles [OF demoApi_ok R nodes(1) disjI1 [OF nodes(9)] l G]
  obtain m1 m2 where m: "gm_get demoNodes ''n1'' = Some m1" "gm_get demoNodes ''n2'' = Some m2" "kLabels m2 = [(''zone'', ''b'')]"
    using nodes(7,8) by auto
  obtain n1 where "demoNodeIn c' ''n1'' = Some n1" "map_of (kLabels n1) = reconciled demoApi demoEngine (labelsFor (nodeMap l) ''n1'') m1"
    using reconciles [of "''n1''" m1] nodes(2,4,5) m by auto
  moreover obtain n2 where "demoNodeIn c' ''n2'' = Some n2" "map_of (kLabels n2) = map_of (kLabels m2)"
    using reconciles [of "''n2''" m2] nodes(3,6) m by auto
  ultimately show ?thesis using R G v m by auto
qed

end
