(* ===== verification/GraphEngine.thy ===== *)
theory GraphEngine
  imports TreeWalk
begin

text \<open>
  Component \<open>pkg/engines/graph\<close>: the engine that reports the topology as one record per instance. When
  the provider attached no records they are derived from the hierarchy and the accelerator domains;
  attached records are completed from the derived ones.

  The walk descends the hierarchy without a visited set, so it has a depth bound (\<open>None\<close>: the bound
  was too small); a nil vertex makes the code panic. The JSON encoder and the file system are
  arguments.
\<close>

section \<open>Model\<close>

record graphParams =
  TopologyConfigPath :: string

record GraphEngine =
  gparams :: "graphParams option"
  requested :: "(string, bool) gomap option"

record walkState =
  wsInstances :: "(string, Instance) gomap"
  wsNameToID :: "(string, string) gomap"

text \<open>A lookup in the set of requested IDs and names; without a set everything is requested.\<close>

definition isRequested :: "(string, bool) gomap option \<Rightarrow> string \<Rightarrow> bool" where
  "isRequested req key =
     (case req of None \<Rightarrow> True | Some m \<Rightarrow> (case gm_get m key of Some b \<Rightarrow> b | None \<Rightarrow> False))"

definition newInstance :: "string \<Rightarrow> string list \<Rightarrow> Instance" where
  "newInstance i layers = \<lparr>instID = i, NetworkLayers = layers, Labels = [], NetLayers = []\<rparr>"

definition nodeID :: "Vertex \<Rightarrow> string" where
  "nodeID v = (if vID v = [] then vName v else vID v)"

definition layerName :: "Vertex \<Rightarrow> string" where
  "layerName v = (if vName v = [] then vID v else vName v)"

definition nextPath :: "Vertex \<Rightarrow> string list \<Rightarrow> string list" where
  "nextPath child trail = (if vID child \<noteq> NoTopology then trail @ [layerName child] else trail)"

definition addLeaf ::
  "(string, bool) gomap option \<Rightarrow> Vertex \<Rightarrow> string list \<Rightarrow> walkState \<Rightarrow> walkState" where
  "addLeaf req child trail st =
     (let i = nodeID child
      in if i = [] then st
         else if gm_get (wsInstances st) i \<noteq> None then st
         else if req \<noteq> None \<and> \<not> isRequested req i \<and> \<not> isRequested req (vName child) then st
         else
           \<lparr>wsInstances = gm_put i (newInstance i (rev trail)) (wsInstances st),
            wsNameToID =
              (if vName child \<noteq> [] \<and> vName child \<noteq> i \<and> gm_get (wsNameToID st) (vName child) = None
               then gm_put (vName child) i (wsNameToID st) else wsNameToID st)\<rparr>)"

text \<open>The children in the order of their keys.\<close>

definition sortedChildren :: "Vertex \<Rightarrow> nat option list" where
  "sortedChildren v =
     map (\<lambda>key. case gm_get (Vertices v) key of Some c \<Rightarrow> c | None \<Rightarrow> None) (sorted_keys (Vertices v))"

fun walk ::
  "nat \<Rightarrow> heap \<Rightarrow> (string, bool) gomap option \<Rightarrow> nat option list \<Rightarrow> string list \<Rightarrow> walkState
     \<Rightarrow> (go_panic + walkState) option" where
  "walk n h req [] trail st = Some (Inr st)"
| "walk n h req (None # rest) trail st = Some (Inl NilDereference)"
| "walk n h req (Some c # rest) trail st =
     (if \<not> c < length h then Some (Inl NilDereference)
      else if Vertices (h ! c) = [] then walk n h req rest trail (addLeaf req (h ! c) trail st)
      else
        (case n of
           0 \<Rightarrow> None
         | Suc m \<Rightarrow>
             (case walk m h req (sortedChildren (h ! c)) (nextPath (h ! c) trail) st of
                None \<Rightarrow> None
              | Some (Inl p) \<Rightarrow> Some (Inl p)
              | Some (Inr st') \<Rightarrow> walk n h req rest trail st')))"

definition hostInstanceOf :: "HostInfo \<Rightarrow> walkState \<Rightarrow> string" where
  "hostInstanceOf host st =
     (let i = hostInstanceID host;
          i = (if gm_get (wsInstances st) i = None then
                 (case gm_get (wsNameToID st) (HostName host) of
                    Some mapped \<Rightarrow> mapped
                  | None \<Rightarrow> if gm_get (wsInstances st) (HostName host) \<noteq> None then HostName host else i)
               else i)
      in if i = [] then HostName host else i)"

definition labelAt :: "Instance \<Rightarrow> string \<Rightarrow> string" where
  "labelAt inst key = (case gm_get (Labels inst) key of Some v \<Rightarrow> v | None \<Rightarrow> [])"

definition withLabel :: "string \<Rightarrow> string \<Rightarrow> Instance \<Rightarrow> Instance" where
  "withLabel key v inst = inst\<lparr>Labels := gm_put key v (Labels inst)\<rparr>"

definition addDomainHost ::
  "(string, bool) gomap option \<Rightarrow> string \<Rightarrow> HostInfo \<Rightarrow> walkState \<Rightarrow> walkState" where
  "addDomainHost req domain host st =
     (let i = hostInstanceOf host st
      in if i = [] then st
         else
           (case (case gm_get (wsInstances st) i of
                    Some inst \<Rightarrow> Some inst
                  | None \<Rightarrow>
                      if req \<noteq> None \<and> \<not> isRequested req i \<and> \<not> isRequested req (HostName host) then None
                      else Some (newInstance i [])) of
              None \<Rightarrow> st
            | Some inst \<Rightarrow>
                if labelAt inst KeyTopologyXclrDomain \<noteq> [] then st
                else
                  (let inst1 = withLabel KeyTopologyXclrDomain domain inst;
                       inst2 = (if SubDomain host \<noteq> []
                                then withLabel KeyTopologyXclrSubDomain (SubDomain host) inst1 else inst1)
                   in st\<lparr>wsInstances := gm_put i inst2 (wsInstances st)\<rparr>)))"

definition sortedHosts :: "DomainMap \<Rightarrow> (string \<times> HostInfo) list" where
  "sortedHosts domains =
     concat (map (\<lambda>domain. case gm_get domains domain of
         None \<Rightarrow> []
       | Some hosts \<Rightarrow>
           concat (map (\<lambda>hostKey. case gm_get hosts hostKey of None \<Rightarrow> [] | Some host \<Rightarrow> [(domain, host)])
             (sorted_keys hosts)))
       (sorted_keys domains))"

definition deriveInstances ::
  "heap \<Rightarrow> Graph \<Rightarrow> (string, bool) gomap option \<Rightarrow> (go_panic + (string, Instance) gomap) option" where
  "deriveInstances h graph req =
     (let st = \<lparr>wsInstances = [], wsNameToID = []\<rparr>
      in case (case Tiers graph of
                 None \<Rightarrow> Some (Inr st)
               | Some root \<Rightarrow> walk (length h) h req (sortedChildren (h ! root)) [] st) of
           None \<Rightarrow> None
         | Some (Inl p) \<Rightarrow> Some (Inl p)
         | Some (Inr st1) \<Rightarrow>
             Some (Inr (wsInstances
               (fold (\<lambda>(domain, host). addDomainHost req domain host)
                 (sortedHosts (case gDomains graph of None \<Rightarrow> [] | Some d \<Rightarrow> d)) st1))))"

definition fillLabel :: "Instance \<Rightarrow> string \<Rightarrow> Instance \<Rightarrow> Instance" where
  "fillLabel derived key inst =
     (let val = labelAt derived key
      in if val = [] \<or> labelAt inst key \<noteq> [] then inst
         else if key = KeyTopologyXclrSubDomain \<and>
                 labelAt inst KeyTopologyXclrDomain \<noteq> labelAt derived KeyTopologyXclrDomain then inst
         else inst\<lparr>Labels := gm_put key val (gm_copy [] (Labels inst))\<rparr>)"

definition fillInstance :: "Instance \<Rightarrow> Instance \<Rightarrow> Instance" where
  "fillInstance inst derived =
     (let inst1 = (if NetworkLayers inst = [] \<and> NetworkLayers derived \<noteq> []
                   then inst\<lparr>NetworkLayers := NetworkLayers derived\<rparr> else inst)
      in fold (fillLabel derived) [KeyTopologyXclrDomain, KeyTopologyXclrSubDomain] inst1)"

text \<open>Reading a missing record gives the zero record.\<close>

definition instanceAt :: "(string, Instance) gomap \<Rightarrow> string \<Rightarrow> Instance" where
  "instanceAt m i = (case gm_get m i of Some inst \<Rightarrow> inst | None \<Rightarrow> newInstance [] [])"

definition graphInstances ::
  "heap \<Rightarrow> Graph option \<Rightarrow> (string, bool) gomap option \<Rightarrow> (go_panic + (string, Instance) gomap) option" where
  "graphInstances h graph req =
     (case graph of
        None \<Rightarrow> Some (Inr [])
      | Some g \<Rightarrow>
          (case deriveInstances h g req of
             None \<Rightarrow> None
           | Some (Inl p) \<Rightarrow> Some (Inl p)
           | Some (Inr derived) \<Rightarrow>
               if gInstances g = [] then Some (Inr derived)
               else
                 Some (Inr (fold (\<lambda>(i, inst) m. gm_put i (fillInstance inst (instanceAt derived i)) m)
                   (gInstances g) []))))"

definition makeInstancesDocument :: "(string, Instance) gomap \<Rightarrow> Instance list" where
  "makeInstancesDocument instances = map (instanceAt instances) (sorted_keys instances)"

definition getParameters :: "('cfg \<Rightarrow> string + graphParams) \<Rightarrow> 'cfg \<Rightarrow> string + graphParams" where
  "getParameters decode cfg = decode cfg"

definition Loader :: "('cfg \<Rightarrow> string + graphParams) \<Rightarrow> 'cfg \<Rightarrow> httperr + GraphEngine" where
  "Loader decode cfg =
     (case getParameters decode cfg of
        Inl err \<Rightarrow> Inl (NewError StatusBadRequest err)
      | Inr p \<Rightarrow> Inr \<lparr>gparams = Some p, requested = None\<rparr>)"

text \<open>\<open>create\<close> writes a file and returns its error.\<close>

definition GenerateOutput ::
  "(Instance list \<Rightarrow> string + string) \<Rightarrow> (string \<Rightarrow> string \<Rightarrow> string option) \<Rightarrow> heap \<Rightarrow> Graph option \<Rightarrow> GraphEngine
     \<Rightarrow> (go_panic + (httperr + string)) option" where
  "GenerateOutput marshal create h graph eng =
     (case graphInstances h graph (requested eng) of
        None \<Rightarrow> None
      | Some (Inl p) \<Rightarrow> Some (Inl p)
      | Some (Inr instances) \<Rightarrow>
          Some (Inr
            (case marshal (makeInstancesDocument instances) of
               Inl err \<Rightarrow> Inl (NewError StatusInternalServerError err)
             | Inr data \<Rightarrow>
                 (let file = (case gparams eng of None \<Rightarrow> [] | Some p \<Rightarrow> TopologyConfigPath p)
                  in if file = [] then Inr data
                     else
                       (case create file data of
                          Some err \<Rightarrow> Inl (NewError StatusInternalServerError err)
                        | None \<Rightarrow> Inr (''OK'' @ [newline]))))))"

definition requestKeys :: "ComputeInstances list \<Rightarrow> string list" where
  "requestKeys instances =
     filter (\<lambda>key. key \<noteq> []) (concat (map (\<lambda>ci. concat (map (\<lambda>(i, name). [i, name]) (Instances ci))) instances))"

definition ResolveComputeInstances ::
  "ComputeInstances list \<Rightarrow> GraphEngine \<Rightarrow> (httperr + ComputeInstances list) \<times> GraphEngine" where
  "ResolveComputeInstances instances eng =
     (if instances \<noteq> [] then
        (Inr instances, eng\<lparr>requested := Some (fold (\<lambda>key m. gm_put key True m) (requestKeys instances) [])\<rparr>)
      else
        (Inl (NewError StatusBadRequest
           ''graph engine requires nodes in the request or a provider that can supply compute instances''), eng))"

section \<open>The walk\<close>

text \<open>The names collected on the way down to the switches of a chain, root first.\<close>

definition trailOf :: "heap \<Rightarrow> nat list \<Rightarrow> string list" where
  "trailOf h p = rev (map layerName (filter (\<lambda>v. vID v \<noteq> NoTopology) (map ((!) h) (butlast p))))"

definition leafAdd :: "heap \<Rightarrow> (string, bool) gomap option \<Rightarrow> nat list \<Rightarrow> walkState \<Rightarrow> walkState" where
  "leafAdd h req q st = addLeaf req (h ! hd q) (trailOf h (tl q)) st"

lemma trailOf_Cons: "p \<noteq> [] \<Longrightarrow> trailOf h (c # p) = nextPath (h ! c) (trailOf h p)"
  by (simp add: trailOf_def nextPath_def)

lemma sortedChildren_kids:
  assumes "childrenOk h a (Vertices (h ! a))"
  shows "sortedChildren (h ! a) = map Some (sortedKids h a)"
proof -
  let ?V = "Vertices (h ! a)"
  have kid: "\<exists>w. gm_get ?V k = Some (Some w)" if k: "k \<in> set (gm_keys ?V)" for k
  proof -
    obtain c where c: "gm_get ?V k = Some c" using k gm_key_get [of k ?V] by metis
    then have "\<exists>w. c = Some w" using map_of_SomeD [OF c] assms by (auto simp: childrenOk_def)
    then show ?thesis using c by blast
  qed
  have "map (\<lambda>key. case gm_get ?V key of Some c \<Rightarrow> c | None \<Rightarrow> None) ks =
      map Some (concat (map (\<lambda>key. case gm_get ?V key of Some (Some w) \<Rightarrow> [w] | _ \<Rightarrow> []) ks))"
    if "set ks \<subseteq> set (gm_keys ?V)" for ks
    using that by (induction ks) (use kid in \<open>fastforce simp del: set_map\<close>)+
  then show ?thesis unfolding sortedChildren_def sortedKids_def by simp
qed

text \<open>On a tree the walk is a loop over the chains of the leaves below the starting vertex.\<close>

lemma walk_chains:
  assumes T: "treeOrder h r T" and wf: "heapWf h"
  shows "isChain (sortedKids h) r p \<Longrightarrow> set cs \<subseteq> set (sortedKids h (hd p)) \<Longrightarrow>
    walk n h req (map Some cs) (trailOf h p) st =
      map_option (\<lambda>pss. Inr (fold (leafAdd h req) (concat pss) st))
        (those (map (\<lambda>c. walkLeaves (sortedKids h) (Suc n) (c # p)) cs))"
proof (induction n arbitrary: p cs st rule: less_induct)
  case (less n)
  note v = visits_sortedKids [OF T wf]
  note p = less.prems(1)
  have ne: "p \<noteq> []" using p by auto
  show ?case
    using less.prems(2)
  proof (induction cs arbitrary: st)
    case (Cons c cs)
    have chain: "isChain (sortedKids h) r (c # p)" using p ne Cons.prems by (simp add: isChain_Cons)
    then have cT: "c \<in> set T" using chain_in_tree [OF T v] by fastforce
    then have c: "c < length h" "childrenOk h c (Vertices (h ! c))" using T by (auto simp: treeOrder_def)
    have leaf: "sortedKids h c = [] \<longleftrightarrow> Vertices (h ! c) = []"
      using arg_cong [OF sortedChildren_kids [OF c(2)], of length]
      by (cases "Vertices (h ! c)") (auto simp: sortedChildren_def sorted_keys_def)
    show ?case
    proof (cases "Vertices (h ! c) = []")
      case True
      then show ?thesis using Cons.IH Cons.prems c leaf
        by (auto simp: leafAdd_def map_option_case split: option.splits)
    next
      case False
      show ?thesis
      proof (cases n)
        case 0
        then show ?thesis using False c leaf by (cases "sortedKids h c") auto
      next
        case (Suc m)
        have "walk m h req (sortedChildren (h ! c)) (nextPath (h ! c) (trailOf h p)) st =
            map_option (\<lambda>pss. Inr (fold (leafAdd h req) (concat pss) st))
              (those (map (\<lambda>d. walkLeaves (sortedKids h) (Suc m) (d # c # p)) (sortedKids h c)))"
          using less.IH [OF _ chain, of m "sortedKids h c" st] Suc sortedChildren_kids [OF c(2)] by (simp add: trailOf_Cons [OF ne])
        moreover have "walkLeaves (sortedKids h) (Suc n) (c # p) =
            map_option concat (those (map (\<lambda>d. walkLeaves (sortedKids h) (Suc m) (d # c # p)) (sortedKids h c)))"
          using False leaf Suc by simp
        ultimately show ?thesis using Cons.IH Cons.prems False c Suc
          by (auto simp: map_option_case simp del: walkLeaves.simps split: option.splits)
      qed
    qed
  qed simp
qed

section \<open>The reported instances\<close>

text \<open>A node is reported when everything is requested, or its ID or its name is.\<close>

definition wanted :: "(string, bool) gomap option \<Rightarrow> string \<Rightarrow> string \<Rightarrow> bool" where
  "wanted req i name \<longleftrightarrow> isRequested req i \<or> isRequested req name"

lemma wanted_iff: "req \<noteq> None \<and> \<not> isRequested req i \<and> \<not> isRequested req name \<longleftrightarrow> \<not> wanted req i name"
  by (cases req) (auto simp: wanted_def isRequested_def)

text \<open>The chains of the compute nodes below the root.\<close>

definition nodeChain :: "heap \<Rightarrow> nat \<Rightarrow> nat list \<Rightarrow> bool" where
  "nodeChain h r p \<longleftrightarrow> isChain (kids h) r p \<and> Vertices (h ! hd p) = [] \<and> hd p \<noteq> r"

text \<open>The switches above a node, closest first, without the root and the no-topology marker.\<close>

definition layersAbove :: "heap \<Rightarrow> nat list \<Rightarrow> string list" where
  "layersAbove h p = map layerName (filter (\<lambda>v. vID v \<noteq> NoTopology) (map ((!) h) (butlast (tl p))))"

lemma leafAdd_get:
  "gm_get (wsInstances (leafAdd h req q st)) i =
     (if gm_get (wsInstances st) i = None \<and> i = nodeID (h ! hd q) \<and> i \<noteq> [] \<and> wanted req i (vName (h ! hd q))
      then Some (newInstance i (layersAbove h q)) else gm_get (wsInstances st) i)"
proof -
  have "rev (trailOf h (tl q)) = layersAbove h q" by (simp add: trailOf_def layersAbove_def)
  then show ?thesis unfolding leafAdd_def addLeaf_def Let_def wanted_iff by auto
qed

lemma leafAdds_get:
  assumes "\<forall>q \<in> set ps. nodeID (h ! hd q) = i \<longrightarrow> q = p"
  shows "gm_get (wsInstances (fold (leafAdd h req) ps st)) i =
    (if gm_get (wsInstances st) i = None \<and> p \<in> set ps \<and> i = nodeID (h ! hd p) \<and> i \<noteq> [] \<and> wanted req i (vName (h ! hd p))
     then Some (newInstance i (layersAbove h p)) else gm_get (wsInstances st) i)"
  using assms
proof (induction ps arbitrary: st)
  case (Cons q ps)
  have "\<forall>q \<in> set ps. nodeID (h ! hd q) = i \<longrightarrow> q = p" using Cons.prems by simp
  note IH = Cons.IH [OF this, of "leafAdd h req q st"]
  show ?case
  proof (cases "nodeID (h ! hd q) = i")
    case True
    then have "q = p" using Cons.prems by simp
    then show ?thesis using IH leafAdd_get [of h req p st i] by auto
  next
    case False
    then show ?thesis using IH leafAdd_get [of h req q st i] by auto
  qed
qed simp

lemma leafAdds_source:
  "gm_get (wsInstances (fold (leafAdd h req) ps st)) i = Some inst \<Longrightarrow> gm_get (wsInstances st) i = None \<Longrightarrow>
     \<exists>q \<in> set ps. i = nodeID (h ! hd q) \<and> wanted req i (vName (h ! hd q)) \<and> inst = newInstance i (layersAbove h q)"
proof (induction ps arbitrary: st)
  case (Cons q ps)
  show ?case
  proof (cases "gm_get (wsInstances (leafAdd h req q st)) i")
    case None
    then show ?thesis using Cons by auto
  next
    case (Some inst')
    have "gm_get (wsInstances (fold (leafAdd h req) ps st)) i = Some inst'" if "gm_get (wsInstances st) i = Some inst'" for st
      using that by (induction ps arbitrary: st) (simp_all add: leafAdd_get)
    then have "inst' = inst" using Cons.prems(1) Some by simp
    then show ?thesis using Some Cons.prems(2) unfolding leafAdd_get by (auto split: if_splits)
  qed
qed simp

text \<open>The names of the reported nodes lead to reported nodes.\<close>

definition namesOk :: "walkState \<Rightarrow> bool" where
  "namesOk st \<longleftrightarrow> (\<forall>n i. gm_get (wsNameToID st) n = Some i \<longrightarrow> i \<noteq> [] \<and> gm_get (wsInstances st) i \<noteq> None)"

lemma namesOk_addLeaf:
  assumes "namesOk st"
  shows "namesOk (addLeaf req v trail st)"
proof -
  have "i \<noteq> [] \<and> gm_get (wsInstances (addLeaf req v trail st)) i \<noteq> None"
    if "gm_get (wsNameToID (addLeaf req v trail st)) n = Some i" for n i
  proof (cases "gm_get (wsNameToID st) n = Some i")
    case True
    then have "i \<noteq> [] \<and> gm_get (wsInstances st) i \<noteq> None" using assms unfolding namesOk_def by blast
    then show ?thesis by (auto simp: addLeaf_def Let_def)
  next
    case False
    then show ?thesis using that by (auto simp: addLeaf_def Let_def split: if_splits)
  qed
  then show ?thesis unfolding namesOk_def by blast
qed

lemma namesOk_leafAdds: "namesOk st \<Longrightarrow> namesOk (fold (leafAdd h req) ps st)"
  by (induction ps arbitrary: st) (simp_all add: leafAdd_def namesOk_addLeaf)

text \<open>The domains only add labels, and records for requested hosts.\<close>

lemma addDomainHost_keep:
  assumes "gm_get (wsInstances st) i = Some inst"
  shows "\<exists>l. gm_get (wsInstances (addDomainHost req d host st)) i = Some (inst\<lparr>Labels := l\<rparr>)"
proof -
  have "\<exists>l. inst = inst\<lparr>Labels := l\<rparr>" by (rule exI [of _ "Labels inst"]) simp
  then show ?thesis
    using assms by (auto simp: addDomainHost_def Let_def withLabel_def split: option.splits)
qed

definition ownRecord :: "(string, bool) gomap option \<Rightarrow> string \<Rightarrow> Instance \<Rightarrow> HostInfo \<Rightarrow> bool" where
  "ownRecord req i inst host \<longleftrightarrow>
     i = (if hostInstanceID host = [] then HostName host else hostInstanceID host) \<and> wanted req i (HostName host) \<and>
     instID inst = i \<and> NetworkLayers inst = []"

lemma addDomainHost_new:
  assumes "gm_get (wsInstances st) i = None" and "gm_get (wsInstances (addDomainHost req d host st)) i = Some inst" and "namesOk st"
  shows "ownRecord req i inst host"
proof -
  have w: "i = hostInstanceOf host st" "wanted req i (HostName host)" "instID inst = i" "NetworkLayers inst = []"
    using assms(1,2) unfolding addDomainHost_def Let_def wanted_iff
    by (auto simp: newInstance_def withLabel_def split: option.splits if_splits)
  moreover have "i = (if hostInstanceID host = [] then HostName host else hostInstanceID host)"
  proof (cases "gm_get (wsNameToID st) (HostName host)")
    case None
    then show ?thesis using w(1) assms(1) by (auto simp: hostInstanceOf_def Let_def split: if_splits)
  next
    case (Some v)
    then have "v \<noteq> [] \<and> gm_get (wsInstances st) v \<noteq> None" using assms(3) unfolding namesOk_def by blast
    then have "v \<noteq> []" "v \<noteq> i" using assms(1) by auto
    then show ?thesis using w(1) assms(1) Some by (auto simp: hostInstanceOf_def Let_def split: if_splits)
  qed
  ultimately show ?thesis unfolding ownRecord_def by blast
qed

lemma namesOk_addDomainHost:
  assumes "namesOk st"
  shows "namesOk (addDomainHost req d host st)"
proof -
  have "gm_get (wsInstances (addDomainHost req d host st)) i \<noteq> None" if "gm_get (wsInstances st) i \<noteq> None" for i
    using that addDomainHost_keep by blast
  moreover have "wsNameToID (addDomainHost req d host st) = wsNameToID st"
    by (auto simp: addDomainHost_def Let_def split: option.splits)
  ultimately show ?thesis using assms by (simp add: namesOk_def)
qed

lemma domainHosts_keep:
  "gm_get (wsInstances st) i = Some inst \<Longrightarrow>
     \<exists>l. gm_get (wsInstances (fold (\<lambda>(d, host). addDomainHost req d host) hs st)) i = Some (inst\<lparr>Labels := l\<rparr>)"
proof (induction hs arbitrary: st inst)
  case Nil
  have "inst = inst\<lparr>Labels := Labels inst\<rparr>" by simp
  then show ?case using Nil by (auto intro: exI [of _ "Labels inst"])
next
  case (Cons x hs)
  obtain d host where x: "x = (d, host)" by (cases x)
  obtain l where "gm_get (wsInstances (addDomainHost req d host st)) i = Some (inst\<lparr>Labels := l\<rparr>)"
    using addDomainHost_keep [OF Cons.prems] by blast
  from Cons.IH [OF this] show ?case by (simp add: x)
qed

lemma domainHosts_source:
  "gm_get (wsInstances (fold (\<lambda>(d, host). addDomainHost req d host) hs st)) i = Some inst \<Longrightarrow>
     gm_get (wsInstances st) i = None \<Longrightarrow> namesOk st \<Longrightarrow> \<exists>(d, host) \<in> set hs. ownRecord req i inst host"
proof (induction hs arbitrary: st)
  case (Cons x hs)
  obtain d host where x: "x = (d, host)" by (cases x)
  show ?case
  proof (cases "gm_get (wsInstances (addDomainHost req d host st)) i")
    case None
    then show ?thesis using Cons x namesOk_addDomainHost by auto
  next
    case (Some inst')
    obtain l where "inst = inst'\<lparr>Labels := l\<rparr>" using domainHosts_keep [OF Some, of req hs] Cons.prems(1) x by auto
    then show ?thesis using addDomainHost_new [OF Cons.prems(2) Some Cons.prems(3)] x by (auto simp: ownRecord_def)
  qed
qed simp

lemma sortedHosts_mem:
  "(d, host) \<in> set (sortedHosts doms) \<Longrightarrow> \<exists>hosts k. gm_get doms d = Some hosts \<and> gm_get hosts k = Some host"
proof -
  assume "(d, host) \<in> set (sortedHosts doms)"
  then obtain hosts k where "gm_get doms d = Some hosts" "gm_get hosts k = Some host"
    by (auto simp: sortedHosts_def split: option.splits) (metis)
  then show ?thesis by blast
qed

lemma deriveInstances_chains:
  assumes r: "Tiers g = Some r" and T: "treeOrder h r T" and wf: "heapWf h"
  obtains ps where "set ps = {p. nodeChain h r p}"
    and "deriveInstances h g req =
      Some (Inr (wsInstances (fold (\<lambda>(d, host). addDomainHost req d host)
        (sortedHosts (case gDomains g of None \<Rightarrow> [] | Some d \<Rightarrow> d))
        (fold (leafAdd h req) ps \<lparr>wsInstances = [], wsNameToID = []\<rparr>))))"
proof -
  let ?nxt = "sortedKids h" and ?n = "Suc (Suc (length h))"
  note v = visits_sortedKids [OF T wf]
  have ch: "isChain ?nxt r [r]" by simp
  have ok: "childrenOk h r (Vertices (h ! r))" using T treeOrder_root [OF T] by (simp add: treeOrder_def)
  obtain ps where ps: "walkLeaves ?nxt ?n [r] = Some ps"
    using walk_total [OF T v ch, of ?n] treeOrder_length [OF T] by auto
  have mem: "q \<in> set ps \<longleftrightarrow> isChain (kids h) r q \<and> ?nxt (hd q) = []" for q
    using walk_mem [OF ps ch] isChain_last [of ?nxt r q] chain_order [OF T v]
    by (auto simp: suffix_def) (metis append_butlast_last_id)
  have leaf: "?nxt (hd q) = [] \<longleftrightarrow> Vertices (h ! hd q) = []" if "isChain (kids h) r q" for q
  proof -
    have q: "isChain ?nxt r q" using that chain_order [OF T v] by simp
    then have "hd q \<in> set T" using chain_in_tree [OF T v q] isChain_last [OF q] by auto
    then have "childrenOk h (hd q) (Vertices (h ! hd q))" using T by (auto simp: treeOrder_def)
    from arg_cong [OF sortedChildren_kids [OF this], of length] show ?thesis
      by (cases "Vertices (h ! hd q)") (auto simp: sortedChildren_def sorted_keys_def)
  qed
  let ?qs = "if ?nxt r = [] then [] else ps"
  have root: "hd q = r \<longleftrightarrow> q = [r]" if "isChain (kids h) r q" for q
    using chain_unique [OF T v _ ch, of q] chain_order [OF T v] that by auto
  have "set ?qs = {p. nodeChain h r p}"
    unfolding nodeChain_def using mem leaf root ps by (auto dest: leaf [of "[r]", THEN iffD2])
  moreover have "walk (length h) h req (map Some (?nxt r)) [] st = Some (Inr (fold (leafAdd h req) ?qs st))" for st
  proof (cases "?nxt r = []")
    case False
    then obtain pss where "those (map (\<lambda>c. walkLeaves ?nxt (Suc (length h)) [c, r]) (?nxt r)) = Some pss" "ps = concat pss"
      using ps by (auto simp del: walkLeaves.simps simp: walkLeaves.simps(2) [of ?nxt "Suc (length h)"])
    then show ?thesis using walk_chains [OF T wf ch, of "?nxt r" "length h" req st] False
      by (simp add: trailOf_def del: walkLeaves.simps)
  qed simp
  ultimately show thesis
    using that [of ?qs] r by (simp add: deriveInstances_def Let_def sortedChildren_kids [OF ok])
qed

lemma nodeChain_unique:
  assumes T: "treeOrder h r T" and root: "idAt h r = []" and p: "nodeChain h r p"
  shows "nodeID (h ! hd p) = vID (h ! hd p)" and "vID (h ! hd p) \<noteq> []"
    and "\<forall>q \<in> {q. nodeChain h r q}. nodeID (h ! hd q) = vID (h ! hd p) \<longrightarrow> q = p"
proof -
  have v: "visits (kids h) h T" by (simp add: visits_def)
  have inT: "hd q \<in> set T" if "nodeChain h r q" for q
    using that chain_in_tree [OF T v, of q] isChain_last [of "kids h" r q] by (auto simp: nodeChain_def)
  have inj: "a = b" if "a \<in> set T" "b \<in> set T" "idAt h a = idAt h b" for a b
    using T that by (auto simp: treeOrder_def distinct_map inj_on_def)
  have ne: "vID (h ! hd q) \<noteq> []" if "nodeChain h r q" for q
    using inj [OF inT [OF that] treeOrder_root [OF T]] root that by (auto simp: nodeChain_def)
  then have i: "nodeID (h ! hd q) = vID (h ! hd q)" if "nodeChain h r q" for q using that by (simp add: nodeID_def)
  show "nodeID (h ! hd p) = vID (h ! hd p)" "vID (h ! hd p) \<noteq> []" using i [OF p] ne [OF p] .
  show "\<forall>q \<in> {q. nodeChain h r q}. nodeID (h ! hd q) = vID (h ! hd p) \<longrightarrow> q = p"
  proof (intro ballI impI)
    fix q assume q: "q \<in> {q. nodeChain h r q}" "nodeID (h ! hd q) = vID (h ! hd p)"
    then have "hd q = hd p" using i inj inT p by auto
    then show "q = p" using chain_unique [OF T v, of q p] p q(1) by (simp add: nodeChain_def)
  qed
qed

text \<open>
  C12. Instances derived from a graph. For a hierarchy that is a tree with an unnamed root, deriving the
  instances returns. Every compute node that is requested by ID or name is reported under its ID
  with the switches above it as layers, closest first and without the no-topology marker. Nothing else is
  reported: a record is that of such a node, requested by its own ID or name, or that of a host of an accelerator domain,
  requested by its own ID or name, under its instance ID (or its name if it has none) and without layers.
\<close>

theorem deriveInstances_exact:
  assumes "Tiers g = Some r" and "treeOrder h r T" and "heapWf h" and "idAt h r = []"
  shows "\<exists>m. deriveInstances h g req = Some (Inr m) \<and>
    (\<forall>p. nodeChain h r p \<and> wanted req (vID (h ! hd p)) (vName (h ! hd p)) \<longrightarrow>
       (\<exists>inst. gm_get m (vID (h ! hd p)) = Some inst \<and> instID inst = vID (h ! hd p) \<and>
          NetworkLayers inst = layersAbove h p)) \<and>
    (\<forall>i inst. gm_get m i = Some inst \<longrightarrow>
       (\<exists>p. nodeChain h r p \<and> i = vID (h ! hd p) \<and> wanted req i (vName (h ! hd p))) \<or>
       (\<exists>doms d hosts k host. gDomains g = Some doms \<and> gm_get doms d = Some hosts \<and> gm_get hosts k = Some host \<and>
          ownRecord req i inst host))"
proof -
  let ?st = "\<lparr>wsInstances = [], wsNameToID = []\<rparr> :: walkState"
  let ?hs = "sortedHosts (case gDomains g of None \<Rightarrow> [] | Some d \<Rightarrow> d)"
  obtain ps where ps: "set ps = {p. nodeChain h r p}"
    and d: "deriveInstances h g req = Some (Inr (wsInstances (fold (\<lambda>(d, host). addDomainHost req d host) ?hs
        (fold (leafAdd h req) ps ?st))))"
    by (rule deriveInstances_chains [OF assms(1-3), where req = req])
  let ?st1 = "fold (leafAdd h req) ps ?st"
  let ?m = "wsInstances (fold (\<lambda>(d, host). addDomainHost req d host) ?hs ?st1)"
  have "\<exists>inst. gm_get ?m (vID (h ! hd p)) = Some inst \<and> instID inst = vID (h ! hd p) \<and> NetworkLayers inst = layersAbove h p"
    if p: "nodeChain h r p" and w: "wanted req (vID (h ! hd p)) (vName (h ! hd p))" for p
  proof -
    note u = nodeChain_unique [OF assms(2,4) p]
    have "gm_get (wsInstances ?st1) (vID (h ! hd p)) = Some (newInstance (vID (h ! hd p)) (layersAbove h p))"
      using leafAdds_get [of ps h "vID (h ! hd p)" p req ?st] u p w ps by simp
    from domainHosts_keep [OF this, of req ?hs] show ?thesis by (auto simp: newInstance_def)
  qed
  moreover have "(\<exists>p. nodeChain h r p \<and> i = vID (h ! hd p) \<and> wanted req i (vName (h ! hd p))) \<or>
      (\<exists>doms d hosts k host. gDomains g = Some doms \<and> gm_get doms d = Some hosts \<and> gm_get hosts k = Some host \<and>
         ownRecord req i inst host)" if i: "gm_get ?m i = Some inst" for i inst
  proof (cases "gm_get (wsInstances ?st1) i")
    case (Some inst')
    from leafAdds_source [OF this] obtain p where p: "nodeChain h r p" "i = nodeID (h ! hd p)" "wanted req i (vName (h ! hd p))"
      using ps by auto
    then show ?thesis using nodeChain_unique(1) [OF assms(2,4) p(1)] by auto
  next
    case None
    have "namesOk ?st1" by (rule namesOk_leafAdds) (simp add: namesOk_def)
    from domainHosts_source [OF i None this] obtain d host where host: "(d, host) \<in> set ?hs" "ownRecord req i inst host" by blast
    from host(1) obtain doms where "gDomains g = Some doms" "(d, host) \<in> set (sortedHosts doms)"
      by (cases "gDomains g") (auto simp: sortedHosts_def sorted_keys_def)
    then show ?thesis using sortedHosts_mem [of d host doms] host(2) by blast
  qed
  ultimately show ?thesis using d by blast
qed

theorem deriveInstances_exact_witness:
  "\<exists>m. deriveInstances labelHeap labelGraph (Some [(''n1'', True)]) = Some (Inr m) \<and>
     map_option NetworkLayers (gm_get m ''i1'') = Some [''s1'', ''s2'']"
proof -
  obtain T where T: "treeOrder labelHeap 0 T" using labelHeap_tree ..
  have h: "heapWf labelHeap" "idAt labelHeap 0 = []" "Tiers labelGraph = Some 0" by code_simp+
  have p: "nodeChain labelHeap 0 [3, 2, 1, 0]" "wanted (Some [(''n1'', True)]) (vID (labelHeap ! 3)) (vName (labelHeap ! 3))"
    "vID (labelHeap ! 3) = ''i1''" "layersAbove labelHeap [3, 2, 1, 0] = [''s1'', ''s2'']"
    by code_simp+
  obtain m where m: "deriveInstances labelHeap labelGraph (Some [(''n1'', True)]) = Some (Inr m)"
    and q: "\<forall>p. nodeChain labelHeap 0 p \<and> wanted (Some [(''n1'', True)]) (vID (labelHeap ! hd p)) (vName (labelHeap ! hd p)) \<longrightarrow>
       (\<exists>inst. gm_get m (vID (labelHeap ! hd p)) = Some inst \<and> instID inst = vID (labelHeap ! hd p) \<and>
          NetworkLayers inst = layersAbove labelHeap p)"
    using deriveInstances_exact [OF h(3) T h(1,2), of "Some [(''n1'', True)]"] by blast
  obtain inst where "gm_get m ''i1'' = Some inst" "NetworkLayers inst = [''s1'', ''s2'']"
    using q [rule_format, of "[3, 2, 1, 0]"] p by auto
  then show ?thesis using m by simp
qed

end
