(* ===== verification/Sha256.thy ===== *)
theory Sha256
  imports Prelude "HOL-Library.Word"
begin

unbundle bit_operations_syntax

text \<open>
  The hash function of \<open>crypto/sha256\<close> and the hexadecimal encoding of \<open>encoding/hex\<close>, which the engine
  for Node Feature Discovery uses for object names.
\<close>

text \<open>
  The constants of the rounds and of the initial state, in decimal: the first 32 bits of the fractional
  parts of the cube roots of the first 64 primes, and of the square roots of the first eight.
\<close>

definition roundKeys :: "32 word list" where
  "roundKeys =
     [1116352408, 1899447441, 3049323471, 3921009573, 961987163, 1508970993, 2453635748, 2870763221,
      3624381080, 310598401, 607225278, 1426881987, 1925078388, 2162078206, 2614888103, 3248222580,
      3835390401, 4022224774, 264347078, 604807628, 770255983, 1249150122, 1555081692, 1996064986,
      2554220882, 2821834349, 2952996808, 3210313671, 3336571891, 3584528711, 113926993, 338241895,
      666307205, 773529912, 1294757372, 1396182291, 1695183700, 1986661051, 2177026350, 2456956037,
      2730485921, 2820302411, 3259730800, 3345764771, 3516065817, 3600352804, 4094571909, 275423344,
      430227734, 506948616, 659060556, 883997877, 958139571, 1322822218, 1537002063, 1747873779,
      1955562222, 2024104815, 2227730452, 2361852424, 2428436474, 2756734187, 3204031479, 3329325298]"

definition initialHash :: "32 word list" where
  "initialHash =
     [1779033703, 3144134277, 1013904242, 2773480762,
      1359893119, 2600822924, 528734635, 1541459225]"

definition wordOfBytes :: "nat list \<Rightarrow> 32 word" where
  "wordOfBytes bs = of_nat (foldl (\<lambda>n b. n * 256 + b) 0 bs)"

definition bytesOfNat :: "nat \<Rightarrow> nat \<Rightarrow> nat list" where
  "bytesOfNat k n = map (\<lambda>i. (n div 256 ^ (k - 1 - i)) mod 256) [0..<k]"

fun chunks :: "nat \<Rightarrow> nat \<Rightarrow> 'a list \<Rightarrow> 'a list list" where
  "chunks 0 k xs = []"
| "chunks (Suc n) k xs = take k xs # chunks n k (drop k xs)"

text \<open>Padding: a one bit, zeros, and the length in bits as a 64-bit number.\<close>

definition padMessage :: "nat list \<Rightarrow> nat list" where
  "padMessage bs =
     bs @ [128] @ replicate ((119 - length bs mod 64) mod 64) 0 @ bytesOfNat 8 (8 * length bs)"

fun extendSchedule :: "nat \<Rightarrow> 32 word list \<Rightarrow> 32 word list" where
  "extendSchedule 0 ws = ws"
| "extendSchedule (Suc n) ws =
     (let t = length ws; w15 = ws ! (t - 15); w2 = ws ! (t - 2);
          s0 = word_rotr 7 w15 XOR word_rotr 18 w15 XOR drop_bit 3 w15;
          s1 = word_rotr 17 w2 XOR word_rotr 19 w2 XOR drop_bit 10 w2
      in extendSchedule n (ws @ [ws ! (t - 16) + s0 + ws ! (t - 7) + s1]))"

definition shaRound :: "32 word \<Rightarrow> 32 word list \<Rightarrow> 32 word list" where
  "shaRound kw st =
     (case st of
        [a, b, c, d, e, f, g, h] \<Rightarrow>
          (let s1 = word_rotr 6 e XOR word_rotr 11 e XOR word_rotr 25 e;
               ch = (e AND f) XOR (NOT e AND g);
               t1 = h + s1 + ch + kw;
               s0 = word_rotr 2 a XOR word_rotr 13 a XOR word_rotr 22 a;
               maj = (a AND b) XOR (a AND c) XOR (b AND c)
           in [t1 + s0 + maj, a, b, c, d + t1, e, f, g])
      | _ \<Rightarrow> st)"

definition shaBlock :: "32 word list \<Rightarrow> nat list \<Rightarrow> 32 word list" where
  "shaBlock hash block =
     (let ws = extendSchedule 48 (map wordOfBytes (chunks 16 4 block));
          st = fold (\<lambda>(k, w). shaRound (k + w)) (zip roundKeys ws) hash
      in map2 (+) hash st)"

definition sha256 :: "string \<Rightarrow> nat list" where
  "sha256 s =
     (let msg = padMessage (map of_char s);
          hash = foldl shaBlock initialHash (chunks (length msg div 64) 64 msg)
      in concat (map (\<lambda>w. bytesOfNat 4 (unat w)) hash))"

definition hexDigit :: "nat \<Rightarrow> char" where
  "hexDigit d = ''0123456789abcdef'' ! (d mod 16)"

definition hexEncode :: "nat list \<Rightarrow> string" where
  "hexEncode bs = concat (map (\<lambda>b. [hexDigit (b div 16), hexDigit b]) bs)"

lemma hexDigit_mem: "hexDigit d \<in> set ''0123456789abcdef''"
  unfolding hexDigit_def by (rule nth_mem) simp

lemma length_extendSchedule: "length (extendSchedule n ws) = length ws + n"
  by (induction n arbitrary: ws) (simp_all add: Let_def)

lemma length_chunks: "length (chunks n k xs) = n"
  by (induction n arbitrary: xs) simp_all

lemma length_shaRound: "length (shaRound kw st) = length st"
  by (auto simp: shaRound_def Let_def split: list.splits)

lemma length_shaBlock: "length (shaBlock hash block) = length hash"
proof -
  have "length (fold (\<lambda>(k, w). shaRound (k + w)) kws st) = length st" for kws st
    by (induction kws arbitrary: st) (auto simp: length_shaRound)
  then show ?thesis by (simp add: shaBlock_def Let_def)
qed

lemma length_sha256: "length (sha256 s) = 32"
proof -
  have "length (foldl shaBlock hash bs) = length hash" for hash bs
    by (induction bs arbitrary: hash) (simp_all add: length_shaBlock)
  moreover have "length (concat (map (\<lambda>w. bytesOfNat 4 (unat (w :: 32 word))) ws)) = 4 * length ws" for ws
    by (induction ws) (simp_all add: bytesOfNat_def)
  ultimately show ?thesis by (simp add: sha256_def Let_def initialHash_def)
qed

lemma length_hexEncode: "length (hexEncode bs) = 2 * length bs"
  by (induction bs) (simp_all add: hexEncode_def)

lemma hexEncode_digits: "set (hexEncode bs) \<subseteq> set ''0123456789abcdef''"
proof
  fix x assume "x \<in> set (hexEncode bs)"
  then obtain d where "x = hexDigit d" by (auto simp: hexEncode_def)
  then show "x \<in> set ''0123456789abcdef''" by (simp only: hexDigit_mem)
qed

end
