(* ===== verification/NfdObjects.thy ===== *)
theory NfdObjects
  imports Labeler Sha256
begin

text \<open>
  Component \<open>pkg/engines/nfd/objects.go\<close>, first part: the objects of Node Feature Discovery that
  describe a topology, one \<open>NodeFeature\<close> per node and one \<open>NodeFeatureGroup\<close> per topology value, their
  names, and the JSON patch that brings an existing object up to date.

  An object is a record of the fields the engine sets. The conversion to the untyped form of the
  dynamic client (\<open>runtime.DefaultUnstructuredConverter\<close>) keeps them; whether it fails is an argument,
  as is \<open>validation.IsValidLabelValue\<close>.
\<close>

section \<open>Model\<close>

datatype nfdSpec =
  FeatureSpec "(string, (string, string) gomap) gomap"
| GroupSpec "(string \<times> string \<times> (string, string \<times> string list) gomap) list"

record NFDObj =
  oKind :: string
  oName :: string
  oLabels :: "(string, string) gomap"
  oAnnotations :: "(string, string) gomap"
  oSpec :: nfdSpec

datatype nfd_error =
  BadNodeName string "string list"
| Convert string
| NfdLabels lerror
| NfdMeta meta_error
| NamespaceRequired
| NfdDecode string
| NoObjects
| NfdApi string

definition topologyTypeFabric :: string where "topologyTypeFabric = ''fabric-tier-''"
definition topologyTypeAcceleratorDomain :: string where "topologyTypeAcceleratorDomain = ''accelerator-domain''"
definition topologyTypeAcceleratorSubDomain :: string where "topologyTypeAcceleratorSubDomain = ''accelerator-sub-domain''"
definition labelNFDNodeName :: string where "labelNFDNodeName = ''nfd.node.kubernetes.io/node-name''"
definition labelManagedBy :: string where "labelManagedBy = ''app.kubernetes.io/managed-by''"
definition labelEngine :: string where "labelEngine = ''topograph.run/engine''"
definition labelResource :: string where "labelResource = ''topograph.run/resource''"
definition labelGroupType :: string where "labelGroupType = ''topograph.run/group-type''"
definition resourceNodeFeature :: string where "resourceNodeFeature = ''nodefeature''"
definition resourceNodeFeatureGroup :: string where "resourceNodeFeatureGroup = ''nodefeaturegroup''"
definition nfdFeatureSet :: string where "nfdFeatureSet = ''topograph.network''"

subsection \<open>Names\<close>

text \<open>
  A loop over the runes of the lower case text in which everything but letters and digits of ASCII
  becomes a dash; bytes outside ASCII belong to runes that become dashes.
\<close>

definition dnsChar :: "char \<Rightarrow> bool" where
  "dnsChar c \<longleftrightarrow> (97 \<le> (of_char c :: nat) \<and> (of_char c :: nat) \<le> 122) \<or> is_digit c"

fun dnsLoop :: "bool \<Rightarrow> string \<Rightarrow> string" where
  "dnsLoop lastDash [] = []"
| "dnsLoop lastDash (c # s) =
     (if dnsChar c then c # dnsLoop False s
      else if \<not> lastDash then CHR ''-'' # dnsLoop True s
      else dnsLoop True s)"

definition trimDash :: "string \<Rightarrow> string" where
  "trimDash s = rev (dropWhile (\<lambda>c. c = CHR ''-'') (rev (dropWhile (\<lambda>c. c = CHR ''-'') s)))"

definition dnsLabelPart :: "string \<Rightarrow> string" where
  "dnsLabelPart val = trimDash (dnsLoop False (lowerBytes val))"

definition shortHash :: "string \<Rightarrow> string" where
  "shortHash val = take 8 (hexEncode (sha256 val))"

definition orElse :: "string \<Rightarrow> string \<Rightarrow> string" where
  "orElse s d = (if s = [] then d else s)"

definition stableObjectName :: "string \<Rightarrow> string \<Rightarrow> string" where
  "stableObjectName prefix' val =
     (let pre = orElse (dnsLabelPart prefix') ''topograph'';
          hash = shortHash val;
          part = orElse (dnsLabelPart val) ''value'';
          maxPartLen = max 1 (63 - int (length pre) - int (length hash) - 2);
          part = (if int (length part) > maxPartLen
                  then orElse (trimDash (take (nat maxPartLen) part)) ''value'' else part)
      in pre @ ''-'' @ part @ ''-'' @ hash)"

subsection \<open>Objects\<close>

definition topologyKind :: "string \<Rightarrow> string option" where
  "topologyKind labelKey =
     (if labelKey = KeyTopologyXclrDomain then Some topologyTypeAcceleratorDomain
      else if labelKey = KeyTopologyXclrSubDomain then Some topologyTypeAcceleratorSubDomain
      else if hasPrefix labelKey KeyFabricTierPrefix
        then (let level = drop (length KeyFabricTierPrefix) labelKey
              in if Atoi level \<noteq> None then Some (topologyTypeFabric @ level) else None)
      else None)"

definition makeNodeFeature :: "string \<Rightarrow> (string, string) gomap \<Rightarrow> NFDObj" where
  "makeNodeFeature nodeName elements =
     \<lparr>oKind = ''NodeFeature'', oName = stableObjectName ''topograph-node'' nodeName,
      oLabels = [(labelNFDNodeName, nodeName), (labelManagedBy, ''topograph''), (labelEngine, ''nfd''),
        (labelResource, resourceNodeFeature)],
      oAnnotations = [(''topograph.run/node-name'', nodeName)],
      oSpec = FeatureSpec [(''system.name'', [(''nodename'', nodeName)]), (nfdFeatureSet, elements)]\<rparr>"

definition makeNodeFeatureGroup :: "string \<Rightarrow> string \<Rightarrow> string \<Rightarrow> NFDObj" where
  "makeNodeFeatureGroup kind val labelKey =
     \<lparr>oKind = ''NodeFeatureGroup'', oName = stableObjectName (''topograph-'' @ kind) val,
      oLabels = [(labelManagedBy, ''topograph''), (labelEngine, ''nfd''), (labelResource, resourceNodeFeatureGroup),
        (labelGroupType, kind)],
      oAnnotations = [(''topograph.run/label-key'', labelKey), (''topograph.run/label-value'', val)],
      oSpec = GroupSpec [(kind @ '' equals '' @ val, nfdFeatureSet, [(kind, (''In'', [val]))])]\<rparr>"

definition toUnstructured :: "(NFDObj \<Rightarrow> string option) \<Rightarrow> NFDObj \<Rightarrow> nfd_error + NFDObj" where
  "toUnstructured convert obj = (case convert obj of Some err \<Rightarrow> Inl (Convert err) | None \<Rightarrow> Inr obj)"

subsection \<open>buildNFDObjects\<close>

type_synonym groupValues = "(string, (string, string) gomap) gomap"

definition valuesOf :: "groupValues \<Rightarrow> string \<Rightarrow> (string, string) gomap" where
  "valuesOf gv kind = (case gm_get gv kind of Some m \<Rightarrow> m | None \<Rightarrow> [])"

definition ensureKind :: "string \<Rightarrow> groupValues \<Rightarrow> groupValues" where
  "ensureKind kind gv = (if gm_get gv kind = None then gm_put kind [] gv else gv)"

definition setValue :: "string \<Rightarrow> string \<Rightarrow> string \<Rightarrow> groupValues \<Rightarrow> groupValues" where
  "setValue kind val labelKey gv = gm_put kind (gm_put val labelKey (valuesOf gv kind)) gv"

definition addElement ::
  "string \<Rightarrow> string \<Rightarrow> labelMap \<Rightarrow> string \<Rightarrow> (string, string) gomap \<times> groupValues
     \<Rightarrow> (string, string) gomap \<times> groupValues" where
  "addElement sourceValue sourceLabel labels labelKey = (\<lambda>(elements, gv).
     case topologyKind labelKey of
       None \<Rightarrow> (elements, gv)
     | Some kind \<Rightarrow>
         if (kind = topologyTypeAcceleratorDomain \<or> kind = topologyTypeAcceleratorSubDomain) \<and> sourceValue \<noteq> []
         then (elements, gv)
         else
           (let val = TrimSpace (strAt labels labelKey)
            in if val = [] then (elements, gv)
               else
                 (let elements' = gm_put kind val elements; gv' = ensureKind kind gv
                  in if kind = topologyTypeAcceleratorDomain \<and> sourceLabel \<noteq> [] \<and>
                        strAt (valuesOf gv' kind) val = sourceLabel
                     then (elements', gv')
                     else (elements', setValue kind val labelKey gv'))))"

definition addSource ::
  "string \<Rightarrow> string \<Rightarrow> (string, string) gomap \<times> groupValues \<Rightarrow> (string, string) gomap \<times> groupValues" where
  "addSource sourceValue sourceLabel = (\<lambda>(elements, gv).
     if sourceValue = [] then (elements, gv)
     else
       (let kind = topologyTypeAcceleratorDomain
        in (gm_put kind sourceValue elements, setValue kind sourceValue sourceLabel (ensureKind kind gv))))"

definition addNodeObjects ::
  "(string \<Rightarrow> string list) \<Rightarrow> (NFDObj \<Rightarrow> string option) \<Rightarrow> NodeLabelMap \<Rightarrow> (string, string) gomap \<Rightarrow> string \<Rightarrow> string
     \<Rightarrow> NFDObj list \<times> groupValues \<Rightarrow> nfd_error + NFDObj list \<times> groupValues" where
  "addNodeObjects isValidLabelValue convert nodeLabels sourceValues sourceLabel nodeName = (\<lambda>(features, gv).
     if isValidLabelValue nodeName \<noteq> [] then Inl (BadNodeName nodeName (isValidLabelValue nodeName))
     else
       (let labels = labelsFor nodeLabels nodeName;
            sourceValue = TrimSpace (strAt sourceValues nodeName);
            (elements, gv') = addSource sourceValue sourceLabel
              (fold (addElement sourceValue sourceLabel labels) (sorted_keys labels) ([], gv))
        in if elements = [] then Inr (features, gv')
           else
             (case toUnstructured convert (makeNodeFeature nodeName elements) of
                Inl err \<Rightarrow> Inl err
              | Inr obj \<Rightarrow> Inr (features @ [obj], gv'))))"

definition groupObjects ::
  "(NFDObj \<Rightarrow> string option) \<Rightarrow> groupValues \<Rightarrow> nfd_error + NFDObj list" where
  "groupObjects convert gv =
     foldE (\<lambda>(kind, val) groups.
         case toUnstructured convert (makeNodeFeatureGroup kind val (strAt (valuesOf gv kind) val)) of
           Inl err \<Rightarrow> Inl err
         | Inr obj \<Rightarrow> Inr (groups @ [obj]))
       (concat (map (\<lambda>kind. map (Pair kind) (sorted_keys (valuesOf gv kind))) (sorted_keys gv))) []"

definition buildNFDObjects ::
  "(string \<Rightarrow> string list) \<Rightarrow> (NFDObj \<Rightarrow> string option) \<Rightarrow> NodeLabelMap \<Rightarrow> (string, string) gomap \<Rightarrow> string
     \<Rightarrow> nfd_error + NFDObj list \<times> NFDObj list" where
  "buildNFDObjects isValidLabelValue convert nodeLabels sourceValues sourceLabel =
     (case foldE (addNodeObjects isValidLabelValue convert nodeLabels sourceValues sourceLabel)
             (sorted_keys nodeLabels) ([], []) of
        Inl err \<Rightarrow> Inl err
      | Inr (features, gv) \<Rightarrow>
          (case groupObjects convert gv of
             Inl err \<Rightarrow> Inl err
           | Inr groups \<Rightarrow> Inr (features, groups)))"

subsection \<open>JSON patches\<close>

text \<open>\<open>strings.NewReplacer\<close> with one-byte patterns replaces every byte at most once.\<close>

definition jsonPointerToken :: "string \<Rightarrow> string" where
  "jsonPointerToken val =
     concat (map (\<lambda>c. if c = CHR ''~'' then ''~0'' else if c = CHR ''/'' then ''~1'' else [c]) val)"

datatype patchOp = AddSpec nfdSpec | AddString string string

definition labelPath :: "string \<Rightarrow> string" where
  "labelPath key = ''/metadata/labels/'' @ jsonPointerToken key"

definition annotationPath :: "string \<Rightarrow> string" where
  "annotationPath key = ''/metadata/annotations/'' @ jsonPointerToken key"

definition upsertPatch :: "NFDObj \<Rightarrow> patchOp list" where
  "upsertPatch obj =
     AddSpec (oSpec obj) #
     map (\<lambda>(key, val). AddString (labelPath key) val) (oLabels obj) @
     map (\<lambda>(key, val). AddString (annotationPath key) val) (oAnnotations obj)"

definition objectNames :: "NFDObj list \<Rightarrow> string list" where
  "objectNames objects = map oName objects"

section \<open>Object names\<close>

text \<open>A DNS label: lower case letters, digits and dashes, no dash at either end.\<close>

definition dnsLabel :: "string \<Rightarrow> bool" where
  "dnsLabel s \<longleftrightarrow> s \<noteq> [] \<and> (\<forall>c \<in> set s. dnsChar c \<or> c = CHR ''-'') \<and> hd s \<noteq> CHR ''-'' \<and> last s \<noteq> CHR ''-''"

lemma dnsLoop_chars: "c \<in> set (dnsLoop b s) \<Longrightarrow> dnsChar c \<or> c = CHR ''-''"
  by (induction b s rule: dnsLoop.induct) (auto split: if_splits)

lemma trimDash_set: "set (trimDash s) \<subseteq> set s"
  by (auto simp: trimDash_def dest!: set_dropWhileD)

lemma hd_dropWhile_dash: "dropWhile (\<lambda>c. c = d) s \<noteq> [] \<Longrightarrow> hd (dropWhile (\<lambda>c. c = d) s) \<noteq> d"
  by (drule hd_dropWhile)

lemma last_rev_dropWhile:
  assumes "s \<noteq> []" and "hd s \<noteq> d"
  shows "hd (rev (dropWhile (\<lambda>c. c = d) (rev s))) = hd s" and "dropWhile (\<lambda>c. c = d) (rev s) \<noteq> []"
proof -
  obtain a t where s: "s = a # t" "a \<noteq> d" using assms by (cases s) auto
  have "dropWhile (\<lambda>c. c = d) (rev s) = dropWhile (\<lambda>c. c = d) (rev t) @ [a]"
    unfolding s(1) rev.simps by (rule dropWhile_append3) (rule s(2))
  then show "hd (rev (dropWhile (\<lambda>c. c = d) (rev s))) = hd s" "dropWhile (\<lambda>c. c = d) (rev s) \<noteq> []"
    unfolding s(1) by simp_all
qed

lemma trimDash_ends:
  assumes "trimDash s \<noteq> []"
  shows "hd (trimDash s) \<noteq> CHR ''-''" and "last (trimDash s) \<noteq> CHR ''-''"
proof -
  let ?a = "dropWhile (\<lambda>c. c = CHR ''-'') s"
  have a: "?a \<noteq> []"
  proof
    assume "?a = []"
    then have "trimDash s = []" unfolding trimDash_def by (simp only: rev.simps dropWhile.simps)
    with assms show False ..
  qed
  note h = hd_dropWhile_dash [OF a]
  show "hd (trimDash s) \<noteq> CHR ''-''" unfolding trimDash_def last_rev_dropWhile(1) [OF a h] by (rule h)
  show "last (trimDash s) \<noteq> CHR ''-''"
    unfolding trimDash_def last_rev by (rule hd_dropWhile_dash [OF last_rev_dropWhile(2) [OF a h]])
qed

lemma trimDash_nonempty: "s \<noteq> [] \<Longrightarrow> hd s \<noteq> CHR ''-'' \<Longrightarrow> trimDash s \<noteq> []"
proof -
  assume s: "s \<noteq> []" "hd s \<noteq> CHR ''-''"
  then have "dropWhile (\<lambda>c. c = CHR ''-'') s = s" by (cases s) auto
  then show ?thesis using last_rev_dropWhile(2) [OF s] by (simp add: trimDash_def)
qed

lemma dnsLabelPart_label: "dnsLabelPart v \<noteq> [] \<Longrightarrow> dnsLabel (dnsLabelPart v)"
  using trimDash_ends [of "dnsLoop False (lowerBytes v)"] trimDash_set [of "dnsLoop False (lowerBytes v)"] dnsLoop_chars
  unfolding dnsLabel_def dnsLabelPart_def by blast

lemma dnsLabel_orElse: "dnsLabel d \<Longrightarrow> dnsLabel (orElse (dnsLabelPart v) d)"
  by (simp add: orElse_def dnsLabelPart_label)

lemma dnsLabel_cut:
  assumes "dnsLabel s" and "0 < n"
  shows "dnsLabel (orElse (trimDash (take n s)) d)" and "length (orElse (trimDash (take n s)) d) \<le> n"
proof -
  have t: "take n s \<noteq> []" "hd (take n s) \<noteq> CHR ''-''" using assms by (auto simp: dnsLabel_def)
  have ne: "trimDash (take n s) \<noteq> []" by (rule trimDash_nonempty [OF t])
  have "set (trimDash (take n s)) \<subseteq> set s" using trimDash_set [of "take n s"] set_take_subset [of n s] by blast
  then show "dnsLabel (orElse (trimDash (take n s)) d)"
    using assms(1) ne trimDash_ends [OF ne] by (auto simp: dnsLabel_def orElse_def)
  have "length (trimDash s) \<le> length s" for s
    unfolding trimDash_def by (metis length_dropWhile_le length_rev order_trans)
  from this [of "take n s"] show "length (orElse (trimDash (take n s)) d) \<le> n" using ne by (simp add: orElse_def)
qed

lemma dnsLabel_limited:
  assumes "dnsLabel s" and "1 \<le> (m :: int)"
  shows "dnsLabel (if int (length s) > m then orElse (trimDash (take (nat m) s)) d else s)"
    and "int (length (if int (length s) > m then orElse (trimDash (take (nat m) s)) d else s)) \<le> m"
proof -
  have "0 < nat m" using assms(2) by simp
  note c = dnsLabel_cut [OF assms(1) this, of d]
  show "dnsLabel (if int (length s) > m then orElse (trimDash (take (nat m) s)) d else s)" using c(1) assms(1) by simp
  show "int (length (if int (length s) > m then orElse (trimDash (take (nat m) s)) d else s)) \<le> m"
    using c(2) assms(2) by auto
qed

lemma shortHash_label: "length (shortHash v) = 8" "\<forall>c \<in> set (shortHash v). dnsChar c"
proof -
  show "length (shortHash v) = 8" by (simp add: shortHash_def length_hexEncode length_sha256)
  have "\<forall>c \<in> set ''0123456789abcdef''. dnsChar c" by code_simp
  moreover have "set (shortHash v) \<subseteq> set ''0123456789abcdef''"
    unfolding shortHash_def using hexEncode_digits [of "sha256 v"] set_take_subset [of 8 "hexEncode (sha256 v)"] by blast
  ultimately show "\<forall>c \<in> set (shortHash v). dnsChar c" by blast
qed

lemma dnsLabel_join:
  assumes "dnsLabel a" and "dnsLabel b" and "hash \<noteq> []" and "\<forall>c \<in> set hash. dnsChar c"
  shows "dnsLabel (a @ ''-'' @ b @ ''-'' @ hash)"
proof -
  have "\<not> dnsChar (CHR ''-'')" by code_simp
  then have "last hash \<noteq> CHR ''-''" using assms(3,4) by (metis last_in_set)
  then show ?thesis using assms by (auto simp: dnsLabel_def)
qed

text \<open>
  Object names. The name of an object is a DNS label of at most 63 characters for every value,
  as long as the cleaned prefix is not longer than 52 characters.
\<close>

theorem stableObjectName_label:
  assumes "length (dnsLabelPart prefix') \<le> 52"
  shows "dnsLabel (stableObjectName prefix' val) \<and> length (stableObjectName prefix' val) \<le> 63"
proof -
  let ?pre = "orElse (dnsLabelPart prefix') ''topograph''" and ?part = "orElse (dnsLabelPart val) ''value''"
  let ?max = "max 1 (63 - int (length ?pre) - int (length (shortHash val)) - 2)"
  let ?cut = "if int (length ?part) > ?max then orElse (trimDash (take (nat ?max) ?part)) ''value'' else ?part"
  have d: "dnsLabel ''topograph''" "dnsLabel ''value''" by code_simp+
  have pre: "dnsLabel ?pre" "length ?pre \<le> 52" using dnsLabel_orElse [OF d(1)] assms by (auto simp: orElse_def)
  note part = dnsLabel_orElse [OF d(2), of val]
  have cut: "dnsLabel ?cut" "int (length ?cut) \<le> ?max" by (rule dnsLabel_limited [OF part], simp)+
  have n: "stableObjectName prefix' val = ?pre @ ''-'' @ ?cut @ ''-'' @ shortHash val"
    by (simp add: stableObjectName_def Let_def)
  have "shortHash val \<noteq> []" using shortHash_label(1) [of val] by auto
  then have "dnsLabel (stableObjectName prefix' val)"
    unfolding n by (intro dnsLabel_join pre(1) cut(1) shortHash_label(2))
  moreover have "length (stableObjectName prefix' val) \<le> 63"
    unfolding n using cut(2) pre(2) shortHash_label(1) [of val] by (simp del: int_nat_eq)
  ultimately show ?thesis ..
qed

section \<open>JSON patches\<close>

text \<open>The decoding of a reference token as JSON Pointer defines it.\<close>

fun decodeToken :: "string \<Rightarrow> string" where
  "decodeToken [] = []"
| "decodeToken [c] = [c]"
| "decodeToken (c # d # s) =
     (if c = CHR ''~'' \<and> d = CHR ''1'' then CHR ''/'' # decodeToken s
      else if c = CHR ''~'' \<and> d = CHR ''0'' then CHR ''~'' # decodeToken s
      else c # decodeToken (d # s))"

lemma jsonPointerToken_Cons:
  "jsonPointerToken (c # s) =
     (if c = CHR ''~'' then ''~0'' else if c = CHR ''/'' then ''~1'' else [c]) @ jsonPointerToken s"
  by (simp add: jsonPointerToken_def)

lemma decodeToken_encoded: "decodeToken (jsonPointerToken s) = s"
proof (induction s)
  case (Cons c s)
  have "c \<noteq> CHR ''~'' \<Longrightarrow> decodeToken (c # t) = c # decodeToken t" for t by (cases t) auto
  then show ?case using Cons by (simp add: jsonPointerToken_Cons)
qed (simp add: jsonPointerToken_def)

lemma jsonPointerToken_no_slash: "CHR ''/'' \<notin> set (jsonPointerToken s)"
  by (auto simp: jsonPointerToken_def split: if_splits)

text \<open>What a JSON patch of these operations does to an object.\<close>

definition applyOp :: "patchOp \<Rightarrow> NFDObj \<Rightarrow> NFDObj" where
  "applyOp op obj =
     (case op of
        AddSpec spec \<Rightarrow> obj\<lparr>oSpec := spec\<rparr>
      | AddString path' val \<Rightarrow>
          if hasPrefix path' ''/metadata/labels/''
          then obj\<lparr>oLabels := gm_put (decodeToken (drop (length ''/metadata/labels/'') path')) val (oLabels obj)\<rparr>
          else if hasPrefix path' ''/metadata/annotations/''
          then obj\<lparr>oAnnotations := gm_put (decodeToken (drop (length ''/metadata/annotations/'') path')) val (oAnnotations obj)\<rparr>
          else obj)"

definition applyOps :: "patchOp list \<Rightarrow> NFDObj \<Rightarrow> NFDObj" where
  "applyOps ops obj = fold applyOp ops obj"

text \<open>An object of the cluster that carries everything the engine wants.\<close>

definition objOk :: "NFDObj \<Rightarrow> NFDObj \<Rightarrow> bool" where
  "objOk desired actual \<longleftrightarrow> oSpec actual = oSpec desired \<and>
     (\<forall>k v. gm_get (oLabels desired) k = Some v \<longrightarrow> gm_get (oLabels actual) k = Some v) \<and>
     (\<forall>k v. gm_get (oAnnotations desired) k = Some v \<longrightarrow> gm_get (oAnnotations actual) k = Some v)"

lemma applyOp_label: "applyOp (AddString (labelPath k) v) obj =
    obj\<lparr>oLabels := gm_put k v (oLabels obj)\<rparr>"
  by (simp add: applyOp_def labelPath_def annotationPath_def hasPrefix_def decodeToken_encoded)

lemma applyOp_annotation: "applyOp (AddString (annotationPath k) v) obj =
    obj\<lparr>oAnnotations := gm_put k v (oAnnotations obj)\<rparr>"
  by (simp add: applyOp_def labelPath_def annotationPath_def hasPrefix_def decodeToken_encoded)

lemma fold_labels:
  "fold applyOp (map (\<lambda>(k, v). AddString (labelPath k) v) kvs) obj =
     obj\<lparr>oLabels := gm_copy (oLabels obj) kvs\<rparr>"
  by (induction kvs arbitrary: obj) (auto simp: applyOp_label gm_copy_def)

lemma fold_annotations:
  "fold applyOp (map (\<lambda>(k, v). AddString (annotationPath k) v) kvs) obj =
     obj\<lparr>oAnnotations := gm_copy (oAnnotations obj) kvs\<rparr>"
  by (induction kvs arbitrary: obj) (auto simp: applyOp_annotation gm_copy_def)

text \<open>The patch brings any object to the desired state and removes nothing of other owners.\<close>

lemma upsertPatch_ok:
  assumes "gm_wf (oLabels desired)" and "gm_wf (oAnnotations desired)"
  shows "objOk desired (applyOps (upsertPatch desired) actual)"
proof -
  have "applyOps (upsertPatch desired) actual = actual\<lparr>oSpec := oSpec desired,
      oLabels := gm_copy (oLabels actual) (oLabels desired), oAnnotations := gm_copy (oAnnotations actual) (oAnnotations desired)\<rparr>"
    unfolding applyOps_def upsertPatch_def fold_simps(2) comp_apply fold_append fold_labels fold_annotations
    by (simp add: applyOp_def)
  then show ?thesis using assms by (simp add: objOk_def gm_get_copy)
qed

end
