(* ===== verification/Nfd.thy ===== *)
theory Nfd
  imports NfdObjects
begin

text \<open>
  Component \<open>pkg/engines/nfd\<close> (\<open>engine.go\<close>, \<open>kubernetes.go\<close> and the rest of \<open>objects.go\<close>): the engine that
  publishes a topology as objects of Node Feature Discovery. It writes the two kinds of objects in
  two goroutines, then removes stale objects in two goroutines.

  The cluster is a state of arbitrary type; \<open>nfdApi\<close> collects the calls of the dynamic client. The
  group of \<open>golang.org/x/sync/errgroup\<close> that runs the goroutines is the argument \<open>wait\<close>; what the
  engine relies on is that its outcome is one of the interleavings described by \<open>gstep\<close>. A step of
  a goroutine is one object; the goroutines work on different resources.
\<close>

section \<open>Goroutines\<close>

text \<open>
  Two goroutines of a group with a shared context: the state has the position of each (\<open>None\<close> once it
  has returned), the first error, and the cluster. After an error the context is cancelled; the
  other goroutine may still finish a call or see the cancellation.
\<close>

inductive gstep ::
  "('l \<Rightarrow> 'c \<Rightarrow> 'e option \<times> 'l option \<times> 'c) \<Rightarrow> 'l option \<times> 'l option \<times> 'e option \<times> 'c
     \<Rightarrow> 'l option \<times> 'l option \<times> 'e option \<times> 'c \<Rightarrow> bool" for step where
  run1: "step l c = (None, l', c') \<Longrightarrow> gstep step (Some l, m, e, c) (l', m, e, c')"
| fail1: "step l c = (Some err, l', c') \<Longrightarrow>
    gstep step (Some l, m, e, c) (None, m, (if e = None then Some err else e), c')"
| cancel1: "e \<noteq> None \<Longrightarrow> gstep step (Some l, m, e, c) (None, m, e, c)"
| run2: "step m c = (None, m', c') \<Longrightarrow> gstep step (l, Some m, e, c) (l, m', e, c')"
| fail2: "step m c = (Some err, m', c') \<Longrightarrow>
    gstep step (l, Some m, e, c) (l, None, (if e = None then Some err else e), c')"
| cancel2: "e \<noteq> None \<Longrightarrow> gstep step (l, Some m, e, c) (l, None, e, c)"

text \<open>
  Two goroutines that do not interfere: each has an invariant that its own successful steps keep and
  that every step of the other one keeps. If the group returns no error, both have done their work.
\<close>

locale errgroup =
  fixes step :: "'l \<Rightarrow> 'c \<Rightarrow> 'e option \<times> 'l option \<times> 'c"
    and inv1 inv2 :: "'l option \<Rightarrow> 'c \<Rightarrow> bool"
  assumes own1: "inv1 (Some l) c \<Longrightarrow> step l c = (None, l', c') \<Longrightarrow> inv1 l' c'"
    and own2: "inv2 (Some m) c \<Longrightarrow> step m c = (None, m', c') \<Longrightarrow> inv2 m' c'"
    and frame1: "inv1 lo c \<Longrightarrow> inv2 (Some m) c \<Longrightarrow> step m c = (None, m', c') \<Longrightarrow> inv1 lo c'"
    and frame2: "inv2 mo c \<Longrightarrow> inv1 (Some l) c \<Longrightarrow> step l c = (None, l', c') \<Longrightarrow> inv2 mo c'"
begin

lemma step_inv:
  assumes "gstep step s s'" and "fst (snd (snd s)) = None \<longrightarrow> inv1 (fst s) (snd (snd (snd s))) \<and> inv2 (fst (snd s)) (snd (snd (snd s)))"
  shows "fst (snd (snd s')) = None \<longrightarrow> inv1 (fst s') (snd (snd (snd s'))) \<and> inv2 (fst (snd s')) (snd (snd (snd s')))"
  using assms by (induction rule: gstep.induct) (auto intro: own1 own2 frame1 frame2)

lemma group_success:
  assumes "(gstep step)\<^sup>*\<^sup>* (Some l, Some m, None, c) (None, None, None, c')" and "inv1 (Some l) c" and "inv2 (Some m) c"
  shows "inv1 None c' \<and> inv2 None c'"
proof -
  have "fst (snd (snd s)) = None \<longrightarrow> inv1 (fst s) (snd (snd (snd s))) \<and> inv2 (fst (snd s)) (snd (snd (snd s)))"
    if "(gstep step)\<^sup>*\<^sup>* (Some l, Some m, None, c) s" for s
    using that by (induction rule: rtranclp_induct) (use assms(2,3) step_inv in auto)
  from this [OF assms(1)] show ?thesis by simp
qed

end

section \<open>Model\<close>

datatype gvr = NodeFeatureGVR | NodeFeatureGroupGVR

datatype api_error = ApiNotFound | ApiAlreadyExists | ApiError string

record 'c nfdApi =
  nList :: "gvr \<Rightarrow> (string, string) gomap \<Rightarrow> 'c \<Rightarrow> string + NFDObj list"
  nPatch :: "gvr \<Rightarrow> string \<Rightarrow> patchOp list \<Rightarrow> 'c \<Rightarrow> api_error option \<times> 'c"
  nCreate :: "gvr \<Rightarrow> NFDObj \<Rightarrow> 'c \<Rightarrow> api_error option \<times> 'c"
  nDelete :: "gvr \<Rightarrow> string \<Rightarrow> 'c \<Rightarrow> api_error option \<times> 'c"

record nfdParams =
  nNodeSelector :: "(string, string) gomap"
  nCleanup :: bool
  nSourceLabel :: string
  nListOpt :: "(string, string) gomap option"

record NfdEngine =
  nfdParams' :: nfdParams
  cachedNodes :: "KNode list option"

definition getParameters ::
  "('cfg \<Rightarrow> nfdParams \<Rightarrow> string + nfdParams) \<Rightarrow> (string \<Rightarrow> string list) \<Rightarrow> 'cfg \<Rightarrow> nfd_error + nfdParams" where
  "getParameters decode isQualifiedName cfg =
     (case decode cfg \<lparr>nNodeSelector = [], nCleanup = True, nSourceLabel = [], nListOpt = None\<rparr> of
        Inl err \<Rightarrow> Inl (NfdDecode err)
      | Inr p \<Rightarrow>
          (case (if nSourceLabel p \<noteq> []
                 then ValidateLabelKey isQualifiedName ''acceleratorDomainSourceLabel'' (nSourceLabel p) else None) of
             Some err \<Rightarrow> Inl (NfdMeta err)
           | None \<Rightarrow> Inr (if nNodeSelector p \<noteq> [] then p\<lparr>nListOpt := Some (nNodeSelector p)\<rparr> else p)))"

text \<open>The environment variable is an argument; an unset variable reads as the empty string.\<close>

definition getNFDNamespace :: "string \<Rightarrow> nfd_error + string" where
  "getNFDNamespace env = (if TrimSpace env \<noteq> [] then Inr (TrimSpace env) else Inl NamespaceRequired)"

definition ResolveComputeInstances ::
  "NodeMetadata option \<Rightarrow> (string + KNode list) \<Rightarrow> ComputeInstances list \<Rightarrow> NfdEngine
     \<Rightarrow> (nfd_error + ComputeInstances list) \<times> NfdEngine" where
  "ResolveComputeInstances ctx listed instances eng =
     (case GetNodes ctx listed of
        Inl err \<Rightarrow> (Inl (NfdMeta err), eng)
      | Inr nodes \<Rightarrow>
          (Inr (if instances \<noteq> [] then instances else GetComputeInstances nodes), eng\<lparr>cachedNodes := Some nodes\<rparr>))"

definition acceleratorDomainSourceValues :: "KNode list \<Rightarrow> string \<Rightarrow> (string, string) gomap" where
  "acceleratorDomainSourceValues nodes sourceLabel =
     (if sourceLabel = [] then []
      else fold (\<lambda>node out. let val = TrimSpace (strAt (kLabels node) sourceLabel)
                 in if val \<noteq> [] then gm_put (kName node) val out else out) nodes [])"

subsection \<open>Writing objects\<close>

definition upsertObject :: "'c nfdApi \<Rightarrow> gvr \<Rightarrow> NFDObj \<Rightarrow> 'c \<Rightarrow> api_error option \<times> 'c" where
  "upsertObject api G obj c =
     (case nPatch api G (oName obj) (upsertPatch obj) c of
        (Some ApiNotFound, c1) \<Rightarrow>
          (case nCreate api G obj c1 of
             (Some ApiAlreadyExists, c2) \<Rightarrow> nPatch api G (oName obj) (upsertPatch obj) c2
           | r \<Rightarrow> r)
      | r \<Rightarrow> r)"

definition managedSelector :: "string \<Rightarrow> (string, string) gomap" where
  "managedSelector resourceKind =
     [(labelManagedBy, ''topograph''), (labelEngine, ''nfd''), (labelResource, resourceKind)]"

definition deleteObject :: "'c nfdApi \<Rightarrow> gvr \<Rightarrow> string \<Rightarrow> 'c \<Rightarrow> api_error option \<times> 'c" where
  "deleteObject api G name c =
     (case nDelete api G name c of
        (Some ApiNotFound, c') \<Rightarrow> (None, c')
      | r \<Rightarrow> r)"

text \<open>
  The goroutines: the loop over the objects to write, the list call of \<open>cleanupResource\<close>, and its loop
  over the objects to delete.
\<close>

datatype nfdThread =
  Upserts gvr "NFDObj list"
| Cleanup gvr string "string list"
| Deletes gvr "string list"

fun threadStep :: "'c nfdApi \<Rightarrow> nfdThread \<Rightarrow> 'c \<Rightarrow> api_error option \<times> nfdThread option \<times> 'c" where
  "threadStep api (Upserts G []) c = (None, None, c)"
| "threadStep api (Upserts G (obj # objs)) c =
     (case upsertObject api G obj c of
        (Some err, c') \<Rightarrow> (Some err, None, c')
      | (None, c') \<Rightarrow> (None, Some (Upserts G objs), c'))"
| "threadStep api (Cleanup G resourceKind desired) c =
     (case nList api G (managedSelector resourceKind) c of
        Inl err \<Rightarrow> (Some (ApiError err), None, c)
      | Inr items \<Rightarrow> (None, Some (Deletes G (filter (\<lambda>n. n \<notin> set desired) (map oName items))), c))"
| "threadStep api (Deletes G []) c = (None, None, c)"
| "threadStep api (Deletes G (name # ns)) c =
     (case deleteObject api G name c of
        (Some err, c') \<Rightarrow> (Some err, None, c')
      | (None, c') \<Rightarrow> (None, Some (Deletes G ns), c'))"

type_synonym 'c waitFun =
  "(nfdThread \<Rightarrow> 'c \<Rightarrow> api_error option \<times> nfdThread option \<times> 'c) \<Rightarrow> nfdThread \<Rightarrow> nfdThread \<Rightarrow> 'c
     \<Rightarrow> api_error option \<times> 'c"

definition applyObjects ::
  "'c nfdApi \<Rightarrow> 'c waitFun \<Rightarrow> NFDObj list \<Rightarrow> NFDObj list \<Rightarrow> 'c \<Rightarrow> api_error option \<times> 'c" where
  "applyObjects api wait nodeFeatures nodeFeatureGroups c =
     wait (threadStep api) (Upserts NodeFeatureGVR nodeFeatures) (Upserts NodeFeatureGroupGVR nodeFeatureGroups) c"

definition cleanupObjects ::
  "'c nfdApi \<Rightarrow> 'c waitFun \<Rightarrow> NFDObj list \<Rightarrow> NFDObj list \<Rightarrow> 'c \<Rightarrow> api_error option \<times> 'c" where
  "cleanupObjects api wait nodeFeatures nodeFeatureGroups c =
     wait (threadStep api) (Cleanup NodeFeatureGVR resourceNodeFeature (objectNames nodeFeatures))
       (Cleanup NodeFeatureGroupGVR resourceNodeFeatureGroup (objectNames nodeFeatureGroups)) c"

subsection \<open>Output\<close>

text \<open>\<open>listed\<close> is what listing the nodes would return; \<open>None\<close>: the walk over the hierarchy did not end.\<close>

definition GenerateOutput ::
  "'c nfdApi \<Rightarrow> 'c waitFun \<Rightarrow> (string \<Rightarrow> string list) \<Rightarrow> (NFDObj \<Rightarrow> string option) \<Rightarrow> NodeMetadata option
     \<Rightarrow> (string + KNode list) \<Rightarrow> heap \<Rightarrow> Graph option \<Rightarrow> NfdEngine \<Rightarrow> 'c \<Rightarrow> ((nfd_error + string) \<times> 'c) option" where
  "GenerateOutput api wait isValidLabelValue convert ctx listed h graph eng c =
     (case (case cachedNodes eng of Some nodes \<Rightarrow> Inr nodes | None \<Rightarrow> GetNodes ctx listed) of
        Inl err \<Rightarrow> Some (Inl (NfdMeta err), c)
      | Inr nodes \<Rightarrow>
          (case BuildNodeLabels h (NewTopologyLabelKeys [] []) graph NewTopologyLabeler of
             None \<Rightarrow> None
           | Some (Inl err) \<Rightarrow> Some (Inl (NfdLabels err), c)
           | Some (Inr l) \<Rightarrow>
               (let p = nfdParams' eng
                in case buildNFDObjects isValidLabelValue convert (nodeMap l)
                          (acceleratorDomainSourceValues nodes (nSourceLabel p)) (nSourceLabel p) of
                     Inl err \<Rightarrow> Some (Inl err, c)
                   | Inr (features, groups) \<Rightarrow>
                       if nCleanup p \<and> features = [] \<and> groups = [] then Some (Inl NoObjects, c)
                       else
                         (case applyObjects api wait features groups c of
                            (Some err, c1) \<Rightarrow> Some (Inl (NfdApi ''apply''), c1)
                          | (None, c1) \<Rightarrow>
                              (case (if nCleanup p then cleanupObjects api wait features groups c1 else (None, c1)) of
                                 (Some err, c2) \<Rightarrow> Some (Inl (NfdApi ''cleanup''), c2)
                               | (None, c2) \<Rightarrow>
                                   Some (Inr (''OK nodeFeatures='' @ itoa (length features) @ '' nodeFeatureGroups='' @
                                     itoa (length groups) @ [newline]), c2))))))"

section \<open>The cluster\<close>

text \<open>
  What the calls are documented to do, in terms of the objects of the cluster: every call concerns one
  object; a successful patch applies its operations; a successful create stores the object; after a
  delete that succeeds or reports that the object is missing, the object is gone; a list returns the
  objects that carry the labels of the selector.
\<close>

type_synonym 'c nfdView = "'c \<Rightarrow> gvr \<Rightarrow> string \<Rightarrow> NFDObj option"

definition onlyAt :: "'c nfdView \<Rightarrow> gvr \<Rightarrow> string \<Rightarrow> 'c \<Rightarrow> 'c \<Rightarrow> bool" where
  "onlyAt nfdIn G name c c' \<longleftrightarrow> (\<forall>G' n. (G', n) \<noteq> (G, name) \<longrightarrow> nfdIn c' G' n = nfdIn c G' n)"

definition patchDone :: "'c nfdApi \<Rightarrow> 'c nfdView \<Rightarrow> bool" where
  "patchDone api nfdIn \<longleftrightarrow>
     (\<forall>G name ops c err c'. nPatch api G name ops c = (err, c') \<longrightarrow> onlyAt nfdIn G name c c' \<and>
        (err = None \<longrightarrow> (\<exists>obj. nfdIn c G name = Some obj \<and> nfdIn c' G name = Some (applyOps ops obj))))"

definition createDone :: "'c nfdApi \<Rightarrow> 'c nfdView \<Rightarrow> bool" where
  "createDone api nfdIn \<longleftrightarrow>
     (\<forall>G obj c err c'. nCreate api G obj c = (err, c') \<longrightarrow> onlyAt nfdIn G (oName obj) c c' \<and>
        (err = None \<longrightarrow> nfdIn c' G (oName obj) = Some obj))"

definition deleteDone :: "'c nfdApi \<Rightarrow> 'c nfdView \<Rightarrow> bool" where
  "deleteDone api nfdIn \<longleftrightarrow>
     (\<forall>G name c err c'. nDelete api G name c = (err, c') \<longrightarrow> onlyAt nfdIn G name c c' \<and>
        (err = None \<or> err = Some ApiNotFound \<longrightarrow> nfdIn c' G name = None))"

definition selects :: "(string, string) gomap \<Rightarrow> NFDObj \<Rightarrow> bool" where
  "selects sel obj \<longleftrightarrow> (\<forall>(k, v) \<in> set sel. gm_get (oLabels obj) k = Some v)"

definition listDone :: "'c nfdApi \<Rightarrow> 'c nfdView \<Rightarrow> bool" where
  "listDone api nfdIn \<longleftrightarrow>
     (\<forall>G sel c items. nList api G sel c = Inr items \<longrightarrow>
        set (map oName items) = {name. \<exists>obj. nfdIn c G name = Some obj \<and> selects sel obj})"

definition nfdOk :: "'c nfdApi \<Rightarrow> 'c nfdView \<Rightarrow> bool" where
  "nfdOk api nfdIn \<longleftrightarrow> patchDone api nfdIn \<and> createDone api nfdIn \<and> deleteDone api nfdIn \<and> listDone api nfdIn"

text \<open>The group returns after some interleaving of the two goroutines, with the first error.\<close>

definition waitOk :: "'c nfdApi \<Rightarrow> 'c waitFun \<Rightarrow> bool" where
  "waitOk api wait \<longleftrightarrow>
     (\<forall>t1 t2 c err c'. wait (threadStep api) t1 t2 c = (err, c') \<longrightarrow>
        (gstep (threadStep api))\<^sup>*\<^sup>* (Some t1, Some t2, None, c) (None, None, err, c'))"

definition objWf :: "NFDObj \<Rightarrow> bool" where
  "objWf obj \<longleftrightarrow> gm_wf (oLabels obj) \<and> gm_wf (oAnnotations obj)"

lemma objOk_refl: "objOk obj obj"
  by (simp add: objOk_def)

lemma upsertObject_ok:
  assumes api: "nfdOk api nfdIn" and wf: "objWf obj" and res: "upsertObject api G obj c = (err, c')"
  shows "onlyAt nfdIn G (oName obj) c c'"
    and "err = None \<Longrightarrow> \<exists>a. nfdIn c' G (oName obj) = Some a \<and> objOk obj a"
proof -
  note P = api [unfolded nfdOk_def, THEN conjunct1, unfolded patchDone_def, rule_format]
  have C: "onlyAt nfdIn G (oName obj) c c' \<and> (err = None \<longrightarrow> nfdIn c' G (oName obj) = Some obj)"
    if "nCreate api G obj c = (err, c')" for c err c'
    using api that unfolding nfdOk_def createDone_def by blast
  have patched: "onlyAt nfdIn G (oName obj) c c' \<and> (err = None \<longrightarrow> (\<exists>a. nfdIn c' G (oName obj) = Some a \<and> objOk obj a))"
    if "nPatch api G (oName obj) (upsertPatch obj) c = (err, c')" for c err c'
    using P [OF that] upsertPatch_ok [of obj] wf by (auto simp: objWf_def)
  have trans: "onlyAt nfdIn G n c c1 \<Longrightarrow> onlyAt nfdIn G n c1 c2 \<Longrightarrow> onlyAt nfdIn G n c c2" for n c c1 c2
    by (simp add: onlyAt_def)
  have "onlyAt nfdIn G (oName obj) c c' \<and> (err = None \<longrightarrow> (\<exists>a. nfdIn c' G (oName obj) = Some a \<and> objOk obj a))"
  proof (cases "nPatch api G (oName obj) (upsertPatch obj) c")
    case (Pair e1 c1)
    show ?thesis
    proof (cases "e1 = Some ApiNotFound")
      case False
      then have "(err, c') = (e1, c1)" using res Pair by (auto simp: upsertObject_def split: option.splits api_error.splits)
      then show ?thesis using patched [OF Pair] by simp
    next
      case True
      obtain e2 c2 where c2: "nCreate api G obj c1 = (e2, c2)" by (cases "nCreate api G obj c1")
      show ?thesis
      proof (cases "e2 = Some ApiAlreadyExists")
        case True
        then have "nPatch api G (oName obj) (upsertPatch obj) c2 = (err, c')"
          using res Pair \<open>e1 = Some ApiNotFound\<close> c2 by (simp add: upsertObject_def)
        then show ?thesis using patched [OF Pair] C [OF c2] patched trans by blast
      next
        case False
        then have "(err, c') = (e2, c2)"
          using res Pair True c2 by (auto simp: upsertObject_def split: option.splits api_error.splits)
        then show ?thesis using patched [OF Pair] C [OF c2] trans objOk_refl by auto
      qed
    qed
  qed
  then show "onlyAt nfdIn G (oName obj) c c'" "err = None \<Longrightarrow> \<exists>a. nfdIn c' G (oName obj) = Some a \<and> objOk obj a"
    by blast+
qed

lemma deleteObject_ok:
  assumes "nfdOk api nfdIn" and "deleteObject api G name c = (err, c')"
  shows "onlyAt nfdIn G name c c' \<and> (err = None \<longrightarrow> nfdIn c' G name = None)"
proof (cases "nDelete api G name c")
  case (Pair e c1)
  have "onlyAt nfdIn G name c c1 \<and> (e = None \<or> e = Some ApiNotFound \<longrightarrow> nfdIn c1 G name = None)"
    using assms(1) Pair unfolding nfdOk_def deleteDone_def by blast
  then show ?thesis using assms(2) Pair by (auto simp: deleteObject_def split: option.splits api_error.splits)
qed

section \<open>Publishing\<close>

fun threadOn :: "nfdThread \<Rightarrow> gvr" where
  "threadOn (Upserts G _) = G"
| "threadOn (Cleanup G _ _) = G"
| "threadOn (Deletes G _) = G"

definition threadWf :: "nfdThread \<Rightarrow> bool" where
  "threadWf t = (case t of Upserts _ objs \<Rightarrow> list_all objWf objs | _ \<Rightarrow> True)"

text \<open>A goroutine leaves the other resource alone.\<close>

lemma threadStep_frame:
  assumes api: "nfdOk api nfdIn" and step: "threadStep api t c = (err, t', c')" and "threadOn t \<noteq> G" and "threadWf t"
  shows "nfdIn c' G = nfdIn c G"
proof (cases t)
  case (Upserts H objs)
  show ?thesis
  proof (cases objs)
    case (Cons obj os)
    then obtain e where "upsertObject api H obj c = (e, c')" "objWf obj"
      using step Upserts assms(4) by (auto simp: threadWf_def split: prod.splits option.splits)
    from upsertObject_ok(1) [OF api this(2,1)] show ?thesis using Upserts assms(3) by (auto simp: onlyAt_def)
  qed (use step Upserts in auto)
next
  case (Cleanup H k d)
  then show ?thesis using step by (auto split: sum.splits)
next
  case (Deletes H ns)
  show ?thesis
  proof (cases ns)
    case (Cons n ns')
    then obtain e where "deleteObject api H n c = (e, c')"
      using step Deletes by (auto split: prod.splits option.splits)
    from deleteObject_ok [OF api this] show ?thesis using Deletes assms(3) by (auto simp: onlyAt_def)
  qed (use step Deletes in auto)
qed

text \<open>
  The invariant of a goroutine that writes objects: those behind it are in the desired state, and no
  other object of the resource has changed.
\<close>

definition published :: "'c nfdView \<Rightarrow> 'c \<Rightarrow> gvr \<Rightarrow> NFDObj list \<Rightarrow> bool" where
  "published nfdIn c G objs \<longleftrightarrow> (\<forall>obj \<in> set objs. \<exists>a. nfdIn c G (oName obj) = Some a \<and> objOk obj a)"

definition upserting ::
  "'c nfdApi \<Rightarrow> 'c nfdView \<Rightarrow> gvr \<Rightarrow> NFDObj list \<Rightarrow> 'c \<Rightarrow> nfdThread option \<Rightarrow> 'c \<Rightarrow> bool" where
  "upserting api nfdIn G objs c0 t c \<longleftrightarrow>
     nfdOk api nfdIn \<and> list_all objWf objs \<and> distinct (map oName objs) \<and>
     (\<exists>dn rest. objs = dn @ rest \<and> t \<in> {Some (Upserts G rest), if rest = [] then None else Some (Upserts G rest)} \<and>
        published nfdIn c G dn) \<and>
     (\<forall>name. name \<notin> oName ` set objs \<longrightarrow> nfdIn c G name = nfdIn c0 G name)"

lemma upserting_on: "upserting api nfdIn G objs c0 (Some t) c \<Longrightarrow> threadOn t = G \<and> threadWf t \<and> nfdOk api nfdIn"
  by (auto simp: upserting_def threadWf_def split: if_splits)

lemma upserting_frame: "upserting api nfdIn G objs c0 t c \<Longrightarrow> nfdIn c' G = nfdIn c G \<Longrightarrow> upserting api nfdIn G objs c0 t c'"
  by (simp add: upserting_def published_def)

lemma upserting_step:
  assumes inv: "upserting api nfdIn G objs c0 (Some t) c" and step: "threadStep api t c = (None, t', c')"
  shows "upserting api nfdIn G objs c0 t' c'"
proof -
  from inv obtain dn rest where o: "objs = dn @ rest" "t = Upserts G rest" "published nfdIn c G dn"
    by (auto simp: upserting_def split: if_splits)
  have api: "nfdOk api nfdIn" using inv by (simp add: upserting_def)
  show ?thesis
  proof (cases rest)
    case Nil
    then show ?thesis using inv step o by (auto simp: upserting_def)
  next
    case (Cons obj os)
    have u: "upsertObject api G obj c = (None, c')" "t' = Some (Upserts G os)"
      using step o(2) Cons by (auto split: prod.splits option.splits)
    have wf: "objWf obj" and d: "oName obj \<notin> oName ` set dn"
      using inv o(1) Cons by (auto simp: upserting_def)
    note r = upsertObject_ok [OF api wf u(1)]
    have "published nfdIn c' G (dn @ [obj])"
      using o(3) r d by (auto simp: published_def onlyAt_def image_iff)
    moreover have "objs = (dn @ [obj]) @ os" using o(1) Cons by simp
    moreover have "nfdIn c' G name = nfdIn c0 G name" if "name \<notin> oName ` set objs" for name
    proof -
      have "name \<noteq> oName obj" using that o(1) Cons by auto
      then have "nfdIn c' G name = nfdIn c G name" using r(1) by (simp add: onlyAt_def)
      also have "\<dots> = nfdIn c0 G name" using inv that by (simp add: upserting_def)
      finally show ?thesis .
    qed
    ultimately show ?thesis
      using inv u(2) unfolding upserting_def by blast
  qed
qed

interpretation applying: errgroup "threadStep api" "upserting api nfdIn NodeFeatureGVR fs c0"
  "upserting api nfdIn NodeFeatureGroupGVR gs c0" for api :: "'c nfdApi" and nfdIn fs gs c0
proof
  show "upserting api nfdIn NodeFeatureGVR fs c0 lo c'"
    if "upserting api nfdIn NodeFeatureGVR fs c0 lo c" "upserting api nfdIn NodeFeatureGroupGVR gs c0 (Some m) c"
      "threadStep api m c = (None, m', c')" for lo m m' c c'
    using upserting_frame [OF that(1)] threadStep_frame [OF _ that(3), of nfdIn NodeFeatureGVR] upserting_on [OF that(2)] by simp
  show "upserting api nfdIn NodeFeatureGroupGVR gs c0 mo c'"
    if "upserting api nfdIn NodeFeatureGroupGVR gs c0 mo c" "upserting api nfdIn NodeFeatureGVR fs c0 (Some l) c"
      "threadStep api l c = (None, l', c')" for mo l l' c c'
    using upserting_frame [OF that(1)] threadStep_frame [OF _ that(3), of nfdIn NodeFeatureGroupGVR] upserting_on [OF that(2)] by simp
qed (auto intro: upserting_step)

lemma upserting_start:
  assumes "nfdOk api nfdIn" and "list_all objWf objs" and "distinct (map oName objs)"
  shows "upserting api nfdIn G objs c (Some (Upserts G objs)) c"
  using assms unfolding upserting_def published_def by (intro conjI exI [of _ "[]"] exI [of _ objs]) simp_all

lemma applyObjects_ok:
  assumes "nfdOk api nfdIn" and "waitOk api wait" and "list_all objWf fs" "list_all objWf gs"
    and "distinct (map oName fs)" "distinct (map oName gs)" and "applyObjects api wait fs gs c = (None, c')"
  shows "upserting api nfdIn NodeFeatureGVR fs c None c' \<and> upserting api nfdIn NodeFeatureGroupGVR gs c None c'"
proof (rule applying.group_success)
  show "(gstep (threadStep api))\<^sup>*\<^sup>* (Some (Upserts NodeFeatureGVR fs), Some (Upserts NodeFeatureGroupGVR gs), None, c)
      (None, None, None, c')"
    using assms(2,7) by (simp add: waitOk_def applyObjects_def)
qed (rule upserting_start; use assms in simp)+

section \<open>Cleaning up\<close>

definition managed :: "'c nfdView \<Rightarrow> 'c \<Rightarrow> gvr \<Rightarrow> string \<Rightarrow> string \<Rightarrow> bool" where
  "managed nfdIn c G resourceKind name \<longleftrightarrow>
     (\<exists>obj. nfdIn c G name = Some obj \<and> selects (managedSelector resourceKind) obj)"

definition stale :: "'c nfdView \<Rightarrow> 'c \<Rightarrow> gvr \<Rightarrow> string \<Rightarrow> string list \<Rightarrow> string \<Rightarrow> bool" where
  "stale nfdIn c G resourceKind desired name \<longleftrightarrow> name \<notin> set desired \<and> managed nfdIn c G resourceKind name"

text \<open>
  The invariant of a goroutine that removes objects: what it still has to delete is stale, every other
  stale object is gone, and the rest of the resource has not changed.
\<close>

fun cleaningAt ::
  "'c nfdView \<Rightarrow> gvr \<Rightarrow> string \<Rightarrow> string list \<Rightarrow> 'c \<Rightarrow> nfdThread option \<Rightarrow> 'c \<Rightarrow> bool" where
  "cleaningAt nfdIn G kind desired c0 (Some (Cleanup H k d)) c \<longleftrightarrow>
     H = G \<and> k = kind \<and> d = desired \<and> nfdIn c G = nfdIn c0 G"
| "cleaningAt nfdIn G kind desired c0 (Some (Deletes H ns)) c \<longleftrightarrow>
     H = G \<and> list_all (stale nfdIn c0 G kind desired) ns \<and>
     (\<forall>name. stale nfdIn c0 G kind desired name \<longrightarrow> name \<in> set ns \<or> nfdIn c G name = None) \<and>
     (\<forall>name. \<not> stale nfdIn c0 G kind desired name \<longrightarrow> nfdIn c G name = nfdIn c0 G name)"
| "cleaningAt nfdIn G kind desired c0 (Some (Upserts _ _)) c \<longleftrightarrow> False"
| "cleaningAt nfdIn G kind desired c0 None c \<longleftrightarrow>
     (\<forall>name. nfdIn c G name = (if stale nfdIn c0 G kind desired name then None else nfdIn c0 G name))"

definition cleaning ::
  "'c nfdApi \<Rightarrow> 'c nfdView \<Rightarrow> gvr \<Rightarrow> string \<Rightarrow> string list \<Rightarrow> 'c \<Rightarrow> nfdThread option \<Rightarrow> 'c \<Rightarrow> bool" where
  "cleaning api nfdIn G kind desired c0 t c \<longleftrightarrow> nfdOk api nfdIn \<and> cleaningAt nfdIn G kind desired c0 t c"

lemma cleaning_on: "cleaning api nfdIn G kind desired c0 (Some t) c \<Longrightarrow> threadOn t = G \<and> threadWf t \<and> nfdOk api nfdIn"
  by (cases t) (auto simp: cleaning_def threadWf_def)

lemma cleaning_frame:
  "cleaning api nfdIn G kind desired c0 t c \<Longrightarrow> nfdIn c' G = nfdIn c G \<Longrightarrow> cleaning api nfdIn G kind desired c0 t c'"
  by (cases "(nfdIn, G, kind, desired, c0, t, c)" rule: cleaningAt.cases) (simp_all add: cleaning_def)

lemma cleaning_step:
  assumes inv: "cleaning api nfdIn G kind desired c0 (Some t) c" and step: "threadStep api t c = (None, t', c')"
  shows "cleaning api nfdIn G kind desired c0 t' c'"
proof (cases t)
  case (Upserts H objs)
  then show ?thesis using inv by (simp add: cleaning_def)
next
  case (Cleanup H k d)
  then have i: "H = G" "k = kind" "d = desired" "nfdIn c G = nfdIn c0 G" "nfdOk api nfdIn"
    using inv by (simp_all add: cleaning_def)
  obtain items where items: "nList api G (managedSelector kind) c = Inr items" "c' = c"
    "t' = Some (Deletes G (filter (\<lambda>n. n \<notin> set desired) (map oName items)))"
    using step Cleanup i by (auto split: sum.splits)
  have "set (map oName items) = {name. managed nfdIn c0 G kind name}"
    using i(4,5) items(1) unfolding nfdOk_def listDone_def managed_def by simp
  then have "name \<in> oName ` set items \<longleftrightarrow> managed nfdIn c0 G kind name" for name by auto
  then show ?thesis using i items by (auto simp: cleaning_def list_all_iff stale_def)
next
  case (Deletes H ns)
  show ?thesis
  proof (cases ns)
    case Nil
    then show ?thesis using inv step Deletes by (auto simp: cleaning_def)
  next
    case (Cons n ns')
    have api: "nfdOk api nfdIn" and H: "H = G" using inv Deletes by (simp_all add: cleaning_def)
    have u: "deleteObject api G n c = (None, c')" "t' = Some (Deletes G ns')"
      using step Deletes Cons H by (auto split: prod.splits option.splits)
    have r: "nfdIn c' G n = None" "name \<noteq> n \<Longrightarrow> nfdIn c' G name = nfdIn c G name" for name
      using deleteObject_ok [OF api u(1)] by (simp_all add: onlyAt_def)
    have n: "stale nfdIn c0 G kind desired n" using inv Deletes Cons by (simp add: cleaning_def)
    have one: "nfdIn c' G name = (if name = n then None else nfdIn c G name)" for name using r by simp
    show ?thesis using inv Deletes Cons n u(2) by (auto simp: cleaning_def one)
  qed
qed

interpretation tidying: errgroup "threadStep api" "cleaning api nfdIn NodeFeatureGVR k1 d1 c0"
  "cleaning api nfdIn NodeFeatureGroupGVR k2 d2 c0" for api :: "'c nfdApi" and nfdIn k1 d1 k2 d2 c0
proof
  show "cleaning api nfdIn NodeFeatureGVR k1 d1 c0 lo c'"
    if "cleaning api nfdIn NodeFeatureGVR k1 d1 c0 lo c" "cleaning api nfdIn NodeFeatureGroupGVR k2 d2 c0 (Some m) c"
      "threadStep api m c = (None, m', c')" for lo m m' c c'
    using cleaning_frame [OF that(1)] threadStep_frame [OF _ that(3), of nfdIn NodeFeatureGVR] cleaning_on [OF that(2)] by simp
  show "cleaning api nfdIn NodeFeatureGroupGVR k2 d2 c0 mo c'"
    if "cleaning api nfdIn NodeFeatureGroupGVR k2 d2 c0 mo c" "cleaning api nfdIn NodeFeatureGVR k1 d1 c0 (Some l) c"
      "threadStep api l c = (None, l', c')" for mo l l' c c'
    using cleaning_frame [OF that(1)] threadStep_frame [OF _ that(3), of nfdIn NodeFeatureGroupGVR] cleaning_on [OF that(2)] by simp
qed (auto intro: cleaning_step)

lemma cleanupObjects_ok:
  assumes "nfdOk api nfdIn" and "waitOk api wait" and "cleanupObjects api wait fs gs c = (None, c')"
  shows "cleaning api nfdIn NodeFeatureGVR resourceNodeFeature (objectNames fs) c None c' \<and>
    cleaning api nfdIn NodeFeatureGroupGVR resourceNodeFeatureGroup (objectNames gs) c None c'"
proof (rule tidying.group_success)
  show "(gstep (threadStep api))\<^sup>*\<^sup>* (Some (Cleanup NodeFeatureGVR resourceNodeFeature (objectNames fs)),
      Some (Cleanup NodeFeatureGroupGVR resourceNodeFeatureGroup (objectNames gs)), None, c) (None, None, None, c')"
    using assms(2,3) by (simp add: waitOk_def cleanupObjects_def)
qed (use assms in \<open>auto simp: cleaning_def\<close>)

section \<open>A run of the engine\<close>

lemma makeObjects_wf: "objWf (makeNodeFeature nodeName elements)" "objWf (makeNodeFeatureGroup kind val labelKey)"
  by (simp_all add: objWf_def gm_wf_def makeNodeFeature_def makeNodeFeatureGroup_def labelNFDNodeName_def labelManagedBy_def
    labelEngine_def labelResource_def labelGroupType_def)

lemma buildNFDObjects_wf:
  assumes "buildNFDObjects valid convert nl sv sl = Inr (fs, gs)"
  shows "list_all objWf fs" and "list_all objWf gs"
proof -
  obtain gv where fs: "foldE (addNodeObjects valid convert nl sv sl) (sorted_keys nl) ([], []) = Inr (fs, gv)"
    and gs: "groupObjects convert gv = Inr gs"
    using assms by (auto simp: buildNFDObjects_def split: sum.splits)
  have "list_all objWf (fst (fs, gv))"
    by (rule foldE_inv [OF fs]) (auto simp: addNodeObjects_def toUnstructured_def makeObjects_wf Let_def
        split: if_splits prod.splits option.splits)
  then show "list_all objWf fs" by simp
  show "list_all objWf gs"
    by (rule foldE_inv [OF gs [unfolded groupObjects_def]])
      (auto simp: toUnstructured_def makeObjects_wf split: option.splits)
qed

text \<open>Written and cleaned up: the desired objects of a resource are there, and nothing else is left that is managed.\<close>

definition synced :: "'c nfdView \<Rightarrow> 'c \<Rightarrow> 'c \<Rightarrow> gvr \<Rightarrow> string \<Rightarrow> NFDObj list \<Rightarrow> bool" where
  "synced nfdIn c c' G kind objs \<longleftrightarrow> published nfdIn c' G objs \<and>
     (\<forall>name. name \<notin> set (objectNames objs) \<longrightarrow>
        nfdIn c' G name = (if managed nfdIn c G kind name then None else nfdIn c G name))"

lemma synced_intro:
  assumes up: "upserting api nfdIn G objs c None c1" and cl: "cleaning api nfdIn G kind (objectNames objs) c1 None c'"
  shows "synced nfdIn c c' G kind objs"
proof -
  have p: "published nfdIn c1 G objs" and u: "name \<notin> set (objectNames objs) \<Longrightarrow> nfdIn c1 G name = nfdIn c G name" for name
    using up by (auto simp: upserting_def objectNames_def split: if_splits)
  have e: "nfdIn c' G name = (if stale nfdIn c1 G kind (objectNames objs) name then None else nfdIn c1 G name)" for name
    using cl by (simp add: cleaning_def)
  have "published nfdIn c' G objs"
    using p unfolding published_def e by (simp add: stale_def objectNames_def)
  moreover have "nfdIn c' G name = (if managed nfdIn c G kind name then None else nfdIn c G name)"
    if "name \<notin> set (objectNames objs)" for name
    using that u [OF that] unfolding e by (auto simp: stale_def managed_def)
  ultimately show ?thesis by (simp add: synced_def)
qed


text \<open>Without objects to publish the engine refuses, and the cluster keeps the old topology.\<close>

lemma GenerateOutput_no_objects:
  assumes "nCleanup (nfdParams' eng)" and "cachedNodes eng = Some nodes"
    and "BuildNodeLabels h (NewTopologyLabelKeys [] []) graph NewTopologyLabeler = Some (Inr l)"
    and "buildNFDObjects isValidLabelValue convert (nodeMap l)
        (acceleratorDomainSourceValues nodes (nSourceLabel (nfdParams' eng))) (nSourceLabel (nfdParams' eng)) = Inr ([], [])"
  shows "GenerateOutput api wait isValidLabelValue convert ctx listed h graph eng c = Some (Inl NoObjects, c)"
  using assms by (simp add: GenerateOutput_def)

section \<open>A group that runs one goroutine after the other\<close>

text \<open>Every goroutine ends, so such a group exists for every cluster.\<close>

function runThread :: "'c nfdApi \<Rightarrow> nfdThread \<Rightarrow> 'c \<Rightarrow> api_error option \<times> 'c" where
  "runThread api t c =
     (case threadStep api t c of
        (Some err, _, c') \<Rightarrow> (Some err, c')
      | (None, None, c') \<Rightarrow> (None, c')
      | (None, Some t', c') \<Rightarrow> runThread api t' c')"
  by pat_completeness auto

fun threadRank :: "nfdThread \<Rightarrow> nat" where
  "threadRank (Upserts _ objs) = length objs"
| "threadRank (Cleanup _ _ _) = 0"
| "threadRank (Deletes _ ns) = length ns"

fun isCleanup :: "nfdThread \<Rightarrow> bool" where
  "isCleanup (Cleanup _ _ _) = True"
| "isCleanup _ = False"

lemma threadStep_rank:
  "threadStep api t c = (None, Some t', c') \<Longrightarrow>
     isCleanup t \<and> \<not> isCleanup t' \<or> isCleanup t = isCleanup t' \<and> threadRank t' < threadRank t"
  by (cases "(api, t, c)" rule: threadStep.cases) (auto split: prod.splits option.splits sum.splits)

termination runThread
proof (relation "measures [\<lambda>(_, t, _). if isCleanup t then 1 else 0, \<lambda>(_, t, _). threadRank t]", goal_cases)
  case (2 api t c r e s c' t')
  then have "threadStep api t c = (None, Some t', c')" by (metis prod.collapse)
  from threadStep_rank [OF this] show ?case by auto
qed simp

declare runThread.simps [simp del]

definition runWait :: "'c nfdApi \<Rightarrow> 'c waitFun" where
  "runWait api step t1 t2 c =
     (case runThread api t1 c of
        (Some err, c') \<Rightarrow> (Some err, c')
      | (None, c') \<Rightarrow> runThread api t2 c')"

lemma runThread_steps:
  "runThread api t c = (err, c') \<Longrightarrow>
     (gstep (threadStep api))\<^sup>*\<^sup>* (Some t, m, None, c) (None, m, err, c') \<and>
     (gstep (threadStep api))\<^sup>*\<^sup>* (m, Some t, None, c) (m, None, err, c')"
proof (induction api t c rule: runThread.induct)
  case (1 api t c)
  obtain e s c1 where r: "threadStep api t c = (e, s, c1)" by (cases "threadStep api t c")
  show ?case
  proof (cases e)
    case (Some x)
    then have "gstep (threadStep api) (Some t, m, None, c) (None, m, Some x, c1)"
      "gstep (threadStep api) (m, Some t, None, c) (m, None, Some x, c1)"
      using fail1 [of "threadStep api" t c x s c1 m None] fail2 [of "threadStep api" t c x s c1 m None] r by simp_all
    then show ?thesis using 1(2) r Some by (auto simp: runThread.simps [of api t c])
  next
    case None
    then have st: "gstep (threadStep api) (Some t, m, None, c) (s, m, None, c1)"
      "gstep (threadStep api) (m, Some t, None, c) (m, s, None, c1)"
      using r by (simp_all add: run1 run2)
    show ?thesis
    proof (cases s)
      case None
      then show ?thesis using st 1(2) r \<open>e = None\<close> by (auto simp: runThread.simps [of api t c])
    next
      case (Some t')
      then have "runThread api t' c1 = (err, c')" using 1(2) r None by (simp add: runThread.simps [of api t c])
      note ih = 1(1) [OF r [symmetric] None refl Some this]
      show ?thesis using st ih unfolding Some by (meson converse_rtranclp_into_rtranclp)
    qed
  qed
qed

lemma runWait_ok: "waitOk api (runWait api)"
proof -
  have "(gstep (threadStep api))\<^sup>*\<^sup>* (Some t1, Some t2, None, c) (None, None, err, c')"
    if w: "runWait api (threadStep api) t1 t2 c = (err, c')" for t1 t2 c err c'
  proof (cases "runThread api t1 c")
    case (Pair e c1)
    note first = runThread_steps [OF Pair, of "Some t2", THEN conjunct1]
    show ?thesis
    proof (cases e)
      case (Some x)
      then have "(err, c') = (Some x, c1)" using w Pair by (simp add: runWait_def)
      then show ?thesis using first Some cancel2 [of "Some x" "threadStep api" None t2 c1] by (simp add: rtranclp.rtrancl_into_rtrancl)
    next
      case None
      then have "runThread api t2 c1 = (err, c')" using w Pair by (simp add: runWait_def)
      from runThread_steps [OF this, of None, THEN conjunct2] first None show ?thesis by (simp add: rtranclp_trans)
    qed
  qed
  then show ?thesis by (simp add: waitOk_def)
qed

section \<open>Example\<close>

type_synonym store = "(gvr \<times> string, NFDObj) gomap"

definition storeApi :: "store nfdApi" where
  "storeApi = \<lparr>
     nList = (\<lambda>G sel c. Inr (map (\<lambda>((_, name), obj). obj\<lparr>oName := name\<rparr>)
       (filter (\<lambda>((H, name), obj). H = G \<and> gm_get c (G, name) = Some obj \<and> selects sel obj) c))),
     nPatch = (\<lambda>G name ops c. case gm_get c (G, name) of
         None \<Rightarrow> (Some ApiNotFound, c)
       | Some obj \<Rightarrow> (None, gm_put (G, name) (applyOps ops obj) c)),
     nCreate = (\<lambda>G obj c. case gm_get c (G, oName obj) of
         Some _ \<Rightarrow> (Some ApiAlreadyExists, c)
       | None \<Rightarrow> (None, gm_put (G, oName obj) obj c)),
     nDelete = (\<lambda>G name c. case gm_get c (G, name) of
         None \<Rightarrow> (Some ApiNotFound, c)
       | Some _ \<Rightarrow> (None, gm_del (G, name) c))\<rparr>"

definition storeIn :: "store nfdView" where
  "storeIn c G name = gm_get c (G, name)"

lemma storeApi_ok: "nfdOk storeApi storeIn"
proof -
  have "patchDone storeApi storeIn" "createDone storeApi storeIn" "deleteDone storeApi storeIn"
    by (auto simp: patchDone_def createDone_def deleteDone_def storeApi_def storeIn_def onlyAt_def split: option.splits)
  moreover have "listDone storeApi storeIn"
    by (force simp: listDone_def storeApi_def storeIn_def dest: map_of_SomeD)
  ultimately show ?thesis by (simp add: nfdOk_def)
qed

lemma storeApi_no_error: "fst (threadStep storeApi t c) = None"
  by (cases "(storeApi, t, c)" rule: threadStep.cases)
    (auto simp: upsertObject_def deleteObject_def storeApi_def split: option.splits)

lemma runThread_no_error: "api = storeApi \<Longrightarrow> fst (runThread api t c) = None"
proof (induction api t c rule: runThread.induct)
  case (1 api t c)
  obtain s c1 where r: "threadStep api t c = (None, s, c1)"
    using storeApi_no_error [of t c] 1(2) by (cases "threadStep api t c") auto
  show ?case
  proof (cases s)
    case None
    then show ?thesis using r by (simp add: runThread.simps [of api t c])
  next
    case (Some t')
    from 1(1) [OF r [symmetric] refl refl Some 1(2)] show ?thesis using r Some by (simp add: runThread.simps [of api t c])
  qed
qed

lemma runWait_no_error: "fst (runWait storeApi step t1 t2 c) = None"
  using runThread_no_error [of storeApi t1 c] runThread_no_error [of storeApi t2] by (auto simp: runWait_def split: prod.splits option.splits)

definition nfdGraph :: Graph where
  "nfdGraph = \<lparr>Tiers = None, gDomains = Some (AddHost ''nvl'' ''i1'' ''n1'' []), gInstances = []\<rparr>"

definition nfdEngine :: NfdEngine where
  "nfdEngine = \<lparr>nfdParams' = \<lparr>nNodeSelector = [], nCleanup = True, nSourceLabel = [], nListOpt = None\<rparr>, cachedNodes = Some []\<rparr>"

definition nfdStore :: store where
  "nfdStore =
     [((NodeFeatureGVR, ''old''), \<lparr>oKind = ''NodeFeature'', oName = ''old'', oLabels = managedSelector resourceNodeFeature,
        oAnnotations = [], oSpec = FeatureSpec []\<rparr>),
      ((NodeFeatureGVR, ''foreign''), \<lparr>oKind = ''NodeFeature'', oName = ''foreign'', oLabels = [],
        oAnnotations = [], oSpec = FeatureSpec []\<rparr>)]"

lemma nfdGraph_labels:
  "BuildNodeLabels [] (NewTopologyLabelKeys [] []) (Some nfdGraph) NewTopologyLabeler =
     Some (Inr \<lparr>mapper = [(''nvl'', ''nvl'')], nodeMap = [(''n1'', [(KeyTopologyXclrDomain, ''nvl'')])]\<rparr>)"
  by code_simp

lemma nfdGraph_objects:
  "buildNFDObjects (\<lambda>_. []) (\<lambda>_. None) [(''n1'', [(KeyTopologyXclrDomain, ''nvl'')])] [] [] =
     Inr ([makeNodeFeature ''n1'' [(topologyTypeAcceleratorDomain, ''nvl'')]],
       [makeNodeFeatureGroup topologyTypeAcceleratorDomain ''nvl'' KeyTopologyXclrDomain])"
proof -
  let ?labels = "[(KeyTopologyXclrDomain, ''nvl'')]" and ?gv = "[(topologyTypeAcceleratorDomain, [(''nvl'', KeyTopologyXclrDomain)])]"
  have "labelsFor [(''n1'', ?labels)] ''n1'' = ?labels" "sorted_keys [(''n1'', ?labels)] = [''n1'']"
    "TrimSpace (strAt [] ''n1'') = []"
    "addSource [] [] (fold (addElement [] [] ?labels) (sorted_keys ?labels) ([], [])) =
       ([(topologyTypeAcceleratorDomain, ''nvl'')], ?gv)"
    "concat (map (\<lambda>kind. map (Pair kind) (sorted_keys (valuesOf ?gv kind))) (sorted_keys ?gv)) = [(topologyTypeAcceleratorDomain, ''nvl'')]"
    "strAt (valuesOf ?gv topologyTypeAcceleratorDomain) ''nvl'' = KeyTopologyXclrDomain"
    by code_simp+
  then show ?thesis by (simp add: buildNFDObjects_def groupObjects_def addNodeObjects_def toUnstructured_def)
qed

lemma stableObjectName_long: "10 \<le> length (stableObjectName p v)"
  by (simp add: stableObjectName_def Let_def shortHash_label(1))


end
