(* ===== verification/Slinky.thy ===== *)
theory Slinky
  imports Slurm KubeNodes
begin

text \<open>
  Component \<open>pkg/engines/slinky/engine.go\<close>: the engine for Slurm clusters that run on Kubernetes. It finds
  the Slurm name of every node through the \<open>slurmd\<close> pods, translates the graph with the Slurm
  settings, stores the result in a config map and, for dynamic nodes, in annotations of the nodes.

  The cluster is a state of arbitrary type; \<open>slinkyApi\<close> collects the calls of the client, the remote
  execution and the conversion of label selectors. The compiler of regular expressions, the YAML
  encoder and the clock are arguments. Maps are traversed in the order of their lists.
\<close>

section \<open>Model\<close>

record LabelSelector =
  MatchLabels :: "(string, string) gomap"
  MatchExpressions :: "(string \<times> string \<times> string list) list"

record SlinkyTopology =
  stTopology :: PartitionTopology
  stPodSelector :: LabelSelector

record SlinkyParams = BaseParams +
  slNamespace :: string
  slPodSelector :: LabelSelector
  slNodeSelector :: "(string, string) gomap"
  slConfigMapName :: string
  slConfigPath :: string
  slUseDynamicNodes :: bool
  slSourceLabel :: string
  slConfigUpdateMode :: string
  slTopologies :: "(string, SlinkyTopology option) gomap"
  slPodListOpt :: string
  slNodeListOpt :: "(string, string) gomap option"

record clusterNodes =
  cnNodes :: "KNode list"
  cnNodeMap :: "(string, string) gomap"

record SlinkyEngine =
  slParams :: SlinkyParams
  cachedClusterNodes :: "clusterNodes option"

record ConfigMap =
  cmData :: "(string, string) gomap"
  cmAnnotations :: "(string, string) gomap"

datatype slinky_error =
  SlDecode string
| SlMeta meta_error
| BadUpdateMode string
| BadSelector string
| MissingParameter string
| NilTopology string
| NodesAndSelector string
| ListPods string
| TopologyPods string slinky_error
| NoSelectedNodes
| NoUsableDomains nat nat nat string
| SlSlurm slurm_error
| ConfigMapFailed string string
| PatchFailed string

datatype cm_error = CMNotFound | CMError string

record 'c slinkyApi =
  sListNodes :: "(string, string) gomap option \<Rightarrow> 'c \<Rightarrow> string + KNode list"
  sListPods :: "string \<Rightarrow> string \<Rightarrow> 'c \<Rightarrow> string + Pod list"
  sExec :: "string \<Rightarrow> string \<Rightarrow> string list \<Rightarrow> 'c \<Rightarrow> string + string"
  sGetCM :: "string \<Rightarrow> string \<Rightarrow> 'c \<Rightarrow> cm_error + ConfigMap"
  sUpdateCM :: "string \<Rightarrow> string \<Rightarrow> ConfigMap \<Rightarrow> 'c \<Rightarrow> string option \<times> 'c"
  sCreateCM :: "string \<Rightarrow> string \<Rightarrow> ConfigMap \<Rightarrow> 'c \<Rightarrow> string option \<times> 'c"
  sPatchNode :: "string \<Rightarrow> json \<Rightarrow> 'c \<Rightarrow> string option \<times> 'c"
  sSelector :: "LabelSelector \<Rightarrow> string + string"
  sLabels :: "(string, string) gomap \<Rightarrow> string"

definition ConfigUpdateModeNone :: string where "ConfigUpdateModeNone = ''none''"
definition ConfigUpdateModeSkeletonOnly :: string where "ConfigUpdateModeSkeletonOnly = ''skeleton-only''"
definition dynamicShowPartitionNodes :: string where "dynamicShowPartitionNodes = char_of (9 :: nat) # ''Nodes=NONE''"
definition KeySlurmNodeName :: string where "KeySlurmNodeName = ''slurm.node.name''"
definition KeySlinkyTopologySpec :: string where "KeySlinkyTopologySpec = ''topology.slinky.slurm.net/spec''"

subsection \<open>Parameters\<close>

definition isEmptySelector :: "LabelSelector \<Rightarrow> bool" where
  "isEmptySelector sel \<longleftrightarrow> MatchLabels sel = [] \<and> MatchExpressions sel = []"

definition checkTopology :: "string \<times> SlinkyTopology option \<Rightarrow> unit \<Rightarrow> slinky_error + unit" where
  "checkTopology = (\<lambda>(name, t) _.
     case t of
       None \<Rightarrow> Inl (NilTopology name)
     | Some t \<Rightarrow>
         if ptNodes (stTopology t) \<noteq> None \<and> \<not> isEmptySelector (stPodSelector t) then Inl (NodesAndSelector name)
         else Inr ())"

definition zeroParams :: SlinkyParams where
  "zeroParams = \<lparr>bpPlugin = [], bpBlockSizes = [], bpBlockName = None, slNamespace = [],
     slPodSelector = \<lparr>MatchLabels = [], MatchExpressions = []\<rparr>, slNodeSelector = [], slConfigMapName = [],
     slConfigPath = [], slUseDynamicNodes = False, slSourceLabel = [], slConfigUpdateMode = [], slTopologies = [],
     slPodListOpt = [], slNodeListOpt = None\<rparr>"

definition getParameters ::
  "('cfg \<Rightarrow> SlinkyParams \<Rightarrow> string + SlinkyParams) \<Rightarrow> (string \<Rightarrow> string list) \<Rightarrow> (LabelSelector \<Rightarrow> string + string)
     \<Rightarrow> 'cfg \<Rightarrow> slinky_error + SlinkyParams" where
  "getParameters decode isQualifiedName selector cfg =
     (case decode cfg zeroParams of
        Inl err \<Rightarrow> Inl (SlDecode err)
      | Inr p \<Rightarrow>
          (case (if slSourceLabel p \<noteq> []
                 then ValidateLabelKey isQualifiedName ''acceleratorDomainSourceLabel'' (slSourceLabel p) else None) of
             Some err \<Rightarrow> Inl (SlMeta err)
           | None \<Rightarrow>
               if slConfigUpdateMode p \<notin> {[], ConfigUpdateModeNone, ConfigUpdateModeSkeletonOnly}
               then Inl (BadUpdateMode (slConfigUpdateMode p))
               else
                 (case selector (slPodSelector p) of
                    Inl err \<Rightarrow> Inl (BadSelector err)
                  | Inr sel \<Rightarrow>
                      (let p' = p\<lparr>slPodListOpt := sel,
                             slNodeListOpt := (if slNodeSelector p \<noteq> [] then Some (slNodeSelector p) else slNodeListOpt p)\<rparr>
                       in case find (\<lambda>(key, val). val = [])
                                 [(''namespace'', slNamespace p'), (''podSelector'', slPodListOpt p'),
                                  (''topologyConfigPath'', slConfigPath p'), (''topologyConfigmapName'', slConfigMapName p')] of
                            Some (key, _) \<Rightarrow> Inl (MissingParameter key)
                          | None \<Rightarrow> map_sum id (\<lambda>_. p') (foldE checkTopology (slTopologies p') ())))))"

subsection \<open>Slurm nodes\<close>

definition resolveSlurmNodeName :: "Pod \<Rightarrow> string" where
  "resolveSlurmNodeName pod =
     (case gm_get (podLabels pod) KeySlurmNodeName of Some name \<Rightarrow> name | None \<Rightarrow> podHostname pod)"

definition mapPod :: "Pod \<Rightarrow> (string, string) gomap \<Rightarrow> (string, string) gomap" where
  "mapPod pod nodeMap =
     (if \<not> IsPodReady pod then nodeMap
      else
        (let host = resolveSlurmNodeName pod
         in if host = [] then nodeMap else gm_put (podNodeName pod) host nodeMap))"

definition getClusterNodes ::
  "'c slinkyApi \<Rightarrow> NodeMetadata option \<Rightarrow> 'c \<Rightarrow> SlinkyEngine \<Rightarrow> ((int \<times> slinky_error) + clusterNodes) \<times> SlinkyEngine" where
  "getClusterNodes api ctx c eng =
     (case cachedClusterNodes eng of
        Some cn \<Rightarrow> (Inr cn, eng)
      | None \<Rightarrow>
          (case GetNodes ctx (sListNodes api (slNodeListOpt (slParams eng)) c) of
             Inl err \<Rightarrow> (Inl (StatusBadGateway, SlMeta err), eng)
           | Inr nodes \<Rightarrow>
               (case sListPods api (slNamespace (slParams eng)) (slPodListOpt (slParams eng)) c of
                  Inl err \<Rightarrow> (Inl (StatusBadGateway, ListPods err), eng)
                | Inr pods \<Rightarrow>
                    (let cn = \<lparr>cnNodes = nodes, cnNodeMap = fold mapPod pods []\<rparr>
                     in (Inr cn, eng\<lparr>cachedClusterNodes := Some cn\<rparr>)))))"

definition addInstance :: "(string, string) gomap \<Rightarrow> KNode \<Rightarrow> regionState \<Rightarrow> regionState" where
  "addInstance nodeMap node st =
     (case gm_get nodeMap (kName node) of
        None \<Rightarrow> st
      | Some hostName \<Rightarrow>
          (case gm_get (kAnnotations node) KeyNodeInstance of
             None \<Rightarrow> st
           | Some instance' \<Rightarrow>
               (case gm_get (kAnnotations node) KeyNodeRegion of
                  None \<Rightarrow> st
                | Some region \<Rightarrow>
                    \<lparr>rsRegions = gm_put region (gm_put instance' hostName (regionAt st region)) (rsRegions st),
                     rsNames = (if gm_get (rsRegions st) region = None then rsNames st @ [region] else rsNames st)\<rparr>)))"

definition getComputeInstances :: "KNode list \<Rightarrow> (string, string) gomap \<Rightarrow> ComputeInstances list" where
  "getComputeInstances nodes nodeMap =
     (let st = fold (addInstance nodeMap) nodes \<lparr>rsRegions = [], rsNames = []\<rparr>
      in map (\<lambda>region. \<lparr>Region = region, Instances = regionAt st region\<rparr>) (rsNames st))"

definition ResolveComputeInstances ::
  "'c slinkyApi \<Rightarrow> NodeMetadata option \<Rightarrow> 'c \<Rightarrow> ComputeInstances list \<Rightarrow> SlinkyEngine
     \<Rightarrow> ((int \<times> slinky_error) + ComputeInstances list) \<times> SlinkyEngine" where
  "ResolveComputeInstances api ctx c instances eng =
     (if instances \<noteq> [] \<and> \<not> slUseDynamicNodes (slParams eng) then (Inr instances, eng)
      else
        (case getClusterNodes api ctx c eng of
           (Inl err, eng') \<Rightarrow> (Inl err, eng')
         | (Inr cn, eng') \<Rightarrow>
             (Inr (if instances \<noteq> [] then instances else getComputeInstances (cnNodes cn) (cnNodeMap cn)), eng')))"

subsection \<open>Domains from a node label\<close>

record domainScan =
  dsDomains :: DomainMap
  dsNoSlurmName :: nat
  dsNoSourceLabel :: nat
  dsMissing :: "string list"

definition scanNode :: "(string, string) gomap \<Rightarrow> string \<Rightarrow> KNode \<Rightarrow> domainScan \<Rightarrow> domainScan" where
  "scanNode nodeMap sourceLabel node ds =
     (let slurmName = strAt nodeMap (kName node)
      in if slurmName = [] then ds\<lparr>dsNoSlurmName := dsNoSlurmName ds + 1\<rparr>
         else
           (let acceleratorDomain = TrimSpace (strAt (kLabels node) sourceLabel)
            in if acceleratorDomain = [] then ds\<lparr>dsNoSourceLabel := dsNoSourceLabel ds + 1\<rparr>
               else
                 (let instance' = TrimSpace (strAt (kAnnotations node) KeyNodeInstance)
                  in if instance' = [] then ds\<lparr>dsMissing := dsMissing ds @ [kName node]\<rparr>
                     else ds\<lparr>dsDomains := AddHost acceleratorDomain instance' slurmName (dsDomains ds)\<rparr>)))"

definition formatMissingAnnotationNodes :: "string list \<Rightarrow> string" where
  "formatMissingAnnotationNodes nodes =
     (if nodes = [] then []
      else if length nodes \<le> 10 then '' (nodes missing annotation: '' @ join '', '' nodes @ '')''
      else '' (nodes missing annotation: '' @ join '', '' (take 10 nodes) @ '', and '' @ itoa (length nodes - 10) @ '' more)'')"

definition withLabelBackedDomains ::
  "Graph option \<Rightarrow> clusterNodes \<Rightarrow> string \<Rightarrow> (int \<times> slinky_error) + Graph" where
  "withLabelBackedDomains graph cn sourceLabel =
     (if cnNodes cn = [] then Inl (StatusBadGateway, NoSelectedNodes)
      else
        (let ds = fold (scanNode (cnNodeMap cn) sourceLabel) (cnNodes cn)
               \<lparr>dsDomains = [], dsNoSlurmName = 0, dsNoSourceLabel = 0, dsMissing = []\<rparr>
         in if dsDomains ds = []
            then Inl (StatusBadGateway, NoUsableDomains (length (cnNodes cn)) (dsNoSlurmName ds) (dsNoSourceLabel ds)
                   (formatMissingAnnotationNodes (dsMissing ds)))
            else
              (case graph of
                 None \<Rightarrow> Inr \<lparr>Tiers = None, gDomains = Some (dsDomains ds), gInstances = []\<rparr>
               | Some g \<Rightarrow> Inr (g\<lparr>gDomains := Some (dsDomains ds)\<rparr>))))"

definition usesBlockTopology :: "Config \<Rightarrow> bool" where
  "usesBlockTopology cfg \<longleftrightarrow>
     Plugin cfg = TopologyBlock \<or> list_ex (\<lambda>(_, spec). sPlugin spec = TopologyBlock) (Topologies cfg)"

subsection \<open>The config map\<close>

definition intToStr :: "int list \<Rightarrow> string" where
  "intToStr input = join '','' (map fmtInt input)"

definition generateConfigMapAnnotations :: "string \<Rightarrow> SlinkyParams \<Rightarrow> (string, string) gomap" where
  "generateConfigMapAnnotations now p =
     [(''topograph.run/engine'', ''slinky''), (''topograph.run/topology-managed-by'', ''topograph''),
      (''topograph.run/last-updated'', now), (''topograph.run/slurm-namespace'', slNamespace p)] @
     (if bpPlugin p \<noteq> [] then [(''topograph.run/plugin'', bpPlugin p)] else []) @
     (if bpBlockSizes p \<noteq> [] then [(''topograph.run/block-sizes'', intToStr (bpBlockSizes p))] else [])"

definition UpdateTopologyConfigmap ::
  "'c slinkyApi \<Rightarrow> string \<Rightarrow> SlinkyParams \<Rightarrow> string \<Rightarrow> string \<Rightarrow> (string, string) gomap \<Rightarrow> 'c \<Rightarrow> slinky_error option \<times> 'c" where
  "UpdateTopologyConfigmap api now p name namespace data c =
     (let annotations = generateConfigMapAnnotations now p
      in case sGetCM api namespace name c of
           Inr cm \<Rightarrow>
             if \<not> list_ex (\<lambda>(key, val). strAt (cmData cm) key \<noteq> val) data then (None, c)
             else
               (case sUpdateCM api namespace name
                       (cm\<lparr>cmData := gm_copy (cmData cm) data, cmAnnotations := gm_copy (cmAnnotations cm) annotations\<rparr>) c of
                  (Some err, c') \<Rightarrow> (Some (ConfigMapFailed ''update'' err), c')
                | (None, c') \<Rightarrow> (None, c'))
         | Inl CMNotFound \<Rightarrow>
             (case sCreateCM api namespace name \<lparr>cmData = data, cmAnnotations = annotations\<rparr> c of
                (Some err, c') \<Rightarrow> (Some (ConfigMapFailed ''create'' err), c')
              | (None, c') \<Rightarrow> (None, c'))
         | Inl (CMError err) \<Rightarrow> (Some (ConfigMapFailed ''get'' err), c))"

subsection \<open>Partitions\<close>

definition listPartitionNodes ::
  "'c slinkyApi \<Rightarrow> SlinkyParams \<Rightarrow> 'c \<Rightarrow> LabelSelector \<Rightarrow> slinky_error + string list" where
  "listPartitionNodes api p c sel =
     (case sSelector api sel of
        Inl err \<Rightarrow> Inl (BadSelector err)
      | Inr s \<Rightarrow>
          (case sListPods api (slNamespace p) s c of
             Inl err \<Rightarrow> Inl (ListPods err)
           | Inr pods \<Rightarrow> Inr (filter (\<lambda>host. host \<noteq> []) (map resolveSlurmNodeName (filter IsPodReady pods)))))"

text \<open>A nil entry is dereferenced and panics.\<close>

definition resolveTopology ::
  "'c slinkyApi \<Rightarrow> SlinkyParams \<Rightarrow> 'c \<Rightarrow> string \<times> SlinkyTopology option \<Rightarrow> (string, PartitionTopology option) gomap
     \<Rightarrow> (go_panic + slinky_error) + (string, PartitionTopology option) gomap" where
  "resolveTopology api p c = (\<lambda>(name, t) out.
     case t of
       None \<Rightarrow> Inl (Inl NilDereference)
     | Some t \<Rightarrow>
         (let st = stTopology t
          in if ptNodes st \<in> {None, Some []} \<and> \<not> isEmptySelector (stPodSelector t)
             then
               (case listPartitionNodes api p c (stPodSelector t) of
                  Inl err \<Rightarrow> Inl (Inr (TopologyPods name err))
                | Inr nodes \<Rightarrow> Inr (gm_put name (Some (st\<lparr>ptNodes := Some nodes\<rparr>)) out))
             else Inr (gm_put name (Some st) out)))"

definition resolveTopologies ::
  "'c slinkyApi \<Rightarrow> SlinkyParams \<Rightarrow> 'c \<Rightarrow> (go_panic + slinky_error) + (string, PartitionTopology option) gomap" where
  "resolveTopologies api p c = foldE (resolveTopology api p c) (slTopologies p) []"

text \<open>
  The search for a pod that answers \<open>scontrol show partition\<close>: the loop over the running pods of a
  component, and the loop over the components. The left result collects the errors.
\<close>

fun tryPods :: "'c slinkyApi \<Rightarrow> 'c \<Rightarrow> string \<Rightarrow> string \<Rightarrow> Pod list \<Rightarrow> string list + string" where
  "tryPods api c component part [] = Inl []"
| "tryPods api c component part (pod # pods) =
     (if podPhase pod \<noteq> ''Running'' then tryPods api c component part pods
      else
        (case sExec api (podName pod) (podNamespace pod) [''scontrol'', ''show'', ''partition'', part] c of
           Inr out \<Rightarrow> Inr out
         | Inl err \<Rightarrow>
             (case tryPods api c component part pods of
                Inr out \<Rightarrow> Inr out
              | Inl errs \<Rightarrow> Inl ((''exec on '' @ component @ '' pod '' @ podName pod @ '': '' @ err) # errs))))"

fun tryComponents :: "'c slinkyApi \<Rightarrow> 'c \<Rightarrow> string \<Rightarrow> string \<Rightarrow> string list \<Rightarrow> string list + string" where
  "tryComponents api c namespace part [] = Inl []"
| "tryComponents api c namespace part (component # rest) =
     (case (case sListPods api namespace (sLabels api [(''app.kubernetes.io/component'', component)]) c of
              Inl err \<Rightarrow> Inl [''list '' @ component @ '' pods: '' @ err]
            | Inr pods \<Rightarrow> tryPods api c component part pods) of
        Inr out \<Rightarrow> Inr out
      | Inl errs \<Rightarrow>
          (case tryComponents api c namespace part rest of
             Inr out \<Rightarrow> Inr out
           | Inl errs2 \<Rightarrow> Inl (errs @ errs2)))"

text \<open>The parameter list is built by the engine and holds the namespace; the type checks of the code pass.\<close>

definition getPartitionNodes :: "'c slinkyApi \<Rightarrow> SlinkyParams \<Rightarrow> 'c \<Rightarrow> string \<Rightarrow> nodeFinder" where
  "getPartitionNodes api p c namespace part =
     (if slUseDynamicNodes p then Inr dynamicShowPartitionNodes
      else
        (case tryComponents api c namespace part [''controller'', ''login''] of
           Inr out \<Rightarrow> Inr out
         | Inl errs \<Rightarrow>
             if errs \<noteq> []
             then Inl (CommandFailed (''partition discovery failed on all controller and login pods: '' @ join ''; '' errs))
             else Inl (CommandFailed ''no running controller or login pods found for partition discovery'')))"

subsection \<open>Annotations of dynamic nodes\<close>

definition annotationPatch :: "string \<Rightarrow> string \<Rightarrow> json" where
  "annotationPatch key val = JObject [(''metadata'', JObject [(''annotations'', JObject [(key, JString val)])])]"

text \<open>The node is an element of the cached list and is changed there.\<close>

definition updateNodeAnnotation ::
  "'c slinkyApi \<Rightarrow> NetworkTopology \<Rightarrow> TopologyUnit list \<Rightarrow> nat \<Rightarrow> string \<Rightarrow> KNode list \<times> 'c
     \<Rightarrow> (int \<times> slinky_error) option \<times> KNode list \<times> 'c" where
  "updateNodeAnnotation api nt topologies i slurmName = (\<lambda>(nodes, c).
     let node = nodes ! i; desiredSpec = GetNodeTopologySpec nt slurmName topologies
     in if desiredSpec = [] then (None, nodes, c)
        else if strAt (kAnnotations node) KeySlinkyTopologySpec = desiredSpec then (None, nodes, c)
        else
          (case sPatchNode api (kName node) (annotationPatch KeySlinkyTopologySpec desiredSpec) c of
             (Some err, c') \<Rightarrow> (Some (StatusBadGateway, PatchFailed err), nodes, c')
           | (None, c') \<Rightarrow>
               (None, nodes[i := node\<lparr>kAnnotations := gm_put KeySlinkyTopologySpec desiredSpec (kAnnotations node)\<rparr>], c')))"

definition reconcileNode ::
  "'c slinkyApi \<Rightarrow> NetworkTopology \<Rightarrow> TopologyUnit list \<Rightarrow> (string, string) gomap \<Rightarrow> nat \<Rightarrow> KNode list \<times> 'c
     \<Rightarrow> (int \<times> slinky_error) option \<times> KNode list \<times> 'c" where
  "reconcileNode api nt topologies nodeMap i = (\<lambda>(nodes, c).
     case gm_get nodeMap (kName (nodes ! i)) of
       None \<Rightarrow> (None, nodes, c)
     | Some slurmName \<Rightarrow> updateNodeAnnotation api nt topologies i slurmName (nodes, c))"

definition performReconciliation ::
  "'c slinkyApi \<Rightarrow> NetworkTopology \<Rightarrow> TopologyUnit list \<Rightarrow> clusterNodes \<Rightarrow> SlinkyEngine \<times> 'c
     \<Rightarrow> (int \<times> slinky_error) option \<times> SlinkyEngine \<times> 'c" where
  "performReconciliation api nt topologies cn = (\<lambda>(eng, c).
     let (err, nodes, c') = forEach (reconcileNode api nt topologies (cnNodeMap cn)) [0..<length (cnNodes cn)] (cnNodes cn, c)
     in (err, eng\<lparr>cachedClusterNodes := Some (cn\<lparr>cnNodes := nodes\<rparr>)\<rparr>, c'))"

subsection \<open>Output\<close>

text \<open>\<open>None\<close>: a loop of the translation did not end. On the left of the result: the engine panicked.\<close>

definition labelBacked ::
  "'c slinkyApi \<Rightarrow> NodeMetadata option \<Rightarrow> 'c \<Rightarrow> Config \<Rightarrow> Graph option \<Rightarrow> SlinkyEngine
     \<Rightarrow> ((int \<times> slinky_error) + Graph option) \<times> SlinkyEngine" where
  "labelBacked api ctx c cfg graph eng =
     (let p = slParams eng
      in if slSourceLabel p \<noteq> [] \<and> usesBlockTopology cfg
         then
           (case getClusterNodes api ctx c eng of
              (Inl err, eng1) \<Rightarrow> (Inl err, eng1)
            | (Inr cn, eng1) \<Rightarrow> (map_sum id Some (withLabelBackedDomains graph cn (slSourceLabel p)), eng1))
         else (Inr graph, eng))"

definition publish ::
  "'c slinkyApi \<Rightarrow> string \<Rightarrow> NodeMetadata option \<Rightarrow> NetworkTopology \<Rightarrow> TopologyUnit list \<Rightarrow> string \<Rightarrow> SlinkyEngine \<Rightarrow> 'c
     \<Rightarrow> ((int \<times> slinky_error) + string) \<times> SlinkyEngine \<times> 'c" where
  "publish api now ctx nt topologies desiredTopology eng c =
     (let p = slParams eng
      in case (if slConfigUpdateMode p \<noteq> ConfigUpdateModeNone
               then UpdateTopologyConfigmap api now p (slConfigMapName p) (slNamespace p)
                      [(slConfigPath p, desiredTopology)] c
               else (None, c)) of
           (Some err, c1) \<Rightarrow> (Inl (StatusInternalServerError, err), eng, c1)
         | (None, c1) \<Rightarrow>
             if slUseDynamicNodes p
             then
               (case getClusterNodes api ctx c1 eng of
                  (Inl err, eng1) \<Rightarrow> (Inl err, eng1, c1)
                | (Inr cn, eng1) \<Rightarrow>
                    (case performReconciliation api nt topologies cn (eng1, c1) of
                       (Some err, eng2, c2) \<Rightarrow> (Inl err, eng2, c2)
                     | (None, eng2, c2) \<Rightarrow> (Inr (''OK'' @ [newline]), eng2, c2)))
             else (Inr (''OK'' @ [newline]), eng, c1))"

definition GenerateOutput ::
  "'c slinkyApi \<Rightarrow> (string \<Rightarrow> regex option) \<Rightarrow> (TopologyUnit list \<Rightarrow> string + string) \<Rightarrow> string \<Rightarrow> NodeMetadata option
     \<Rightarrow> heap \<Rightarrow> Graph option \<Rightarrow> SlinkyEngine \<Rightarrow> 'c
     \<Rightarrow> (go_panic + ((int \<times> slinky_error) + string) \<times> SlinkyEngine \<times> 'c) option" where
  "GenerateOutput api compile marshal now ctx h graph eng c =
     (let p = slParams eng
      in case resolveTopologies api p c of
           Inl (Inl pn) \<Rightarrow> Some (Inl pn)
         | Inl (Inr err) \<Rightarrow> Some (Inr (Inl (StatusInternalServerError, err), eng, c))
         | Inr topos \<Rightarrow>
             (case GetTranslateConfig compile p topos (getPartitionNodes api p c (slNamespace p)) of
                None \<Rightarrow> None
              | Some (Inl pn) \<Rightarrow> Some (Inl pn)
              | Some (Inr (Inl (status, err))) \<Rightarrow> Some (Inr (Inl (status, SlSlurm err), eng, c))
              | Some (Inr (Inr cfg)) \<Rightarrow>
                  (case labelBacked api ctx c cfg graph eng of
                     (Inl err, eng1) \<Rightarrow> Some (Inr (Inl err, eng1, c))
                   | (Inr graph', eng1) \<Rightarrow>
                       (case NewNetworkTopology compile h graph' cfg of
                          None \<Rightarrow> None
                        | Some (Inl err) \<Rightarrow> Some (Inr (Inl (StatusBadRequest, SlSlurm (Translation err)), eng1, c))
                        | Some (Inr nt) \<Rightarrow>
                            (case GenerateTopologyConfig marshal (length h) h nt
                                    (slConfigUpdateMode p = ConfigUpdateModeSkeletonOnly) of
                               None \<Rightarrow> None
                             | Some (Inl pn) \<Rightarrow> Some (Inl pn)
                             | Some (Inr (nt', topologies, Inl (status, err))) \<Rightarrow>
                                 Some (Inr (Inl (status, SlSlurm (Translation err)), eng1, c))
                             | Some (Inr (nt', topologies, Inr desiredTopology)) \<Rightarrow>
                                 Some (Inr (publish api now ctx nt' topologies desiredTopology eng1 c)))))))"

section \<open>The cluster\<close>

text \<open>
  What the calls are documented to do: a list returns current objects, each once; a patch of an
  annotation changes one annotation of one node, or nothing; a config map that is read is the
  current one, and one that is written is stored.
\<close>

type_synonym 'c nodeView = "'c \<Rightarrow> string \<Rightarrow> KNode option"
type_synonym 'c cmView = "'c \<Rightarrow> string \<times> string \<Rightarrow> ConfigMap option"

definition annotationAt :: "'c nodeView \<Rightarrow> 'c \<Rightarrow> string \<Rightarrow> string \<Rightarrow> string option" where
  "annotationAt nodeIn c name key = (case nodeIn c name of None \<Rightarrow> None | Some n \<Rightarrow> gm_get (kAnnotations n) key)"

definition nodesListed :: "'c slinkyApi \<Rightarrow> 'c nodeView \<Rightarrow> bool" where
  "nodesListed api nodeIn \<longleftrightarrow>
     (\<forall>opt c nodes. sListNodes api opt c = Inr nodes \<longrightarrow>
        distinct (map kName nodes) \<and> (\<forall>n \<in> set nodes. nodeIn c (kName n) = Some n))"

definition nodePatched :: "'c slinkyApi \<Rightarrow> 'c nodeView \<Rightarrow> 'c cmView \<Rightarrow> bool" where
  "nodePatched api nodeIn cmIn \<longleftrightarrow>
     (\<forall>name key val c err c'. sPatchNode api name (annotationPatch key val) c = (err, c') \<longrightarrow>
        cmIn c' = cmIn c \<and> (\<forall>n. n \<noteq> name \<longrightarrow> nodeIn c' n = nodeIn c n) \<and>
        (if err = None
         then \<exists>node. nodeIn c name = Some node \<and>
                nodeIn c' name = Some (node\<lparr>kAnnotations := gm_put key val (kAnnotations node)\<rparr>)
         else nodeIn c' name = nodeIn c name))"

definition cmStored :: "'c nodeView \<Rightarrow> 'c cmView \<Rightarrow> string \<times> string \<Rightarrow> ConfigMap \<Rightarrow> 'c \<Rightarrow> string option \<times> 'c \<Rightarrow> bool" where
  "cmStored nodeIn cmIn k cm c r \<longleftrightarrow>
     nodeIn (snd r) = nodeIn c \<and> cmIn (snd r) = (if fst r = None then (cmIn c)(k \<mapsto> cm) else cmIn c)"

definition cmWritten :: "'c slinkyApi \<Rightarrow> 'c nodeView \<Rightarrow> 'c cmView \<Rightarrow> bool" where
  "cmWritten api nodeIn cmIn \<longleftrightarrow>
     (\<forall>ns name cm c. cmStored nodeIn cmIn (ns, name) cm c (sUpdateCM api ns name cm c) \<and>
        cmStored nodeIn cmIn (ns, name) cm c (sCreateCM api ns name cm c)) \<and>
     (\<forall>ns name c cm. sGetCM api ns name c = Inr cm \<longrightarrow> cmIn c (ns, name) = Some cm) \<and>
     (\<forall>ns name c. sGetCM api ns name c = Inl CMNotFound \<longrightarrow> cmIn c (ns, name) = None)"

definition slinkyOk :: "'c slinkyApi \<Rightarrow> 'c nodeView \<Rightarrow> 'c cmView \<Rightarrow> bool" where
  "slinkyOk api nodeIn cmIn \<longleftrightarrow> nodesListed api nodeIn \<and> nodePatched api nodeIn cmIn \<and> cmWritten api nodeIn cmIn"

section \<open>The config map\<close>

definition cmDataAt :: "'c cmView \<Rightarrow> 'c \<Rightarrow> string \<times> string \<Rightarrow> (string, string) gomap" where
  "cmDataAt cmIn c k = (case cmIn c k of None \<Rightarrow> [] | Some cm \<Rightarrow> cmData cm)"

text \<open>A successful update leaves the wanted value under its key, keeps the other keys, and touches nothing else.\<close>

lemma UpdateTopologyConfigmap_ok:
  assumes api: "cmWritten api nodeIn cmIn"
    and res: "UpdateTopologyConfigmap api now p name namespace [(key, val)] c = (err, c')"
  shows "nodeIn c' = nodeIn c" and "k \<noteq> (namespace, name) \<Longrightarrow> cmIn c' k = cmIn c k"
    and "err = None \<Longrightarrow> strAt (cmDataAt cmIn c' (namespace, name)) key' =
      (if key' = key then val else strAt (cmDataAt cmIn c (namespace, name)) key')"
    and "err \<noteq> None \<Longrightarrow> cmIn c' = cmIn c"
proof -
  let ?k = "(namespace, name)"
  have U: "cmStored nodeIn cmIn ?k cm c r" if "sUpdateCM api namespace name cm c = r \<or> sCreateCM api namespace name cm c = r" for cm r
    using api that unfolding cmWritten_def by blast
  have G: "sGetCM api namespace name c = Inr cm \<Longrightarrow> cmIn c ?k = Some cm" "sGetCM api namespace name c = Inl CMNotFound \<Longrightarrow> cmIn c ?k = None" for cm
    using api unfolding cmWritten_def by blast+
  have skip: "(err, c') = (None, c) \<and> (\<exists>cm. cmIn c ?k = Some cm \<and> strAt (cmData cm) key = val) \<or>
      err \<noteq> None \<and> nodeIn c' = nodeIn c \<and> cmIn c' = cmIn c \<or>
      (\<exists>cm. err = None \<and> cmStored nodeIn cmIn ?k cm c (None, c') \<and> cmData cm = gm_copy (cmDataAt cmIn c ?k) [(key, val)])"
  proof (cases "sGetCM api namespace name c")
    case (Inr cm)
    show ?thesis
    proof (cases "strAt (cmData cm) key = val")
      case True
      then show ?thesis using res Inr G by (simp add: UpdateTopologyConfigmap_def)
    next
      case False
      let ?cm = "cm\<lparr>cmData := gm_copy (cmData cm) [(key, val)],
        cmAnnotations := gm_copy (cmAnnotations cm) (generateConfigMapAnnotations now p)\<rparr>"
      obtain e c1 where u: "sUpdateCM api namespace name ?cm c = (e, c1)" by (cases "sUpdateCM api namespace name ?cm c")
      have "c' = c1" "err = None \<longleftrightarrow> e = None"
        using res Inr False u by (auto simp: UpdateTopologyConfigmap_def Let_def split: option.splits)
      moreover have "cmStored nodeIn cmIn ?k ?cm c (e, c1)" using U u by blast
      moreover have "cmData ?cm = gm_copy (cmDataAt cmIn c ?k) [(key, val)]" using G(1) [OF Inr] by (simp add: cmDataAt_def)
      ultimately show ?thesis by (cases e) (auto simp: cmStored_def)
    qed
  next
    case (Inl x)
    show ?thesis
    proof (cases x)
      case CMNotFound
      let ?cm = "\<lparr>cmData = [(key, val)], cmAnnotations = generateConfigMapAnnotations now p\<rparr>"
      obtain e c1 where u: "sCreateCM api namespace name ?cm c = (e, c1)" by (cases "sCreateCM api namespace name ?cm c")
      have "c' = c1" "err = None \<longleftrightarrow> e = None"
        using res Inl CMNotFound u by (auto simp: UpdateTopologyConfigmap_def Let_def split: option.splits)
      moreover have "cmStored nodeIn cmIn ?k ?cm c (e, c1)" using U u by blast
      moreover have "cmData ?cm = gm_copy (cmDataAt cmIn c ?k) [(key, val)]"
        using G(2) Inl CMNotFound by (simp add: cmDataAt_def gm_copy_def)
      ultimately show ?thesis by (cases e) (auto simp: cmStored_def)
    next
      case (CMError e)
      then show ?thesis using res Inl by (auto simp: UpdateTopologyConfigmap_def)
    qed
  qed
  show "nodeIn c' = nodeIn c" "k \<noteq> (namespace, name) \<Longrightarrow> cmIn c' k = cmIn c k" "err \<noteq> None \<Longrightarrow> cmIn c' = cmIn c"
    using skip by (auto simp: cmStored_def)
  have get: "strAt (gm_copy m [(key, val)]) key' = (if key' = key then val else strAt m key')" for m
    by (simp add: strAt_def gm_copy_def)
  show "strAt (cmDataAt cmIn c' ?k) key' = (if key' = key then val else strAt (cmDataAt cmIn c ?k) key')" if "err = None"
    using skip that
  proof (elim disjE exE conjE)
    fix cm assume "cmStored nodeIn cmIn ?k cm c (None, c')" "cmData cm = gm_copy (cmDataAt cmIn c ?k) [(key, val)]"
    then show ?thesis using get by (simp add: cmDataAt_def cmStored_def)
  qed (auto simp: cmDataAt_def)
qed

section \<open>Annotations of dynamic nodes\<close>

text \<open>The annotation a node of the cluster should have: \<open>None\<close> if the engine leaves it alone.\<close>

definition wantedSpec ::
  "NetworkTopology \<Rightarrow> TopologyUnit list \<Rightarrow> (string, string) gomap \<Rightarrow> string \<Rightarrow> string option" where
  "wantedSpec nt topologies nodeMap name =
     (case gm_get nodeMap name of
        None \<Rightarrow> None
      | Some slurmName \<Rightarrow>
          (let spec = GetNodeTopologySpec nt slurmName topologies in if spec = [] then None else Some spec))"

text \<open>The nodes called \<open>names\<close> have the wanted annotation in \<open>c'\<close>; nothing else differs from \<open>c\<close>.\<close>

definition annotated ::
  "'c nodeView \<Rightarrow> (string \<Rightarrow> string option) \<Rightarrow> string set \<Rightarrow> 'c \<Rightarrow> 'c \<Rightarrow> bool" where
  "annotated nodeIn wanted names' c c' \<longleftrightarrow>
     (\<forall>name key. annotationAt nodeIn c' name key =
        (if key = KeySlinkyTopologySpec \<and> name \<in> names' \<and> wanted name \<noteq> None then wanted name
         else annotationAt nodeIn c name key)) \<and>
     (\<forall>name. map_option kLabels (nodeIn c' name) = map_option kLabels (nodeIn c name))"

definition cacheCoherent :: "'c nodeView \<Rightarrow> 'c \<Rightarrow> KNode \<Rightarrow> bool" where
  "cacheCoherent nodeIn c node \<longleftrightarrow>
     gm_get (kAnnotations node) KeySlinkyTopologySpec = annotationAt nodeIn c (kName node) KeySlinkyTopologySpec"

lemma annotated_same: "\<forall>name \<in> names'. wanted name = None \<or> annotationAt nodeIn c name KeySlinkyTopologySpec = wanted name \<Longrightarrow>
    annotated nodeIn wanted names' c c"
  by (auto simp: annotated_def)

lemma annotated_cong: "nodeIn c1 = nodeIn c \<Longrightarrow> annotated nodeIn wanted names' c1 c' = annotated nodeIn wanted names' c c'"
  by (simp add: annotated_def annotationAt_def)

lemma reconcileNode_ok:
  assumes api: "nodePatched api nodeIn cmIn" and i: "i < length nodes" and coh: "cacheCoherent nodeIn c (nodes ! i)"
    and res: "reconcileNode api nt tus nodeMap i (nodes, c) = (None, nodes', c')"
  shows "annotated nodeIn (wantedSpec nt tus nodeMap) {kName (nodes ! i)} c c'" and "cmIn c' = cmIn c"
    and "map kName nodes' = map kName nodes" and "\<And>j. j \<noteq> i \<Longrightarrow> nodes' ! j = nodes ! j"
proof -
  let ?node = "nodes ! i" and ?w = "wantedSpec nt tus nodeMap"
  have "annotated nodeIn ?w {kName ?node} c c' \<and> cmIn c' = cmIn c \<and> map kName nodes' = map kName nodes \<and> (\<forall>j. j \<noteq> i \<longrightarrow> nodes' ! j = nodes ! j)"
  proof (cases "?w (kName ?node)")
    case None
    then have "(nodes', c') = (nodes, c)"
      using res by (auto simp: reconcileNode_def updateNodeAnnotation_def wantedSpec_def Let_def split: option.splits if_splits)
    then show ?thesis using None by (simp add: annotated_same)
  next
    case (Some spec)
    then obtain sn where sn: "gm_get nodeMap (kName ?node) = Some sn" "GetNodeTopologySpec nt sn tus = spec" "spec \<noteq> []"
      by (auto simp: wantedSpec_def Let_def split: option.splits if_splits)
    show ?thesis
    proof (cases "strAt (kAnnotations ?node) KeySlinkyTopologySpec = spec")
      case True
      then have "gm_get (kAnnotations ?node) KeySlinkyTopologySpec = Some spec"
        using sn(3) by (auto simp: strAt_def split: option.splits)
      then have "annotated nodeIn ?w {kName ?node} c c"
        using coh Some by (intro annotated_same) (simp add: cacheCoherent_def)
      moreover have "(nodes', c') = (nodes, c)" using res sn True by (auto simp: reconcileNode_def updateNodeAnnotation_def Let_def)
      ultimately show ?thesis by simp
    next
      case False
      let ?new = "?node\<lparr>kAnnotations := gm_put KeySlinkyTopologySpec spec (kAnnotations ?node)\<rparr>"
      have patch: "sPatchNode api (kName ?node) (annotationPatch KeySlinkyTopologySpec spec) c = (None, c')"
        and n: "nodes' = nodes[i := ?new]"
        using res sn False by (auto simp: reconcileNode_def updateNodeAnnotation_def Let_def split: prod.splits option.splits)
      obtain node where node: "cmIn c' = cmIn c" "\<forall>n. n \<noteq> kName ?node \<longrightarrow> nodeIn c' n = nodeIn c n"
        "nodeIn c (kName ?node) = Some node"
        "nodeIn c' (kName ?node) = Some (node\<lparr>kAnnotations := gm_put KeySlinkyTopologySpec spec (kAnnotations node)\<rparr>)"
        using api [unfolded nodePatched_def, rule_format, OF patch] by auto
      have "annotationAt nodeIn c' name key =
          (if key = KeySlinkyTopologySpec \<and> name \<in> {kName ?node} \<and> ?w name \<noteq> None then ?w name else annotationAt nodeIn c name key)
        \<and> map_option kLabels (nodeIn c' name) = map_option kLabels (nodeIn c name)" for name key
        using node Some by (cases "name = kName ?node") (simp_all add: annotationAt_def)
      then show ?thesis using node(1) n i by (simp add: annotated_def map_update list_update_same_conv)
    qed
  qed
  then show "annotated nodeIn ?w {kName ?node} c c'" "cmIn c' = cmIn c" "map kName nodes' = map kName nodes" "\<And>j. j \<noteq> i \<Longrightarrow> nodes' ! j = nodes ! j"
    by blast+
qed

lemma annotated_trans:
  assumes "annotated nodeIn w A c c1" and "annotated nodeIn w B c1 c2"
  shows "annotated nodeIn w (A \<union> B) c c2"
  using assms by (auto simp: annotated_def)

lemma reconcile_loop:
  assumes api: "nodePatched api nodeIn cmIn"
    and "forEach (reconcileNode api nt tus nodeMap) ks (nodes, c) = (None, nodes', c')" and "distinct ks"
    and "\<forall>i \<in> set ks. i < length nodes \<and> cacheCoherent nodeIn c (nodes ! i)" and "distinct (map kName nodes)"
  shows "annotated nodeIn (wantedSpec nt tus nodeMap) ((\<lambda>i. kName (nodes ! i)) ` set ks) c c' \<and> cmIn c' = cmIn c \<and>
    map kName nodes' = map kName nodes"
  using assms(2-)
proof (induction ks arbitrary: nodes c)
  case Nil
  then show ?case by (simp add: annotated_same)
next
  case (Cons i ks)
  obtain nodes1 c1 where r: "reconcileNode api nt tus nodeMap i (nodes, c) = (None, nodes1, c1)"
    "forEach (reconcileNode api nt tus nodeMap) ks (nodes1, c1) = (None, nodes', c')"
    using Cons.prems(1) by (auto split: prod.splits option.splits)
  have i: "i < length nodes" "cacheCoherent nodeIn c (nodes ! i)" using Cons.prems(3) by auto
  note one = reconcileNode_ok [OF api i r(1)]
  have len: "length nodes1 = length nodes" using one(3) map_eq_imp_length_eq by blast
  have nm: "kName (nodes1 ! j) = kName (nodes ! j)" if "j < length nodes" for j
    using that len one(3) by (metis nth_map)
  have coh: "cacheCoherent nodeIn c1 (nodes1 ! j)" "j < length nodes1" if "j \<in> set ks" for j
  proof -
    have j: "j \<noteq> i" "j < length nodes" "cacheCoherent nodeIn c (nodes ! j)" using that Cons.prems(2,3) by auto
    then have "kName (nodes ! j) \<noteq> kName (nodes ! i)" using Cons.prems(4) i(1) by (metis distinct_conv_nth length_map nth_map)
    then have "annotationAt nodeIn c1 (kName (nodes ! j)) KeySlinkyTopologySpec = annotationAt nodeIn c (kName (nodes ! j)) KeySlinkyTopologySpec"
      using one(1) by (simp add: annotated_def)
    then show "cacheCoherent nodeIn c1 (nodes1 ! j)" using j one(4) [OF j(1)] by (simp add: cacheCoherent_def)
    show "j < length nodes1" using j len by simp
  qed
  have "annotated nodeIn (wantedSpec nt tus nodeMap) ((\<lambda>i. kName (nodes1 ! i)) ` set ks) c1 c' \<and> cmIn c' = cmIn c1 \<and>
      map kName nodes' = map kName nodes1"
    using Cons.IH [OF r(2)] Cons.prems(2,4) coh one(3) by simp
  moreover have "(\<lambda>i. kName (nodes1 ! i)) ` set ks = (\<lambda>i. kName (nodes ! i)) ` set ks"
    using nm Cons.prems(3) by (intro image_cong) auto
  ultimately show ?case using annotated_trans [OF one(1)] one(2,3) by simp
qed

lemma performReconciliation_ok:
  assumes "nodePatched api nodeIn cmIn" and "performReconciliation api nt tus cn (eng, c) = (None, eng', c')"
    and "distinct (map kName (cnNodes cn))" and "\<forall>node \<in> set (cnNodes cn). cacheCoherent nodeIn c node"
  shows "cmIn c' = cmIn c" and "\<exists>cn'. cachedClusterNodes eng' = Some cn' \<and>
    annotated nodeIn (wantedSpec nt tus (cnNodeMap cn')) (kName ` set (cnNodes cn')) c c'"
proof -
  let ?n = "length (cnNodes cn)"
  obtain nodes where l: "forEach (reconcileNode api nt tus (cnNodeMap cn)) [0..<?n] (cnNodes cn, c) = (None, nodes, c')"
    and e: "cachedClusterNodes eng' = Some (cn\<lparr>cnNodes := nodes\<rparr>)"
    using assms(2) by (auto simp: performReconciliation_def Let_def split: prod.splits)
  have "map (\<lambda>i. kName (cnNodes cn ! i)) [0..<?n] = map kName (cnNodes cn)" by (rule nth_equalityI) simp_all
  then have "(\<lambda>i. kName (cnNodes cn ! i)) ` set [0..<?n] = kName ` set (cnNodes cn)" by (metis set_map)
  then have r: "annotated nodeIn (wantedSpec nt tus (cnNodeMap cn)) (kName ` set (cnNodes cn)) c c'" "cmIn c' = cmIn c"
    "map kName nodes = map kName (cnNodes cn)"
    using reconcile_loop [OF assms(1) l] assms(3,4) by simp_all
  have "kName ` set nodes = kName ` set (cnNodes cn)" using r(3) by (metis set_map)
  then show "cmIn c' = cmIn c" "\<exists>cn'. cachedClusterNodes eng' = Some cn' \<and>
      annotated nodeIn (wantedSpec nt tus (cnNodeMap cn')) (kName ` set (cnNodes cn')) c c'"
    using r e by simp_all
qed

section \<open>A run of the engine\<close>

definition cacheGood :: "'c nodeView \<Rightarrow> 'c \<Rightarrow> SlinkyEngine \<Rightarrow> bool" where
  "cacheGood nodeIn c eng \<longleftrightarrow>
     (\<forall>cn. cachedClusterNodes eng = Some cn \<longrightarrow>
        distinct (map kName (cnNodes cn)) \<and> (\<forall>node \<in> set (cnNodes cn). cacheCoherent nodeIn c node))"

lemma getClusterNodes_ok:
  assumes api: "nodesListed api nodeIn" and good: "cacheGood nodeIn c eng" and same: "nodeIn c0 = nodeIn c"
    and res: "getClusterNodes api ctx c0 eng = (r, eng')"
  shows "cacheGood nodeIn c eng'" and "slParams eng' = slParams eng" and "r = Inr cn \<Longrightarrow> cachedClusterNodes eng' = Some cn"
proof -
  have "cacheGood nodeIn c eng' \<and> slParams eng' = slParams eng \<and> (\<forall>cn. r = Inr cn \<longrightarrow> cachedClusterNodes eng' = Some cn)"
  proof (cases "eng' = eng")
    case True
    then show ?thesis using res good by (cases eng) (auto simp: getClusterNodes_def Let_def split: option.splits sum.splits)
  next
    case False
    obtain items m where items: "sListNodes api (slNodeListOpt (slParams eng)) c0 = Inr items"
      and e: "eng' = eng\<lparr>cachedClusterNodes := Some \<lparr>cnNodes = resolveNodeMetadata ctx items, cnNodeMap = m\<rparr>\<rparr>"
        "r = Inr \<lparr>cnNodes = resolveNodeMetadata ctx items, cnNodeMap = m\<rparr>"
      using res False by (auto simp: getClusterNodes_def GetNodes_def Let_def split: option.splits sum.splits)
    have d: "distinct (map kName items)" "n \<in> set items \<Longrightarrow> nodeIn c (kName n) = Some n" for n
      using api items same unfolding nodesListed_def by metis+
    have "KeySlinkyTopologySpec \<noteq> KeyNodeInstance" "KeySlinkyTopologySpec \<noteq> KeyNodeRegion" by code_simp+
    then have "cacheCoherent nodeIn c (resolveNode md n)" if "n \<in> set items" for md n
      using d(2) [OF that] by (simp add: cacheCoherent_def resolveNode_annotation annotationAt_def)
    moreover have "cacheCoherent nodeIn c n" if "n \<in> set items" for n
      using d(2) [OF that] by (simp add: cacheCoherent_def annotationAt_def)
    moreover have "map kName (resolveNodeMetadata ctx items) = map kName items"
      by (simp add: resolveNodeMetadata_def split: option.splits)
    ultimately show ?thesis using d(1) e by (auto simp: cacheGood_def resolveNodeMetadata_def split: option.splits)
  qed
  then show "cacheGood nodeIn c eng'" "slParams eng' = slParams eng" "r = Inr cn \<Longrightarrow> cachedClusterNodes eng' = Some cn"
    by blast+
qed

text \<open>What the engine promises about the config map and about the nodes.\<close>

definition configMapWritten :: "'c cmView \<Rightarrow> SlinkyParams \<Rightarrow> string \<Rightarrow> 'c \<Rightarrow> 'c \<Rightarrow> bool" where
  "configMapWritten cmIn p desired c c' \<longleftrightarrow>
     (let k = (slNamespace p, slConfigMapName p)
      in (\<forall>k'. k' \<noteq> k \<longrightarrow> cmIn c' k' = cmIn c k') \<and>
         (if slConfigUpdateMode p = ConfigUpdateModeNone then cmIn c' = cmIn c
          else \<forall>key. strAt (cmDataAt cmIn c' k) key =
                 (if key = slConfigPath p then desired else strAt (cmDataAt cmIn c k) key)))"

definition nodesWritten ::
  "'c nodeView \<Rightarrow> NetworkTopology \<Rightarrow> TopologyUnit list \<Rightarrow> SlinkyEngine \<Rightarrow> 'c \<Rightarrow> 'c \<Rightarrow> bool" where
  "nodesWritten nodeIn nt topologies eng c c' \<longleftrightarrow>
     (if slUseDynamicNodes (slParams eng)
      then \<exists>cn. cachedClusterNodes eng = Some cn \<and>
             annotated nodeIn (wantedSpec nt topologies (cnNodeMap cn)) (kName ` set (cnNodes cn)) c c'
      else nodeIn c' = nodeIn c)"

lemma configMapWritten_cong: "cmIn c' = cmIn c1 \<Longrightarrow> configMapWritten cmIn p desired c c' = configMapWritten cmIn p desired c c1"
  by (simp add: configMapWritten_def cmDataAt_def)

lemma publish_ok:
  assumes api: "slinkyOk api nodeIn cmIn" and good: "cacheGood nodeIn c eng"
    and res: "publish api now ctx nt tus desired eng c = (Inr out, eng', c')"
  shows "configMapWritten cmIn (slParams eng) desired c c' \<and> nodesWritten nodeIn nt tus eng' c c'"
proof -
  let ?p = "slParams eng"
  have api': "nodesListed api nodeIn" "nodePatched api nodeIn cmIn" "cmWritten api nodeIn cmIn" using api by (simp_all add: slinkyOk_def)
  define u where "u = (if slConfigUpdateMode ?p \<noteq> ConfigUpdateModeNone
      then UpdateTopologyConfigmap api now ?p (slConfigMapName ?p) (slNamespace ?p) [(slConfigPath ?p, desired)] c else (None, c))"
  obtain c1 where c1: "u = (None, c1)"
    using res unfolding publish_def Let_def u_def [symmetric] by (cases u) (auto split: option.splits)
  have cm: "configMapWritten cmIn ?p desired c c1 \<and> nodeIn c1 = nodeIn c"
  proof (cases "slConfigUpdateMode ?p = ConfigUpdateModeNone")
    case True
    then show ?thesis using c1 by (simp add: u_def configMapWritten_def)
  next
    case False
    then have "UpdateTopologyConfigmap api now ?p (slConfigMapName ?p) (slNamespace ?p) [(slConfigPath ?p, desired)] c = (None, c1)"
      using c1 by (simp add: u_def)
    note w = UpdateTopologyConfigmap_ok [OF api'(3) this]
    show ?thesis using False w(1,2) w(3) [OF refl] by (simp add: configMapWritten_def Let_def)
  qed
  show ?thesis
  proof (cases "slUseDynamicNodes ?p")
    case False
    then have "eng' = eng \<and> c' = c1" using res c1 unfolding publish_def Let_def u_def [symmetric] by simp
    then show ?thesis using cm False by (simp add: nodesWritten_def)
  next
    case True
    obtain r eng1 where g: "getClusterNodes api ctx c1 eng = (r, eng1)" by (cases "getClusterNodes api ctx c1 eng")
    then obtain cn where cn: "r = Inr cn" "performReconciliation api nt tus cn (eng1, c1) = (None, eng', c')"
      using res c1 True unfolding publish_def Let_def u_def [symmetric] by (auto split: sum.splits prod.splits option.splits)
    have g1: "cacheGood nodeIn c1 eng" using good cm by (simp add: cacheGood_def cacheCoherent_def annotationAt_def)
    note l = getClusterNodes_ok [OF api'(1) g1 refl g]
    have "distinct (map kName (cnNodes cn))" "\<forall>node \<in> set (cnNodes cn). cacheCoherent nodeIn c1 node"
      using l(1,3) cn(1) by (auto simp: cacheGood_def)
    note p = performReconciliation_ok [OF api'(2) cn(2) this]
    have "slParams eng' = ?p" using cn(2) l(2) by (auto simp: performReconciliation_def Let_def split: prod.splits)
    then have "nodesWritten nodeIn nt tus eng' c c'"
      using p(2) cm True by (simp add: nodesWritten_def annotated_cong [of nodeIn c1 c])
    then show ?thesis using cm configMapWritten_cong [of cmIn c' c1] p(1) by simp
  qed
qed

text \<open>
  C33. A run of the Slinky engine. When the engine reports success, the config map holds the generated
  topology under its key, its other keys and all other config maps are unchanged, and nothing is
  written in the mode \<open>none\<close>. With dynamic nodes, every selected node that has a Slurm name and a
  topology carries its specification in the annotation; all other annotations, all labels and all
  other nodes are unchanged. Without dynamic nodes no node is touched.
\<close>

theorem GenerateOutput_stores:
  assumes api: "slinkyOk api nodeIn cmIn" and good: "cacheGood nodeIn c eng"
    and res: "GenerateOutput api compile marshal now ctx h graph eng c = Some (Inr (Inr out, eng', c'))"
  shows "\<exists>topos cfg graph' nt0 nt topologies desired.
    resolveTopologies api (slParams eng) c = Inr topos \<and>
    GetTranslateConfig compile (slParams eng) topos (getPartitionNodes api (slParams eng) c (slNamespace (slParams eng))) =
      Some (Inr (Inr cfg)) \<and>
    fst (labelBacked api ctx c cfg graph eng) = Inr graph' \<and>
    NewNetworkTopology compile h graph' cfg = Some (Inr nt0) \<and>
    GenerateTopologyConfig marshal (length h) h nt0 (slConfigUpdateMode (slParams eng) = ConfigUpdateModeSkeletonOnly) =
      Some (Inr (nt, topologies, Inr desired)) \<and>
    configMapWritten cmIn (slParams eng) desired c c' \<and> nodesWritten nodeIn nt topologies eng' c c'"
proof -
  let ?p = "slParams eng" and ?skel = "slConfigUpdateMode (slParams eng) = ConfigUpdateModeSkeletonOnly"
  obtain topos where topos: "resolveTopologies api ?p c = Inr topos"
    using res by (auto simp: GenerateOutput_def Let_def split: sum.splits)
  obtain cfg where cfg: "GetTranslateConfig compile ?p topos (getPartitionNodes api ?p c (slNamespace ?p)) = Some (Inr (Inr cfg))"
    using res topos by (auto simp: GenerateOutput_def Let_def split: sum.splits option.splits prod.splits)
  obtain graph' eng1 where g: "labelBacked api ctx c cfg graph eng = (Inr graph', eng1)"
    using res topos cfg by (auto simp: GenerateOutput_def Let_def split: sum.splits prod.splits)
  obtain nt0 where nt0: "NewNetworkTopology compile h graph' cfg = Some (Inr nt0)"
    using res topos cfg g by (auto simp: GenerateOutput_def Let_def split: sum.splits option.splits)
  obtain nt tus desired where out: "GenerateTopologyConfig marshal (length h) h nt0 ?skel = Some (Inr (nt, tus, Inr desired))"
    using res topos cfg g nt0 by (auto simp: GenerateOutput_def Let_def split: sum.splits option.splits prod.splits)
  have pub: "publish api now ctx nt tus desired eng1 c = (Inr out, eng', c')"
    using res topos cfg g nt0 out by (simp add: GenerateOutput_def Let_def)
  have "cacheGood nodeIn c eng1 \<and> slParams eng1 = ?p"
  proof (cases "slSourceLabel ?p \<noteq> [] \<and> usesBlockTopology cfg")
    case True
    obtain r eng2 where r: "getClusterNodes api ctx c eng = (r, eng2)" by (cases "getClusterNodes api ctx c eng")
    then have "eng1 = eng2" using g True by (auto simp: labelBacked_def Let_def split: sum.splits)
    then show ?thesis using getClusterNodes_ok(1,2) [OF _ good refl r] api by (simp add: slinkyOk_def)
  next
    case False
    then have "eng1 = eng" using g by (auto simp: labelBacked_def Let_def split: if_splits)
    then show ?thesis using good by simp
  qed
  then have "configMapWritten cmIn ?p desired c c' \<and> nodesWritten nodeIn nt tus eng' c c'"
    using publish_ok [OF api _ pub] by simp
  moreover have "fst (labelBacked api ctx c cfg graph eng) = Inr graph'" using g by simp
  ultimately show ?thesis using topos cfg nt0 out by blast
qed

section \<open>Domains from a node label\<close>

text \<open>The host that a node contributes.\<close>

definition labelHost :: "clusterNodes \<Rightarrow> string \<Rightarrow> KNode \<Rightarrow> HostInfo option" where
  "labelHost cn sourceLabel node =
     (let s = strAt (cnNodeMap cn) (kName node); d = TrimSpace (strAt (kLabels node) sourceLabel);
          i = TrimSpace (strAt (kAnnotations node) KeyNodeInstance)
      in if s = [] \<or> d = [] \<or> i = [] then None
         else Some \<lparr>Domain = d, hostInstanceID = i, HostName = s, SubDomain = []\<rparr>)"

lemma scanNode_domains:
  "dsDomains (scanNode (cnNodeMap cn) src node ds) = AddHostInfo (labelHost cn src node) (dsDomains ds)"
  by (simp add: scanNode_def labelHost_def Let_def AddHost_def AddHostInfo_def)

lemma scan_domains:
  "dsDomains (fold (scanNode (cnNodeMap cn) src) nodes ds) = fold (AddHostInfo \<circ> labelHost cn src) nodes (dsDomains ds)"
  by (induction nodes arbitrary: ds) (simp_all add: scanNode_domains)

lemma labelHost_domain: "\<forall>h \<in> set (List.map_filter (labelHost cn src) nodes). Domain h \<noteq> []"
  by (auto simp: labelHost_def Let_def List.map_filter_def split: if_splits)

lemma labelHost_mem: "h \<in> set (List.map_filter f nodes) \<longleftrightarrow> (\<exists>node \<in> set nodes. f node = Some h)"
  by (auto simp: List.map_filter_def image_iff)

text \<open>
  Domains from a node label. With different Slurm names, the domains of the resulting graph list
  exactly the hosts of the nodes that have a Slurm name, the label and an instance, and the tiers and
  instances of the graph stay; the call fails exactly when no node has all three.
\<close>

theorem withLabelBackedDomains_exact:
  assumes dist: "distinct (map HostName (List.map_filter (labelHost cn src) (cnNodes cn)))"
  shows "case withLabelBackedDomains graph cn src of
      Inl err \<Rightarrow> fst err = StatusBadGateway \<and> (\<forall>node \<in> set (cnNodes cn). labelHost cn src node = None)
    | Inr g \<Rightarrow> (\<exists>m. gDomains g = Some m \<and> m \<noteq> [] \<and>
        (\<forall>d n h. lookupHost m d n = Some h \<longleftrightarrow>
           (\<exists>node \<in> set (cnNodes cn). labelHost cn src node = Some h \<and> Domain h = d \<and> HostName h = n))) \<and>
        (case graph of None \<Rightarrow> Tiers g = None \<and> gInstances g = [] | Some g0 \<Rightarrow> Tiers g = Tiers g0 \<and> gInstances g = gInstances g0)"
proof -
  let ?hs = "List.map_filter (labelHost cn src) (cnNodes cn)"
  let ?m = "fold (AddHostInfo \<circ> Some) ?hs []"
  note dom = labelHost_domain [of cn src "cnNodes cn"]
  have m: "dsDomains (fold (scanNode (cnNodeMap cn) src) (cnNodes cn)
      \<lparr>dsDomains = [], dsNoSlurmName = 0, dsNoSourceLabel = 0, dsMissing = []\<rparr>) = ?m"
    by (simp add: scan_domains fold_AddHostInfo_filter [of "labelHost cn src"])
  have none: "?m = [] \<longleftrightarrow> (\<forall>node \<in> set (cnNodes cn). labelHost cn src node = None)"
    unfolding fold_AddHostInfo_Nil [OF dom] by (auto simp: List.map_filter_def filter_empty_conv)
  have "lookupHost ?m d n = Some h \<longleftrightarrow>
      (\<exists>node \<in> set (cnNodes cn). labelHost cn src node = Some h \<and> Domain h = d \<and> HostName h = n)" for d n h
    unfolding fold_AddHostInfo_exact [OF dist dom] labelHost_mem by blast
  moreover have "cnNodes cn = [] \<Longrightarrow> ?m = []" using none by simp
  ultimately show ?thesis
    using none by (auto simp: withLabelBackedDomains_def Let_def m split: option.splits)
qed

section \<open>Discovery of partitions\<close>

lemma tryPods_fails:
  "isl (tryPods api c component part pods) \<longleftrightarrow>
     (\<forall>pod \<in> set pods. podPhase pod = ''Running'' \<longrightarrow>
        isl (sExec api (podName pod) (podNamespace pod) [''scontrol'', ''show'', ''partition'', part] c))"
  by (induction api c component part pods rule: tryPods.induct) (auto split: sum.splits)

text \<open>
  Discovery fails only when no running pod of either component answers: neither a list call that
  fails nor a pod that cannot run the command keeps another pod from being asked.
\<close>

lemma getPartitionNodes_fails_iff:
  "isl (getPartitionNodes api p c namespace part) \<longleftrightarrow> \<not> slUseDynamicNodes p \<and>
     (\<forall>component \<in> {''controller'', ''login''}. \<forall>pods pod.
        sListPods api namespace (sLabels api [(''app.kubernetes.io/component'', component)]) c = Inr pods \<longrightarrow>
        pod \<in> set pods \<longrightarrow> podPhase pod = ''Running'' \<longrightarrow>
        isl (sExec api (podName pod) (podNamespace pod) [''scontrol'', ''show'', ''partition'', part] c))"
proof -
  have one: "isl (tryComponents api c namespace part (component # rest)) \<longleftrightarrow>
      (\<forall>pods pod. sListPods api namespace (sLabels api [(''app.kubernetes.io/component'', component)]) c = Inr pods \<longrightarrow>
         pod \<in> set pods \<longrightarrow> podPhase pod = ''Running'' \<longrightarrow>
         isl (sExec api (podName pod) (podNamespace pod) [''scontrol'', ''show'', ''partition'', part] c)) \<and>
      isl (tryComponents api c namespace part rest)" for component rest
  proof (cases "sListPods api namespace (sLabels api [(''app.kubernetes.io/component'', component)]) c")
    case (Inl e)
    then show ?thesis by (auto split: sum.splits)
  next
    case (Inr pods)
    then show ?thesis using tryPods_fails [of api c component part pods] by (auto split: sum.splits)
  qed
  have "isl (getPartitionNodes api p c namespace part) \<longleftrightarrow> \<not> slUseDynamicNodes p \<and>
      isl (tryComponents api c namespace part [''controller'', ''login''])"
    by (auto simp: getPartitionNodes_def split: sum.splits)
  then show ?thesis unfolding one by auto
qed

section \<open>Example\<close>

text \<open>A cluster of nodes, pods and config maps, in which every call succeeds.\<close>

record cluster =
  clNodes :: "(string, KNode) gomap"
  clPods :: "Pod list"
  clCMs :: "(string \<times> string, ConfigMap) gomap"

definition demoSlinky :: "cluster slinkyApi" where
  "demoSlinky = \<lparr>
     sListNodes = (\<lambda>opt c. if distinct (gm_keys (clNodes c)) \<and> list_all (\<lambda>(k, n). kName n = k) (clNodes c)
                  then Inr (gm_vals (clNodes c)) else Inl ''inconsistent''),
     sListPods = (\<lambda>ns sel c. Inr (clPods c)),
     sExec = (\<lambda>pod ns cmd c. Inl ''no such pod''),
     sGetCM = (\<lambda>ns name c. case gm_get (clCMs c) (ns, name) of None \<Rightarrow> Inl CMNotFound | Some cm \<Rightarrow> Inr cm),
     sUpdateCM = (\<lambda>ns name cm c. (None, c\<lparr>clCMs := gm_put (ns, name) cm (clCMs c)\<rparr>)),
     sCreateCM = (\<lambda>ns name cm c. (None, c\<lparr>clCMs := gm_put (ns, name) cm (clCMs c)\<rparr>)),
     sPatchNode = (\<lambda>name doc c.
       case gm_get (clNodes c) name of
         None \<Rightarrow> (Some ''not found'', c)
       | Some node \<Rightarrow>
           (case doc of
              JObject [(_, JObject [(_, JObject [(key, JString val)])])] \<Rightarrow>
                (None, c\<lparr>clNodes := gm_put name (node\<lparr>kAnnotations := gm_put key val (kAnnotations node)\<rparr>) (clNodes c)\<rparr>)
            | _ \<Rightarrow> (Some ''bad patch'', c))),
     sSelector = (\<lambda>sel. Inr ''app=slurmd''),
     sLabels = (\<lambda>ls. ''component'')\<rparr>"

definition demoNodeIn :: "cluster nodeView" where "demoNodeIn c name = gm_get (clNodes c) name"
definition demoCmIn :: "cluster cmView" where "demoCmIn c = gm_get (clCMs c)"

lemma demoSlinky_ok: "slinkyOk demoSlinky demoNodeIn demoCmIn"
proof -
  have "map kName nodes = gm_keys (clNodes c) \<and> (\<forall>n \<in> set nodes. demoNodeIn c (kName n) = Some n) \<and> distinct (gm_keys (clNodes c))"
    if l: "sListNodes demoSlinky opt c = Inr nodes" for opt c nodes
  proof -
    have d: "distinct (gm_keys (clNodes c))" and k: "\<forall>(k, n) \<in> set (clNodes c). kName n = k" and n: "nodes = gm_vals (clNodes c)"
      using l by (auto simp: demoSlinky_def list_all_iff split: if_splits)
    have "demoNodeIn c (kName n) = Some n" if "n \<in> set nodes" for n
      using that d k n by (auto simp: demoNodeIn_def)
    moreover have "map kName nodes = gm_keys (clNodes c)" using k n by auto
    ultimately show ?thesis using d by blast
  qed
  then have "nodesListed demoSlinky demoNodeIn" unfolding nodesListed_def by metis
  moreover have "nodePatched demoSlinky demoNodeIn demoCmIn"
    by (auto simp: nodePatched_def demoSlinky_def demoNodeIn_def demoCmIn_def annotationPatch_def split: option.splits)
  moreover have "cmWritten demoSlinky demoNodeIn demoCmIn"
    by (auto simp: cmWritten_def cmStored_def demoSlinky_def demoNodeIn_def demoCmIn_def split: option.splits)
  ultimately show ?thesis by (simp add: slinkyOk_def)
qed

definition slinkyEngine :: SlinkyEngine where
  "slinkyEngine = \<lparr>slParams = zeroParams\<lparr>bpPlugin := TopologyTree, slNamespace := ''slurm'', slConfigMapName := ''cm'',
     slConfigPath := ''topology.conf'', slUseDynamicNodes := True\<rparr>, cachedClusterNodes = None\<rparr>"

definition slinkyCluster :: cluster where
  "slinkyCluster = \<lparr>
     clNodes = [(''k1'', \<lparr>kName = ''k1'', kLabels = [], kAnnotations = [(''a'', ''b'')]\<rparr>), (''k2'', \<lparr>kName = ''k2'', kLabels = [], kAnnotations = []\<rparr>)],
     clPods = [\<lparr>podName = ''p1'', podNamespace = ''slurm'', podLabels = [(KeySlurmNodeName, ''nb'')], podHostname = ''h'',
       podNodeName = ''k1'', podPhase = ''Running'', podConditions = [(''Ready'', ''True'')]\<rparr>],
     clCMs = [((''slurm'', ''cm''), \<lparr>cmData = [(''slurm.conf'', ''x'')], cmAnnotations = []\<rparr>)]\<rparr>"

declare expandRange.simps [code]

theorem GenerateOutput_stores_witness:
  "\<exists>out eng' c'. GenerateOutput demoSlinky (\<lambda>_. None) (\<lambda>_. Inr []) ''now'' None splitHeap (Some (demoGraph 6)) slinkyEngine
       slinkyCluster = Some (Inr (Inr out, eng', c')) \<and>
     strAt (cmDataAt demoCmIn c' (''slurm'', ''cm'')) ''slurm.conf'' = ''x'' \<and>
     annotationAt demoNodeIn c' ''k1'' ''a'' = Some ''b''"
proof -
  let ?G = "GenerateOutput demoSlinky (\<lambda>_. None) (\<lambda>_. Inr []) ''now'' None splitHeap (Some (demoGraph 6)) slinkyEngine slinkyCluster"
  have "case ?G of Some (Inr r) \<Rightarrow> \<not> isl (fst r) | _ \<Rightarrow> False" by code_simp
  then obtain r where r: "?G = Some (Inr r)" "\<not> isl (fst r)" by (auto split: option.splits sum.splits)
  obtain x eng' c' where "r = (x, eng', c')" by (cases r)
  then obtain out where G: "?G = Some (Inr (Inr out, eng', c'))" using r by (cases x) auto
  have good: "cacheGood demoNodeIn slinkyCluster slinkyEngine" by (simp add: cacheGood_def slinkyEngine_def)
  obtain desired nt tus where w: "configMapWritten demoCmIn (slParams slinkyEngine) desired slinkyCluster c'"
    "nodesWritten demoNodeIn nt tus eng' slinkyCluster c'"
    using GenerateOutput_stores [OF demoSlinky_ok good G] by blast
  have d: "''slurm.conf'' \<noteq> slConfigPath (slParams slinkyEngine)" "slConfigUpdateMode (slParams slinkyEngine) \<noteq> ConfigUpdateModeNone"
    "strAt (cmDataAt demoCmIn slinkyCluster (''slurm'', ''cm'')) ''slurm.conf'' = ''x''"
    "(slNamespace (slParams slinkyEngine), slConfigMapName (slParams slinkyEngine)) = (''slurm'', ''cm'')"
    "''a'' \<noteq> KeySlinkyTopologySpec" "annotationAt demoNodeIn slinkyCluster ''k1'' ''a'' = Some ''b''"
    by code_simp+
  have "strAt (cmDataAt demoCmIn c' (''slurm'', ''cm'')) ''slurm.conf'' = ''x''"
    using w(1) d(1-4) unfolding configMapWritten_def Let_def by simp
  moreover have "annotationAt demoNodeIn c' ''k1'' ''a'' = Some ''b''"
  proof (cases "slUseDynamicNodes (slParams eng')")
    case True
    then obtain cn :: clusterNodes where "annotated demoNodeIn (wantedSpec nt tus (cnNodeMap cn)) (kName ` set (cnNodes cn)) slinkyCluster c'"
      using w(2) by (auto simp: nodesWritten_def)
    then show ?thesis using d(5,6) unfolding annotated_def by metis
  next
    case False
    then show ?thesis using w(2) d(6) by (simp add: nodesWritten_def annotationAt_def)
  qed
  ultimately show ?thesis using G by blast
qed

end
