(* ===== verification/Observer.thy ===== *)
theory Observer
  imports KubeNodes
begin

text \<open>
  Component \<open>pkg/node_observer/status_informer.go\<close>: the controller that watches nodes, pods and the broker
  and asks for a new topology when they change. Handlers of the informers count a request and put
  the only key into a work queue; one worker takes the key and reconciles.

  The work queue of \<open>client-go\<close> is a parameter, \<open>workqueue\<close>, with a state of arbitrary type. Informers,
  workers and timers run concurrently; \<open>obsStep\<close> lists the atomic steps of the code in the order the
  code has them. The request counters are natural numbers: \<open>uint64\<close> would wrap after \<open>2 ^ 64\<close> events.
  Time is an integer number of nanoseconds and the zero time is 0.
\<close>

section \<open>When an event asks for a topology\<close>

record containerStatus =
  csName :: string
  csReady :: bool
  csRunning :: bool
  csRestartCount :: "32 word"

record WorkloadPod = Pod +
  containerStatuses :: "containerStatus list"

record DaemonSet =
  desiredNumberScheduled :: int
  numberReady :: int

definition isContainerRunningAndReady :: "WorkloadPod \<Rightarrow> string \<Rightarrow> bool" where
  "isContainerRunningAndReady pod containerName =
     (let seen = filter (\<lambda>st. containerName = [] \<or> csName st = containerName) (containerStatuses pod)
      in list_ex (\<lambda>st. csReady st \<and> csRunning st) seen \<or> (containerName = [] \<and> seen = []))"

definition isWorkloadPodReady :: "WorkloadPod \<Rightarrow> string \<Rightarrow> bool" where
  "isWorkloadPodReady pod containerName \<longleftrightarrow> IsPodReady pod \<and> isContainerRunningAndReady pod containerName"

definition isAPIServerPodReady :: "WorkloadPod \<Rightarrow> string \<Rightarrow> bool" where
  "isAPIServerPodReady pod containerName = isWorkloadPodReady pod containerName"

text \<open>The sum of restart counts is a sum of \<open>int32\<close> values and wraps.\<close>

definition containerRestartCount :: "WorkloadPod \<Rightarrow> string \<Rightarrow> 32 word \<times> bool" where
  "containerRestartCount pod containerName =
     (if containerName \<noteq> []
      then
        (case find (\<lambda>st. csName st = containerName) (containerStatuses pod) of
           Some st \<Rightarrow> (csRestartCount st, True)
         | None \<Rightarrow> (0, False))
      else (fold (\<lambda>st restarts. restarts + csRestartCount st) (containerStatuses pod) 0, containerStatuses pod \<noteq> []))"

definition shouldRequestOnWorkloadUpdate :: "WorkloadPod \<Rightarrow> WorkloadPod \<Rightarrow> string \<Rightarrow> bool" where
  "shouldRequestOnWorkloadUpdate oldPod newPod containerName =
     (if \<not> isWorkloadPodReady newPod containerName then False
      else if \<not> isWorkloadPodReady oldPod containerName then True
      else
        (let (oldRestarts, oldFound) = containerRestartCount oldPod containerName;
             (newRestarts, newFound) = containerRestartCount newPod containerName
         in oldFound \<and> newFound \<and> sint oldRestarts < sint newRestarts))"

definition shouldRequestOnAPIServerUpdate :: "WorkloadPod \<Rightarrow> WorkloadPod \<Rightarrow> string \<Rightarrow> bool" where
  "shouldRequestOnAPIServerUpdate oldPod newPod containerName = shouldRequestOnWorkloadUpdate oldPod newPod containerName"

definition brokerDaemonSetReady :: "DaemonSet \<Rightarrow> bool \<times> bool" where
  "brokerDaemonSetReady ds =
     (if desiredNumberScheduled ds = 0 then (False, True) else (desiredNumberScheduled ds = numberReady ds, False))"

definition isBrokerDaemonSetReady :: "DaemonSet \<Rightarrow> bool" where
  "isBrokerDaemonSetReady ds = fst (brokerDaemonSetReady ds)"

definition nodeReady :: "WatchedNode \<Rightarrow> bool" where
  "nodeReady node =
     (case find (\<lambda>(ty, _). ty = ''Ready'') (nodeConditions node) of Some (_, status) \<Rightarrow> status = ''True'' | None \<Rightarrow> False)"

record informerConfig =
  icNodeLabels :: "string list"
  icNodeReadiness :: bool
  icNodes :: bool
  icPods :: bool
  icAPI :: bool
  icBroker :: bool
  icContainerName :: string
  icRetryDelay :: int
  icHasRequest :: bool

definition shouldRequestOnNodeUpdate :: "informerConfig \<Rightarrow> WatchedNode \<Rightarrow> WatchedNode \<Rightarrow> bool" where
  "shouldRequestOnNodeUpdate cfg oldNode newNode =
     (if icNodeReadiness cfg \<and> nodeReady oldNode \<noteq> nodeReady newNode then True
      else if icNodeLabels cfg = [] then False
      else if deleted oldNode \<noteq> deleted newNode then True
      else if list_ex (\<lambda>key. strAt (kLabels oldNode) key \<noteq> strAt (kLabels newNode) key) (icNodeLabels cfg) then True
      else list_ex (\<lambda>key. strAt (kAnnotations oldNode) key \<noteq> strAt (kAnnotations newNode) key) [KeyNodeInstance, KeyNodeRegion])"

text \<open>
  The events of the four informers. Objects of an unexpected type are ignored by the handlers and do
  not occur here; a deletion asks for a topology whatever the object is.
\<close>

datatype obsEvent =
  NodeAdded WatchedNode
| NodeUpdated WatchedNode WatchedNode
| PodAdded WorkloadPod
| PodUpdated WorkloadPod WorkloadPod
| APIAdded WorkloadPod
| APIUpdated WorkloadPod WorkloadPod
| BrokerAdded DaemonSet
| BrokerUpdated DaemonSet DaemonSet
| NodeDeleted
| PodDeleted
| APIDeleted
| BrokerDeleted

fun watched :: "informerConfig \<Rightarrow> obsEvent \<Rightarrow> bool" where
  "watched cfg (NodeAdded _) = icNodes cfg"
| "watched cfg (NodeUpdated _ _) = icNodes cfg"
| "watched cfg NodeDeleted = icNodes cfg"
| "watched cfg (PodAdded _) = icPods cfg"
| "watched cfg (PodUpdated _ _) = icPods cfg"
| "watched cfg PodDeleted = icPods cfg"
| "watched cfg (APIAdded _) = icAPI cfg"
| "watched cfg (APIUpdated _ _) = icAPI cfg"
| "watched cfg APIDeleted = icAPI cfg"
| "watched cfg (BrokerAdded _) = icBroker cfg"
| "watched cfg (BrokerUpdated _ _) = icBroker cfg"
| "watched cfg BrokerDeleted = icBroker cfg"

fun handles :: "informerConfig \<Rightarrow> obsEvent \<Rightarrow> bool" where
  "handles cfg (NodeAdded _) = True"
| "handles cfg (NodeUpdated old new) = shouldRequestOnNodeUpdate cfg old new"
| "handles cfg (PodAdded pod) = IsPodReady pod"
| "handles cfg (PodUpdated old new) = (IsPodReady old \<noteq> IsPodReady new)"
| "handles cfg (APIAdded pod) = isAPIServerPodReady pod (icContainerName cfg)"
| "handles cfg (APIUpdated old new) = shouldRequestOnAPIServerUpdate old new (icContainerName cfg)"
| "handles cfg (BrokerAdded _) = True"
| "handles cfg (BrokerUpdated old new) =
     (isBrokerDaemonSetReady old \<noteq> isBrokerDaemonSetReady new \<or> desiredNumberScheduled old \<noteq> desiredNumberScheduled new)"
| "handles cfg NodeDeleted = True"
| "handles cfg PodDeleted = True"
| "handles cfg APIDeleted = True"
| "handles cfg BrokerDeleted = True"

section \<open>The controller\<close>

text \<open>The operations of the rate-limited queue, for its only key. \<open>wqGet\<close> is \<open>None\<close> while the queue blocks.\<close>

record 'q workqueue =
  wqAdd :: "'q \<Rightarrow> 'q"
  wqAddAfter :: "int \<Rightarrow> 'q \<Rightarrow> 'q"
  wqAddRateLimited :: "'q \<Rightarrow> 'q"
  wqForget :: "'q \<Rightarrow> 'q"
  wqGet :: "'q \<Rightarrow> 'q option"
  wqDone :: "'q \<Rightarrow> 'q"
  wqElapse :: "'q \<Rightarrow> 'q"

text \<open>Where the worker is: outside, after \<open>Get\<close>, in \<open>reconcile\<close>, before the deferred \<open>Done\<close>, or gone.\<close>

datatype workerPc = Waiting | Taken | Reconciling nat | Finishing bool | Stopped

text \<open>A trace of what happened, newest first, for the statements only: a reconciliation with its generation
  and time, a failure with its generation and the time before which it is not tried again.\<close>

datatype obsLog = Requested | Begun nat int | Succeeded | Failed nat int

record 'q statusInformer =
  queue :: 'q
  requestedGeneration :: nat
  completedGeneration :: nat
  attemptedGeneration :: nat
  retryNotBefore :: int
  adding :: nat
  worker :: workerPc
  now :: int
  obsLog :: "obsLog list"

definition defaultRetryDelay :: int where "defaultRetryDelay = 5 * 60 * 1000000000"
definition defaultBrokerRetryDelay :: int where "defaultBrokerRetryDelay = 10 * 1000000000"

subsection \<open>Starting\<close>

record Trigger =
  tNodeLabels :: "string list"
  tNodeReadiness :: bool
  tNodeSelector :: "(string, string) gomap"
  tHasPodSelector :: bool

text \<open>
  The parts of \<open>NewStatusInformer\<close> that decide what is watched. The conversion of the two pod selectors
  can fail; \<open>podSel\<close> and \<open>apiSel\<close> are its results, \<open>None\<close> when no selector is configured.
\<close>

definition NewStatusInformer ::
  "Trigger option \<Rightarrow> (string + unit) option \<Rightarrow> (string + unit) option \<Rightarrow> string \<Rightarrow> string \<Rightarrow> string \<Rightarrow> int \<Rightarrow> bool
     \<Rightarrow> string + informerConfig" where
  "NewStatusInformer trigger podSel apiSel containerName brokerName brokerNamespace retryDelay hasRequest =
     (let nodes = (case trigger of None \<Rightarrow> False
                   | Some t \<Rightarrow> tNodeSelector t \<noteq> [] \<or> tNodeLabels t \<noteq> [] \<or> tNodeReadiness t);
          cfg = \<lparr>icNodeLabels = (case trigger of Some t \<Rightarrow> if nodes then tNodeLabels t else [] | None \<Rightarrow> []),
                 icNodeReadiness = (case trigger of Some t \<Rightarrow> nodes \<and> tNodeReadiness t | None \<Rightarrow> False),
                 icNodes = nodes, icPods = (trigger \<noteq> None \<and> podSel \<noteq> None), icAPI = (apiSel \<noteq> None),
                 icBroker = (brokerName \<noteq> [] \<and> brokerNamespace \<noteq> []),
                 icContainerName = (if apiSel \<noteq> None then containerName else []),
                 icRetryDelay = (if retryDelay \<le> 0 then defaultRetryDelay else retryDelay), icHasRequest = hasRequest\<rparr>
      in case (if trigger \<noteq> None then podSel else None) of
           Some (Inl err) \<Rightarrow> Inl err
         | _ \<Rightarrow> (case apiSel of Some (Inl err) \<Rightarrow> Inl err | _ \<Rightarrow> Inr cfg))"

subsection \<open>Reconciling\<close>

text \<open>What the store of the broker informer shows: not synced, or the objects it holds.\<close>

definition brokerReady :: "informerConfig \<Rightarrow> DaemonSet list option \<Rightarrow> bool \<times> bool" where
  "brokerReady cfg store =
     (if \<not> icBroker cfg then (True, False)
      else
        (case store of
           None \<Rightarrow> (False, False)
         | Some items \<Rightarrow> (case items of [ds] \<Rightarrow> brokerDaemonSetReady ds | _ \<Rightarrow> (False, False))))"

text \<open>The result of \<open>reconcile\<close>: a delay after which to come back, or an error. \<open>exec\<close> is \<open>True\<close> when the request failed.\<close>

definition reconcile :: "informerConfig \<Rightarrow> DaemonSet list option \<Rightarrow> bool \<Rightarrow> bool \<Rightarrow> int \<times> bool" where
  "reconcile cfg store execFailed cancelled =
     (if \<not> fst (brokerReady cfg store) then (defaultBrokerRetryDelay, False)
      else if \<not> icHasRequest cfg then (0, False)
      else if execFailed then (if cancelled then (0, False) else (0, True))
      else (0, False))"

subsection \<open>The steps\<close>

definition countRequest :: "'q statusInformer \<Rightarrow> 'q statusInformer" where
  "countRequest s = s\<lparr>requestedGeneration := requestedGeneration s + 1, adding := adding s + 1, obsLog := Requested # obsLog s\<rparr>"

definition enqueue :: "'q workqueue \<Rightarrow> 'q statusInformer \<Rightarrow> 'q statusInformer" where
  "enqueue w s = s\<lparr>queue := wqAdd w (queue s), adding := adding s - 1\<rparr>"

definition sendRequest :: "'q workqueue \<Rightarrow> 'q statusInformer \<Rightarrow> 'q statusInformer" where
  "sendRequest w s = enqueue w (countRequest s)"

text \<open>From the load of the generation to the call of \<open>reconcile\<close>.\<close>

definition decide :: "'q workqueue \<Rightarrow> 'q statusInformer \<Rightarrow> 'q statusInformer" where
  "decide w s =
     (let generation = requestedGeneration s
      in if generation \<le> completedGeneration s
         then s\<lparr>queue := wqForget w (queue s), worker := Finishing True\<rparr>
         else if generation = attemptedGeneration s \<and> now s < retryNotBefore s
         then s\<lparr>queue := wqAddAfter w (retryNotBefore s - now s) (queue s), worker := Finishing True\<rparr>
         else s\<lparr>worker := Reconciling generation, obsLog := Begun generation (now s) # obsLog s\<rparr>)"

text \<open>From the return of \<open>reconcile\<close> to the end of the function.\<close>

definition settle :: "informerConfig \<Rightarrow> 'q workqueue \<Rightarrow> nat \<Rightarrow> int \<times> bool \<Rightarrow> bool \<Rightarrow> 'q statusInformer \<Rightarrow> 'q statusInformer" where
  "settle cfg w generation res cancelled s =
     (let (requeueAfter, failed) = res
      in if cancelled then s\<lparr>queue := wqForget w (queue s), worker := Finishing False\<rparr>
         else if failed
         then s\<lparr>attemptedGeneration := generation, retryNotBefore := now s + icRetryDelay cfg,
                queue := wqAddRateLimited w (queue s), worker := Finishing True,
                obsLog := Failed generation (now s + icRetryDelay cfg) # obsLog s\<rparr>
         else if requeueAfter > 0
         then s\<lparr>attemptedGeneration := generation, retryNotBefore := now s + requeueAfter,
                queue := wqAddAfter w requeueAfter (wqForget w (queue s)), worker := Finishing True,
                obsLog := Failed generation (now s + requeueAfter) # obsLog s\<rparr>
         else s\<lparr>attemptedGeneration := generation, retryNotBefore := 0, completedGeneration := generation,
                queue := wqForget w (queue s), worker := Finishing True, obsLog := Succeeded # obsLog s\<rparr>)"

definition finish :: "'q workqueue \<Rightarrow> bool \<Rightarrow> 'q statusInformer \<Rightarrow> 'q statusInformer" where
  "finish w more' s = s\<lparr>queue := wqDone w (queue s), worker := (if more' then Waiting else Stopped)\<rparr>"

text \<open>One call of the worker that nothing interrupts; \<open>None\<close> while the queue blocks.\<close>

definition processNextWorkItem ::
  "informerConfig \<Rightarrow> 'q workqueue \<Rightarrow> DaemonSet list option \<Rightarrow> bool \<Rightarrow> bool \<Rightarrow> 'q statusInformer \<Rightarrow> (bool \<times> 'q statusInformer) option" where
  "processNextWorkItem cfg w store execFailed cancelled s =
     (case wqGet w (queue s) of
        None \<Rightarrow> None
      | Some q \<Rightarrow>
          (let s1 = decide w (s\<lparr>queue := q, worker := Taken\<rparr>);
               s2 = (case worker s1 of
                       Reconciling generation \<Rightarrow> settle cfg w generation (reconcile cfg store execFailed cancelled) cancelled s1
                     | _ \<Rightarrow> s1);
               more' = (case worker s2 of Finishing b \<Rightarrow> b | _ \<Rightarrow> True)
           in Some (more', finish w more' s2)))"

text \<open>
  The interleavings: a handler counts a request and later puts the key into the queue, the worker runs
  through its atomic steps, delayed keys become due and time passes.
\<close>

inductive obsStep :: "informerConfig \<Rightarrow> 'q workqueue \<Rightarrow> 'q statusInformer \<Rightarrow> 'q statusInformer \<Rightarrow> bool" for cfg w where
  event: "watched cfg ev \<Longrightarrow> handles cfg ev \<Longrightarrow> obsStep cfg w s (countRequest s)"
| add: "0 < adding s \<Longrightarrow> obsStep cfg w s (enqueue w s)"
| get: "worker s = Waiting \<Longrightarrow> wqGet w (queue s) = Some q \<Longrightarrow> obsStep cfg w s (s\<lparr>queue := q, worker := Taken\<rparr>)"
| decide: "worker s = Taken \<Longrightarrow> obsStep cfg w s (decide w s)"
| settle: "worker s = Reconciling generation \<Longrightarrow>
    obsStep cfg w s (settle cfg w generation (reconcile cfg store execFailed cancelled) cancelled s)"
| finish: "worker s = Finishing more' \<Longrightarrow> obsStep cfg w s (finish w more' s)"
| elapse: "0 \<le> d \<Longrightarrow> obsStep cfg w s (s\<lparr>now := now s + d, queue := wqElapse w (queue s)\<rparr>)"

definition newInformer :: "'q \<Rightarrow> int \<Rightarrow> 'q statusInformer" where
  "newInformer q t = \<lparr>queue = q, requestedGeneration = 0, completedGeneration = 0, attemptedGeneration = 0,
     retryNotBefore = 0, adding = 0, worker = Waiting, now = t, obsLog = []\<rparr>"

section \<open>No event is lost\<close>

text \<open>
  What the queue is documented to do, for a view \<open>pending\<close> of its state: the key waits, is delayed, or
  was added while the worker has it. Adding makes it pending, and only \<open>Get\<close> can end that.
\<close>

definition queueOk :: "'q workqueue \<Rightarrow> ('q \<Rightarrow> bool) \<Rightarrow> bool" where
  "queueOk w pending \<longleftrightarrow> (\<forall>q d.
     pending (wqAdd w q) \<and> pending (wqAddAfter w d q) \<and> pending (wqAddRateLimited w q) \<and>
     (pending q \<longrightarrow> pending (wqForget w q) \<and> pending (wqDone w q) \<and> pending (wqElapse w q)))"

definition reqs :: "obsLog list \<Rightarrow> nat" where
  "reqs l = length (filter (\<lambda>e. e = Requested) l)"

lemma reqs_simps [simp]:
  "reqs [] = 0" "reqs (e # l) = (if e = Requested then 1 else 0) + reqs l" "reqs (l @ l') = reqs l + reqs l'"
  by (simp_all add: reqs_def)

lemma reqs_zero: "reqs l = 0 \<longleftrightarrow> Requested \<notin> set l"
  by (auto simp: reqs_def filter_empty_conv)

text \<open>Generation \<open>g\<close> has been taken up after the first \<open>g\<close> requests.\<close>

definition begun :: "nat \<Rightarrow> obsLog list \<Rightarrow> bool" where
  "begun g l \<longleftrightarrow> (\<exists>B t C. l = B @ Begun g t # C \<and> reqs C = g)"

definition succeeded :: "nat \<Rightarrow> obsLog list \<Rightarrow> bool" where
  "succeeded g l \<longleftrightarrow> (\<exists>A B t C. l = A @ Succeeded # B @ Begun g t # C \<and> reqs C = g)"

lemma begun_Cons: "begun g l \<Longrightarrow> begun g (e # l)"
  unfolding begun_def by (metis append_Cons)

lemma succeeded_Cons: "succeeded g l \<Longrightarrow> succeeded g (e # l)"
  unfolding succeeded_def by (metis append_Cons)

lemma begun_now: "reqs l = g \<Longrightarrow> begun g (Begun g t # l)"
  unfolding begun_def by (metis append_Nil)

lemma begun_succeeds: "begun g l \<Longrightarrow> succeeded g (Succeeded # l)"
  unfolding begun_def succeeded_def by (metis append_Nil)

definition obsInv :: "('q \<Rightarrow> bool) \<Rightarrow> 'q statusInformer \<Rightarrow> bool" where
  "obsInv pending s \<longleftrightarrow>
     reqs (obsLog s) = requestedGeneration s \<and> completedGeneration s \<le> requestedGeneration s \<and>
     (completedGeneration s = 0 \<or> succeeded (completedGeneration s) (obsLog s)) \<and>
     (completedGeneration s < requestedGeneration s \<longrightarrow>
        pending (queue s) \<or> 0 < adding s \<or> worker s \<notin> {Waiting, Finishing True}) \<and>
     (\<forall>g. worker s = Reconciling g \<longrightarrow>
        begun g (obsLog s) \<and> g \<le> requestedGeneration s \<and> completedGeneration s < g \<and>
        (g < requestedGeneration s \<longrightarrow> pending (queue s) \<or> 0 < adding s))"

lemmas informer_steps = countRequest_def enqueue_def decide_def settle_def finish_def

lemma obsInv_new: "obsInv pending (newInformer q t)"
  by (simp add: obsInv_def newInformer_def)

lemma obsInv_step:
  assumes w: "queueOk w pending" and step: "obsStep cfg w s s'" and inv: "obsInv pending s"
  shows "obsInv pending s'"
  using step
proof cases
  case (event ev)
  then show ?thesis using inv by (auto simp: obsInv_def countRequest_def begun_Cons succeeded_Cons)
next
  case add
  then show ?thesis using inv w by (auto simp: obsInv_def enqueue_def queueOk_def)
next
  case (get q)
  then show ?thesis using inv by (auto simp: obsInv_def)
next
  case decide
  then show ?thesis
    using inv w by (auto simp: obsInv_def decide_def Let_def queueOk_def begun_now succeeded_Cons)
next
  case (settle generation store execFailed cancelled)
  obtain d f where r: "reconcile cfg store execFailed cancelled = (d, f)" by (cases "reconcile cfg store execFailed cancelled")
  show ?thesis
    using inv w settle(2) unfolding settle(1) r
    by (auto simp: obsInv_def settle_def queueOk_def succeeded_Cons begun_succeeds)
next
  case (finish more')
  then show ?thesis using inv w by (cases more') (auto simp: obsInv_def finish_def queueOk_def)
next
  case (elapse d)
  then show ?thesis using inv w by (auto simp: obsInv_def queueOk_def)
qed

lemma obsInv_reachable:
  "queueOk w pending \<Longrightarrow> (obsStep cfg w)\<^sup>*\<^sup>* (newInformer q t) s \<Longrightarrow> obsInv pending s"
  by (rotate_tac, induction rule: rtranclp_induct) (auto intro: obsInv_new obsInv_step)

text \<open>
  C35. No event is lost. Whatever the interleaving of informers, worker and timers, when the controller
  has come to rest (the worker waits, no handler is under way and the key is not pending), every
  event has been taken into account: the last successful reconciliation began after the last event.
\<close>

theorem observer_no_lost_event:
  assumes w: "queueOk w pending" and reach: "(obsStep cfg w)\<^sup>*\<^sup>* (newInformer q t) s"
    and rest: "worker s = Waiting" "adding s = 0" "\<not> pending (queue s)"
  shows "completedGeneration s = requestedGeneration s \<and>
    (Requested \<in> set (obsLog s) \<longrightarrow>
       (\<exists>A B t' C. obsLog s = A @ Succeeded # B @ Begun (requestedGeneration s) t' # C \<and>
          Requested \<notin> set A \<and> Requested \<notin> set B))"
proof -
  have inv: "obsInv pending s" by (rule obsInv_reachable [OF w reach])
  then have eq: "completedGeneration s = requestedGeneration s" using rest by (auto simp: obsInv_def)
  moreover have "\<exists>A B t' C. obsLog s = A @ Succeeded # B @ Begun (requestedGeneration s) t' # C \<and> Requested \<notin> set A \<and> Requested \<notin> set B"
    if "Requested \<in> set (obsLog s)"
  proof -
    have "requestedGeneration s \<noteq> 0" using that inv reqs_zero [of "obsLog s"] by (auto simp: obsInv_def)
    then have "succeeded (requestedGeneration s) (obsLog s)" using inv eq by (auto simp: obsInv_def)
    then obtain A B t' C where l: "obsLog s = A @ Succeeded # B @ Begun (requestedGeneration s) t' # C" "reqs C = requestedGeneration s"
      by (auto simp: succeeded_def)
    have "reqs (obsLog s) = requestedGeneration s" using inv by (simp add: obsInv_def)
    then have "reqs A = 0" "reqs B = 0" using l by simp_all
    then show ?thesis using l(1) reqs_zero by blast
  qed
  ultimately show ?thesis by blast
qed

section \<open>Retries keep their distance\<close>

fun paced :: "obsLog list \<Rightarrow> bool" where
  "paced [] = True"
| "paced (e # l) = ((case e of Begun g t \<Rightarrow> \<forall>dl. Failed g dl \<in> set l \<longrightarrow> dl \<le> t | _ \<Rightarrow> True) \<and> paced l)"

lemma paced_split: "paced (A @ Begun g t # B) \<Longrightarrow> Failed g dl \<in> set B \<Longrightarrow> dl \<le> t"
  by (induction A) auto

definition paceInv :: "'q statusInformer \<Rightarrow> bool" where
  "paceInv s \<longleftrightarrow> paced (obsLog s) \<and>
     (\<forall>g dl. Failed g dl \<in> set (obsLog s) \<longrightarrow> g \<le> requestedGeneration s) \<and>
     (\<forall>dl. Failed (requestedGeneration s) dl \<in> set (obsLog s) \<longrightarrow> completedGeneration s < requestedGeneration s \<longrightarrow>
        attemptedGeneration s = requestedGeneration s \<and> dl \<le> retryNotBefore s) \<and>
     (\<forall>g g' dl. worker s = Reconciling g \<longrightarrow> Failed g' dl \<in> set (obsLog s) \<longrightarrow> g' \<le> g \<and> (g' = g \<longrightarrow> dl \<le> now s))"

lemma paceInv_step:
  assumes cfg: "0 \<le> icRetryDelay cfg" and step: "obsStep cfg w s s'" and inv: "obsInv pending s" and pace: "paceInv s"
  shows "paceInv s'"
proof -
  have P: "paced (obsLog s)" and A: "\<And>g dl. Failed g dl \<in> set (obsLog s) \<Longrightarrow> g \<le> requestedGeneration s"
    and B: "\<And>dl. Failed (requestedGeneration s) dl \<in> set (obsLog s) \<Longrightarrow> completedGeneration s < requestedGeneration s \<Longrightarrow>
      attemptedGeneration s = requestedGeneration s \<and> dl \<le> retryNotBefore s"
    and C: "\<And>g g' dl. worker s = Reconciling g \<Longrightarrow> Failed g' dl \<in> set (obsLog s) \<Longrightarrow> g' \<le> g \<and> (g' = g \<longrightarrow> dl \<le> now s)"
    using pace by (auto simp: paceInv_def)
  show ?thesis
    using step
  proof cases
    case (event ev)
    have "g \<noteq> Suc (requestedGeneration s)" if "Failed g dl \<in> set (obsLog s)" for g dl using A [OF that] by simp
    then show ?thesis using P A C unfolding event(1) paceInv_def countRequest_def by (auto intro: le_SucI)
  next
    case add
    then show ?thesis using pace by (simp add: paceInv_def enqueue_def)
  next
    case (get q)
    then show ?thesis using pace by (simp add: paceInv_def)
  next
    case decide
    let ?g = "requestedGeneration s"
    show ?thesis
    proof (cases "?g \<le> completedGeneration s \<or> ?g = attemptedGeneration s \<and> now s < retryNotBefore s")
      case True
      then have "obsLog s' = obsLog s" "worker s' = Finishing True" "requestedGeneration s' = ?g" "completedGeneration s' = completedGeneration s"
        "attemptedGeneration s' = attemptedGeneration s" "retryNotBefore s' = retryNotBefore s"
        unfolding decide(1) decide_def Let_def by auto
      then show ?thesis using pace by (simp add: paceInv_def)
    next
      case False
      then have s': "s' = s\<lparr>worker := Reconciling ?g, obsLog := Begun ?g (now s) # obsLog s\<rparr>"
        unfolding decide(1) decide_def Let_def by auto
      have "dl \<le> now s" if "Failed ?g dl \<in> set (obsLog s)" for dl using B [OF that] False by auto
      then show ?thesis using pace unfolding s' by (auto simp: paceInv_def)
    qed
  next
    case (settle generation store execFailed cancelled)
    obtain d f where r: "reconcile cfg store execFailed cancelled = (d, f)" by (cases "reconcile cfg store execFailed cancelled")
    have g: "generation \<le> requestedGeneration s" "completedGeneration s < generation" using inv settle(2) by (auto simp: obsInv_def)
    have C': "g' \<le> generation" "g' = generation \<Longrightarrow> dl \<le> now s" if "Failed g' dl \<in> set (obsLog s)" for g' dl
      using C [OF settle(2) that] by simp_all
    have top: "generation = requestedGeneration s \<and> dl \<le> now s" if "Failed (requestedGeneration s) dl \<in> set (obsLog s)" for dl
      using C' [OF that] g(1) by auto
    have failed: "generation = requestedGeneration s \<and> dl \<le> now s + dly"
      if "Failed (requestedGeneration s) dl \<in> set (Failed generation (now s + dly) # obsLog s)" "0 \<le> dly" for dl dly
      using that top [of dl] by auto
    show ?thesis
    proof (cases "cancelled \<or> \<not> f \<and> d \<le> 0")
      case True
      have "\<not> generation < requestedGeneration s \<or> Failed (requestedGeneration s) dl \<notin> set (obsLog s)" for dl using top [of dl] by auto
      then show ?thesis using True P A B g unfolding settle(1) r settle_def paceInv_def by auto
    next
      case False
      define dly where "dly = (if f then icRetryDelay cfg else d)"
      have "0 \<le> dly" using False cfg by (auto simp: dly_def)
      moreover have "obsLog s' = Failed generation (now s + dly) # obsLog s" "worker s' = Finishing True"
        "attemptedGeneration s' = generation" "retryNotBefore s' = now s + dly" "requestedGeneration s' = requestedGeneration s"
        using False unfolding settle(1) r settle_def dly_def by auto
      ultimately show ?thesis using P A g(1) failed unfolding paceInv_def by auto
    qed
  next
    case (finish more')
    then show ?thesis using P A B by (auto simp: paceInv_def finish_def)
  next
    case (elapse d)
    have "dl \<le> now s + d" if "worker s = Reconciling g" "Failed g dl \<in> set (obsLog s)" for g dl using C [OF that] elapse(2) by simp
    moreover have "g' \<le> g" if "worker s = Reconciling g" "Failed g' dl \<in> set (obsLog s)" for g g' dl using C [OF that] by simp
    ultimately show ?thesis using P A B unfolding elapse(1) paceInv_def by auto
  qed
qed

text \<open>
  A generation that failed is not tried again before its deadline, however many delayed keys the queue
  still holds.
\<close>

lemma observer_retry_paced:
  assumes w: "queueOk w pending" and cfg: "0 \<le> icRetryDelay cfg" and reach: "(obsStep cfg w)\<^sup>*\<^sup>* (newInformer q t) s"
    and "obsLog s = A @ Begun g t' # B" and "Failed g dl \<in> set B"
  shows "dl \<le> t'"
proof -
  have "obsInv pending s \<and> paceInv s" using reach
  proof (induction rule: rtranclp_induct)
    case base
    have "paceInv (newInformer q t)" by (simp add: paceInv_def newInformer_def)
    then show ?case by (simp add: obsInv_new)
  next
    case (step s1 s2)
    then show ?case using obsInv_step [OF w] paceInv_step [OF cfg] by blast
  qed
  then have "paced (obsLog s)" by (simp add: paceInv_def)
  then show ?thesis using assms(4,5) paced_split by simp
qed

section \<open>A call of the worker\<close>

text \<open>The call runs through the steps above; if the request succeeds, all events counted so far are done.\<close>

lemma settle_worker: "worker (settle cfg w g res cancelled s) = Finishing (\<not> cancelled)"
  by (cases res) (simp add: settle_def)

lemma processNextWorkItem_steps:
  assumes "worker s = Waiting" and "processNextWorkItem cfg w store execFailed cancelled s = Some (b, s')"
  shows "(obsStep cfg w)\<^sup>*\<^sup>* s s'"
proof -
  obtain q where q: "wqGet w (queue s) = Some q" using assms(2) by (auto simp: processNextWorkItem_def split: option.splits)
  let ?s0 = "s\<lparr>queue := q, worker := Taken\<rparr>" and ?s1 = "decide w (s\<lparr>queue := q, worker := Taken\<rparr>)"
  have "obsStep cfg w s ?s0" "obsStep cfg w ?s0 ?s1" using obsStep.get [OF assms(1) q] obsStep.decide [of ?s0 cfg w] by simp_all
  then have one: "(obsStep cfg w)\<^sup>*\<^sup>* s ?s1" by simp
  show ?thesis
  proof (cases "worker ?s1")
    case (Reconciling g)
    let ?s2 = "settle cfg w g (reconcile cfg store execFailed cancelled) cancelled ?s1"
    obtain m where m: "worker ?s2 = Finishing m" using settle_worker by blast
    have "obsStep cfg w ?s1 ?s2" "obsStep cfg w ?s2 (finish w m ?s2)" using Reconciling m by (auto intro: obsStep.settle obsStep.finish)
    moreover have "s' = finish w m ?s2" using assms(2) q Reconciling m by (auto simp: processNextWorkItem_def Let_def)
    ultimately show ?thesis using one by (meson rtranclp.rtrancl_into_rtrancl)
  next
    case (Finishing m)
    then have "obsStep cfg w ?s1 (finish w m ?s1)" by (rule obsStep.finish)
    moreover have "s' = finish w m ?s1" using assms(2) q Finishing by (auto simp: processNextWorkItem_def Let_def)
    ultimately show ?thesis using one by (meson rtranclp.rtrancl_into_rtrancl)
  qed (auto simp: decide_def Let_def split: if_splits)
qed

lemma processNextWorkItem_completes:
  assumes "processNextWorkItem cfg w store False False s = Some (b, s')" and "fst (brokerReady cfg store)"
    and "requestedGeneration s \<noteq> attemptedGeneration s \<or> retryNotBefore s \<le> now s"
    and "completedGeneration s \<le> requestedGeneration s"
  shows "b \<and> completedGeneration s' = requestedGeneration s"
  using assms by (auto simp: processNextWorkItem_def decide_def settle_def finish_def reconcile_def Let_def split: option.splits if_splits)

section \<open>Example\<close>

text \<open>A queue for one key: is it ready, delayed, with the worker, or added again meanwhile?\<close>

record keyQueue =
  kqReady :: bool
  kqDelayed :: bool
  kqProcessing :: bool
  kqDirty :: bool

definition kqAdd :: "keyQueue \<Rightarrow> keyQueue" where
  "kqAdd q = (if kqProcessing q then q\<lparr>kqDirty := True\<rparr> else q\<lparr>kqReady := True\<rparr>)"

definition keyQueue :: "keyQueue workqueue" where
  "keyQueue = \<lparr>wqAdd = kqAdd, wqAddAfter = (\<lambda>_ q. q\<lparr>kqDelayed := True\<rparr>), wqAddRateLimited = (\<lambda>q. q\<lparr>kqDelayed := True\<rparr>),
     wqForget = id, wqGet = (\<lambda>q. if kqReady q then Some (q\<lparr>kqReady := False, kqProcessing := True, kqDirty := False\<rparr>) else None),
     wqDone = (\<lambda>q. q\<lparr>kqProcessing := False, kqReady := kqReady q \<or> kqDirty q, kqDirty := False\<rparr>),
     wqElapse = (\<lambda>q. if kqDelayed q then kqAdd (q\<lparr>kqDelayed := False\<rparr>) else q)\<rparr>"

definition kqPending :: "keyQueue \<Rightarrow> bool" where
  "kqPending q \<longleftrightarrow> kqReady q \<or> kqDelayed q \<or> kqDirty q"

lemma keyQueue_ok: "queueOk keyQueue kqPending"
  by (auto simp: queueOk_def keyQueue_def kqPending_def kqAdd_def)

definition watchAll :: informerConfig where
  "watchAll = \<lparr>icNodeLabels = [], icNodeReadiness = False, icNodes = True, icPods = False, icAPI = False, icBroker = False,
     icContainerName = [], icRetryDelay = 1, icHasRequest = True\<rparr>"

definition emptyQueue :: keyQueue where
  "emptyQueue = \<lparr>kqReady = False, kqDelayed = False, kqProcessing = False, kqDirty = False\<rparr>"

theorem observer_no_lost_event_witness:
  "\<exists>s A B t' C. (obsStep watchAll keyQueue)\<^sup>*\<^sup>* (newInformer emptyQueue 1) s \<and> requestedGeneration s = 1 \<and>
     obsLog s = A @ Succeeded # B @ Begun 1 t' # C \<and> Requested \<notin> set A \<and> Requested \<notin> set B"
proof -
  let ?s0 = "newInformer emptyQueue 1"
  let ?s1 = "sendRequest keyQueue ?s0"
  let ?P = "processNextWorkItem watchAll keyQueue None False False ?s1"
  have "watched watchAll NodeDeleted" "handles watchAll NodeDeleted" by (simp_all add: watchAll_def)
  then have "obsStep watchAll keyQueue ?s0 (countRequest ?s0)" by (rule obsStep.event)
  moreover have "obsStep watchAll keyQueue (countRequest ?s0) ?s1"
    unfolding sendRequest_def by (rule obsStep.add) (simp add: countRequest_def)
  moreover have "worker ?s1 = Waiting" by (simp add: sendRequest_def enqueue_def countRequest_def newInformer_def)
  moreover have "?P \<noteq> None \<and> (\<forall>r \<in> set_option ?P. worker (snd r) = Waiting \<and> adding (snd r) = 0 \<and> \<not> kqPending (queue (snd r)) \<and>
      requestedGeneration (snd r) = 1 \<and> Requested \<in> set (obsLog (snd r)))"
    by code_simp
  then obtain b s where P: "?P = Some (b, s)" and rest: "worker s = Waiting" "adding s = 0" "\<not> kqPending (queue s)"
    "requestedGeneration s = 1" "Requested \<in> set (obsLog s)"
    by (cases ?P) auto
  ultimately have reach: "(obsStep watchAll keyQueue)\<^sup>*\<^sup>* ?s0 s"
    using processNextWorkItem_steps [OF _ P] by (meson converse_rtranclp_into_rtranclp)
  obtain A B t' C where "obsLog s = A @ Succeeded # B @ Begun (requestedGeneration s) t' # C" "Requested \<notin> set A" "Requested \<notin> set B"
    using observer_no_lost_event [OF keyQueue_ok reach rest(1-3)] rest(5) by blast
  then show ?thesis using reach rest(4) by (intro exI [of _ s] exI [of _ A] exI [of _ B] exI [of _ t'] exI [of _ C]) simp
qed

end
