(* ===== verification/NodeLabels.thy ===== *)
theory NodeLabels
  imports Placement KubeNodes Sha256
begin

text \<open>
  Component \<open>pkg/providers/nodelabels\<close>: the provider that reads the topology from labels of Kubernetes
  nodes. The configured label keys, closest tier first, give the switches of a node; a switch is
  identified by the values of its tier and of all tiers above it, hashed.

  Arguments of the model: the list of nodes the API returns, \<open>validation.IsQualifiedName\<close> and
  \<open>IsValidLabelValue\<close>, and the decoder of the parameters.
\<close>

section \<open>Model\<close>

text \<open>A value of type \<open>any\<close>, as far as the type switch distinguishes.\<close>

datatype goValue = GNil | GString string | GStrings "string list" | GList "goValue list" | GOther

record labelParams =
  lpTopologyLabels :: "string list"
  lpNodeSelector :: "(string, string) gomap"
  lpRequireReady :: bool
  lpOnMissingLabel :: string

datatype nlabel_error =
  NotStrings
| NlDecode string
| BadOnMissing
| NoTopologyLabels
| NlKey meta_error
| DuplicateKey string
| BadSelectorValue string "string list"
| NlList meta_error
| MissingLabel string string string
| NoUsableNodes

definition isStringList :: "goValue \<Rightarrow> bool" where
  "isStringList v =
     (case v of GStrings _ \<Rightarrow> True | GNil \<Rightarrow> True | GList vs \<Rightarrow> list_all (\<lambda>v. case v of GString _ \<Rightarrow> True | _ \<Rightarrow> False) vs | _ \<Rightarrow> False)"

definition checkKey :: "(string \<Rightarrow> string list) \<Rightarrow> string \<Rightarrow> string list \<Rightarrow> nlabel_error + string list" where
  "checkKey isQualifiedName key seen =
     (case ValidateLabelKey isQualifiedName ''topologyLabels'' key of
        Some err \<Rightarrow> Inl (NlKey err)
      | None \<Rightarrow> if key \<in> set seen then Inl (DuplicateKey key) else Inr (key # seen))"

definition checkSelector ::
  "(string \<Rightarrow> string list) \<Rightarrow> (string \<Rightarrow> string list) \<Rightarrow> string \<times> string \<Rightarrow> unit \<Rightarrow> nlabel_error + unit" where
  "checkSelector isQualifiedName isValidLabelValue = (\<lambda>(key, val) _.
     case ValidateLabelKey isQualifiedName ''nodeSelector'' key of
       Some err \<Rightarrow> Inl (NlKey err)
     | None \<Rightarrow> if isValidLabelValue val \<noteq> [] then Inl (BadSelectorValue key (isValidLabelValue val)) else Inr ())"

definition ParseParams ::
  "((string, goValue) gomap \<Rightarrow> labelParams \<Rightarrow> string + labelParams) \<Rightarrow> (string \<Rightarrow> string list) \<Rightarrow> (string \<Rightarrow> string list)
     \<Rightarrow> (string, goValue) gomap \<Rightarrow> nlabel_error + labelParams" where
  "ParseParams decode isQualifiedName isValidLabelValue vals =
     (if \<not> isStringList (case gm_get vals ''topologyLabels'' of Some v \<Rightarrow> v | None \<Rightarrow> GNil) then Inl NotStrings
      else
        (case decode vals \<lparr>lpTopologyLabels = [], lpNodeSelector = [], lpRequireReady = False, lpOnMissingLabel = []\<rparr> of
           Inl err \<Rightarrow> Inl (NlDecode err)
         | Inr p0 \<Rightarrow>
             (let p = (if lpOnMissingLabel p0 = [] then p0\<lparr>lpOnMissingLabel := ''skip''\<rparr> else p0)
              in if lpOnMissingLabel p \<noteq> ''skip'' \<and> lpOnMissingLabel p \<noteq> ''fail'' then Inl BadOnMissing
                 else if lpTopologyLabels p = [] then Inl NoTopologyLabels
                 else
                   (case foldE (checkKey isQualifiedName) (lpTopologyLabels p) [] of
                      Inl err \<Rightarrow> Inl err
                    | Inr _ \<Rightarrow> map_sum id (\<lambda>_. p) (foldE (checkSelector isQualifiedName isValidLabelValue) (lpNodeSelector p) ())))))"

definition NodeTopologyLabels ::
  "((string, goValue) gomap \<Rightarrow> labelParams \<Rightarrow> string + labelParams) \<Rightarrow> (string \<Rightarrow> string list) \<Rightarrow> (string \<Rightarrow> string list)
     \<Rightarrow> (string, goValue) gomap \<Rightarrow> nlabel_error + string list" where
  "NodeTopologyLabels decode isQualifiedName isValidLabelValue vals =
     map_sum id lpTopologyLabels (ParseParams decode isQualifiedName isValidLabelValue vals)"

subsection \<open>Switch IDs\<close>

definition trimRight :: "string \<Rightarrow> string \<Rightarrow> string" where
  "trimRight cutset s = rev (dropWhile (\<lambda>c. c \<in> set cutset) (rev s))"

definition saltedID :: "string list \<Rightarrow> nat \<Rightarrow> string" where
  "saltedID vals salt =
     ''switch_'' @ trimRight ''-_.'' (take 23 (hd vals)) @ ''-'' @
     hexEncode (take 16 (sha256 (join ''/'' vals @ ''#'' @ itoa salt)))"

text \<open>The loop over the salt may not end when every candidate is reserved: \<open>None\<close>.\<close>

partial_function (option) saltLoop :: "string list \<Rightarrow> (string, string) gomap \<Rightarrow> nat \<Rightarrow> string option" where
  "saltLoop vals nodeIDs salt =
     (if gm_get nodeIDs (saltedID vals salt) = None then Some (saltedID vals salt)
      else saltLoop vals nodeIDs (Suc salt))"

definition switchID :: "string list \<Rightarrow> (string, string) gomap \<Rightarrow> string option" where
  "switchID vals nodeIDs = saltLoop vals nodeIDs 0"

subsection \<open>Topology\<close>

definition IsNodeEligible :: "WatchedNode \<Rightarrow> bool" where
  "IsNodeEligible node =
     (if deleted node then False
      else
        (case find (\<lambda>(ty, _). ty = ''Ready'') (nodeConditions node) of Some (_, status) \<Rightarrow> status = ''True'' | None \<Rightarrow> False))"

definition nodeInstance :: "WatchedNode \<Rightarrow> string" where
  "nodeInstance node =
     (let i = TrimSpace (strAt (kAnnotations node) KeyNodeInstance) in if i = [] then kName node else i)"

definition isSelected :: "labelParams \<Rightarrow> (string, string) gomap \<Rightarrow> WatchedNode \<Rightarrow> bool" where
  "isSelected p requested node \<longleftrightarrow>
     gm_get requested (nodeInstance node) \<noteq> None \<and> \<not> deleted node \<and> (lpRequireReady p \<longrightarrow> IsNodeEligible node)"

text \<open>The values of the labels, or the first key whose value is missing or invalid.\<close>

definition labelValues :: "(string \<Rightarrow> string list) \<Rightarrow> string list \<Rightarrow> WatchedNode \<Rightarrow> string + string list" where
  "labelValues isValidLabelValue keys node =
     (case find (\<lambda>key. strAt (kLabels node) key = [] \<or> isValidLabelValue (strAt (kLabels node) key) \<noteq> []) keys of
        Some key \<Rightarrow> Inl key
      | None \<Rightarrow> Inr (map (strAt (kLabels node)) keys))"

fun tierList :: "(string, string) gomap \<Rightarrow> string list \<Rightarrow> FabricTier list option" where
  "tierList requested [] = Some []"
| "tierList requested (v # vs) =
     (case switchID (v # vs) requested of
        None \<Rightarrow> None
      | Some i \<Rightarrow> map_option (\<lambda>ts. \<lparr>tierID = i, tierName = []\<rparr> # ts) (tierList requested vs))"

abbreviation StatusServiceUnavailable :: int where "StatusServiceUnavailable \<equiv> 503"

record labelState =
  lsEligible :: "(string, string) gomap"
  lsTopo :: ClusterTopology

text \<open>One node. On the outside \<open>None\<close>: the search for a switch ID does not end.\<close>

definition addLabelled ::
  "(string \<Rightarrow> string list) \<Rightarrow> labelParams \<Rightarrow> (string, string) gomap \<Rightarrow> WatchedNode \<Rightarrow> labelState
     \<Rightarrow> ((int \<times> nlabel_error) + labelState) option" where
  "addLabelled isValidLabelValue p requested node st =
     (if \<not> isSelected p requested node then Some (Inr st)
      else
        (case labelValues isValidLabelValue (lpTopologyLabels p) node of
           Inl key \<Rightarrow>
             if lpOnMissingLabel p = ''fail''
             then Some (Inl (StatusBadRequest, MissingLabel (kName node) key (strAt (kLabels node) key)))
             else Some (Inr st)
         | Inr vals \<Rightarrow>
             (case tierList requested vals of
                None \<Rightarrow> None
              | Some tiers \<Rightarrow>
                  Some (Inr \<lparr>lsEligible = gm_put (nodeInstance node) (strAt requested (nodeInstance node)) (lsEligible st),
                     lsTopo = Append (lsTopo st) \<lparr>InstanceID = nodeInstance node, FabricTiers = tiers, XclrDomainID = [],
                       XclrSubDomainID = [], itInstance = None\<rparr>\<rparr>))))"

fun labelLoop ::
  "(string \<Rightarrow> string list) \<Rightarrow> labelParams \<Rightarrow> (string, string) gomap \<Rightarrow> WatchedNode list \<Rightarrow> labelState
     \<Rightarrow> ((int \<times> nlabel_error) + labelState) option" where
  "labelLoop isValidLabelValue p requested [] st = Some (Inr st)"
| "labelLoop isValidLabelValue p requested (node # nodes) st =
     (case addLabelled isValidLabelValue p requested node st of
        None \<Rightarrow> None
      | Some (Inl err) \<Rightarrow> Some (Inl err)
      | Some (Inr st') \<Rightarrow> labelLoop isValidLabelValue p requested nodes st')"

definition GenerateTopologyConfig ::
  "(string \<Rightarrow> string list) \<Rightarrow> NodeMetadata option \<Rightarrow> (string + WatchedNode list) \<Rightarrow> labelParams \<Rightarrow> nat \<Rightarrow> ComputeInstances list
     \<Rightarrow> ((int \<times> nlabel_error) + heap \<times> Graph) option" where
  "GenerateTopologyConfig isValidLabelValue ctx listed p fuel cis =
     (case GetNodes ctx listed of
        Inl err \<Rightarrow> Some (Inl (StatusBadGateway, NlList err))
      | Inr nodes \<Rightarrow>
          (let requested = instanceNames cis
           in case labelLoop isValidLabelValue p requested nodes \<lparr>lsEligible = [], lsTopo = NewClusterTopology\<rparr> of
                None \<Rightarrow> None
              | Some (Inl err) \<Rightarrow> Some (Inl err)
              | Some (Inr st) \<Rightarrow>
                  if requested \<noteq> [] \<and> lsEligible st = [] then Some (Inl (StatusServiceUnavailable, NoUsableNodes))
                  else map_option Inr (ToGraph fuel (lsTopo st) [\<lparr>Region = [], Instances = lsEligible st\<rparr>] 0 False)))"

section \<open>Switch IDs\<close>

lemma saltLoop_result: "saltLoop vals nodeIDs salt = Some i \<Longrightarrow> gm_get nodeIDs i = None \<and> (\<exists>k. i = saltedID vals k)"
  by (rule saltLoop.raw_induct [of "\<lambda>vals nodeIDs salt i. gm_get nodeIDs i = None \<and> (\<exists>k. i = saltedID vals k)", rotated])
    (auto split: if_splits)

lemma saltLoop_returns: "gm_get nodeIDs (saltedID vals (salt + n)) = None \<Longrightarrow> \<exists>i. saltLoop vals nodeIDs salt = Some i"
proof (induction n arbitrary: salt)
  case 0
  then show ?case by (subst saltLoop.simps) simp
next
  case (Suc n)
  then have "\<exists>i. saltLoop vals nodeIDs (Suc salt) = Some i" by simp
  then show ?case by (subst saltLoop.simps) simp
qed

text \<open>A switch ID is not one of the reserved IDs, and it exists as soon as one candidate is free.\<close>

lemma switchID_free:
  assumes "switchID vals nodeIDs = Some i"
  shows "gm_get nodeIDs i = None" and "take 7 i = ''switch_''"
  using saltLoop_result [of vals nodeIDs 0 i] assms by (auto simp: switchID_def saltedID_def)

lemma switchID_returns: "\<exists>salt. gm_get nodeIDs (saltedID vals salt) = None \<Longrightarrow> \<exists>i. switchID vals nodeIDs = Some i"
  using saltLoop_returns [of nodeIDs vals 0] by (auto simp: switchID_def)

fun suffixes' :: "'a list \<Rightarrow> 'a list list" where
  "suffixes' [] = []"
| "suffixes' (x # xs) = (x # xs) # suffixes' xs"

lemma suffixes'_nth: "length (suffixes' xs) = length xs" "l < length xs \<Longrightarrow> suffixes' xs ! l = drop l xs"
  by (induction xs arbitrary: l) (auto simp: nth_Cons' drop_Cons')

lemma tierList_some: "tierList requested vals = Some ts \<Longrightarrow>
    map (\<lambda>v. switchID v requested) (suffixes' vals) = map (Some \<circ> tierID) ts"
  by (induction vals arbitrary: ts) (auto split: option.splits)

lemma tierList_returns:
  "\<forall>v \<in> set (suffixes' vals). \<exists>salt. gm_get requested (saltedID v salt) = None \<Longrightarrow> \<exists>ts. tierList requested vals = Some ts"
  by (induction vals) (auto split: option.splits intro!: switchID_returns)

section \<open>The nodes that count\<close>

definition usable :: "(string \<Rightarrow> string list) \<Rightarrow> labelParams \<Rightarrow> (string, string) gomap \<Rightarrow> WatchedNode \<Rightarrow> bool" where
  "usable isValidLabelValue p requested node \<longleftrightarrow>
     isSelected p requested node \<and> \<not> isl (labelValues isValidLabelValue (lpTopologyLabels p) node)"

definition nodeValues :: "labelParams \<Rightarrow> WatchedNode \<Rightarrow> string list" where
  "nodeValues p node = map (strAt (kLabels node)) (lpTopologyLabels p)"

definition nodeTopology :: "labelParams \<Rightarrow> (string, string) gomap \<Rightarrow> WatchedNode \<Rightarrow> InstanceTopology" where
  "nodeTopology p requested node = \<lparr>InstanceID = nodeInstance node,
     FabricTiers = (case tierList requested (nodeValues p node) of Some ts \<Rightarrow> ts | None \<Rightarrow> []),
     XclrDomainID = [], XclrSubDomainID = [], itInstance = None\<rparr>"

lemma labelLoop_ok:
  assumes "\<forall>node \<in> set nodes. usable valid p requested node \<longrightarrow> tierList requested (nodeValues p node) \<noteq> None"
    and "lpOnMissingLabel p = ''fail'' \<longrightarrow> (\<forall>node \<in> set nodes. isSelected p requested node \<longrightarrow> usable valid p requested node)"
  shows "labelLoop valid p requested nodes st =
    Some (Inr \<lparr>lsEligible = fold (\<lambda>node. gm_put (nodeInstance node) (strAt requested (nodeInstance node)))
        (filter (usable valid p requested) nodes) (lsEligible st),
      lsTopo = lsTopo st @ map (nodeTopology p requested) (filter (usable valid p requested) nodes)\<rparr>)"
  using assms
proof (induction nodes arbitrary: st)
  case (Cons node nodes)
  show ?case
  proof (cases "usable valid p requested node")
    case True
    then obtain ts where ts: "tierList requested (nodeValues p node) = Some ts" using Cons.prems(1) by auto
    have v: "labelValues valid (lpTopologyLabels p) node = Inr (nodeValues p node)"
      using True by (auto simp: usable_def labelValues_def nodeValues_def split: option.splits)
    show ?thesis
      using Cons True ts v by (simp add: addLabelled_def usable_def Append_def nodeTopology_def)
  next
    case False
    then have "addLabelled valid p requested node st = Some (Inr st)"
      using Cons.prems(2) by (cases "labelValues valid (lpTopologyLabels p) node") (auto simp: addLabelled_def usable_def)
    then show ?thesis using Cons False by simp
  qed
qed simp

lemma eligible_get:
  "gm_get (fold (\<lambda>node. gm_put (nodeInstance node) (strAt requested (nodeInstance node))) nodes m) i =
     (if i \<in> nodeInstance ` set nodes then Some (strAt requested i) else gm_get m i)"
  by (induction nodes arbitrary: m) auto

section \<open>Placement\<close>

text \<open>
  What the provider relies on: the usable nodes have different instance IDs, every tier has a free
  switch ID, different tiers have different switch IDs (no collision of hashes), and no requested
  instance is called like the switch for nodes without topology.
\<close>

definition pathsOf :: "labelParams \<Rightarrow> WatchedNode list \<Rightarrow> string list list" where
  "pathsOf p nodes = concat (map (\<lambda>node. suffixes' (nodeValues p node)) nodes)"

definition labelsOk :: "labelParams \<Rightarrow> (string, string) gomap \<Rightarrow> WatchedNode list \<Rightarrow> bool" where
  "labelsOk p requested nodes \<longleftrightarrow>
     distinct (map nodeInstance nodes) \<and> gm_get requested NoTopology = None \<and>
     (\<forall>v \<in> set (pathsOf p nodes). \<exists>salt. gm_get requested (saltedID v salt) = None) \<and>
     (\<forall>v \<in> set (pathsOf p nodes). \<forall>u \<in> set (pathsOf p nodes). switchID v requested = switchID u requested \<longrightarrow> v = u)"

text \<open>The switches of a node, closest first.\<close>

definition switchesOf :: "labelParams \<Rightarrow> (string, string) gomap \<Rightarrow> WatchedNode \<Rightarrow> string list" where
  "switchesOf p requested node = map (\<lambda>v. case switchID v requested of Some i \<Rightarrow> i | None \<Rightarrow> []) (suffixes' (nodeValues p node))"

lemma nodeTopology_tiers:
  assumes "labelsOk p requested nodes" and "node \<in> set nodes"
  shows "\<exists>ts. tierList requested (nodeValues p node) = Some ts"
    and "map tierID (FabricTiers (nodeTopology p requested node)) = switchesOf p requested node"
    and "l < length (nodeValues p node) \<Longrightarrow> switchID (drop l (nodeValues p node)) requested = Some (switchesOf p requested node ! l)"
    and "length (switchesOf p requested node) = length (nodeValues p node)"
proof -
  have "\<forall>v \<in> set (suffixes' (nodeValues p node)). \<exists>salt. gm_get requested (saltedID v salt) = None"
    using assms by (auto simp: labelsOk_def pathsOf_def)
  from tierList_returns [OF this] obtain ts where ts: "tierList requested (nodeValues p node) = Some ts" ..
  then show "\<exists>ts. tierList requested (nodeValues p node) = Some ts" by blast
  note m = tierList_some [OF ts]
  show len: "length (switchesOf p requested node) = length (nodeValues p node)" by (simp add: switchesOf_def suffixes'_nth)
  have n: "switchID (drop l (nodeValues p node)) requested = Some (tierID (ts ! l))" "l < length ts"
    if "l < length (nodeValues p node)" for l
    using that arg_cong [OF m, of "\<lambda>xs. xs ! l"] arg_cong [OF m, of length] by (simp_all add: suffixes'_nth)
  show s: "switchID (drop l (nodeValues p node)) requested = Some (switchesOf p requested node ! l)"
    if "l < length (nodeValues p node)" for l
    using n [OF that] that by (simp add: switchesOf_def suffixes'_nth)
  have "map tierID ts = switchesOf p requested node"
  proof (rule nth_equalityI)
    show "length (map tierID ts) = length (switchesOf p requested node)"
      using len arg_cong [OF m, of length] by (simp add: suffixes'_nth)
  next
    fix l assume "l < length (map tierID ts)"
    then have "l < length (nodeValues p node)" using arg_cong [OF m, of length] by (simp add: suffixes'_nth)
    then show "map tierID ts ! l = switchesOf p requested node ! l" using n s by fastforce
  qed
  then show "map tierID (FabricTiers (nodeTopology p requested node)) = switchesOf p requested node"
    by (simp add: nodeTopology_def ts)
qed

lemma trimmedTiers_0 [simp]: "trimmedTiers inst 0 = FabricTiers inst"
  by (simp add: trimmedTiers_def)

lemma tierKeys_node:
  assumes ok: "labelsOk p requested nodes" and node: "node \<in> set nodes"
    and mem: "(l, i) \<in> set (tierKeys 0 (nodeTopology p requested node))"
  shows "l < length (lpTopologyLabels p)" and "switchID (drop l (nodeValues p node)) requested = Some i"
    and "drop l (nodeValues p node) \<in> set (pathsOf p nodes)"
proof -
  have len: "length (nodeValues p node) = length (lpTopologyLabels p)" by (simp add: nodeValues_def)
  have t: "l < length (switchesOf p requested node)" "i = switchesOf p requested node ! l"
    using mem unfolding tierKeys_def nodeTopology_tiers(2) [OF ok node] trimmedTiers_0 by (auto simp: in_set_enumerate_eq)
  then have l: "l < length (nodeValues p node)" using nodeTopology_tiers(4) [OF ok node] by simp
  then show "l < length (lpTopologyLabels p)" using len by simp
  show "switchID (drop l (nodeValues p node)) requested = Some i" using nodeTopology_tiers(3) [OF ok node l] t(2) by simp
  have "suffixes' (nodeValues p node) ! l \<in> set (suffixes' (nodeValues p node))" using l by (simp add: suffixes'_nth(1))
  then show "drop l (nodeValues p node) \<in> set (pathsOf p nodes)"
    using l node by (auto simp: pathsOf_def suffixes'_nth(2))
qed

definition eligibleMap :: "(string, string) gomap \<Rightarrow> WatchedNode list \<Rightarrow> (string, string) gomap" where
  "eligibleMap requested nodes = fold (\<lambda>node. gm_put (nodeInstance node) (strAt requested (nodeInstance node))) nodes []"

lemma eligibleMap_wf: "gm_wf (eligibleMap requested nodes)"
proof -
  have "gm_wf m \<Longrightarrow> gm_wf (fold (\<lambda>node. gm_put (nodeInstance node) (strAt requested (nodeInstance node))) nodes m)" for m
    by (induction nodes arbitrary: m) (auto intro: gm.wf_put)
  then show ?thesis by (simp add: eligibleMap_def)
qed

lemma eligible_names:
  "gm_get (instanceNames [\<lparr>Region = [], Instances = eligibleMap requested nodes\<rparr>]) i =
     (if i \<in> nodeInstance ` set nodes then Some (strAt requested i) else None)"
  by (simp add: instanceNames_def gm_get_copy eligibleMap_wf) (simp add: eligibleMap_def eligible_get)

lemma labels_topologyOk:
  assumes ok: "labelsOk p requested nodes" and sel: "\<forall>node \<in> set nodes. isSelected p requested node"
  shows "topologyOk 0 (map (nodeTopology p requested) nodes) [\<lparr>Region = [], Instances = eligibleMap requested nodes\<rparr>]"
proof -
  let ?K = "set (concat (map (tierKeys 0) (map (nodeTopology p requested) nodes)))"
  let ?N = "instanceNames [\<lparr>Region = [], Instances = eligibleMap requested nodes\<rparr>]"
  have keys: "i \<in> set (gm_keys ?N) \<longleftrightarrow> i \<in> nodeInstance ` set nodes" for i
    using eligible_names [of requested nodes i] by (metis domD domI domIff dom_map_of_conv_image_fst set_map)
  have req: "gm_get requested i \<noteq> None" if "i \<in> nodeInstance ` set nodes" for i
    using that sel by (auto simp: isSelected_def)
  have K: "\<exists>node \<in> set nodes. l < length (lpTopologyLabels p) \<and> switchID (drop l (nodeValues p node)) requested = Some i \<and>
      drop l (nodeValues p node) \<in> set (pathsOf p nodes)" if m: "(l, i) \<in> ?K" for l i
  proof -
    obtain node where "node \<in> set nodes" "(l, i) \<in> set (tierKeys 0 (nodeTopology p requested node))" using m by auto
    then show ?thesis using tierKeys_node [OF ok] by blast
  qed
  have "x = y" if xy: "x \<in> ?K" "y \<in> ?K" "snd x = snd y" for x y
  proof -
    obtain l i k where x: "x = (l, i)" "y = (k, i)" using xy(3) by (cases x, cases y) auto
    obtain u v where u: "l < length (lpTopologyLabels p)" "switchID (drop l (nodeValues p u)) requested = Some i" "drop l (nodeValues p u) \<in> set (pathsOf p nodes)"
      and v: "k < length (lpTopologyLabels p)" "switchID (drop k (nodeValues p v)) requested = Some i" "drop k (nodeValues p v) \<in> set (pathsOf p nodes)"
      using K xy(1,2) x by metis
    have "drop l (nodeValues p u) = drop k (nodeValues p v)" using ok u v unfolding labelsOk_def by auto
    from arg_cong [OF this, of length] have "l = k" using u(1) v(1) by (simp add: nodeValues_def)
    then show ?thesis using x by simp
  qed
  moreover have "snd x \<notin> set (gm_keys ?N) \<and> snd x \<noteq> NoTopology" if x: "x \<in> ?K" for x
  proof -
    obtain v where v: "switchID v requested = Some (snd x)" using K [of "fst x" "snd x"] x by auto
    have "take 7 NoTopology \<noteq> ''switch_''" by code_simp
    moreover have "snd x \<notin> nodeInstance ` set nodes" using switchID_free(1) [OF v] req [of "snd x"] by auto
    ultimately show ?thesis using switchID_free(2) [OF v] keys by metis
  qed
  moreover have "NoTopology \<notin> set (gm_keys ?N)" using ok req keys unfolding labelsOk_def by blast
  moreover have "distinct (map InstanceID (map (nodeTopology p requested) nodes))"
    using ok by (simp add: labelsOk_def nodeTopology_def comp_def)
  ultimately show ?thesis unfolding topologyOk_def by blast
qed

text \<open>
  C37. Topology from node labels. The provider returns a graph in which every usable node is the leaf at
  the end of the path of its switches, outermost first; the switches are those of its labels, one per
  configured key, and none of them has the ID of a requested node.
\<close>

theorem labels_placed:
  assumes listed: "GetNodes ctx listed = Inr nodes"
    and good: "good = filter (usable valid p (instanceNames cis)) nodes" and "good \<noteq> []"
    and ok: "labelsOk p (instanceNames cis) good"
    and fail: "lpOnMissingLabel p = ''fail'' \<longrightarrow>
      (\<forall>node \<in> set nodes. isSelected p (instanceNames cis) node \<longrightarrow> usable valid p (instanceNames cis) node)"
  shows "\<exists>h g r. GenerateTopologyConfig valid ctx listed p (Suc n) cis = Some (Inr (h, g)) \<and> Tiers g = Some r \<and>
    (\<forall>node \<in> set good. length (switchesOf p (instanceNames cis) node) = length (lpTopologyLabels p) \<and>
       set (switchesOf p (instanceNames cis) node) \<inter> set (gm_keys (instanceNames cis)) = {} \<and>
       nodeAt h r (rev (switchesOf p (instanceNames cis) node) @ [nodeInstance node]) (nodeInstance node)
         (strAt (instanceNames cis) (nodeInstance node)))"
proof -
  let ?req = "instanceNames cis"
  let ?elig = "eligibleMap ?req good" and ?topo = "map (nodeTopology p ?req) good"
  let ?cis = "[\<lparr>Region = [], Instances = ?elig\<rparr>]"
  have sel: "\<forall>node \<in> set good. isSelected p ?req node" using good by (simp add: usable_def)
  have tiers: "\<forall>node \<in> set nodes. usable valid p ?req node \<longrightarrow> tierList ?req (nodeValues p node) \<noteq> None"
    using nodeTopology_tiers(1) [OF ok] good by auto
  have loop: "labelLoop valid p ?req nodes \<lparr>lsEligible = [], lsTopo = NewClusterTopology\<rparr> = Some (Inr \<lparr>lsEligible = ?elig, lsTopo = ?topo\<rparr>)"
    using labelLoop_ok [OF tiers fail] good by (simp add: eligibleMap_def NewClusterTopology_def)
  obtain node where node: "node \<in> set good" using assms(3) by (cases good) auto
  have "?elig \<noteq> []" using eligible_get [of ?req good "[]" "nodeInstance node"] node by (auto simp: eligibleMap_def)
  then have run: "GenerateTopologyConfig valid ctx listed p (Suc n) cis = map_option Inr (ToGraph (Suc n) ?topo ?cis 0 False)"
    using listed loop by (simp add: GenerateTopologyConfig_def Let_def)
  obtain h g r where b: "ToGraph (Suc n) ?topo ?cis 0 False = Some (h, g)" "Tiers g = Some r"
    "\<forall>inst \<in> set ?topo. \<forall>name. gm_get (instanceNames ?cis) (InstanceID inst) = Some name \<longrightarrow>
       nodeAt h r (rev (chain 0 inst)) (InstanceID inst) name"
    using ToGraph_build [OF labels_topologyOk [OF ok sel], of n] by blast
  have "length (switchesOf p ?req node) = length (lpTopologyLabels p) \<and> set (switchesOf p ?req node) \<inter> set (gm_keys ?req) = {} \<and>
      nodeAt h r (rev (switchesOf p ?req node) @ [nodeInstance node]) (nodeInstance node) (strAt ?req (nodeInstance node))"
    if m: "node \<in> set good" for node
  proof (intro conjI)
    show len: "length (switchesOf p ?req node) = length (lpTopologyLabels p)"
      using nodeTopology_tiers(4) [OF ok m] by (simp add: nodeValues_def)
    have sw: "gm_get ?req i = None \<and> i \<noteq> []" if im: "i \<in> set (switchesOf p ?req node)" for i
    proof -
      obtain l where "l < length (switchesOf p ?req node)" "i = switchesOf p ?req node ! l" using im by (metis in_set_conv_nth)
      then have "switchID (drop l (nodeValues p node)) ?req = Some i"
        using nodeTopology_tiers(3,4) [OF ok m] by simp
      then show ?thesis using switchID_free [of "drop l (nodeValues p node)" ?req i] by auto
    qed
    then have "i \<notin> set (gm_keys ?req)" if "i \<in> set (switchesOf p ?req node)" for i
      using that by (simp add: map_of_eq_None_iff)
    then show "set (switchesOf p ?req node) \<inter> set (gm_keys ?req) = {}" by blast
    have t: "map tierID (FabricTiers (nodeTopology p ?req node)) = switchesOf p ?req node" by (rule nodeTopology_tiers(2) [OF ok m])
    have "chain 0 (nodeTopology p ?req node) = nodeInstance node # filter (\<lambda>i. i \<noteq> []) (switchesOf p ?req node)"
      by (simp add: chain_def tierIDs_def t [symmetric] map_map [symmetric] del: map_map) (simp add: nodeTopology_def)
    also have "filter (\<lambda>i. i \<noteq> []) (switchesOf p ?req node) = switchesOf p ?req node" using sw by (simp add: filter_id_conv)
    finally have "chain 0 (nodeTopology p ?req node) = nodeInstance node # switchesOf p ?req node" .
    moreover have "InstanceID (nodeTopology p ?req node) = nodeInstance node" by (simp add: nodeTopology_def)
    moreover have "gm_get (instanceNames ?cis) (nodeInstance node) = Some (strAt ?req (nodeInstance node))"
      using m by (simp add: eligible_names)
    ultimately show "nodeAt h r (rev (switchesOf p ?req node) @ [nodeInstance node]) (nodeInstance node) (strAt ?req (nodeInstance node))"
      using b(3) m by force
  qed
  then show ?thesis using run b(1,2) by auto
qed

section \<open>Example\<close>

definition rackNode :: "string \<Rightarrow> string \<Rightarrow> WatchedNode" where
  "rackNode name rack = \<lparr>kName = name, kLabels = [(''rack'', rack)], kAnnotations = [], deleted = False, nodeConditions = []\<rparr>"

definition rackParams :: labelParams where
  "rackParams = \<lparr>lpTopologyLabels = [''rack''], lpNodeSelector = [], lpRequireReady = False, lpOnMissingLabel = ''skip''\<rparr>"

definition rackRequest :: "ComputeInstances list" where
  "rackRequest = [\<lparr>Region = ''r'', Instances = [(''n1'', ''h1''), (''n2'', ''h2'')]\<rparr>]"

lemma saltedID_free: "\<forall>i \<in> set (gm_keys nodeIDs). take 7 i \<noteq> ''switch_'' \<Longrightarrow> switchID v nodeIDs = Some (saltedID v 0)"
proof -
  assume a: "\<forall>i \<in> set (gm_keys nodeIDs). take 7 i \<noteq> ''switch_''"
  have "take 7 (saltedID v 0) = ''switch_''" by (simp add: saltedID_def)
  then have "saltedID v 0 \<notin> set (gm_keys nodeIDs)" using a by blast
  then have "gm_get nodeIDs (saltedID v 0) = None" by (simp add: map_of_eq_None_iff)
  then show ?thesis by (simp add: switchID_def saltLoop.simps)
qed

theorem labels_placed_witness:
  "\<exists>h g r. GenerateTopologyConfig (\<lambda>_. []) None (Inr [rackNode ''n1'' ''a'', rackNode ''n2'' ''b'', rackNode ''n3'' ''b'']) rackParams 1
       rackRequest = Some (Inr (h, g)) \<and> Tiers g = Some r \<and>
     nodeAt h r [saltedID [''a''] 0, ''n1''] ''n1'' ''h1'' \<and> nodeAt h r [saltedID [''b''] 0, ''n2''] ''n2'' ''h2''"
proof -
  let ?nodes = "[rackNode ''n1'' ''a'', rackNode ''n2'' ''b'', rackNode ''n3'' ''b'']" and ?good = "[rackNode ''n1'' ''a'', rackNode ''n2'' ''b'']"
  let ?req = "instanceNames rackRequest"
  have req: "?req = [(''n1'', ''h1''), (''n2'', ''h2'')]" by code_simp
  have inst: "nodeInstance (rackNode n v) = n" for n v by (simp add: nodeInstance_def rackNode_def strAt_def)
  have good: "?good = filter (usable (\<lambda>_. []) rackParams ?req) ?nodes"
    unfolding req by (simp add: usable_def isSelected_def inst labelValues_def) (simp add: rackNode_def rackParams_def strAt_def)
  have sw: "switchID v ?req = Some (saltedID v 0)" for v by (rule saltedID_free) (simp add: req)
  have vals: "nodeValues rackParams (rackNode n v) = [v]" for n v by (simp add: nodeValues_def rackParams_def rackNode_def strAt_def)
  have diff: "saltedID [''a''] 0 \<noteq> saltedID [''b''] 0" by (simp add: saltedID_def trimRight_def)
  have ok: "labelsOk rackParams ?req ?good"
    unfolding labelsOk_def pathsOf_def using sw diff switchID_free(1) [OF sw]
    by (auto simp: inst vals) (simp_all add: req NoTopology_def)
  have listed: "GetNodes None (Inr ?nodes) = Inr ?nodes" by (simp add: GetNodes_def resolveNodeMetadata_def)
  have skip: "lpOnMissingLabel rackParams = ''fail'' \<longrightarrow>
      (\<forall>node \<in> set ?nodes. isSelected rackParams ?req node \<longrightarrow> usable (\<lambda>_. []) rackParams ?req node)"
    by (simp add: rackParams_def)
  have switches: "switchesOf rackParams ?req (rackNode n v) = [saltedID [v] 0]" for n v by (simp add: switchesOf_def vals sw)
  from labels_placed [OF listed good _ ok skip, of 0] show ?thesis
    by (simp add: switches inst) (auto simp: req strAt_def)
qed

end
