(* ===== verification/ObserverConfig.thy ===== *)
theory ObserverConfig
  imports Observer NodeLabels
begin

text \<open>
  Component \<open>pkg/node_observer\<close>, \<open>config.go\<close>, \<open>controller.go\<close> and \<open>health.go\<close>: the settings of the
  observer, the trigger it derives from them, and the wait for the API server at start.

  Reading and decoding the file is the argument \<open>parsed\<close>; the functions of the label provider are used
  with their own arguments. A label selector is reduced to whether it is configured.
\<close>

section \<open>Settings\<close>

record TriggerConfig =
  tcNodeLabels :: "string list option"
  tcNodeReadiness :: bool
  tcNodeSelector :: "(string, string) gomap"
  tcHasPodSelector :: bool

record APIServer =
  asNamespace :: string
  asHasPodSelector :: bool
  asContainerName :: string

record ObserverConfig =
  ocURL :: string
  ocHealthzPort :: int
  ocTrigger :: TriggerConfig
  ocAPIServer :: APIServer
  ocProviderName :: string
  ocProviderParams :: "(string, goValue) gomap"
  ocRetryDelay :: int

datatype observer_error =
  ParseFailed string
| MissingURL
| OcLabels nlabel_error
| OcKey meta_error
| SelectorMismatch
| NothingToWatch
| NegativePort

definition nodeLabelsName :: string where "nodeLabelsName = ''k8s-node-labels''"

text \<open>The functions of the provider that the trigger needs: its default labels and its parameters.\<close>

record labelProvider =
  lvLabels :: "(string, goValue) gomap \<Rightarrow> nlabel_error + string list"
  lvParams :: "(string, goValue) gomap \<Rightarrow> nlabel_error + labelParams"
  lvQualified :: "string \<Rightarrow> string list"

definition labelProviderOf ::
  "((string, goValue) gomap \<Rightarrow> labelParams \<Rightarrow> string + labelParams) \<Rightarrow> (string \<Rightarrow> string list) \<Rightarrow> (string \<Rightarrow> string list)
     \<Rightarrow> labelProvider" where
  "labelProviderOf decode isQualifiedName isValidLabelValue =
     \<lparr>lvLabels = NodeTopologyLabels decode isQualifiedName isValidLabelValue,
      lvParams = ParseParams decode isQualifiedName isValidLabelValue, lvQualified = isQualifiedName\<rparr>"

definition mapsEqual :: "(string, string) gomap \<Rightarrow> (string, string) gomap \<Rightarrow> bool" where
  "mapsEqual a b \<longleftrightarrow> length a = length b \<and> list_all (\<lambda>(k, v). gm_get b k = Some v) a"

definition defaultLabels :: "labelProvider \<Rightarrow> ObserverConfig \<Rightarrow> observer_error + string list" where
  "defaultLabels lp cfg =
     (case tcNodeLabels (ocTrigger cfg) of
        Some ls \<Rightarrow> Inr ls
      | None \<Rightarrow>
          if ocProviderName cfg = nodeLabelsName then map_sum OcLabels id (lvLabels lp (ocProviderParams cfg)) else Inr [])"

definition checkNodeLabel :: "labelProvider \<Rightarrow> string \<Rightarrow> unit \<Rightarrow> observer_error + unit" where
  "checkNodeLabel lp key _ =
     (case ValidateLabelKey (lvQualified lp) ''trigger.nodeLabels'' key of Some err \<Rightarrow> Inl (OcKey err) | None \<Rightarrow> Inr ())"

definition nodeTrigger :: "labelProvider \<Rightarrow> ObserverConfig \<Rightarrow> observer_error + Trigger" where
  "nodeTrigger lp cfg =
     (let tc = ocTrigger cfg
      in case defaultLabels lp cfg of
           Inl err \<Rightarrow> Inl err
         | Inr ls \<Rightarrow>
             (case foldE (checkNodeLabel lp) ls () of
                Inl err \<Rightarrow> Inl err
              | Inr _ \<Rightarrow>
                  if ocProviderName cfg = nodeLabelsName
                  then
                    (case lvParams lp (ocProviderParams cfg) of
                       Inl err \<Rightarrow> Inl (OcLabels err)
                     | Inr params \<Rightarrow>
                         if tcNodeSelector tc \<noteq> [] \<and> \<not> mapsEqual (tcNodeSelector tc) (lpNodeSelector params)
                         then Inl SelectorMismatch
                         else Inr \<lparr>tNodeLabels = ls, tNodeReadiness = tcNodeReadiness tc \<or> lpRequireReady params,
                                tNodeSelector = lpNodeSelector params, tHasPodSelector = tcHasPodSelector tc\<rparr>)
                  else Inr \<lparr>tNodeLabels = ls, tNodeReadiness = tcNodeReadiness tc, tNodeSelector = tcNodeSelector tc,
                         tHasPodSelector = tcHasPodSelector tc\<rparr>))"

definition watchesNothing :: "ObserverConfig \<Rightarrow> Trigger \<Rightarrow> bool" where
  "watchesNothing cfg t \<longleftrightarrow> tNodeSelector t = [] \<and> tNodeLabels t = [] \<and> \<not> tNodeReadiness t \<and> \<not> tHasPodSelector t \<and>
     \<not> asHasPodSelector (ocAPIServer cfg)"

definition NewConfigFromFile :: "labelProvider \<Rightarrow> string + ObserverConfig \<Rightarrow> observer_error + ObserverConfig" where
  "NewConfigFromFile lp parsed =
     (case parsed of
        Inl err \<Rightarrow> Inl (ParseFailed err)
      | Inr cfg0 \<Rightarrow>
          if ocURL cfg0 = [] then Inl MissingURL
          else
            (let api = ocAPIServer cfg0;
                 cfg = (if asHasPodSelector api \<and> asContainerName api = []
                        then cfg0\<lparr>ocAPIServer := api\<lparr>asContainerName := ''topograph''\<rparr>\<rparr> else cfg0)
             in case nodeTrigger lp cfg of
                  Inl err \<Rightarrow> Inl err
                | Inr t \<Rightarrow>
                    if watchesNothing cfg t then Inl NothingToWatch
                    else if ocHealthzPort cfg < 0 then Inl NegativePort
                    else Inr (if ocRetryDelay cfg = 0 then cfg\<lparr>ocRetryDelay := defaultRetryDelay\<rparr> else cfg)))"

text \<open>
  \<open>NewController\<close>: the trigger is derived again and handed to the informer. The two selectors are
  converted when configured; \<open>convert\<close> gives the error, if any.
\<close>

definition NewController ::
  "labelProvider \<Rightarrow> string option \<Rightarrow> string option \<Rightarrow> string \<Rightarrow> string \<Rightarrow> ObserverConfig
     \<Rightarrow> (observer_error + string) + informerConfig" where
  "NewController lp podConvert apiConvert brokerName brokerNamespace cfg =
     (case nodeTrigger lp cfg of
        Inl err \<Rightarrow> Inl (Inl err)
      | Inr t \<Rightarrow>
          map_sum Inr id
            (NewStatusInformer (Some t)
              (if tHasPodSelector t then Some (case podConvert of Some err \<Rightarrow> Inl err | None \<Rightarrow> Inr ()) else None)
              (if asHasPodSelector (ocAPIServer cfg) then Some (case apiConvert of Some err \<Rightarrow> Inl err | None \<Rightarrow> Inr ()) else None)
              (asContainerName (ocAPIServer cfg)) brokerName brokerNamespace (ocRetryDelay cfg) True))"

section \<open>The wait at start\<close>

text \<open>
  \<open>waitForTopograph\<close>: one entry per probe, whether the probe succeeded and whether the context was done
  before the timer fired. \<open>Some True\<close> is success, \<open>Some False\<close> the timeout, \<open>None\<close> that it still waits.
\<close>

fun waitForTopograph :: "(bool \<times> bool) list \<Rightarrow> bool option" where
  "waitForTopograph [] = None"
| "waitForTopograph ((ready, done') # rest) =
     (if ready then Some True else if done' then Some False else waitForTopograph rest)"

section \<open>An accepted configuration has something to watch\<close>

lemma nodeTrigger_container: "nodeTrigger lp (cfg\<lparr>ocAPIServer := api\<rparr>) = nodeTrigger lp cfg"
  by (cases cfg) (auto simp: nodeTrigger_def defaultLabels_def Let_def split: sum.splits option.splits)

lemma nodeTrigger_delay: "nodeTrigger lp (cfg\<lparr>ocRetryDelay := d\<rparr>) = nodeTrigger lp cfg"
  by (cases cfg) (auto simp: nodeTrigger_def defaultLabels_def Let_def split: sum.splits option.splits)

text \<open>
  The controller built from an accepted configuration has a node, pod or API informer that is
  configured, a positive delay between retries unless a negative one was given, and for an API
  informer a container name.
\<close>

lemma accepted_config_watches:
  assumes "NewConfigFromFile lp parsed = Inr cfg" and "NewController lp podC apiC bn bns cfg = Inr ic"
  shows "(icNodes ic \<or> icPods ic \<or> icAPI ic) \<and> 0 < icRetryDelay ic \<and> (icAPI ic \<longrightarrow> icContainerName ic \<noteq> [])"
proof -
  obtain t where t: "nodeTrigger lp cfg = Inr t" "\<not> watchesNothing cfg t"
    "asHasPodSelector (ocAPIServer cfg) \<longrightarrow> asContainerName (ocAPIServer cfg) \<noteq> []"
    using assms(1)
    by (auto simp: NewConfigFromFile_def Let_def nodeTrigger_delay nodeTrigger_container watchesNothing_def
        split: sum.splits if_splits)
  have d: "0 < defaultRetryDelay" by (simp add: defaultRetryDelay_def)
  show ?thesis
    using assms(2) t d
    by (auto simp: NewController_def NewStatusInformer_def Let_def watchesNothing_def split: sum.splits option.splits if_splits)
qed

end
