(* ===== verification/Accelerator.thy ===== *)
theory Accelerator
  imports KubeNodes Domains
begin

text \<open>
  Component \<open>pkg/accelerator\<close>: the discovery of accelerator domains. A discoverer maps targets (nodes)
  to domains; it reads a label or an annotation of the node, or the output of \<open>nvidia-smi\<close>, or
  finds nothing.

  Arguments of the model: the JSON decoder, the decoder of configuration sections, and the runner
  that executes the command on the nodes.

  Sources and settings are ASCII text; lower case is that of the ASCII letters.
\<close>

section \<open>Model\<close>

text \<open>The value of a section: absent, null, an object (with its number of fields), or something else.\<close>

datatype sectionValue = SNull | SObject "(string \<times> string) list" | SOther

record Section =
  secValue :: sectionValue
  secPresent :: bool

record AccConfig =
  acSource :: string
  acLabelKey :: string
  acNamespace :: string
  acDaemonSet :: string

datatype acc_error =
  SectionNotObject
| SectionDecode string
| ConfigDecode string
| NoLabelKey
| SourceMissing
| SourceUnsupported string
| NotByCommand string
| CommandFailed string
| BadOutput string acc_error
| NoPartition
| Ambiguous "string list"
| BadLine string
| NoClusterUUID
| ClusterUUIDNA
| NoCliqueId
| CliqueIdNA
| RunnerMissing
| ClientMissing
| RestConfigMissing
| PodCount nat

definition SourceNvidiaSMI :: string where "SourceNvidiaSMI = ''nvidia-smi''"
definition SourceKubernetesLabel :: string where "SourceKubernetesLabel = ''kubernetes-label''"
definition SourceNone :: string where "SourceNone = ''none''"
definition KeyGpuClusterID :: string where "KeyGpuClusterID = ''topograph.run/cluster-id''"

subsection \<open>Sections and configuration\<close>

definition KubernetesLabelSection :: "string \<Rightarrow> Section" where
  "KubernetesLabelSection key =
     \<lparr>secValue = SObject [(''source'', SourceKubernetesLabel), (''kubernetesLabel.key'', key)], secPresent = True\<rparr>"

definition Present :: "Section \<Rightarrow> bool" where
  "Present s = secPresent s"

definition SectionFromProviderParams :: "(string, sectionValue) gomap \<Rightarrow> Section" where
  "SectionFromProviderParams providerParams =
     (case gm_get providerParams ''accelerator'' of
        Some v \<Rightarrow> \<lparr>secValue = v, secPresent = True\<rparr>
      | None \<Rightarrow> \<lparr>secValue = SNull, secPresent = False\<rparr>)"

definition DecodeSection :: "(string \<Rightarrow> string + sectionValue) \<Rightarrow> string \<Rightarrow> acc_error + Section" where
  "DecodeSection unmarshal encoded =
     (if TrimSpace encoded = [] then Inr \<lparr>secValue = SNull, secPresent = False\<rparr>
      else
        (case unmarshal encoded of
           Inl err \<Rightarrow> Inl (SectionDecode err)
         | Inr v \<Rightarrow> Inr \<lparr>secValue = v, secPresent = True\<rparr>))"

definition orDefault :: "string \<Rightarrow> string \<Rightarrow> string" where
  "orDefault s d = (if TrimSpace s = [] then d else TrimSpace s)"

definition SetDefaults :: "AccConfig \<Rightarrow> AccConfig" where
  "SetDefaults c =
     \<lparr>acSource = lowerBytes (TrimSpace (acSource c)), acLabelKey = TrimSpace (acLabelKey c),
      acNamespace = orDefault (acNamespace c) ''gpu-operator'',
      acDaemonSet = orDefault (acDaemonSet c) ''nvidia-device-plugin-daemonset''\<rparr>"

definition ValidateSource :: "string \<Rightarrow> acc_error option" where
  "ValidateSource source =
     (if source = [] then Some SourceMissing
      else if source = SourceNvidiaSMI \<or> source = SourceNone then None
      else if source = SourceKubernetesLabel then None
      else Some (SourceUnsupported source))"

definition ValidateConfig :: "AccConfig \<Rightarrow> acc_error option" where
  "ValidateConfig c =
     (case ValidateSource (acSource c) of
        Some err \<Rightarrow> Some err
      | None \<Rightarrow> if acSource c = SourceKubernetesLabel \<and> TrimSpace (acLabelKey c) = [] then Some NoLabelKey else None)"

definition ParseConfig :: "((string \<times> string) list \<Rightarrow> AccConfig \<Rightarrow> string + AccConfig) \<Rightarrow> Section \<Rightarrow> acc_error + AccConfig" where
  "ParseConfig decode sec =
     (let none = \<lparr>acSource = SourceNone, acLabelKey = [], acNamespace = [], acDaemonSet = []\<rparr>;
          empty = none\<lparr>acSource := []\<rparr>
      in if \<not> secPresent sec then Inr (SetDefaults none)
         else
           (case secValue sec of
              SObject flds \<Rightarrow>
                (case (if flds \<noteq> [] then decode flds empty else Inr none) of
                   Inl err \<Rightarrow> Inl (ConfigDecode err)
                 | Inr c \<Rightarrow>
                     (case ValidateConfig (SetDefaults c) of
                        Some err \<Rightarrow> Inl err
                      | None \<Rightarrow> Inr (SetDefaults c)))
            | _ \<Rightarrow> Inl SectionNotObject))"

subsection \<open>Discovery\<close>

record Target =
  tInstanceID :: string
  tHostName :: string
  tLabels :: "(string, string) gomap"
  tAnnotations :: "(string, string) gomap"

record Assignment =
  aDomainID :: string
  aSubDomainID :: string

type_synonym Assignments = "(string, Assignment) gomap"

definition TargetsFromComputeInstances :: "ComputeInstances list \<Rightarrow> Target list" where
  "TargetsFromComputeInstances instances =
     concat (map (\<lambda>ci. map (\<lambda>(instanceID, hostName).
       \<lparr>tInstanceID = instanceID, tHostName = hostName, tLabels = [], tAnnotations = []\<rparr>) (Instances ci)) instances)"

definition addAssigned :: "Assignments \<Rightarrow> Target \<Rightarrow> DomainMap \<Rightarrow> DomainMap" where
  "addAssigned assignments target m =
     (case gm_get assignments (tInstanceID target) of
        None \<Rightarrow> m
      | Some a \<Rightarrow> AddHostInfo (Some \<lparr>Domain = aDomainID a, hostInstanceID = tInstanceID target, HostName = tHostName target,
          SubDomain = aSubDomainID a\<rparr>) m)"

definition DomainMapFromAssignments :: "Assignments \<Rightarrow> Target list \<Rightarrow> DomainMap" where
  "DomainMapFromAssignments assignments targets = fold (addAssigned assignments) targets NewDomainMap"

text \<open>The discoverers: metadata of the node, the output of a command, or nothing.\<close>

type_synonym runner = "Target list \<Rightarrow> string + (string, string) gomap"

datatype discoverer = LabelDiscoverer string | AnnotationDiscoverer string | CommandDiscoverer runner | NoneDiscoverer

fun metaValue :: "discoverer \<Rightarrow> Target \<Rightarrow> string" where
  "metaValue (LabelDiscoverer key) t = strAt (tLabels t) key"
| "metaValue (AnnotationDiscoverer key) t = strAt (tAnnotations t) key"
| "metaValue _ t = []"

definition metadataOf :: "(Target \<Rightarrow> string) \<Rightarrow> Target \<Rightarrow> Assignments \<Rightarrow> Assignments" where
  "metadataOf val target assignments =
     (let domainID = TrimSpace (val target)
      in if domainID = [] then assignments
         else gm_put (tInstanceID target) \<lparr>aDomainID = domainID, aSubDomainID = []\<rparr> assignments)"

definition NewKubernetesDiscovererFromConfig :: "AccConfig \<Rightarrow> acc_error + discoverer" where
  "NewKubernetesDiscovererFromConfig config =
     (case ValidateConfig config of
        Some err \<Rightarrow> Inl err
      | None \<Rightarrow>
          if acSource config = SourceNvidiaSMI then Inr (AnnotationDiscoverer KeyGpuClusterID)
          else if acSource config = SourceKubernetesLabel then Inr (LabelDiscoverer (acLabelKey config))
          else if acSource config = SourceNone then Inr NoneDiscoverer
          else Inl (SourceUnsupported (acSource config)))"

definition NewKubernetesDiscoverer ::
  "((string \<times> string) list \<Rightarrow> AccConfig \<Rightarrow> string + AccConfig) \<Rightarrow> Section \<Rightarrow> acc_error + discoverer" where
  "NewKubernetesDiscoverer decode sec =
     (case ParseConfig decode sec of Inl err \<Rightarrow> Inl err | Inr config \<Rightarrow> NewKubernetesDiscovererFromConfig config)"

subsection \<open>nvidia-smi\<close>

definition parseNVLPartitionID :: "string \<Rightarrow> acc_error + string" where
  "parseNVLPartitionID line =
     (case split_on CHR '','' line of
        [a, b] \<Rightarrow>
          (let clusterUUID = TrimSpace a; cliqueID = TrimSpace b
           in if clusterUUID = [] then Inl NoClusterUUID
              else if clusterUUID = ''N/A'' then Inl ClusterUUIDNA
              else if cliqueID = [] then Inl NoCliqueId
              else if cliqueID = ''N/A'' then Inl CliqueIdNA
              else Inr (clusterUUID @ ''.'' @ cliqueID))
      | _ \<Rightarrow> Inl (BadLine line))"

text \<open>\<open>strings.Lines\<close>: the lines with their line ends, which the trimming removes.\<close>

definition linesOf :: "string \<Rightarrow> string list" where
  "linesOf s = split_on newline s"

definition addPartition :: "string \<Rightarrow> string list \<Rightarrow> acc_error + string list" where
  "addPartition line partitions =
     (let line = TrimSpace line
      in if line = [] then Inr partitions
         else
           (case parseNVLPartitionID line of
              Inl err \<Rightarrow> Inl err
            | Inr p \<Rightarrow> Inr (if p \<in> set partitions then partitions else partitions @ [p])))"

definition ParseNvidiaSMIOutput :: "string \<Rightarrow> acc_error + string" where
  "ParseNvidiaSMIOutput output =
     (case foldE addPartition (linesOf output) [] of
        Inl err \<Rightarrow> Inl err
      | Inr [] \<Rightarrow> Inl NoPartition
      | Inr [p] \<Rightarrow> Inr p
      | Inr ps \<Rightarrow> Inl (Ambiguous (sort ps)))"

definition assignOutput :: "(string, string) gomap \<Rightarrow> Target \<Rightarrow> Assignments \<Rightarrow> acc_error + Assignments" where
  "assignOutput outputs target assignments =
     (let output = TrimSpace (strAt outputs (tHostName target))
      in if output = [] then Inr assignments
         else
           (case ParseNvidiaSMIOutput output of
              Inl err \<Rightarrow> Inl (BadOutput (tHostName target) err)
            | Inr partitionID \<Rightarrow> Inr (gm_put (tInstanceID target) \<lparr>aDomainID = partitionID, aSubDomainID = []\<rparr> assignments)))"

definition Discover :: "discoverer \<Rightarrow> Target list \<Rightarrow> acc_error + Assignments" where
  "Discover d targets =
     (case d of
        LabelDiscoverer key \<Rightarrow> Inr (fold (metadataOf (metaValue d)) targets [])
      | AnnotationDiscoverer key \<Rightarrow> Inr (fold (metadataOf (metaValue d)) targets [])
      | CommandDiscoverer run \<Rightarrow>
          (case run targets of
             Inl err \<Rightarrow> Inl (CommandFailed err)
           | Inr outputs \<Rightarrow> foldE (assignOutput outputs) targets [])
      | NoneDiscoverer \<Rightarrow> Inr [])"

definition NewNvidiaSMIDiscoverer :: "AccConfig \<Rightarrow> runner option \<Rightarrow> acc_error + discoverer" where
  "NewNvidiaSMIDiscoverer config0 run =
     (let config = SetDefaults config0
      in case ValidateConfig config of
           Some err \<Rightarrow> Inl err
         | None \<Rightarrow>
             if acSource config \<noteq> SourceNvidiaSMI then Inl (NotByCommand (acSource config))
             else (case run of None \<Rightarrow> Inl RunnerMissing | Some r \<Rightarrow> Inr (CommandDiscoverer r)))"

definition NewCommandDiscoverer ::
  "((string \<times> string) list \<Rightarrow> AccConfig \<Rightarrow> string + AccConfig) \<Rightarrow> Section \<Rightarrow> runner option \<Rightarrow> acc_error + discoverer" where
  "NewCommandDiscoverer decode sec run =
     (case ParseConfig decode sec of
        Inl err \<Rightarrow> Inl err
      | Inr config \<Rightarrow>
          if acSource config = SourceNvidiaSMI then NewNvidiaSMIDiscoverer config run
          else if acSource config = SourceNone then Inr NoneDiscoverer
          else Inl (NotByCommand (acSource config)))"

subsection \<open>Kubernetes\<close>

definition BaseKubernetesNodeAnnotations :: "string \<Rightarrow> (string, string) gomap" where
  "BaseKubernetesNodeAnnotations hostName = [(KeyNodeInstance, hostName), (KeyNodeRegion, ''local'')]"

definition instancesByRegion :: "ComputeInstances list \<Rightarrow> (string, (string, string) gomap) gomap" where
  "instancesByRegion instances = fold (\<lambda>ci. gm_put (Region ci) (Instances ci)) instances []"

definition targetOf :: "(string, (string, string) gomap) gomap \<Rightarrow> KNode \<Rightarrow> Target option" where
  "targetOf byRegion node =
     (let instanceID = TrimSpace (strAt (kAnnotations node) KeyNodeInstance);
          region = TrimSpace (strAt (kAnnotations node) KeyNodeRegion)
      in if instanceID = [] \<or> region = [] then None
         else
           (case gm_get byRegion region of
              None \<Rightarrow> None
            | Some regional \<Rightarrow>
                (case gm_get regional instanceID of
                   None \<Rightarrow> None
                 | Some hostName \<Rightarrow> Some \<lparr>tInstanceID = instanceID, tHostName = hostName, tLabels = kLabels node,
                     tAnnotations = kAnnotations node\<rparr>)))"

definition TargetsFromKubernetesNodes :: "KNode list \<Rightarrow> ComputeInstances list \<Rightarrow> Target list" where
  "TargetsFromKubernetesNodes nodes instances = List.map_filter (targetOf (instancesByRegion instances)) nodes"

definition DiscoverKubernetesDomains :: "discoverer \<Rightarrow> KNode list \<Rightarrow> ComputeInstances list \<Rightarrow> acc_error + DomainMap" where
  "DiscoverKubernetesDomains d nodes instances =
     (let targets = TargetsFromKubernetesNodes nodes instances
      in case Discover d targets of
           Inl err \<Rightarrow> Inl err
         | Inr assignments \<Rightarrow> Inr (DomainMapFromAssignments assignments targets))"

text \<open>The runner of the broker: the pods of the daemon set on a node, and the execution in one of them, are arguments.\<close>

definition runOn ::
  "(string \<Rightarrow> string + string list) \<Rightarrow> (string \<Rightarrow> string + string) \<Rightarrow> Target \<Rightarrow> (string, string) gomap
     \<Rightarrow> acc_error + (string, string) gomap" where
  "runOn pods exec target outputs =
     (case pods (tHostName target) of
        Inl err \<Rightarrow> Inl (CommandFailed err)
      | Inr [] \<Rightarrow> Inr outputs
      | Inr [pod] \<Rightarrow>
          (case exec pod of Inl err \<Rightarrow> Inl (CommandFailed err) | Inr out \<Rightarrow> Inr (gm_put (tHostName target) out outputs))
      | Inr ps \<Rightarrow> Inl (PodCount (length ps)))"

definition RunNvidiaSMI ::
  "(string \<Rightarrow> string + string list) \<Rightarrow> (string \<Rightarrow> string + string) \<Rightarrow> Target list \<Rightarrow> acc_error + (string, string) gomap" where
  "RunNvidiaSMI pods exec targets = foldE (runOn pods exec) targets []"

definition NewKubernetesNodeDiscoverer ::
  "((string \<times> string) list \<Rightarrow> AccConfig \<Rightarrow> string + AccConfig) \<Rightarrow> Section \<Rightarrow> bool \<Rightarrow> bool \<Rightarrow> runner
     \<Rightarrow> acc_error + discoverer" where
  "NewKubernetesNodeDiscoverer decode sec hasClient hasConfig run =
     (case ParseConfig decode sec of
        Inl err \<Rightarrow> Inl err
      | Inr config \<Rightarrow>
          if acSource config = SourceNvidiaSMI
          then if \<not> hasClient then Inl ClientMissing
               else if \<not> hasConfig then Inl RestConfigMissing
               else NewNvidiaSMIDiscoverer config (Some run)
          else if acSource config = SourceKubernetesLabel \<or> acSource config = SourceNone then Inr NoneDiscoverer
          else Inl (SourceUnsupported (acSource config)))"

section \<open>Output of nvidia-smi\<close>

lemma addPartition_fold:
  assumes "foldE addPartition ls ps = Inr qs"
  shows "(\<forall>l \<in> set ls. TrimSpace l \<noteq> [] \<longrightarrow> (\<exists>p. parseNVLPartitionID (TrimSpace l) = Inr p)) \<and>
    set qs = set ps \<union> {p. \<exists>l \<in> set ls. TrimSpace l \<noteq> [] \<and> parseNVLPartitionID (TrimSpace l) = Inr p} \<and>
    (distinct ps \<longrightarrow> distinct qs)"
  using assms
proof (induction ls arbitrary: ps)
  case (Cons l ls)
  then obtain ps' where "addPartition l ps = Inr ps'" and "foldE addPartition ls ps' = Inr qs"
    by (auto split: sum.splits)
  then have "(\<forall>l \<in> set ls. TrimSpace l \<noteq> [] \<longrightarrow> (\<exists>p. parseNVLPartitionID (TrimSpace l) = Inr p)) \<and>
      set qs = set ps' \<union> {p. \<exists>l \<in> set ls. TrimSpace l \<noteq> [] \<and> parseNVLPartitionID (TrimSpace l) = Inr p} \<and>
      (distinct ps' \<longrightarrow> distinct qs)"
    and "TrimSpace l = [] \<and> ps' = ps \<or>
      (\<exists>p. TrimSpace l \<noteq> [] \<and> parseNVLPartitionID (TrimSpace l) = Inr p \<and> set ps' = insert p (set ps) \<and>
        (distinct ps \<longrightarrow> distinct ps'))"
    using Cons.IH [of ps'] by (simp, auto simp: addPartition_def Let_def split: if_splits sum.splits)
  then show ?case by fastforce
qed simp

lemma addPartition_total:
  assumes "\<forall>l \<in> set ls. TrimSpace l \<noteq> [] \<longrightarrow> (\<exists>p. parseNVLPartitionID (TrimSpace l) = Inr p)"
  shows "\<exists>qs. foldE addPartition ls ps = Inr qs"
  using assms by (induction ls arbitrary: ps) (fastforce simp: addPartition_def Let_def)+

lemma distinct_singleton: "distinct qs \<Longrightarrow> set qs = {p} \<Longrightarrow> qs = [p]"
  by (cases qs rule: remdups_adj.cases) auto

lemma ParseNvidiaSMIOutput_Inr:
  "ParseNvidiaSMIOutput output = Inr p \<longleftrightarrow> foldE addPartition (linesOf output) [] = Inr [p]"
  by (auto simp: ParseNvidiaSMIOutput_def split: sum.splits list.splits)

text \<open>
  The output of \<open>nvidia-smi\<close> is accepted with a partition exactly if it has a line that is not
  blank and every such line names that partition: a malformed line, a missing field or a second
  partition is an error.
\<close>

theorem ParseNvidiaSMIOutput_exact:
  "ParseNvidiaSMIOutput output = Inr p \<longleftrightarrow>
     (\<exists>l \<in> set (linesOf output). TrimSpace l \<noteq> []) \<and>
     (\<forall>l \<in> set (linesOf output). TrimSpace l \<noteq> [] \<longrightarrow> parseNVLPartitionID (TrimSpace l) = Inr p)"
  (is "?lhs \<longleftrightarrow> ?rhs")
proof
  assume ?lhs
  then have "foldE addPartition (linesOf output) [] = Inr [p]" by (simp add: ParseNvidiaSMIOutput_Inr)
  from addPartition_fold [OF this] show ?rhs by (simp add: set_eq_iff) (metis Inr_inject)
next
  assume r: ?rhs
  then obtain qs where qs: "foldE addPartition (linesOf output) [] = Inr qs"
    using addPartition_total [of "linesOf output" "[]"] by blast
  have "{p'. \<exists>l \<in> set (linesOf output). TrimSpace l \<noteq> [] \<and> parseNVLPartitionID (TrimSpace l) = Inr p'} = {p}"
    using r by fastforce
  with addPartition_fold [OF qs] have "qs = [p]" by (intro distinct_singleton) auto
  with qs show ?lhs by (simp add: ParseNvidiaSMIOutput_Inr)
qed

text \<open>A line is accepted exactly if it has two fields and neither is empty or \<open>N/A\<close>.\<close>

lemma parseNVLPartitionID_exact:
  "parseNVLPartitionID line = Inr p \<longleftrightarrow>
     (\<exists>a b. split_on CHR '','' line = [a, b] \<and> TrimSpace a \<notin> {[], ''N/A''} \<and> TrimSpace b \<notin> {[], ''N/A''} \<and>
        p = TrimSpace a @ ''.'' @ TrimSpace b)"
  by (auto simp: parseNVLPartitionID_def Let_def split: list.splits if_splits)

section \<open>Domains from node metadata\<close>

lemma get_metadataOf:
  assumes "distinct (map tInstanceID ts)"
  shows "gm_get (fold (metadataOf val) ts m) i =
    (case find (\<lambda>t. tInstanceID t = i \<and> TrimSpace (val t) \<noteq> []) ts of
       Some t \<Rightarrow> Some \<lparr>aDomainID = TrimSpace (val t), aSubDomainID = []\<rparr> | None \<Rightarrow> gm_get m i)"
  using assms
proof (induction ts arbitrary: m)
  case (Cons t ts)
  have "find (\<lambda>u. tInstanceID u = i \<and> TrimSpace (val u) \<noteq> []) ts = None" if "tInstanceID t = i"
    using Cons.prems that by (auto simp: find_None_iff image_iff)
  then show ?case using Cons by (auto simp: metadataOf_def Let_def split: option.splits)
qed simp

definition assignedHost :: "(Target \<Rightarrow> string) \<Rightarrow> Target \<Rightarrow> HostInfo option" where
  "assignedHost val t =
     (if TrimSpace (val t) = [] then None
      else Some \<lparr>Domain = TrimSpace (val t), hostInstanceID = tInstanceID t, HostName = tHostName t, SubDomain = []\<rparr>)"

lemma get_metadataOf_mem:
  assumes "distinct (map tInstanceID ts)" and "t \<in> set ts"
  shows "gm_get (fold (metadataOf val) ts []) (tInstanceID t) =
    (if TrimSpace (val t) = [] then None else Some \<lparr>aDomainID = TrimSpace (val t), aSubDomainID = []\<rparr>)"
proof -
  have same: "u = t" if "u \<in> set ts" "tInstanceID u = tInstanceID t" for u
    using assms that by (auto simp: distinct_map dest: inj_onD)
  show ?thesis
  proof (cases "find (\<lambda>u. tInstanceID u = tInstanceID t \<and> TrimSpace (val u) \<noteq> []) ts")
    case None
    then have "TrimSpace (val t) = []" using assms(2) by (auto simp: find_None_iff)
    then show ?thesis using None by (simp add: get_metadataOf [OF assms(1)])
  next
    case (Some u)
    then have "u \<in> set ts" "tInstanceID u = tInstanceID t" "TrimSpace (val u) \<noteq> []" by (auto simp: find_Some_iff)
    then show ?thesis using same [of u] Some by (simp add: get_metadataOf [OF assms(1)])
  qed
qed

lemma DomainMapFromAssignments_metadata:
  assumes "distinct (map tInstanceID ts)"
  shows "DomainMapFromAssignments (fold (metadataOf val) ts []) ts =
    fold (AddHostInfo \<circ> Some) (List.map_filter (assignedHost val) ts) []"
proof -
  have "addAssigned (fold (metadataOf val) ts []) t = AddHostInfo (assignedHost val t)" if "t \<in> set ts" for t
    using get_metadataOf_mem [OF assms that, of val]
    by (auto simp: addAssigned_def assignedHost_def AddHostInfo_def [of None])
  then have "DomainMapFromAssignments (fold (metadataOf val) ts []) ts = fold (AddHostInfo \<circ> assignedHost val) ts []"
    unfolding DomainMapFromAssignments_def NewDomainMap_def by (intro fold_cong [OF refl refl]) simp
  then show ?thesis by (simp only: fold_AddHostInfo_filter [of "assignedHost val"])
qed

lemma assignedHosts_distinct:
  "distinct (map tHostName ts) \<Longrightarrow> distinct (map HostName (List.map_filter (assignedHost val) ts))"
  by (induction ts) (auto simp: List.map_filter_simps assignedHost_def map_filter_def split: option.splits if_splits)

text \<open>
  When the targets have distinct instance IDs and host names, the domains found from the metadata of
  the nodes are exactly those of the targets whose value is not blank.
\<close>

theorem DiscoverKubernetesDomains_exact:
  assumes "distinct (map tInstanceID (TargetsFromKubernetesNodes nodes instances))"
    and "distinct (map tHostName (TargetsFromKubernetesNodes nodes instances))"
    and "d \<in> {LabelDiscoverer key, AnnotationDiscoverer key}"
  shows "\<exists>m. DiscoverKubernetesDomains d nodes instances = Inr m \<and>
    (\<forall>dom n h. lookupHost m dom n = Some h \<longleftrightarrow>
      (\<exists>t \<in> set (TargetsFromKubernetesNodes nodes instances).
         TrimSpace (metaValue d t) = dom \<and> dom \<noteq> [] \<and> tHostName t = n \<and>
         h = \<lparr>Domain = dom, hostInstanceID = tInstanceID t, HostName = n, SubDomain = []\<rparr>))"
proof -
  let ?ts = "TargetsFromKubernetesNodes nodes instances"
  let ?hs = "List.map_filter (assignedHost (metaValue d)) ?ts"
  have "DiscoverKubernetesDomains d nodes instances = Inr (fold (AddHostInfo \<circ> Some) ?hs [])"
    using assms(3) DomainMapFromAssignments_metadata [OF assms(1), of "metaValue d"]
    by (auto simp: DiscoverKubernetesDomains_def Discover_def Let_def)
  moreover have "\<forall>h \<in> set ?hs. Domain h \<noteq> []"
    by (auto simp: map_filter_def assignedHost_def split: if_splits)
  ultimately show ?thesis
    using fold_AddHostInfo_exact [OF assignedHosts_distinct [OF assms(2)], of "metaValue d"]
    by (auto simp: map_filter_def assignedHost_def split: if_splits)
qed

definition demoKNode :: KNode where
  "demoKNode = \<lparr>kName = ''k1'', kLabels = [(''clique'', ''d1'')],
     kAnnotations = [(KeyNodeInstance, ''i1''), (KeyNodeRegion, ''local'')]\<rparr>"

end
