(* ===== verification/IbParse.thy ===== *)
theory IbParse
  imports GoText "HOL-Library.Monad_Syntax"
begin

text \<open>
  Component \<open>pkg/ib\<close>, parsing: the output of \<open>ibnetdiscover\<close> and the names of hosts. The regular
  expressions of the source are written as scanners: in each of them a repetition ends at a character
  it cannot match, so that there is one way to match and no backtracking.
\<close>

section \<open>Regular expressions\<close>

abbreviation quote :: char where "quote \<equiv> char_of (34 :: nat)"

definition lit :: "string \<Rightarrow> string \<Rightarrow> string option" where
  "lit p s = (if hasPrefix s p then Some (drop (length p) s) else None)"

text \<open>\<open>c+\<close> for a class of characters; the text matched and the rest.\<close>

definition many1 :: "(char \<Rightarrow> bool) \<Rightarrow> string \<Rightarrow> (string \<times> string) option" where
  "many1 P s = (let t = takeWhile P s in if t = [] then None else Some (t, dropWhile P s))"

definition quoted :: "string \<Rightarrow> (string \<times> string) option" where
  "quoted s =
     do { s \<leftarrow> lit [quote] s;
          (t, s) \<leftarrow> many1 (\<lambda>c. c \<noteq> quote) s;
          s \<leftarrow> lit [quote] s;
          Some (t, s) }"

definition isHexLower :: "char \<Rightarrow> bool" where
  "isHexLower c \<longleftrightarrow> is_digit c \<or> (97 \<le> (of_char c :: nat) \<and> (of_char c :: nat) \<le> 102)"

definition reEmptyLine :: "string \<Rightarrow> bool" where
  "reEmptyLine line = list_all reSpace line"

text \<open>The expressions \<open>reHCA\<close> and \<open>reSwitch\<close>, which differ in the first word.\<close>

definition reEntry :: "string \<Rightarrow> string \<Rightarrow> (string \<times> string) option" where
  "reEntry word line =
     do { s \<leftarrow> lit word line;
          (_, s) \<leftarrow> many1 reSpace s;
          (_, s) \<leftarrow> many1 is_digit s;
          (_, s) \<leftarrow> many1 reSpace s;
          (ident, s) \<leftarrow> quoted s;
          (_, s) \<leftarrow> many1 reSpace s;
          s \<leftarrow> lit ''# '' s;
          (name, _) \<leftarrow> quoted s;
          Some (ident, name) }"

definition reHCA :: "string \<Rightarrow> (string \<times> string) option" where "reHCA = reEntry ''Ca''"
definition reSwitch :: "string \<Rightarrow> (string \<times> string) option" where "reSwitch = reEntry ''Switch''"

definition bracketed :: "string \<Rightarrow> string option" where
  "bracketed s = do { s \<leftarrow> lit ''['' s; (_, s) \<leftarrow> many1 is_digit s; lit '']'' s }"

definition guid :: "string \<Rightarrow> string option" where
  "guid s =
     (if hasPrefix s ''('' then do { s \<leftarrow> lit ''('' s; (_, s) \<leftarrow> many1 isHexLower s; lit '')'' s } else Some s)"

definition reConn :: "string \<Rightarrow> (string \<times> string) option" where
  "reConn line =
     do { s \<leftarrow> bracketed line;
          (_, s) \<leftarrow> many1 reSpace s;
          (ident, s) \<leftarrow> quoted s;
          s \<leftarrow> bracketed s;
          s \<leftarrow> guid s;
          (_, s) \<leftarrow> many1 reSpace s;
          s \<leftarrow> lit ''# '' s;
          (name, _) \<leftarrow> quoted s;
          Some (ident, name) }"

definition nameChar :: "char \<Rightarrow> bool" where
  "nameChar c \<longleftrightarrow> c \<noteq> CHR '';'' \<and> c \<noteq> CHR '':''"

definition reSwitchName :: "string \<Rightarrow> string option" where
  "reSwitchName s =
     do { (_, s) \<leftarrow> many1 nameChar s;
          s \<leftarrow> lit '';'' s;
          (name, s) \<leftarrow> many1 nameChar s;
          s \<leftarrow> lit '':'' s;
          (_, s) \<leftarrow> many1 nameChar s;
          if s = [] then Some name else None }"

definition reNodeName :: "string \<Rightarrow> string option" where
  "reNodeName s =
     do { (name, s) \<leftarrow> many1 (\<lambda>c. \<not> reSpace c) s;
          (case s of
             [] \<Rightarrow> None
           | c # s \<Rightarrow> do { (_, s) \<leftarrow> many1 (\<lambda>c. \<not> reSpace c) s; if s = [] then Some name else None }) }"

section \<open>Output of ibnetdiscover\<close>

definition extractSwitchName :: "string \<Rightarrow> string" where
  "extractSwitchName name =
     (case reSwitchName name of
        Some n \<Rightarrow> n
      | None \<Rightarrow> if \<not> list_ex (\<lambda>c. c \<in> {CHR '' '', CHR '';'', CHR '':''}) name then name else [])"

definition extractNodeName :: "string \<Rightarrow> string" where
  "extractNodeName name = (case reNodeName name of Some n \<Rightarrow> n | None \<Rightarrow> [])"

record Switch =
  swID :: string
  swName :: string
  swConn :: "(string, string) gomap"
  swNodes :: "(string, string) gomap"

record ibState =
  ibSwitches :: "(string, Switch) gomap"
  ibHca :: "(string, string) gomap"
  ibEntry :: "Switch option"

text \<open>
  One line. The entry is stored at the next blank line; an entry that is open when another switch
  line or the end of the output comes is dropped, as in the source.
\<close>

definition ibLine :: "string \<Rightarrow> ibState \<Rightarrow> ibState" where
  "ibLine line st =
     (if hasPrefix line ''#'' then st
      else if reEmptyLine line
      then (case ibEntry st of
              None \<Rightarrow> st
            | Some entry \<Rightarrow> st\<lparr>ibSwitches := gm_put (swID entry) entry (ibSwitches st), ibEntry := None\<rparr>)
      else
        (case reHCA line of
           Some (ident, desc) \<Rightarrow>
             (let nodeName = extractNodeName desc
              in if nodeName \<noteq> [] then st\<lparr>ibHca := gm_put ident nodeName (ibHca st)\<rparr> else st)
         | None \<Rightarrow>
             (case reSwitch line of
                Some (ident, desc) \<Rightarrow>
                  st\<lparr>ibEntry := Some \<lparr>swID = ident, swName = extractSwitchName desc, swConn = [], swNodes = []\<rparr>\<rparr>
              | None \<Rightarrow>
                  (case (reConn line, ibEntry st) of
                     (Some (ident, destName), Some entry) \<Rightarrow>
                       st\<lparr>ibEntry := Some (entry\<lparr>swConn := gm_put ident destName (swConn entry)\<rparr>)\<rparr>
                   | _ \<Rightarrow> st))))"

text \<open>\<open>None\<close> is the error of the scanner: a line that does not fit its buffer.\<close>

definition ParseIbnetdiscoverFile :: "string \<Rightarrow> ((string, Switch) gomap \<times> (string, string) gomap) option" where
  "ParseIbnetdiscoverFile data =
     (case scanLines data of
        None \<Rightarrow> None
      | Some ls \<Rightarrow>
          (let st = fold ibLine ls \<lparr>ibSwitches = [], ibHca = [], ibEntry = None\<rparr>
           in Some (ibSwitches st, ibHca st)))"

section \<open>IP addresses\<close>

text \<open>
  Whether \<open>net.ParseIP\<close> accepts a string: four decimal fields up to 255 without leading zeros, or the
  colon notation of eight groups of at most four hexadecimal digits, with one ellipsis for at least
  one group and the last two groups possibly in dotted form. A zone makes it fail.
\<close>

definition octet :: "string \<Rightarrow> bool" where
  "octet f \<longleftrightarrow> f \<noteq> [] \<and> list_all is_digit f \<and> length f \<le> 3 \<and> (length f > 1 \<longrightarrow> hd f \<noteq> CHR ''0'') \<and>
     (case parse_uint 0 f of Some n \<Rightarrow> n \<le> 255 | None \<Rightarrow> False)"

definition isIPv4 :: "string \<Rightarrow> bool" where
  "isIPv4 s \<longleftrightarrow> length (split_on CHR ''.'' s) = 4 \<and> list_all octet (split_on CHR ''.'' s)"

definition isHex :: "char \<Rightarrow> bool" where
  "isHex c \<longleftrightarrow> isHexLower c \<or> (65 \<le> (of_char c :: nat) \<and> (of_char c :: nat) \<le> 70)"

text \<open>The loop over the groups: the bytes written, whether the ellipsis was seen, the rest.\<close>

fun ipv6Groups :: "nat \<Rightarrow> nat \<Rightarrow> bool \<Rightarrow> string \<Rightarrow> (nat \<times> bool \<times> string) option" where
  "ipv6Groups 0 i ellipsis s = Some (i, ellipsis, s)"
| "ipv6Groups (Suc k) i ellipsis s =
     (let group = takeWhile isHex s; r = dropWhile isHex s
      in if group = [] \<or> length group > 4 then None
         else if hasPrefix r ''.''
         then if \<not> ellipsis \<and> i \<noteq> 12 then None
              else if i + 4 > 16 then None
              else if isIPv4 s then Some (i + 4, ellipsis, []) else None
         else
           (case r of
              [] \<Rightarrow> Some (i + 2, ellipsis, [])
            | c # r \<Rightarrow>
                if c \<noteq> CHR '':'' \<or> r = [] then None
                else if hd r = CHR '':''
                then if ellipsis then None
                     else if tl r = [] then Some (i + 2, True, [])
                     else ipv6Groups k (i + 2) True (tl r)
                else ipv6Groups k (i + 2) ellipsis r))"

definition isIPv6 :: "string \<Rightarrow> bool" where
  "isIPv6 s \<longleftrightarrow>
     (let ellipsis = hasPrefix s ''::''; s = (if ellipsis then drop 2 s else s)
      in if ellipsis \<and> s = [] then True
         else
           (case ipv6Groups 8 0 ellipsis s of
              None \<Rightarrow> False
            | Some (i, ellipsis, rest) \<Rightarrow> rest = [] \<and> (if i < 16 then ellipsis else \<not> ellipsis)))"

definition ParseIP :: "string \<Rightarrow> bool" where
  "ParseIP s \<longleftrightarrow>
     (case find (\<lambda>c. c \<in> {CHR ''.'', CHR '':'', CHR ''%''}) s of
        None \<Rightarrow> False
      | Some c \<Rightarrow>
          if c = CHR ''.'' then isIPv4 s
          else if c = CHR '':'' then CHR ''%'' \<notin> set s \<and> isIPv6 s
          else False)"

end
