(* ===== verification/Merger.thy ===== *)
theory Merger
  imports Prelude
begin

text \<open>
  Component \<open>pkg/topology/merger.go\<close>: switches of a tier that have the same switches below them are
  merged into one, tier by tier from the leaves.

  The merger never changes a vertex: it reads the input and creates new vertices whose children
  are complete. A vertex is therefore a value here, with its children inside; a child may be nil.
  The recursion of \<open>traverse\<close> does not end when no vertex of a tier is a leaf and no child is new;
  it is a \<open>partial_function\<close>, and that it returns is proved for hierarchies of uniform depth.
\<close>

section \<open>Model\<close>

datatype VTree = VTree (tvID: string) (tvName: string) (tvVertices: "(string \<times> VTree option) list")

record Merger =
  mTiers :: "VTree list list"
  mNodes :: "(string, VTree) gomap"
  mRefs :: "(string, VTree option) gomap"

definition addLeaf :: "VTree \<Rightarrow> (string, VTree) gomap \<Rightarrow> (string, VTree) gomap" where
  "addLeaf v ns = (if tvVertices v = [] then gm_put (tvID v) v ns else ns)"

text \<open>The children of a tier that were not visited, in the order of their keys.\<close>

definition visitChild :: "VTree \<Rightarrow> string \<Rightarrow> string list \<times> VTree option list \<Rightarrow> string list \<times> VTree option list" where
  "visitChild v i = (\<lambda>(visited, nxt).
     if i \<in> set visited then (visited, nxt)
     else (i # visited, nxt @ [case gm_get (tvVertices v) i of Some c \<Rightarrow> c | None \<Rightarrow> None]))"

definition nextLayer :: "VTree list \<Rightarrow> VTree option list" where
  "nextLayer layer =
     snd (fold (\<lambda>v. fold (visitChild v) (sorted_keys (tvVertices v))) layer (map tvID layer, []))"

partial_function (option) traverse :: "VTree option list \<Rightarrow> Merger \<Rightarrow> (go_panic + Merger) option" where
  "traverse layer m =
     (case those layer of
        None \<Rightarrow> Some (Inl NilDereference)
      | Some vs \<Rightarrow>
          (let m = m\<lparr>mNodes := fold addLeaf vs (mNodes m)\<rparr>
           in if list_ex (\<lambda>v. tvVertices v = []) vs then Some (Inr (m\<lparr>mTiers := mTiers m @ [vs]\<rparr>))
              else Option.bind (traverse (nextLayer vs) m)
                     (\<lambda>r. Some (case r of Inl p \<Rightarrow> Inl p | Inr m \<Rightarrow> Inr (m\<lparr>mTiers := mTiers m @ [vs]\<rparr>)))))"

declare traverse.simps [code]

definition emptyMerger :: Merger where
  "emptyMerger = \<lparr>mTiers = [], mNodes = [], mRefs = []\<rparr>"

text \<open>\<open>sort.Slice\<close> by ID; the callers pass vertices with distinct IDs.\<close>

definition NewMerger :: "VTree list \<Rightarrow> (go_panic + Merger) option" where
  "NewMerger tops =
     (if tops = [] then Some (Inr emptyMerger) else traverse (map Some (sort_key tvID tops)) emptyMerger)"

definition TopTier :: "Merger \<Rightarrow> VTree list" where
  "TopTier m = (if mTiers m = [] then [] else last (mTiers m))"

definition refID :: "Merger \<Rightarrow> string \<Rightarrow> go_panic + string" where
  "refID m i =
     (case gm_get (mRefs m) i of
        Some (Some r) \<Rightarrow> Inr (tvID r)
      | Some None \<Rightarrow> Inl NilDereference
      | None \<Rightarrow> Inr i)"

definition signature :: "Merger \<Rightarrow> VTree \<Rightarrow> go_panic + string list" where
  "signature m v =
     (case foldE (\<lambda>i ids. case refID m i of Inl p \<Rightarrow> Inl p | Inr j \<Rightarrow> Inr (gm_put j True ids))
             (gm_keys (tvVertices v)) [] of
        Inl p \<Rightarrow> Inl p
      | Inr ids \<Rightarrow> Inr (sorted_keys ids))"

definition mergedVertex :: "Merger \<Rightarrow> VTree \<Rightarrow> string list \<Rightarrow> VTree" where
  "mergedVertex m v sig = VTree (tvID v) (tvName v) (fold (\<lambda>i. gm_put i (gm_get (mNodes m) i)) sig [])"

type_synonym layerState = "Merger \<times> (string list \<times> string) list \<times> VTree list"

definition mergeStep :: "VTree \<Rightarrow> layerState \<Rightarrow> go_panic + layerState" where
  "mergeStep v = (\<lambda>(m, filters, result).
     case signature m v of
       Inl p \<Rightarrow> Inl p
     | Inr sig \<Rightarrow>
         (case find (\<lambda>f. fst f = sig) filters of
            Some f \<Rightarrow> Inr (m\<lparr>mRefs := gm_put (tvID v) (gm_get (mNodes m) (snd f)) (mRefs m)\<rparr>, filters, result)
          | None \<Rightarrow>
              (let merged = mergedVertex m v sig
               in Inr (m\<lparr>mNodes := gm_put (tvID v) merged (mNodes m)\<rparr>, filters @ [(sig, tvID v)], result @ [merged]))))"

definition mergeLayer :: "Merger \<Rightarrow> VTree list \<Rightarrow> go_panic + (Merger \<times> VTree list)" where
  "mergeLayer m layer =
     (case foldE mergeStep layer (m, [], []) of Inl p \<Rightarrow> Inl p | Inr (m, _, result) \<Rightarrow> Inr (m, result))"

definition mergeTier :: "nat \<Rightarrow> Merger \<Rightarrow> go_panic + Merger" where
  "mergeTier i m =
     (case mergeLayer m (mTiers m ! i) of
        Inl p \<Rightarrow> Inl p
      | Inr (m, result) \<Rightarrow> Inr (m\<lparr>mTiers := (mTiers m)[i := result]\<rparr>))"

definition Merge :: "Merger \<Rightarrow> go_panic + Merger" where
  "Merge m = foldE mergeTier [1..<length (mTiers m)] m"

section \<open>Hierarchies of uniform depth\<close>

text \<open>
  What the providers build: every leaf has the same depth, a child is stored under its ID, and an ID
  names one vertex. \<open>levelBelow k vs\<close> lists the vertices \<open>k\<close> levels below \<open>vs\<close>.
\<close>

definition tvKids :: "VTree \<Rightarrow> VTree list" where
  "tvKids v = List.map_filter snd (tvVertices v)"

fun levelBelow :: "nat \<Rightarrow> VTree list \<Rightarrow> VTree list" where
  "levelBelow 0 vs = vs"
| "levelBelow (Suc k) vs = levelBelow k (concat (map tvKids vs))"

fun layered :: "nat \<Rightarrow> VTree \<Rightarrow> bool" where
  "layered 0 v \<longleftrightarrow> tvVertices v = []"
| "layered (Suc n) v \<longleftrightarrow>
     tvVertices v \<noteq> [] \<and> gm_wf (tvVertices v) \<and>
     (\<forall>(k, c) \<in> set (tvVertices v). case c of None \<Rightarrow> False | Some w \<Rightarrow> tvID w = k \<and> layered n w)"

definition leavesAt :: "nat \<Rightarrow> VTree list \<Rightarrow> string set" where
  "leavesAt n vs = tvID ` set (levelBelow n vs)"

text \<open>The nodes of a hierarchy of any shape: the vertices without children that are reachable.\<close>

inductive leafOf :: "VTree \<Rightarrow> string \<Rightarrow> bool" where
  leafOf_here: "tvVertices v = [] \<Longrightarrow> leafOf v (tvID v)"
| leafOf_below: "(k, Some w) \<in> set (tvVertices v) \<Longrightarrow> leafOf w x \<Longrightarrow> leafOf v x"

inductive_simps leafOf_iff: "leafOf v x"

definition leafIDs :: "VTree list \<Rightarrow> string set" where
  "leafIDs vs = {x. \<exists>v \<in> set vs. leafOf v x}"

definition vertexIDsOk :: "nat \<Rightarrow> VTree list \<Rightarrow> bool" where
  "vertexIDsOk n tops \<longleftrightarrow>
     (\<forall>i \<le> n. \<forall>j \<le> n. \<forall>u \<in> set (levelBelow i tops). \<forall>w \<in> set (levelBelow j tops). tvID u = tvID w \<longrightarrow> u = w)"

lemma tvKids_iff: "w \<in> set (tvKids v) \<longleftrightarrow> (\<exists>k. (k, Some w) \<in> set (tvVertices v))"
  by (force simp: tvKids_def map_filter_def)

lemma layered_kids:
  assumes "layered (Suc n) v"
  shows "tvKids v \<noteq> []" and "\<And>w. w \<in> set (tvKids v) \<Longrightarrow> layered n w \<and> gm_get (tvVertices v) (tvID w) = Some (Some w)"
    and "set (gm_keys (tvVertices v)) = tvID ` set (tvKids v)"
proof -
  have all: "\<exists>w. c = Some w \<and> tvID w = k \<and> layered n w" if "(k, c) \<in> set (tvVertices v)" for k c
    using assms that by (auto split: option.splits)
  show "tvKids v \<noteq> []" using assms all by (cases "tvVertices v") (fastforce simp: tvKids_def map_filter_def)+
  show "layered n w \<and> gm_get (tvVertices v) (tvID w) = Some (Some w)" if "w \<in> set (tvKids v)" for w
    using that all assms by (auto simp: tvKids_iff gm_get_Some_mem)
  show "set (gm_keys (tvVertices v)) = tvID ` set (tvKids v)"
  proof (intro equalityI subsetI)
    fix k assume "k \<in> set (gm_keys (tvVertices v))"
    then obtain c where c: "(k, c) \<in> set (tvVertices v)" by auto
    then obtain w where "c = Some w" "tvID w = k" using all by blast
    moreover from this have "w \<in> set (tvKids v)" using c by (auto simp: tvKids_iff)
    ultimately show "k \<in> tvID ` set (tvKids v)" by blast
  next
    fix k assume "k \<in> tvID ` set (tvKids v)"
    then obtain w j where "k = tvID w" "(j, Some w) \<in> set (tvVertices v)" by (auto simp: tvKids_iff)
    then show "k \<in> set (gm_keys (tvVertices v))" using all by force
  qed
qed

lemma layered_unique: "layered i v \<Longrightarrow> layered j v \<Longrightarrow> i = j"
proof (induction i arbitrary: j v)
  case 0
  then show ?case by (cases j) auto
next
  case (Suc i)
  then obtain j' where j: "j = Suc j'" by (cases j) auto
  obtain w where "w \<in> set (tvKids v)" using layered_kids(1) [OF Suc.prems(1)] by (cases "tvKids v") auto
  then show ?case using Suc layered_kids(2) unfolding j by blast
qed

lemma set_level: "set (levelBelow k vs) = (\<Union>v \<in> set vs. set (levelBelow k [v]))"
proof (induction k arbitrary: vs)
  case (Suc k)
  have "set (levelBelow (Suc k) [v]) = (\<Union>w \<in> set (tvKids v). set (levelBelow k [w]))" for v
    unfolding levelBelow.simps by (subst Suc) simp
  moreover have "set (levelBelow (Suc k) vs) = (\<Union>v \<in> set vs. \<Union>w \<in> set (tvKids v). set (levelBelow k [w]))"
    unfolding levelBelow.simps by (subst Suc) simp
  ultimately show ?case by simp
qed simp

lemma level_cong: "set vs = set ws \<Longrightarrow> set (levelBelow k vs) = set (levelBelow k ws)"
  unfolding set_level [of k vs] set_level [of k ws] by simp

lemma leavesAt_Suc: "leavesAt (Suc n) [v] = (\<Union>w \<in> set (tvKids v). leavesAt n [w])"
  unfolding leavesAt_def by (simp add: set_level [of n "tvKids v"] image_UN)

lemma leavesAt_union: "leavesAt n vs = (\<Union>v \<in> set vs. leavesAt n [v])"
  unfolding leavesAt_def by (simp add: set_level [of n vs] image_UN)

lemma leafOf_layered: "layered n v \<Longrightarrow> leafOf v x \<longleftrightarrow> x \<in> leavesAt n [v]"
proof (induction n arbitrary: v)
  case 0
  then show ?case by (subst leafOf_iff) (auto simp: leavesAt_def)
next
  case (Suc n)
  have "leafOf v x \<longleftrightarrow> (\<exists>w \<in> set (tvKids v). leafOf w x)"
    using Suc.prems unfolding leafOf_iff [of v] Bex_def tvKids_iff by auto
  then show ?case using Suc.IH layered_kids(2) [OF Suc.prems] unfolding leavesAt_Suc by blast
qed

lemma leafIDs_layered: "\<forall>v \<in> set vs. layered n v \<Longrightarrow> leafIDs vs = leavesAt n vs"
  unfolding leafIDs_def leavesAt_union [of n vs] using leafOf_layered [of n] by auto

lemma level_layered: "\<forall>v \<in> set vs. layered n v \<Longrightarrow> i \<le> n \<Longrightarrow> v \<in> set (levelBelow i vs) \<Longrightarrow> layered (n - i) v"
proof (induction i arbitrary: vs n)
  case (Suc i)
  then obtain n' where n: "n = Suc n'" by (cases n) auto
  have "\<forall>w \<in> set (concat (map tvKids vs)). layered n' w" using Suc.prems(1) layered_kids(2) n by fastforce
  from Suc.IH [OF this] show ?case using Suc.prems n by simp
qed simp

lemma level_nonempty: "\<forall>v \<in> set vs. layered n v \<Longrightarrow> vs \<noteq> [] \<Longrightarrow> i \<le> n \<Longrightarrow> levelBelow i vs \<noteq> []"
proof (induction i arbitrary: vs n)
  case (Suc i)
  then obtain n' where n: "n = Suc n'" by (cases n) auto
  have "\<forall>w \<in> set (concat (map tvKids vs)). layered n' w" using Suc.prems(1) layered_kids(2) n by fastforce
  moreover have "concat (map tvKids vs) \<noteq> []"
    using Suc.prems(1,2) layered_kids(1) [of n'] n by (cases vs) auto
  ultimately show ?case using Suc n by simp
qed simp

section \<open>Tiers\<close>

lemma visit_fold:
  assumes "\<forall>(v, i) \<in> set ps. \<exists>w. gm_get (tvVertices v) i = Some (Some w) \<and> tvID w = i"
  shows "\<exists>ws. snd (fold (\<lambda>(v, i). visitChild v i) ps (vis, nxt)) = nxt @ map Some ws \<and>
    distinct (map tvID ws) \<and> tvID ` set ws = snd ` set ps - set vis \<and>
    (\<forall>w \<in> set ws. \<exists>(v, i) \<in> set ps. gm_get (tvVertices v) i = Some (Some w))"
  using assms
proof (induction ps arbitrary: vis nxt)
  case (Cons p ps)
  obtain v i where p: "p = (v, i)" by (cases p)
  obtain w where w: "gm_get (tvVertices v) i = Some (Some w)" "tvID w = i" using Cons.prems p by auto
  show ?case
  proof (cases "i \<in> set vis")
    case True
    then have "fold (\<lambda>(v, i). visitChild v i) (p # ps) (vis, nxt) = fold (\<lambda>(v, i). visitChild v i) ps (vis, nxt)"
      by (simp add: p visitChild_def)
    moreover from Cons.prems have "\<forall>(v, i) \<in> set ps. \<exists>w. gm_get (tvVertices v) i = Some (Some w) \<and> tvID w = i" by simp
    from Cons.IH [OF this, of vis nxt] obtain ws where
      "snd (fold (\<lambda>(v, i). visitChild v i) ps (vis, nxt)) = nxt @ map Some ws"
      "distinct (map tvID ws)" "tvID ` set ws = snd ` set ps - set vis"
      "\<forall>w \<in> set ws. \<exists>(v, i) \<in> set ps. gm_get (tvVertices v) i = Some (Some w)" by blast
    moreover have "snd ` set (p # ps) - set vis = snd ` set ps - set vis" using True p by auto
    ultimately show ?thesis by (intro exI [of _ ws]) (auto simp del: fold_simps)
  next
    case False
    then have f: "fold (\<lambda>(v, i). visitChild v i) (p # ps) (vis, nxt) =
        fold (\<lambda>(v, i). visitChild v i) ps (i # vis, nxt @ [Some w])"
      by (simp add: p visitChild_def w)
    from Cons.prems have "\<forall>(v, i) \<in> set ps. \<exists>w. gm_get (tvVertices v) i = Some (Some w) \<and> tvID w = i" by simp
    from Cons.IH [OF this, of "i # vis" "nxt @ [Some w]"] obtain ws where ws:
      "snd (fold (\<lambda>(v, i). visitChild v i) ps (i # vis, nxt @ [Some w])) = (nxt @ [Some w]) @ map Some ws"
      "distinct (map tvID ws)" "tvID ` set ws = snd ` set ps - set (i # vis)"
      "\<forall>w \<in> set ws. \<exists>(v, i) \<in> set ps. gm_get (tvVertices v) i = Some (Some w)" by blast
    have "i \<notin> tvID ` set ws" using ws(3) by auto
    then have "distinct (map tvID (w # ws))" using ws(2) w(2) by auto
    moreover have "tvID ` set (w # ws) = snd ` set (p # ps) - set vis" using ws(3) w(2) p False by auto
    moreover have "\<forall>u \<in> set (w # ws). \<exists>(v, i) \<in> set (p # ps). gm_get (tvVertices v) i = Some (Some u)"
      using ws(4) w(1) p by auto
    moreover have "snd (fold (\<lambda>(v, i). visitChild v i) (p # ps) (vis, nxt)) = nxt @ map Some (w # ws)"
      using f ws(1) by simp
    ultimately show ?thesis by blast
  qed
qed simp

lemma fold_pairs:
  "fold (\<lambda>v. fold (f v) (g v)) xs s = fold (\<lambda>(v, i). f v i) (concat (map (\<lambda>v. map (Pair v) (g v)) xs)) s"
  by (induction xs arbitrary: s) (simp_all add: fold_map comp_def)

lemma nextLayer_kids:
  assumes l: "\<forall>v \<in> set vs. layered (Suc n) v" and ids: "vertexIDsOk 1 vs"
  obtains ws where "nextLayer vs = map Some ws" and "distinct (map tvID ws)" and "set ws = set (concat (map tvKids vs))"
proof -
  let ?ps = "concat (map (\<lambda>v. map (Pair v) (sorted_keys (tvVertices v))) vs)"
  have ps: "(v, i) \<in> set ?ps \<longleftrightarrow> v \<in> set vs \<and> i \<in> tvID ` set (tvKids v)" for v i
  proof -
    have "(v, i) \<in> set ?ps \<longleftrightarrow> v \<in> set vs \<and> i \<in> set (gm_keys (tvVertices v))" by auto
    then show ?thesis using layered_kids(3) [of n v] l by blast
  qed
  have kid: "\<exists>w. gm_get (tvVertices v) i = Some (Some w) \<and> tvID w = i" if "(v, i) \<in> set ?ps" for v i
    using that unfolding ps using layered_kids(2) [of n v] l by auto
  have same: "u = w" if "u \<in> set vs \<union> set (concat (map tvKids vs))" "w \<in> set (concat (map tvKids vs))" "tvID u = tvID w" for u w
  proof -
    have "\<forall>u \<in> set (levelBelow i vs). \<forall>w \<in> set (levelBelow 1 vs). tvID u = tvID w \<longrightarrow> u = w" if "i \<le> 1" for i
      using ids that unfolding vertexIDsOk_def by blast
    from this [of 0] this [of 1] show ?thesis using that by auto
  qed
  from kid have "\<forall>(v, i) \<in> set ?ps. \<exists>w. gm_get (tvVertices v) i = Some (Some w) \<and> tvID w = i" by blast
  from visit_fold [OF this, of "map tvID vs" "[]"] obtain ws where ws:
    "nextLayer vs = map Some ws" "distinct (map tvID ws)" "tvID ` set ws = snd ` set ?ps - set (map tvID vs)"
    "\<forall>w \<in> set ws. \<exists>(v, i) \<in> set ?ps. gm_get (tvVertices v) i = Some (Some w)"
    unfolding nextLayer_def fold_pairs append_Nil by blast
  have sub: "w \<in> set (concat (map tvKids vs))" if w: "w \<in> set ws" for w
  proof -
    obtain v i where "(v, i) \<in> set ?ps" "gm_get (tvVertices v) i = Some (Some w)" using ws(4) w by blast
    then have "v \<in> set vs" "w \<in> set (tvKids v)" by (auto simp: ps tvKids_iff dest: map_of_SomeD)
    then show ?thesis by auto
  qed
  have "w \<in> set ws" if w: "w \<in> set (concat (map tvKids vs))" for w
  proof -
    obtain v where v: "v \<in> set vs" "w \<in> set (tvKids v)" using w by auto
    have "layered n w" using l v layered_kids(2) by blast
    then have "w \<notin> set vs" using l layered_unique [of n w "Suc n"] by auto
    then have "tvID w \<notin> set (map tvID vs)" using same [OF UnI1 w] by fastforce
    moreover have "(v, tvID w) \<in> set ?ps" using v unfolding ps by simp
    then have "tvID w \<in> snd ` set ?ps" by force
    ultimately have "tvID w \<in> tvID ` set ws" unfolding ws(3) by blast
    then obtain u where "u \<in> set ws" "tvID u = tvID w" by force
    then show ?thesis using same [of u w] sub w by auto
  qed
  with sub have "set ws = set (concat (map tvKids vs))" by blast
  with ws(1,2) show ?thesis by (rule that)
qed

lemma vertexIDsOk_kids: "vertexIDsOk (Suc n) vs \<Longrightarrow> set ws = set (concat (map tvKids vs)) \<Longrightarrow> vertexIDsOk n ws"
proof -
  assume a: "vertexIDsOk (Suc n) vs" "set ws = set (concat (map tvKids vs))"
  have "set (levelBelow i ws) = set (levelBelow (Suc i) vs)" for i using level_cong [OF a(2)] by simp
  then show "vertexIDsOk n ws" using a(1) unfolding vertexIDsOk_def by (metis Suc_le_mono)
qed

lemma vertexIDsOk_mono: "vertexIDsOk n vs \<Longrightarrow> m \<le> n \<Longrightarrow> vertexIDsOk m vs"
  unfolding vertexIDsOk_def by (meson le_trans)

definition tiersOf :: "nat \<Rightarrow> VTree list \<Rightarrow> VTree list list \<Rightarrow> bool" where
  "tiersOf n vs ts \<longleftrightarrow> length ts = Suc n \<and>
     (\<forall>j \<le> n. set (ts ! j) = set (levelBelow (n - j) vs) \<and> distinct (map tvID (ts ! j)))"

lemma addLeaf_inner: "\<forall>v \<in> set vs. tvVertices v \<noteq> [] \<Longrightarrow> fold addLeaf vs ns = ns"
  by (induction vs) (auto simp: addLeaf_def)

lemma those_map_Some: "those (map Some xs) = Some xs"
  by (induction xs) auto

lemma traverse_layered:
  assumes "\<forall>v \<in> set vs. layered n v" and "vs \<noteq> []" and "distinct (map tvID vs)" and "vertexIDsOk n vs"
  shows "\<exists>ts. traverse (map Some vs) m = Some (Inr (m\<lparr>mNodes := fold addLeaf (hd ts) (mNodes m), mTiers := mTiers m @ ts\<rparr>)) \<and>
    tiersOf n vs ts \<and> last ts = vs"
  using assms
proof (induction n arbitrary: vs)
  case 0
  then have "list_ex (\<lambda>v. tvVertices v = []) vs" by (cases vs) auto
  then show ?case using 0 by (subst traverse.simps) (auto simp: those_map_Some Let_def tiersOf_def intro!: exI [of _ "[vs]"])
next
  case (Suc n)
  obtain ws where ws: "nextLayer vs = map Some ws" "distinct (map tvID ws)" "set ws = set (concat (map tvKids vs))"
    using nextLayer_kids [OF Suc.prems(1) vertexIDsOk_mono [OF Suc.prems(4)]] by auto
  have "\<forall>w \<in> set ws. layered n w" using Suc.prems(1) layered_kids(2) ws(3) by fastforce
  moreover have "ws \<noteq> []" using ws(3) Suc.prems(1,2) layered_kids(1) [of n] by (cases vs) auto
  moreover note ws(2) vertexIDsOk_kids [OF Suc.prems(4) ws(3)]
  ultimately obtain ts where ts:
    "traverse (map Some ws) m = Some (Inr (m\<lparr>mNodes := fold addLeaf (hd ts) (mNodes m), mTiers := mTiers m @ ts\<rparr>))"
    "tiersOf n ws ts" using Suc.IH by blast
  have inner: "\<forall>v \<in> set vs. tvVertices v \<noteq> []" using Suc.prems(1) by simp
  then have "\<not> list_ex (\<lambda>v. tvVertices v = []) vs" by (auto simp: list_ex_iff)
  then have "traverse (map Some vs) m =
      Some (Inr (m\<lparr>mNodes := fold addLeaf (hd (ts @ [vs])) (mNodes m), mTiers := mTiers m @ (ts @ [vs])\<rparr>))"
    using ts by (subst traverse.simps) (auto simp: those_map_Some Let_def addLeaf_inner [OF inner] ws(1) tiersOf_def hd_append)
  moreover have "tiersOf (Suc n) vs (ts @ [vs])"
    unfolding tiersOf_def
  proof (intro conjI allI impI)
    fix j assume j: "j \<le> Suc n"
    have "set (levelBelow (n - j) ws) = set (levelBelow (Suc n - j) vs)" if "j \<le> n"
      using level_cong [OF ws(3)] that by (simp add: Suc_diff_le)
    then show "set ((ts @ [vs]) ! j) = set (levelBelow (Suc n - j) vs)" "distinct (map tvID ((ts @ [vs]) ! j))"
      using j ts(2) Suc.prems(3) by (auto simp: tiersOf_def nth_append le_Suc_eq)
  qed (use ts(2) in \<open>simp add: tiersOf_def\<close>)
  ultimately show ?case by auto
qed

section \<open>Merging\<close>

text \<open>The vertex that stands for an original vertex after its tier was merged.\<close>

definition rep :: "Merger \<Rightarrow> VTree \<Rightarrow> VTree option" where
  "rep m v = (case gm_get (mRefs m) (tvID v) of Some r \<Rightarrow> r | None \<Rightarrow> gm_get (mNodes m) (tvID v))"

definition mergedOk :: "Merger \<Rightarrow> nat \<Rightarrow> VTree \<Rightarrow> bool" where
  "mergedOk m i v \<longleftrightarrow>
     (\<exists>w. rep m v = Some w \<and> gm_get (mNodes m) (tvID w) = Some w \<and> layered i w \<and> leavesAt i [w] = leavesAt i [v])"

definition mergeInv :: "Merger \<Rightarrow> (nat \<times> VTree) set \<Rightarrow> bool" where
  "mergeInv m D \<longleftrightarrow>
     (\<forall>k w. gm_get (mNodes m) k = Some w \<longrightarrow> tvID w = k \<and> k \<in> tvID ` snd ` D) \<and>
     dom (gm_get (mRefs m)) \<subseteq> tvID ` snd ` D \<and> (\<forall>(i, v) \<in> D. mergedOk m i v)"

lemma UN_matched:
  assumes "\<And>w. w \<in> A \<Longrightarrow> \<exists>c \<in> B. f w = g c" and "\<And>c. c \<in> B \<Longrightarrow> \<exists>w \<in> A. f w = g c"
  shows "(\<Union>w \<in> A. f w) = (\<Union>c \<in> B. g c)"
proof (intro equalityI UN_least)
  show "f w \<subseteq> (\<Union>c \<in> B. g c)" if "w \<in> A" for w using assms(1) [OF that] by blast
  show "g c \<subseteq> (\<Union>w \<in> A. f w)" if "c \<in> B" for c using assms(2) [OF that] by blast
qed

lemma rep_exists: "mergeInv m D \<Longrightarrow> (i, c) \<in> D \<Longrightarrow> \<exists>w. rep m c = Some w"
  unfolding mergeInv_def mergedOk_def by blast

lemma rep_node:
  assumes "mergeInv m D" and "(i, c) \<in> D" and "rep m c = Some w"
  shows "gm_get (mNodes m) (tvID w) = Some w" and "layered i w" and "leavesAt i [w] = leavesAt i [c]"
  using assms unfolding mergeInv_def mergedOk_def by force+

lemma rep_refID:
  assumes "mergeInv m D" and "(i, c) \<in> D" and "rep m c = Some w"
  shows "refID m (tvID c) = Inr (tvID w)"
  using assms by (auto simp: rep_def refID_def mergeInv_def split: option.splits)

lemma gm_keys_puts: "set (gm_keys (fold (\<lambda>i. gm_put (g i) b) ks m)) = set (gm_keys m) \<union> g ` set ks"
  by (induction ks arbitrary: m) (auto simp: dom_update)

lemma gm_wf_puts: "gm_wf m \<Longrightarrow> gm_wf (fold (\<lambda>i. gm_put (g i) b) ks m)"
  by (induction ks arbitrary: m) auto

lemma signature_ok:
  assumes inv: "mergeInv m D" and v: "layered (Suc i) v" and kids: "\<forall>c \<in> set (tvKids v). (i, c) \<in> D"
  obtains sig where "signature m v = Inr sig" and "distinct sig" and "sorted sig"
    and "set sig = {tvID w |w c. c \<in> set (tvKids v) \<and> rep m c = Some w}"
proof -
  let ?g = "\<lambda>k. case refID m k of Inr j \<Rightarrow> j | Inl p \<Rightarrow> k"
  have ref: "\<exists>j. refID m k = Inr j" if k: "k \<in> set (gm_keys (tvVertices v))" for k
  proof -
    obtain c where "c \<in> set (tvKids v)" "k = tvID c" using k unfolding layered_kids(3) [OF v] by blast
    moreover from this obtain w where "rep m c = Some w" using rep_exists [OF inv] kids by blast
    ultimately show ?thesis using rep_refID [OF inv, of i c w] kids by simp
  qed
  let ?ids = "fold (\<lambda>k. gm_put (?g k) True) (gm_keys (tvVertices v)) []"
  have "foldE (\<lambda>i ids. case refID m i of Inl p \<Rightarrow> Inl p | Inr j \<Rightarrow> Inr (gm_put j True ids)) (gm_keys (tvVertices v)) [] = Inr ?ids"
  proof (rule foldE_total)
    fix k ids assume "k \<in> set (gm_keys (tvVertices v))"
    then obtain j where "refID m k = Inr j" using ref by blast
    then show "(case refID m k of Inl p \<Rightarrow> Inl p | Inr j \<Rightarrow> Inr (gm_put j True ids)) = Inr (gm_put (?g k) True ids)" by simp
  qed
  then have "signature m v = Inr (sorted_keys ?ids)" by (simp add: signature_def)
  moreover have "distinct (sorted_keys ?ids)" by (intro distinct_sorted_keys gm_wf_puts) simp
  moreover have "sorted (sorted_keys ?ids)" by (simp add: sorted_keys_def)
  moreover have "set (sorted_keys ?ids) = {tvID w |w c. c \<in> set (tvKids v) \<and> rep m c = Some w}"
  proof -
    have g: "?g (tvID c) = tvID w" if "c \<in> set (tvKids v)" "rep m c = Some w" for c w
      using rep_refID [OF inv, of i c w] kids that by simp
    have ex: "\<exists>w. rep m c = Some w" if "c \<in> set (tvKids v)" for c using rep_exists [OF inv] kids that by blast
    have "set (sorted_keys ?ids) = ?g ` tvID ` set (tvKids v)"
      unfolding set_sorted_keys gm_keys_puts layered_kids(3) [OF v] by simp
    also have "\<dots> = (\<lambda>c. ?g (tvID c)) ` set (tvKids v)" by (simp add: image_image)
    also have "\<dots> = {tvID w |w c. c \<in> set (tvKids v) \<and> rep m c = Some w}"
    proof (intro equalityI subsetI)
      fix k assume "k \<in> (\<lambda>c. ?g (tvID c)) ` set (tvKids v)"
      then obtain c where c: "c \<in> set (tvKids v)" "k = ?g (tvID c)" by blast
      then obtain w where "rep m c = Some w" using ex by blast
      then show "k \<in> {tvID w |w c. c \<in> set (tvKids v) \<and> rep m c = Some w}" using c g by blast
    next
      fix k assume "k \<in> {tvID w |w c. c \<in> set (tvKids v) \<and> rep m c = Some w}"
      then obtain w c where "c \<in> set (tvKids v)" "rep m c = Some w" "k = tvID w" by blast
      then show "k \<in> (\<lambda>c. ?g (tvID c)) ` set (tvKids v)" using g by (intro image_eqI [of _ _ c]) simp_all
    qed
    finally show ?thesis .
  qed
  ultimately show ?thesis by (rule that)
qed

lemma fold_put_map:
  "distinct ks \<Longrightarrow> set ks \<inter> set (gm_keys m) = {} \<Longrightarrow> fold (\<lambda>i. gm_put i (f i)) ks m = m @ map (\<lambda>i. (i, f i)) ks"
  by (induction ks arbitrary: m) (auto simp: gm_put_fresh)

lemma mergedVertex_children:
  "distinct sig \<Longrightarrow> tvVertices (mergedVertex m v sig) = map (\<lambda>s. (s, gm_get (mNodes m) s)) sig"
  by (simp add: mergedVertex_def fold_put_map)

lemma mergedVertex_ok:
  assumes inv: "mergeInv m D" and v: "layered (Suc i) v" and kids: "\<forall>c \<in> set (tvKids v). (i, c) \<in> D"
    and sig: "distinct sig" "set sig = {tvID w |w c. c \<in> set (tvKids v) \<and> rep m c = Some w}"
  shows "layered (Suc i) (mergedVertex m v sig)"
    and "leavesAt (Suc i) [mergedVertex m v sig] = leavesAt (Suc i) [v]"
    and "set (tvKids (mergedVertex m v sig)) = {w. \<exists>c \<in> set (tvKids v). rep m c = Some w}"
proof -
  have node: "\<exists>w. gm_get (mNodes m) (tvID w) = Some w \<and> s = tvID w \<and> layered i w" if s: "s \<in> set sig" for s
  proof -
    obtain w c where "c \<in> set (tvKids v)" "rep m c = Some w" "s = tvID w" using s unfolding sig(2) by blast
    then show ?thesis using rep_node [OF inv, of i c w] kids by blast
  qed
  have ch: "tvVertices (mergedVertex m v sig) = map (\<lambda>s. (s, gm_get (mNodes m) s)) sig"
    by (rule mergedVertex_children [OF sig(1)])
  have "sig \<noteq> []"
  proof -
    obtain c where "c \<in> set (tvKids v)" using layered_kids(1) [OF v] by (cases "tvKids v") auto
    moreover from this obtain w where "rep m c = Some w" using rep_exists [OF inv] kids by blast
    ultimately have "tvID w \<in> set sig" unfolding sig(2) by blast
    then show ?thesis by auto
  qed
  then show "layered (Suc i) (mergedVertex m v sig)"
    using node sig(1) by (fastforce simp: ch gm_wf_def comp_def split: option.splits)
  have k: "set (tvKids (mergedVertex m v sig)) = {w. \<exists>c \<in> set (tvKids v). rep m c = Some w}"
  proof -
    have "w \<in> set (tvKids (mergedVertex m v sig)) \<longleftrightarrow> (\<exists>s \<in> set sig. gm_get (mNodes m) s = Some w)" for w
      by (force simp: tvKids_iff ch image_iff)
    moreover have "gm_get (mNodes m) (tvID w) = Some w" if "c \<in> set (tvKids v)" "rep m c = Some w" for w c
      using rep_node [OF inv, of i c w] kids that by blast
    ultimately show ?thesis unfolding sig(2) by fastforce
  qed
  then show "set (tvKids (mergedVertex m v sig)) = {w. \<exists>c \<in> set (tvKids v). rep m c = Some w}" .
  have same: "leavesAt i [w] = leavesAt i [c]" if "c \<in> set (tvKids v)" "rep m c = Some w" for w c
    using rep_node [OF inv, of i c w] kids that by blast
  have "\<exists>w. rep m c = Some w" if "c \<in> set (tvKids v)" for c
    using rep_exists [OF inv] kids that by blast
  then show "leavesAt (Suc i) [mergedVertex m v sig] = leavesAt (Suc i) [v]"
    unfolding leavesAt_Suc k by (intro UN_matched) (use same in blast)+
qed

text \<open>
  The invariant of the loop over a tier: \<open>D\<close> are the vertices of the tiers below, \<open>P\<close> those of this
  tier that were visited, \<open>m0\<close> is the state before the tier.
\<close>

definition filterOk :: "nat \<Rightarrow> Merger \<Rightarrow> string list \<times> string \<Rightarrow> bool" where
  "filterOk i m f \<longleftrightarrow>
     distinct (fst f) \<and> sorted (fst f) \<and>
     (\<exists>w. gm_get (mNodes m) (snd f) = Some w \<and> layered (Suc i) w \<and>
        tvVertices w = map (\<lambda>s. (s, gm_get (mNodes m) s)) (fst f))"

definition layerInv :: "Merger \<Rightarrow> nat \<Rightarrow> (nat \<times> VTree) set \<Rightarrow> VTree set \<Rightarrow> layerState \<Rightarrow> bool" where
  "layerInv m0 i D P = (\<lambda>(m, filters, result).
     mergeInv m (D \<union> {Suc i} \<times> P) \<and> distinct (map fst filters) \<and> (\<forall>(k, c) \<in> D. rep m c = rep m0 c) \<and>
     (\<forall>w \<in> set result. \<forall>u \<in> set (tvKids w). \<exists>c. (i, c) \<in> D \<and> rep m0 c = Some u) \<and>
     map Some result = map (gm_get (mNodes m) \<circ> snd) filters \<and> (\<forall>f \<in> set filters. filterOk i m f) \<and>
     (\<forall>v \<in> P. \<exists>w \<in> set result. rep m v = Some w) \<and>
     (\<forall>w \<in> set result. \<exists>v \<in> P. tvID w = tvID v \<and> leavesAt (Suc i) [w] = leavesAt (Suc i) [v]))"

lemma mergedOk_put_node:
  assumes "mergedOk m i u" and "gm_get (mNodes m) k = None" and "tvID u \<noteq> k"
  shows "mergedOk (m\<lparr>mNodes := gm_put k x (mNodes m)\<rparr>) i u"
  using assms unfolding mergedOk_def by (fastforce simp: rep_def split: option.splits)

lemma mergedOk_put_ref:
  assumes "mergedOk m i u" and "tvID u \<noteq> k"
  shows "mergedOk (m\<lparr>mRefs := gm_put k x (mRefs m)\<rparr>) i u"
  using assms unfolding mergedOk_def by (fastforce simp: rep_def split: option.splits)

lemma mergeInv_put_node:
  assumes inv: "mergeInv m (D \<union> {i} \<times> P)" and fresh: "gm_get (mNodes m) (tvID v) = None"
    and others: "\<And>j u. (j, u) \<in> D \<union> {i} \<times> P \<Longrightarrow> tvID u \<noteq> tvID v" and "tvID x = tvID v"
    and ok: "mergedOk (m\<lparr>mNodes := gm_put (tvID v) x (mNodes m)\<rparr>) i v"
  shows "mergeInv (m\<lparr>mNodes := gm_put (tvID v) x (mNodes m)\<rparr>) (D \<union> {i} \<times> insert v P)"
proof -
  let ?m = "m\<lparr>mNodes := gm_put (tvID v) x (mNodes m)\<rparr>"
  have D: "D \<union> {i} \<times> insert v P = insert (i, v) (D \<union> {i} \<times> P)" by auto
  have "mergedOk ?m j u" if "(j, u) \<in> D \<union> {i} \<times> P" for j u
    using that inv mergedOk_put_node [OF _ fresh others [OF that]] unfolding mergeInv_def by blast
  then show ?thesis using inv ok assms(4) unfolding mergeInv_def D by auto
qed

lemma mergeInv_put_ref:
  assumes inv: "mergeInv m (D \<union> {i} \<times> P)"
    and others: "\<And>j u. (j, u) \<in> D \<union> {i} \<times> P \<Longrightarrow> tvID u \<noteq> tvID v"
    and ok: "mergedOk (m\<lparr>mRefs := gm_put (tvID v) x (mRefs m)\<rparr>) i v"
  shows "mergeInv (m\<lparr>mRefs := gm_put (tvID v) x (mRefs m)\<rparr>) (D \<union> {i} \<times> insert v P)"
proof -
  let ?m = "m\<lparr>mRefs := gm_put (tvID v) x (mRefs m)\<rparr>"
  have D: "D \<union> {i} \<times> insert v P = insert (i, v) (D \<union> {i} \<times> P)" by auto
  have "mergedOk ?m j u" if "(j, u) \<in> D \<union> {i} \<times> P" for j u
    using that inv mergedOk_put_ref [OF _ others [OF that]] unfolding mergeInv_def by blast
  moreover have "dom (gm_get (mRefs ?m)) \<subseteq> tvID ` snd ` (D \<union> {i} \<times> insert v P)"
    using inv unfolding mergeInv_def D by (auto simp: dom_def split: if_splits)
  ultimately show ?thesis using inv ok unfolding mergeInv_def D by auto
qed

lemma filterOk_put_node:
  assumes "filterOk i m f" and "gm_get (mNodes m) k = None"
  shows "filterOk i (m\<lparr>mNodes := gm_put k x (mNodes m)\<rparr>) f"
proof -
  have f: "distinct (fst f)" "sorted (fst f)" using assms(1) by (simp_all add: filterOk_def)
  obtain w where w: "gm_get (mNodes m) (snd f) = Some w" "layered (Suc i) w"
    "tvVertices w = map (\<lambda>s. (s, gm_get (mNodes m) s)) (fst f)"
    using assms(1) unfolding filterOk_def by blast
  have "gm_get (mNodes m) s \<noteq> None" if "s \<in> set (fst f)" for s
    using w(2,3) that by (auto split: option.splits)
  then have "k \<notin> set (fst f)" using assms(2) by blast
  then show ?thesis using f w assms(2) unfolding filterOk_def by (auto intro!: exI [of _ w])
qed

lemma mergeStep_ok:
  assumes st: "layerInv m0 i D P st" and v: "layered (Suc i) v" and kids: "\<forall>c \<in> set (tvKids v). (i, c) \<in> D"
    and new: "tvID v \<notin> tvID ` (snd ` D \<union> P)"
  shows "\<exists>st'. mergeStep v st = Inr st' \<and> layerInv m0 i D (insert v P) st'"
proof -
  obtain m filters result where s: "st = (m, filters, result)" by (cases st)
  let ?D = "D \<union> {Suc i} \<times> P"
  have inv: "mergeInv m ?D" and dist: "distinct (map fst filters)"
    and res: "map Some result = map (gm_get (mNodes m) \<circ> snd) filters"
    and fs: "\<forall>f \<in> set filters. filterOk i m f" and reps: "\<forall>v \<in> P. \<exists>w \<in> set result. rep m v = Some w"
    and orig: "\<forall>w \<in> set result. \<exists>v \<in> P. tvID w = tvID v \<and> leavesAt (Suc i) [w] = leavesAt (Suc i) [v]"
    and old: "\<And>k c. (k, c) \<in> D \<Longrightarrow> rep m c = rep m0 c"
    and linked: "\<forall>w \<in> set result. \<forall>u \<in> set (tvKids w). \<exists>c. (i, c) \<in> D \<and> rep m0 c = Some u"
    using st by (auto simp add: s layerInv_def)
  have ids: "tvID ` snd ` ?D = tvID ` (snd ` D \<union> P)" by force
  have fresh: "gm_get (mNodes m) (tvID v) = None" "gm_get (mRefs m) (tvID v) = None"
    using inv new unfolding mergeInv_def ids by (metis not_Some_eq, blast)
  have others: "tvID u \<noteq> tvID v" if "(j, u) \<in> ?D" for j u
  proof -
    have "u \<in> snd ` D \<union> P" using that by force
    then show ?thesis using new by (metis imageI)
  qed
  obtain sig where sig: "signature m v = Inr sig" "distinct sig" "sorted sig"
    "set sig = {tvID w |w c. c \<in> set (tvKids v) \<and> rep m c = Some w}"
    using signature_ok [OF inv v] kids by auto
  note mv = mergedVertex_ok [OF inv v _ sig(2,4)]
  show ?thesis
  proof (cases "find (\<lambda>f. fst f = sig) filters")
    case None
    let ?w = "mergedVertex m v sig"
    let ?m = "m\<lparr>mNodes := gm_put (tvID v) ?w (mNodes m)\<rparr>"
    have w: "tvID ?w = tvID v" by (simp add: mergedVertex_def)
    have rv: "rep ?m v = Some ?w" using fresh by (simp add: rep_def)
    have ro: "rep ?m u = rep m u" if "(k, u) \<in> ?D" for k u
      using others [OF that] by (auto simp: rep_def split: option.splits)
    have ru: "rep ?m u = rep m u" if "u \<in> P" for u using ro [of "Suc i" u] that by simp
    have old': "\<forall>(k, c) \<in> D. rep ?m c = rep m0 c" 
    proof clarify
      fix k c assume "(k, c) \<in> D"
      then show "rep ?m c = rep m0 c" using ro [of k c] old by simp
    qed
    have "mergedOk ?m (Suc i) v"
      unfolding mergedOk_def using mv kids rv w by (intro exI [of _ ?w]) auto
    then have "mergeInv ?m (D \<union> {Suc i} \<times> insert v P)"
      by (intro mergeInv_put_node [OF inv fresh(1)]) (use others w in auto)
    moreover have "filterOk i ?m (sig, tvID v)"
    proof -
      have "tvID v \<notin> set sig"
      proof
        assume "tvID v \<in> set sig"
        then obtain w c where "c \<in> set (tvKids v)" "rep m c = Some w" "tvID v = tvID w" unfolding sig(4) by blast
        then show False using rep_node(1) [OF inv, of i c w] kids fresh(1) by simp
      qed
      then show ?thesis using mv(1) kids mergedVertex_children [OF sig(2), of m v] sig(2,3) by (auto simp: filterOk_def)
    qed
    moreover have "sig \<notin> fst ` set filters" using None by (auto simp: find_None_iff)
    moreover have "map Some (result @ [?w]) = map (gm_get (mNodes ?m) \<circ> snd) (filters @ [(sig, tvID v)])"
    proof -
      have "snd f \<noteq> tvID v" if "f \<in> set filters" for f using fs that fresh(1) by (auto simp: filterOk_def)
      then show ?thesis using res by auto
    qed
    moreover have "\<forall>u \<in> set (tvKids ?w). \<exists>c. (i, c) \<in> D \<and> rep m0 c = Some u"
      using mv(3) kids old by fastforce
    moreover have "mergeStep v st = Inr (?m, filters @ [(sig, tvID v)], result @ [?w])"
      by (simp add: s mergeStep_def sig(1) None Let_def)
    ultimately show ?thesis
      using dist fs reps orig filterOk_put_node [OF _ fresh(1)] rv ru w mv(2) kids old' linked
      by (auto simp: layerInv_def)
  next
    case (Some f)
    then have f: "f \<in> set filters" "fst f = sig" by (auto simp: find_Some_iff)
    then obtain w where w: "gm_get (mNodes m) (snd f) = Some w" "layered (Suc i) w"
      "tvVertices w = tvVertices (mergedVertex m v sig)"
      using fs mergedVertex_children [OF sig(2), of m v] by (auto simp: filterOk_def)
    let ?m = "m\<lparr>mRefs := gm_put (tvID v) (Some w) (mRefs m)\<rparr>"
    have id: "tvID w = snd f" using inv w(1) by (simp add: mergeInv_def)
    have leaves: "leavesAt (Suc i) [w] = leavesAt (Suc i) [v]"
      using mv(2) kids w(3) by (simp add: leavesAt_Suc tvKids_def)
    have rv: "rep ?m v = Some w" by (simp add: rep_def)
    have ro: "rep ?m u = rep m u" if "(k, u) \<in> ?D" for k u
      using others [OF that] by (auto simp: rep_def split: option.splits)
    have ru: "rep ?m u = rep m u" if "u \<in> P" for u using ro [of "Suc i" u] that by simp
    have old': "\<forall>(k, c) \<in> D. rep ?m c = rep m0 c" 
    proof clarify
      fix k c assume "(k, c) \<in> D"
      then show "rep ?m c = rep m0 c" using ro [of k c] old by simp
    qed
    have "w \<in> set result"
    proof -
      have "Some w \<in> set (map (gm_get (mNodes m) \<circ> snd) filters)" using f w(1) by force
      then show ?thesis unfolding res [symmetric] by auto
    qed
    moreover have "mergedOk ?m (Suc i) v" unfolding mergedOk_def using rv w id leaves by auto
    then have "mergeInv ?m (D \<union> {Suc i} \<times> insert v P)"
      by (intro mergeInv_put_ref [OF inv]) (use others in auto)
    moreover have "filterOk i ?m = filterOk i m" by (simp add: filterOk_def fun_eq_iff)
    moreover have "mergeStep v st = Inr (?m, filters, result)"
      by (simp add: s mergeStep_def sig(1) Some w(1))
    ultimately show ?thesis using dist fs reps orig rv ru res old' linked by (auto simp: layerInv_def)
  qed
qed

lemma mergeSteps_ok:
  assumes "layerInv m0 i D P st" and "\<forall>v \<in> set vs. layered (Suc i) v \<and> (\<forall>c \<in> set (tvKids v). (i, c) \<in> D)"
    and "distinct (map tvID vs)" and "tvID ` set vs \<inter> tvID ` (snd ` D \<union> P) = {}"
  shows "\<exists>st'. foldE mergeStep vs st = Inr st' \<and> layerInv m0 i D (P \<union> set vs) st'"
  using assms
proof (induction vs arbitrary: P st)
  case (Cons v vs)
  then obtain st' where st': "mergeStep v st = Inr st'" "layerInv m0 i D (insert v P) st'"
    using mergeStep_ok [OF Cons.prems(1), of v] by auto
  have "tvID ` set vs \<inter> tvID ` (snd ` D \<union> insert v P) = {}" using Cons.prems(3,4) by auto
  with Cons.IH [OF st'(2)] Cons.prems(2,3) st'(1) show ?case by auto
qed simp

lemma mergeLayer_ok:
  assumes "mergeInv m D" and "\<forall>v \<in> set vs. layered (Suc i) v \<and> (\<forall>c \<in> set (tvKids v). (i, c) \<in> D)"
    and "distinct (map tvID vs)" and "tvID ` set vs \<inter> tvID ` snd ` D = {}"
  obtains m' result where "mergeLayer m vs = Inr (m', result)" and "mergeInv m' (D \<union> {Suc i} \<times> set vs)"
    and "mTiers m' = mTiers m" and "distinct (map (set \<circ> gm_keys \<circ> tvVertices) result)"
    and "\<forall>w \<in> set result. layered (Suc i) w \<and> (\<forall>u \<in> set (tvKids w). \<exists>c. (i, c) \<in> D \<and> rep m c = Some u)"
    and "\<forall>v \<in> set vs. \<exists>w \<in> set result. rep m' v = Some w"
    and "\<forall>v \<in> set vs. \<exists>w \<in> set result. leavesAt (Suc i) [w] = leavesAt (Suc i) [v]"
    and "\<forall>w \<in> set result. \<exists>v \<in> set vs. tvID w = tvID v \<and> leavesAt (Suc i) [w] = leavesAt (Suc i) [v]"
proof -
  have "layerInv m i D {} (m, [], [])" using assms(1) by (simp add: layerInv_def)
  from mergeSteps_ok [OF this assms(2,3)] assms(4) obtain m' filters result where
    st: "foldE mergeStep vs (m, [], []) = Inr (m', filters, result)" "layerInv m i D (set vs) (m', filters, result)"
    by auto
  have ti: "mTiers (fst (m', filters, result)) = mTiers m"
    by (rule foldE_inv [OF st(1), where I = "\<lambda>st. mTiers (fst st) = mTiers m"])
      (auto simp: mergeStep_def Let_def split: sum.splits option.splits)
  have fs: "\<forall>f \<in> set filters. filterOk i m' f" and res: "map Some result = map (gm_get (mNodes m') \<circ> snd) filters"
    using st(2) by (simp_all add: layerInv_def)
  have keys: "map (gm_keys \<circ> tvVertices) result = map fst filters"
  proof -
    have "map (gm_keys \<circ> tvVertices) result = map (\<lambda>w. gm_keys (tvVertices (the w))) (map Some result)" by simp
    also have "\<dots> = map (\<lambda>f. gm_keys (tvVertices (the (gm_get (mNodes m') (snd f))))) filters"
      using st(2) by (simp add: layerInv_def comp_def)
    also have "\<dots> = map fst filters" using fs by (intro map_cong) (auto simp: filterOk_def comp_def)
    finally show ?thesis .
  qed
  have "distinct (map (set \<circ> gm_keys \<circ> tvVertices) result)"
  proof -
    have "inj_on set (set (map fst filters))"
      using fs by (intro inj_onI sorted_distinct_set_unique) (auto simp: filterOk_def)
    moreover have "distinct (map fst filters)" using st(2) by (simp add: layerInv_def)
    moreover have "map (set \<circ> gm_keys \<circ> tvVertices) result = map set (map fst filters)"
      unfolding keys [symmetric] by simp
    ultimately show ?thesis by (simp only: distinct_map)
  qed
  moreover have "layered (Suc i) w" if w: "w \<in> set result" for w
  proof -
    have "Some w \<in> set (map Some result)" using w by simp
    then obtain f where "f \<in> set filters" "gm_get (mNodes m') (snd f) = Some w" unfolding res by auto
    then show ?thesis using fs unfolding filterOk_def by fastforce
  qed
  moreover have "\<exists>w \<in> set result. leavesAt (Suc i) [w] = leavesAt (Suc i) [v]" if v: "v \<in> set vs" for v
  proof -
    obtain w where w: "w \<in> set result" "rep m' v = Some w" using st(2) v unfolding layerInv_def by auto
    have "mergedOk m' (Suc i) v" using st(2) v by (auto simp: layerInv_def mergeInv_def)
    then show ?thesis using w by (auto simp: mergedOk_def)
  qed
  ultimately show ?thesis
    using st ti that [of m' result] by (auto simp: mergeLayer_def layerInv_def)
qed

definition tierMerged :: "nat \<Rightarrow> VTree set \<Rightarrow> VTree list \<Rightarrow> bool" where
  "tierMerged j vs T \<longleftrightarrow>
     (\<forall>w \<in> set T. layered j w) \<and> (0 < j \<longrightarrow> distinct (map (set \<circ> gm_keys \<circ> tvVertices) T)) \<and>
     (\<forall>v \<in> vs. \<exists>w \<in> set T. leavesAt j [w] = leavesAt j [v]) \<and>
     (\<forall>w \<in> set T. \<exists>v \<in> vs. tvID w = tvID v \<and> leavesAt j [w] = leavesAt j [v])"

lemma tierMerged_leaves:
  assumes "tierMerged j vs T"
  shows "(\<Union>w \<in> set T. leavesAt j [w]) = (\<Union>v \<in> vs. leavesAt j [v])"
  using assms unfolding tierMerged_def by (intro UN_matched) blast+

definition below :: "nat \<Rightarrow> VTree list \<Rightarrow> nat \<Rightarrow> (nat \<times> VTree) set" where
  "below n tops j = {(i, v). i \<le> j \<and> v \<in> set (levelBelow (n - i) tops)}"

lemma level_kids: "v \<in> set (levelBelow i vs) \<Longrightarrow> c \<in> set (tvKids v) \<Longrightarrow> c \<in> set (levelBelow (Suc i) vs)"
proof (induction i arbitrary: vs)
  case 0
  then show ?case by auto
next
  case (Suc i)
  then show ?case using Suc.IH [of "concat (map tvKids vs)"] by simp
qed

lemma mergeTier_ok:
  assumes tops: "\<forall>v \<in> set tops. layered n v" and ids: "vertexIDsOk n tops" and j: "Suc j \<le> n"
    and ts: "length (mTiers m) = Suc n" "set (mTiers m ! Suc j) = set (levelBelow (n - Suc j) tops)"
      "distinct (map tvID (mTiers m ! Suc j))"
    and inv: "mergeInv m (below n tops j)"
    and reps: "\<forall>c \<in> set (levelBelow (n - j) tops). \<exists>w \<in> set (mTiers m ! j). rep m c = Some w"
  obtains m' T where "mergeTier (Suc j) m = Inr m'" and "mergeInv m' (below n tops (Suc j))"
    and "\<forall>c \<in> set (levelBelow (n - Suc j) tops). \<exists>w \<in> set T. rep m' c = Some w"
    and "\<forall>w \<in> set T. set (tvKids w) \<subseteq> set (mTiers m ! j)"
    and "mTiers m' = (mTiers m)[Suc j := T]" and "tierMerged (Suc j) (set (levelBelow (n - Suc j) tops)) T"
proof -
  let ?vs = "mTiers m ! Suc j"
  have lay: "layered (Suc j) v" if "v \<in> set ?vs" for v
    using level_layered [OF tops, of "n - Suc j" v] that ts(2) j by simp
  have kids: "(j, c) \<in> below n tops j" if "v \<in> set ?vs" "c \<in> set (tvKids v)" for v c
    using level_kids [of v "n - Suc j" tops c] that ts(2) j by (simp add: below_def Suc_diff_Suc)
  have "tvID v \<noteq> tvID u" if "v \<in> set ?vs" "(i, u) \<in> below n tops j" for i u v
  proof
    assume "tvID v = tvID u"
    then have "v = u" using ids that ts(2) unfolding vertexIDsOk_def below_def by (metis (mono_tags, lifting) case_prodD diff_le_self mem_Collect_eq)
    moreover have "layered i u" using level_layered [OF tops, of "n - i" u] that(2) j by (simp add: below_def)
    ultimately have "Suc j = i" using layered_unique [OF lay [OF that(1)]] by blast
    then show False using that(2) by (simp add: below_def)
  qed
  then have disj: "tvID ` set ?vs \<inter> tvID ` snd ` below n tops j = {}" by fastforce
  have pre: "\<forall>v \<in> set ?vs. layered (Suc j) v \<and> (\<forall>c \<in> set (tvKids v). (j, c) \<in> below n tops j)"
    using lay kids by blast
  obtain m' T where m': "mergeLayer m ?vs = Inr (m', T)" "mergeInv m' (below n tops j \<union> {Suc j} \<times> set ?vs)"
    "mTiers m' = mTiers m" "distinct (map (set \<circ> gm_keys \<circ> tvVertices) T)"
    "\<forall>w \<in> set T. layered (Suc j) w \<and> (\<forall>u \<in> set (tvKids w). \<exists>c. (j, c) \<in> below n tops j \<and> rep m c = Some u)"
    "\<forall>v \<in> set ?vs. \<exists>w \<in> set T. rep m' v = Some w"
    "\<forall>v \<in> set ?vs. \<exists>w \<in> set T. leavesAt (Suc j) [w] = leavesAt (Suc j) [v]"
    "\<forall>w \<in> set T. \<exists>v \<in> set ?vs. tvID w = tvID v \<and> leavesAt (Suc j) [w] = leavesAt (Suc j) [v]"
    by (rule mergeLayer_ok [OF inv pre ts(3) disj])
  have "below n tops j \<union> {Suc j} \<times> set ?vs = below n tops (Suc j)"
    unfolding below_def ts(2) by (auto simp: le_Suc_eq)
  then have "mergeInv (m'\<lparr>mTiers := (mTiers m)[Suc j := T]\<rparr>) (below n tops (Suc j))"
    using m'(2) by (simp add: mergeInv_def mergedOk_def rep_def cong: option.case_cong)
  moreover have "mergeTier (Suc j) m = Inr (m'\<lparr>mTiers := (mTiers m)[Suc j := T]\<rparr>)"
    using m'(1,3) by (simp add: mergeTier_def)
  moreover have "\<forall>w \<in> set T. set (tvKids w) \<subseteq> set (mTiers m ! j)"
    using m'(5) reps by (fastforce simp: below_def)
  moreover have "\<forall>c \<in> set (levelBelow (n - Suc j) tops). \<exists>w \<in> set T. rep (m'\<lparr>mTiers := (mTiers m)[Suc j := T]\<rparr>) c = Some w"
    using m'(6) ts(2) by (simp add: rep_def cong: option.case_cong)
  moreover have "tierMerged (Suc j) (set (levelBelow (n - Suc j) tops)) T"
    using m'(4,5,7,8) ts(2) by (simp add: tierMerged_def)
  ultimately show ?thesis using that [of "m'\<lparr>mTiers := (mTiers m)[Suc j := T]\<rparr>" T] by simp
qed

text \<open>
  The tiers below \<open>j\<close> are merged, a merged vertex has its children in the merged tier below, and
  every original vertex of tier \<open>j\<close> has its representative in the merged one.
\<close>

definition tiersMerged :: "nat \<Rightarrow> VTree list \<Rightarrow> nat \<Rightarrow> Merger \<Rightarrow> bool" where
  "tiersMerged n tops j m \<longleftrightarrow> length (mTiers m) = Suc n \<and>
     (\<forall>k \<le> j. tierMerged k (set (levelBelow (n - k) tops)) (mTiers m ! k)) \<and>
     (\<forall>k < j. \<forall>w \<in> set (mTiers m ! Suc k). set (tvKids w) \<subseteq> set (mTiers m ! k))"

lemma mergeTiers_ok:
  assumes tops: "\<forall>v \<in> set tops. layered n v" and ids: "vertexIDsOk n tops" and ts: "tiersOf n tops (mTiers m)"
    and inv: "mergeInv m (below n tops 0)" and reps: "\<forall>c \<in> set (mTiers m ! 0). rep m c = Some c" and j: "j \<le> n"
  shows "\<exists>m'. foldE mergeTier [1..<Suc j] m = Inr m' \<and> mergeInv m' (below n tops j) \<and> tiersMerged n tops j m' \<and>
    (\<forall>c \<in> set (levelBelow (n - j) tops). \<exists>w \<in> set (mTiers m' ! j). rep m' c = Some w) \<and>
    (\<forall>k. j < k \<and> k \<le> n \<longrightarrow> mTiers m' ! k = mTiers m ! k)"
  using j
proof (induction j)
  case 0
  have t0: "set (mTiers m ! 0) = set (levelBelow n tops)" using ts by (simp add: tiersOf_def)
  have "tierMerged 0 (set (levelBelow n tops)) (mTiers m ! 0)"
    using t0 level_layered [OF tops, of n] by (auto simp: tierMerged_def)
  then show ?case using inv ts reps t0 by (auto simp: tiersOf_def tiersMerged_def)
next
  case (Suc j)
  then obtain m1 where m1: "foldE mergeTier [1..<Suc j] m = Inr m1" "mergeInv m1 (below n tops j)"
    "tiersMerged n tops j m1" "\<forall>c \<in> set (levelBelow (n - j) tops). \<exists>w \<in> set (mTiers m1 ! j). rep m1 c = Some w"
    "\<forall>k. j < k \<and> k \<le> n \<longrightarrow> mTiers m1 ! k = mTiers m ! k" by auto
  have len: "length (mTiers m1) = Suc n" using m1(3) by (simp add: tiersMerged_def)
  have "mTiers m1 ! Suc j = mTiers m ! Suc j" using m1(5) Suc.prems by simp
  then have tier: "set (mTiers m1 ! Suc j) = set (levelBelow (n - Suc j) tops)" "distinct (map tvID (mTiers m1 ! Suc j))"
    using ts Suc.prems by (simp_all add: tiersOf_def)
  obtain m' T where m': "mergeTier (Suc j) m1 = Inr m'" "mergeInv m' (below n tops (Suc j))"
    "\<forall>c \<in> set (levelBelow (n - Suc j) tops). \<exists>w \<in> set T. rep m' c = Some w"
    "\<forall>w \<in> set T. set (tvKids w) \<subseteq> set (mTiers m1 ! j)" "mTiers m' = (mTiers m1)[Suc j := T]"
    "tierMerged (Suc j) (set (levelBelow (n - Suc j) tops)) T"
    by (rule mergeTier_ok [OF tops ids Suc.prems len tier m1(2,4)])
  have at: "mTiers m' ! Suc j = T" and keep: "\<And>k. k \<le> j \<Longrightarrow> mTiers m' ! k = mTiers m1 ! k"
    using m'(5) len Suc.prems by (simp_all add: nth_list_update)
  have "tiersMerged n tops (Suc j) m'"
    using m1(3) m'(4-6) Suc.prems at keep by (auto simp: tiersMerged_def le_Suc_eq less_Suc_eq)
  moreover have "foldE mergeTier [1..<Suc (Suc j)] m = Inr m'" using m1(1) m'(1) by (simp add: foldE_append)
  ultimately show ?case using m' m1(5) len Suc.prems by (intro exI [of _ m']) (simp add: nth_list_update)
qed

lemma addLeaf_get:
  assumes "\<forall>v \<in> set vs. tvVertices v = []" and "distinct (map tvID vs)"
  shows "gm_get (fold addLeaf vs ns) k = (case find (\<lambda>v. tvID v = k) vs of Some v \<Rightarrow> Some v | None \<Rightarrow> gm_get ns k)"
  using assms
proof (induction vs arbitrary: ns)
  case (Cons v vs)
  have "find (\<lambda>u. tvID u = k) vs = None" if "tvID v = k"
    using Cons.prems(2) that by (auto simp: find_None_iff image_iff)
  then show ?case using Cons by (auto simp: addLeaf_def split: option.splits)
qed simp

lemma mergeInv_leaves:
  assumes "\<forall>v \<in> set vs. tvVertices v = []" and "distinct (map tvID vs)"
    and "mNodes m = fold addLeaf vs []" and "mRefs m = []"
  shows "mergeInv m ({0} \<times> set vs)" and "\<forall>v \<in> set vs. rep m v = Some v"
proof -
  have find: "find (\<lambda>u. tvID u = tvID v) vs = Some v" if "v \<in> set vs" for v
    using that assms(2) by (induction vs) auto
  have get: "gm_get (mNodes m) k = Some w \<longleftrightarrow> w \<in> set vs \<and> tvID w = k" for k w
  proof
    assume "gm_get (mNodes m) k = Some w"
    then have "find (\<lambda>v. tvID v = k) vs = Some w"
      unfolding assms(3) addLeaf_get [OF assms(1,2)] by (simp split: option.splits)
    then show "w \<in> set vs \<and> tvID w = k" by (auto simp: find_Some_iff)
  next
    assume "w \<in> set vs \<and> tvID w = k"
    then show "gm_get (mNodes m) k = Some w" unfolding assms(3) addLeaf_get [OF assms(1,2)] using find by force
  qed
  then show "mergeInv m ({0} \<times> set vs)" using assms(1,4) by (auto simp: mergeInv_def mergedOk_def rep_def image_iff)
  show "\<forall>v \<in> set vs. rep m v = Some v" using get assms(4) by (simp add: rep_def)
qed

lemma tiersMerged_cong: "set tops = set tops' \<Longrightarrow> tiersMerged n tops j m = tiersMerged n tops' j m"
  unfolding tiersMerged_def using level_cong [of tops tops'] by simp

lemma Merge_returns:
  assumes ne: "tops \<noteq> []" and lay: "\<forall>v \<in> set tops. layered n v" and dist: "distinct (map tvID tops)"
    and ids: "vertexIDsOk n tops"
  shows "\<exists>m m'. NewMerger tops = Some (Inr m) \<and> Merge m = Inr m' \<and> tiersMerged n tops n m' \<and>
    leafIDs (TopTier m') = leafIDs tops \<and> tierMerged n (set tops) (TopTier m')"
proof -
  let ?tops = "sort_key tvID tops"
  have lay': "\<forall>v \<in> set ?tops. layered n v" and ids': "vertexIDsOk n ?tops"
    using lay ids level_cong [of ?tops tops] by (simp_all add: vertexIDsOk_def)
  have dist': "distinct (map tvID ?tops)"
    using dist by (metis mset_map mset_sort mset_eq_imp_distinct_iff)
  obtain ts where ts: "traverse (map Some ?tops) emptyMerger =
      Some (Inr (emptyMerger\<lparr>mNodes := fold addLeaf (hd ts) (mNodes emptyMerger), mTiers := mTiers emptyMerger @ ts\<rparr>))"
    "tiersOf n ?tops ts"
    using traverse_layered [OF lay' _ dist' ids', of emptyMerger] ne by (metis set_empty set_sort)
  let ?m = "emptyMerger\<lparr>mNodes := fold addLeaf (hd ts) [], mTiers := ts\<rparr>"
  have new: "NewMerger tops = Some (Inr ?m)" using ts(1) ne by (simp add: NewMerger_def emptyMerger_def)
  have hd: "hd ts = ts ! 0" using ts(2) by (cases ts) (auto simp: tiersOf_def)
  have leaf: "\<forall>v \<in> set (hd ts). tvVertices v = []" and dist0: "distinct (map tvID (hd ts))"
    using ts(2) level_layered [OF lay', of n] unfolding hd tiersOf_def by fastforce+
  have base: "mergeInv ?m ({0} \<times> set (hd ts))" "\<forall>v \<in> set (hd ts). rep ?m v = Some v"
    by (rule mergeInv_leaves [OF leaf dist0]; simp add: emptyMerger_def)+
  have "{0} \<times> set (hd ts) = below n ?tops 0" using ts(2) by (auto simp: hd tiersOf_def below_def)
  then have "mergeInv ?m (below n ?tops 0)" using base(1) by simp
  from mergeTiers_ok [OF lay' ids' _ this, of n] ts(2) base(2) obtain m' where m':
    "foldE mergeTier [1..<Suc n] ?m = Inr m'" "tiersMerged n ?tops n m'"
    by (auto simp: hd)
  have "Merge ?m = Inr m'" using m'(1) ts(2) by (simp add: Merge_def tiersOf_def)
  moreover have tt: "TopTier m' = mTiers m' ! n" using m'(2) by (auto simp: TopTier_def last_conv_nth tiersMerged_def)
  moreover have top: "tierMerged n (set tops) (TopTier m')"
    using m'(2) unfolding tiersMerged_def tt by (metis diff_self_eq_0 levelBelow.simps(1) order_refl set_sort)
  moreover have "leafIDs (TopTier m') = leafIDs tops"
  proof -
    have "\<forall>w \<in> set (TopTier m'). layered n w" using top by (simp add: tierMerged_def)
    from leafIDs_layered [OF this] leafIDs_layered [OF lay] tierMerged_leaves [OF top] show ?thesis
      using leavesAt_union [of n tops] leavesAt_union [of n "TopTier m'"] by simp
  qed
  moreover have "tiersMerged n tops n m'" using m'(2) tiersMerged_cong [of ?tops tops] by simp
  ultimately show ?thesis using new by blast
qed

text \<open>
  C40. On a hierarchy of uniform depth in which an ID names one vertex the merger returns without a
  panic, and the nodes below its result are exactly those of the input. In every tier, a merged
  vertex is one of the input with the same nodes below it, every vertex of the input has such a
  representative, no two merged vertices have the same set of children, and the children of a merged
  vertex are merged vertices of the tier below.
\<close>

theorem Merge_keeps_nodes:
  assumes "tops \<noteq> []" and "\<forall>v \<in> set tops. layered n v" and "distinct (map tvID tops)" and "vertexIDsOk n tops"
  shows "\<exists>m m'. NewMerger tops = Some (Inr m) \<and> Merge m = Inr m' \<and> tiersMerged n tops n m' \<and>
    leafIDs (TopTier m') = leafIDs tops \<and> tierMerged n (set tops) (TopTier m')"
  by (rule Merge_returns [OF assms])

text \<open>Two spines over the same two leaf switches.\<close>

definition demoSpines :: "VTree list" where
  "demoSpines =
     (let node = (\<lambda>n. VTree n n []);
          leaf = (\<lambda>i n. VTree i [] [(n, Some (node n))]);
          a = leaf ''leaf1'' ''n1''; b = leaf ''leaf2'' ''n2''
      in [VTree ''spine1'' [] [(''leaf1'', Some a), (''leaf2'', Some b)],
          VTree ''spine2'' [] [(''leaf2'', Some b), (''leaf1'', Some a)]])"

lemma Merge_keeps_nodes_witness:
  "\<exists>m m'. NewMerger demoSpines = Some (Inr m) \<and> Merge m = Inr m' \<and> tiersMerged 2 demoSpines 2 m' \<and>
    leafIDs (TopTier m') = leafIDs demoSpines \<and> tierMerged 2 (set demoSpines) (TopTier m')"
proof (rule Merge_keeps_nodes)
  show "vertexIDsOk 2 demoSpines"
    unfolding vertexIDsOk_def numeral_2_eq_2 le_Suc_eq by (auto simp: demoSpines_def Let_def tvKids_def map_filter_def)
qed (simp_all add: demoSpines_def Let_def numeral_2_eq_2 gm_wf_def)

end
