(* ===== verification/Layers.thy ===== *)
theory Layers
  imports Merger
begin

text \<open>
  What the providers that build a hierarchy level by level promise (\<open>pkg/ib\<close>, \<open>pkg/providers/netq\<close>),
  independently of how they do it. \<open>L\<close> are the names of the nodes, \<open>P\<close> those of the switches and
  \<open>up i u\<close> says that \<open>u\<close> is linked above \<open>i\<close>. A switch stands at the length of the shortest way up to it from a
  node, and the nodes below it are those from which it is reached in as many links. The hierarchy
  consists of the switches that stand highest.
\<close>

section \<open>Specification\<close>

inductive climb :: "(string \<Rightarrow> string \<Rightarrow> bool) \<Rightarrow> string set \<Rightarrow> string set \<Rightarrow> nat \<Rightarrow> string \<Rightarrow> string \<Rightarrow> bool"
  for up L P where
  climb_0: "x \<in> L \<Longrightarrow> climb up L P 0 x x"
| climb_Suc: "climb up L P k x i \<Longrightarrow> up i u \<Longrightarrow> u \<in> P \<Longrightarrow> climb up L P (Suc k) x u"

inductive_simps climb_0_iff: "climb up L P 0 x u"
inductive_simps climb_Suc_iff: "climb up L P (Suc k) x u"

definition standsAt :: "(string \<Rightarrow> string \<Rightarrow> bool) \<Rightarrow> string set \<Rightarrow> string set \<Rightarrow> nat \<Rightarrow> string \<Rightarrow> bool" where
  "standsAt up L P k u \<longleftrightarrow> (\<exists>x. climb up L P k x u) \<and> (\<forall>j < k. \<forall>x. \<not> climb up L P j x u)"

text \<open>The roots of the hierarchy are the vertices of the greatest height, each with the nodes that reach it.\<close>

definition isHeight :: "(string \<Rightarrow> string \<Rightarrow> bool) \<Rightarrow> string set \<Rightarrow> string set \<Rightarrow> nat \<Rightarrow> bool" where
  "isHeight up L P n \<longleftrightarrow> (\<forall>j > n. \<forall>u. \<not> standsAt up L P j u) \<and> (n = 0 \<or> (\<exists>u. standsAt up L P n u))"

definition highest :: "(string \<Rightarrow> string \<Rightarrow> bool) \<Rightarrow> string set \<Rightarrow> string set \<Rightarrow> nat \<Rightarrow> VTree list \<Rightarrow> bool" where
  "highest up L P n vs \<longleftrightarrow> isHeight up L P n \<and>
     (\<forall>v \<in> set vs. standsAt up L P n (tvID v) \<and> (\<forall>x. leafOf v x \<longleftrightarrow> climb up L P n x (tvID v))) \<and>
     leafIDs vs = {x. \<exists>u. standsAt up L P n u \<and> climb up L P n x u}"

lemma isHeight_unique: "isHeight up L P n \<Longrightarrow> isHeight up L P m \<Longrightarrow> n = m"
  unfolding isHeight_def by (metis linorder_neqE_nat not_less0)

lemma standsAt_below:
  assumes "standsAt up L P (Suc k) u" and "climb up L P k x i" and "up i u" and "u \<in> P"
  shows "standsAt up L P k i"
proof -
  have "\<not> climb up L P j y i" if "j < k" for j y
    using assms(1,3,4) that climb_Suc [of up L P j y i u] unfolding standsAt_def by auto
  then show ?thesis using assms(2) unfolding standsAt_def by blast
qed

lemma standsAt_Suc_iff:
  "standsAt up L P (Suc k) u \<longleftrightarrow>
     u \<in> P \<and> (\<forall>j \<le> k. \<forall>x. \<not> climb up L P j x u) \<and> (\<exists>i. standsAt up L P k i \<and> up i u)"
  (is "_ \<longleftrightarrow> ?R")
proof
  assume u: "standsAt up L P (Suc k) u"
  then obtain x i where "climb up L P k x i" "up i u" "u \<in> P" unfolding standsAt_def climb_Suc_iff by blast
  then show ?R using standsAt_below [OF u] u unfolding standsAt_def by (auto simp: less_Suc_eq_le)
next
  assume ?R
  then show "standsAt up L P (Suc k) u"
    unfolding standsAt_def climb_Suc_iff less_Suc_eq_le by blast
qed

lemma standsAt_end: "(\<And>u. \<not> standsAt up L P (Suc n) u) \<Longrightarrow> n < j \<Longrightarrow> \<not> standsAt up L P j u"
proof (induction j arbitrary: u)
  case (Suc j)
  then show ?case using standsAt_Suc_iff [of up L P j u] by (cases "n = j") auto
qed simp

section \<open>Levels\<close>

text \<open>
  The state of the builders after \<open>k\<close> levels: \<open>layer\<close> are the vertices of the level, \<open>pool\<close> the switches
  that were not reached.
\<close>

definition levelExact ::
  "(string \<Rightarrow> string \<Rightarrow> bool) \<Rightarrow> string set \<Rightarrow> string set \<Rightarrow> nat \<Rightarrow> (string \<times> VTree) set \<Rightarrow> string set \<Rightarrow> bool" where
  "levelExact up L P k layer pool \<longleftrightarrow>
     fst ` layer = {u. standsAt up L P k u} \<and>
     (\<forall>(u, v) \<in> layer. \<forall>x. leafOf v x \<longleftrightarrow> climb up L P k x u) \<and>
     pool = {u \<in> P. \<forall>j \<le> k. \<forall>x. \<not> climb up L P j x u}"

text \<open>One level: the switches of the pool that are linked above the level, each over all it is linked to.\<close>

definition nextLevel ::
  "(string \<Rightarrow> string \<Rightarrow> bool) \<Rightarrow> (string \<times> VTree) set \<Rightarrow> string set \<Rightarrow> (string \<times> VTree) set \<Rightarrow> string set \<Rightarrow> bool" where
  "nextLevel up layer pool nxt pool' \<longleftrightarrow>
     fst ` nxt = {u \<in> pool. \<exists>i \<in> fst ` layer. up i u} \<and> pool' = pool - fst ` nxt \<and>
     (\<forall>(u, v) \<in> nxt. tvVertices v \<noteq> [] \<and> (\<forall>i w. (i, Some w) \<in> set (tvVertices v) \<longleftrightarrow> (i, w) \<in> layer \<and> up i u))"

lemma levelExact_0:
  assumes "L \<inter> P = {}" and "fst ` layer = L" and "\<forall>(u, v) \<in> layer. tvID v = u \<and> tvVertices v = []"
  shows "levelExact up L P 0 layer P"
proof -
  have "standsAt up L P 0 u \<longleftrightarrow> u \<in> L" for u by (auto simp: standsAt_def climb_0_iff)
  moreover have "leafOf v x \<longleftrightarrow> climb up L P 0 x u" if "(u, v) \<in> layer" for u v x
  proof -
    have v: "tvID v = u" "tvVertices v = []" using bspec [OF assms(3) that] by simp_all
    moreover have "u \<in> L" unfolding assms(2) [symmetric] using that by (rule rev_image_eqI) simp
    moreover have "leafOf v x \<longleftrightarrow> x = u" using v unfolding leafOf_iff [of v] by simp
    ultimately show ?thesis by (auto simp: climb_0_iff)
  qed
  moreover have "P = {u \<in> P. \<forall>j \<le> 0. \<forall>x. \<not> climb up L P j x u}" using assms(1) by (auto simp: climb_0_iff)
  ultimately show ?thesis unfolding levelExact_def assms(2) by blast
qed

lemma levelExact_keys:
  assumes ok: "levelExact up L P k layer pool" and nx: "nextLevel up layer pool nxt pool'"
  shows "fst ` nxt = {u. standsAt up L P (Suc k) u}"
  using ok nx unfolding levelExact_def nextLevel_def standsAt_Suc_iff by auto

lemma levelExact_step:
  assumes ok: "levelExact up L P k layer pool" and nx: "nextLevel up layer pool nxt pool'"
  shows "levelExact up L P (Suc k) nxt pool'"
proof -
  note keys = levelExact_keys [OF assms]
  have leaves: "leafOf v x \<longleftrightarrow> climb up L P (Suc k) x u" if mem: "(u, v) \<in> nxt" for u v x
  proof -
    have u: "standsAt up L P (Suc k) u" using keys mem by force
    have v: "tvVertices v \<noteq> []" "\<And>i w. (i, Some w) \<in> set (tvVertices v) \<longleftrightarrow> (i, w) \<in> layer \<and> up i u"
      using nx mem unfolding nextLevel_def by blast+
    have lay: "leafOf w x \<longleftrightarrow> climb up L P k x i" if "(i, w) \<in> layer" for i w
      using ok that unfolding levelExact_def by blast
    have "leafOf v x \<longleftrightarrow> (\<exists>i w. (i, w) \<in> layer \<and> up i u \<and> leafOf w x)"
      unfolding leafOf_iff [of v] using v by blast
    also have "\<dots> \<longleftrightarrow> (\<exists>i. i \<in> fst ` layer \<and> up i u \<and> climb up L P k x i)" using lay by force
    also have "\<dots> \<longleftrightarrow> climb up L P (Suc k) x u"
    proof -
      have "u \<in> P" using u unfolding standsAt_Suc_iff by blast
      moreover have "fst ` layer = {u. standsAt up L P k u}" using ok by (simp add: levelExact_def)
      ultimately show ?thesis unfolding climb_Suc_iff using standsAt_below [OF u] by blast
    qed
    finally show ?thesis .
  qed
  have "pool' = {u \<in> P. \<forall>j \<le> Suc k. \<forall>x. \<not> climb up L P j x u}"
  proof -
    have "pool' = {u \<in> P. (\<forall>j \<le> k. \<forall>x. \<not> climb up L P j x u) \<and> \<not> standsAt up L P (Suc k) u}"
    proof -
      have "pool' = pool - {u. standsAt up L P (Suc k) u}" "pool = {u \<in> P. \<forall>j \<le> k. \<forall>x. \<not> climb up L P j x u}"
        using nx ok by (simp_all only: nextLevel_def levelExact_def keys)
      then show ?thesis by auto
    qed
    then show ?thesis unfolding standsAt_def le_Suc_eq less_Suc_eq_le by blast
  qed
  then show ?thesis using keys leaves unfolding levelExact_def by blast
qed

lemma levelExact_highest:
  assumes ok: "levelExact up L P n (set layer) pool" and nx: "nextLevel up (set layer) pool {} pool'"
    and "n = 0 \<or> layer \<noteq> []" and ids: "\<forall>(u, v) \<in> set layer. tvID v = u"
  shows "highest up L P n (map snd layer)"
proof -
  have "\<not> standsAt up L P (Suc n) u" for u using levelExact_keys [OF ok nx] by simp
  from standsAt_end [OF this] have "\<forall>j > n. \<forall>u. \<not> standsAt up L P j u" by blast
  moreover have lay: "fst ` set layer = {u. standsAt up L P n u}" "\<And>u v x. (u, v) \<in> set layer \<Longrightarrow> leafOf v x \<longleftrightarrow> climb up L P n x u"
    using ok unfolding levelExact_def by blast+
  moreover have "n = 0 \<or> (\<exists>u. standsAt up L P n u)" using assms(3) lay(1) by (cases layer) auto
  moreover have "leafIDs (map snd layer) = {x. \<exists>u. standsAt up L P n u \<and> climb up L P n x u}"
  proof -
    have "x \<in> leafIDs (map snd layer) \<longleftrightarrow> (\<exists>u \<in> fst ` set layer. climb up L P n x u)" for x
      unfolding leafIDs_def using lay(2) by force
    then show ?thesis unfolding lay(1) by blast
  qed
  moreover have "standsAt up L P n (tvID v) \<and> (\<forall>x. leafOf v x \<longleftrightarrow> climb up L P n x (tvID v))" if "v \<in> snd ` set layer" for v
  proof -
    obtain u where u: "(u, v) \<in> set layer" using \<open>v \<in> snd ` set layer\<close> by auto
    then have "tvID v = u" "u \<in> fst ` set layer" using ids by force+
    then show ?thesis using lay(1) lay(2) [OF u] by auto
  qed
  ultimately show ?thesis unfolding highest_def isHeight_def by auto
qed

text \<open>Merging keeps the specification: a merged vertex has the ID and the nodes of a vertex of the input.\<close>

lemma highest_merged:
  assumes hi: "highest up L P n vs" and lay: "\<forall>v \<in> set vs. layered m v" and mg: "tierMerged m (set vs) T"
  shows "highest up L P n T"
proof -
  have layT: "\<forall>w \<in> set T. layered m w" using mg by (simp add: tierMerged_def)
  have "leafIDs T = leafIDs vs"
    using leafIDs_layered [OF lay] leafIDs_layered [OF layT] tierMerged_leaves [OF mg] leavesAt_union [of m T] leavesAt_union [of m vs]
    by simp
  moreover have "standsAt up L P n (tvID w) \<and> (\<forall>x. leafOf w x \<longleftrightarrow> climb up L P n x (tvID w))" if w: "w \<in> set T" for w
  proof -
    obtain v where v: "v \<in> set vs" "tvID w = tvID v" "leavesAt m [w] = leavesAt m [v]"
      using mg w unfolding tierMerged_def by blast
    have "leafOf w x \<longleftrightarrow> leafOf v x" for x
      using leafOf_layered [of m w x] leafOf_layered [of m v x] lay layT v w by simp
    then show ?thesis using hi v(1,2) by (simp add: highest_def)
  qed
  ultimately show ?thesis using hi unfolding highest_def by simp
qed

end
