(* ===== verification/Ib.thy ===== *)
theory Ib
  imports IbParse Layers Request Domains
begin

text \<open>
  Component \<open>pkg/ib\<close>: from the switches and adapters of an InfiniBand fabric to a hierarchy of
  switches. Host names of adapters are matched with the nodes of the cluster, the hierarchy is built
  level by level from the switches that nodes are attached to, and equivalent switches are merged.

  Vertices are values as in \<open>Merger\<close>: their children are complete when they are created.
\<close>

section \<open>Model\<close>

subsection \<open>Host names\<close>

definition shortHostName :: "string \<Rightarrow> string" where
  "shortHostName name = (if ParseIP name then name else takeWhile (\<lambda>c. c \<noteq> CHR ''.'') name)"

definition isShortHostName :: "string \<Rightarrow> bool" where
  "isShortHostName name \<longleftrightarrow> shortHostName name = name"

type_synonym reports = "(string, (string, bool) gomap) gomap"

definition namesAt :: "reports \<Rightarrow> string \<Rightarrow> (string, bool) gomap" where
  "namesAt reported node = (case gm_get reported node of Some names \<Rightarrow> names | None \<Rightarrow> [])"

definition addReported :: "string \<Rightarrow> string \<Rightarrow> reports \<Rightarrow> reports" where
  "addReported node name reported = gm_put node (gm_put name True (namesAt reported node)) reported"

definition byShort :: "(string, bool) gomap \<Rightarrow> (string, string list) gomap" where
  "byShort nodes =
     fold (\<lambda>node m. gm_put (shortHostName node)
       ((case gm_get m (shortHostName node) of Some ns \<Rightarrow> ns | None \<Rightarrow> []) @ [node]) m) (gm_keys nodes) []"

definition candidatesFor :: "(string, string list) gomap \<Rightarrow> string \<Rightarrow> string list" where
  "candidatesFor byShortName name =
     filter (\<lambda>node. isShortHostName name \<or> isShortHostName node)
       (case gm_get byShortName (shortHostName name) of Some ns \<Rightarrow> ns | None \<Rightarrow> [])"

record resolveState =
  rsResolved :: "(string, string) gomap"
  rsReported :: reports
  rsFallback :: "(string, string) gomap"

definition inCluster :: "(string, bool) gomap \<Rightarrow> string \<Rightarrow> bool" where
  "inCluster nodes name \<longleftrightarrow> gm_get nodes name = Some True"

definition resolveOne :: "(string, bool) gomap \<Rightarrow> (string, string list) gomap \<Rightarrow> string \<times> string \<Rightarrow> resolveState \<Rightarrow> resolveState" where
  "resolveOne nodes byShortName = (\<lambda>(ident, name) st.
     (let st = st\<lparr>rsResolved := gm_put ident name (rsResolved st)\<rparr>
      in if inCluster nodes name then st\<lparr>rsReported := addReported name name (rsReported st)\<rparr>
         else
           (case candidatesFor byShortName name of
              [c] \<Rightarrow> st\<lparr>rsFallback := gm_put ident c (rsFallback st), rsReported := addReported c name (rsReported st)\<rparr>
            | _ \<Rightarrow> st)))"

definition applyFallback :: "reports \<Rightarrow> string \<times> string \<Rightarrow> (string, string) gomap \<Rightarrow> (string, string) gomap" where
  "applyFallback reported = (\<lambda>(ident, node) resolved.
     if length (namesAt reported node) > 1 then resolved else gm_put ident node resolved)"

definition resolveNodeNames :: "(string, string) gomap \<Rightarrow> (string, bool) gomap \<Rightarrow> (string, string) gomap" where
  "resolveNodeNames hca nodes =
     (let st = fold (resolveOne nodes (byShort nodes)) hca \<lparr>rsResolved = [], rsReported = [], rsFallback = []\<rparr>
      in fold (applyFallback (rsReported st)) (rsFallback st) (rsResolved st))"

subsection \<open>The hierarchy\<close>

type_synonym switches = "(string, Switch) gomap"
type_synonym vertices = "(string, VTree) gomap"

definition attachNode :: "(string, string) gomap \<Rightarrow> (string, bool) gomap \<Rightarrow> string \<Rightarrow> Switch \<Rightarrow> Switch" where
  "attachNode hca nodes conID sw =
     (case gm_get hca conID of
        None \<Rightarrow> sw
      | Some nodeName \<Rightarrow>
          (let sw = (if nodeName \<noteq> [] \<and> gm_get nodes nodeName \<noteq> None
                     then sw\<lparr>swNodes := gm_put conID nodeName (swNodes sw)\<rparr> else sw)
           in sw\<lparr>swConn := gm_del conID (swConn sw)\<rparr>))"

definition attachNodes :: "(string, string) gomap \<Rightarrow> (string, bool) gomap \<Rightarrow> Switch \<Rightarrow> Switch" where
  "attachNodes hca nodes sw = fold (attachNode hca nodes) (gm_keys (swConn sw)) sw"

definition leafVertex :: "string \<Rightarrow> Switch \<Rightarrow> VTree" where
  "leafVertex ident sw = VTree ident [] (fold (\<lambda>n. gm_put n (Some (VTree n n []))) (gm_vals (swNodes sw)) [])"

text \<open>The first pass: the switches after it, the vertices and the first level.\<close>

definition leafStep ::
  "(string, string) gomap \<Rightarrow> (string, bool) gomap \<Rightarrow> string \<times> Switch \<Rightarrow> switches \<times> vertices \<Rightarrow> switches \<times> vertices" where
  "leafStep hca nodes = (\<lambda>(ident, sw) (sws, level).
     (let sw = attachNodes hca nodes sw
      in if swNodes sw \<noteq> []
         then (sws @ [(ident, sw\<lparr>swConn := []\<rparr>)], gm_put ident (leafVertex ident sw) level)
         else (sws @ [(ident, sw)], level)))"

definition childrenIn :: "vertices \<Rightarrow> Switch \<Rightarrow> (string \<times> VTree option) list" where
  "childrenIn level sw =
     fold (\<lambda>conID children. case gm_get level conID of Some child \<Rightarrow> gm_put conID (Some child) children | None \<Rightarrow> children)
       (gm_keys (swConn sw)) []"

type_synonym levelState = "switches \<times> vertices \<times> vertices"

definition upperStep :: "vertices \<Rightarrow> string \<times> Switch \<Rightarrow> levelState \<Rightarrow> levelState" where
  "upperStep level = (\<lambda>(ident, sw) (sws, vs, upper).
     (if gm_get vs ident \<noteq> None then (sws @ [(ident, sw)], vs, upper)
      else
        (let children = childrenIn level sw
         in if children = [] then (sws @ [(ident, sw)], vs, upper)
            else
              (let v = VTree ident [] children
               in (sws @ [(ident, sw\<lparr>swConn := []\<rparr>)], gm_put ident v vs, gm_put ident v upper)))))"

definition upperLevel :: "switches \<Rightarrow> vertices \<Rightarrow> vertices \<Rightarrow> levelState" where
  "upperLevel sws vs level = fold (upperStep level) sws ([], vs, [])"

lemma upperStep_skip:
  "gm_get vs k \<noteq> None \<or> childrenIn level sw = [] \<Longrightarrow>
     upperStep level (k, sw) (sws, vs, upper) = (sws @ [(k, sw)], vs, upper)"
  by (auto simp: upperStep_def Let_def)

lemma upperStep_add:
  "gm_get vs k = None \<Longrightarrow> childrenIn level sw \<noteq> [] \<Longrightarrow>
     upperStep level (k, sw) (sws, vs, upper) =
       (sws @ [(k, sw\<lparr>swConn := []\<rparr>)], gm_put k (VTree k [] (childrenIn level sw)) vs,
        gm_put k (VTree k [] (childrenIn level sw)) upper)"
  by (simp add: upperStep_def Let_def)

lemma upperStep_fold:
  assumes "fold (upperStep level) xs (sws, vs, upper) = (sws', vs', upper')"
  shows "gm_keys sws' = gm_keys sws @ gm_keys xs \<and>
    (\<exists>new. set (gm_keys vs') = set (gm_keys vs) \<union> new \<and> set (gm_keys upper') = set (gm_keys upper) \<union> new \<and>
       new \<subseteq> set (gm_keys xs) - set (gm_keys vs))"
  using assms
proof (induction xs arbitrary: sws vs upper)
  case Nil
  then show ?case by auto
next
  case (Cons x xs)
  obtain ident sw where x: "x = (ident, sw)" by (cases x)
  show ?case
  proof (cases "gm_get vs ident \<noteq> None \<or> childrenIn level sw = []")
    case True
    then have "fold (upperStep level) xs (sws @ [(ident, sw)], vs, upper) = (sws', vs', upper')"
      using Cons.prems upperStep_skip by (simp add: x)
    from Cons.IH [OF this] obtain new where "gm_keys sws' = gm_keys sws @ gm_keys (x # xs)"
      "set (gm_keys vs') = set (gm_keys vs) \<union> new \<and> set (gm_keys upper') = set (gm_keys upper) \<union> new \<and>
       new \<subseteq> set (gm_keys xs) - set (gm_keys vs)" by (auto simp: x)
    moreover from this have "new \<subseteq> set (gm_keys (x # xs)) - set (gm_keys vs)" by auto
    ultimately show ?thesis by blast
  next
    case False
    let ?v = "VTree ident [] (childrenIn level sw)"
    have "fold (upperStep level) xs (sws @ [(ident, sw\<lparr>swConn := []\<rparr>)], gm_put ident ?v vs, gm_put ident ?v upper) =
        (sws', vs', upper')"
      using False Cons.prems by (simp add: x upperStep_add)
    from Cons.IH [OF this] obtain new where new: "gm_keys sws' = gm_keys sws @ gm_keys (x # xs)"
      "set (gm_keys vs') = set (gm_keys (gm_put ident ?v vs)) \<union> new"
      "set (gm_keys upper') = set (gm_keys (gm_put ident ?v upper)) \<union> new"
      "new \<subseteq> set (gm_keys xs) - set (gm_keys (gm_put ident ?v vs))"
      by (auto simp: x)
    from new(2,3) have "set (gm_keys vs') = set (gm_keys vs) \<union> insert ident new"
      "set (gm_keys upper') = set (gm_keys upper) \<union> insert ident new" by (auto simp: dom_update)
    moreover from new(4) have "new \<subseteq> set (gm_keys xs) - set (gm_keys vs)" by (auto simp: dom_update)
    moreover have "ident \<notin> set (gm_keys vs)" using False by (auto simp: map_of_eq_None_iff)
    ultimately have "set (gm_keys vs') = set (gm_keys vs) \<union> insert ident new \<and>
        set (gm_keys upper') = set (gm_keys upper) \<union> insert ident new \<and>
        insert ident new \<subseteq> set (gm_keys (x # xs)) - set (gm_keys vs)" by (auto simp: x)
    then show ?thesis using new(1) by blast
  qed
qed

text \<open>The loop over the levels ends: every pass that continues turns a switch into a vertex.\<close>

lemma upperLevel_decreases:
  assumes "(sws', vs', upper) = upperLevel sws vs level" and "upper \<noteq> []"
  shows "card (set (gm_keys sws') - set (gm_keys vs')) < card (set (gm_keys sws) - set (gm_keys vs))"
proof -
  from assms(1) have "fold (upperStep level) sws ([], vs, []) = (sws', vs', upper)" by (simp add: upperLevel_def)
  from upperStep_fold [OF this] obtain new where new: "gm_keys sws' = gm_keys sws"
    "set (gm_keys vs') = set (gm_keys vs) \<union> new" "set (gm_keys upper) = new" "new \<subseteq> set (gm_keys sws) - set (gm_keys vs)"
    by auto
  from new(3) assms(2) obtain x where "x \<in> new" by (cases upper) auto
  then have "x \<in> set (gm_keys sws) - set (gm_keys vs)" "x \<notin> set (gm_keys sws') - set (gm_keys vs')" using new by auto
  moreover have "set (gm_keys sws') - set (gm_keys vs') \<subseteq> set (gm_keys sws) - set (gm_keys vs)"
    unfolding new(1,2) by blast
  ultimately show ?thesis by (intro psubset_card_mono) auto
qed

function buildLevels :: "switches \<Rightarrow> vertices \<Rightarrow> vertices \<Rightarrow> vertices" where
  "buildLevels sws vs level =
     (case upperLevel sws vs level of
        (sws', vs', upper) \<Rightarrow> if upper = [] then level else buildLevels sws' vs' upper)"
  by pat_completeness auto
termination
  by (relation "measure (\<lambda>(sws, vs, level). card (set (gm_keys sws) - set (gm_keys vs)))")
    (auto simp del: set_map split: prod.split intro: upperLevel_decreases [OF sym])

declare buildLevels.simps [simp del]

definition buildTree :: "switches \<Rightarrow> (string, string) gomap \<Rightarrow> (string, bool) gomap \<Rightarrow> vertices" where
  "buildTree sws hca nodes =
     (let (sws, level) = fold (leafStep hca nodes) sws ([], []) in buildLevels sws level level)"

text \<open>
  The whole: \<open>None\<close> if the merger does not return; then a panic, or the error of the scanner, or the
  top tier with the resolved names of the adapters.
\<close>

datatype ib_error = ParseFailed

definition mergeRoots :: "VTree list \<Rightarrow> (go_panic + VTree list) option" where
  "mergeRoots roots =
     Option.bind (NewMerger roots) (\<lambda>r. Some
       (case r of
          Inl p \<Rightarrow> Inl p
        | Inr m \<Rightarrow> (case Merge m of Inl p \<Rightarrow> Inl p | Inr m \<Rightarrow> Inr (TopTier m))))"

definition GenerateTopologyConfig ::
  "string \<Rightarrow> ComputeInstances list \<Rightarrow> (go_panic + (ib_error + VTree list \<times> (string, string) gomap)) option" where
  "GenerateTopologyConfig data instances =
     (case ParseIbnetdiscoverFile data of
        None \<Rightarrow> Some (Inr (Inl ParseFailed))
      | Some (sws, hca) \<Rightarrow>
          (let nodes = GetNodeNameMap instances;
               hca = resolveNodeNames hca nodes;
               roots = gm_vals (buildTree sws hca nodes)
           in Option.bind (mergeRoots roots) (\<lambda>r. Some
                (case r of Inl p \<Rightarrow> Inl p | Inr tops \<Rightarrow> Inr (Inr (tops, hca))))))"

section \<open>Host names\<close>

definition targetNode :: "(string, bool) gomap \<Rightarrow> string \<Rightarrow> string option" where
  "targetNode nodes name =
     (if inCluster nodes name then Some name
      else case candidatesFor (byShort nodes) name of [c] \<Rightarrow> Some c | _ \<Rightarrow> None)"

definition resolveInv :: "(string, bool) gomap \<Rightarrow> (string, string) gomap \<Rightarrow> resolveState \<Rightarrow> bool" where
  "resolveInv nodes xs st \<longleftrightarrow>
     gm_get (rsResolved st) = gm_get xs \<and> gm_wf (rsFallback st) \<and>
     (\<forall>i c. gm_get (rsFallback st) i = Some c \<longleftrightarrow>
        (\<exists>a. gm_get xs i = Some a \<and> \<not> inCluster nodes a \<and> targetNode nodes a = Some c)) \<and>
     (\<forall>n. gm_wf (namesAt (rsReported st) n)) \<and>
     (\<forall>n a. a \<in> set (gm_keys (namesAt (rsReported st) n)) \<longleftrightarrow>
        a \<in> ran (gm_get xs) \<and> targetNode nodes a = Some n)"

lemma namesAt_addReported:
  "namesAt (addReported node name reported) n =
     (if n = node then gm_put name True (namesAt reported node) else namesAt reported n)"
  by (simp add: addReported_def namesAt_def)

lemma map_of_snoc: "k \<notin> fst ` set xs \<Longrightarrow> map_of (xs @ [(k, v)]) = (map_of xs)(k \<mapsto> v)"
  by (simp add: map_of_eq_None_iff [THEN iffD2] map_add_def fun_eq_iff split: option.split)

lemma resolveOne_eq:
  "resolveOne nodes (byShort nodes) (i, a) st =
     (let st = st\<lparr>rsResolved := gm_put i a (rsResolved st)\<rparr>
      in case targetNode nodes a of
           None \<Rightarrow> st
         | Some c \<Rightarrow>
             (let st = st\<lparr>rsReported := addReported c a (rsReported st)\<rparr>
              in if inCluster nodes a then st else st\<lparr>rsFallback := gm_put i c (rsFallback st)\<rparr>))"
  by (auto simp: resolveOne_def targetNode_def Let_def split: list.splits)

lemma resolveInv_step:
  assumes inv: "resolveInv nodes xs st" and new: "i \<notin> fst ` set xs"
  shows "resolveInv nodes (xs @ [(i, a)]) (resolveOne nodes (byShort nodes) (i, a) st)"
proof -
  have xs: "gm_get (xs @ [(i, a)]) = (gm_get xs)(i \<mapsto> a)" by (rule map_of_snoc [OF new])
  have none: "gm_get xs i = None" using new by (simp add: map_of_eq_None_iff)
  have res: "gm_get (gm_put i a (rsResolved st)) = (gm_get xs)(i \<mapsto> a)"
    using inv by (auto simp: resolveInv_def)
  have ran: "ran ((gm_get xs)(i \<mapsto> a)) = insert a (ran (gm_get xs))" using none by (rule ran_map_upd)
  show ?thesis
  proof (cases "targetNode nodes a")
    case None
    then show ?thesis using inv res none unfolding resolveInv_def resolveOne_eq xs ran
      by (auto simp: Let_def)
  next
    case (Some c)
    then show ?thesis using inv res none unfolding resolveInv_def resolveOne_eq xs ran
      by (auto simp: Let_def namesAt_addReported dom_update)
  qed
qed

lemma resolveInv_fold:
  "gm_wf hca \<Longrightarrow> resolveInv nodes hca
     (fold (resolveOne nodes (byShort nodes)) hca \<lparr>rsResolved = [], rsReported = [], rsFallback = []\<rparr>)"
proof (induction hca rule: rev_induct)
  case Nil
  show ?case by (simp add: resolveInv_def namesAt_def)
next
  case (snoc x xs)
  obtain i a where x: "x = (i, a)" by (cases x)
  have "gm_wf xs" "i \<notin> fst ` set xs" using snoc.prems by (auto simp: x gm_wf_def)
  then show ?case using resolveInv_step [OF snoc.IH] by (simp add: x)
qed

lemma applyFallback_fold:
  assumes "gm_wf fs"
  shows "gm_get (fold (applyFallback reported) fs m) i =
    (case gm_get fs i of
       Some c \<Rightarrow> if length (namesAt reported c) > 1 then gm_get m i else Some c
     | None \<Rightarrow> gm_get m i)"
  using assms
proof (induction fs arbitrary: m)
  case (Cons f fs)
  obtain j c where f: "f = (j, c)" by (cases f)
  have "gm_get fs j = None" "gm_wf fs" using Cons.prems by (auto simp: f map_of_eq_None_iff)
  then show ?case using Cons.IH by (auto simp: f applyFallback_def split: option.splits)
qed simp

lemma resolveNodeNames_state:
  assumes "gm_wf hca"
  obtains st where "resolveInv nodes hca st"
    and "\<forall>i. gm_get (resolveNodeNames hca nodes) i =
      (case gm_get (rsFallback st) i of
         Some c \<Rightarrow> if length (namesAt (rsReported st) c) > 1 then gm_get hca i else Some c
       | None \<Rightarrow> gm_get hca i)"
proof -
  let ?st = "fold (resolveOne nodes (byShort nodes)) hca \<lparr>rsResolved = [], rsReported = [], rsFallback = []\<rparr>"
  have inv: "resolveInv nodes hca ?st" by (rule resolveInv_fold [OF assms])
  then have "gm_wf (rsFallback ?st)" "gm_get (rsResolved ?st) = gm_get hca" unfolding resolveInv_def by blast+
  then show ?thesis
    using that [OF inv] unfolding resolveNodeNames_def Let_def by (simp only: applyFallback_fold) blast
qed

lemma resolveInv_fallback:
  "resolveInv nodes hca st \<Longrightarrow> gm_get (rsFallback st) i = Some c \<Longrightarrow>
     \<exists>a. gm_get hca i = Some a \<and> \<not> inCluster nodes a \<and> targetNode nodes a = Some c"
  by (simp add: resolveInv_def)

lemma resolveInv_names:
  "resolveInv nodes hca st \<Longrightarrow>
     b \<in> set (gm_keys (namesAt (rsReported st) n)) \<longleftrightarrow> b \<in> ran (gm_get hca) \<and> targetNode nodes b = Some n"
  by (simp add: resolveInv_def)

lemma resolveNodeNames_get:
  assumes "gm_wf hca" and "gm_get (resolveNodeNames hca nodes) i = Some n" and "inCluster nodes n"
  obtains a and names :: "(string, bool) gomap" where "gm_get hca i = Some a" and "targetNode nodes a = Some n" and "a = n \<or> length names \<le> 1"
    and "\<forall>b. b \<in> set (gm_keys names) \<longleftrightarrow> b \<in> ran (gm_get hca) \<and> targetNode nodes b = Some n"
proof -
  obtain st where inv: "resolveInv nodes hca st" and R: "\<forall>i. gm_get (resolveNodeNames hca nodes) i =
      (case gm_get (rsFallback st) i of
         Some c \<Rightarrow> if length (namesAt (rsReported st) c) > 1 then gm_get hca i else Some c
       | None \<Rightarrow> gm_get hca i)"
    by (rule resolveNodeNames_state [OF assms(1), where nodes = nodes])
  let ?names = "namesAt (rsReported st) n"
  have "\<exists>a. gm_get hca i = Some a \<and> targetNode nodes a = Some n \<and> (a = n \<or> length ?names \<le> 1)"
  proof (cases "gm_get (rsFallback st) i")
    case None
    then show ?thesis using assms(2,3) R by (simp add: targetNode_def)
  next
    case (Some c)
    then obtain a where a: "gm_get hca i = Some a" "\<not> inCluster nodes a" "targetNode nodes a = Some c"
      using resolveInv_fallback [OF inv] by blast
    then have "c = n \<and> length ?names \<le> 1" using assms(2,3) R Some by (auto split: if_splits)
    then show ?thesis using a by auto
  qed
  moreover have "\<forall>b. b \<in> set (gm_keys ?names) \<longleftrightarrow> b \<in> ran (gm_get hca) \<and> targetNode nodes b = Some n"
    using resolveInv_names [OF inv] by blast
  ultimately show ?thesis using that by blast
qed

lemma short_eq: "length xs \<le> 1 \<Longrightarrow> a \<in> set (gm_keys xs) \<Longrightarrow> b \<in> set (gm_keys xs) \<Longrightarrow> a = b"
  by (cases xs rule: remdups_adj.cases) auto

text \<open>
  A node is never placed under the leaf switches of two hosts: adapters that are resolved to
  the same node of the cluster report the same host name. A host name that is the name of a node is
  kept.
\<close>

theorem resolveNodeNames_unique:
  assumes "gm_wf hca" and "inCluster nodes n"
    and "gm_get (resolveNodeNames hca nodes) i = Some n" and "gm_get (resolveNodeNames hca nodes) j = Some n"
  shows "\<exists>a. gm_get hca i = Some a \<and> gm_get hca j = Some a"
proof -
  obtain a and names :: "(string, bool) gomap" where a: "gm_get hca i = Some a" "targetNode nodes a = Some n" "a = n \<or> length names \<le> 1"
    "\<forall>b. b \<in> set (gm_keys names) \<longleftrightarrow> b \<in> ran (gm_get hca) \<and> targetNode nodes b = Some n"
    by (rule resolveNodeNames_get [OF assms(1,3,2)])
  obtain b and names' :: "(string, bool) gomap" where b: "gm_get hca j = Some b" "targetNode nodes b = Some n" "b = n \<or> length names' \<le> 1"
    "\<forall>b. b \<in> set (gm_keys names') \<longleftrightarrow> b \<in> ran (gm_get hca) \<and> targetNode nodes b = Some n"
    by (rule resolveNodeNames_get [OF assms(1,4,2)])
  have "a \<in> set (gm_keys names)" "b \<in> set (gm_keys names)" "a \<in> set (gm_keys names')" "b \<in> set (gm_keys names')"
    using a b by (auto intro: ranI)
  then have "a = b" using a(3) b(3) short_eq [of names a b] short_eq [of names' a b] by blast
  then show ?thesis using a(1) b(1) by blast
qed

lemma resolveNodeNames_exact:
  assumes "gm_wf hca" and "gm_get hca i = Some n" and "inCluster nodes n"
  shows "gm_get (resolveNodeNames hca nodes) i = Some n"
proof -
  obtain st where inv: "resolveInv nodes hca st" and R: "\<forall>i. gm_get (resolveNodeNames hca nodes) i =
      (case gm_get (rsFallback st) i of
         Some c \<Rightarrow> if length (namesAt (rsReported st) c) > 1 then gm_get hca i else Some c
       | None \<Rightarrow> gm_get hca i)"
    by (rule resolveNodeNames_state [OF assms(1), where nodes = nodes])
  have "gm_get (rsFallback st) i = None"
  proof (rule ccontr)
    assume "gm_get (rsFallback st) i \<noteq> None"
    then obtain c where "gm_get (rsFallback st) i = Some c" by blast
    then show False using resolveInv_fallback [OF inv] assms(2,3) by force
  qed
  then show ?thesis using R assms(2) by simp
qed

section \<open>The hierarchy\<close>

text \<open>What the fabric says: a node is attached to a switch, a switch is linked with another.\<close>

definition attached :: "switches \<Rightarrow> (string, string) gomap \<Rightarrow> (string, bool) gomap \<Rightarrow> string \<Rightarrow> string \<Rightarrow> bool" where
  "attached S hca nodes k n \<longleftrightarrow>
     n \<noteq> [] \<and> gm_get nodes n \<noteq> None \<and> (\<exists>sw. gm_get S k = Some sw \<and> (\<exists>c \<in> set (gm_keys (swConn sw)). gm_get hca c = Some n))"

definition linked :: "switches \<Rightarrow> string \<Rightarrow> string \<Rightarrow> bool" where
  "linked S k j \<longleftrightarrow> (\<exists>sw. gm_get S k = Some sw \<and> j \<in> set (gm_keys (swConn sw)))"

definition isNode :: "VTree \<Rightarrow> bool" where
  "isNode c \<longleftrightarrow> c = VTree (tvID c) (tvID c) []"

definition vertexOk :: "switches \<Rightarrow> (string, string) gomap \<Rightarrow> (string, bool) gomap \<Rightarrow> vertices \<Rightarrow> string \<Rightarrow> VTree \<Rightarrow> bool" where
  "vertexOk S hca nodes V k v \<longleftrightarrow> tvID v = k \<and> k \<in> set (gm_keys S) \<and> tvVertices v \<noteq> [] \<and>
     (\<forall>c \<in> set (tvKids v). isNode c \<and> attached S hca nodes k (tvID c) \<or>
        gm_get V (tvID c) = Some c \<and> linked S k (tvID c))"

definition connSub :: "switches \<Rightarrow> string \<times> Switch \<Rightarrow> bool" where
  "connSub S p \<longleftrightarrow> (\<exists>sw. gm_get S (fst p) = Some sw \<and> set (gm_keys (swConn (snd p))) \<subseteq> set (gm_keys (swConn sw)))"

definition verticesOk :: "switches \<Rightarrow> (string, string) gomap \<Rightarrow> (string, bool) gomap \<Rightarrow> vertices \<Rightarrow> bool" where
  "verticesOk S hca nodes V \<longleftrightarrow> (\<forall>k v. gm_get V k = Some v \<longrightarrow> vertexOk S hca nodes V k v)"

definition levelOk :: "nat \<Rightarrow> vertices \<Rightarrow> vertices \<Rightarrow> bool" where
  "levelOk i V level \<longleftrightarrow> gm_wf level \<and> (\<forall>k v. gm_get level k = Some v \<longrightarrow> gm_get V k = Some v \<and> layered i v)"

lemma gm_get_key: "gm_get m k = Some v \<Longrightarrow> k \<in> set (gm_keys m)"
  unfolding gm_key_get by blast

lemma vertexOk_put: "vertexOk S hca nodes V k v \<Longrightarrow> gm_get V j = None \<Longrightarrow> vertexOk S hca nodes (gm_put j w V) k v"
  by (auto simp: vertexOk_def split: if_splits)

lemma verticesOk_put:
  assumes "verticesOk S hca nodes V" and "gm_get V j = None" and "vertexOk S hca nodes V j w"
  shows "verticesOk S hca nodes (gm_put j w V)"
  using assms vertexOk_put [OF _ assms(2)] unfolding verticesOk_def by auto

lemma levelOk_put_vertex: "levelOk i V level \<Longrightarrow> gm_get V j = None \<Longrightarrow> levelOk i (gm_put j w V) level"
  unfolding levelOk_def by fastforce

lemma levelOk_put:
  assumes "levelOk i V level" and "gm_get V j = None" and "layered i w"
  shows "levelOk i (gm_put j w V) (gm_put j w level)"
  using assms unfolding levelOk_def by (auto split: if_splits)

subsection \<open>The first level\<close>

lemma attachNode_step:
  "gm_get (swNodes (attachNode hca nodes a sw)) c =
     (if c = a \<and> (\<exists>n. gm_get hca c = Some n \<and> n \<noteq> [] \<and> gm_get nodes n \<noteq> None) then gm_get hca c else gm_get (swNodes sw) c)"
  "gm_wf (swNodes sw) \<Longrightarrow> gm_wf (swNodes (attachNode hca nodes a sw))"
  "set (gm_keys (swConn (attachNode hca nodes a sw))) = set (gm_keys (swConn sw)) - {c. c = a \<and> gm_get hca c \<noteq> None}"
  by (auto simp: attachNode_def Let_def AList.delete_eq gm_wf_put split: option.splits)

lemma attachNode_fold:
  "gm_get (swNodes (fold (attachNode hca nodes) cs sw)) c =
     (if c \<in> set cs \<and> (\<exists>n. gm_get hca c = Some n \<and> n \<noteq> [] \<and> gm_get nodes n \<noteq> None) then gm_get hca c
      else gm_get (swNodes sw) c)"
  "gm_wf (swNodes sw) \<Longrightarrow> gm_wf (swNodes (fold (attachNode hca nodes) cs sw))"
  "set (gm_keys (swConn (fold (attachNode hca nodes) cs sw))) =
     set (gm_keys (swConn sw)) - {c. c \<in> set cs \<and> gm_get hca c \<noteq> None}"
proof (induction cs arbitrary: sw)
  case (Cons a cs)
  { case 1 show ?case using Cons.IH(1) [of "attachNode hca nodes a sw"] by (auto simp: attachNode_step(1)) }
  { case 2 then show ?case using Cons.IH(2) [of "attachNode hca nodes a sw"] by (simp add: attachNode_step(2)) }
  { case 3 show ?case using Cons.IH(3) [of "attachNode hca nodes a sw"] unfolding attachNode_step(3) by auto }
qed simp_all

lemma attachNodes_ok:
  assumes "swNodes sw = []"
  shows "set (gm_keys (swConn (attachNodes hca nodes sw))) = {c \<in> set (gm_keys (swConn sw)). gm_get hca c = None}"
    and "n \<in> set (gm_vals (swNodes (attachNodes hca nodes sw))) \<longleftrightarrow>
      n \<noteq> [] \<and> gm_get nodes n \<noteq> None \<and> (\<exists>c \<in> set (gm_keys (swConn sw)). gm_get hca c = Some n)"
proof -
  let ?m = "swNodes (attachNodes hca nodes sw)"
  have wf: "gm_wf ?m" unfolding attachNodes_def by (rule attachNode_fold(2)) (simp add: assms)
  have "n \<in> set (gm_vals ?m) \<longleftrightarrow> (\<exists>c. gm_get ?m c = Some n)"
    using gm_get_Some_mem [OF wf] by (force simp: image_iff)
  then show "n \<in> set (gm_vals ?m) \<longleftrightarrow>
      n \<noteq> [] \<and> gm_get nodes n \<noteq> None \<and> (\<exists>c \<in> set (gm_keys (swConn sw)). gm_get hca c = Some n)"
    unfolding attachNodes_def attachNode_fold(1) by (auto simp: assms)
  show "set (gm_keys (swConn (attachNodes hca nodes sw))) = {c \<in> set (gm_keys (swConn sw)). gm_get hca c = None}"
    unfolding attachNodes_def attachNode_fold(3) by auto
qed

lemma gm_get_puts:
  "gm_get (fold (\<lambda>n. gm_put n (f n)) ns m) k = (if k \<in> set ns then Some (f k) else gm_get m k)"
  by (induction ns arbitrary: m) auto

lemma gm_wf_puts_each: "gm_wf m \<Longrightarrow> gm_wf (fold (\<lambda>n. gm_put n (f n)) ns m)"
  by (induction ns arbitrary: m) auto

lemma leafVertex_children:
  "gm_wf (tvVertices (leafVertex k sw))"
  "(c, x) \<in> set (tvVertices (leafVertex k sw)) \<longleftrightarrow> c \<in> set (gm_vals (swNodes sw)) \<and> x = Some (VTree c c [])"
proof -
  show wf: "gm_wf (tvVertices (leafVertex k sw))" by (simp add: leafVertex_def gm_wf_puts_each)
  have "(c, x) \<in> set (tvVertices (leafVertex k sw)) \<longleftrightarrow> gm_get (tvVertices (leafVertex k sw)) c = Some x"
    using gm_get_Some_mem [OF wf] by simp
  also have "\<dots> \<longleftrightarrow> c \<in> set (gm_vals (swNodes sw)) \<and> x = Some (VTree c c [])"
    by (auto simp: leafVertex_def gm_get_puts)
  finally show "(c, x) \<in> set (tvVertices (leafVertex k sw)) \<longleftrightarrow> c \<in> set (gm_vals (swNodes sw)) \<and> x = Some (VTree c c [])" .
qed

lemma leafVertex_ok:
  assumes S: "gm_get S k = Some sw" and sw: "swNodes sw = []" and ne: "swNodes (attachNodes hca nodes sw) \<noteq> []"
  shows "vertexOk S hca nodes V k (leafVertex k (attachNodes hca nodes sw))"
    and "layered 1 (leafVertex k (attachNodes hca nodes sw))"
proof -
  let ?sw = "attachNodes hca nodes sw"
  have "attached S hca nodes k n" if "n \<in> set (gm_vals (swNodes ?sw))" for n
    using that S unfolding attachNodes_ok(2) [OF sw] attached_def by blast
  moreover have "k \<in> set (gm_keys S)" by (rule gm_get_key [OF S])
  moreover have "tvID (leafVertex k ?sw) = k" by (simp add: leafVertex_def)
  moreover have ne': "tvVertices (leafVertex k ?sw) \<noteq> []"
  proof -
    obtain n where "n \<in> set (gm_vals (swNodes ?sw))" using ne by (cases "swNodes ?sw") auto
    then have "(n, Some (VTree n n [])) \<in> set (tvVertices (leafVertex k ?sw))" by (simp add: leafVertex_children(2))
    then show ?thesis by auto
  qed
  moreover have "\<exists>n \<in> set (gm_vals (swNodes ?sw)). c = VTree n n []" if "c \<in> set (tvKids (leafVertex k ?sw))" for c
    using that unfolding tvKids_iff leafVertex_children(2) by blast
  ultimately show "vertexOk S hca nodes V k (leafVertex k ?sw)"
    unfolding vertexOk_def isNode_def by (metis VTree.sel(1))
  show "layered 1 (leafVertex k ?sw)"
    using ne' leafVertex_children by (auto simp: One_nat_def split: option.splits)
qed

lemma leafStep_fold:
  assumes "gm_wf xs" and "\<forall>(k, sw) \<in> set xs. gm_get S k = Some sw \<and> swNodes sw = []"
    and "\<forall>p \<in> set sws. connSub S p" and "verticesOk S hca nodes V" and "levelOk 1 V V"
    and "set (gm_keys xs) \<inter> set (gm_keys V) = {}"
  shows "case fold (leafStep hca nodes) xs (sws, V) of (sws', V') \<Rightarrow>
    (\<forall>p \<in> set sws'. connSub S p) \<and> verticesOk S hca nodes V' \<and> levelOk 1 V' V'"
  using assms
proof (induction xs arbitrary: sws V)
  case (Cons x xs)
  obtain k sw where x: "x = (k, sw)" by (cases x)
  have S: "gm_get S k = Some sw" "swNodes sw = []" using Cons.prems(2) by (auto simp: x)
  have V: "gm_get V k = None" using Cons.prems(6) by (simp add: x map_of_eq_None_iff)
  let ?sw = "attachNodes hca nodes sw"
  have sub: "connSub S (k, ?sw)" "connSub S (k, ?sw\<lparr>swConn := []\<rparr>)"
    using S attachNodes_ok(1) [OF S(2)] by (auto simp: connSub_def)
  have xs: "gm_wf xs" "k \<notin> set (gm_keys xs)" using Cons.prems(1) by (auto simp: x)
  show ?case
  proof (cases "swNodes ?sw = []")
    case True
    then have f: "fold (leafStep hca nodes) (x # xs) (sws, V) = fold (leafStep hca nodes) xs (sws @ [(k, ?sw)], V)"
      by (simp add: x leafStep_def)
    show ?thesis unfolding f
      by (rule Cons.IH) (use Cons.prems xs sub in \<open>auto simp: x\<close>)
  next
    case False
    let ?v = "leafVertex k ?sw"
    have f: "fold (leafStep hca nodes) (x # xs) (sws, V) =
        fold (leafStep hca nodes) xs (sws @ [(k, ?sw\<lparr>swConn := []\<rparr>)], gm_put k ?v V)"
      using False by (simp add: x leafStep_def Let_def)
    note v = leafVertex_ok [OF S False]
    show ?thesis unfolding f
    proof (rule Cons.IH)
      show "verticesOk S hca nodes (gm_put k ?v V)" by (rule verticesOk_put [OF Cons.prems(4) V v(1)])
      show "levelOk 1 (gm_put k ?v V) (gm_put k ?v V)" by (rule levelOk_put [OF Cons.prems(5) V v(2)])
    qed (use Cons.prems xs sub in \<open>auto simp: x dom_update\<close>)
  qed
qed simp

subsection \<open>The upper levels\<close>

lemma childrenIn_get:
  "gm_get (childrenIn level sw) c = (if c \<in> set (gm_keys (swConn sw)) then map_option Some (gm_get level c) else None)"
  "gm_wf (childrenIn level sw)"
proof -
  let ?f = "\<lambda>conID children. case gm_get level conID of Some child \<Rightarrow> gm_put conID (Some child) children | None \<Rightarrow> children"
  have "gm_get (fold ?f cs m) c =
      (if c \<in> set cs \<and> gm_get level c \<noteq> None then map_option Some (gm_get level c) else gm_get m c) \<and>
      (gm_wf m \<longrightarrow> gm_wf (fold ?f cs m))" for cs m
    by (induction cs arbitrary: m) (auto split: option.splits)
  from this [of "gm_keys (swConn sw)" "[]"]
  show "gm_get (childrenIn level sw) c = (if c \<in> set (gm_keys (swConn sw)) then map_option Some (gm_get level c) else None)"
    "gm_wf (childrenIn level sw)"
    by (auto simp: childrenIn_def)
qed

lemma childrenIn_mem:
  "(c, x) \<in> set (childrenIn level sw) \<longleftrightarrow>
     c \<in> set (gm_keys (swConn sw)) \<and> (\<exists>u. gm_get level c = Some u \<and> x = Some u)"
  using gm_get_Some_mem [OF childrenIn_get(2), of level sw c x] childrenIn_get(1) [of level sw c]
  by (auto split: if_splits)

lemma upperVertex_ok:
  assumes sub: "connSub S (k, sw)" and V: "verticesOk S hca nodes V" and level: "levelOk i V level"
    and ne: "childrenIn level sw \<noteq> []"
  shows "vertexOk S hca nodes V k (VTree k [] (childrenIn level sw))"
    and "layered (Suc i) (VTree k [] (childrenIn level sw))"
proof -
  obtain sw0 where sw0: "gm_get S k = Some sw0" "set (gm_keys (swConn sw)) \<subseteq> set (gm_keys (swConn sw0))"
    using sub by (auto simp: connSub_def)
  have child: "gm_get V c = Some u \<and> tvID u = c \<and> layered i u" if "gm_get level c = Some u" for c u
    using that level V unfolding levelOk_def verticesOk_def vertexOk_def by metis
  have "k \<in> set (gm_keys S)" by (rule gm_get_key [OF sw0(1)])
  moreover have "gm_get V (tvID c) = Some c \<and> linked S k (tvID c)" if kid: "c \<in> set (tvKids (VTree k [] (childrenIn level sw)))" for c
  proof -
    obtain j where "(j, Some c) \<in> set (childrenIn level sw)" using kid by (auto simp: tvKids_iff)
    then have "j \<in> set (gm_keys (swConn sw))" "gm_get level j = Some c" unfolding childrenIn_mem by blast+
    then show ?thesis using child [of j c] sw0 unfolding linked_def by blast
  qed
  ultimately show "vertexOk S hca nodes V k (VTree k [] (childrenIn level sw))" using ne by (simp add: vertexOk_def)
  show "layered (Suc i) (VTree k [] (childrenIn level sw))"
    using ne childrenIn_get(2) child by (auto simp: childrenIn_mem)
qed

lemma upperStep_ok:
  assumes "\<forall>p \<in> set xs. connSub S p" and "\<forall>p \<in> set sws. connSub S p"
    and "verticesOk S hca nodes V" and "levelOk i V level" and "levelOk (Suc i) V upper"
  shows "case fold (upperStep level) xs (sws, V, upper) of (sws', V', upper') \<Rightarrow>
    (\<forall>p \<in> set sws'. connSub S p) \<and> verticesOk S hca nodes V' \<and> levelOk i V' level \<and> levelOk (Suc i) V' upper'"
  using assms
proof (induction xs arbitrary: sws V upper)
  case (Cons x xs)
  obtain k sw where x: "x = (k, sw)" by (cases x)
  show ?case
  proof (cases "gm_get V k \<noteq> None \<or> childrenIn level sw = []")
    case True
    then have f: "fold (upperStep level) (x # xs) (sws, V, upper) = fold (upperStep level) xs (sws @ [(k, sw)], V, upper)"
      using upperStep_skip by (simp add: x)
    show ?thesis unfolding f by (rule Cons.IH) (use Cons.prems in \<open>auto simp: x\<close>)
  next
    case False
    let ?v = "VTree k [] (childrenIn level sw)"
    have f: "fold (upperStep level) (x # xs) (sws, V, upper) =
        fold (upperStep level) xs (sws @ [(k, sw\<lparr>swConn := []\<rparr>)], gm_put k ?v V, gm_put k ?v upper)"
      using False by (simp add: x upperStep_add)
    have new: "gm_get V k = None" using False by auto
    note v = upperVertex_ok [of S k sw hca nodes V i level]
    have sub: "connSub S (k, sw)" using Cons.prems(1) by (simp add: x)
    show ?thesis unfolding f
    proof (rule Cons.IH)
      show "verticesOk S hca nodes (gm_put k ?v V)"
        using v(1) [OF sub Cons.prems(3,4)] False by (intro verticesOk_put [OF Cons.prems(3) new]) auto
      show "levelOk i (gm_put k ?v V) level" by (rule levelOk_put_vertex [OF Cons.prems(4) new])
      show "levelOk (Suc i) (gm_put k ?v V) (gm_put k ?v upper)"
        using v(2) [OF sub Cons.prems(3,4)] False by (intro levelOk_put [OF Cons.prems(5) new]) auto
    qed (use Cons.prems sub in \<open>auto simp: x connSub_def\<close>)
  qed
qed simp

lemma buildLevels_ok:
  assumes "\<forall>p \<in> set sws. connSub S p" and "verticesOk S hca nodes V" and "levelOk i V level"
  shows "\<exists>n V'. i \<le> n \<and> verticesOk S hca nodes V' \<and> levelOk n V' (buildLevels sws V level)"
  using assms
proof (induction sws V level arbitrary: i rule: buildLevels.induct)
  case (1 sws V level)
  obtain sws' V' upper where u: "upperLevel sws V level = (sws', V', upper)" by (cases "upperLevel sws V level")
  have "levelOk (Suc i) V []" by (simp add: levelOk_def)
  from upperStep_ok [OF "1.prems"(1) _ "1.prems"(2,3) this, of "[]"] u
  have ok: "\<forall>p \<in> set sws'. connSub S p" "verticesOk S hca nodes V'" "levelOk i V' level" "levelOk (Suc i) V' upper"
    by (auto simp: upperLevel_def)
  show ?case
  proof (cases "upper = []")
    case True
    then show ?thesis using "1.prems" u by (subst buildLevels.simps) auto
  next
    case False
    then show ?thesis using "1.IH" [OF u [symmetric] refl False ok(1,2,4)] u
      by (subst buildLevels.simps) (auto intro: Suc_leD)
  qed
qed

lemma level_snoc: "set (levelBelow (Suc j) vs) = (\<Union>u \<in> set (levelBelow j vs). set (tvKids u))"
proof (induction j arbitrary: vs)
  case (Suc j)
  have "set (levelBelow (Suc (Suc j)) vs) = set (levelBelow (Suc j) (concat (map tvKids vs)))" by simp
  also have "\<dots> = (\<Union>u \<in> set (levelBelow j (concat (map tvKids vs))). set (tvKids u))" by (rule Suc)
  finally show ?case by simp
qed simp

lemma level_vertices:
  assumes V: "verticesOk S hca nodes V" and vs: "\<forall>v \<in> set vs. gm_get V (tvID v) = Some v"
  shows "u \<in> set (levelBelow j vs) \<Longrightarrow>
    gm_get V (tvID u) = Some u \<and> tvID u \<in> set (gm_keys S) \<or> isNode u \<and> (\<exists>k. attached S hca nodes k (tvID u))"
proof (induction j arbitrary: u)
  case 0
  then show ?case using vs V unfolding verticesOk_def vertexOk_def by auto
next
  case (Suc j)
  then obtain w where w: "w \<in> set (levelBelow j vs)" "u \<in> set (tvKids w)" unfolding level_snoc by blast
  have "\<not> isNode w"
  proof
    assume "isNode w"
    then have "tvVertices w = []" unfolding isNode_def by (metis VTree.sel(3))
    then show False using w(2) by (simp add: tvKids_def map_filter_def)
  qed
  then have "vertexOk S hca nodes V (tvID w) w" using Suc.IH [OF w(1)] V unfolding verticesOk_def by blast
  then show ?case using w(2) V unfolding vertexOk_def verticesOk_def by blast
qed

text \<open>
  The hierarchy has uniform depth and unambiguous IDs, provided no switch has the ID of a node. Its
  edges are those of the fabric.
\<close>

lemma buildTree_ok:
  assumes wf: "gm_wf S" and new: "\<forall>(k, sw) \<in> set S. swNodes sw = []"
    and names: "\<forall>k \<in> set (gm_keys S). gm_get nodes k = None"
  obtains n where "\<forall>v \<in> set (gm_vals (buildTree S hca nodes)). layered n v"
    and "distinct (map tvID (gm_vals (buildTree S hca nodes)))"
    and "vertexIDsOk n (gm_vals (buildTree S hca nodes))" and "0 < n"
proof -
  obtain sws V where lv: "fold (leafStep hca nodes) S ([], []) = (sws, V)" by (cases "fold (leafStep hca nodes) S ([], [])")
  have "\<forall>(k, sw) \<in> set S. gm_get S k = Some sw \<and> swNodes sw = []" using new gm_get_Some_mem [OF wf] by fastforce
  from leafStep_fold [OF wf this, of "[]" hca nodes "[]"] lv
  have first: "\<forall>p \<in> set sws. connSub S p" "verticesOk S hca nodes V" "levelOk 1 V V"
    by (auto simp: verticesOk_def levelOk_def)
  obtain n V' where V': "verticesOk S hca nodes V'" "levelOk n V' (buildTree S hca nodes)" "1 \<le> n"
    using buildLevels_ok [OF first] lv by (auto simp: buildTree_def)
  let ?T = "buildTree S hca nodes"
  let ?vs = "gm_vals ?T"
  have wfT: "gm_wf ?T" using V'(2) by (simp add: levelOk_def)
  have T: "gm_get V' k = Some v \<and> layered n v \<and> tvID v = k" if "(k, v) \<in> set ?T" for k v
    using that V' gm_get_Some_mem [OF wfT] unfolding levelOk_def verticesOk_def vertexOk_def by metis
  have lay: "\<forall>v \<in> set ?vs. layered n v" and vs: "\<forall>v \<in> set ?vs. gm_get V' (tvID v) = Some v"
    using T by fastforce+
  have ids: "map tvID ?vs = gm_keys ?T" using T by (auto simp: comp_def)
  have "u = w" if u: "u \<in> set (levelBelow i ?vs)" and w: "w \<in> set (levelBelow j ?vs)" and same: "tvID u = tvID w" for i j u w
  proof -
    have "tvID x \<notin> set (gm_keys S)" if "attached S hca nodes k (tvID x)" for k x
      using that names unfolding attached_def by fastforce
    then show ?thesis
      using level_vertices [OF V'(1) vs u] level_vertices [OF V'(1) vs w] same
      unfolding isNode_def by (metis option.inject)
  qed
  then have ok: "vertexIDsOk n ?vs" unfolding vertexIDsOk_def by blast
  have dist: "distinct (map tvID ?vs)" unfolding ids using wfT by (simp only: gm_wf_def)
  show ?thesis using that [OF lay dist ok] V'(3) by simp
qed

subsection \<open>The hierarchy is the specified one\<close>

text \<open>
  What is above what: a switch is above the nodes attached to it, and above the switches it lists under
  an identifier that is not an adapter's.
\<close>

definition fabricUp :: "switches \<Rightarrow> (string, string) gomap \<Rightarrow> (string, bool) gomap \<Rightarrow> string \<Rightarrow> string \<Rightarrow> bool" where
  "fabricUp S hca nodes i u \<longleftrightarrow>
     attached S hca nodes u i \<or> i \<in> set (gm_keys S) \<and> linked S u i \<and> gm_get hca i = None"

definition fabricNodes :: "switches \<Rightarrow> (string, string) gomap \<Rightarrow> (string, bool) gomap \<Rightarrow> string set" where
  "fabricNodes S hca nodes = {x. \<exists>k. attached S hca nodes k x}"

text \<open>The switches during the passes: one that is not a vertex still has its links to other switches.\<close>

definition switchesOk :: "switches \<Rightarrow> (string, string) gomap \<Rightarrow> vertices \<Rightarrow> switches \<Rightarrow> bool" where
  "switchesOk S hca V sws \<longleftrightarrow> gm_wf sws \<and> set (gm_keys sws) = set (gm_keys S) \<and>
     (\<forall>k sw. gm_get sws k = Some sw \<longrightarrow> gm_get V k = None \<longrightarrow>
        (\<forall>c. c \<in> set (gm_keys (swConn sw)) \<longleftrightarrow> linked S k c \<and> gm_get hca c = None))"

definition afterLeaf :: "(string, string) gomap \<Rightarrow> (string, bool) gomap \<Rightarrow> Switch \<Rightarrow> Switch" where
  "afterLeaf hca nodes sw =
     (if swNodes (attachNodes hca nodes sw) \<noteq> [] then (attachNodes hca nodes sw)\<lparr>swConn := []\<rparr> else attachNodes hca nodes sw)"

lemma leafStep_eq:
  "leafStep hca nodes (j, sw) (sws, V) =
     (sws @ [(j, afterLeaf hca nodes sw)],
      if swNodes (attachNodes hca nodes sw) \<noteq> [] then gm_put j (leafVertex j (attachNodes hca nodes sw)) V else V)"
  by (simp add: leafStep_def afterLeaf_def Let_def)

lemma leafStep_closed:
  assumes "gm_wf xs"
  shows "fold (leafStep hca nodes) xs (sws, V) = (sws', V') \<Longrightarrow> sws' = sws @ map (\<lambda>(k, sw). (k, afterLeaf hca nodes sw)) xs \<and>
    gm_get V' k =
      (case gm_get xs k of
         Some sw \<Rightarrow> if swNodes (attachNodes hca nodes sw) \<noteq> [] then Some (leafVertex k (attachNodes hca nodes sw)) else gm_get V k
       | None \<Rightarrow> gm_get V k)"
  using assms
proof (induction xs arbitrary: sws V)
  case (Cons x xs)
  obtain j sw where x: "x = (j, sw)" by (cases x)
  have xs: "gm_wf xs" "gm_get xs j = None" using Cons.prems(2) by (auto simp: x map_of_eq_None_iff)
  let ?V = "if swNodes (attachNodes hca nodes sw) \<noteq> [] then gm_put j (leafVertex j (attachNodes hca nodes sw)) V else V"
  have "fold (leafStep hca nodes) xs (sws @ [(j, afterLeaf hca nodes sw)], ?V) = (sws', V')"
    using Cons.prems(1) by (simp add: x leafStep_eq)
  from Cons.IH [OF this xs(1)] xs(2) show ?case by (cases "k = j") (simp_all add: x split: option.split)
qed simp

lemma attached_iff:
  assumes "gm_get S k = Some sw" and "swNodes sw = []"
  shows "attached S hca nodes k n \<longleftrightarrow> n \<in> set (gm_vals (swNodes (attachNodes hca nodes sw)))"
  unfolding attachNodes_ok(2) [OF assms(2)] attached_def using assms(1) by auto

lemma leafLevel_exact:
  assumes wf: "gm_wf S" and new: "\<forall>(k, sw) \<in> set S. swNodes sw = []"
    and names: "\<forall>k \<in> set (gm_keys S). gm_get nodes k = None"
    and f: "fold (leafStep hca nodes) S ([], []) = (sws, V)" and wfV: "gm_wf V"
  shows "levelExact (fabricUp S hca nodes) (fabricNodes S hca nodes) (set (gm_keys S)) 1 (set V) (set (gm_keys S) - set (gm_keys V))"
    and "switchesOk S hca V sws"
proof -
  let ?up = "fabricUp S hca nodes" and ?L = "fabricNodes S hca nodes" and ?P = "set (gm_keys S)"
  let ?att = "attachNodes hca nodes"
  have none: "swNodes sw = []" if "gm_get S k = Some sw" for k sw using that new by (auto dest: map_of_SomeD)
  have V: "gm_get V k = (case gm_get S k of
      Some sw \<Rightarrow> if swNodes (?att sw) \<noteq> [] then Some (leafVertex k (?att sw)) else None | None \<Rightarrow> None)" for k
    using leafStep_closed [OF wf f, of k] by (simp split: option.splits)
  have sws: "sws = map (\<lambda>(k, sw). (k, afterLeaf hca nodes sw)) S" using leafStep_closed [OF wf f] by simp
  have att: "attached S hca nodes k n \<Longrightarrow> \<exists>sw. gm_get S k = Some sw" for k n by (auto simp: attached_def)
  have L: "i \<notin> ?P" if "i \<in> ?L" for i using that names unfolding fabricNodes_def attached_def by fastforce
  have up: "?up i u \<longleftrightarrow> attached S hca nodes u i" if "i \<in> ?L" for i u using L [OF that] by (auto simp: fabricUp_def)
  have mem: "(k, v) \<in> set V \<longleftrightarrow> gm_get V k = Some v" for k v using gm_get_Some_mem [OF wfV] by simp
  have key: "k \<in> set (gm_keys V) \<longleftrightarrow> (\<exists>n. attached S hca nodes k n)" for k
  proof (cases "gm_get S k")
    case None
    then have "gm_get V k = None" unfolding V by simp
    then show ?thesis using None att [of k] unfolding gm_key_get by auto
  next
    case (Some sw)
    have "(\<exists>n. attached S hca nodes k n) \<longleftrightarrow> swNodes (?att sw) \<noteq> []"
      unfolding attached_iff [OF Some none [OF Some]] by (cases "swNodes (?att sw)") auto
    then show ?thesis unfolding gm_key_get V by (simp add: Some)
  qed
  have children: "tvVertices v \<noteq> [] \<and> (\<forall>i w. (i, Some w) \<in> set (tvVertices v) \<longleftrightarrow> attached S hca nodes u i \<and> w = VTree i i [])"
    if uv: "(u, v) \<in> set V" for u v
  proof -
    obtain sw where sw: "gm_get S u = Some sw" "v = leafVertex u (?att sw)" "swNodes (?att sw) \<noteq> []"
      using uv [unfolded mem] V [of u] by (auto split: option.splits if_splits)
    have "(i, Some w) \<in> set (tvVertices v) \<longleftrightarrow> attached S hca nodes u i \<and> w = VTree i i []" for i w
      unfolding sw(2) leafVertex_children(2) attached_iff [OF sw(1) none [OF sw(1)]] by simp
    then show ?thesis using leafVertex_ok(2) [OF sw(1) none [OF sw(1)] sw(3)] sw(2) by simp
  qed
  let ?nodes = "(\<lambda>x. (x, VTree x x [])) ` ?L"
  have fst: "fst ` ?nodes = ?L" by force
  have "levelExact ?up ?L ?P 0 ?nodes ?P"
    by (rule levelExact_0) (use L fst in auto)
  moreover have "nextLevel ?up ?nodes ?P (set V) (?P - set (gm_keys V))"
    unfolding nextLevel_def fst
  proof (intro conjI)
    show "fst ` set V = {u \<in> ?P. \<exists>i \<in> ?L. ?up i u}"
    proof (intro set_eqI)
      fix u
      have "u \<in> fst ` set V \<longleftrightarrow> (\<exists>n. attached S hca nodes u n)" using key [of u] by simp
      also have "\<dots> \<longleftrightarrow> u \<in> ?P \<and> (\<exists>i \<in> ?L. ?up i u)"
        using up att [of u] gm_get_key [of S u] unfolding fabricNodes_def by blast
      finally show "u \<in> fst ` set V \<longleftrightarrow> u \<in> {u \<in> ?P. \<exists>i \<in> ?L. ?up i u}" by simp
    qed
    show "\<forall>(u, v) \<in> set V. tvVertices v \<noteq> [] \<and> (\<forall>i w. (i, Some w) \<in> set (tvVertices v) \<longleftrightarrow> (i, w) \<in> ?nodes \<and> ?up i u)"
    proof clarify
      fix u v assume uv: "(u, v) \<in> set V"
      have "attached S hca nodes u i \<and> w = VTree i i [] \<longleftrightarrow> (i, w) \<in> ?nodes \<and> ?up i u" for i w
        using up [of i u] unfolding fabricNodes_def by auto
      then show "tvVertices v \<noteq> [] \<and> (\<forall>i w. (i, Some w) \<in> set (tvVertices v) \<longleftrightarrow> (i, w) \<in> ?nodes \<and> ?up i u)"
        using children [OF uv] by simp
    qed
  qed simp
  ultimately show "levelExact ?up ?L ?P 1 (set V) (?P - set (gm_keys V))" using levelExact_step by fastforce
  have keys: "gm_keys sws = gm_keys S" unfolding sws by (auto simp: case_prod_beta)
  have "c \<in> set (gm_keys (swConn sw)) \<longleftrightarrow> linked S k c \<and> gm_get hca c = None"
    if get: "gm_get sws k = Some sw" "gm_get V k = None" for k sw c
  proof -
    obtain sw0 where sw0: "gm_get S k = Some sw0" "sw = afterLeaf hca nodes sw0"
      using map_of_SomeD [OF get(1)] gm_get_Some_mem [OF wf] unfolding sws by auto
    then have "sw = ?att sw0" using get(2) unfolding V by (simp add: afterLeaf_def split: if_splits)
    then show ?thesis using attachNodes_ok(1) [OF none [OF sw0(1)]] sw0(1) by (auto simp: linked_def)
  qed
  then show "switchesOk S hca V sws" using keys wf unfolding switchesOk_def gm_wf_def by simp
qed

definition isNew :: "vertices \<Rightarrow> vertices \<Rightarrow> string \<Rightarrow> Switch \<Rightarrow> bool" where
  "isNew level V k sw \<longleftrightarrow> gm_get V k = None \<and> childrenIn level sw \<noteq> []"

lemma upperStep_closed:
  assumes "gm_wf xs" and "fold (upperStep level) xs (sws, V, upper) = (sws', V', upper')"
  shows "sws' = sws @ map (\<lambda>(k, sw). (k, if isNew level V k sw then sw\<lparr>swConn := []\<rparr> else sw)) xs"
    and "gm_get V' k = (case gm_get xs k of
      Some sw \<Rightarrow> if isNew level V k sw then Some (VTree k [] (childrenIn level sw)) else gm_get V k | None \<Rightarrow> gm_get V k)"
    and "gm_get upper' k = (case gm_get xs k of
      Some sw \<Rightarrow> if isNew level V k sw then Some (VTree k [] (childrenIn level sw)) else gm_get upper k | None \<Rightarrow> gm_get upper k)"
    and "gm_wf upper \<Longrightarrow> gm_wf upper'"
proof -
  have "sws' = sws @ map (\<lambda>(k, sw). (k, if isNew level V k sw then sw\<lparr>swConn := []\<rparr> else sw)) xs \<and>
    (\<forall>k. gm_get V' k = (case gm_get xs k of
      Some sw \<Rightarrow> if isNew level V k sw then Some (VTree k [] (childrenIn level sw)) else gm_get V k | None \<Rightarrow> gm_get V k)) \<and>
    (\<forall>k. gm_get upper' k = (case gm_get xs k of
      Some sw \<Rightarrow> if isNew level V k sw then Some (VTree k [] (childrenIn level sw)) else gm_get upper k | None \<Rightarrow> gm_get upper k)) \<and>
    (gm_wf upper \<longrightarrow> gm_wf upper')"
    using assms
  proof (induction xs arbitrary: sws V upper)
    case (Cons x xs)
    obtain j sw where x: "x = (j, sw)" by (cases x)
    have xs: "gm_wf xs" "gm_get xs j = None" using Cons.prems(1) by (auto simp: x map_of_eq_None_iff)
    have xs': "k \<noteq> j" if "(k, y) \<in> set xs" for k y using that xs(2) by (auto simp: map_of_eq_None_iff rev_image_eqI)
    obtain sws1 V1 upper1 where st: "upperStep level x (sws, V, upper) = (sws1, V1, upper1)" by (cases "upperStep level x (sws, V, upper)")
    let ?v = "VTree j [] (childrenIn level sw)"
    have st': "sws1 = sws @ [(j, if isNew level V j sw then sw\<lparr>swConn := []\<rparr> else sw)]"
      "V1 = (if isNew level V j sw then gm_put j ?v V else V)" "upper1 = (if isNew level V j sw then gm_put j ?v upper else upper)"
      using st by (auto simp: x upperStep_def isNew_def Let_def split: if_splits)
    have new: "isNew level V1 k y = isNew level V k y" if "k \<noteq> j" for k y using that by (simp add: st'(2) isNew_def)
    have map: "map (\<lambda>(k, sw). (k, if isNew level V1 k sw then sw\<lparr>swConn := []\<rparr> else sw)) xs =
        map (\<lambda>(k, sw). (k, if isNew level V k sw then sw\<lparr>swConn := []\<rparr> else sw)) xs"
      using xs' by (intro map_cong refl) (auto simp: new)
    have "fold (upperStep level) xs (sws1, V1, upper1) = (sws', V', upper')" using Cons.prems(2) by (simp add: st)
    note ih = Cons.IH [OF xs(1) this]
    have "gm_get V' k = (case gm_get (x # xs) k of
        Some sw \<Rightarrow> if isNew level V k sw then Some (VTree k [] (childrenIn level sw)) else gm_get V k | None \<Rightarrow> gm_get V k)"
      "gm_get upper' k = (case gm_get (x # xs) k of
        Some sw \<Rightarrow> if isNew level V k sw then Some (VTree k [] (childrenIn level sw)) else gm_get upper k | None \<Rightarrow> gm_get upper k)" for k
    proof -
      have ih': "gm_get V' k = (case gm_get xs k of
          Some sw \<Rightarrow> if isNew level V1 k sw then Some (VTree k [] (childrenIn level sw)) else gm_get V1 k | None \<Rightarrow> gm_get V1 k)"
        "gm_get upper' k = (case gm_get xs k of
          Some sw \<Rightarrow> if isNew level V1 k sw then Some (VTree k [] (childrenIn level sw)) else gm_get upper1 k | None \<Rightarrow> gm_get upper1 k)"
        using ih by blast+
      show "gm_get V' k = (case gm_get (x # xs) k of
          Some sw \<Rightarrow> if isNew level V k sw then Some (VTree k [] (childrenIn level sw)) else gm_get V k | None \<Rightarrow> gm_get V k)"
        unfolding ih'(1) using xs(2) by (cases "k = j") (simp_all add: x new split: option.split, simp_all add: st'(2))
      show "gm_get upper' k = (case gm_get (x # xs) k of
          Some sw \<Rightarrow> if isNew level V k sw then Some (VTree k [] (childrenIn level sw)) else gm_get upper k | None \<Rightarrow> gm_get upper k)"
        unfolding ih'(2) using xs(2) by (cases "k = j") (simp_all add: x new split: option.split, simp_all add: st'(3))
    qed
    moreover have "sws' = sws @ map (\<lambda>(k, sw). (k, if isNew level V k sw then sw\<lparr>swConn := []\<rparr> else sw)) (x # xs)"
      using ih unfolding map by (simp add: x st'(1))
    moreover have "gm_wf upper \<longrightarrow> gm_wf upper'" using ih by (simp add: st'(3) gm_wf_put split: if_splits)
    ultimately show ?case by blast
  qed simp
  then show "sws' = sws @ map (\<lambda>(k, sw). (k, if isNew level V k sw then sw\<lparr>swConn := []\<rparr> else sw)) xs"
    "gm_get V' k = (case gm_get xs k of
      Some sw \<Rightarrow> if isNew level V k sw then Some (VTree k [] (childrenIn level sw)) else gm_get V k | None \<Rightarrow> gm_get V k)"
    "gm_get upper' k = (case gm_get xs k of
      Some sw \<Rightarrow> if isNew level V k sw then Some (VTree k [] (childrenIn level sw)) else gm_get upper k | None \<Rightarrow> gm_get upper k)"
    "gm_wf upper \<Longrightarrow> gm_wf upper'" by blast+
qed

text \<open>A pass over the switches builds the next level.\<close>

lemma upperLevel_exact:
  assumes u: "upperLevel sws V level = (sws', V', upper)" and sw: "switchesOk S hca V sws"
    and names: "\<forall>k \<in> set (gm_keys S). gm_get nodes k = None"
    and V: "set (gm_keys V) \<subseteq> set (gm_keys S)" and level: "gm_wf level" "set (gm_keys level) \<subseteq> set (gm_keys S)"
  shows "nextLevel (fabricUp S hca nodes) (set level) (set (gm_keys S) - set (gm_keys V)) (set upper) (set (gm_keys S) - set (gm_keys V'))"
    and "switchesOk S hca V' sws'" and "set (gm_keys V') \<subseteq> set (gm_keys S)" and "gm_wf upper"
    and "set (gm_keys upper) \<subseteq> set (gm_keys S)" and "\<forall>(k, v) \<in> set upper. tvID v = k"
proof -
  let ?P = "set (gm_keys S)"
  have wf: "gm_wf sws" and keys: "set (gm_keys sws) = ?P" using sw by (simp_all add: switchesOk_def)
  note closed = upperStep_closed [OF wf u [unfolded upperLevel_def]]
  show wfu: "gm_wf upper" by (rule closed(4)) simp
  have mem: "(k, v) \<in> set upper \<longleftrightarrow> gm_get upper k = Some v" for k v using gm_get_Some_mem [OF wfu] by simp
  have new: "gm_get upper k = Some v \<longleftrightarrow> gm_get V k = None \<and>
      (\<exists>sw. gm_get sws k = Some sw \<and> childrenIn level sw \<noteq> [] \<and> v = VTree k [] (childrenIn level sw))" for k v
    unfolding closed(3) isNew_def by (cases "gm_get sws k") auto
  have V': "gm_get V' k \<noteq> None \<longleftrightarrow> gm_get V k \<noteq> None \<or> gm_get upper k \<noteq> None" for k
    unfolding closed(2,3) isNew_def by (cases "gm_get sws k") auto
  have inS: "k \<in> ?P" if "gm_get sws k = Some sw" for k sw using that gm_get_key keys by metis
  show up: "set (gm_keys upper) \<subseteq> ?P"
  proof
    fix k assume "k \<in> set (gm_keys upper)"
    then obtain v where "gm_get upper k = Some v" unfolding gm_key_get by blast
    then show "k \<in> ?P" using new inS by blast
  qed
  show "set (gm_keys V') \<subseteq> ?P"
  proof
    fix k assume "k \<in> set (gm_keys V')"
    then have "k \<in> set (gm_keys V) \<or> k \<in> set (gm_keys upper)" using V' [of k] unfolding gm_key_get by auto
    then show "k \<in> ?P" using V up by blast
  qed
  show "\<forall>(k, v) \<in> set upper. tvID v = k" using mem new by auto
  have kid: "(c, Some w) \<in> set (childrenIn level sw) \<longleftrightarrow> (c, w) \<in> set level \<and> fabricUp S hca nodes c k"
    if "gm_get sws k = Some sw" "gm_get V k = None" for k sw c w
  proof -
    have "c \<in> set (gm_keys (swConn sw)) \<longleftrightarrow> linked S k c \<and> gm_get hca c = None" using sw that by (simp add: switchesOk_def)
    moreover have "\<not> attached S hca nodes k c" if "c \<in> ?P" using that names by (auto simp: attached_def)
    moreover have "gm_get level c = Some w \<longleftrightarrow> (c, w) \<in> set level" using gm_get_Some_mem [OF level(1)] by simp
    moreover have "c \<in> ?P" if "(c, w) \<in> set level" using that level(2) by force
    ultimately show ?thesis unfolding childrenIn_mem fabricUp_def by auto
  qed
  have some: "(c, x) \<in> set (childrenIn level sw) \<Longrightarrow> \<exists>w. x = Some w" for c x sw unfolding childrenIn_mem by blast
  have key: "k \<in> fst ` set upper \<longleftrightarrow> k \<in> ?P - set (gm_keys V) \<and> (\<exists>i \<in> fst ` set level. fabricUp S hca nodes i k)" for k
  proof (cases "gm_get sws k = None \<or> gm_get V k \<noteq> None")
    case True
    then have "k \<notin> ?P - set (gm_keys V)" unfolding keys [symmetric] gm_key_get Diff_iff by auto
    moreover have "gm_get upper k = None" using new [of k] True by (metis not_None_eq)
    ultimately show ?thesis using mem by auto
  next
    case False
    then obtain sw where sw: "gm_get sws k = Some sw" "gm_get V k = None" by auto
    have "k \<in> fst ` set upper \<longleftrightarrow> childrenIn level sw \<noteq> []"
    proof -
      have "k \<in> fst ` set upper \<longleftrightarrow> (\<exists>v. gm_get upper k = Some v)" unfolding gm_key_get [symmetric] by simp
      also have "\<dots> \<longleftrightarrow> childrenIn level sw \<noteq> []" unfolding new using sw by simp
      finally show ?thesis .
    qed
    also have "\<dots> \<longleftrightarrow> (\<exists>c w. (c, Some w) \<in> set (childrenIn level sw))" 
    proof
      assume "childrenIn level sw \<noteq> []"
      then obtain c x where cx: "(c, x) \<in> set (childrenIn level sw)" by (cases "childrenIn level sw") auto
      then show "\<exists>c w. (c, Some w) \<in> set (childrenIn level sw)" using some [OF cx] by blast
    next
      assume "\<exists>c w. (c, Some w) \<in> set (childrenIn level sw)"
      then show "childrenIn level sw \<noteq> []" by auto
    qed
    also have "\<dots> \<longleftrightarrow> (\<exists>i \<in> fst ` set level. fabricUp S hca nodes i k)" unfolding kid [OF sw] by force
    finally show ?thesis using inS [OF sw(1)] sw(2) unfolding Diff_iff gm_key_get by auto
  qed
  show "nextLevel (fabricUp S hca nodes) (set level) (?P - set (gm_keys V)) (set upper) (?P - set (gm_keys V'))"
    unfolding nextLevel_def
  proof (intro conjI)
    show "fst ` set upper = {u \<in> ?P - set (gm_keys V). \<exists>i \<in> fst ` set level. fabricUp S hca nodes i u}" using key by blast
    have "k \<in> set (gm_keys V') \<longleftrightarrow> k \<in> set (gm_keys V) \<or> k \<in> set (gm_keys upper)" for k
      using V' [of k] unfolding gm_key_get by auto
    then have "k \<in> set (gm_keys V') \<longleftrightarrow> k \<in> set (gm_keys V) \<or> k \<in> fst ` set upper" for k by simp
    then show "?P - set (gm_keys V') = ?P - set (gm_keys V) - fst ` set upper" by blast
    show "\<forall>(u, v) \<in> set upper. tvVertices v \<noteq> [] \<and>
        (\<forall>i w. (i, Some w) \<in> set (tvVertices v) \<longleftrightarrow> (i, w) \<in> set level \<and> fabricUp S hca nodes i u)"
      using mem new kid by auto
  qed
  have sws': "sws' = map (\<lambda>(k, sw). (k, if isNew level V k sw then sw\<lparr>swConn := []\<rparr> else sw)) sws" using closed(1) by simp
  have keys': "gm_keys sws' = gm_keys sws" unfolding sws' by (auto simp: case_prod_beta)
  have "gm_get sws k = Some sw \<and> gm_get V k = None" if get: "gm_get sws' k = Some sw" "gm_get V' k = None" for k sw
  proof -
    obtain sw0 where sw0: "gm_get sws k = Some sw0" "sw = (if isNew level V k sw0 then sw0\<lparr>swConn := []\<rparr> else sw0)"
      using map_of_SomeD [OF get(1)] gm_get_Some_mem [OF wf] unfolding sws' by auto
    moreover have "\<not> isNew level V k sw0" using get(2) sw0(1) unfolding closed(2) by (auto split: if_splits)
    ultimately show ?thesis using V' [of k] get(2) by auto
  qed
  then show "switchesOk S hca V' sws'" using keys' sw unfolding switchesOk_def gm_wf_def by metis
qed

lemma buildLevels_exact:
  assumes "switchesOk S hca V sws" and names: "\<forall>k \<in> set (gm_keys S). gm_get nodes k = None"
    and "set (gm_keys V) \<subseteq> set (gm_keys S)" and "gm_wf level" and "set (gm_keys level) \<subseteq> set (gm_keys S)"
    and "\<forall>(k, v) \<in> set level. tvID v = k" and "level \<noteq> []"
    and "levelExact (fabricUp S hca nodes) (fabricNodes S hca nodes) (set (gm_keys S)) i (set level) (set (gm_keys S) - set (gm_keys V))"
  shows "\<exists>n. highest (fabricUp S hca nodes) (fabricNodes S hca nodes) (set (gm_keys S)) n (gm_vals (buildLevels sws V level))"
  using assms(1,3-8)
proof (induction sws V level arbitrary: i rule: buildLevels.induct)
  case (1 sws V level)
  obtain sws' V' upper where u: "upperLevel sws V level = (sws', V', upper)" by (cases "upperLevel sws V level")
  note ex = upperLevel_exact [OF u "1.prems"(1) names "1.prems"(2-4)]
  show ?case
  proof (cases "upper = []")
    case True
    then have "buildLevels sws V level = level" using u by (subst buildLevels.simps) simp
    then show ?thesis using levelExact_highest [OF "1.prems"(7)] ex(1) "1.prems"(5,6) True by auto
  next
    case False
    then have "buildLevels sws V level = buildLevels sws' V' upper" using u by (subst buildLevels.simps) simp
    then show ?thesis
      using "1.IH" [OF u [symmetric] refl False ex(2-6) False levelExact_step [OF "1.prems"(7) ex(1)]] by simp
  qed
qed

lemma buildTree_highest:
  assumes wf: "gm_wf S" and new: "\<forall>(k, sw) \<in> set S. swNodes sw = []"
    and names: "\<forall>k \<in> set (gm_keys S). gm_get nodes k = None"
  shows "\<exists>n. highest (fabricUp S hca nodes) (fabricNodes S hca nodes) (set (gm_keys S)) n (gm_vals (buildTree S hca nodes))"
proof -
  let ?up = "fabricUp S hca nodes" and ?L = "fabricNodes S hca nodes" and ?P = "set (gm_keys S)"
  obtain sws V where lv: "fold (leafStep hca nodes) S ([], []) = (sws, V)" by (cases "fold (leafStep hca nodes) S ([], [])")
  have "\<forall>(k, sw) \<in> set S. gm_get S k = Some sw \<and> swNodes sw = []" using new gm_get_Some_mem [OF wf] by fastforce
  from leafStep_fold [OF wf this, of "[]" hca nodes "[]"] lv
  have first: "verticesOk S hca nodes V" "levelOk 1 V V" by (auto simp: verticesOk_def levelOk_def)
  have wfV: "gm_wf V" using first(2) by (simp add: levelOk_def)
  have V: "tvID v = k \<and> k \<in> ?P" if "(k, v) \<in> set V" for k v
    using first(1) that gm_get_Some_mem [OF wfV] unfolding verticesOk_def vertexOk_def by blast
  note leaf = leafLevel_exact [OF wf new names lv wfV]
  have tree: "buildTree S hca nodes = buildLevels sws V V" by (simp add: buildTree_def lv)
  have sub: "set (gm_keys V) \<subseteq> ?P" and ids: "\<forall>(k, v) \<in> set V. tvID v = k" using V by auto
  show ?thesis
  proof (cases "V = []")
    case True
    have "\<not> standsAt ?up ?L ?P 1 u" for u using leaf(1) True by (simp add: levelExact_def)
    then have "\<not> standsAt ?up ?L ?P j u" if "0 < j" for j u using standsAt_end [of ?up ?L ?P 0 j u] that by simp
    moreover have "?L = {}"
    proof (rule ccontr)
      assume "?L \<noteq> {}"
      then obtain x k where xk: "attached S hca nodes k x" by (auto simp: fabricNodes_def)
      have "k \<in> ?P" using xk gm_get_key unfolding attached_def by metis
      moreover have "k \<notin> ?L" using names \<open>k \<in> ?P\<close> by (auto simp: fabricNodes_def attached_def)
      ultimately have "standsAt ?up ?L ?P 1 k"
        using xk unfolding One_nat_def standsAt_Suc_iff
        by (auto simp: climb_0_iff standsAt_def fabricUp_def fabricNodes_def)
      then show False using \<open>\<And>u. \<not> standsAt ?up ?L ?P 1 u\<close> by blast
    qed
    moreover have "buildLevels sws [] [] = []"
    proof -
      have "childrenIn [] sw = []" for sw
      proof -
        have "fold (\<lambda>conID children. case gm_get [] conID of Some child \<Rightarrow> gm_put conID (Some child) children | None \<Rightarrow> children) cs m = m"
          for cs and m :: "(string \<times> VTree option) list" by (induction cs) simp_all
        then show ?thesis by (simp add: childrenIn_def)
      qed
      then have "snd (snd (fold (upperStep []) xs (sws, vs, []))) = []" for xs sws vs
        by (induction xs arbitrary: sws vs) (auto simp: upperStep_def)
      from this [of sws "[]" "[]"] show ?thesis
        by (subst buildLevels.simps) (auto simp: upperLevel_def split: prod.split)
    qed
    ultimately have "highest ?up ?L ?P 0 (gm_vals (buildTree S hca nodes))"
      unfolding tree True highest_def isHeight_def by (auto simp: leafIDs_def climb_0_iff)
    then show ?thesis by blast
  next
    case False
    show ?thesis unfolding tree by (rule buildLevels_exact [OF leaf(2) names sub wfV sub ids False leaf(1)])
  qed
qed

text \<open>The parser gives distinct keys and switches without nodes.\<close>

lemma ibLine_cases:
  obtains "ibLine l st = st"
  | e where "ibEntry st = Some e" and "ibLine l st = st\<lparr>ibSwitches := gm_put (swID e) e (ibSwitches st), ibEntry := None\<rparr>"
  | i n where "ibLine l st = st\<lparr>ibHca := gm_put i n (ibHca st)\<rparr>"
  | e where "swNodes e = []" and "ibLine l st = st\<lparr>ibEntry := Some e\<rparr>"
  | e conn where "ibEntry st = Some e" and "ibLine l st = st\<lparr>ibEntry := Some (e\<lparr>swConn := conn\<rparr>)\<rparr>"
proof -
  consider "hasPrefix l ''#'' \<or> reEmptyLine l \<and> ibEntry st = None" | e where "\<not> hasPrefix l ''#''" "reEmptyLine l" "ibEntry st = Some e"
    | "\<not> hasPrefix l ''#''" "\<not> reEmptyLine l" by (cases "ibEntry st") auto
  then show ?thesis
  proof cases
    case 1
    then have "ibLine l st = st" by (auto simp: ibLine_def)
    then show ?thesis by (rule that(1))
  next
    case (2 e)
    then show ?thesis by (intro that(2)) (simp_all add: ibLine_def)
  next
    case False: 3
    show ?thesis
  proof (cases "reHCA l")
    case None
    note hca = None
    show ?thesis
    proof (cases "reSwitch l")
      case None
      then show ?thesis using False hca that(1,5)
        by (cases "reConn l"; cases "ibEntry st") (auto simp: ibLine_def)
    next
      case (Some p)
      then show ?thesis using False hca
        by (cases p) (intro that(4) [of "\<lparr>swID = fst p, swName = extractSwitchName (snd p), swConn = [], swNodes = []\<rparr>"],
          simp_all add: ibLine_def)
    qed
  next
    case (Some p)
    then show ?thesis using False that(1,3)
      by (cases p; cases "extractNodeName (snd p) = []") (simp_all add: ibLine_def)
  qed
  qed
qed

definition ibOk :: "ibState \<Rightarrow> bool" where
  "ibOk st \<longleftrightarrow> gm_wf (ibSwitches st) \<and> gm_wf (ibHca st) \<and> (\<forall>(k, sw) \<in> set (ibSwitches st). swNodes sw = []) \<and>
     (\<forall>e. ibEntry st = Some e \<longrightarrow> swNodes e = [])"

lemma ibOk_line:
  assumes "ibOk st"
  shows "ibOk (ibLine l st)"
  by (cases l st rule: ibLine_cases)
    (use assms in \<open>auto simp: ibOk_def dest!: set_mp [OF set_gm_put_subset]\<close>)

lemma ParseIbnetdiscoverFile_ok:
  assumes "ParseIbnetdiscoverFile data = Some (S, hca)"
  shows "gm_wf S" and "gm_wf hca" and "\<forall>(k, sw) \<in> set S. swNodes sw = []"
proof -
  have "ibOk (fold ibLine ls st)" if "ibOk st" for ls st
    using that by (induction ls arbitrary: st) (simp_all add: ibOk_line)
  from this [of "\<lparr>ibSwitches = [], ibHca = [], ibEntry = None\<rparr>"]
  show "gm_wf S" "gm_wf hca" "\<forall>(k, sw) \<in> set S. swNodes sw = []"
    using assms by (auto simp: ParseIbnetdiscoverFile_def Let_def ibOk_def split: option.splits)
qed

text \<open>
  C39. On the output of \<open>ibnetdiscover\<close> that the scanner accepts, with no cluster node named like a
  switch, a topology is returned: no error, no panic, no endless recursion. Its top switches are among those that
  stand highest above the nodes: the shortest way up from an attached cluster node to such a switch has \<open>n\<close>
  links, and no switch stands higher. The nodes below a top switch are exactly the cluster nodes from which it
  is reached in \<open>n\<close> links, the nodes of the whole topology are exactly those from which a switch of that height
  is, and no two top switches have the same children.
\<close>

theorem GenerateTopologyConfig_returns:
  assumes parse: "ParseIbnetdiscoverFile data = Some (S, hca)"
    and names: "\<forall>k \<in> set (gm_keys S). gm_get (GetNodeNameMap instances) k = None"
    and nodes: "nodes = GetNodeNameMap instances"
    and resolved: "hca' = resolveNodeNames hca nodes"
  shows "\<exists>n tops. GenerateTopologyConfig data instances = Some (Inr (Inr (tops, hca'))) \<and>
    highest (fabricUp S hca' nodes) (fabricNodes S hca' nodes) (set (gm_keys S)) n tops \<and>
    distinct (map (set \<circ> gm_keys \<circ> tvVertices) tops)"
proof -
  let ?roots = "gm_vals (buildTree S hca' nodes)"
  note S = ParseIbnetdiscoverFile_ok(1,3) [OF parse]
  obtain m where m: "\<forall>v \<in> set ?roots. layered m v" "distinct (map tvID ?roots)" "vertexIDsOk m ?roots" "0 < m"
    using buildTree_ok [OF S, of nodes hca'] names unfolding nodes by metis
  obtain n where hi: "highest (fabricUp S hca' nodes) (fabricNodes S hca' nodes) (set (gm_keys S)) n ?roots"
    using buildTree_highest [OF S, of nodes hca'] names unfolding nodes by blast
  have "\<exists>tops. mergeRoots ?roots = Some (Inr tops) \<and> tierMerged m (set ?roots) tops"
  proof (cases "?roots = []")
    case True
    then show ?thesis by (simp add: mergeRoots_def NewMerger_def Merge_def emptyMerger_def TopTier_def tierMerged_def)
  next
    case False
    from Merge_returns [OF False m(1-3)] show ?thesis by (auto simp: mergeRoots_def)
  qed
  then obtain tops where tops: "mergeRoots ?roots = Some (Inr tops)" "tierMerged m (set ?roots) tops" by blast
  have "GenerateTopologyConfig data instances = Some (Inr (Inr (tops, hca')))"
    using tops(1) parse by (simp add: GenerateTopologyConfig_def Let_def nodes resolved)
  moreover note highest_merged [OF hi m(1) tops(2)]
  moreover have "distinct (map (set \<circ> gm_keys \<circ> tvVertices) tops)" using tops(2) m(4) by (simp add: tierMerged_def)
  ultimately show ?thesis by blast
qed

definition demoLines :: "string list" where
  "demoLines =
     [''Switch 2 '' @ [quote] @ ''S-1'' @ [quote] @ '' # '' @ [quote] @ ''sw1'' @ [quote],
      ''[1] '' @ [quote] @ ''H-1'' @ [quote] @ ''[1](ab) # '' @ [quote] @ ''n1 mlx5_0'' @ [quote],
      [],
      ''Ca 1 '' @ [quote] @ ''H-1'' @ [quote] @ '' # '' @ [quote] @ ''n1 mlx5_0'' @ [quote]]"

definition demoFabric :: string where
  "demoFabric = concat (map (\<lambda>l. l @ [newline]) demoLines)"

lemma demoFabric_lines: "scanLines demoFabric = Some demoLines"
proof -
  have "\<forall>l \<in> set demoLines. newline \<notin> set l" unfolding list_all_iff [symmetric] by code_simp
  then have "rawLines [] demoFabric = demoLines" unfolding demoFabric_def by (rule rawLines_lines)
  moreover have "map dropCR demoLines = demoLines" by code_simp
  moreover have "\<not> list_ex (\<lambda>l. length l \<ge> maxScanTokenSize) demoLines"
    by (simp add: demoLines_def maxScanTokenSize_def)
  ultimately show ?thesis by (simp add: scanLines_def)
qed

lemma GenerateTopologyConfig_returns_witness:
  "\<exists>tops. GenerateTopologyConfig demoFabric [\<lparr>Region = ''r'', Instances = [(''i1'', ''n1'')]\<rparr>] =
      Some (Inr (Inr (tops, [(''H-1'', ''n1'')]))) \<and> leafIDs tops = {''n1''}"
proof -
  let ?S = "[(''S-1'', \<lparr>swID = ''S-1'', swName = ''sw1'', swConn = [(''H-1'', ''n1 mlx5_0'')], swNodes = []\<rparr>)]"
  let ?L = "fabricNodes ?S [(''H-1'', ''n1'')] [(''n1'', True)]" and ?up = "fabricUp ?S [(''H-1'', ''n1'')] [(''n1'', True)]"
  have "fold ibLine demoLines \<lparr>ibSwitches = [], ibHca = [], ibEntry = None\<rparr> =
      \<lparr>ibSwitches = ?S, ibHca = [(''H-1'', ''n1'')], ibEntry = None\<rparr>" by code_simp
  then have parse: "ParseIbnetdiscoverFile demoFabric = Some (?S, [(''H-1'', ''n1'')])"
    by (simp add: ParseIbnetdiscoverFile_def demoFabric_lines)
  have nodes: "[(''n1'', True)] = GetNodeNameMap [\<lparr>Region = ''r'', Instances = [(''i1'', ''n1'')]\<rparr>]" by code_simp
  have hca: "[(''H-1'', ''n1'')] = resolveNodeNames [(''H-1'', ''n1'')] [(''n1'', True)]" by code_simp
  have att: "attached ?S [(''H-1'', ''n1'')] [(''n1'', True)] k x \<longleftrightarrow> k = ''S-1'' \<and> x = ''n1''" for k x
    by (auto simp: attached_def split: if_splits)
  have L: "?L = {''n1''}" by (simp add: fabricNodes_def att)
  obtain n tops where r: "GenerateTopologyConfig demoFabric [\<lparr>Region = ''r'', Instances = [(''i1'', ''n1'')]\<rparr>] =
      Some (Inr (Inr (tops, [(''H-1'', ''n1'')])))" "highest ?up ?L (set (gm_keys ?S)) n tops"
    using GenerateTopologyConfig_returns [OF parse _ nodes hca] unfolding nodes [symmetric] by auto
  have one: "climb ?up ?L {''S-1''} 1 x u \<longleftrightarrow> x = ''n1'' \<and> u = ''S-1''" for x u
    unfolding One_nat_def climb_Suc_iff climb_0_iff L by (auto simp: fabricUp_def att linked_def)
  then have s1: "standsAt ?up ?L {''S-1''} 1 u \<longleftrightarrow> u = ''S-1''" for u
    unfolding standsAt_def by (auto simp: climb_0_iff L)
  have "\<not> standsAt ?up ?L {''S-1''} (Suc 1) u" for u
  proof
    assume "standsAt ?up ?L {''S-1''} (Suc 1) u"
    then have "u \<in> {''S-1''}" "\<not> climb ?up ?L {''S-1''} 1 ''n1'' u" unfolding standsAt_Suc_iff by blast+
    then show False unfolding one by blast
  qed
  then have "isHeight ?up ?L {''S-1''} 1" unfolding isHeight_def using s1 standsAt_end [of ?up ?L "{''S-1''}" 1] by blast
  moreover have hi: "highest ?up ?L {''S-1''} n tops" using r(2) by simp
  ultimately have n: "n = 1" using isHeight_unique unfolding highest_def by blast
  have "leafIDs tops = {x. \<exists>u. standsAt ?up ?L {''S-1''} 1 u \<and> climb ?up ?L {''S-1''} 1 x u}"
    using hi unfolding n highest_def by blast
  also have "\<dots> = {''n1''}" unfolding s1 one by simp
  finally have "leafIDs tops = {''n1''}" .
  with r(1) show ?thesis by (intro exI [of _ tops] conjI)
qed

end
