(* ===== verification/Models.thy ===== *)
theory Models
  imports Topology Cluset
begin

text \<open>
  Component \<open>pkg/models\<close>: simulation models. A model file lists switches with the switches below them
  and blocks of nodes; from it the layers, labels and regions of every node are derived, and the
  graph that the simulated providers answer with.

  The YAML decoder is an argument of \<open>NewModelFromData\<close>. A nil label map and an empty one are both
  \<open>[]\<close>, and the clone of a map is its value. \<open>cluset.Expand\<close> may not return (\<open>Cluset\<close>); then the result is \<open>None\<close>.
\<close>

section \<open>Model\<close>

definition LabelTopologyRegion :: string where "LabelTopologyRegion = ''topology.kubernetes.io/region''"
definition defaultRegion :: string where "defaultRegion = ''none''"
definition annotationAcceleratorDomain :: string where
  "annotationAcceleratorDomain = ''accelerator.topology.test/domain''"
definition annotationAcceleratorSubDomain :: string where
  "annotationAcceleratorSubDomain = ''accelerator.topology.test/sub-domain''"

record SimSwitch =
  ssName :: string
  ssLabels :: "(string, string) gomap"
  ssAnnotations :: "(string, string) gomap"
  ssSwitches :: "string list"
  ssNodes :: "string list"

record CapacityBlock =
  cbSwitch :: string
  cbNodes :: "string list"
  cbLabels :: "(string, string) gomap"
  cbAnnotations :: "(string, string) gomap"

record SimNode =
  snInstance :: Instance
  snAnnotations :: "(string, string) gomap"

record Model =
  moSwitches :: "(string, SimSwitch) gomap"
  moNodes :: "(string, SimNode) gomap"
  moBlocks :: "CapacityBlock list"
  moInstances :: "ComputeInstances list"

datatype model_error =
  DecodeFailed string
| EmptySwitch string
| NameMismatch string string
| EmptyBlock nat
| UnknownBlockSwitch nat string
| NodeInTwoBlocks string
| UnknownSubSwitch string string
| TwoParents string string string
| TwoSwitches string string string
| NoDeclaredNodes
| UnknownNode string
| Circular string

definition annotationAt :: "SimNode \<Rightarrow> string \<Rightarrow> string" where
  "annotationAt node key = (case gm_get (snAnnotations node) key of Some v \<Rightarrow> v | None \<Rightarrow> [])"

definition AcceleratorDomain :: "SimNode \<Rightarrow> string" where
  "AcceleratorDomain node = annotationAt node annotationAcceleratorDomain"

definition AcceleratorSubDomain :: "SimNode \<Rightarrow> string" where
  "AcceleratorSubDomain node = annotationAt node annotationAcceleratorSubDomain"

definition InstanceID' :: "string \<Rightarrow> string" where
  "InstanceID' hostName = ''i-'' @ hostName"

subsection \<open>Decoding\<close>

definition nameSwitch :: "string \<times> SimSwitch option \<Rightarrow> (string, SimSwitch) gomap \<Rightarrow> model_error + (string, SimSwitch) gomap" where
  "nameSwitch = (\<lambda>(name, sw) sws.
     case sw of
       None \<Rightarrow> Inl (EmptySwitch name)
     | Some sw \<Rightarrow>
         if ssName sw \<noteq> [] \<and> ssName sw \<noteq> name then Inl (NameMismatch name (ssName sw))
         else Inr (sws @ [(name, sw\<lparr>ssName := name\<rparr>)]))"

text \<open>The switches that a parent refers to and that have no definition. They have no sub-switches themselves.\<close>

definition materialize :: "(string, SimSwitch) gomap \<Rightarrow> (string, SimSwitch) gomap" where
  "materialize sws =
     fold (\<lambda>name sws. if gm_get sws name = None
        then gm_put name \<lparr>ssName = name, ssLabels = [], ssAnnotations = [], ssSwitches = [], ssNodes = []\<rparr> sws else sws)
       (concat (map (\<lambda>(_, parent). ssSwitches parent) sws)) sws"

definition UnmarshalYAML :: "(string, SimSwitch option) gomap \<Rightarrow> CapacityBlock list \<Rightarrow> model_error + Model" where
  "UnmarshalYAML rawSwitches rawBlocks =
     (case foldE nameSwitch rawSwitches [] of
        Inl err \<Rightarrow> Inl err
      | Inr sws \<Rightarrow> Inr \<lparr>moSwitches = materialize sws, moNodes = [], moBlocks = rawBlocks, moInstances = []\<rparr>)"

subsection \<open>Capacity blocks\<close>

definition appendUnique :: "string list \<Rightarrow> string \<Rightarrow> string list" where
  "appendUnique xs x = (if x \<in> set xs then xs else xs @ [x])"

definition addBlockNode :: "CapacityBlock \<Rightarrow> string \<Rightarrow> (string, SimNode) gomap \<Rightarrow> model_error + (string, SimNode) gomap" where
  "addBlockNode block name nodes =
     (if gm_get nodes name \<noteq> None then Inl (NodeInTwoBlocks name)
      else Inr (gm_put name
        \<lparr>snInstance = \<lparr>instID = name, NetworkLayers = [], Labels = cbLabels block, NetLayers = []\<rparr>,
         snAnnotations = cbAnnotations block\<rparr> nodes))"

definition attachBlock :: "CapacityBlock \<Rightarrow> SimSwitch \<Rightarrow> SimSwitch" where
  "attachBlock block sw = sw\<lparr>ssNodes := foldl appendUnique (ssNodes sw) (cbNodes block)\<rparr>"

definition addBlock :: "nat \<Rightarrow> CapacityBlock \<Rightarrow> Model \<Rightarrow> model_error + Model" where
  "addBlock index block m =
     (if cbNodes block = [] then Inl (EmptyBlock index)
      else
        (case (if cbSwitch block = [] then Inr (moSwitches m)
               else
                 (case gm_get (moSwitches m) (cbSwitch block) of
                    None \<Rightarrow> Inl (UnknownBlockSwitch index (cbSwitch block))
                  | Some sw \<Rightarrow> Inr (gm_put (cbSwitch block) (attachBlock block sw) (moSwitches m)))) of
           Inl err \<Rightarrow> Inl err
         | Inr sws \<Rightarrow>
             (case foldE (addBlockNode block) (cbNodes block) (moNodes m) of
                Inl err \<Rightarrow> Inl err
              | Inr nodes \<Rightarrow> Inr (m\<lparr>moSwitches := sws, moNodes := nodes, moBlocks := (moBlocks m)[index := block]\<rparr>))))"

fun blockLoop :: "nat \<Rightarrow> CapacityBlock list \<Rightarrow> Model \<Rightarrow> (model_error + Model) option" where
  "blockLoop index [] m = Some (Inr m)"
| "blockLoop index (block # blocks) m =
     (case Expand (cbNodes block) of
        None \<Rightarrow> None
      | Some names \<Rightarrow>
          (case addBlock index (block\<lparr>cbNodes := names\<rparr>) m of
             Inl err \<Rightarrow> Some (Inl err)
           | Inr m \<Rightarrow> blockLoop (index + 1) blocks m))"

definition completeCapacityBlocks :: "Model \<Rightarrow> (model_error + Model) option" where
  "completeCapacityBlocks m = blockLoop 0 (moBlocks m) m"

subsection \<open>Layers\<close>

type_synonym switchMap = "(string, SimSwitch) gomap"

definition addSubSwitch :: "(string, SimSwitch) gomap \<Rightarrow> SimSwitch \<Rightarrow> string \<Rightarrow> switchMap \<Rightarrow> model_error + switchMap" where
  "addSubSwitch sws parent sw swmap =
     (if gm_get sws sw = None then Inl (UnknownSubSwitch (ssName parent) sw)
      else
        (case gm_get swmap sw of
           Some p \<Rightarrow> Inl (TwoParents sw (ssName parent) (ssName p))
         | None \<Rightarrow> Inr (gm_put sw parent swmap)))"

definition addLeafNode :: "SimSwitch \<Rightarrow> string \<Rightarrow> switchMap \<Rightarrow> model_error + switchMap" where
  "addLeafNode parent node nodeMap =
     (case gm_get nodeMap node of
        Some p \<Rightarrow> Inl (TwoSwitches node (ssName parent) (ssName p))
      | None \<Rightarrow> Inr (gm_put node parent nodeMap))"

text \<open>The loop over the switches: the switches with expanded nodes, the parents, the switches of nodes.\<close>

fun switchLoop ::
  "(string, SimSwitch) gomap \<Rightarrow> (string \<times> SimSwitch) list \<Rightarrow> (string, SimSwitch) gomap \<Rightarrow> switchMap \<Rightarrow> switchMap
     \<Rightarrow> (model_error + (string, SimSwitch) gomap \<times> switchMap \<times> switchMap) option" where
  "switchLoop sws [] acc swmap nodeMap = Some (Inr (acc, swmap, nodeMap))"
| "switchLoop sws ((name, parent) # rest) acc swmap nodeMap =
     (case foldE (addSubSwitch sws parent) (ssSwitches parent) swmap of
        Inl err \<Rightarrow> Some (Inl err)
      | Inr swmap \<Rightarrow>
          (case Expand (ssNodes parent) of
             None \<Rightarrow> None
           | Some names \<Rightarrow>
               (let parent = parent\<lparr>ssNodes := names\<rparr>
                in case foldE (addLeafNode parent) names nodeMap of
                     Inl err \<Rightarrow> Some (Inl err)
                   | Inr nodeMap \<Rightarrow> switchLoop sws rest (acc @ [(name, parent)]) swmap nodeMap)))"

definition buildSwitchMaps ::
  "Model \<Rightarrow> (model_error + (string, SimSwitch) gomap \<times> switchMap \<times> switchMap) option" where
  "buildSwitchMaps m = switchLoop (moSwitches m) (moSwitches m) [] [] []"

definition mergeMaps :: "(string, string) gomap \<Rightarrow> (string, string) gomap \<Rightarrow> (string, string) gomap" where
  "mergeMaps base overlay = (if overlay = [] then base else gm_copy base overlay)"

text \<open>The walk to the root. The switches on the path are the visited ones.\<close>

function layerLoop :: "switchMap \<Rightarrow> SimSwitch \<Rightarrow> SimSwitch list \<Rightarrow> model_error + SimSwitch list" where
  "layerLoop swmap sw path =
     (if ssName sw \<in> set (map ssName path) then Inl (Circular (ssName sw))
      else
        (case gm_get swmap (ssName sw) of
           None \<Rightarrow> Inr (path @ [sw])
         | Some parent \<Rightarrow> layerLoop swmap parent (path @ [sw])))"
  by pat_completeness auto
termination
proof (relation "measure (\<lambda>(swmap, sw, path). card (set (gm_keys swmap) - set (map ssName path)))")
  fix swmap :: switchMap and sw parent :: SimSwitch and path :: "SimSwitch list"
  assume new: "ssName sw \<notin> set (map ssName path)" and up: "gm_get swmap (ssName sw) = Some parent"
  have key: "ssName sw \<in> set (gm_keys swmap)" unfolding gm_key_get using up by blast
  then have "ssName sw \<in> set (gm_keys swmap) - set (map ssName path)"
    "set (gm_keys swmap) - set (map ssName (path @ [sw])) = set (gm_keys swmap) - set (map ssName path) - {ssName sw}"
    using new by auto
  moreover have "card (set (gm_keys swmap) - set (map ssName path) - {ssName sw}) < card (set (gm_keys swmap) - set (map ssName path))"
    by (rule card_Diff1_less) (use calculation in simp_all)
  ultimately show "((swmap, parent, path @ [sw]), swmap, sw, path) \<in>
      measure (\<lambda>(swmap, sw, path). card (set (gm_keys swmap) - set (map ssName path)))"
    by (simp del: set_map map_append card_Diff_insert)
qed simp

declare layerLoop.simps [simp del]

definition getNetworkLayers ::
  "SimSwitch \<Rightarrow> switchMap \<Rightarrow> model_error + string list \<times> (string, string) gomap \<times> (string, string) gomap" where
  "getNetworkLayers sw swmap =
     (case layerLoop swmap sw [] of
        Inl err \<Rightarrow> Inl err
      | Inr path \<Rightarrow>
          Inr (map ssName path, foldl (\<lambda>l s. mergeMaps l (ssLabels s)) [] (rev path),
               foldl (\<lambda>l s. mergeMaps l (ssAnnotations s)) [] (rev path)))"

subsection \<open>Regions and nodes\<close>

definition labelAt :: "(string, string) gomap \<Rightarrow> string \<Rightarrow> string" where
  "labelAt labels key = (case gm_get labels key of Some v \<Rightarrow> v | None \<Rightarrow> [])"

definition withDefaultRegion :: "(string, string) gomap \<Rightarrow> (string, string) gomap" where
  "withDefaultRegion labels =
     (if labelAt labels LabelTopologyRegion \<noteq> [] then labels else gm_put LabelTopologyRegion defaultRegion labels)"

type_synonym regionMap = "(string, (string, string) gomap) gomap"

definition addInstanceRegion :: "(string, string) gomap \<Rightarrow> string \<Rightarrow> regionMap \<Rightarrow> regionMap" where
  "addInstanceRegion labels hostName regions =
     (let region = labelAt labels LabelTopologyRegion;
          r = (case gm_get regions region of Some r \<Rightarrow> r | None \<Rightarrow> [])
      in gm_put region (gm_put (InstanceID' hostName) hostName r) regions)"

definition setInstances :: "regionMap \<Rightarrow> ComputeInstances list" where
  "setInstances regions =
     map (\<lambda>region. \<lparr>Region = region, Instances = (case gm_get regions region of Some r \<Rightarrow> r | None \<Rightarrow> [])\<rparr>)
       (sorted_keys regions)"

definition derivedNode ::
  "(string, string) gomap \<Rightarrow> (string, string) gomap \<Rightarrow> string list \<Rightarrow> SimNode \<Rightarrow> SimNode" where
  "derivedNode labels annotations layers node =
     (let inst = snInstance node
      in \<lparr>snInstance = inst\<lparr>Labels := withDefaultRegion (mergeMaps labels (Labels inst)), NetLayers := layers\<rparr>,
          snAnnotations = mergeMaps annotations (snAnnotations node)\<rparr>)"

definition deriveNode ::
  "switchMap \<Rightarrow> switchMap \<Rightarrow> string \<times> SimNode \<Rightarrow> (string, SimNode) gomap \<times> regionMap
     \<Rightarrow> model_error + (string, SimNode) gomap \<times> regionMap" where
  "deriveNode swmap nodeMap = (\<lambda>(hostName, node) (nodes, regions).
     case (case gm_get nodeMap hostName of None \<Rightarrow> Inr ([], [], []) | Some sw \<Rightarrow> getNetworkLayers sw swmap) of
       Inl err \<Rightarrow> Inl err
     | Inr (layers, labels, annotations) \<Rightarrow>
         (let node = derivedNode labels annotations layers node
          in Inr (nodes @ [(hostName, node)], addInstanceRegion (Labels (snInstance node)) hostName regions)))"

definition deriveNodes :: "(string, SimSwitch) gomap \<Rightarrow> switchMap \<Rightarrow> switchMap \<Rightarrow> Model \<Rightarrow> model_error + Model" where
  "deriveNodes sws swmap nodeMap m =
     (if moNodes m = [] \<and> nodeMap \<noteq> [] then Inl NoDeclaredNodes
      else
        (case find (\<lambda>node. gm_get (moNodes m) node = None) (gm_keys nodeMap) of
           Some node \<Rightarrow> Inl (UnknownNode node)
         | None \<Rightarrow>
             (case foldE (deriveNode swmap nodeMap) (moNodes m) ([], []) of
                Inl err \<Rightarrow> Inl err
              | Inr (nodes, regions) \<Rightarrow> Inr (m\<lparr>moSwitches := sws, moNodes := nodes, moInstances := setInstances regions\<rparr>))))"

definition derive :: "Model \<Rightarrow> (model_error + Model) option" where
  "derive m =
     (case completeCapacityBlocks m of
        None \<Rightarrow> None
      | Some (Inl err) \<Rightarrow> Some (Inl err)
      | Some (Inr m) \<Rightarrow>
          (case buildSwitchMaps m of
             None \<Rightarrow> None
           | Some (Inl err) \<Rightarrow> Some (Inl err)
           | Some (Inr (sws, swmap, nodeMap)) \<Rightarrow> Some (deriveNodes sws swmap nodeMap m)))"

text \<open>The decoder gives the raw switches and blocks.\<close>

definition NewModelFromData ::
  "(string \<Rightarrow> string + (string, SimSwitch option) gomap \<times> CapacityBlock list) \<Rightarrow> string \<Rightarrow> (model_error + Model) option" where
  "NewModelFromData decode data =
     (case decode data of
        Inl err \<Rightarrow> Some (Inl (DecodeFailed err))
      | Inr (rawSwitches, rawBlocks) \<Rightarrow>
          (case UnmarshalYAML rawSwitches rawBlocks of
             Inl err \<Rightarrow> Some (Inl err)
           | Inr m \<Rightarrow> derive m))"

subsection \<open>The graph\<close>

definition requestedInstanceIDs :: "ComputeInstances list \<Rightarrow> (string, unit) gomap" where
  "requestedInstanceIDs cis = fold (\<lambda>ci ids. fold (\<lambda>i. gm_put i ()) (gm_keys (Instances ci)) ids) cis []"

definition unwanted :: "(string, unit) gomap \<Rightarrow> string \<Rightarrow> bool" where
  "unwanted wanted i \<longleftrightarrow> wanted \<noteq> [] \<and> gm_get wanted i = None"

definition graphInstanceMap :: "Model \<Rightarrow> ComputeInstances list \<Rightarrow> (string, Instance) gomap" where
  "graphInstanceMap m cis =
     (let wanted = requestedInstanceIDs cis
      in fold (\<lambda>(hostName, node) insts.
           if unwanted wanted (InstanceID' hostName) then insts
           else gm_put (InstanceID' hostName) ((CloneForTopology (snInstance node))\<lparr>instID := InstanceID' hostName\<rparr>) insts)
         (moNodes m) [])"

definition InstanceMap :: "Model \<Rightarrow> ComputeInstances list \<Rightarrow> (string, Instance) gomap" where
  "InstanceMap m cis =
     (let wanted = requestedInstanceIDs cis
      in fold (\<lambda>(_, node) insts.
           if unwanted wanted (instID (snInstance node)) then insts
           else gm_put (instID (snInstance node)) (CloneForTopology (snInstance node)) insts)
         (moNodes m) [])"

definition nodeNames :: "Model \<Rightarrow> (string, string) gomap" where
  "nodeNames m = fold (\<lambda>hostName. gm_put (InstanceID' hostName) hostName) (gm_keys (moNodes m)) []"

definition allocNode :: "(string, string) gomap \<Rightarrow> string \<Rightarrow> heap \<times> (string, nat) gomap \<Rightarrow> heap \<times> (string, nat) gomap" where
  "allocNode names hostName = (\<lambda>(h, nodeVertex).
     (h @ [\<lparr>vName = labelAt names (InstanceID' hostName), vID = InstanceID' hostName, Vertices = []\<rparr>],
      gm_put hostName (length h) nodeVertex))"

definition allocSwitch :: "string \<times> SimSwitch \<Rightarrow> heap \<times> (string, nat) gomap \<Rightarrow> heap \<times> (string, nat) gomap" where
  "allocSwitch = (\<lambda>(_, sw) (h, swVertex).
     (h @ [\<lparr>vName = [], vID = ssName sw, Vertices = []\<rparr>], gm_put (ssName sw) (length h) swVertex))"

text \<open>A child under a key of the vertex of a switch.\<close>

definition putChild :: "(string, nat) gomap \<Rightarrow> string \<Rightarrow> string \<Rightarrow> nat option \<Rightarrow> heap \<Rightarrow> go_panic + heap" where
  "putChild swVertex sw key child h =
     (case gm_get swVertex sw of
        None \<Rightarrow> Inl NilDereference
      | Some a \<Rightarrow> Inr (addChild a key child h))"

definition connectNode :: "(string, nat) gomap \<Rightarrow> (string, nat) gomap \<Rightarrow> string \<Rightarrow> string \<Rightarrow> heap \<Rightarrow> go_panic + heap" where
  "connectNode nodeVertex swVertex sw node h =
     (case gm_get nodeVertex node of
        None \<Rightarrow> Inl NilDereference
      | Some a \<Rightarrow> putChild swVertex sw (vID (h ! a)) (Some a) h)"

definition connectSwitch :: "(string, nat) gomap \<Rightarrow> (string, nat) gomap \<Rightarrow> string \<times> SimSwitch \<Rightarrow> heap \<Rightarrow> go_panic + heap" where
  "connectSwitch nodeVertex swVertex = (\<lambda>(_, sw) h.
     case foldE (\<lambda>sub. putChild swVertex (ssName sw) sub (gm_get swVertex sub)) (ssSwitches sw) h of
       Inl p \<Rightarrow> Inl p
     | Inr h \<Rightarrow> foldE (connectNode nodeVertex swVertex (ssName sw)) (ssNodes sw) h)"

definition rootMap :: "Model \<Rightarrow> (string, bool) gomap" where
  "rootMap m =
     fold (\<lambda>sub. gm_put sub False) (concat (map (\<lambda>(_, sw). ssSwitches sw) (moSwitches m)))
       (fold (\<lambda>(_, sw). gm_put (ssName sw) True) (moSwitches m) [])"

definition modelDomains :: "Model \<Rightarrow> DomainMap" where
  "modelDomains m =
     fold (\<lambda>(hostName, node) dm.
       if AcceleratorDomain node = [] then dm
       else AddHostInfo (Some \<lparr>Domain = AcceleratorDomain node, hostInstanceID = InstanceID' hostName,
              HostName = labelAt (nodeNames m) (InstanceID' hostName), SubDomain = AcceleratorSubDomain node\<rparr>) dm)
       (moNodes m) NewDomainMap"

definition modelToGraph :: "Model \<Rightarrow> ComputeInstances list \<Rightarrow> go_panic + (heap \<times> Graph \<times> (string, string) gomap)" where
  "modelToGraph m cis =
     (let names = nodeNames m;
          (h, nodeVertex) = fold (allocNode names) (gm_keys (moNodes m)) ([], []);
          (h, swVertex) = fold allocSwitch (moSwitches m) (h, [])
      in case foldE (connectSwitch nodeVertex swVertex) (moSwitches m) h of
           Inl p \<Rightarrow> Inl p
         | Inr h \<Rightarrow>
             (let roots = filter snd (rootMap m);
                  root = \<lparr>vName = [], vID = [], Vertices = map (\<lambda>(k, _). (k, gm_get swVertex k)) roots\<rparr>;
                  doms = modelDomains m
              in Inr (h @ [root],
                   \<lparr>Tiers = Some (length h), gDomains = (if doms = [] then None else Some doms),
                    gInstances = graphInstanceMap m cis\<rparr>, names)))"

section \<open>Layers\<close>

text \<open>The path from a switch to its root, as a specification.\<close>

fun upChain :: "switchMap \<Rightarrow> SimSwitch list \<Rightarrow> bool" where
  "upChain swmap [] \<longleftrightarrow> False"
| "upChain swmap [s] \<longleftrightarrow> gm_get swmap (ssName s) = None"
| "upChain swmap (s # p # q) \<longleftrightarrow> gm_get swmap (ssName s) = Some p \<and> upChain swmap (p # q)"

lemma upChain_same:
  "upChain swmap (s # q) \<Longrightarrow> upChain swmap (s' # q') \<Longrightarrow> ssName s = ssName s' \<Longrightarrow> q = q'"
proof (induction q arbitrary: s s' q')
  case Nil
  then show ?case by (cases q') auto
next
  case (Cons p q)
  then obtain q'' where "q' = p # q''" by (cases q') auto
  then show ?case using Cons by auto
qed

lemma upChain_append: "upChain swmap (a @ s # b) \<Longrightarrow> upChain swmap (s # b)"
proof (induction a)
  case (Cons x a)
  then show ?case by (cases a) auto
qed simp

lemma upChain_distinct: "upChain swmap q \<Longrightarrow> distinct (map ssName q)"
proof (induction q)
  case (Cons s q)
  have "upChain swmap q" if "q \<noteq> []" using Cons.prems that by (cases q) auto
  moreover have "ssName s \<notin> set (map ssName q)"
  proof
    assume "ssName s \<in> set (map ssName q)"
    then obtain s' where "s' \<in> set q" and n: "ssName s' = ssName s" by auto
    then obtain a b where q: "q = a @ s' # b" by (auto simp: in_set_conv_decomp)
    then have "upChain swmap (s' # b)" using upChain_append [of swmap "s # a"] Cons.prems by simp
    then have "b = q" using upChain_same Cons.prems n by blast
    then show False using q by simp
  qed
  ultimately show ?case using Cons.IH by (cases "q = []") auto
qed simp

lemma layerLoop_sound:
  "layerLoop swmap sw path = Inr p \<Longrightarrow> \<exists>q. p = path @ q \<and> upChain swmap q \<and> hd q = sw"
proof (induction swmap sw path rule: layerLoop.induct)
  case (1 swmap sw path)
  show ?case
  proof (cases "gm_get swmap (ssName sw)")
    case None
    then show ?thesis using "1.prems" by (subst (asm) layerLoop.simps) (auto split: if_splits)
  next
    case (Some parent)
    with "1.prems" have new: "ssName sw \<notin> set (map ssName path)" and l: "layerLoop swmap parent (path @ [sw]) = Inr p"
      by (subst (asm) layerLoop.simps; simp split: if_splits)+
    from "1.IH" [OF new Some l] obtain q where q: "p = path @ [sw] @ q" "upChain swmap q" "hd q = parent" by auto
    then have "upChain swmap (sw # q)" using Some by (cases q) auto
    then show ?thesis using q(1) by (intro exI [of _ "sw # q"]) simp
  qed
qed

lemma layerLoop_complete:
  "upChain swmap q \<Longrightarrow> distinct (map ssName (path @ q)) \<Longrightarrow> layerLoop swmap (hd q) path = Inr (path @ q)"
proof (induction swmap q arbitrary: path rule: upChain.induct)
  case (2 swmap s)
  then show ?case by (subst layerLoop.simps) auto
next
  case (3 swmap s p q)
  have "layerLoop swmap p (path @ [s]) = Inr (path @ s # p # q)"
    using "3.IH" [of "path @ [s]"] "3.prems" by auto
  then show ?case using "3.prems" by (subst layerLoop.simps) auto
qed simp

text \<open>The walk returns exactly the path to the root; it fails exactly if there is none.\<close>

lemma layerLoop_exact: "layerLoop swmap sw [] = Inr q \<longleftrightarrow> upChain swmap q \<and> hd q = sw"
  using layerLoop_sound [of swmap sw "[]" q] layerLoop_complete [of swmap q "[]"] upChain_distinct by auto

section \<open>Labels\<close>

fun firstSome :: "'a option list \<Rightarrow> 'a option" where
  "firstSome [] = None"
| "firstSome (x # xs) = (case x of Some v \<Rightarrow> Some v | None \<Rightarrow> firstSome xs)"

lemma mergeMaps_get:
  "gm_wf overlay \<Longrightarrow> gm_get (mergeMaps base overlay) k = firstSome [gm_get overlay k, gm_get base k]"
  by (auto simp: mergeMaps_def gm_get_copy split: option.splits)

lemma mergeMaps_wf: "gm_wf base \<Longrightarrow> gm_wf (mergeMaps base overlay)"
  by (simp add: mergeMaps_def gm_wf_copy)

lemma mergePath_get:
  "\<forall>s \<in> set path. gm_wf (f s) \<Longrightarrow>
     gm_get (foldl (\<lambda>l s. mergeMaps l (f s)) [] (rev path)) k = firstSome (map (\<lambda>s. gm_get (f s) k) path)"
  by (induction path) (auto simp: mergeMaps_get split: option.splits)

text \<open>The label maps of the file have distinct keys, and so have those of nodes and switches later.\<close>

definition labelsWf :: "Model \<Rightarrow> bool" where
  "labelsWf m \<longleftrightarrow>
     (\<forall>(k, sw) \<in> set (moSwitches m). gm_wf (ssLabels sw)) \<and>
     (\<forall>(h, n) \<in> set (moNodes m). gm_wf (Labels (snInstance n)))"

definition mapWf :: "switchMap \<Rightarrow> bool" where
  "mapWf sm \<longleftrightarrow> (\<forall>(k, sw) \<in> set sm. gm_wf (ssLabels sw))"

lemma mapWf_put: "mapWf sm \<Longrightarrow> gm_wf (ssLabels sw) \<Longrightarrow> mapWf (gm_put k sw sm)"
  unfolding mapWf_def using set_gm_put_subset [of k sw sm] by fastforce

lemma mapWf_get: "mapWf sm \<Longrightarrow> gm_get sm k = Some sw \<Longrightarrow> gm_wf (ssLabels sw)"
  unfolding mapWf_def by (auto dest: map_of_SomeD)

lemma addBlock_wf:
  assumes "addBlock index block m = Inr m'" and "labelsWf m" and "gm_wf (cbLabels block)"
  shows "labelsWf m'"
proof -
  obtain sws nodes where m': "m' = m\<lparr>moSwitches := sws, moNodes := nodes, moBlocks := (moBlocks m)[index := block]\<rparr>"
    and sws: "sws = moSwitches m \<or> (\<exists>sw. gm_get (moSwitches m) (cbSwitch block) = Some sw \<and>
      sws = gm_put (cbSwitch block) (attachBlock block sw) (moSwitches m))"
    and nodes: "foldE (addBlockNode block) (cbNodes block) (moNodes m) = Inr nodes"
  proof (cases "cbSwitch block = []")
    case True
    have same: "m\<lparr>moSwitches := moSwitches m, moNodes := ns, moBlocks := bs\<rparr> = m\<lparr>moNodes := ns, moBlocks := bs\<rparr>" for ns bs
      by simp
    show ?thesis using True assms(1) that [where sws = "moSwitches m"]
      by (auto simp: addBlock_def same split: if_splits sum.splits)
  next
    case False
    then show ?thesis using assms(1) that by (auto simp: addBlock_def split: if_splits option.splits sum.splits)
  qed
  have old: "mapWf (moSwitches m)" using assms(2) by (simp add: labelsWf_def mapWf_def)
  then have "mapWf sws" using sws mapWf_put mapWf_get by (auto simp: attachBlock_def)
  moreover have "\<forall>(h, n) \<in> set nodes. gm_wf (Labels (snInstance n))"
    by (rule foldE_inv [OF nodes, where I = "\<lambda>nodes. \<forall>(h, n) \<in> set nodes. gm_wf (Labels (snInstance n))"])
      (use assms(2,3) in \<open>auto simp: labelsWf_def addBlockNode_def split: if_splits dest!: set_mp [OF set_gm_put_subset]\<close>)
  ultimately show ?thesis by (simp add: m' labelsWf_def mapWf_def)
qed

lemma blockLoop_wf:
  "blockLoop index blocks m = Some (Inr m') \<Longrightarrow> labelsWf m \<Longrightarrow> \<forall>b \<in> set blocks. gm_wf (cbLabels b) \<Longrightarrow> labelsWf m'"
proof (induction index blocks m rule: blockLoop.induct)
  case (2 index block blocks m)
  then obtain names m1 where e: "Expand (cbNodes block) = Some names" "addBlock index (block\<lparr>cbNodes := names\<rparr>) m = Inr m1"
    "blockLoop (index + 1) blocks m1 = Some (Inr m')"
    by (auto split: option.splits sum.splits)
  have "labelsWf m1" by (rule addBlock_wf [OF e(2) "2.prems"(2)]) (use "2.prems"(3) in simp)
  then show ?case using "2.IH" [OF e(1,2,3)] "2.prems"(3) by simp
qed simp

lemma addSubSwitches_wf:
  "foldE (addSubSwitch sws parent) xs swmap = Inr swmap' \<Longrightarrow> mapWf swmap \<Longrightarrow> gm_wf (ssLabels parent) \<Longrightarrow> mapWf swmap'"
  by (rule foldE_inv [where I = mapWf]) (auto simp: addSubSwitch_def mapWf_put split: if_splits option.splits)

lemma addLeafNodes_wf:
  "foldE (addLeafNode parent) xs nm = Inr nm' \<Longrightarrow> mapWf nm \<Longrightarrow> gm_wf (ssLabels parent) \<Longrightarrow> mapWf nm'"
  by (rule foldE_inv [where I = mapWf]) (auto simp: addLeafNode_def mapWf_put split: option.splits)

lemma switchLoop_wf:
  "switchLoop sws xs acc swmap nodeMap = Some (Inr (acc', swmap', nodeMap')) \<Longrightarrow> mapWf xs \<Longrightarrow> mapWf swmap \<Longrightarrow> mapWf nodeMap \<Longrightarrow>
     mapWf swmap' \<and> mapWf nodeMap'"
proof (induction sws xs acc swmap nodeMap rule: switchLoop.induct)
  case (2 sws name parent rest acc swmap nodeMap)
  obtain sm names nm where e: "foldE (addSubSwitch sws parent) (ssSwitches parent) swmap = Inr sm"
    "Expand (ssNodes parent) = Some names" "foldE (addLeafNode (parent\<lparr>ssNodes := names\<rparr>)) names nodeMap = Inr nm"
    "switchLoop sws rest (acc @ [(name, parent\<lparr>ssNodes := names\<rparr>)]) sm nm = Some (Inr (acc', swmap', nodeMap'))"
    using "2.prems"(1) by (auto simp: Let_def split: option.splits sum.splits)
  have wf: "gm_wf (ssLabels parent)" "mapWf rest" using "2.prems"(2) by (auto simp: mapWf_def)
  have "mapWf sm" by (rule addSubSwitches_wf [OF e(1) "2.prems"(3) wf(1)])
  moreover have "mapWf nm" by (rule addLeafNodes_wf [OF e(3) "2.prems"(4)]) (use wf(1) in simp)
  ultimately show ?case using "2.IH" [OF e(1,2) refl e(3,4) wf(2)] by simp
qed simp

section \<open>Derived nodes\<close>

definition derived :: "switchMap \<Rightarrow> switchMap \<Rightarrow> string \<times> SimNode \<Rightarrow> string \<times> SimNode \<Rightarrow> bool" where
  "derived swmap nodeMap = (\<lambda>(host, node) (host', node'). host' = host \<and>
     (case gm_get nodeMap host of
        None \<Rightarrow> node' = derivedNode [] [] [] node
      | Some sw \<Rightarrow> (\<exists>l lab ann. getNetworkLayers sw swmap = Inr (l, lab, ann) \<and> node' = derivedNode lab ann l node)))"

definition regionOf :: "SimNode \<Rightarrow> string" where
  "regionOf node = labelAt (Labels (snInstance node)) LabelTopologyRegion"

lemma deriveNodes_fold:
  "foldE (deriveNode swmap nodeMap) xs (ns, rs) = Inr (ns', rs') \<Longrightarrow>
     \<exists>new. ns' = ns @ new \<and> list_all2 (derived swmap nodeMap) xs new \<and>
       rs' = fold (\<lambda>(h, n). addInstanceRegion (Labels (snInstance n)) h) new rs"
proof (induction xs arbitrary: ns rs)
  case (Cons x xs)
  obtain h n where x: "x = (h, n)" by (cases x)
  from Cons.prems obtain s where s: "deriveNode swmap nodeMap x (ns, rs) = Inr s"
    "foldE (deriveNode swmap nodeMap) xs s = Inr (ns', rs')" by (auto split: sum.splits)
  then obtain n' where n': "s = (ns @ [(h, n')], addInstanceRegion (Labels (snInstance n')) h rs)"
    "derived swmap nodeMap (h, n) (h, n')"
    by (auto simp: x deriveNode_def derived_def Let_def split: option.splits sum.splits)
  from Cons.IH [OF s(2) [unfolded n'(1)]] obtain new where "ns' = (ns @ [(h, n')]) @ new"
    "list_all2 (derived swmap nodeMap) xs new"
    "rs' = fold (\<lambda>(h, n). addInstanceRegion (Labels (snInstance n)) h) new (addInstanceRegion (Labels (snInstance n')) h rs)"
    by blast
  then show ?case using n'(2) by (intro exI [of _ "(h, n') # new"]) (simp add: x)
qed simp

definition regionGet :: "regionMap \<Rightarrow> string \<Rightarrow> string \<Rightarrow> string option" where
  "regionGet rs r i = (case gm_get rs r of Some m \<Rightarrow> gm_get m i | None \<Rightarrow> None)"

lemma regionGet_add:
  "regionGet (addInstanceRegion (Labels (snInstance n)) h rs) r i =
     (if r = regionOf n \<and> i = InstanceID' h then Some h else regionGet rs r i)"
  by (auto simp: regionGet_def addInstanceRegion_def regionOf_def Let_def split: option.splits)

lemma InstanceID'_inj: "InstanceID' h = InstanceID' h' \<longleftrightarrow> h = h'"
  by (simp add: InstanceID'_def)

lemma regionGet_fold:
  "regionGet (fold (\<lambda>(h, n). addInstanceRegion (Labels (snInstance n)) h) ns rs) r i = Some h \<longleftrightarrow>
     (\<exists>n. (h, n) \<in> set ns \<and> r = regionOf n \<and> i = InstanceID' h) \<or>
     (\<nexists>h n. (h, n) \<in> set ns \<and> r = regionOf n \<and> i = InstanceID' h) \<and> regionGet rs r i = Some h"
proof (induction ns arbitrary: rs)
  case (Cons x ns)
  obtain h' n' where x: "x = (h', n')" by (cases x)
  show ?case using Cons.IH [of "addInstanceRegion (Labels (snInstance n')) h' rs"]
    by (auto simp: x regionGet_add InstanceID'_inj)
qed simp

lemma regions_wf: "gm_wf rs \<Longrightarrow> gm_wf (fold (\<lambda>(h, n). addInstanceRegion (Labels (snInstance n)) h) ns rs)"
  by (induction ns arbitrary: rs) (auto simp: addInstanceRegion_def Let_def gm_wf_put split: prod.splits)

lemma setInstances_get:
  "(\<exists>ci \<in> set (setInstances rs). Region ci = r \<and> gm_get (Instances ci) i = Some h) \<longleftrightarrow> regionGet rs r i = Some h"
proof -
  have "regionGet rs r i = Some h \<Longrightarrow> r \<in> set (gm_keys rs)"
    unfolding gm_key_get by (auto simp: regionGet_def split: option.splits)
  then show ?thesis
    by (auto simp: setInstances_def regionGet_def split: option.splits)
qed

lemma derivedNode_labels:
  assumes "gm_wf (Labels (snInstance node))" and "k \<noteq> LabelTopologyRegion"
  shows "gm_get (Labels (snInstance (derivedNode labels ann l node))) k =
    firstSome [gm_get (Labels (snInstance node)) k, gm_get labels k]"
  using assms by (simp add: derivedNode_def withDefaultRegion_def mergeMaps_get Let_def)

lemma upChain_wf:
  "mapWf swmap \<Longrightarrow> upChain swmap path \<Longrightarrow> gm_wf (ssLabels (hd path)) \<Longrightarrow> \<forall>s \<in> set path. gm_wf (ssLabels s)"
  by (induction swmap path rule: upChain.induct) (auto dest: mapWf_get)

lemma derived_path:
  assumes d: "derived swmap nodeMap (h, node) (h', node')" and wf: "gm_wf (Labels (snInstance node))"
    and maps: "mapWf swmap" "mapWf nodeMap"
  shows "\<exists>path. (case gm_get nodeMap h of None \<Rightarrow> path = [] | Some sw \<Rightarrow> upChain swmap path \<and> hd path = sw) \<and>
    NetLayers (snInstance node') = map ssName path \<and>
    (\<forall>k. k \<noteq> LabelTopologyRegion \<longrightarrow> gm_get (Labels (snInstance node')) k =
       firstSome (gm_get (Labels (snInstance node)) k # map (\<lambda>s. gm_get (ssLabels s) k) path))"
proof (cases "gm_get nodeMap h")
  case None
  then have n': "node' = derivedNode [] [] [] node" using d by (simp add: derived_def)
  have "NetLayers (snInstance node') = []" by (simp add: n' derivedNode_def Let_def)
  then show ?thesis using None derivedNode_labels [OF wf, of _ "[]" "[]" "[]"]
    by (intro exI [of _ "[]"]) (auto simp: n' split: option.splits)
next
  case (Some sw)
  then obtain l lab ann where g: "getNetworkLayers sw swmap = Inr (l, lab, ann)" and n': "node' = derivedNode lab ann l node"
    using d by (auto simp: derived_def)
  then obtain path where p: "layerLoop swmap sw [] = Inr path" "l = map ssName path"
    "lab = foldl (\<lambda>l s. mergeMaps l (ssLabels s)) [] (rev path)"
    by (auto simp: getNetworkLayers_def split: sum.splits)
  then have chain: "upChain swmap path" "hd path = sw" by (simp_all add: layerLoop_exact)
  have "gm_wf (ssLabels sw)" using mapWf_get [OF maps(2) Some] .
  then have "\<forall>s \<in> set path. gm_wf (ssLabels s)"
    using upChain_wf [OF maps(1) chain(1)] chain(2) by simp
  then have "gm_get lab k = firstSome (map (\<lambda>s. gm_get (ssLabels s) k) path)" for k
    unfolding p(3) by (rule mergePath_get)
  then have "gm_get (Labels (snInstance node')) k =
      firstSome (gm_get (Labels (snInstance node)) k # map (\<lambda>s. gm_get (ssLabels s) k) path)"
    if "k \<noteq> LabelTopologyRegion" for k
    unfolding n' derivedNode_labels [OF wf that] by (auto split: option.splits)
  moreover have "NetLayers (snInstance node') = map ssName path" by (simp add: n' p(2) derivedNode_def Let_def)
  ultimately show ?thesis using chain Some by (intro exI [of _ path]) simp
qed

lemma list_all2_mem:
  assumes "list_all2 P xs ys" and "y \<in> set ys"
  obtains x where "x \<in> set xs" and "P x y"
  using assms by (induction rule: list_all2_induct) auto


definition demoModel :: Model where
  "demoModel = \<lparr>moSwitches = [(''core'', \<lparr>ssName = ''core'', ssLabels = [(''a'', ''1'')], ssAnnotations = [], ssSwitches = [''leaf''], ssNodes = []\<rparr>),
      (''leaf'', \<lparr>ssName = ''leaf'', ssLabels = [], ssAnnotations = [], ssSwitches = [], ssNodes = []\<rparr>)],
    moNodes = [], moBlocks = [\<lparr>cbSwitch = ''leaf'', cbNodes = [''n1''], cbLabels = [], cbAnnotations = []\<rparr>], moInstances = []\<rparr>"


end
