(* ===== verification/ProviderTools.thy ===== *)
theory ProviderTools
  imports Models GoText
begin

text \<open>
  Component \<open>pkg/providers/providers.go\<close> and \<open>providers_sim.go\<close>: what the providers share. Instances are
  grouped by region, the output of \<open>pdsh\<close> is read, parameters are checked, and simulated providers
  take their instances from a model.
\<close>

section \<open>Model\<close>

text \<open>
  \<open>strings.Split\<close> for a non-empty separator. The number is how many characters of the current
  separator are still to be dropped.
\<close>

fun splitAux :: "string \<Rightarrow> nat \<Rightarrow> string \<Rightarrow> string \<Rightarrow> string list" where
  "splitAux sep skip cur [] = [cur]"
| "splitAux sep skip cur (c # s) =
     (if skip > 0 then splitAux sep (skip - 1) cur s
      else if take (length sep) (c # s) = sep then cur # splitAux sep (length sep - 1) [] s
      else splitAux sep 0 (cur @ [c]) s)"

definition Split :: "string \<Rightarrow> string \<Rightarrow> string list" where
  "Split s sep = splitAux sep 0 [] s"

text \<open>
  The values of a parameter map. A float is what the JSON decoder yields for every number: an integer
  mantissa and a binary exponent.
\<close>

datatype goAny = AnyNil | AnyInt int | AnyFloat int int | AnyString string | AnyOther

text \<open>
  \<open>int(val)\<close> of a float truncates towards zero. Beyond the range of \<open>int\<close> the result depends on the
  platform, but is never a small positive number; the model keeps the truncation.
\<close>

definition truncateFloat :: "int \<Rightarrow> int \<Rightarrow> int" where
  "truncateFloat m e = (if 0 \<le> e then m * 2 ^ nat e else goDiv m (2 ^ nat (- e)))"

datatype param_error = UnsupportedType string | NotBetween

definition KeyTrimTiers :: string where "KeyTrimTiers = ''trimTiers''"
definition KeyIMDSURL :: string where "KeyIMDSURL = ''imdsUrl''"

definition checkTrim :: "int \<Rightarrow> param_error + int" where
  "checkTrim n = (if n < 0 \<or> n > 2 then Inl NotBetween else Inr n)"

definition GetTrimTiers :: "(string, goAny) gomap \<Rightarrow> param_error + int" where
  "GetTrimTiers params =
     (case gm_get params KeyTrimTiers of
        None \<Rightarrow> Inr 0
      | Some AnyNil \<Rightarrow> Inr 0
      | Some (AnyInt n) \<Rightarrow> checkTrim n
      | Some (AnyFloat m e) \<Rightarrow> checkTrim (truncateFloat m e)
      | Some _ \<Rightarrow> Inl (UnsupportedType KeyTrimTiers))"

definition GetIMDSURL :: "(string, goAny) gomap \<Rightarrow> param_error + string" where
  "GetIMDSURL params =
     (case gm_get params KeyIMDSURL of
        None \<Rightarrow> Inr []
      | Some AnyNil \<Rightarrow> Inr []
      | Some (AnyString url) \<Rightarrow> Inr url
      | Some _ \<Rightarrow> Inl (UnsupportedType KeyIMDSURL))"

text \<open>Grouping: the positions of the regions, and the regions so far.\<close>

record groupState =
  grRegions :: "(string, nat) gomap"
  grCis :: "ComputeInstances list"

definition groupOne :: "(string, string) gomap \<Rightarrow> string \<times> string \<Rightarrow> groupState \<Rightarrow> groupState" where
  "groupOne nodeRegions = (\<lambda>(instance', node) st.
     case gm_get nodeRegions node of
       None \<Rightarrow> st
     | Some region \<Rightarrow>
         (case gm_get (grRegions st) region of
            None \<Rightarrow> st\<lparr>grRegions := gm_put region (length (grRegions st)) (grRegions st),
                       grCis := grCis st @ [\<lparr>Region = region, Instances = [(instance', node)]\<rparr>]\<rparr>
          | Some indx \<Rightarrow>
              st\<lparr>grCis := (grCis st)[indx := (grCis st ! indx)\<lparr>Instances := gm_put instance' node (Instances (grCis st ! indx))\<rparr>]\<rparr>))"

definition GroupByRegion :: "(string, string) gomap \<Rightarrow> (string, string) gomap \<Rightarrow> ComputeInstances list" where
  "GroupByRegion i2n nodeRegions = grCis (fold (groupOne nodeRegions) i2n \<lparr>grRegions = [], grCis = []\<rparr>)"

definition GetNodeInstancesByRegion ::
  "string list \<Rightarrow> (string list \<Rightarrow> 'e + (string, string) gomap) \<Rightarrow> (string list \<Rightarrow> 'e + (string, string) gomap)
     \<Rightarrow> 'e + ComputeInstances list" where
  "GetNodeInstancesByRegion nodes instanceToNode nodeToRegion =
     (case instanceToNode nodes of
        Inl err \<Rightarrow> Inl err
      | Inr i2n \<Rightarrow>
          (case nodeToRegion nodes of
             Inl err \<Rightarrow> Inl err
           | Inr nodeRegions \<Rightarrow> Inr (GroupByRegion i2n nodeRegions)))"

definition SelfNamedInstances :: "string list \<Rightarrow> string \<Rightarrow> ComputeInstances list" where
  "SelfNamedInstances nodes region =
     (if nodes = [] then [] else [\<lparr>Region = region, Instances = fold (\<lambda>node. gm_put node node) nodes []\<rparr>])"

definition pdshLine :: "bool \<Rightarrow> string \<Rightarrow> (string, string) gomap \<Rightarrow> (string, string) gomap" where
  "pdshLine direct line res =
     (case Split line '': '' of
        [node, attr] \<Rightarrow> if direct then gm_put node attr res else gm_put attr node res
      | _ \<Rightarrow> res)"

text \<open>\<open>None\<close> is the error of the scanner.\<close>

definition ParsePdshOutput :: "string \<Rightarrow> bool \<Rightarrow> (string, string) gomap option" where
  "ParsePdshOutput buff direct = map_option (\<lambda>lines. fold (pdshLine direct) lines []) (scanLines buff)"

definition ParseInstanceOutput :: "string \<Rightarrow> (string, string) gomap option" where
  "ParseInstanceOutput buff = ParsePdshOutput buff False"

subsection \<open>Simulation\<close>

record SimulationParams =
  ModelFileName :: string
  APIError :: int
  spTrimTiers :: int

datatype sim_error = DecodeParams string | NoModelFile

definition GetSimulationParams :: "('p \<Rightarrow> string + SimulationParams) \<Rightarrow> 'p \<Rightarrow> sim_error + SimulationParams" where
  "GetSimulationParams decode params =
     (case decode params of
        Inl err \<Rightarrow> Inl (DecodeParams err)
      | Inr p \<Rightarrow> if ModelFileName p = [] then Inl NoModelFile else Inr p)"

record BaseSimProvider =
  bpInstances :: "(string, Instance) gomap"
  bpComputeInstances :: "ComputeInstances list"
  bpTrimTiers :: int

text \<open>The node of an instance is looked up in the model; a missing one is a nil dereference.\<close>

definition providerInstance :: "Model \<Rightarrow> string \<times> string \<Rightarrow> (string, string) gomap \<Rightarrow> go_panic + (string, string) gomap" where
  "providerInstance m = (\<lambda>(_, hostName) insts.
     case gm_get (moNodes m) hostName of
       None \<Rightarrow> Inl NilDereference
     | Some node \<Rightarrow> Inr (gm_put (instID (snInstance node)) hostName insts))"

definition providerRegion :: "Model \<Rightarrow> ComputeInstances \<Rightarrow> ComputeInstances list \<Rightarrow> go_panic + ComputeInstances list" where
  "providerRegion m ci cis =
     map_sum id (\<lambda>insts. cis @ [\<lparr>Region = Region ci, Instances = insts\<rparr>]) (foldE (providerInstance m) (Instances ci) [])"

definition NewBaseSimProvider :: "Model \<Rightarrow> int \<Rightarrow> go_panic + BaseSimProvider" where
  "NewBaseSimProvider m trimTiers =
     map_sum id (\<lambda>cis. \<lparr>bpInstances = InstanceMap m [], bpComputeInstances = cis, bpTrimTiers = trimTiers\<rparr>)
       (foldE (providerRegion m) (moInstances m) [])"

definition simToGraph :: "nat \<Rightarrow> BaseSimProvider \<Rightarrow> ClusterTopology \<Rightarrow> ComputeInstances list \<Rightarrow> bool \<Rightarrow> (heap \<times> Graph) option" where
  "simToGraph fuel p topo instances normalise =
     ToGraph fuel (AttachInstances topo (bpInstances p)) instances (bpTrimTiers p) normalise"

section \<open>Grouping\<close>

definition groupOk :: "groupState \<Rightarrow> bool" where
  "groupOk st \<longleftrightarrow> gm_keys (grRegions st) = map Region (grCis st) \<and> distinct (map Region (grCis st)) \<and>
     (\<forall>j < length (grCis st). gm_get (grRegions st) (Region (grCis st ! j)) = Some j)"

definition groupGet :: "groupState \<Rightarrow> string \<Rightarrow> string \<Rightarrow> string option" where
  "groupGet st r i =
     (case gm_get (grRegions st) r of Some j \<Rightarrow> gm_get (Instances (grCis st ! j)) i | None \<Rightarrow> None)"

lemma groupOk_index:
  assumes "groupOk st" and "gm_get (grRegions st) r = Some j"
  shows "j < length (grCis st) \<and> Region (grCis st ! j) = r"
proof -
  have "r \<in> set (gm_keys (grRegions st))" unfolding gm_key_get using assms(2) by blast
  then have "r \<in> set (map Region (grCis st))" using assms(1) unfolding groupOk_def by metis
  then obtain k where k: "k < length (grCis st)" "Region (grCis st ! k) = r"
    by (auto simp: in_set_conv_nth)
  then have "gm_get (grRegions st) r = Some k" using assms(1) by (auto simp: groupOk_def)
  then show ?thesis using k assms(2) by simp
qed

lemma groupOk_groupOne:
  assumes ok: "groupOk st"
  shows "groupOk (groupOne nodeRegions x st)"
proof -
  obtain i n where x: "x = (i, n)" by (cases x)
  show ?thesis
  proof (cases "gm_get nodeRegions n")
    case None
    then show ?thesis using ok by (simp add: x groupOne_def)
  next
    case (Some r)
    show ?thesis
    proof (cases "gm_get (grRegions st) r")
      case None
      then have absent: "r \<notin> set (gm_keys (grRegions st))" unfolding gm_key_get by simp
      then have "r \<notin> set (map Region (grCis st))" using ok unfolding groupOk_def by metis
      then have fresh: "r \<notin> Region ` set (grCis st)" by simp
      have "length (grRegions st) = length (grCis st)"
        using ok by (metis groupOk_def length_map)
      then have new: "groupOne nodeRegions x st = \<lparr>grRegions = grRegions st @ [(r, length (grCis st))],
          grCis = grCis st @ [\<lparr>Region = r, Instances = [(i, n)]\<rparr>]\<rparr>"
        using Some None gm_put_fresh [OF absent] by (simp add: x groupOne_def)
      have old: "gm_get (grRegions st @ [(r, k)]) (Region (grCis st ! j)) = Some j" if "j < length (grCis st)" for j k
        using ok that by (simp add: groupOk_def map_add_Some_iff)
      have last: "gm_get (grRegions st @ [(r, k)]) r = Some k" for k using None by (simp add: map_add_Some_iff)
      show ?thesis unfolding new groupOk_def using ok fresh old last by (auto simp: groupOk_def nth_append less_Suc_eq)
    next
      case (Some j)
      have "(map Region (grCis st))[j := Region (grCis st ! j)] = map Region (grCis st)"
        using groupOk_index [OF ok Some] by (simp add: list_update_same_conv)
      then show ?thesis using Some ok \<open>gm_get nodeRegions n = Some r\<close> groupOk_index [OF ok Some]
        by (auto simp: x groupOne_def groupOk_def nth_list_update map_update intro: nth_equalityI)
    qed
  qed
qed

lemma groupGet_groupOne:
  assumes ok: "groupOk st"
  shows "groupGet (groupOne nodeRegions (i, n) st) r' i' =
    (if gm_get nodeRegions n = Some r' \<and> i' = i then Some n else groupGet st r' i')"
proof (cases "gm_get nodeRegions n")
  case None
  then show ?thesis by (simp add: groupOne_def)
next
  case (Some r)
  show ?thesis
  proof (cases "gm_get (grRegions st) r")
    case None
    have len: "length (grRegions st) = length (grCis st)" using ok by (metis groupOk_def length_map)
    have "j < length (grCis st)" if "gm_get (grRegions st) r' = Some j" for j using groupOk_index [OF ok that] by simp
    then show ?thesis using Some None len by (auto simp: groupOne_def groupGet_def nth_append split: option.splits)
  next
    case (Some j)
    have "k \<noteq> j" if "gm_get (grRegions st) r' = Some k" "r' \<noteq> r" for k
      using groupOk_index [OF ok that(1)] groupOk_index [OF ok Some] that(2) by auto
    then show ?thesis using Some \<open>gm_get nodeRegions n = Some r\<close> groupOk_index [OF ok Some]
      by (auto simp: groupOne_def groupGet_def nth_list_update split: option.splits)
  qed
qed

lemma groupOk_fold: "groupOk st \<Longrightarrow> groupOk (fold (groupOne nodeRegions) xs st)"
  by (induction xs arbitrary: st) (simp_all add: groupOk_groupOne)

lemma groupGet_fold:
  "groupOk st \<Longrightarrow> gm_wf xs \<Longrightarrow> groupGet (fold (groupOne nodeRegions) xs st) r i =
     (case gm_get xs i of
        Some n \<Rightarrow> if gm_get nodeRegions n = Some r then Some n else groupGet st r i
      | None \<Rightarrow> groupGet st r i)"
proof (induction xs arbitrary: st)
  case (Cons x xs)
  obtain j n where x: "x = (j, n)" by (cases x)
  have new: "gm_get xs j = None" using Cons.prems(2) by (auto simp: x gm_wf_def map_of_eq_None_iff)
  have "gm_wf xs" using Cons.prems(2) by (simp add: x gm_wf_def)
  then show ?case using Cons.IH [OF groupOk_groupOne [OF Cons.prems(1)]] new
    by (auto simp: x groupGet_groupOne [OF Cons.prems(1)] split: option.splits)
qed simp

text \<open>
  Grouping loses and invents nothing: an instance is listed in a region exactly if its node is in
  that region, with that node, and every region is listed once.
\<close>

theorem GroupByRegion_exact:
  assumes "gm_wf i2n"
  shows "distinct (map Region (GroupByRegion i2n nodeRegions)) \<and>
    (\<forall>r i n. (\<exists>ci \<in> set (GroupByRegion i2n nodeRegions). Region ci = r \<and> gm_get (Instances ci) i = Some n) \<longleftrightarrow>
       gm_get i2n i = Some n \<and> gm_get nodeRegions n = Some r)"
proof -
  let ?s0 = "\<lparr>grRegions = [], grCis = []\<rparr>" and ?st = "fold (groupOne nodeRegions) i2n \<lparr>grRegions = [], grCis = []\<rparr>"
  have ok0: "groupOk ?s0" by (simp add: groupOk_def)
  then have ok: "groupOk ?st" by (rule groupOk_fold)
  have "(\<exists>ci \<in> set (grCis ?st). Region ci = r \<and> gm_get (Instances ci) i = Some n) \<longleftrightarrow> groupGet ?st r i = Some n" for r i n
  proof
    assume "\<exists>ci \<in> set (grCis ?st). Region ci = r \<and> gm_get (Instances ci) i = Some n"
    then obtain j where "j < length (grCis ?st)" "Region (grCis ?st ! j) = r" "gm_get (Instances (grCis ?st ! j)) i = Some n"
      by (auto simp: in_set_conv_nth)
    then show "groupGet ?st r i = Some n" using ok by (auto simp: groupOk_def groupGet_def)
  next
    assume "groupGet ?st r i = Some n"
    then obtain j where "gm_get (grRegions ?st) r = Some j" "gm_get (Instances (grCis ?st ! j)) i = Some n"
      by (auto simp: groupGet_def split: option.splits)
    then show "\<exists>ci \<in> set (grCis ?st). Region ci = r \<and> gm_get (Instances ci) i = Some n"
      using groupOk_index [OF ok] by fastforce
  qed
  moreover have "groupGet ?st r i = Some n \<longleftrightarrow> gm_get i2n i = Some n \<and> gm_get nodeRegions n = Some r" for r i n
    using groupGet_fold [OF ok0 assms] by (auto simp: groupGet_def split: option.splits)
  ultimately show ?thesis using ok unfolding GroupByRegion_def by (simp add: groupOk_def)
qed

section \<open>Parameters and text\<close>

lemma GetTrimTiers_range: "GetTrimTiers params = Inr n \<Longrightarrow> 0 \<le> n \<and> n \<le> 2"
  by (auto simp: GetTrimTiers_def checkTrim_def split: option.splits goAny.splits if_splits)

text \<open>A fraction is truncated and then accepted, although the error message asks for an integer.\<close>

lemma GetTrimTiers_fraction: "GetTrimTiers [(KeyTrimTiers, AnyFloat 5 (-1))] = Inr 2"
  by (simp add: GetTrimTiers_def checkTrim_def truncateFloat_def)

lemma splitAux_end: "\<not> contains s sep \<Longrightarrow> splitAux sep 0 cur s = [cur @ s]"
  by (induction s arbitrary: cur) (auto simp: hasPrefix_def)

lemma splitAux_skip: "splitAux sep (length d) cur (d @ s) = splitAux sep 0 cur s"
  by (induction d arbitrary: s) auto

lemma splitAux_first:
  "sep \<noteq> [] \<Longrightarrow> (\<And>i. i < length a \<Longrightarrow> \<not> hasPrefix (drop i (a @ sep @ b)) sep) \<Longrightarrow>
     splitAux sep 0 cur (a @ sep @ b) = (cur @ a) # splitAux sep 0 [] b"
proof (induction a arbitrary: cur)
  case Nil
  then obtain c d where sep: "sep = c # d" by (cases sep) auto
  then show ?case using splitAux_skip [of "c # d" d] by simp
next
  case (Cons x a)
  have "\<not> hasPrefix (drop i (a @ sep @ b)) sep" if "i < length a" for i using Cons.prems(2) [of "Suc i"] that by simp
  from Cons.IH [OF Cons.prems(1) this, of "cur @ [x]"] show ?case
    using Cons.prems(2) [of 0] by (simp add: hasPrefix_def)
qed

text \<open>A line of \<open>pdsh\<close> with one separator gives the node and its attribute.\<close>

lemma pdshLine_pair:
  assumes "CHR '' '' \<notin> set node" and "\<not> contains attr '': ''"
  shows "pdshLine direct (node @ '': '' @ attr) res = (if direct then gm_put node attr res else gm_put attr node res)"
proof -
  have no: "\<not> hasPrefix (drop i (node @ '': '' @ attr)) '': ''" if "i < length node" for i
  proof
    assume "hasPrefix (drop i (node @ '': '' @ attr)) '': ''"
    then have "take 2 (drop i (node @ '': '' @ attr)) = '': ''" by (simp add: hasPrefix_def numeral_2_eq_2)
    then have "take 2 (drop i (node @ '': '' @ attr)) ! 1 = CHR '' ''" by simp
    moreover have "take 2 (drop i (node @ '': '' @ attr)) ! 1 = (node @ '': '' @ attr) ! (Suc i)"
      using that by (simp del: take_append drop_append append_Cons append_assoc)
    ultimately have "(node @ '': '' @ attr) ! (Suc i) = CHR '' ''" by simp
    moreover have "(node @ '': '' @ attr) ! (Suc i) \<in> set node \<union> {CHR '':''}"
      using that by (cases "Suc i < length node") (auto simp: nth_append)
    ultimately show False using assms(1) by auto
  qed
  have "Split (node @ '': '' @ attr) '': '' = [node, attr]"
    unfolding Split_def using splitAux_first [of "'': ''" node attr "[]", OF _ no] splitAux_end [OF assms(2)] by simp
  then show ?thesis by (simp add: pdshLine_def)
qed

section \<open>Simulated providers\<close>

text \<open>With every listed host in the model, a simulated provider is built and lists the IDs of the nodes.\<close>

lemma NewBaseSimProvider_total:
  assumes "\<forall>ci \<in> set (moInstances m). \<forall>(i, h) \<in> set (Instances ci). gm_get (moNodes m) h \<noteq> None"
  shows "\<exists>p. NewBaseSimProvider m t = Inr p \<and> map Region (bpComputeInstances p) = map Region (moInstances m)"
proof -
  have one: "\<exists>r. foldE (providerInstance m) xs acc = Inr r" if "\<forall>(i, h) \<in> set xs. gm_get (moNodes m) h \<noteq> None" for xs acc
    using that by (induction xs arbitrary: acc) (auto simp: providerInstance_def split: option.splits)
  have "\<exists>cis. foldE (providerRegion m) xs acc = Inr cis \<and> map Region cis = map Region acc @ map Region xs"
    if "set xs \<subseteq> set (moInstances m)" for xs acc
    using that
  proof (induction xs arbitrary: acc)
    case (Cons ci xs)
    obtain r where "foldE (providerInstance m) (Instances ci) [] = Inr r"
      using one [of "Instances ci" "[]"] assms Cons.prems by auto
    then show ?case using Cons.IH [of "acc @ [\<lparr>Region = Region ci, Instances = r\<rparr>]"] Cons.prems by (simp add: providerRegion_def)
  qed simp
  from this [of "moInstances m" "[]"] show ?thesis by (auto simp: NewBaseSimProvider_def)
qed

end
