(* ===== verification/Clouds.thy ===== *)
theory Clouds
  imports Topology "HOL-Library.Word"
begin

text \<open>
  Component \<open>pkg/providers/{aws,gcp,lambdai,nebius,nscale}/instance_topology.go\<close>: the topologies of the
  instances of a region, read page by page from the service of a cloud.

  The service is the parameter: a client is a record of functions of the request. Such a loop ends
  only when the service hands out no further page, so it is a \<open>partial_function\<close>; \<open>None\<close> means that it
  does not return. A nil pointer that is read is a panic. Metrics and logs have no effect here.
\<close>

section \<open>Model\<close>

datatype cloud_fail = Fail httperr | Panic go_panic

text \<open>The loop that the providers have in common: fetch a page, add its instances, continue with its token.\<close>

partial_function (option) pageLoop ::
  "(string option \<Rightarrow> cloud_fail + 'page) \<Rightarrow> ('page \<Rightarrow> ClusterTopology \<Rightarrow> cloud_fail + ClusterTopology)
     \<Rightarrow> ('page \<Rightarrow> string option) \<Rightarrow> string option \<Rightarrow> ClusterTopology \<Rightarrow> (cloud_fail + ClusterTopology) option" where
  "pageLoop fetch step nextToken token topo =
     (case fetch token of
        Inl err \<Rightarrow> Some (Inl err)
      | Inr page \<Rightarrow>
          (case step page topo of
             Inl err \<Rightarrow> Some (Inl err)
           | Inr topo' \<Rightarrow>
               (case nextToken page of
                  None \<Rightarrow> Some (Inr topo')
                | Some t \<Rightarrow> pageLoop fetch step nextToken (Some t) topo')))"

text \<open>The loop over the regions of a request.\<close>

fun regionLoop ::
  "(ComputeInstances \<Rightarrow> ClusterTopology \<Rightarrow> (cloud_fail + ClusterTopology) option) \<Rightarrow> ComputeInstances list
     \<Rightarrow> ClusterTopology \<Rightarrow> (cloud_fail + ClusterTopology) option" where
  "regionLoop f [] topo = Some (Inr topo)"
| "regionLoop f (ci # cis) topo =
     (case f ci topo of
        None \<Rightarrow> None
      | Some (Inl err) \<Rightarrow> Some (Inl err)
      | Some (Inr topo') \<Rightarrow> regionLoop f cis topo')"

definition missingRegion :: cloud_fail where
  "missingRegion = Fail (NewError StatusBadRequest ''must specify region'')"

definition gateway :: "string \<Rightarrow> string \<Rightarrow> cloud_fail" where
  "gateway text err = Fail (NewError StatusBadGateway (text @ err))"

definition bareTopology :: "string \<Rightarrow> FabricTier list \<Rightarrow> string \<Rightarrow> InstanceTopology" where
  "bareTopology i tiers domain =
     \<lparr>InstanceID = i, FabricTiers = tiers, XclrDomainID = domain, XclrSubDomainID = [], itInstance = None\<rparr>"

text \<open>A token that is the empty string ends the loop, where the service has such tokens.\<close>

definition tokenOf :: "string \<Rightarrow> string option" where
  "tokenOf t = (if t = [] then None else Some t)"

subsection \<open>AWS\<close>

record awsInstance =
  awsInstanceId :: "string option"
  NetworkNodes :: "string list"
  CapacityBlockId :: "string option"

record awsInput =
  InstanceIds :: "string list"
  MaxResults :: "32 word option"

record awsOutput =
  awsInstances :: "awsInstance list"
  awsNextToken :: "string option"

record awsClient =
  awsDescribe :: "awsInput \<Rightarrow> string option \<Rightarrow> string + awsOutput"
  awsCredentials :: "(string + unit) option"
  awsPageSize :: "32 word"

definition defaultPageSize :: "32 word" where
  "defaultPageSize = 100"

definition setPageSize :: "int option \<Rightarrow> 32 word" where
  "setPageSize v = (case v of None \<Rightarrow> defaultPageSize | Some n \<Rightarrow> word_of_int n)"

definition awsConvert :: "string \<Rightarrow> awsInstance \<Rightarrow> InstanceTopology" where
  "awsConvert i inst =
     bareTopology i (RootFirstFabricTiers (NetworkNodes inst)) (case CapacityBlockId inst of Some b \<Rightarrow> b | None \<Rightarrow> [])"

definition awsElem :: "ComputeInstances \<Rightarrow> awsInstance \<Rightarrow> ClusterTopology \<Rightarrow> cloud_fail + ClusterTopology" where
  "awsElem ci inst topo =
     (case awsInstanceId inst of
        None \<Rightarrow> Inl (Panic NilDereference)
      | Some i \<Rightarrow> if gm_get (Instances ci) i \<noteq> None then Inr (Append topo (awsConvert i inst)) else Inr topo)"

definition awsPage :: "ComputeInstances \<Rightarrow> awsOutput \<Rightarrow> ClusterTopology \<Rightarrow> cloud_fail + ClusterTopology" where
  "awsPage ci output topo = foldE (awsElem ci) (awsInstances output) topo"

definition awsRequest :: "awsClient \<Rightarrow> ComputeInstances \<Rightarrow> awsInput" where
  "awsRequest client ci =
     (if length (Instances ci) \<le> 100 then \<lparr>InstanceIds = gm_keys (Instances ci), MaxResults = None\<rparr>
      else \<lparr>InstanceIds = [], MaxResults = Some (awsPageSize client)\<rparr>)"

definition awsFetch :: "awsClient \<Rightarrow> awsInput \<Rightarrow> string option \<Rightarrow> cloud_fail + awsOutput" where
  "awsFetch client input token =
     map_sum (gateway ''failed to describe instance topology: '') id (awsDescribe client input token)"

definition awsRegion ::
  "(string \<Rightarrow> int option \<Rightarrow> string + awsClient) \<Rightarrow> int option \<Rightarrow> ComputeInstances \<Rightarrow> ClusterTopology
     \<Rightarrow> (cloud_fail + ClusterTopology) option" where
  "awsRegion clientFactory pageSize ci topo =
     (if Region ci = [] then Some (Inl missingRegion)
      else
        (case clientFactory (Region ci) pageSize of
           Inl err \<Rightarrow> Some (Inl (gateway ''failed to get client: '' err))
         | Inr client \<Rightarrow>
             (case awsCredentials client of
                Some (Inl err) \<Rightarrow> Some (Inl (gateway ''failed to retrieve AWS credentials: '' err))
              | _ \<Rightarrow> pageLoop (awsFetch client (awsRequest client ci)) (awsPage ci) awsNextToken None topo)))"

definition awsTopology ::
  "(string \<Rightarrow> int option \<Rightarrow> string + awsClient) \<Rightarrow> int option \<Rightarrow> ComputeInstances list \<Rightarrow> (cloud_fail + ClusterTopology) option" where
  "awsTopology clientFactory pageSize cis = regionLoop (awsRegion clientFactory pageSize) cis NewClusterTopology"

subsection \<open>GCP\<close>

record hostTopology =
  htCluster :: "string option"
  htBlock :: "string option"
  htSubblock :: "string option"

record gcpInstance =
  gcpId :: "64 word option"
  ResourceStatus :: "hostTopology option option"

text \<open>The iterator yields instances and then \<open>Done\<close> (\<open>None\<close>) or an error.\<close>

record gcpPage =
  gcpItems :: "gcpInstance list"
  gcpEnd :: "string option"
  gcpToken :: string

definition castPageSize :: "int option \<Rightarrow> 32 word option" where
  "castPageSize v = map_option word_of_int v"

text \<open>The topology of a requested instance. An unset status or an incomplete place is skipped.\<close>

definition gcpConvert :: "string \<Rightarrow> gcpInstance \<Rightarrow> InstanceTopology option" where
  "gcpConvert i inst =
     (case ResourceStatus inst of
        Some (Some ht) \<Rightarrow>
          (case (htCluster ht, htBlock ht, htSubblock ht) of
             (Some cluster, Some block, Some subblock) \<Rightarrow>
               (let tiers = ClosestFirstFabricTiers [subblock, block, cluster]
                in Some (bareTopology i tiers (tierID (tiers ! 0))))
           | _ \<Rightarrow> None)
      | _ \<Rightarrow> None)"

definition gcpElem :: "ComputeInstances \<Rightarrow> gcpInstance \<Rightarrow> ClusterTopology \<Rightarrow> cloud_fail + ClusterTopology" where
  "gcpElem ci inst topo =
     (case gcpId inst of
        None \<Rightarrow> Inl (Panic NilDereference)
      | Some w \<Rightarrow>
          (let i = itoa (unat w)
           in if gm_get (Instances ci) i \<noteq> None
              then (case gcpConvert i inst of Some t \<Rightarrow> Inr (Append topo t) | None \<Rightarrow> Inr topo)
              else Inr topo))"

definition gcpStep :: "ComputeInstances \<Rightarrow> gcpPage \<Rightarrow> ClusterTopology \<Rightarrow> cloud_fail + ClusterTopology" where
  "gcpStep ci page topo =
     (case foldE (gcpElem ci) (gcpItems page) topo of
        Inl err \<Rightarrow> Inl err
      | Inr topo' \<Rightarrow> (case gcpEnd page of Some err \<Rightarrow> Inl (gateway [] err) | None \<Rightarrow> Inr topo'))"

definition gcpRegion ::
  "(string \<Rightarrow> string option \<Rightarrow> gcpPage) \<Rightarrow> ComputeInstances \<Rightarrow> ClusterTopology \<Rightarrow> (cloud_fail + ClusterTopology) option" where
  "gcpRegion client ci topo =
     (if Region ci = [] then Some (Inl missingRegion)
      else pageLoop (\<lambda>token. Inr (client (Region ci) token)) (gcpStep ci) (\<lambda>page. tokenOf (gcpToken page)) None topo)"

definition gcpTopology ::
  "(int option \<Rightarrow> string + (string \<Rightarrow> string option \<Rightarrow> gcpPage)) \<Rightarrow> int option \<Rightarrow> ComputeInstances list
     \<Rightarrow> (cloud_fail + ClusterTopology) option" where
  "gcpTopology clientFactory pageSize cis =
     (case clientFactory pageSize of
        Inl err \<Rightarrow> Some (Inl (gateway ''failed to get client: '' err))
      | Inr client \<Rightarrow> regionLoop (gcpRegion client) cis NewClusterTopology)"

subsection \<open>Lambda\<close>

record nvlink =
  nvDomainID :: string
  nvCliqueID :: string

record lambdaInstance =
  lambdaID :: string
  NetworkPath :: "string list"
  NVLink :: "nvlink option"

record 'i listPage =
  lpItems :: "'i list"
  NextPageToken :: string

definition lambdaConvert :: "lambdaInstance \<Rightarrow> InstanceTopology" where
  "lambdaConvert inst =
     bareTopology (lambdaID inst) (map (\<lambda>hop. \<lparr>tierID = hop, tierName = []\<rparr>) (NetworkPath inst))
       (case NVLink inst of
          None \<Rightarrow> []
        | Some nv \<Rightarrow> if nvDomainID nv = [] \<or> nvCliqueID nv = [] then [] else nvDomainID nv @ ''.'' @ nvCliqueID nv)"

definition lambdaStep :: "lambdaInstance listPage \<Rightarrow> ClusterTopology \<Rightarrow> cloud_fail + ClusterTopology" where
  "lambdaStep page topo = Inr (foldl (\<lambda>topo inst. Append topo (lambdaConvert inst)) topo (lpItems page))"

definition lambdaRegion ::
  "(string \<Rightarrow> string option \<Rightarrow> string + lambdaInstance listPage) \<Rightarrow> ComputeInstances \<Rightarrow> ClusterTopology
     \<Rightarrow> (cloud_fail + ClusterTopology) option" where
  "lambdaRegion client ci topo =
     (if Region ci = [] then Some (Inl missingRegion)
      else pageLoop (\<lambda>token. map_sum (gateway ''failed to get instance list: '') id (client (Region ci) token))
             lambdaStep (\<lambda>page. tokenOf (NextPageToken page)) None topo)"

definition lambdaTopology ::
  "(int option \<Rightarrow> string + (string \<Rightarrow> string option \<Rightarrow> string + lambdaInstance listPage)) \<Rightarrow> int option
     \<Rightarrow> ComputeInstances list \<Rightarrow> (cloud_fail + ClusterTopology) option" where
  "lambdaTopology clientFactory pageSize cis =
     (case clientFactory pageSize of
        Inl err \<Rightarrow> Some (Inl (gateway ''failed to create API client: '' err))
      | Inr client \<Rightarrow> regionLoop (lambdaRegion client) cis NewClusterTopology)"

subsection \<open>Nebius\<close>

text \<open>The getters of the messages are nil-safe, so an instance without metadata has the empty ID.\<close>

record nebiusInstance =
  nbID :: string
  nbPath :: "string list option"
  nbGroup :: string

definition nebiusFabricTierCount :: nat where
  "nebiusFabricTierCount = 3"

definition nebiusConvert :: "ComputeInstances \<Rightarrow> nebiusInstance \<Rightarrow> InstanceTopology option" where
  "nebiusConvert ci inst =
     (case gm_get (Instances ci) (nbID inst) of
        None \<Rightarrow> None
      | Some hostname \<Rightarrow>
          (case nbPath inst of
             None \<Rightarrow> None
           | Some path \<Rightarrow>
               if length path \<noteq> nebiusFabricTierCount then None
               else Some (bareTopology (nbID inst) (RootFirstFabricTiers path) (nbGroup inst))))"

definition nebiusStep :: "ComputeInstances \<Rightarrow> nebiusInstance listPage \<Rightarrow> ClusterTopology \<Rightarrow> cloud_fail + ClusterTopology" where
  "nebiusStep ci page topo =
     Inr (foldl (\<lambda>topo inst. case nebiusConvert ci inst of Some t \<Rightarrow> Append topo t | None \<Rightarrow> topo) topo (lpItems page))"

definition nebiusRegion ::
  "(string option \<Rightarrow> string + nebiusInstance listPage) \<Rightarrow> ComputeInstances \<Rightarrow> ClusterTopology
     \<Rightarrow> (cloud_fail + ClusterTopology) option" where
  "nebiusRegion client ci topo =
     (if Region ci = [] then Some (Inl missingRegion)
      else pageLoop (\<lambda>token. map_sum (gateway ''failed to get instance list: '') id (client token))
             (nebiusStep ci) (\<lambda>page. tokenOf (NextPageToken page)) None topo)"

definition nebiusTopology ::
  "(int option \<Rightarrow> string + (string option \<Rightarrow> string + nebiusInstance listPage)) \<Rightarrow> int option
     \<Rightarrow> ComputeInstances list \<Rightarrow> (cloud_fail + ClusterTopology) option" where
  "nebiusTopology clientFactory pageSize cis =
     (case clientFactory pageSize of
        Inl err \<Rightarrow> Some (Inl (gateway ''failed to create API client: '' err))
      | Inr client \<Rightarrow> regionLoop (nebiusRegion client) cis NewClusterTopology)"

subsection \<open>Nscale\<close>

record nscaleInstance =
  ServerID :: string
  nsNetworkPath :: "string list"
  BlockID :: "string option"

definition nscaleConvert :: "nscaleInstance \<Rightarrow> InstanceTopology" where
  "nscaleConvert inst =
     bareTopology (ServerID inst) (RootFirstFabricTiers (nsNetworkPath inst)) (case BlockID inst of Some b \<Rightarrow> b | None \<Rightarrow> [])"

text \<open>The service is asked with offsets until a response is empty.\<close>

partial_function (option) offsetLoop ::
  "(nat \<Rightarrow> httperr + nscaleInstance list) \<Rightarrow> nat \<Rightarrow> ClusterTopology \<Rightarrow> (cloud_fail + ClusterTopology) option" where
  "offsetLoop fetch offset topo =
     (case fetch offset of
        Inl err \<Rightarrow> Some (Inl (Fail err))
      | Inr resp \<Rightarrow>
          if resp = [] then Some (Inr topo)
          else offsetLoop fetch (offset + length resp)
                 (foldl (\<lambda>topo inst. Append topo (nscaleConvert inst)) topo resp))"

definition nscaleRegion ::
  "(string \<Rightarrow> int \<Rightarrow> nat \<Rightarrow> httperr + nscaleInstance list) \<Rightarrow> int \<Rightarrow> ComputeInstances \<Rightarrow> ClusterTopology
     \<Rightarrow> (cloud_fail + ClusterTopology) option" where
  "nscaleRegion client pageSize ci topo =
     (if Region ci = [] then Some (Inl missingRegion) else offsetLoop (client (Region ci) pageSize) 0 topo)"

definition nscaleTopology ::
  "(string \<Rightarrow> int \<Rightarrow> nat \<Rightarrow> httperr + nscaleInstance list) \<Rightarrow> int option \<Rightarrow> ComputeInstances list
     \<Rightarrow> (cloud_fail + ClusterTopology) option" where
  "nscaleTopology client pSize cis =
     regionLoop (nscaleRegion client (case pSize of None \<Rightarrow> 100 | Some n \<Rightarrow> n)) cis NewClusterTopology"

section \<open>Pages\<close>

text \<open>The pages of a listing: each is fetched with the token of the one before, the last one has no token.\<close>

fun pageChain :: "(string option \<Rightarrow> 'e + 'page) \<Rightarrow> ('page \<Rightarrow> string option) \<Rightarrow> string option \<Rightarrow> 'page list \<Rightarrow> bool" where
  "pageChain fetch nextToken token [] \<longleftrightarrow> False"
| "pageChain fetch nextToken token (p # ps) \<longleftrightarrow>
     fetch token = Inr p \<and> (case nextToken p of None \<Rightarrow> ps = [] | Some t \<Rightarrow> pageChain fetch nextToken (Some t) ps)"

lemma pageLoop_complete:
  "pageChain fetch nextToken token pages \<Longrightarrow> foldE step pages topo = Inr topo' \<Longrightarrow>
     pageLoop fetch step nextToken token topo = Some (Inr topo')"
  by (induction pages arbitrary: token topo)
    (subst pageLoop.simps, auto split: option.splits sum.splits)+

lemma pageLoop_sound:
  assumes "pageLoop fetch step nextToken token topo = Some r"
  shows "\<forall>topo'. r = Inr topo' \<longrightarrow> (\<exists>pages. pageChain fetch nextToken token pages \<and> foldE step pages topo = Inr topo')"
proof (rule pageLoop.raw_induct [where P = "\<lambda>fetch step nextToken token topo r. \<forall>topo'. r = Inr topo' \<longrightarrow>
    (\<exists>pages. pageChain fetch nextToken token pages \<and> foldE step pages topo = Inr topo')", OF _ assms], intro allI impI)
  fix loop fetch step nextToken token topo r topo'
  assume IH: "\<And>fetch step nextToken token topo r. loop fetch step nextToken token topo = Some r \<Longrightarrow>
      \<forall>topo'. r = Inr topo' \<longrightarrow> (\<exists>pages. pageChain fetch nextToken token pages \<and> foldE step pages topo = Inr topo')"
    and body: "(case fetch token of Inl err \<Rightarrow> Some (Inl err) | Inr page \<Rightarrow> (case step page topo of Inl err \<Rightarrow> Some (Inl err)
      | Inr topo' \<Rightarrow> (case nextToken page of None \<Rightarrow> Some (Inr topo') | Some t \<Rightarrow> loop fetch step nextToken (Some t) topo'))) = Some r"
    and r: "r = Inr topo'"
  obtain page topo1 where f: "fetch token = Inr page" "step page topo = Inr topo1"
    using body r by (auto split: sum.splits)
  show "\<exists>pages. pageChain fetch nextToken token pages \<and> foldE step pages topo = Inr topo'"
  proof (cases "nextToken page")
    case None
    then show ?thesis using body r f by (intro exI [of _ "[page]"]) simp
  next
    case (Some t)
    then have "loop fetch step nextToken (Some t) topo1 = Some r" using body f by simp
    from IH [OF this] r obtain pages where "pageChain fetch nextToken (Some t) pages" "foldE step pages topo1 = Inr topo'" by blast
    then show ?thesis using f Some by (intro exI [of _ "page # pages"]) simp
  qed
qed

lemma pageLoop_exact:
  "pageLoop fetch step nextToken token topo = Some (Inr topo') \<longleftrightarrow>
     (\<exists>pages. pageChain fetch nextToken token pages \<and> foldE step pages topo = Inr topo')"
  (is "?l \<longleftrightarrow> ?r")
proof
  assume ?l
  from pageLoop_sound [OF this] show ?r by simp
next
  assume ?r
  then show ?l using pageLoop_complete by metis
qed

text \<open>
  A provider that adds, page by page, what \<open>pick\<close> selects of the items, on pages that are \<open>fine\<close>.
\<close>

locale paged =
  fixes step :: "'page \<Rightarrow> ClusterTopology \<Rightarrow> cloud_fail + ClusterTopology"
    and items :: "'page \<Rightarrow> 'item list"
    and pick :: "'item \<Rightarrow> InstanceTopology option"
    and fine :: "'page \<Rightarrow> bool"
  assumes step: "step page topo = Inr topo' \<longleftrightarrow> fine page \<and> topo' = topo @ List.map_filter pick (items page)"
begin

lemma steps:
  "foldE step pages topo = Inr topo' \<longleftrightarrow>
     (\<forall>p \<in> set pages. fine p) \<and> topo' = topo @ List.map_filter pick (concat (map items pages))"
proof (induction pages arbitrary: topo)
  case Nil
  then show ?case by (auto simp: List.map_filter_simps)
next
  case (Cons p pages)
  show ?case
  proof (cases "fine p")
    case True
    then have "step p topo = Inr (topo @ List.map_filter pick (items p))" by (simp add: step)
    then show ?thesis using Cons.IH True by (simp add: List.map_filter_def)
  next
    case False
    then have "\<nexists>t. step p topo = Inr t" by (simp add: step)
    then show ?thesis using False by (auto split: sum.splits)
  qed
qed

lemma pages:
  "pageLoop fetch step nextToken token topo = Some (Inr topo') \<longleftrightarrow>
     (\<exists>pages. (pageChain fetch nextToken token pages \<and> (\<forall>p \<in> set pages. fine p)) \<and>
       topo' = topo @ List.map_filter pick (concat (map items pages)))"
  unfolding pageLoop_exact steps by blast

end

text \<open>A provider that reads each region as a list of pages, and appends what the pages give.\<close>

locale region_reader =
  fixes region :: "ComputeInstances \<Rightarrow> ClusterTopology \<Rightarrow> (cloud_fail + ClusterTopology) option"
    and reads :: "ComputeInstances \<Rightarrow> 'page list \<Rightarrow> bool"
    and found :: "ComputeInstances \<Rightarrow> 'page list \<Rightarrow> ClusterTopology"
  assumes region: "region ci topo = Some (Inr topo') \<longleftrightarrow> (\<exists>pages. reads ci pages \<and> topo' = topo @ found ci pages)"
begin

lemma regions:
  "regionLoop region cis topo = Some (Inr topo') \<longleftrightarrow>
     (\<exists>pss. list_all2 reads cis pss \<and> topo' = topo @ concat (map2 found cis pss))"
proof (induction cis arbitrary: topo)
  case (Cons ci cis)
  have "regionLoop region (ci # cis) topo = Some (Inr topo') \<longleftrightarrow>
      (\<exists>t. region ci topo = Some (Inr t) \<and> regionLoop region cis t = Some (Inr topo'))"
    by (auto split: option.splits sum.splits)
  also have "\<dots> \<longleftrightarrow> (\<exists>ps pss. reads ci ps \<and> list_all2 reads cis pss \<and>
      topo' = topo @ found ci ps @ concat (map2 found cis pss))"
    unfolding region Cons.IH by (simp add: ex_simps(1) [symmetric] del: ex_simps) metis
  also have "\<dots> \<longleftrightarrow> (\<exists>pss. list_all2 reads (ci # cis) pss \<and> topo' = topo @ concat (map2 found (ci # cis) pss))"
    (is "?l \<longleftrightarrow> ?r")
  proof
    assume ?l
    then obtain ps pss where "reads ci ps" "list_all2 reads cis pss"
      "topo' = topo @ found ci ps @ concat (map2 found cis pss)" by blast
    then show ?r by (intro exI [of _ "ps # pss"]) simp
  next
    assume ?r
    then obtain ps pss where "reads ci ps" "list_all2 reads cis pss"
      "topo' = topo @ found ci ps @ concat (map2 found cis pss)" by (auto simp: list_all2_Cons1)
    then show ?l by blast
  qed
  finally show ?case .
qed auto

end

section \<open>Providers\<close>

lemma foldl_Append: "foldl (\<lambda>topo x. Append topo (f x)) topo xs = topo @ List.map_filter (\<lambda>x. Some (f x)) xs"
  by (induction xs arbitrary: topo) (simp_all add: Append_def List.map_filter_def)

lemma foldl_pick:
  "foldl (\<lambda>topo x. case f x of Some t \<Rightarrow> Append topo t | None \<Rightarrow> topo) topo xs = topo @ List.map_filter f xs"
  by (induction xs arbitrary: topo) (simp_all add: Append_def List.map_filter_simps split: option.splits)

lemma foldE_pick:
  assumes "\<And>x topo. f x topo = (if good x then Inr (topo @ (case pick x of Some t \<Rightarrow> [t] | None \<Rightarrow> [])) else Inl e)"
  shows "foldE f xs topo = Inr topo' \<longleftrightarrow> list_all good xs \<and> topo' = topo @ List.map_filter pick xs"
  by (induction xs arbitrary: topo) (auto simp: assms List.map_filter_simps split: option.splits)

text \<open>What is kept of an instance of a page, and the pages of a region.\<close>

definition awsPick :: "ComputeInstances \<Rightarrow> awsInstance \<Rightarrow> InstanceTopology option" where
  "awsPick ci inst =
     (case awsInstanceId inst of
        None \<Rightarrow> None
      | Some i \<Rightarrow> if gm_get (Instances ci) i = None then None else Some (awsConvert i inst))"

definition gcpPick :: "ComputeInstances \<Rightarrow> gcpInstance \<Rightarrow> InstanceTopology option" where
  "gcpPick ci inst =
     (case gcpId inst of
        None \<Rightarrow> None
      | Some w \<Rightarrow> if gm_get (Instances ci) (itoa (unat w)) = None then None else gcpConvert (itoa (unat w)) inst)"

interpretation awsPages: paged "awsPage ci" awsInstances "awsPick ci" "\<lambda>p. list_all (\<lambda>i. awsInstanceId i \<noteq> None) (awsInstances p)" for ci
  unfolding awsPage_def
  by unfold_locales (rule foldE_pick [where e = "Panic NilDereference"], auto simp: awsElem_def awsPick_def Append_def split: option.splits)

interpretation gcpPages: paged "gcpStep ci" gcpItems "gcpPick ci"
  "\<lambda>p. list_all (\<lambda>i. gcpId i \<noteq> None) (gcpItems p) \<and> gcpEnd p = None" for ci
proof
  fix page :: gcpPage and topo topo'
  have "foldE (gcpElem ci) (gcpItems page) topo = Inr t \<longleftrightarrow>
      list_all (\<lambda>i. gcpId i \<noteq> None) (gcpItems page) \<and> t = topo @ List.map_filter (gcpPick ci) (gcpItems page)" for t
    by (rule foldE_pick [where e = "Panic NilDereference"]) (auto simp: gcpElem_def gcpPick_def Append_def Let_def split: option.splits)
  then show "gcpStep ci page topo = Inr topo' \<longleftrightarrow> (list_all (\<lambda>i. gcpId i \<noteq> None) (gcpItems page) \<and> gcpEnd page = None) \<and>
      topo' = topo @ List.map_filter (gcpPick ci) (gcpItems page)"
    by (auto simp: gcpStep_def split: option.splits sum.splits)
qed

interpretation lambdaPages: paged lambdaStep lpItems "\<lambda>i. Some (lambdaConvert i)" "\<lambda>_. True"
  by unfold_locales (auto simp: lambdaStep_def foldl_Append)

interpretation nebiusPages: paged "nebiusStep ci" lpItems "nebiusConvert ci" "\<lambda>_. True" for ci
  by unfold_locales (auto simp: nebiusStep_def foldl_pick)

definition awsReads ::
  "(string \<Rightarrow> int option \<Rightarrow> string + awsClient) \<Rightarrow> int option \<Rightarrow> ComputeInstances \<Rightarrow> awsOutput list \<Rightarrow> bool" where
  "awsReads clientFactory pageSize ci pages \<longleftrightarrow>
     Region ci \<noteq> [] \<and>
     (\<exists>client. clientFactory (Region ci) pageSize = Inr client \<and> (\<nexists>err. awsCredentials client = Some (Inl err)) \<and>
        pageChain (awsFetch client (awsRequest client ci)) awsNextToken None pages) \<and>
     (\<forall>p \<in> set pages. list_all (\<lambda>i. awsInstanceId i \<noteq> None) (awsInstances p))"

interpretation awsRegions: region_reader "awsRegion clientFactory pageSize" "awsReads clientFactory pageSize"
  "\<lambda>ci pages. List.map_filter (awsPick ci) (concat (map awsInstances pages))" for clientFactory pageSize
proof
  fix ci topo topo'
  show "awsRegion clientFactory pageSize ci topo = Some (Inr topo') \<longleftrightarrow>
      (\<exists>pages. awsReads clientFactory pageSize ci pages \<and>
         topo' = topo @ List.map_filter (awsPick ci) (concat (map awsInstances pages)))"
  proof (cases "clientFactory (Region ci) pageSize")
    case (Inr client)
    then show ?thesis using awsPages.pages [of "awsFetch client (awsRequest client ci)" ci]
      by (cases "awsCredentials client") (auto simp: awsRegion_def awsReads_def split: sum.splits)
  qed (auto simp: awsRegion_def awsReads_def)
qed

interpretation gcpRegions: region_reader "gcpRegion client"
  "\<lambda>ci pages. Region ci \<noteq> [] \<and> pageChain (\<lambda>token. Inr (client (Region ci) token) :: cloud_fail + gcpPage) (\<lambda>page. tokenOf (gcpToken page)) None pages \<and>
     (\<forall>p \<in> set pages. list_all (\<lambda>i. gcpId i \<noteq> None) (gcpItems p) \<and> gcpEnd p = None)"
  "\<lambda>ci pages. List.map_filter (gcpPick ci) (concat (map gcpItems pages))" for client
  by unfold_locales (simp add: gcpRegion_def gcpPages.pages; blast)

interpretation lambdaRegions: region_reader "lambdaRegion client"
  "\<lambda>ci pages. Region ci \<noteq> [] \<and> pageChain (\<lambda>token. map_sum (gateway ''failed to get instance list: '') id (client (Region ci) token))
     (\<lambda>page. tokenOf (NextPageToken page)) None pages"
  "\<lambda>ci pages. List.map_filter (\<lambda>i. Some (lambdaConvert i)) (concat (map lpItems pages))" for client
  by unfold_locales (simp add: lambdaRegion_def lambdaPages.pages)

interpretation nebiusRegions: region_reader "nebiusRegion client"
  "\<lambda>ci pages. Region ci \<noteq> [] \<and> pageChain (\<lambda>token. map_sum (gateway ''failed to get instance list: '') id (client token))
     (\<lambda>page. tokenOf (NextPageToken page)) None pages"
  "\<lambda>ci pages. List.map_filter (nebiusConvert ci) (concat (map lpItems pages))" for client
  by unfold_locales (simp add: nebiusRegion_def nebiusPages.pages)

text \<open>The responses of the Nscale service, up to the first empty one.\<close>

fun offsetChain :: "(nat \<Rightarrow> httperr + nscaleInstance list) \<Rightarrow> nat \<Rightarrow> nscaleInstance list list \<Rightarrow> bool" where
  "offsetChain fetch offset [] \<longleftrightarrow> fetch offset = Inr []"
| "offsetChain fetch offset (p # ps) \<longleftrightarrow> p \<noteq> [] \<and> fetch offset = Inr p \<and> offsetChain fetch (offset + length p) ps"

lemma offsetLoop_complete:
  "offsetChain fetch offset pages \<Longrightarrow>
     offsetLoop fetch offset topo = Some (Inr (topo @ List.map_filter (\<lambda>i. Some (nscaleConvert i)) (concat pages)))"
proof (induction pages arbitrary: offset topo)
  case Nil
  then show ?case by (subst offsetLoop.simps) (simp add: List.map_filter_simps)
next
  case (Cons p pages)
  then show ?case by (subst offsetLoop.simps) (simp add: foldl_Append List.map_filter_def)
qed

lemma offsetLoop_sound:
  assumes "offsetLoop fetch offset topo = Some r"
  shows "\<forall>topo'. r = Inr topo' \<longrightarrow> (\<exists>pages. offsetChain fetch offset pages)"
proof (rule offsetLoop.raw_induct [where P = "\<lambda>fetch offset topo r. \<forall>topo'. r = Inr topo' \<longrightarrow> (\<exists>pages. offsetChain fetch offset pages)", OF _ assms],
    intro allI impI)
  fix loop :: "(nat \<Rightarrow> httperr + nscaleInstance list) \<Rightarrow> nat \<Rightarrow> ClusterTopology \<Rightarrow> (cloud_fail + ClusterTopology) option"
    and fetch offset topo r topo'
  assume IH: "\<And>fetch offset topo r. loop fetch offset topo = Some r \<Longrightarrow> \<forall>topo'. r = Inr topo' \<longrightarrow> (\<exists>pages. offsetChain fetch offset pages)"
    and body: "(case fetch offset of Inl err \<Rightarrow> Some (Inl (Fail err)) | Inr resp \<Rightarrow> if resp = [] then Some (Inr topo)
      else loop fetch (offset + length resp) (foldl (\<lambda>topo inst. Append topo (nscaleConvert inst)) topo resp)) = Some r"
    and r: "r = Inr topo'"
  obtain resp where f: "fetch offset = Inr resp" using body r by (auto split: sum.splits)
  show "\<exists>pages. offsetChain fetch offset pages"
  proof (cases "resp = []")
    case True
    then show ?thesis using f by (intro exI [of _ "[]"]) simp
  next
    case False
    then obtain pages where "offsetChain fetch (offset + length resp) pages" using IH body f r by force
    then show ?thesis using f False by (intro exI [of _ "resp # pages"]) simp
  qed
qed

interpretation nscaleRegions: region_reader "nscaleRegion client pageSize"
  "\<lambda>ci pages. Region ci \<noteq> [] \<and> offsetChain (client (Region ci) pageSize) 0 pages"
  "\<lambda>ci pages. List.map_filter (\<lambda>i. Some (nscaleConvert i)) (concat pages)" for client pageSize
proof
  fix ci topo topo'
  show "nscaleRegion client pageSize ci topo = Some (Inr topo') \<longleftrightarrow> (\<exists>pages. (Region ci \<noteq> [] \<and>
      offsetChain (client (Region ci) pageSize) 0 pages) \<and> topo' = topo @ List.map_filter (\<lambda>i. Some (nscaleConvert i)) (concat pages))"
    (is "?l \<longleftrightarrow> ?r")
  proof
    assume l: ?l
    then have reg: "Region ci \<noteq> []" and loop: "offsetLoop (client (Region ci) pageSize) 0 topo = Some (Inr topo')"
      by (auto simp: nscaleRegion_def split: if_splits)
    obtain pages where c: "offsetChain (client (Region ci) pageSize) 0 pages" using offsetLoop_sound [OF loop] by blast
    then show ?r using reg loop offsetLoop_complete [OF c, of topo] by auto
  next
    assume ?r
    then show ?l using offsetLoop_complete by (auto simp: nscaleRegion_def)
  qed
qed

text \<open>A service that serves a list in slices of a positive page size is read completely.\<close>

lemma nscaleRegion_all:
  assumes "Region ci \<noteq> []" and "0 < pageSize" and "\<And>off. client (Region ci) pageSize off = Inr (take (nat pageSize) (drop off servers))"
  shows "nscaleRegion client pageSize ci topo = Some (Inr (topo @ map nscaleConvert servers))"
proof -
  have "\<exists>pages. offsetChain (client (Region ci) pageSize) off pages \<and> concat pages = drop off servers" for off
  proof (induction "length servers - off" arbitrary: off rule: less_induct)
    case less
    show ?case
    proof (cases "drop off servers = []")
      case True
      then show ?thesis using assms(3) by (intro exI [of _ "[]"]) simp
    next
      case False
      let ?p = "take (nat pageSize) (drop off servers)"
      have p: "?p \<noteq> []" using False assms(2) by simp
      then have "length servers - (off + length ?p) < length servers - off" using False assms(2) by simp
      from less [OF this] obtain pages where q: "offsetChain (client (Region ci) pageSize) (off + length ?p) pages"
        "concat pages = drop (off + length ?p) servers" by blast
      have "?p @ drop (off + length ?p) servers = drop off servers"
        using append_take_drop_id [of "nat pageSize" "drop off servers"] by (simp add: min_def add.commute)
      then show ?thesis using p q assms(3) by (intro exI [of _ "?p # pages"]) simp
    qed
  qed
  from this [of 0] obtain pages where "offsetChain (client (Region ci) pageSize) 0 pages" "concat pages = servers" by auto
  then show ?thesis using assms(1) offsetLoop_complete by (simp add: nscaleRegion_def List.map_filter_def)
qed

text \<open>The page size sent to AWS has 32 bits; it is the configured one exactly if that fits.\<close>

lemma setPageSize_fits: "sint (setPageSize (Some n)) = n \<longleftrightarrow> -(2 ^ 31) \<le> n \<and> n < 2 ^ 31"
  unfolding setPageSize_def by (simp add: signed_take_bit_int_eq_self_iff sint_sbintrunc')

text \<open>
  C36. The AWS provider returns a topology exactly if every region can be read to the last page
  with every instance identified. The topology then has the requested instances of all pages, in
  order, each with its network nodes from the closest and its capacity block. Nothing partial is returned.
\<close>

theorem awsTopology_exact:
  "awsTopology clientFactory pageSize cis = Some (Inr topo) \<longleftrightarrow>
     (\<exists>pss. list_all2 (awsReads clientFactory pageSize) cis pss \<and>
       topo = concat (map2 (\<lambda>ci pages. List.map_filter (awsPick ci) (concat (map awsInstances pages))) cis pss))"
  unfolding awsTopology_def awsRegions.regions by (simp add: NewClusterTopology_def)

end
