(* ===== verification/Oci.thy ===== *)
theory Oci
  imports ProviderTools Clouds
begin

text \<open>
  Component \<open>pkg/providers/oci\<close>: the hosts of a region are listed page by page, and the hosts of a page
  are read by concurrent workers, each of which writes to its own place of two shared arrays.

  A run of the workers is a sequence of their indices; the theorems hold for every sequence in
  which each worker occurs once. The service and the node commands are parameters.
\<close>

section \<open>Model\<close>

record ociHost =
  ohInstanceId :: "string option"
  ohLocalBlockId :: "string option"
  ohNetworkBlockId :: "string option"
  ohHpcIslandId :: "string option"
  ohGpuMemoryFabricId :: "string option"

datatype oci_error = MissingInstanceId | MissingLocalBlock string | MissingNetworkBlock string | MissingHpcIsland string

definition convertHost :: "ociHost \<Rightarrow> string \<Rightarrow> oci_error + InstanceTopology" where
  "convertHost host rack =
     (case ohInstanceId host of
        None \<Rightarrow> Inl MissingInstanceId
      | Some i \<Rightarrow>
          (case ohLocalBlockId host of
             None \<Rightarrow> Inl (MissingLocalBlock i)
           | Some localBlock \<Rightarrow>
               (case ohNetworkBlockId host of
                  None \<Rightarrow> Inl (MissingNetworkBlock i)
                | Some networkBlock \<Rightarrow>
                    (case ohHpcIslandId host of
                       None \<Rightarrow> Inl (MissingHpcIsland i)
                     | Some island \<Rightarrow>
                         (let topo = bareTopology i (ClosestFirstFabricTiers [localBlock, networkBlock, island]) []
                          in case ohGpuMemoryFabricId host of
                               None \<Rightarrow> Inr topo
                             | Some fabric \<Rightarrow>
                                 Inr (topo\<lparr>XclrDomainID := fabric,
                                      XclrSubDomainID := (if rack \<noteq> [] then fabric @ ''.'' @ rack else [])\<rparr>))))))"

text \<open>The summary of a host has an ID of its own; its other fields are those of a host.\<close>

record ociSummary =
  osId :: "string option"
  osHost :: ociHost

definition convertSummary :: "ociSummary \<Rightarrow> oci_error + InstanceTopology" where
  "convertSummary s = convertHost (osHost s) []"

text \<open>A value of \<open>AdditionalData\<close>: a string, an object or something else.\<close>

datatype extra = ExtraString string | ExtraObject "(string, extra) gomap" | ExtraOther

record ociComputeHost =
  chHost :: ociHost
  AdditionalData :: "(string, extra) gomap"

definition rackOf :: "ociComputeHost \<Rightarrow> string" where
  "rackOf host =
     (case gm_get (AdditionalData host) ''locationDetails'' of
        Some (ExtraObject details) \<Rightarrow> (case gm_get details ''rack'' of Some (ExtraString v) \<Rightarrow> v | _ \<Rightarrow> [])
      | _ \<Rightarrow> [])"

definition convertComputeHost :: "ociComputeHost \<Rightarrow> oci_error + InstanceTopology" where
  "convertComputeHost host = convertHost (chHost host) (rackOf host)"

record ociPage =
  opItems :: "ociSummary list"
  OpcNextPage :: "string option"

record ociClient =
  ListComputeHosts :: "string option \<Rightarrow> string option \<Rightarrow> string + ociPage"
  GetComputeHost :: "string \<Rightarrow> string + ociComputeHost"
  ListAvailabilityDomains :: "string + string option list"

subsection \<open>Workers\<close>

datatype host_error = Service string | RepeatedToken string

text \<open>What a worker finds: an error of the service, nothing, or a topology.\<close>

definition hostJob :: "ociClient \<Rightarrow> (string, string) gomap \<Rightarrow> ociSummary \<Rightarrow> string + InstanceTopology option" where
  "hostJob client instMap s =
     (case osId s of
        None \<Rightarrow> Inr None
      | Some hostId \<Rightarrow>
          (case ohInstanceId (osHost s) of
             None \<Rightarrow> Inr None
           | Some i \<Rightarrow>
               if gm_get instMap i = None then Inr None
               else
                 (case GetComputeHost client hostId of
                    Inl err \<Rightarrow> Inl err
                  | Inr host \<Rightarrow> (case convertComputeHost host of Inl _ \<Rightarrow> Inr None | Inr inst \<Rightarrow> Inr (Some inst)))))"

record pageArrays =
  arrInstances :: "InstanceTopology option list"
  arrErrors :: "string option list"

definition runWorker :: "ociClient \<Rightarrow> (string, string) gomap \<Rightarrow> ociSummary list \<Rightarrow> nat \<Rightarrow> pageArrays \<Rightarrow> pageArrays" where
  "runWorker client instMap items i arr =
     (case hostJob client instMap (items ! i) of
        Inl err \<Rightarrow> arr\<lparr>arrErrors := (arrErrors arr)[i := Some err]\<rparr>
      | Inr None \<Rightarrow> arr
      | Inr (Some inst) \<Rightarrow> arr\<lparr>arrInstances := (arrInstances arr)[i := Some inst]\<rparr>)"

text \<open>The loop after all workers are done: the first error wins.\<close>

fun collect :: "InstanceTopology option list \<Rightarrow> string option list \<Rightarrow> ClusterTopology \<Rightarrow> host_error + ClusterTopology" where
  "collect (inst # insts) (err # errs) topo =
     (case err of
        Some e \<Rightarrow> Inl (Service e)
      | None \<Rightarrow> collect insts errs (case inst of Some t \<Rightarrow> Append topo t | None \<Rightarrow> topo))"
| "collect _ _ topo = Inr topo"

definition processPage ::
  "ociClient \<Rightarrow> (string, string) gomap \<Rightarrow> nat list \<Rightarrow> ociSummary list \<Rightarrow> ClusterTopology \<Rightarrow> host_error + ClusterTopology" where
  "processPage client instMap order items topo =
     (let n = length items;
          arr = fold (runWorker client instMap items) order \<lparr>arrInstances = replicate n None, arrErrors = replicate n None\<rparr>
      in collect (arrInstances arr) (arrErrors arr) topo)"

subsection \<open>Pages\<close>

text \<open>
  \<open>schedule\<close> gives the run of the workers of each page. The loop may not end if the service never
  runs out of new tokens.
\<close>

partial_function (option) hostPages ::
  "(string option \<Rightarrow> string + ociPage) \<Rightarrow> (string option \<Rightarrow> ociSummary list \<Rightarrow> ClusterTopology \<Rightarrow> host_error + ClusterTopology)
     \<Rightarrow> string option \<Rightarrow> string list \<Rightarrow> ClusterTopology \<Rightarrow> (host_error + ClusterTopology) option" where
  "hostPages fetch process page seenPages topo =
     (case fetch page of
        Inl err \<Rightarrow> Some (Inl (Service err))
      | Inr resp \<Rightarrow>
          (case OpcNextPage resp of
             None \<Rightarrow> Some (process page (opItems resp) topo)
           | Some nextPage \<Rightarrow>
               if nextPage \<in> set seenPages then Some (Inl (RepeatedToken nextPage))
               else
                 (case process page (opItems resp) topo of
                    Inl err \<Rightarrow> Some (Inl err)
                  | Inr topo' \<Rightarrow> hostPages fetch process (Some nextPage) (nextPage # seenPages) topo')))"

definition getComputeHostSummary ::
  "ociClient \<Rightarrow> string option \<Rightarrow> (string option \<Rightarrow> nat list) \<Rightarrow> (string, string) gomap \<Rightarrow> ClusterTopology
     \<Rightarrow> (host_error + ClusterTopology) option" where
  "getComputeHostSummary client availabilityDomain schedule instMap topo =
     hostPages (ListComputeHosts client availabilityDomain) (\<lambda>page. processPage client instMap (schedule page)) None [] topo"

text \<open>The message of an error; a token is printed between quotation marks.\<close>

definition hostError :: "host_error \<Rightarrow> string" where
  "hostError err =
     (case err of
        Service e \<Rightarrow> e
      | RepeatedToken t \<Rightarrow> ''ListComputeHosts returned repeated page token '' @ [char_of (34 :: nat)] @ t @ [char_of (34 :: nat)])"

fun domainLoop ::
  "(string option \<Rightarrow> ClusterTopology \<Rightarrow> (host_error + ClusterTopology) option) \<Rightarrow> string option list \<Rightarrow> ClusterTopology
     \<Rightarrow> (cloud_fail + ClusterTopology) option" where
  "domainLoop hosts [] topo = Some (Inr topo)"
| "domainLoop hosts (ad # ads) topo =
     (case hosts ad topo of
        None \<Rightarrow> None
      | Some (Inl err) \<Rightarrow> Some (Inl (gateway ''failed to get hosts info: '' (hostError err)))
      | Some (Inr topo') \<Rightarrow> domainLoop hosts ads topo')"

definition getComputeHostInfo ::
  "(string \<Rightarrow> int option \<Rightarrow> string + ociClient) \<Rightarrow> int option \<Rightarrow> (string option \<Rightarrow> string option \<Rightarrow> nat list)
     \<Rightarrow> ComputeInstances \<Rightarrow> ClusterTopology \<Rightarrow> (cloud_fail + ClusterTopology) option" where
  "getComputeHostInfo clientFactory pageSize schedule ci topo =
     (if Region ci = [] then Some (Inl missingRegion)
      else
        (case clientFactory (Region ci) pageSize of
           Inl err \<Rightarrow> Some (Inl (gateway ''failed to create API client: '' err))
         | Inr client \<Rightarrow>
             (case ListAvailabilityDomains client of
                Inl err \<Rightarrow> Some (Inl (gateway ''failed to get availability domains: '' err))
              | Inr ads \<Rightarrow>
                  domainLoop (\<lambda>ad. getComputeHostSummary client ad (schedule ad) (Instances ci)) ads topo)))"

definition ociTopology ::
  "(string \<Rightarrow> int option \<Rightarrow> string + ociClient) \<Rightarrow> int option \<Rightarrow> (string option \<Rightarrow> string option \<Rightarrow> nat list)
     \<Rightarrow> ComputeInstances list \<Rightarrow> (cloud_fail + ClusterTopology) option" where
  "ociTopology clientFactory pageSize schedule cis =
     regionLoop (getComputeHostInfo clientFactory pageSize schedule) cis NewClusterTopology"

subsection \<open>Instance metadata\<close>

record topologyData =
  GpuMemoryFabric :: string
  HPCIslandId :: string
  LocalBlock :: string
  NetworkBlock :: string

text \<open>The text before and after the first \<open>": "\<close>.\<close>

fun cutColon :: "string \<Rightarrow> string \<Rightarrow> (string \<times> string) option" where
  "cutColon pre (CHR '':'' # CHR '' '' # s) = Some (pre, s)"
| "cutColon pre (c # s) = cutColon (pre @ [c]) s"
| "cutColon pre [] = None"

definition topologyLine ::
  "(string \<Rightarrow> string + topologyData) \<Rightarrow> string \<Rightarrow> (string, topologyData) gomap \<Rightarrow> (string, topologyData) gomap" where
  "topologyLine unmarshal str topoMap =
     (case cutColon [] str of
        None \<Rightarrow> topoMap
      | Some (node, data) \<Rightarrow> (case unmarshal data of Inl _ \<Rightarrow> topoMap | Inr t \<Rightarrow> gm_put node t topoMap))"

definition parseTopologyOutput :: "(string \<Rightarrow> string + topologyData) \<Rightarrow> string \<Rightarrow> (string, topologyData) gomap option" where
  "parseTopologyOutput unmarshal buff =
     map_option (\<lambda>lines. fold (topologyLine unmarshal) lines []) (scanLines buff)"

definition imdsHostInfo ::
  "(string list \<Rightarrow> string + (string, topologyData) gomap) \<Rightarrow> ComputeInstances \<Rightarrow> ClusterTopology \<Rightarrow> string + ClusterTopology" where
  "imdsHostInfo getHostTopology ci topo =
     (case getHostTopology (map snd (Instances ci)) of
        Inl err \<Rightarrow> Inl (''failed to get node topology: '' @ err)
      | Inr topoMap \<Rightarrow>
          Inr (foldl (\<lambda>topo (instanceID, node).
             case gm_get topoMap node of
               None \<Rightarrow> topo
             | Some t \<Rightarrow> topo @ [bareTopology instanceID
                 (ClosestFirstFabricTiers [LocalBlock t, NetworkBlock t, HPCIslandId t]) (GpuMemoryFabric t)]) topo (Instances ci)))"

definition imdsTopology ::
  "(string list \<Rightarrow> string + (string, topologyData) gomap) \<Rightarrow> ComputeInstances list \<Rightarrow> string + ClusterTopology" where
  "imdsTopology getHostTopology cis = foldE (imdsHostInfo getHostTopology) cis NewClusterTopology"

definition groupInstances ::
  "(string list \<Rightarrow> string + (string, string) gomap) \<Rightarrow> (string, string) gomap \<Rightarrow> string list \<Rightarrow> string + ComputeInstances list" where
  "groupInstances getRegions i2n nodes = map_sum id (GroupByRegion i2n) (getRegions nodes)"

text \<open>The node names are the instance IDs of the metadata provider; the API provider asks the nodes.\<close>

definition imdsNodeInstances :: "(string list \<Rightarrow> string + (string, string) gomap) \<Rightarrow> string list \<Rightarrow> string + ComputeInstances list" where
  "imdsNodeInstances getRegions nodes = groupInstances getRegions (fold (\<lambda>node. gm_put node node) nodes []) nodes"

definition apiNodeInstances ::
  "(string list \<Rightarrow> string + (string, string) gomap) \<Rightarrow> (string list \<Rightarrow> string + (string, string) gomap) \<Rightarrow> string list
     \<Rightarrow> string + ComputeInstances list" where
  "apiNodeInstances instanceToNodeMap getRegions nodes =
     (case instanceToNodeMap nodes of Inl err \<Rightarrow> Inl err | Inr i2n \<Rightarrow> groupInstances getRegions i2n nodes)"

section \<open>Workers in any order\<close>

definition jobInstance :: "string + InstanceTopology option \<Rightarrow> InstanceTopology option" where
  "jobInstance r = (case r of Inr (Some t) \<Rightarrow> Some t | _ \<Rightarrow> None)"

definition jobError :: "string + InstanceTopology option \<Rightarrow> string option" where
  "jobError r = (case r of Inl e \<Rightarrow> Some e | _ \<Rightarrow> None)"

text \<open>The page read by one worker after the other.\<close>

definition keepHost :: "ociClient \<Rightarrow> (string, string) gomap \<Rightarrow> ociSummary \<Rightarrow> ClusterTopology \<Rightarrow> host_error + ClusterTopology" where
  "keepHost client instMap s topo =
     (case hostJob client instMap s of
        Inl e \<Rightarrow> Inl (Service e)
      | Inr inst \<Rightarrow> Inr (case inst of Some t \<Rightarrow> Append topo t | None \<Rightarrow> topo))"

lemma runWorkers_length:
  "length (arrInstances (fold (runWorker client instMap items) order arr)) = length (arrInstances arr) \<and>
   length (arrErrors (fold (runWorker client instMap items) order arr)) = length (arrErrors arr)"
  by (induction order arbitrary: arr) (auto simp: runWorker_def split: sum.splits option.splits)

lemma nth_update_if: "j < length xs \<Longrightarrow> xs[a := v] ! j = (if a = j then v else xs ! j)"
  by (simp add: nth_list_update)

lemma runWorkers_nth:
  assumes "j < length (arrInstances arr)" and "j < length (arrErrors arr)"
  shows "arrInstances (fold (runWorker client instMap items) order arr) ! j =
      (if j \<in> set order \<and> jobInstance (hostJob client instMap (items ! j)) \<noteq> None
       then jobInstance (hostJob client instMap (items ! j)) else arrInstances arr ! j)"
    and "arrErrors (fold (runWorker client instMap items) order arr) ! j =
      (if j \<in> set order \<and> jobError (hostJob client instMap (items ! j)) \<noteq> None
       then jobError (hostJob client instMap (items ! j)) else arrErrors arr ! j)"
  using assms
  by (induction order arbitrary: arr)
    (auto simp: runWorker_def jobInstance_def jobError_def nth_update_if split: sum.splits option.splits)

lemma collect_jobs:
  "collect (map (\<lambda>s. jobInstance (hostJob client instMap s)) items) (map (\<lambda>s. jobError (hostJob client instMap s)) items) topo =
     foldE (keepHost client instMap) items topo"
  by (induction items arbitrary: topo) (auto simp: keepHost_def jobInstance_def jobError_def split: sum.splits option.splits)

lemma processPage_sequential:
  assumes "set order = {..<length items}"
  shows "processPage client instMap order items topo = foldE (keepHost client instMap) items topo"
proof -
  let ?a0 = "\<lparr>arrInstances = replicate (length items) None, arrErrors = replicate (length items) None\<rparr> :: pageArrays"
  let ?arr = "fold (runWorker client instMap items) order ?a0"
  have "arrInstances ?arr = map (\<lambda>s. jobInstance (hostJob client instMap s)) items"
    using assms by (intro nth_equalityI) (auto simp: runWorkers_length runWorkers_nth)
  moreover have "arrErrors ?arr = map (\<lambda>s. jobError (hostJob client instMap s)) items"
    using assms by (intro nth_equalityI) (auto simp: runWorkers_length runWorkers_nth)
  ultimately show ?thesis by (simp add: processPage_def Let_def collect_jobs)
qed

section \<open>Listing the hosts\<close>

lemma pageChain_same: "pageChain fetch next token ps \<Longrightarrow> pageChain fetch next token qs \<Longrightarrow> ps = qs"
proof (induction ps arbitrary: token qs)
  case (Cons p ps)
  then show ?case by (cases qs) (auto split: option.splits)
qed simp

lemma pageChain_suffix:
  "pageChain fetch next token ps \<Longrightarrow> t \<in> set (List.map_filter next ps) \<Longrightarrow>
     \<exists>qs. pageChain fetch next (Some t) qs \<and> length qs < length ps"
proof (induction ps arbitrary: token)
  case (Cons p ps)
  show ?case
  proof (cases "next p")
    case None
    then show ?thesis using Cons.prems by (simp add: List.map_filter_simps)
  next
    case (Some u)
    then have c: "pageChain fetch next (Some u) ps" using Cons.prems(1) by simp
    show ?thesis
    proof (cases "t = u")
      case True
      then show ?thesis using c by auto
    next
      case False
      then have "t \<in> set (List.map_filter next ps)" using Cons.prems(2) Some by (simp add: List.map_filter_simps)
      then show ?thesis using Cons.IH [OF c] by auto
    qed
  qed
qed simp

lemma pageChain_distinct: "pageChain fetch next token ps \<Longrightarrow> distinct (List.map_filter next ps)"
proof (induction ps arbitrary: token)
  case (Cons p ps)
  show ?case
  proof (cases "next p")
    case None
    then show ?thesis using Cons.prems by (auto simp: List.map_filter_simps)
  next
    case (Some u)
    then have c: "pageChain fetch next (Some u) ps" using Cons.prems by simp
    have "u \<notin> set (List.map_filter next ps)" using pageChain_suffix [OF c] pageChain_same [OF c] by fastforce
    then show ?thesis using Cons.IH [OF c] Some by (simp add: List.map_filter_simps)
  qed
qed simp

lemma hostPages_exact:
  assumes fin: "finite {t. \<exists>page resp. fetch page = Inr resp \<and> OpcNextPage resp = Some t}"
    and process: "\<And>page resp topo. fetch page = Inr resp \<Longrightarrow> process page (opItems resp) topo = foldE keep (opItems resp) topo"
  shows "\<exists>r. hostPages fetch process page seen topo = Some r \<and> (\<forall>topo'. r = Inr topo' \<longleftrightarrow>
    (\<exists>pages. pageChain fetch OpcNextPage page pages \<and> set (List.map_filter OpcNextPage pages) \<inter> set seen = {} \<and>
       foldE keep (concat (map opItems pages)) topo = Inr topo'))"
proof (induction "card ({t. \<exists>page resp. fetch page = Inr resp \<and> OpcNextPage resp = Some t} - set seen)"
    arbitrary: page seen topo rule: less_induct)
  case less
  let ?T = "{t. \<exists>page resp. fetch page = Inr resp \<and> OpcNextPage resp = Some t}"
  show ?case
  proof (cases "fetch page")
    case (Inl err)
    then have "\<not> pageChain fetch OpcNextPage page pages" for pages by (cases pages) auto
    then show ?thesis using Inl by (subst hostPages.simps) simp
  next
    case (Inr resp)
    then have fst: "pageChain fetch OpcNextPage page pages \<Longrightarrow> \<exists>ps. pages = resp # ps" for pages by (cases pages) auto
    show ?thesis
    proof (cases "OpcNextPage resp")
      case None
      then have "pageChain fetch OpcNextPage page pages \<longleftrightarrow> pages = [resp]" for pages
        using Inr by (cases pages) auto
      then show ?thesis using Inr None process by (subst hostPages.simps) (auto simp: List.map_filter_simps)
    next
      case (Some t)
      have chain: "pageChain fetch OpcNextPage page pages \<longleftrightarrow> (\<exists>ps. pages = resp # ps \<and> pageChain fetch OpcNextPage (Some t) ps)" for pages
        using Inr Some by (cases pages) auto
      show ?thesis
      proof (cases "t \<in> set seen")
        case True
        then show ?thesis using Inr Some by (subst hostPages.simps) (auto simp: chain List.map_filter_simps)
      next
        case False
        have "t \<in> ?T - set seen" using Inr Some False by auto
        then have "card (?T - set (t # seen)) < card (?T - set seen)"
          using fin by (intro psubset_card_mono) auto
        note IH = less [OF this]
        have dis: "pageChain fetch OpcNextPage (Some t) ps \<Longrightarrow> t \<notin> set (List.map_filter OpcNextPage ps)" for ps
          using pageChain_distinct [of fetch OpcNextPage page "resp # ps"] Inr Some by (simp add: List.map_filter_simps)
        show ?thesis
        proof (cases "foldE keep (opItems resp) topo")
          case (Inl err)
          then show ?thesis using Inr Some False process [OF Inr] by (subst hostPages.simps) (auto simp: chain foldE_append)
        next
          case (Inr topo1)
          obtain r where r: "hostPages fetch process (Some t) (t # seen) topo1 = Some r" and
            iff: "\<forall>topo'. r = Inr topo' \<longleftrightarrow> (\<exists>pages. pageChain fetch OpcNextPage (Some t) pages \<and>
              set (List.map_filter OpcNextPage pages) \<inter> set (t # seen) = {} \<and> foldE keep (concat (map opItems pages)) topo1 = Inr topo')"
            using IH by blast
          have "hostPages fetch process page seen topo = Some r"
            using \<open>fetch page = Inr resp\<close> Some False process [OF \<open>fetch page = Inr resp\<close>] Inr r by (subst hostPages.simps) simp
          moreover have "r = Inr topo' \<longleftrightarrow> (\<exists>pages. pageChain fetch OpcNextPage page pages \<and>
              set (List.map_filter OpcNextPage pages) \<inter> set seen = {} \<and> foldE keep (concat (map opItems pages)) topo = Inr topo')" for topo'
          proof -
            have "(\<exists>pages. pageChain fetch OpcNextPage page pages \<and>
                set (List.map_filter OpcNextPage pages) \<inter> set seen = {} \<and> foldE keep (concat (map opItems pages)) topo = Inr topo') \<longleftrightarrow>
              (\<exists>ps. pageChain fetch OpcNextPage (Some t) ps \<and> set (List.map_filter OpcNextPage (resp # ps)) \<inter> set seen = {} \<and>
                foldE keep (concat (map opItems (resp # ps))) topo = Inr topo')"
              unfolding chain by blast
            also have "\<dots> \<longleftrightarrow> (\<exists>ps. pageChain fetch OpcNextPage (Some t) ps \<and>
                set (List.map_filter OpcNextPage ps) \<inter> set (t # seen) = {} \<and> foldE keep (concat (map opItems ps)) topo1 = Inr topo')"
              using Inr Some False dis by (simp add: foldE_append List.map_filter_simps) blast
            finally show ?thesis using iff by simp
          qed
          ultimately show ?thesis by blast
        qed
      qed
    qed
  qed
qed

text \<open>
  C34. A service with finitely many page tokens cannot keep the listing going: it returns, even when
  tokens repeat. It succeeds exactly if the chain of pages ends and no host on it fails, and then
  the topology is that of reading the hosts one after the other, however the workers are scheduled.
\<close>

theorem getComputeHostSummary_exact:
  assumes "finite {t. \<exists>page resp. ListComputeHosts client ad page = Inr resp \<and> OpcNextPage resp = Some t}"
    and "\<And>page resp. ListComputeHosts client ad page = Inr resp \<Longrightarrow> set (schedule page) = {..<length (opItems resp)}"
  shows "\<exists>r. getComputeHostSummary client ad schedule instMap topo = Some r \<and> (\<forall>topo'. r = Inr topo' \<longleftrightarrow>
    (\<exists>pages. pageChain (ListComputeHosts client ad) OpcNextPage None pages \<and>
       foldE (keepHost client instMap) (concat (map opItems pages)) topo = Inr topo'))"
  unfolding getComputeHostSummary_def
  using hostPages_exact [OF assms(1), of "\<lambda>page. processPage client instMap (schedule page)" "keepHost client instMap" None "[]"]
    processPage_sequential [OF assms(2)] by simp

definition demoHost :: ociHost where
  "demoHost = \<lparr>ohInstanceId = Some ''i1'', ohLocalBlockId = Some ''b'', ohNetworkBlockId = Some ''n'', ohHpcIslandId = Some ''h'',
     ohGpuMemoryFabricId = Some ''f''\<rparr>"

definition demoService :: ociClient where
  "demoService =
     \<lparr>ListComputeHosts = (\<lambda>_ page. Inr (if page = None then \<lparr>opItems = [\<lparr>osId = Some ''c1'', osHost = demoHost\<rparr>], OpcNextPage = Some ''p2''\<rparr>
        else \<lparr>opItems = [], OpcNextPage = None\<rparr>)),
      GetComputeHost = (\<lambda>_. Inr \<lparr>chHost = demoHost, AdditionalData = [(''locationDetails'', ExtraObject [(''rack'', ExtraString ''r'')])]\<rparr>),
      ListAvailabilityDomains = Inr [None]\<rparr>"

definition demoSchedule :: "string option \<Rightarrow> nat list" where
  "demoSchedule page = (if page = None then [0] else [])"

lemma getComputeHostSummary_exact_witness:
  "\<exists>topo. getComputeHostSummary demoService None demoSchedule [(''i1'', ''node'')] [] = Some (Inr topo) \<and>
     map XclrSubDomainID topo = [''f.r'']"
proof -
  let ?L = "ListComputeHosts demoService None"
  let ?pages = "[\<lparr>opItems = [\<lparr>osId = Some ''c1'', osHost = demoHost\<rparr>], OpcNextPage = Some ''p2''\<rparr>, \<lparr>opItems = [], OpcNextPage = None\<rparr>]"
  have "{t. \<exists>page resp. ?L page = Inr resp \<and> OpcNextPage resp = Some t} \<subseteq> {''p2''}"
    by (auto simp: demoService_def split: if_splits)
  then have fin: "finite {t. \<exists>page resp. ?L page = Inr resp \<and> OpcNextPage resp = Some t}" by (rule finite_subset) simp
  have sched: "set (demoSchedule page) = {..<length (opItems resp)}" if "?L page = Inr resp" for page resp
    using that by (auto simp: demoService_def demoSchedule_def split: if_splits)
  have chain: "pageChain ?L OpcNextPage None ?pages" by (simp add: demoService_def)
  have run: "foldE (keepHost demoService [(''i1'', ''node'')]) (concat (map opItems ?pages)) [] =
      Inr [\<lparr>InstanceID = ''i1'', FabricTiers = ClosestFirstFabricTiers [''b'', ''n'', ''h''], XclrDomainID = ''f'', XclrSubDomainID = ''f.r'', itInstance = None\<rparr>]"
    by (simp add: keepHost_def hostJob_def demoService_def demoHost_def convertComputeHost_def convertHost_def rackOf_def bareTopology_def Append_def Let_def)
  show ?thesis
    using getComputeHostSummary_exact [OF fin sched, where instMap = "[(''i1'', ''node'')]" and topo = "[]"] chain run by fastforce
qed

end
