(* ===== verification/Netq.thy ===== *)
theory Netq
  imports ProviderTools Ib
begin

text \<open>
  Component \<open>pkg/providers/netq\<close>: the switch hierarchy and the accelerator domains of a NetQ server.
  The nodes of the server's answer are linked layer by layer, starting from the requested nodes;
  every layer takes its switches out of the pool, so the loop ends. The last layer is merged
  (\<open>Merger\<close>) and becomes the children of the root.

  The server and the JSON decoder are parameters. As in \<open>Merger\<close>, vertices are values: a vertex is
  complete before a vertex above refers to it.
\<close>

section \<open>Model\<close>

record CNode =
  cnId :: string
  cnName :: string
  cnTier :: int

record NetqResponse =
  nrLinks :: "string list"
  nrNodes :: "CNode list list"

record splitState =
  spLayer :: "(string, VTree) gomap"
  spNodes :: "(string, VTree) gomap"
  spTiers :: "(string, int) gomap"

definition splitNode :: "(string, bool) gomap \<Rightarrow> CNode \<Rightarrow> splitState \<Rightarrow> splitState" where
  "splitNode inputNodes cnode st =
     (let v = VTree (cnId cnode) (cnName cnode) [];
          st = (if cnTier cnode = -1
                then (if gm_get inputNodes (cnName cnode) = Some True then st\<lparr>spLayer := gm_put (cnId cnode) v (spLayer st)\<rparr> else st)
                else st\<lparr>spNodes := gm_put (cnId cnode) v (spNodes st)\<rparr>)
      in st\<lparr>spTiers := gm_put (cnId cnode) (cnTier cnode) (spTiers st)\<rparr>)"

definition splitNodes :: "(string, bool) gomap \<Rightarrow> CNode list list \<Rightarrow> splitState" where
  "splitNodes inputNodes nodes = fold (splitNode inputNodes) (concat nodes) \<lparr>spLayer = [], spNodes = [], spTiers = []\<rparr>"

text \<open>A missing key of the tier map reads as zero.\<close>

definition tierOf :: "(string, int) gomap \<Rightarrow> string \<Rightarrow> int" where
  "tierOf tierMap i = (case gm_get tierMap i of Some t \<Rightarrow> t | None \<Rightarrow> 0)"

type_synonym linksUp = "(string, (string, bool) gomap) gomap"

definition upsOf :: "linksUp \<Rightarrow> string \<Rightarrow> (string, bool) gomap" where
  "upsOf links i = (case gm_get links i of Some up \<Rightarrow> up | None \<Rightarrow> [])"

definition addLink :: "(string, int) gomap \<Rightarrow> string \<Rightarrow> linksUp \<Rightarrow> linksUp" where
  "addLink tierMap link links =
     (case Split link ''-*-'' of
        [a, b] \<Rightarrow>
          if tierOf tierMap a = tierOf tierMap b then links
          else
            (let (low, high) = (if tierOf tierMap a > tierOf tierMap b then (b, a) else (a, b))
             in gm_put low (gm_put high True (upsOf links low)) links)
      | _ \<Rightarrow> links)"

subsection \<open>Layers\<close>

definition addKid :: "string \<Rightarrow> VTree \<Rightarrow> VTree \<Rightarrow> VTree" where
  "addKid i w v = VTree (tvID v) (tvName v) (gm_put i (Some w) (tvVertices v))"

type_synonym layerPair = "(string, VTree) gomap \<times> (string, VTree) gomap"

text \<open>One link: the switch of the next layer, or a switch of the pool, which leaves the pool.\<close>

definition linkUp :: "string \<Rightarrow> VTree \<Rightarrow> string \<Rightarrow> layerPair \<Rightarrow> layerPair" where
  "linkUp i w up = (\<lambda>(nodeMap, nxt).
     case gm_get nxt up of
       Some v \<Rightarrow> (nodeMap, gm_put up (addKid i w v) nxt)
     | None \<Rightarrow>
         (case gm_get nodeMap up of
            None \<Rightarrow> (nodeMap, nxt)
          | Some v \<Rightarrow> (gm_del up nodeMap, gm_put up (addKid i w (VTree (tvID v) (tvName v) [])) nxt)))"

definition linkLayer :: "linksUp \<Rightarrow> (string, VTree) gomap \<Rightarrow> (string, VTree) gomap \<Rightarrow> layerPair" where
  "linkLayer links layer nodeMap =
     fold (\<lambda>(i, w). fold (linkUp i w) (gm_keys (upsOf links i))) layer (nodeMap, [])"

lemma linkUp_shrinks: "linkUp i w up (nodeMap, nxt) = (nodeMap', nxt') \<Longrightarrow> length nodeMap' \<le> length nodeMap"
  by (auto simp: linkUp_def AList.delete_eq length_filter_le split: option.splits)

lemma linkUps_shrink: "fold (linkUp i w) ups s = s' \<Longrightarrow> length (fst s') \<le> length (fst s)"
proof (induction ups arbitrary: s)
  case (Cons up ups)
  obtain nodeMap nxt nodeMap' nxt' where s: "s = (nodeMap, nxt)" "linkUp i w up s = (nodeMap', nxt')" by (metis surj_pair)
  then show ?case using linkUp_shrinks [of i w up nodeMap nxt] Cons.IH [of "(nodeMap', nxt')"] Cons.prems by fastforce
qed simp

lemma linkLayer_shrinks:
  assumes "linkLayer links layer nodeMap = (nodeMap', nxt)"
  shows "length nodeMap' \<le> length nodeMap"
proof -
  have "length (fst (fold (\<lambda>(i, w). fold (linkUp i w) (gm_keys (upsOf links i))) xs s)) \<le> length (fst s)" for xs and s :: layerPair
  proof (induction xs arbitrary: s)
    case (Cons x xs)
    obtain i w where x: "x = (i, w)" by (cases x)
    show ?case using Cons.IH [of "fold (linkUp i w) (gm_keys (upsOf links i)) s"] linkUps_shrink [OF refl, of i w _ s] x
      by (auto intro: order_trans)
  qed simp
  from this [of layer "(nodeMap, [])"] show ?thesis using assms by (simp add: linkLayer_def)
qed

function layerLoop :: "linksUp \<Rightarrow> (string, VTree) gomap \<Rightarrow> (string, VTree) gomap \<Rightarrow> (string, VTree) gomap" where
  "layerLoop links layer nodeMap =
     (let (nodeMap', nxt) = linkLayer links layer nodeMap
      in if length nodeMap' = length nodeMap then layer else layerLoop links nxt nodeMap')"
  by pat_completeness auto
termination
  by (relation "measure (\<lambda>(links, layer, nodeMap). length nodeMap)")
    (use linkLayer_shrinks in \<open>auto simp: le_neq_implies_less dest: sym\<close>)

declare layerLoop.simps [simp del]

subsection \<open>The server\<close>

text \<open>The answer is decoded, linked and merged, and its top vertices are put below the root.\<close>

definition netqError :: "string \<Rightarrow> string \<Rightarrow> httperr" where
  "netqError text err = NewError StatusBadGateway (text @ err)"

definition topLayer :: "NetqResponse \<Rightarrow> (string, bool) gomap \<Rightarrow> (string, VTree) gomap" where
  "topLayer resp inputNodes =
     (let st = splitNodes inputNodes (nrNodes resp);
          links = fold (addLink (spTiers st)) (nrLinks resp) []
      in layerLoop links (spLayer st) (spNodes st))"

definition parseNetq ::
  "(string \<Rightarrow> string + NetqResponse list) \<Rightarrow> (string, VTree) gomap \<Rightarrow> string \<Rightarrow> (string, bool) gomap
     \<Rightarrow> (go_panic + (httperr + (string, VTree) gomap)) option" where
  "parseNetq decode root data inputNodes =
     (case decode data of
        Inl err \<Rightarrow> Some (Inr (Inl (netqError ''netq output read failed: '' err)))
      | Inr resp \<Rightarrow>
          (case resp of
             [r] \<Rightarrow>
               Option.bind (mergeRoots (gm_vals (topLayer r inputNodes))) (\<lambda>m. Some
                 (case m of
                    Inl p \<Rightarrow> Inl p
                  | Inr tops \<Rightarrow> Inr (Inr (fold (\<lambda>v. gm_put (tvID v) v) tops root))))
           | _ \<Rightarrow> Some (Inr (Inl (netqError ''invalid NetQ response: multiple entries'' [])))))"

record Premises =
  ConfigKeyViewed :: bool
  pmName :: string
  pmOPID :: int

record AuthOutput =
  AccessToken :: string
  aoPremises :: "Premises list"

text \<open>The requests of the provider; \<open>exchange\<close> is \<open>httpreq.DoRequest\<close> on them.\<close>

datatype netq_request = Login string string | SelectOp string string | FetchTopology string | ComputeNodes string string

definition showInt :: "int \<Rightarrow> string" where
  "showInt n = (if n < 0 then ''-'' @ itoa (nat (- n)) else itoa (nat n))"

definition getPremisesTopology ::
  "(netq_request \<Rightarrow> httperr + string) \<Rightarrow> (string \<Rightarrow> string + AuthOutput) \<Rightarrow> (string \<Rightarrow> string + NetqResponse list)
     \<Rightarrow> ComputeInstances list \<Rightarrow> (string, VTree) gomap \<Rightarrow> string \<Rightarrow> string
     \<Rightarrow> (go_panic + (httperr + (string, VTree) gomap)) option" where
  "getPremisesTopology exchange decodeAuth decode insts root token opid =
     (case exchange (SelectOp token opid) of
        Inl err \<Rightarrow> Some (Inr (Inl err))
      | Inr data \<Rightarrow>
          if data = [] then Some (Inr (Inl (netqError ''failed to set NetQ OpID'' [])))
          else
            (case decodeAuth data of
               Inl err \<Rightarrow> Some (Inr (Inl (netqError ''failed to parse access token: '' err)))
             | Inr auth \<Rightarrow>
                 (case exchange (FetchTopology (AccessToken auth)) of
                    Inl err \<Rightarrow> Some (Inr (Inl err))
                  | Inr data \<Rightarrow> parseNetq decode root data (GetNodeNameMap insts))))"

fun premisesLoop ::
  "((string, VTree) gomap \<Rightarrow> string \<Rightarrow> (go_panic + (httperr + (string, VTree) gomap)) option)
     \<Rightarrow> Premises list \<Rightarrow> (string, VTree) gomap \<Rightarrow> (go_panic + (httperr + (string, VTree) gomap)) option" where
  "premisesLoop get [] root = Some (Inr (Inr root))"
| "premisesLoop get (p # ps) root =
     (if ConfigKeyViewed p
      then
        (case get root (showInt (pmOPID p)) of
           Some (Inr (Inr root)) \<Rightarrow> premisesLoop get ps root
         | r \<Rightarrow> r)
      else premisesLoop get ps root)"

definition getNetworkTree ::
  "(netq_request \<Rightarrow> httperr + string) \<Rightarrow> (string \<Rightarrow> string + AuthOutput) \<Rightarrow> (string \<Rightarrow> string + NetqResponse list)
     \<Rightarrow> string \<Rightarrow> string \<Rightarrow> ComputeInstances list \<Rightarrow> (go_panic + (httperr + (string, VTree) gomap)) option" where
  "getNetworkTree exchange decodeAuth decode username password insts =
     (case exchange (Login username password) of
        Inl err \<Rightarrow> Some (Inr (Inl err))
      | Inr data \<Rightarrow>
          if data = [] then Some (Inr (Inl (NewError 401 ''failed to login to NetQ server'')))
          else
            (case decodeAuth data of
               Inl err \<Rightarrow> Some (Inr (Inl (netqError ''failed to parse access token: '' err)))
             | Inr auth \<Rightarrow>
                 (case premisesLoop (\<lambda>root. getPremisesTopology exchange decodeAuth decode insts root (AccessToken auth))
                         (aoPremises auth) [] of
                    Some (Inr (Inr root)) \<Rightarrow>
                      Some (Inr (if root = [] then Inl (netqError ''no topology available from the provided premises'' []) else Inr root))
                  | r \<Rightarrow> r)))"

record ComputeNode =
  nmName :: string
  nmDomainUUID :: string

definition parseComputeNodes :: "(string \<Rightarrow> string + ComputeNode list) \<Rightarrow> string \<Rightarrow> httperr + DomainMap" where
  "parseComputeNodes decode data =
     (case decode data of
        Inl err \<Rightarrow> Inl (netqError ''nmx output read failed: '' err)
      | Inr nodes \<Rightarrow> Inr (fold (\<lambda>node. AddHost (nmDomainUUID node) (nmName node) (nmName node)) nodes NewDomainMap))"

definition getNvlDomains ::
  "(netq_request \<Rightarrow> httperr + string) \<Rightarrow> (string \<Rightarrow> string + ComputeNode list) \<Rightarrow> string \<Rightarrow> string \<Rightarrow> httperr + DomainMap" where
  "getNvlDomains exchange decode username password =
     (case exchange (ComputeNodes username password) of Inl err \<Rightarrow> Inl err | Inr data \<Rightarrow> parseComputeNodes decode data)"

text \<open>The graph: the children of the root, and the domains if they could be read.\<close>

definition netqGraph ::
  "(netq_request \<Rightarrow> httperr + string) \<Rightarrow> (string \<Rightarrow> string + AuthOutput) \<Rightarrow> (string \<Rightarrow> string + NetqResponse list)
     \<Rightarrow> (string \<Rightarrow> string + ComputeNode list) \<Rightarrow> string \<Rightarrow> string \<Rightarrow> ComputeInstances list
     \<Rightarrow> (go_panic + (httperr + (string, VTree) gomap \<times> DomainMap option)) option" where
  "netqGraph exchange decodeAuth decode decodeNodes username password insts =
     Option.bind (getNetworkTree exchange decodeAuth decode username password insts) (\<lambda>r. Some
       (map_sum id (map_sum id (\<lambda>root. (root,
          case getNvlDomains exchange decodeNodes username password of Inl _ \<Rightarrow> None | Inr doms \<Rightarrow> Some doms))) r))"

section \<open>One round\<close>

text \<open>A vertex of the next layer: it left the pool, and its children are vertices of the layer under their IDs.\<close>

definition kidsIn :: "(string, VTree) gomap \<Rightarrow> VTree \<Rightarrow> bool" where
  "kidsIn layer v \<longleftrightarrow> gm_wf (tvVertices v) \<and> (\<forall>(c, x) \<in> set (tvVertices v). \<exists>w. x = Some w \<and> (c, w) \<in> set layer)"

definition linked :: "(string, VTree) gomap \<Rightarrow> (string, VTree) gomap \<Rightarrow> (string, VTree) gomap \<Rightarrow> string \<Rightarrow> VTree \<Rightarrow> bool" where
  "linked layer pool nodeMap u v \<longleftrightarrow>
     tvID v = u \<and> u \<in> set (gm_keys pool) \<and> u \<notin> set (gm_keys nodeMap) \<and> tvVertices v \<noteq> [] \<and> kidsIn layer v"

definition roundInv :: "(string, VTree) gomap \<Rightarrow> (string, VTree) gomap \<Rightarrow> layerPair \<Rightarrow> bool" where
  "roundInv layer pool = (\<lambda>(nodeMap, nxt). gm_wf nodeMap \<and> gm_wf nxt \<and> set nodeMap \<subseteq> set pool \<and>
     (\<forall>(u, v) \<in> set nxt. linked layer pool nodeMap u v))"

lemma set_gm_del: "set (gm_del k m) = {x \<in> set m. fst x \<noteq> k}"
  by (auto simp: AList.delete_eq)

lemma addKid_kids:
  assumes "kidsIn layer v" and "(i, w) \<in> set layer"
  shows "kidsIn layer (addKid i w v)"
proof -
  have "\<exists>w. x = Some w \<and> (c, w) \<in> set layer" if "(c, x) \<in> set (gm_put i (Some w) (tvVertices v))" for c x
  proof -
    have "(c, x) = (i, Some w) \<or> (c, x) \<in> set (tvVertices v)" using that set_gm_put_subset [of i "Some w" "tvVertices v"] by blast
    then show ?thesis using assms by (auto simp: kidsIn_def)
  qed
  then show ?thesis using assms(1) by (auto simp: kidsIn_def addKid_def gm_wf_put)
qed

lemma addKid_nonempty: "tvVertices (addKid i w v) \<noteq> []"
  by (cases "tvVertices v") (auto simp: addKid_def)

lemma linked_put:
  "\<forall>(u, x) \<in> set nxt. linked layer pool nodeMap u x \<Longrightarrow> linked layer pool nodeMap up v \<Longrightarrow>
     \<forall>(u, x) \<in> set (gm_put up v nxt). linked layer pool nodeMap u x"
  using set_gm_put_subset [of up v nxt] by blast

lemma roundInv_linkUp:
  assumes inv: "roundInv layer pool s" and mem: "(i, w) \<in> set layer" and pool: "\<forall>(k, v) \<in> set pool. tvID v = k"
  shows "roundInv layer pool (linkUp i w up s)"
proof -
  obtain nodeMap nxt where s: "s = (nodeMap, nxt)" by (cases s)
  have ok: "gm_wf nodeMap" "gm_wf nxt" "set nodeMap \<subseteq> set pool" "\<forall>(u, v) \<in> set nxt. linked layer pool nodeMap u v"
    using inv by (auto simp: s roundInv_def)
  show ?thesis
  proof (cases "gm_get nxt up")
    case (Some v)
    then have "linked layer pool nodeMap up v" using ok(4) by (auto dest: map_of_SomeD)
    then have "linked layer pool nodeMap up (addKid i w v)"
      using addKid_kids [OF _ mem] addKid_nonempty by (simp add: linked_def) (simp add: addKid_def)
    then show ?thesis using ok(1,2,3) linked_put [OF ok(4)] Some by (simp add: s roundInv_def linkUp_def gm_wf_put)
  next
    case None
    show ?thesis
    proof (cases "gm_get nodeMap up")
      case None
      then show ?thesis using inv \<open>gm_get nxt up = None\<close> by (simp add: s linkUp_def)
    next
      case (Some v)
      then have up: "(up, v) \<in> set pool" using ok(3) by (auto dest: map_of_SomeD)
      let ?v = "addKid i w (VTree (tvID v) (tvName v) [])"
      have "kidsIn layer ?v" by (rule addKid_kids [OF _ mem]) (simp add: kidsIn_def gm_wf_def)
      moreover have "tvID ?v = up" using up pool by (auto simp: addKid_def)
      ultimately have "linked layer pool (gm_del up nodeMap) up ?v"
        using up addKid_nonempty by (force simp: linked_def set_gm_del)
      moreover have "\<forall>(u, v) \<in> set nxt. linked layer pool (gm_del up nodeMap) u v"
        using ok(4) by (auto simp: linked_def set_gm_del)
      ultimately have "\<forall>(u, v) \<in> set (gm_put up ?v nxt). linked layer pool (gm_del up nodeMap) u v" by (rule linked_put [rotated])
      moreover have "gm_wf (gm_del up nodeMap)" using ok(1) by (simp add: gm_wf_def AList.distinct_delete)
      moreover have "set (gm_del up nodeMap) \<subseteq> set pool" using ok(3) by (auto simp: set_gm_del)
      ultimately show ?thesis using ok(2) Some None by (simp add: s roundInv_def linkUp_def gm_wf_put)
    qed
  qed
qed

lemma roundInv_linkLayer:
  assumes "\<forall>(k, v) \<in> set pool. tvID v = k" and "gm_wf pool"
  shows "roundInv layer pool (linkLayer links layer pool)"
proof -
  have one: "roundInv layer pool (fold (linkUp i w) ups s)" if "roundInv layer pool s" "(i, w) \<in> set layer" for i w ups s
    using that by (induction ups arbitrary: s) (simp_all add: roundInv_linkUp [OF _ _ assms(1)])
  have "roundInv layer pool (fold (\<lambda>(i, w). fold (linkUp i w) (gm_keys (upsOf links i))) xs s)"
    if "roundInv layer pool s" "set xs \<subseteq> set layer" for xs s
    using that
  proof (induction xs arbitrary: s)
    case (Cons x xs)
    obtain i w where x: "x = (i, w)" by (cases x)
    show ?case using Cons.IH [OF one [OF Cons.prems(1)]] Cons.prems(2) by (simp add: x)
  qed simp
  moreover have "roundInv layer pool (pool, [])" using assms(2) by (simp add: roundInv_def)
  ultimately show ?thesis unfolding linkLayer_def by blast
qed

text \<open>
  The round is complete: after the links \<open>T\<close> of the layer, the switches of the pool that are linked above one of its
  vertices are in the next layer, each over all the vertices it is linked to.
\<close>

definition roundExact :: "(string, VTree) gomap \<Rightarrow> ((string \<times> VTree) \<times> string) set \<Rightarrow> layerPair \<Rightarrow> bool" where
  "roundExact pool T = (\<lambda>(nodeMap, nxt).
     (\<forall>u. u \<in> set (gm_keys nxt) \<longleftrightarrow> u \<in> set (gm_keys pool) \<and> (\<exists>p. (p, u) \<in> T)) \<and>
     (\<forall>u. u \<in> set (gm_keys nodeMap) \<longleftrightarrow> u \<in> set (gm_keys pool) \<and> u \<notin> set (gm_keys nxt)) \<and>
     (\<forall>u v. gm_get nxt u = Some v \<longrightarrow> (\<forall>i w. gm_get (tvVertices v) i = Some (Some w) \<longleftrightarrow> ((i, w), u) \<in> T)))"

lemma set_keys_put: "set (gm_keys (gm_put k v m)) = insert k (set (gm_keys m))"
  by (simp add: dom_update)

lemma set_keys_del: "set (gm_keys (gm_del k m)) = set (gm_keys m) - {k}"
  by (auto simp: set_gm_del)

lemma addKid_get: "gm_get (tvVertices (addKid i w v)) j = (if j = i then Some (Some w) else gm_get (tvVertices v) j)"
  by (simp add: addKid_def)

lemma roundExact_linkUp:
  assumes ex: "roundExact pool T s" and fn: "\<And>w' u. ((i, w'), u) \<in> T \<Longrightarrow> w' = w"
  shows "roundExact pool (insert ((i, w), up) T) (linkUp i w up s)"
proof -
  obtain nodeMap nxt where s: "s = (nodeMap, nxt)" by (cases s)
  have nx: "\<And>u. u \<in> set (gm_keys nxt) \<longleftrightarrow> u \<in> set (gm_keys pool) \<and> (\<exists>p. (p, u) \<in> T)"
    and nm: "\<And>u. u \<in> set (gm_keys nodeMap) \<longleftrightarrow> u \<in> set (gm_keys pool) \<and> u \<notin> set (gm_keys nxt)"
    and ch: "\<And>u v i w. gm_get nxt u = Some v \<Longrightarrow> gm_get (tvVertices v) i = Some (Some w) \<longleftrightarrow> ((i, w), u) \<in> T"
    using ex unfolding s roundExact_def by blast+
  show ?thesis
  proof (cases "gm_get nxt up")
    case (Some v)
    have key: "up \<in> set (gm_keys nxt)" unfolding gm_key_get using Some by blast
    have "gm_get (tvVertices (addKid i w v)) j = Some (Some x) \<longleftrightarrow> ((j, x), up) \<in> insert ((i, w), up) T" for j x
      using ch [OF Some] fn by (auto simp: addKid_get)
    then have c: "gm_get (gm_put up (addKid i w v) nxt) u = Some y \<longrightarrow>
        (\<forall>j x. gm_get (tvVertices y) j = Some (Some x) \<longleftrightarrow> ((j, x), u) \<in> insert ((i, w), up) T)" for u y
      using ch [of u y] by (cases "u = up") auto
    have k: "set (gm_keys (gm_put up (addKid i w v) nxt)) = set (gm_keys nxt)" unfolding set_keys_put using key by blast
    have "linkUp i w up s = (nodeMap, gm_put up (addKid i w v) nxt)" by (simp add: s linkUp_def Some)
    moreover have "u \<in> set (gm_keys nxt) \<longleftrightarrow> u \<in> set (gm_keys pool) \<and> (\<exists>p. (p, u) \<in> insert ((i, w), up) T)" for u
      using nx [of u] key nx [of up] by blast
    ultimately show ?thesis unfolding roundExact_def prod.case k using c nm by (simp only: prod.case k) blast
  next
    case None
    then have nokey: "up \<notin> set (gm_keys nxt)" unfolding gm_key_get by simp
    show ?thesis
    proof (cases "gm_get nodeMap up")
      case None
      then have "up \<notin> set (gm_keys nodeMap)" unfolding gm_key_get by simp
      then have "up \<notin> set (gm_keys pool)" using nm nokey by blast
      moreover have "linkUp i w up s = (nodeMap, nxt)" using None \<open>gm_get nxt up = None\<close> by (simp add: s linkUp_def)
      moreover have "u \<noteq> up" if "gm_get nxt u = Some v" for u v using that \<open>gm_get nxt up = None\<close> by auto
      ultimately show ?thesis unfolding roundExact_def using nx nm ch by auto
    next
      case (Some v)
      let ?v = "addKid i w (VTree (tvID v) (tvName v) [])"
      have key: "up \<in> set (gm_keys nodeMap)" unfolding gm_key_get using Some by blast
      then have pool: "up \<in> set (gm_keys pool)" using nm by blast
      then have none: "(p, up) \<notin> T" for p using nx nokey by blast
      have "gm_get (tvVertices ?v) j = Some (Some x) \<longleftrightarrow> ((j, x), up) \<in> insert ((i, w), up) T" for j x
        using none by (auto simp: addKid_get)
      then have c: "gm_get (gm_put up ?v nxt) u = Some y \<longrightarrow>
          (\<forall>j x. gm_get (tvVertices y) j = Some (Some x) \<longleftrightarrow> ((j, x), u) \<in> insert ((i, w), up) T)" for u y
        using ch [of u y] by (cases "u = up") auto
      have k: "u \<in> set (gm_keys (gm_put up ?v nxt)) \<longleftrightarrow> u \<in> set (gm_keys pool) \<and> (\<exists>p. (p, u) \<in> insert ((i, w), up) T)" for u
        unfolding set_keys_put using nx [of u] pool by auto
      have "u \<in> set (gm_keys (gm_del up nodeMap)) \<longleftrightarrow> u \<in> set (gm_keys pool) \<and> u \<notin> set (gm_keys (gm_put up ?v nxt))" for u
        unfolding set_keys_put set_keys_del using nm [of u] by auto
      moreover have "linkUp i w up s = (gm_del up nodeMap, gm_put up ?v nxt)" using Some None by (simp add: s linkUp_def)
      ultimately show ?thesis unfolding roundExact_def using c k by (simp only: prod.case) blast
    qed
  qed
qed

lemma roundExact_linkLayer:
  assumes "gm_wf layer"
  shows "roundExact pool {((i, w), u). (i, w) \<in> set layer \<and> u \<in> set (gm_keys (upsOf links i))} (linkLayer links layer pool)"
proof -
  let ?ps = "concat (map (\<lambda>p. map (Pair p) (gm_keys (upsOf links (fst p)))) layer)"
  have step: "roundExact pool (T \<union> set ts) (fold (\<lambda>(p, u). linkUp (fst p) (snd p) u) ts s)"
    if "roundExact pool T s" "\<And>i w w' u u'. ((i, w), u) \<in> T \<union> set ts \<Longrightarrow> ((i, w'), u') \<in> T \<union> set ts \<Longrightarrow> w' = w" for ts T s
    using that
  proof (induction ts arbitrary: T s)
    case (Cons t ts)
    obtain i w u where t: "t = ((i, w), u)" by (cases t) auto
    have "roundExact pool (insert t T) (linkUp i w u s)"
      unfolding t by (rule roundExact_linkUp [OF Cons.prems(1)]) (use Cons.prems(2) [of i w u] t in auto)
    from Cons.IH [OF this] Cons.prems(2) have "roundExact pool (insert t T \<union> set ts) (fold (\<lambda>(p, u). linkUp (fst p) (snd p) u) ts (linkUp i w u s))"
      by auto
    then show ?case by (simp add: t)
  qed simp
  have T: "set ?ps = {((i, w), u). (i, w) \<in> set layer \<and> u \<in> set (gm_keys (upsOf links i))}"
  proof (rule set_eqI)
    fix t :: "(string \<times> VTree) \<times> string"
    obtain i w u where "t = ((i, w), u)" by (cases t) auto
    then show "t \<in> set ?ps \<longleftrightarrow> t \<in> {((i, w), u). (i, w) \<in> set layer \<and> u \<in> set (gm_keys (upsOf links i))}"
      unfolding set_concat set_map image_image by force
  qed
  have "w' = w" if "((i, w), u) \<in> {} \<union> set ?ps" "((i, w'), u') \<in> {} \<union> set ?ps" for i w w' u u'
    using that assms unfolding T gm_wf_def by (auto dest: eq_key_imp_eq_value)
  then have "roundExact pool ({} \<union> set ?ps) (fold (\<lambda>(p, u). linkUp (fst p) (snd p) u) ?ps (pool, []))"
    by (intro step) (auto simp: roundExact_def)
  moreover have "linkLayer links layer pool = fold (\<lambda>(p, u). linkUp (fst p) (snd p) u) ?ps (pool, [])"
    unfolding linkLayer_def fold_pairs [symmetric] by (simp only: case_prod_beta')
  ultimately show ?thesis unfolding T by simp
qed

lemma linkLayer_nextLevel:
  assumes wf: "gm_wf layer" "gm_wf pool" and ids: "\<forall>(k, v) \<in> set pool. tvID v = k"
    and round: "linkLayer links layer pool = (nodeMap, nxt)"
  shows "nextLevel (\<lambda>i u. u \<in> set (gm_keys (upsOf links i))) (set layer) (set (gm_keys pool)) (set nxt) (set (gm_keys nodeMap))"
proof -
  have ex: "\<And>u. u \<in> set (gm_keys nxt) \<longleftrightarrow> u \<in> set (gm_keys pool) \<and> (\<exists>i w. (i, w) \<in> set layer \<and> u \<in> set (gm_keys (upsOf links i)))"
    "\<And>u. u \<in> set (gm_keys nodeMap) \<longleftrightarrow> u \<in> set (gm_keys pool) \<and> u \<notin> set (gm_keys nxt)"
    "\<And>u v i w. gm_get nxt u = Some v \<Longrightarrow> gm_get (tvVertices v) i = Some (Some w) \<longleftrightarrow> (i, w) \<in> set layer \<and> u \<in> set (gm_keys (upsOf links i))"
    using roundExact_linkLayer [OF wf(1), of pool links] unfolding round roundExact_def by auto
  have r: "gm_wf nxt" "\<forall>(u, v) \<in> set nxt. linked layer pool nodeMap u v"
    using roundInv_linkLayer [OF ids wf(2), of layer links] round by (auto simp: roundInv_def)
  have v: "tvVertices v \<noteq> [] \<and> (\<forall>i w. (i, Some w) \<in> set (tvVertices v) \<longleftrightarrow> (i, w) \<in> set layer \<and> u \<in> set (gm_keys (upsOf links i)))"
    if uv: "(u, v) \<in> set nxt" for u v
  proof -
    have l: "linked layer pool nodeMap u v" using r(2) uv by blast
    then have "(i, Some w) \<in> set (tvVertices v) \<longleftrightarrow> gm_get (tvVertices v) i = Some (Some w)" for i w
      using gm_get_Some_mem [of "tvVertices v" i "Some w"] unfolding linked_def kidsIn_def by simp
    moreover have "gm_get nxt u = Some v" using uv gm_get_Some_mem [OF r(1)] by simp
    ultimately show ?thesis using ex(3) l unfolding linked_def by simp
  qed
  show ?thesis
    unfolding nextLevel_def
  proof (intro conjI)
    have "u \<in> fst ` set nxt \<longleftrightarrow> u \<in> set (gm_keys pool) \<and> (\<exists>i \<in> fst ` set layer. u \<in> set (gm_keys (upsOf links i)))" for u
      using ex(1) [of u] by force
    then show "fst ` set nxt = {u \<in> set (gm_keys pool). \<exists>i \<in> fst ` set layer. u \<in> set (gm_keys (upsOf links i))}" by blast
    show "set (gm_keys nodeMap) = set (gm_keys pool) - fst ` set nxt" using ex(2) by auto
    show "\<forall>(u, v) \<in> set nxt. tvVertices v \<noteq> [] \<and>
        (\<forall>i w. (i, Some w) \<in> set (tvVertices v) \<longleftrightarrow> (i, w) \<in> set layer \<and> u \<in> set (gm_keys (upsOf links i)))" using v by blast
  qed
qed

section \<open>All rounds\<close>

text \<open>
  The layer after \<open>k\<close> rounds: trees of depth \<open>k\<close> over the initial leaves, in which an ID names one
  vertex and no vertex is left in the pool.
\<close>

definition netqInv :: "VTree set \<Rightarrow> nat \<Rightarrow> (string, VTree) gomap \<Rightarrow> (string, VTree) gomap \<Rightarrow> bool" where
  "netqInv leaves k layer pool \<longleftrightarrow>
     gm_wf layer \<and> gm_wf pool \<and> (\<forall>(i, w) \<in> set layer. tvID w = i \<and> layered k w) \<and> (\<forall>(i, v) \<in> set pool. tvID v = i) \<and>
     vertexIDsOk k (gm_vals layer) \<and> set (levelBelow k (gm_vals layer)) \<subseteq> leaves \<and>
     (\<forall>j \<le> k. \<forall>u \<in> set (levelBelow j (gm_vals layer)). tvID u \<notin> set (gm_keys pool))"

lemma level_subset: "set vs \<subseteq> set ws \<Longrightarrow> set (levelBelow k vs) \<subseteq> set (levelBelow k ws)"
  using set_level [of k vs] set_level [of k ws] by blast

lemma linked_kids:
  assumes "linked layer pool nodeMap u v" and "w \<in> set (tvKids v)"
  shows "w \<in> set (gm_vals layer)"
proof -
  obtain c where "(c, Some w) \<in> set (tvVertices v)" using assms(2) by (auto simp: tvKids_iff)
  then have "(c, w) \<in> set layer" using assms(1) by (auto simp: linked_def kidsIn_def)
  then show ?thesis by force
qed

lemma layers_unique:
  assumes ids: "vertexIDsOk k (gm_vals layer)" and wf: "gm_wf nxt"
    and below: "\<And>j. set (levelBelow (Suc j) (gm_vals nxt)) \<subseteq> set (levelBelow j (gm_vals layer))"
    and outer: "\<And>u. u \<in> set (gm_vals nxt) \<Longrightarrow> tvID u \<in> X \<and> (tvID u, u) \<in> set nxt"
    and inner: "\<And>j u. u \<in> set (levelBelow (Suc j) (gm_vals nxt)) \<Longrightarrow> j \<le> k \<Longrightarrow> tvID u \<notin> X"
  shows "vertexIDsOk (Suc k) (gm_vals nxt)"
proof -
  have same: "u = w" if "u \<in> set (levelBelow i (gm_vals nxt))" "w \<in> set (levelBelow j (gm_vals nxt))" "i \<le> Suc k" "j \<le> Suc k" "tvID u = tvID w"
    for i j u w
  proof (cases i)
    case 0
    then have u: "u \<in> set (gm_vals nxt)" using that(1) by simp
    show ?thesis
    proof (cases j)
      case 0
      then have "w \<in> set (gm_vals nxt)" using that(2) by simp
      then show ?thesis using outer [OF u] outer [of w] wf that(5) by (auto simp: gm_wf_def dest: eq_key_imp_eq_value)
    next
      case (Suc j')
      then show ?thesis using outer [OF u] inner [of w j'] that by auto
    qed
  next
    case (Suc i')
    show ?thesis
    proof (cases j)
      case 0
      then show ?thesis using outer [of w] inner [of u i'] Suc that by auto
    next
      case (Suc j')
      then show ?thesis using ids below [of i'] below [of j'] \<open>i = Suc i'\<close> that unfolding vertexIDsOk_def by (metis Suc_le_mono subsetD)
    qed
  qed
  then show ?thesis unfolding vertexIDsOk_def by blast
qed

lemma round_levels:
  assumes "\<forall>(u, v) \<in> set nxt. linked layer pool nodeMap u v"
  shows "set (levelBelow (Suc j) (gm_vals nxt)) \<subseteq> set (levelBelow j (gm_vals layer))"
proof -
  have "set (concat (map tvKids (gm_vals nxt))) \<subseteq> set (gm_vals layer)"
  proof
    fix w assume "w \<in> set (concat (map tvKids (gm_vals nxt)))"
    then obtain i v where "(i, v) \<in> set nxt" and w: "w \<in> set (tvKids v)" by auto
    then have "linked layer pool nodeMap i v" using assms by blast
    then show "w \<in> set (gm_vals layer)" using w by (rule linked_kids)
  qed
  then show ?thesis using level_subset [of "concat (map tvKids (gm_vals nxt))" "gm_vals layer" j] by simp
qed

lemma netqInv_step:
  assumes inv: "netqInv leaves k layer pool" and round: "linkLayer links layer pool = (nodeMap, nxt)"
  shows "netqInv leaves (Suc k) nxt nodeMap"
proof -
  have pool: "\<forall>(i, v) \<in> set pool. tvID v = i" and layer: "\<forall>(i, w) \<in> set layer. tvID w = i \<and> layered k w"
    and ids: "vertexIDsOk k (gm_vals layer)" and out: "\<forall>j \<le> k. \<forall>u \<in> set (levelBelow j (gm_vals layer)). tvID u \<notin> set (gm_keys pool)"
    using inv by (auto simp: netqInv_def)
  have r: "gm_wf nodeMap" "gm_wf nxt" "set nodeMap \<subseteq> set pool" "\<forall>(u, v) \<in> set nxt. linked layer pool nodeMap u v"
    using roundInv_linkLayer [OF pool, of layer links] inv round by (auto simp: netqInv_def roundInv_def)
  have keys: "set (gm_keys nodeMap) \<subseteq> set (gm_keys pool)" using r(3) by auto
  have lay: "layered (Suc k) v" if "(u, v) \<in> set nxt" for u v
    using r(4) that layer by (fastforce simp: linked_def kidsIn_def)
  note below = round_levels [OF r(4)]
  have inner: "tvID u \<notin> set (gm_keys pool)" if "u \<in> set (levelBelow (Suc j) (gm_vals nxt))" "j \<le> k" for j u
    using below [of j] out that by blast
  have outer: "tvID u \<in> set (gm_keys pool) \<and> tvID u \<notin> set (gm_keys nodeMap) \<and> (tvID u, u) \<in> set nxt" if u: "u \<in> set (gm_vals nxt)" for u
  proof -
    obtain i where i: "(i, u) \<in> set nxt" using u by auto
    then have "linked layer pool nodeMap i u" using r(4) by blast
    then show ?thesis using i by (simp add: linked_def)
  qed
  have "vertexIDsOk (Suc k) (gm_vals nxt)"
    using layers_unique [OF ids r(2) below, of "set (gm_keys pool)"] outer inner by blast
  moreover have "tvID u \<notin> set (gm_keys nodeMap)" if "j \<le> Suc k" "u \<in> set (levelBelow j (gm_vals nxt))" for j u
    using that inner [of u "j - 1"] outer [of u] keys by (cases j) auto
  moreover have "set (levelBelow (Suc k) (gm_vals nxt)) \<subseteq> leaves" using below [of k] inv by (auto simp: netqInv_def)
  moreover have "\<forall>(i, w) \<in> set nxt. tvID w = i \<and> layered (Suc k) w" using lay r(4) unfolding linked_def by blast
  moreover have "\<forall>(i, v) \<in> set nodeMap. tvID v = i" using pool r(3) by auto
  ultimately show ?thesis using r(1,2) by (simp add: netqInv_def)
qed

text \<open>The loop stops at the highest layer.\<close>

lemma layerLoop_inv:
  assumes "netqInv leaves k layer pool"
    and "levelExact (\<lambda>i u. u \<in> set (gm_keys (upsOf links i))) L P k (set layer) (set (gm_keys pool))" and "k = 0 \<or> layer \<noteq> []"
  shows "\<exists>n pool'. netqInv leaves n (layerLoop links layer pool) pool' \<and>
    highest (\<lambda>i u. u \<in> set (gm_keys (upsOf links i))) L P n (gm_vals (layerLoop links layer pool))"
  using assms
proof (induction links layer pool arbitrary: k rule: layerLoop.induct)
  case (1 links layer pool)
  obtain nodeMap nxt where l: "linkLayer links layer pool = (nodeMap, nxt)" by (metis surj_pair)
  have wf: "gm_wf layer" "gm_wf pool" and ids: "\<forall>(i, v) \<in> set pool. tvID v = i" "\<forall>(i, v) \<in> set layer. tvID v = i"
    using "1.prems"(1) by (auto simp: netqInv_def)
  note nx = linkLayer_nextLevel [OF wf ids(1) l]
  have wfn: "gm_wf nodeMap" using roundInv_linkLayer [OF ids(1) wf(2), of layer links] l by (simp add: roundInv_def)
  have "length nodeMap = length pool \<longleftrightarrow> nxt = []"
  proof -
    have card: "card (set (gm_keys m)) = length m" if "gm_wf m" for m :: "(string, VTree) gomap"
      using distinct_card [of "gm_keys m"] that by (simp only: gm_wf_def length_map)
    have "set (gm_keys nodeMap) = set (gm_keys pool) - fst ` set nxt" and sub: "fst ` set nxt \<subseteq> set (gm_keys pool)"
      using nx unfolding nextLevel_def by blast+
    then have "length nodeMap = length pool - card (fst ` set nxt)"
      using card [OF wfn] card [OF wf(2)] by (simp only: card_Diff_subset finite_imageI finite_set)
    moreover have "card (fst ` set nxt) \<le> length pool"
      unfolding card [OF wf(2), symmetric] using sub by (intro card_mono finite_set)
    moreover have "0 < card (fst ` set nxt)" if "nxt \<noteq> []" using that by (simp add: card_gt_0_iff)
    ultimately show ?thesis by (cases "nxt = []") auto
  qed
  note stop = this
  show ?case
  proof (cases "length nodeMap = length pool")
    case True
    then have "layerLoop links layer pool = layer" by (subst layerLoop.simps) (simp add: l)
    then show ?thesis using "1.prems" levelExact_highest [OF "1.prems"(2) _ "1.prems"(3) ids(2)] nx True stop by auto
  next
    case False
    then have "layerLoop links layer pool = layerLoop links nxt nodeMap" by (subst layerLoop.simps) (simp add: l)
    then show ?thesis
      using "1.IH" [OF l [symmetric] refl False netqInv_step [OF "1.prems"(1) l] levelExact_step [OF "1.prems"(2) nx]] False stop by simp
  qed
qed

section \<open>The answer of the server\<close>

definition isLeaf :: "(string, bool) gomap \<Rightarrow> CNode \<Rightarrow> bool" where
  "isLeaf inputNodes c \<longleftrightarrow> cnTier c = -1 \<and> gm_get inputNodes (cnName c) = Some True"

definition splitInv :: "(string, bool) gomap \<Rightarrow> CNode list \<Rightarrow> splitState \<Rightarrow> bool" where
  "splitInv inputNodes cs st \<longleftrightarrow> gm_wf (spLayer st) \<and> gm_wf (spNodes st) \<and>
     (\<forall>(i, v) \<in> set (spLayer st). \<exists>c \<in> set cs. isLeaf inputNodes c \<and> i = cnId c \<and> v = VTree (cnId c) (cnName c) []) \<and>
     (\<forall>(i, v) \<in> set (spNodes st). tvID v = i \<and> (\<exists>c \<in> set cs. cnTier c \<noteq> -1 \<and> i = cnId c))"

lemma splitInv_step:
  assumes "splitInv inputNodes cs st" and "c \<in> set cs"
  shows "splitInv inputNodes cs (splitNode inputNodes c st)"
proof -
  let ?v = "VTree (cnId c) (cnName c) []"
  have layer: "\<forall>(i, v) \<in> set (gm_put (cnId c) ?v (spLayer st)). \<exists>c \<in> set cs. isLeaf inputNodes c \<and> i = cnId c \<and> v = VTree (cnId c) (cnName c) []"
    if "isLeaf inputNodes c"
    using assms that set_gm_put_subset [of "cnId c" ?v "spLayer st"] unfolding splitInv_def by blast
  have nodes: "\<forall>(i, v) \<in> set (gm_put (cnId c) ?v (spNodes st)). tvID v = i \<and> (\<exists>c \<in> set cs. cnTier c \<noteq> -1 \<and> i = cnId c)"
    if "cnTier c \<noteq> -1"
    using assms that set_gm_put_subset [of "cnId c" ?v "spNodes st"] unfolding splitInv_def by fastforce
  show ?thesis using assms layer nodes by (simp add: splitInv_def splitNode_def isLeaf_def Let_def gm_wf_put)
qed

lemma splitInv_splitNodes: "splitInv inputNodes (concat nodes) (splitNodes inputNodes nodes)"
proof -
  have "splitInv inputNodes (concat nodes) (fold (splitNode inputNodes) cs st)"
    if "set cs \<subseteq> set (concat nodes)" "splitInv inputNodes (concat nodes) st" for cs st
    using that by (induction cs arbitrary: st) (auto intro: splitInv_step simp del: set_concat)
  moreover have "splitInv inputNodes (concat nodes) \<lparr>spLayer = [], spNodes = [], spTiers = []\<rparr>"
    by (simp add: splitInv_def gm_wf_def)
  ultimately show ?thesis unfolding splitNodes_def by blast
qed

text \<open>What the answer says: the tier of a vertex is the one reported last, and a link goes up to the higher tier.\<close>

definition reportedTier :: "CNode list \<Rightarrow> string \<Rightarrow> int" where
  "reportedTier cs i = (case find (\<lambda>c. cnId c = i) (rev cs) of Some c \<Rightarrow> cnTier c | None \<Rightarrow> 0)"

definition linkedAbove :: "string list \<Rightarrow> CNode list \<Rightarrow> string \<Rightarrow> string \<Rightarrow> bool" where
  "linkedAbove links cs i u \<longleftrightarrow>
     (\<exists>l \<in> set links. (Split l ''-*-'' = [i, u] \<or> Split l ''-*-'' = [u, i]) \<and> reportedTier cs i < reportedTier cs u)"

definition requestedIDs :: "(string, bool) gomap \<Rightarrow> CNode list \<Rightarrow> string set" where
  "requestedIDs inputNodes cs = cnId ` set (filter (isLeaf inputNodes) cs)"

definition switchIDs :: "CNode list \<Rightarrow> string set" where
  "switchIDs cs = cnId ` set (filter (\<lambda>c. cnTier c \<noteq> -1) cs)"

lemma splitNodes_keys:
  "set (gm_keys (spLayer (splitNodes inputNodes nodes))) = requestedIDs inputNodes (concat nodes)"
  "set (gm_keys (spNodes (splitNodes inputNodes nodes))) = switchIDs (concat nodes)"
  "tierOf (spTiers (splitNodes inputNodes nodes)) i = reportedTier (concat nodes) i"
proof -
  have "set (gm_keys (spLayer (fold (splitNode inputNodes) cs \<lparr>spLayer = [], spNodes = [], spTiers = []\<rparr>))) = requestedIDs inputNodes cs \<and>
    set (gm_keys (spNodes (fold (splitNode inputNodes) cs \<lparr>spLayer = [], spNodes = [], spTiers = []\<rparr>))) = switchIDs cs \<and>
    tierOf (spTiers (fold (splitNode inputNodes) cs \<lparr>spLayer = [], spNodes = [], spTiers = []\<rparr>)) i = reportedTier cs i" for cs
  proof (induction cs rule: rev_induct)
    case Nil
    show ?case by (simp add: requestedIDs_def switchIDs_def reportedTier_def tierOf_def)
  next
    case (snoc c cs)
    have "requestedIDs inputNodes (cs @ [c]) = (if isLeaf inputNodes c then insert (cnId c) (requestedIDs inputNodes cs) else requestedIDs inputNodes cs)"
      "switchIDs (cs @ [c]) = (if cnTier c \<noteq> -1 then insert (cnId c) (switchIDs cs) else switchIDs cs)"
      by (auto simp: requestedIDs_def switchIDs_def)
    then show ?case using snoc
      by (auto simp: splitNode_def Let_def isLeaf_def dom_update reportedTier_def tierOf_def)
  qed
  then show "set (gm_keys (spLayer (splitNodes inputNodes nodes))) = requestedIDs inputNodes (concat nodes)"
    "set (gm_keys (spNodes (splitNodes inputNodes nodes))) = switchIDs (concat nodes)"
    "tierOf (spTiers (splitNodes inputNodes nodes)) i = reportedTier (concat nodes) i" unfolding splitNodes_def by blast+
qed

lemma addLink_ups:
  "u \<in> set (gm_keys (upsOf (addLink T l links) i)) \<longleftrightarrow> u \<in> set (gm_keys (upsOf links i)) \<or>
     (Split l ''-*-'' = [i, u] \<or> Split l ''-*-'' = [u, i]) \<and> tierOf T i < tierOf T u"
proof (cases "\<exists>a b. Split l ''-*-'' = [a, b]")
  case True
  then obtain a b where ab: "Split l ''-*-'' = [a, b]" by blast
  have put: "set (gm_keys (upsOf (gm_put low (gm_put high True (upsOf links low)) links) i)) =
      (if i = low then insert high (set (gm_keys (upsOf links i))) else set (gm_keys (upsOf links i)))" for low high
    by (simp add: upsOf_def dom_update)
  consider "tierOf T a = tierOf T b" | "tierOf T a > tierOf T b" | "tierOf T a < tierOf T b" by linarith
  then show ?thesis
  proof cases
    case 1
    then show ?thesis by (auto simp: addLink_def ab)
  next
    case 2
    then have eq: "addLink T l links = gm_put b (gm_put a True (upsOf links b)) links" by (simp add: addLink_def ab)
    show ?thesis unfolding eq put ab using 2 by (auto split: if_splits)
  next
    case 3
    then have eq: "addLink T l links = gm_put a (gm_put b True (upsOf links a)) links" by (simp add: addLink_def ab)
    show ?thesis unfolding eq put ab using 3 by (auto split: if_splits)
  qed
next
  case False
  then have "addLink T l links = links" by (auto simp: addLink_def split: list.splits)
  then show ?thesis using False by auto
qed

lemma links_above:
  assumes "\<And>j. tierOf T j = reportedTier cs j"
  shows "u \<in> set (gm_keys (upsOf (fold (addLink T) ls []) i)) \<longleftrightarrow> linkedAbove ls cs i u"
proof -
  have "u \<in> set (gm_keys (upsOf (fold (addLink T) ls links) i)) \<longleftrightarrow>
      u \<in> set (gm_keys (upsOf links i)) \<or> linkedAbove ls cs i u" for links
  proof (induction ls arbitrary: links)
    case (Cons l ls)
    have "linkedAbove (l # ls) cs i u \<longleftrightarrow>
        (Split l ''-*-'' = [i, u] \<or> Split l ''-*-'' = [u, i]) \<and> tierOf T i < tierOf T u \<or> linkedAbove ls cs i u"
      unfolding linkedAbove_def assms by (auto simp only: list.set insert_iff)
    then show ?case using Cons.IH [of "addLink T l links"] unfolding addLink_ups by auto
  qed (simp add: linkedAbove_def)
  from this [of "[]"] show ?thesis by (simp add: upsOf_def)
qed

text \<open>IDs are unambiguous when no requested node has the ID of a switch.\<close>

lemma topLayer_inv:
  assumes "\<And>c d. c \<in> set (concat (nrNodes r)) \<Longrightarrow> d \<in> set (concat (nrNodes r)) \<Longrightarrow> isLeaf inputNodes c \<Longrightarrow> cnTier d \<noteq> -1 \<Longrightarrow> cnId c \<noteq> cnId d"
  shows "\<exists>n pool. netqInv {VTree (cnId c) (cnName c) [] | c. c \<in> set (concat (nrNodes r)) \<and> isLeaf inputNodes c} n (topLayer r inputNodes) pool \<and>
    highest (linkedAbove (nrLinks r) (concat (nrNodes r))) (requestedIDs inputNodes (concat (nrNodes r))) (switchIDs (concat (nrNodes r))) n
      (gm_vals (topLayer r inputNodes))"
proof -
  let ?st = "splitNodes inputNodes (nrNodes r)"
  let ?leaves = "{VTree (cnId c) (cnName c) [] | c. c \<in> set (concat (nrNodes r)) \<and> isLeaf inputNodes c}"
  have st: "splitInv inputNodes (concat (nrNodes r)) ?st" by (rule splitInv_splitNodes)
  have key: "tvID v = i \<and> tvVertices v = [] \<and> v \<in> ?leaves \<and> i \<notin> set (gm_keys (spNodes ?st))" if mem: "(i, v) \<in> set (spLayer ?st)" for i v
  proof -
    obtain c where c: "c \<in> set (concat (nrNodes r))" "isLeaf inputNodes c" "i = cnId c" "v = VTree (cnId c) (cnName c) []"
      using st mem unfolding splitInv_def by blast
    have "i \<notin> set (gm_keys (spNodes ?st))"
    proof
      assume "i \<in> set (gm_keys (spNodes ?st))"
      then obtain x where "(i, x) \<in> set (spNodes ?st)" by auto
      then obtain d where "d \<in> set (concat (nrNodes r))" "cnTier d \<noteq> -1" "i = cnId d" using st unfolding splitInv_def by blast
      then show False using assms c by metis
    qed
    then show ?thesis using c by auto
  qed
  have "vertexIDsOk 0 (gm_vals (spLayer ?st))"
    using key st by (auto simp: vertexIDsOk_def splitInv_def gm_wf_def dest: eq_key_imp_eq_value)
  have "\<forall>(i, w) \<in> set (spLayer ?st). tvID w = i \<and> layered 0 w" using key by auto
  have vals: "\<forall>u \<in> set (gm_vals (spLayer ?st)). u \<in> ?leaves \<and> tvID u \<notin> set (gm_keys (spNodes ?st))"
  proof
    fix u assume "u \<in> set (gm_vals (spLayer ?st))"
    then obtain i where "(i, u) \<in> set (spLayer ?st)" by auto
    from key [OF this] show "u \<in> ?leaves \<and> tvID u \<notin> set (gm_keys (spNodes ?st))" by metis
  qed
  have "\<forall>(i, v) \<in> set (spNodes ?st). tvID v = i" "gm_wf (spLayer ?st)" "gm_wf (spNodes ?st)"
    using st unfolding splitInv_def by blast+
  have "set (levelBelow 0 (gm_vals (spLayer ?st))) \<subseteq> ?leaves" using vals by (simp only: levelBelow.simps) blast
  have "\<forall>j \<le> 0. \<forall>u \<in> set (levelBelow j (gm_vals (spLayer ?st))). tvID u \<notin> set (gm_keys (spNodes ?st))"
    using vals by (metis le_zero_eq levelBelow.simps(1))
  have "netqInv ?leaves 0 (spLayer ?st) (spNodes ?st)"
    unfolding netqInv_def by (intro conjI) fact+
  moreover
  let ?links = "fold (addLink (spTiers ?st)) (nrLinks r) []" and ?cs = "concat (nrNodes r)"
  have up: "(\<lambda>i u. u \<in> set (gm_keys (upsOf ?links i))) = linkedAbove (nrLinks r) ?cs"
    using links_above [OF splitNodes_keys(3)] by (intro ext)
  have "levelExact (linkedAbove (nrLinks r) ?cs) (requestedIDs inputNodes ?cs) (switchIDs ?cs) 0 (set (spLayer ?st)) (set (gm_keys (spNodes ?st)))"
    unfolding splitNodes_keys(2)
  proof (rule levelExact_0)
    show "requestedIDs inputNodes ?cs \<inter> switchIDs ?cs = {}"
      using assms unfolding requestedIDs_def switchIDs_def set_filter by blast
    show "fst ` set (spLayer ?st) = requestedIDs inputNodes ?cs" using splitNodes_keys(1) [of inputNodes "nrNodes r"] by (simp only: set_map)
    show "\<forall>(u, v) \<in> set (spLayer ?st). tvID v = u \<and> tvVertices v = []" using key by blast
  qed
  ultimately show ?thesis unfolding topLayer_def Let_def up [symmetric] using layerLoop_inv [of ?leaves 0] by blast
qed

text \<open>
  C32. On an answer in which no requested node has the ID of a switch, parsing returns without a panic
  or an endless recursion. The vertices it adds below the root are among those that stand highest above the
  requested nodes: the shortest way up from a requested node to such a vertex has \<open>n\<close> links, and no switch stands
  higher. The nodes below a vertex are exactly the requested nodes from which it is reached in \<open>n\<close> links, the
  nodes of the result are exactly those from which a vertex of that height is, and no two of the switches
  have the same children.
\<close>

theorem parseNetq_returns:
  assumes "decode data = Inr [r]" and cs: "cs = concat (nrNodes r)"
    and "\<And>c d. c \<in> set cs \<Longrightarrow> d \<in> set cs \<Longrightarrow> isLeaf inputNodes c \<Longrightarrow> cnTier d \<noteq> -1 \<Longrightarrow> cnId c \<noteq> cnId d"
  shows "\<exists>tops n. parseNetq decode root data inputNodes = Some (Inr (Inr (fold (\<lambda>v. gm_put (tvID v) v) tops root))) \<and>
    highest (linkedAbove (nrLinks r) cs) (requestedIDs inputNodes cs) (switchIDs cs) n tops \<and>
    (0 < n \<longrightarrow> distinct (map (set \<circ> gm_keys \<circ> tvVertices) tops))"
proof -
  let ?L = "topLayer r inputNodes"
  from topLayer_inv [of r inputNodes] assms(3) obtain n pool where
    inv: "netqInv {VTree (cnId c) (cnName c) [] | c. c \<in> set cs \<and> isLeaf inputNodes c} n ?L pool"
    and hi: "highest (linkedAbove (nrLinks r) cs) (requestedIDs inputNodes cs) (switchIDs cs) n (gm_vals ?L)"
    unfolding cs by blast
  have lay: "\<forall>v \<in> set (gm_vals ?L). layered n v" using inv by (auto simp: netqInv_def)
  have "\<exists>tops. mergeRoots (gm_vals ?L) = Some (Inr tops) \<and> tierMerged n (set (gm_vals ?L)) tops"
  proof (cases "gm_vals ?L = []")
    case True
    have "mergeRoots [] = Some (Inr [])" by (simp add: mergeRoots_def NewMerger_def emptyMerger_def Merge_def TopTier_def)
    then show ?thesis unfolding True by (simp add: tierMerged_def)
  next
    case False
    have "map tvID (gm_vals ?L) = gm_keys ?L" using inv by (auto simp: netqInv_def)
    then have "distinct (map tvID (gm_vals ?L))" using inv unfolding netqInv_def gm_wf_def by metis
    moreover have "vertexIDsOk n (gm_vals ?L)" using inv unfolding netqInv_def by blast
    ultimately obtain m m' where "NewMerger (gm_vals ?L) = Some (Inr m)" "Merge m = Inr m'" "tierMerged n (set (gm_vals ?L)) (TopTier m')"
      using Merge_returns [OF False lay] by blast
    then show ?thesis by (simp add: mergeRoots_def)
  qed
  then obtain tops where tops: "mergeRoots (gm_vals ?L) = Some (Inr tops)" "tierMerged n (set (gm_vals ?L)) tops" by blast
  have "parseNetq decode root data inputNodes = Some (Inr (Inr (fold (\<lambda>v. gm_put (tvID v) v) tops root)))"
    by (simp add: parseNetq_def assms(1) tops(1))
  moreover note highest_merged [OF hi lay tops(2)]
  moreover have "0 < n \<longrightarrow> distinct (map (set \<circ> gm_keys \<circ> tvVertices) tops)" using tops(2) by (simp add: tierMerged_def)
  ultimately show ?thesis by blast
qed

text \<open>
  Two fabrics of different depth: \<open>n1\<close> below one switch, \<open>n2\<close> below a leaf switch with a spine above.
  After two rounds the layer has only the spine, so the first switch and \<open>n1\<close> are gone, although the server
  reported them and \<open>n1\<close> was requested.
\<close>

definition demoResponse :: NetqResponse where
  "demoResponse =
     \<lparr>nrLinks = [''a-*-s1'', ''b-*-s2'', ''s2-*-s3''],
      nrNodes = [[\<lparr>cnId = ''a'', cnName = ''n1'', cnTier = -1\<rparr>, \<lparr>cnId = ''b'', cnName = ''n2'', cnTier = -1\<rparr>,
        \<lparr>cnId = ''s1'', cnName = ''sw1'', cnTier = 0\<rparr>, \<lparr>cnId = ''s2'', cnName = ''sw2'', cnTier = 0\<rparr>,
        \<lparr>cnId = ''s3'', cnName = ''sw3'', cnTier = 1\<rparr>]]\<rparr>"

lemma topLayer_loses_node:
  "topLayer demoResponse [(''n1'', True), (''n2'', True)] =
     [(''s3'', VTree ''s3'' ''sw3'' [(''s2'', Some (VTree ''s2'' ''sw2'' [(''b'', Some (VTree ''b'' ''n2'' []))]))])]"
  by code_simp

lemma parseNetq_returns_witness:
  "\<exists>tops n. parseNetq (\<lambda>_. Inr [demoResponse]) [] ''answer'' [(''n1'', True), (''n2'', True)] =
      Some (Inr (Inr (fold (\<lambda>v. gm_put (tvID v) v) tops []))) \<and>
    highest (linkedAbove (nrLinks demoResponse) (concat (nrNodes demoResponse))) {''a'', ''b''} {''s1'', ''s2'', ''s3''} n tops"
proof -
  let ?ns = "[(''n1'', True), (''n2'', True)]" and ?cs = "concat (nrNodes demoResponse)"
  have ids: "requestedIDs ?ns ?cs = {''a'', ''b''}" "switchIDs ?cs = {''s1'', ''s2'', ''s3''}"
    by (auto simp: requestedIDs_def switchIDs_def demoResponse_def isLeaf_def)
  have "cnId c \<noteq> cnId d" if "c \<in> set ?cs" "d \<in> set ?cs" "isLeaf ?ns c" "cnTier d \<noteq> -1" for c d
    using that by (auto simp: demoResponse_def isLeaf_def)
  from parseNetq_returns [of "\<lambda>_. Inr [demoResponse]" "''answer''" demoResponse ?cs ?ns "[]", OF refl refl this, unfolded ids]
  show ?thesis by blast
qed

end
