(* ===== verification/GraphTypes.thy ===== *)
theory GraphTypes
  imports NetTopology
begin

text \<open>
  What every graph of \<open>ToGraph\<close> satisfies, whatever the provider reports and however often vertices are
  merged: the map of each vertex has distinct keys, no child is nil or dangling, the root exists, and
  the accelerator domains are well formed. This is what the engines assume of their input.
\<close>

section \<open>Typed heaps\<close>

definition vertexOk :: "nat \<Rightarrow> Vertex \<Rightarrow> bool" where
  "vertexOk n v \<longleftrightarrow> gm_wf (Vertices v) \<and> (\<forall>(k, c) \<in> set (Vertices v). \<exists>a < n. c = Some a)"

definition heapTyped :: "heap \<Rightarrow> bool" where
  "heapTyped h \<longleftrightarrow> (\<forall>v \<in> set h. vertexOk (length h) v)"

lemma vertexOk_mono: "vertexOk n v \<Longrightarrow> n \<le> m \<Longrightarrow> vertexOk m v"
  unfolding vertexOk_def by fastforce

lemma heapVertex_put: "vertexOk n v \<Longrightarrow> a < n \<Longrightarrow> vertexOk n (v\<lparr>Vertices := gm_put k (Some a) (Vertices v)\<rparr>)"
  using set_gm_put_subset [of k "Some a" "Vertices v"] by (auto simp: vertexOk_def gm_wf_put)

lemma heapTyped_update: "heapTyped h \<Longrightarrow> vertexOk (length h) v \<Longrightarrow> heapTyped (h[a := v])"
  using set_update_subset_insert [of h a v] by (auto simp: heapTyped_def)

lemma heapTyped_nth: "heapTyped h \<Longrightarrow> a < length h \<Longrightarrow> vertexOk (length h) (h ! a)"
  by (simp add: heapTyped_def)

lemma heapTyped_append: "heapTyped h \<Longrightarrow> vertexOk (Suc (length h)) v \<Longrightarrow> heapTyped (h @ [v])"
  by (auto simp: heapTyped_def intro: vertexOk_mono)

lemma heapTyped_addChild: "heapTyped h \<Longrightarrow> a < length h \<Longrightarrow> b < length h \<Longrightarrow> heapTyped (addChild a k (Some b) h)"
  unfolding addChild_def by (intro heapTyped_update heapVertex_put heapTyped_nth)

lemma merge_typed:
  "mergeVertices n dst src h = Some h' \<Longrightarrow> heapTyped h \<Longrightarrow> dst < length h \<Longrightarrow> src < length h \<Longrightarrow>
     heapTyped h' \<and> length h' = length h"
  "mergeChildren n dst cs h = Some h' \<Longrightarrow> heapTyped h \<Longrightarrow> dst < length h \<Longrightarrow>
     \<forall>(k, c) \<in> set cs. \<exists>a < length h. c = Some a \<Longrightarrow> heapTyped h' \<and> length h' = length h"
proof (induction n dst src h and n dst cs h arbitrary: h' and h' rule: mergeVertices_mergeChildren.induct)
  case (2 n dst src h)
  show ?case
  proof (cases "dst = src")
    case True
    then show ?thesis using "2.prems" by simp
  next
    case False
    let ?h1 = "if vName (h ! dst) = [] then h[dst := (h ! dst)\<lparr>vName := vName (h ! src)\<rparr>] else h"
    have "vertexOk (length h) ((h ! dst)\<lparr>vName := vName (h ! src)\<rparr>)"
      using heapTyped_nth [OF "2.prems"(2,3)] by (simp add: vertexOk_def)
    then have h1: "heapTyped ?h1" "length ?h1 = length h" using "2.prems"(2) heapTyped_update by auto
    have "vertexOk (length ?h1) (?h1 ! src)" using heapTyped_nth [OF h1(1)] h1(2) "2.prems"(4) by simp
    then have "\<forall>(k, c) \<in> set (Vertices (?h1 ! src)). \<exists>a < length ?h1. c = Some a" unfolding vertexOk_def by blast
    moreover have "mergeChildren n dst (Vertices (?h1 ! src)) ?h1 = Some h'" using "2.prems"(1) False by (simp add: Let_def)
    ultimately have "heapTyped h' \<and> length h' = length ?h1"
      using "2.IH" [OF False refl _ h1(1)] "2.prems"(3) unfolding h1(2) by blast
    then show ?thesis unfolding h1(2) .
  qed
next
  case (4 n dst key child rest h)
  obtain c where c: "child = Some c" "c < length h" using "4.prems"(4) by auto
  show ?case
  proof (cases "gm_get (Vertices (h ! dst)) key")
    case None
    have "heapTyped (addChild dst key child h)" using heapTyped_addChild [OF "4.prems"(2,3)] c by simp
    then show ?thesis using "4.IH"(1) [OF None] "4.prems" None by simp
  next
    case (Some existing)
    then obtain e h1 where e: "existing = Some e" and h1: "mergeVertices n e c h = Some h1" "mergeChildren n dst rest h1 = Some h'"
      using "4.prems"(1) c by (auto split: option.splits)
    have "vertexOk (length h) (h ! dst)" using heapTyped_nth [OF "4.prems"(2,3)] .
    then have "e < length h" using map_of_SomeD [OF Some] e unfolding vertexOk_def by fastforce
    from "4.IH"(2) [OF Some refl e c(1) h1(1) "4.prems"(2) this c(2)] have "heapTyped h1 \<and> length h1 = length h" .
    then show ?thesis using "4.IH"(3) [OF Some refl e c(1) h1(1) h1(2)] "4.prems"(3,4) by simp
  qed
qed simp_all

section \<open>ToGraph\<close>

definition nodesIn :: "nat \<Rightarrow> ('k, nat) gomap \<Rightarrow> bool" where
  "nodesIn n m \<longleftrightarrow> (\<forall>(k, a) \<in> set m. a < n)"

lemma nodesIn_put: "nodesIn n m \<Longrightarrow> a < n \<Longrightarrow> nodesIn n (gm_put k a m)"
  using set_gm_put_subset [of k a m] by (auto simp: nodesIn_def)

lemma nodesIn_get: "nodesIn n m \<Longrightarrow> gm_get m k = Some a \<Longrightarrow> a < n"
  by (auto simp: nodesIn_def dest: map_of_SomeD)

lemma nodesIn_mono: "nodesIn n m \<Longrightarrow> n \<le> n' \<Longrightarrow> nodesIn n' m"
  by (fastforce simp: nodesIn_def)

definition linkOk :: "heap \<times> (nat \<times> string, nat) gomap \<times> nat \<Rightarrow> bool" where
  "linkOk = (\<lambda>(h, nodes, cur). heapTyped h \<and> nodesIn (length h) nodes \<and> cur < length h)"

lemma linkOk_linkTier: "linkOk s \<Longrightarrow> linkOk (linkTier s x) \<and> length (fst s) \<le> length (fst (linkTier s x))"
  by (cases s; cases x)
    (auto simp: linkOk_def linkTier_def Let_def vertexOk_def gm_wf_def
      intro!: heapTyped_addChild heapTyped_append nodesIn_put
      intro: nodesIn_get nodesIn_mono split: option.splits)

lemma linkOk_linkTiers: "linkOk s \<Longrightarrow> linkOk (foldl linkTier s xs) \<and> length (fst s) \<le> length (fst (foldl linkTier s xs))"
proof (induction xs arbitrary: s)
  case (Cons x xs)
  show ?case using linkOk_linkTier [OF Cons.prems, of x] Cons.IH [of "linkTier s x"] by (auto intro: order_trans)
qed simp

definition stateOk :: "graphState \<Rightarrow> bool" where
  "stateOk st \<longleftrightarrow> heapTyped (gsHeap st) \<and> nodesIn (length (gsHeap st)) (gsNodes st) \<and>
     nodesIn (length (gsHeap st)) (gsForest st) \<and> domainsOk (gsDomains st)"

lemma stateOk_addInstance:
  assumes ok: "stateOk st" and step: "addInstance fuel trim inst st = Some st'"
  shows "stateOk st'"
proof (cases "gm_get (gsI2n st) (InstanceID inst)")
  case None
  then show ?thesis using assms by (simp add: addInstance_def)
next
  case (Some name)
  let ?h0 = "gsHeap st @ [\<lparr>vName = name, vID = InstanceID inst, Vertices = []\<rparr>]"
  obtain h1 ns cur where l: "linkTiers (trimmedTiers inst trim) ?h0 (gsNodes st) (length (gsHeap st)) = (h1, ns, cur)"
    by (metis surj_pair)
  have "linkOk (?h0, gsNodes st, length (gsHeap st))"
    using ok by (auto simp: linkOk_def stateOk_def vertexOk_def gm_wf_def intro!: heapTyped_append intro: nodesIn_mono)
  from linkOk_linkTiers [OF this, of "enumerate 0 (trimmedTiers inst trim)"]
  have h1: "heapTyped h1" "nodesIn (length h1) ns" "cur < length h1" "length (gsHeap st) < length h1"
    using l by (auto simp: linkTiers_def linkOk_def)
  have forest: "nodesIn (length h1) (gsForest st)" using ok h1(4) by (auto simp: stateOk_def intro: nodesIn_mono)
  have dom: "domainsOk (AddHostInfo x (gsDomains st))" "domainsOk (gsDomains st)" for x
    using ok domainsOk_AddHostInfo by (auto simp: stateOk_def)
  show ?thesis
  proof (cases "gm_get (gsForest st) (vID (h1 ! cur))")
    case None
    then show ?thesis using step Some l h1 forest dom
      by (auto simp: addInstance_def Let_def stateOk_def intro: nodesIn_put)
  next
    case root: (Some r)
    then obtain h2 where h2: "mergeVertices fuel r cur h1 = Some h2" and st': "gsHeap st' = h2" "gsNodes st' = ns" "gsForest st' = gsForest st" "domainsOk (gsDomains st')"
      using step Some l dom by (auto simp: addInstance_def Let_def split: option.splits)
    have "heapTyped h2 \<and> length h2 = length h1"
      using merge_typed(1) [OF h2 h1(1) nodesIn_get [OF forest root] h1(3)] .
    then show ?thesis using st' h1 forest dom by (auto simp: stateOk_def)
  qed
qed

lemma stateOk_addInstances: "stateOk st \<Longrightarrow> addInstances fuel trim c st = Some st' \<Longrightarrow> stateOk st'"
  by (induction c arbitrary: st) (auto split: option.splits intro: stateOk_addInstance)

definition leavesOk :: "heap \<times> (string, nat option) gomap \<Rightarrow> bool" where
  "leavesOk = (\<lambda>(h, vs). heapTyped h \<and> gm_wf vs \<and> (\<forall>(k, c) \<in> set vs. \<exists>a < length h. c = Some a))"

lemma leavesOk_addLeaf:
  assumes "leavesOk s"
  shows "leavesOk (addLeaf s x) \<and> length (fst s) \<le> length (fst (addLeaf s x))"
proof -
  obtain h vs where s: "s = (h, vs)" by (cases s)
  obtain i n where x: "x = (i, n)" by (cases x)
  have "\<exists>a < Suc (length h). c = Some a" if "(k, c) \<in> set (gm_put i (Some (length h)) vs)" for k c
  proof -
    have "(k, c) = (i, Some (length h)) \<or> (k, c) \<in> set vs" using that set_gm_put_subset [of i "Some (length h)" vs] by blast
    then show ?thesis using assms by (auto simp: s leavesOk_def)
  qed
  moreover have "heapTyped (h @ [\<lparr>vName = n, vID = i, Vertices = []\<rparr>])"
    using assms by (auto simp: s leavesOk_def vertexOk_def gm_wf_def intro!: heapTyped_append)
  ultimately show ?thesis using assms by (auto simp: s x leavesOk_def addLeaf_def gm_wf_put)
qed

lemma leavesOk_addLeaves: "leavesOk s \<Longrightarrow> leavesOk (foldl addLeaf s xs) \<and> length (fst s) \<le> length (fst (foldl addLeaf s xs))"
proof (induction xs arbitrary: s)
  case (Cons x xs)
  show ?case using leavesOk_addLeaf [OF Cons.prems, of x] Cons.IH [of "addLeaf s x"] by (auto intro: order_trans)
qed simp

lemma stateOk_addNoTopology:
  assumes "stateOk st"
  shows "stateOk (addNoTopology st)"
proof (cases "gsI2n st = []")
  case True
  then show ?thesis using assms by (simp add: addNoTopology_def)
next
  case False
  obtain h vs where l: "foldl addLeaf (gsHeap st, []) (gsI2n st) = (h, vs)" by (cases "foldl addLeaf (gsHeap st, []) (gsI2n st)")
  have "leavesOk (gsHeap st, [])" using assms by (simp add: leavesOk_def stateOk_def gm_wf_def)
  from leavesOk_addLeaves [OF this, of "gsI2n st"] have ok: "leavesOk (h, vs)" "length (gsHeap st) \<le> length h" using l by auto
  let ?v = "\<lparr>vName = [], vID = NoTopology, Vertices = vs\<rparr>"
  have "vertexOk (Suc (length h)) ?v" using ok(1) by (fastforce simp: leavesOk_def vertexOk_def)
  then have "heapTyped (h @ [?v])" using ok(1) by (intro heapTyped_append) (auto simp: leavesOk_def)
  moreover have "nodesIn (Suc (length h)) (gsNodes st)" "nodesIn (Suc (length h)) (gsForest st)"
    using assms ok(2) by (auto simp: stateOk_def intro: nodesIn_mono)
  ultimately show ?thesis using assms False l by (simp add: addNoTopology_def stateOk_def nodesIn_put)
qed

lemma gm_copy_subset: "set (gm_copy dst src) \<subseteq> set dst \<union> set src"
proof (induction src arbitrary: dst)
  case (Cons x src)
  obtain k v where x: "x = (k, v)" by (cases x)
  show ?case using Cons.IH [of "gm_put k v dst"] set_gm_put_subset [of k v dst] by (auto simp: x gm_copy_def)
qed (simp add: gm_copy_def)

lemma ToGraph_result_typed:
  assumes "ToGraph fuel c cis trimTiers normalise = Some (h, g)"
  shows "heapTyped h \<and> heapWf h \<and> rootIn h (Some g) \<and> (\<exists>r. Tiers g = Some r \<and> vID (h ! r) = []) \<and>
    (case gDomains g of None \<Rightarrow> True | Some doms \<Rightarrow> domainsOk doms)"
proof -
  let ?st0 = "\<lparr>gsHeap = [], gsForest = [], gsNodes = [], gsDomains = NewDomainMap, gsI2n = instanceNames cis, gsInstances = []\<rparr>"
  obtain st where st: "addInstances fuel trimTiers (if normalise then Normalize c else c) ?st0 = Some st"
    using assms by (auto simp: ToGraph_def Let_def split: option.splits)
  let ?s = "addNoTopology st"
  let ?root = "\<lparr>vName = [], vID = [], Vertices = gm_copy [] (map (apsnd Some) (gsForest ?s))\<rparr>"
  have "stateOk ?st0" by (simp add: stateOk_def heapTyped_def nodesIn_def domainsOk_empty)
  then have ok: "stateOk ?s" using stateOk_addInstances [OF _ st] stateOk_addNoTopology by blast
  have res: "h = gsHeap ?s @ [?root]" "Tiers g = Some (length (gsHeap ?s))"
    "gDomains g = (if gsDomains ?s \<noteq> [] then Some (gsDomains ?s) else None)"
    using assms st by (auto simp: ToGraph_def Let_def)
  have "\<exists>a < Suc (length (gsHeap ?s)). x = Some a" if "(k, x) \<in> set (gm_copy [] (map (apsnd Some) (gsForest ?s)))" for k x
  proof -
    have "(k, x) \<in> set (map (apsnd Some) (gsForest ?s))" using that gm_copy_subset [of "[]" "map (apsnd Some) (gsForest ?s)"] by auto
    then obtain a where "(k, a) \<in> set (gsForest ?s)" "x = Some a" by auto
    then show ?thesis using ok by (auto simp: stateOk_def nodesIn_def)
  qed
  moreover have "gm_wf (gm_copy [] (map (apsnd Some) (gsForest ?s)))" by (rule gm_wf_copy) (simp add: gm_wf_def)
  ultimately have "vertexOk (Suc (length (gsHeap ?s))) ?root" by (auto simp: vertexOk_def)
  then have "heapTyped h" using ok unfolding res(1) by (intro heapTyped_append) (simp add: stateOk_def)
  then show ?thesis using ok res by (auto simp: heapWf_def list_all_iff heapTyped_def vertexOk_def rootIn_def stateOk_def)
qed



end
